(* ===== verification/Prelude.thy ===== *)
theory Prelude
  imports Main "HOL-Library.Word"
begin

text \<open>
  Shared vocabulary of the development.

  \<^item> \<open>error\<close>, \<open>result\<close>: a C++ call either returns a value or stops the process. An
    \<open>assert\<close> of the source (the repository's build sets no \<open>NDEBUG\<close>), a \<open>LOG_FATAL\<close> or
    \<open>LOG_SYSFATAL\<close> (\<open>Logger::~Logger\<close> aborts), a \<open>std::length_error\<close> of a vector and an
    access outside an object are values of \<open>error\<close>.
  \<^item> \<open>andThen\<close>, \<open>cassert\<close>: sequencing and \<open>assert\<close>.
  \<^item> \<open>done_unless b P\<close>: success with \<open>P\<close>, or no room left in a vector, or, with \<open>b\<close>, a failed assertion or an access out of bounds.
  \<^item> \<open>deref\<close>: access to an object through a pointer.
  \<^item> \<open>size_t\<close> arithmetic: \<open>size64\<close>, \<open>sub64\<close> wrap at \<open>2 ^ 64\<close>; \<open>size_of_int\<close> converts an
    \<open>int\<close> to \<open>size_t\<close>, \<open>int32_of\<close> converts to \<open>int\<close>.
  \<^item> the standard algorithms the source calls on ranges: \<open>std_find\<close> (\<open>std::find\<close>, \<open>memchr\<close>),
    \<open>std_search\<close> (\<open>std::search\<close>), \<open>std_copy\<close> (\<open>std::copy\<close>, \<open>memcpy\<close> into a range).
  Bytes are HOL's \<open>char\<close> (exactly 256 values), so strings and byte buffers are \<open>char list\<close>.
\<close>

section \<open>Results\<close>

datatype error =
    Assert_failed          \<comment> \<open>a failed \<open>assert\<close>\<close>
  | Log_fatal              \<comment> \<open>\<open>LOG_FATAL\<close> or \<open>LOG_SYSFATAL\<close>: the logger aborts\<close>
  | Length_error           \<comment> \<open>\<open>std::length_error\<close>: more elements than \<open>max_size()\<close>\<close>
  | Undefined_behaviour    \<comment> \<open>an access outside the object, or to one that does not exist\<close>
  | Out_of_memory          \<comment> \<open>\<open>std::bad_alloc\<close>\<close>

type_synonym 'a result = "error + 'a"

named_theorems result_simps \<open>when a sequenced computation returns a value\<close>

fun andThen :: "'a result \<Rightarrow> ('a \<Rightarrow> 'b result) \<Rightarrow> 'b result" where
  "andThen (Inl e) f = Inl e"
| "andThen (Inr x) f = f x"

definition cassert :: "bool \<Rightarrow> 'a result \<Rightarrow> 'a result" where
  "cassert b m = (if b then m else Inl Assert_failed)"

lemma cassert_simps [simp]:
  "cassert True m = m"
  "cassert False m = Inl Assert_failed"
  by (simp_all add: cassert_def)

lemma andThen_eq_Inr [result_simps]:
  "andThen m f = Inr y \<longleftrightarrow> (\<exists>x. m = Inr x \<and> f x = Inr y)"
  by (cases m) auto

lemma andThen_eq_Inl [result_simps]:
  "andThen m f = Inl e \<longleftrightarrow> m = Inl e \<or> (\<exists>x. m = Inr x \<and> f x = Inl e)"
  by (cases m) auto

lemma cassert_eq_Inr [result_simps]: "cassert b m = Inr y \<longleftrightarrow> b \<and> m = Inr y"
  by (simp add: cassert_def)

lemma andThen_Inr_right [simp]: "andThen m Inr = m"
  by (cases m) auto

lemma andThen_cong [fundef_cong]:
  "m = m' \<Longrightarrow> (\<And>x. m' = Inr x \<Longrightarrow> f x = f' x) \<Longrightarrow> andThen m f = andThen m' f'"
  by (cases m') auto

text \<open>A sequence of calls, one per element, stopping at the first failure.\<close>

primrec foldR :: "('b \<Rightarrow> 'a \<Rightarrow> 'b result) \<Rightarrow> 'b \<Rightarrow> 'a list \<Rightarrow> 'b result" where
  "foldR f b [] = Inr b"
| "foldR f b (x # xs) = andThen (f b x) (\<lambda>b'. foldR f b' xs)"

lemma foldR_append [simp]: "foldR f b (xs @ ys) = andThen (foldR f b xs) (\<lambda>b'. foldR f b' ys)"
proof (induction xs arbitrary: b)
  case (Cons x xs)
  then show ?case by (cases "f b x") auto
qed simp

text \<open>An invariant that every call keeps holds at the end.\<close>

lemma foldR_invariant:
  assumes "foldR f b xs = Inr b'" and "P b"
    and "\<And>b x b'. P b \<Longrightarrow> f b x = Inr b' \<Longrightarrow> P b'"
  shows "P b'"
  using assms(1,2)
proof (induction xs arbitrary: b)
  case (Cons x xs)
  then show ?case using assms(3) by (auto simp: andThen_eq_Inr)
qed simp

text \<open>A call succeeds with \<open>P\<close>, or a vector cannot grow any more; with \<open>b\<close> an assertion may fail or an
  access be out of bounds, too.\<close>

definition done_unless :: "bool \<Rightarrow> ('a \<Rightarrow> bool) \<Rightarrow> 'a result \<Rightarrow> bool" where
  "done_unless b P r \<longleftrightarrow> (case r of Inl e \<Rightarrow> e = Length_error \<or> b \<and> (e = Assert_failed \<or> e = Undefined_behaviour) | Inr x \<Rightarrow> P x)"

abbreviation done_with :: "('a \<Rightarrow> bool) \<Rightarrow> 'a result \<Rightarrow> bool" where
  "done_with \<equiv> done_unless False"

lemma done_unless_simps [simp]:
  "done_unless b P (Inr x) \<longleftrightarrow> P x"
  "done_unless b P (Inl e) \<longleftrightarrow> e = Length_error \<or> b \<and> (e = Assert_failed \<or> e = Undefined_behaviour)"
  by (simp_all add: done_unless_def)

lemma done_unless_andThen:
  assumes "done_unless b P m" and "\<And>x. m = Inr x \<Longrightarrow> P x \<Longrightarrow> done_unless b Q (f x)"
  shows "done_unless b Q (andThen m f)"
  using assms by (cases m) simp_all

lemma done_unless_mono: "done_unless b P r \<Longrightarrow> (\<And>x. P x \<Longrightarrow> Q x) \<Longrightarrow> done_unless b Q r"
  by (cases r) simp_all

lemma done_unless_weaken: "done_unless b P r \<Longrightarrow> (b \<Longrightarrow> b') \<Longrightarrow> done_unless b' P r"
  by (cases r) auto

lemma done_unless_foldR:
  assumes "P x" and "\<And>x y. P x \<Longrightarrow> y \<in> set ys \<Longrightarrow> done_unless b P (f x y)"
  shows "done_unless b P (foldR f x ys)"
  using assms
proof (induction ys arbitrary: x)
  case (Cons y ys)
  show ?case
    unfolding foldR.simps
    by (rule done_unless_andThen [OF Cons.prems(2) [OF Cons.prems(1)]], simp)
      (rule Cons.IH, use Cons.prems in auto)
qed simp

text \<open>
  Objects behind pointers live in a store, a map from addresses to objects; the access through a
  pointer to no live object is undefined.
\<close>

definition deref :: "('p \<Rightarrow> 'o option) \<Rightarrow> 'p \<Rightarrow> ('o \<Rightarrow> 'a result) \<Rightarrow> 'a result" where
  "deref h p f = (case h p of None \<Rightarrow> Inl Undefined_behaviour | Some x \<Rightarrow> f x)"

lemma deref_simps [simp]:
  "h p = Some x \<Longrightarrow> deref h p f = f x"
  "h p = None \<Longrightarrow> deref h p f = Inl Undefined_behaviour"
  by (simp_all add: deref_def)

lemma deref_eq_Inr [result_simps]:
  "deref h p f = Inr y \<longleftrightarrow> (\<exists>x. h p = Some x \<and> f x = Inr y)"
  by (cases "h p") simp_all

section \<open>Machine integers\<close>

definition size64 :: "nat \<Rightarrow> nat" where
  "size64 n = n mod 2 ^ 64"

text \<open>\<open>a - b\<close> on \<open>size_t\<close>, for values below \<open>2 ^ 64\<close>.\<close>

definition sub64 :: "nat \<Rightarrow> nat \<Rightarrow> nat" where
  "sub64 a b = (a + (2 ^ 64 - b)) mod 2 ^ 64"

text \<open>\<open>std::vector<char>::max_size()\<close> and \<open>std::string::max_size()\<close>, at most.\<close>

definition max_size :: nat where
  "max_size = 2 ^ 63 - 1"

text \<open>Conversion of an \<open>int\<close> (or \<open>ssize_t\<close>) to \<open>size_t\<close>, and of an integer to \<open>int\<close>.\<close>

definition size_of_int :: "int \<Rightarrow> nat" where
  "size_of_int i = nat (i mod 2 ^ 64)"

definition int32_of :: "int \<Rightarrow> int" where
  "int32_of i = (i + 2 ^ 31) mod 2 ^ 32 - 2 ^ 31"

lemma size64_small [simp]: "n < 2 ^ 64 \<Longrightarrow> size64 n = n"
  by (simp add: size64_def)

lemma sub64_small [simp]:
  assumes "b \<le> a" and "a < 2 ^ 64"
  shows "sub64 a b = a - b"
proof -
  have "a + (2 ^ 64 - b) = (a - b) + 2 ^ 64"
    using assms by simp
  then have "sub64 a b = ((a - b) + 2 ^ 64) mod 2 ^ 64"
    by (simp only: sub64_def)
  also have "\<dots> = (a - b) mod 2 ^ 64"
    by (simp only: mod_add_self2)
  finally show ?thesis
    using assms by simp
qed

lemma max_size_less: "n \<le> max_size \<Longrightarrow> n < 2 ^ 64"
  by (simp add: max_size_def)

lemma size_of_int_small [simp]: "0 \<le> i \<Longrightarrow> i < 2 ^ 64 \<Longrightarrow> size_of_int i = nat i"
  by (simp add: size_of_int_def)

lemma int32_of_small [simp]: "- (2 ^ 31) \<le> i \<Longrightarrow> i < 2 ^ 31 \<Longrightarrow> int32_of i = i"
  by (simp add: int32_of_def)

section \<open>Ranges\<close>

text \<open>\<open>std::find(first, last, c)\<close>: the offset of the first \<open>c\<close>, the length when absent.\<close>

primrec std_find :: "'a \<Rightarrow> 'a list \<Rightarrow> nat" where
  "std_find c [] = 0"
| "std_find c (x # xs) = (if x = c then 0 else Suc (std_find c xs))"

text \<open>\<open>std::search(first, last, pat, pat_end)\<close>, likewise.\<close>

primrec std_search :: "'a list \<Rightarrow> 'a list \<Rightarrow> nat" where
  "std_search pat [] = 0"
| "std_search pat (x # xs) =
     (if take (length pat) (x # xs) = pat then 0 else Suc (std_search pat xs))"

text \<open>\<open>std::copy\<close> of \<open>xs\<close> into \<open>d\<close> from offset \<open>pos\<close> on.\<close>

definition std_copy :: "'a list \<Rightarrow> nat \<Rightarrow> 'a list \<Rightarrow> 'a list" where
  "std_copy d pos xs = take pos d @ xs @ drop (pos + length xs) d"

lemma std_find_le [simp]: "std_find c xs \<le> length xs"
  by (induction xs) auto

lemma std_find_length_iff: "std_find c xs = length xs \<longleftrightarrow> c \<notin> set xs"
  by (induction xs) auto

lemma std_find_append:
  "std_find c (xs @ ys) = (if c \<in> set xs then std_find c xs else length xs + std_find c ys)"
  by (induction xs) auto

lemma std_find_absent [simp]: "c \<notin> set xs \<Longrightarrow> std_find c (xs @ c # ys) = length xs"
  by (simp add: std_find_append)

lemma std_find_less: "c \<in> set xs \<Longrightarrow> std_find c xs < length xs"
  by (induction xs) auto

lemma std_find_nth: "std_find c xs < length xs \<Longrightarrow> xs ! std_find c xs = c"
  by (induction xs) auto

lemma std_find_prefix: "c \<notin> set (take (std_find c xs) xs)"
  by (induction xs) auto

lemma std_search_le [simp]: "std_search pat xs \<le> length xs"
  by (induction xs) auto

lemma std_search_less: "std_search pat xs \<noteq> length xs \<Longrightarrow> std_search pat xs < length xs"
  by (rule le_neq_implies_less) simp_all

lemma std_search_match:
  "std_search pat xs < length xs \<Longrightarrow> take (length pat) (drop (std_search pat xs) xs) = pat"
proof (induction xs)
  case (Cons x xs)
  then show ?case by (auto split: if_splits)
qed simp

lemma std_search_first:
  "i < std_search pat xs \<Longrightarrow> take (length pat) (drop i xs) \<noteq> pat"
proof (induction xs arbitrary: i)
  case (Cons x xs)
  then show ?case by (cases i) (auto split: if_splits)
qed simp

lemma std_search_match_fits:
  assumes "std_search pat xs < length xs"
  shows "std_search pat xs + length pat \<le> length xs"
proof -
  have "length (take (length pat) (drop (std_search pat xs) xs)) = length pat"
    using std_search_match [OF assms] by simp
  then show ?thesis using assms by auto
qed

lemma std_search_eqI:
  assumes "take (length pat) (drop i xs) = pat" and "i < length xs"
    and "\<And>j. j < i \<Longrightarrow> take (length pat) (drop j xs) \<noteq> pat"
  shows "std_search pat xs = i"
  using assms
proof (induction xs arbitrary: i)
  case (Cons x xs)
  show ?case
  proof (cases i)
    case 0
    with Cons.prems(1) show ?thesis by simp
  next
    case (Suc k)
    have "take (length pat) (x # xs) \<noteq> pat"
      using Cons.prems(3) [of 0] Suc by simp
    moreover have "std_search pat xs = k"
    proof (rule Cons.IH)
      show "take (length pat) (drop k xs) = pat" using Cons.prems(1) Suc by simp
      show "k < length xs" using Cons.prems(2) Suc by simp
      show "take (length pat) (drop j xs) \<noteq> pat" if "j < k" for j
        using Cons.prems(3) [of "Suc j"] Suc that by simp
    qed
    ultimately show ?thesis using Suc by simp
  qed
qed simp

lemma std_search_absent:
  assumes "\<And>j. j < length xs \<Longrightarrow> take (length pat) (drop j xs) \<noteq> pat"
  shows "std_search pat xs = length xs"
  using assms std_search_le [of pat xs] std_search_match [of pat xs]
  by (metis le_neq_implies_less)

lemma length_std_copy [simp]:
  "pos + length xs \<le> length d \<Longrightarrow> length (std_copy d pos xs) = length d"
  by (simp add: std_copy_def)

lemma take_std_copy [simp]: "pos \<le> length d \<Longrightarrow> take pos (std_copy d pos xs) = take pos d"
  by (simp add: std_copy_def)

lemma drop_std_copy:
  "r \<le> pos \<Longrightarrow> pos \<le> length d \<Longrightarrow>
   drop r (std_copy d pos xs) = drop r (take pos d) @ xs @ drop (pos + length xs) d"
  by (simp add: std_copy_def)

end
