(* ===== verification/Endian.thy ===== *)
theory Endian
  imports Prelude
begin

text \<open>
  \<open>muduo/net/Endian.h\<close>: conversions between host and network byte order, and the object
  representation of an integer, which is what \<open>append(&be64, sizeof be64)\<close> copies out of it and
  \<open>memcpy(&be64, peek(), sizeof be64)\<close> copies into it.

  \<open>htobe64\<close> and its kin of \<open><endian.h>\<close> depend on the host: a byte swap on a little-endian host,
  the identity on a big-endian one. The host is the parameter \<open>h\<close> of every definition, so the
  theorems hold on both. Integers are words of their width.
\<close>

datatype endianness = Little | Big

section \<open>Little-endian digits\<close>

primrec bytes_le :: "nat \<Rightarrow> nat \<Rightarrow> char list" where
  "bytes_le 0 v = []"
| "bytes_le (Suc n) v = char_of (v mod 256) # bytes_le n (v div 256)"

primrec le_value :: "char list \<Rightarrow> nat" where
  "le_value [] = 0"
| "le_value (c # cs) = of_char c + 256 * le_value cs"

lemma length_bytes_le [simp]: "length (bytes_le n v) = n"
  by (induction n arbitrary: v) auto

lemma le_value_bytes_le: "le_value (bytes_le n v) = v mod 256 ^ n"
  by (induction n arbitrary: v) (simp_all add: mod_mult2_eq)

lemma of_char_less_256 [simp]: "(of_char c :: nat) < 256"
  by (metis char_of_char mod_less_divisor of_char_of zero_less_numeral)

lemma bytes_le_le_value: "bytes_le (length cs) (le_value cs) = cs"
  by (induction cs) auto

lemma le_value_bound: "le_value cs < 256 ^ length cs"
  using le_value_bytes_le [of "length cs" "le_value cs"]
  by (metis bytes_le_le_value mod_less_divisor zero_less_numeral zero_less_power)

section \<open>Object representations and byte swaps\<close>

definition object_bytes :: "endianness \<Rightarrow> nat \<Rightarrow> 'a::len word \<Rightarrow> char list" where
  "object_bytes h n x =
     (case h of Little \<Rightarrow> bytes_le n (unat x) | Big \<Rightarrow> rev (bytes_le n (unat x)))"

definition object_value :: "endianness \<Rightarrow> char list \<Rightarrow> 'a::len word" where
  "object_value h bs =
     word_of_nat (le_value (case h of Little \<Rightarrow> bs | Big \<Rightarrow> rev bs))"

definition byte_swap :: "nat \<Rightarrow> 'a::len word \<Rightarrow> 'a word" where
  "byte_swap n x = word_of_nat (le_value (rev (bytes_le n (unat x))))"

definition hostToNetwork64 :: "endianness \<Rightarrow> 64 word \<Rightarrow> 64 word" where
  "hostToNetwork64 h host64 = (case h of Little \<Rightarrow> byte_swap 8 host64 | Big \<Rightarrow> host64)"

definition hostToNetwork32 :: "endianness \<Rightarrow> 32 word \<Rightarrow> 32 word" where
  "hostToNetwork32 h host32 = (case h of Little \<Rightarrow> byte_swap 4 host32 | Big \<Rightarrow> host32)"

definition hostToNetwork16 :: "endianness \<Rightarrow> 16 word \<Rightarrow> 16 word" where
  "hostToNetwork16 h host16 = (case h of Little \<Rightarrow> byte_swap 2 host16 | Big \<Rightarrow> host16)"

definition networkToHost64 :: "endianness \<Rightarrow> 64 word \<Rightarrow> 64 word" where
  "networkToHost64 h net64 = (case h of Little \<Rightarrow> byte_swap 8 net64 | Big \<Rightarrow> net64)"

definition networkToHost32 :: "endianness \<Rightarrow> 32 word \<Rightarrow> 32 word" where
  "networkToHost32 h net32 = (case h of Little \<Rightarrow> byte_swap 4 net32 | Big \<Rightarrow> net32)"

definition networkToHost16 :: "endianness \<Rightarrow> 16 word \<Rightarrow> 16 word" where
  "networkToHost16 h net16 = (case h of Little \<Rightarrow> byte_swap 2 net16 | Big \<Rightarrow> net16)"

lemmas endian_defs = hostToNetwork64_def hostToNetwork32_def hostToNetwork16_def
  networkToHost64_def networkToHost32_def networkToHost16_def

lemma length_object_bytes [simp]: "length (object_bytes h n x) = n"
  by (cases h) (simp_all add: object_bytes_def)

lemma unat_word_le_value:
  assumes "256 ^ length bs \<le> (2::nat) ^ LENGTH('a)"
  shows "unat (word_of_nat (le_value bs) :: 'a::len word) = le_value bs"
  using le_value_bound [of bs] assms by (simp add: unat_of_nat)

text \<open>
  On any host the object representation of a converted integer is its big-endian digits, and
  decoding such bytes is reading big-endian digits.
\<close>

lemma object_bytes_host_to_network:
  assumes "256 ^ n \<le> (2::nat) ^ LENGTH('a)"
  shows "object_bytes h n (case h of Little \<Rightarrow> byte_swap n x | Big \<Rightarrow> (x :: 'a::len word))
         = rev (bytes_le n (unat x))"
  using assms bytes_le_le_value [of "rev (bytes_le n (unat x))"]
  by (cases h) (simp_all add: object_bytes_def byte_swap_def unat_word_le_value)

lemma object_value_network_to_host:
  assumes "256 ^ length bs \<le> (2::nat) ^ LENGTH('a)"
  shows "(case h of Little \<Rightarrow> byte_swap (length bs) (object_value h bs) | Big \<Rightarrow> object_value h bs)
         = (word_of_nat (le_value (rev bs)) :: 'a::len word)"
  using assms
  by (cases h) (simp_all add: object_value_def byte_swap_def unat_word_le_value bytes_le_le_value)

section \<open>The codec interface\<close>

text \<open>
  What \<open>Buffer\<close>'s integer operations rely on: an encoder of fixed width with a decoder that
  undoes it, in both directions.
\<close>

locale wire_codec =
  fixes enc :: "'a \<Rightarrow> char list"
    and dec :: "char list \<Rightarrow> 'a"
    and width :: nat
  assumes enc_length: "length (enc x) = width"
    and dec_enc: "dec (enc x) = x"
    and enc_dec: "length bs = width \<Longrightarrow> enc (dec bs) = bs"
begin

lemma dec_take_enc: "dec (take width (enc x @ rest)) = x"
  using enc_length [of x] by (simp add: dec_enc)

lemma drop_enc: "drop width (enc x @ rest) = rest"
  using enc_length [of x] by simp

lemma enc_inject: "enc x = enc y \<longleftrightarrow> x = y"
  by (metis dec_enc)

lemma enc_dec_prefix: "width \<le> length bs \<Longrightarrow> enc (dec (take width bs)) @ drop width bs = bs"
  by (simp add: enc_dec)

end

text \<open>What \<open>appendIntNN\<close> writes and \<open>peekIntNN\<close> reads.\<close>

definition wire64 :: "endianness \<Rightarrow> 64 word \<Rightarrow> char list" where
  "wire64 h x = object_bytes h 8 (hostToNetwork64 h x)"

definition unwire64 :: "endianness \<Rightarrow> char list \<Rightarrow> 64 word" where
  "unwire64 h bs = networkToHost64 h (object_value h bs)"

definition wire32 :: "endianness \<Rightarrow> 32 word \<Rightarrow> char list" where
  "wire32 h x = object_bytes h 4 (hostToNetwork32 h x)"

definition unwire32 :: "endianness \<Rightarrow> char list \<Rightarrow> 32 word" where
  "unwire32 h bs = networkToHost32 h (object_value h bs)"

definition wire16 :: "endianness \<Rightarrow> 16 word \<Rightarrow> char list" where
  "wire16 h x = object_bytes h 2 (hostToNetwork16 h x)"

definition unwire16 :: "endianness \<Rightarrow> char list \<Rightarrow> 16 word" where
  "unwire16 h bs = networkToHost16 h (object_value h bs)"

definition wire8 :: "endianness \<Rightarrow> 8 word \<Rightarrow> char list" where
  "wire8 h x = object_bytes h 1 x"

definition unwire8 :: "endianness \<Rightarrow> char list \<Rightarrow> 8 word" where
  "unwire8 h bs = object_value h bs"

lemma wire_big_endian:
  "wire64 h x = rev (bytes_le 8 (unat x))"
  "wire32 h y = rev (bytes_le 4 (unat y))"
  "wire16 h z = rev (bytes_le 2 (unat z))"
  "wire8 h w = rev (bytes_le 1 (unat w))"
  using object_bytes_host_to_network [of 8 h x] object_bytes_host_to_network [of 4 h y]
    object_bytes_host_to_network [of 2 h z]
  by (simp_all add: wire64_def wire32_def wire16_def wire8_def endian_defs)
    (simp add: object_bytes_def split: endianness.split)

lemma unwire_big_endian:
  "length bs = 8 \<Longrightarrow> unwire64 h bs = word_of_nat (le_value (rev bs))"
  "length bs = 4 \<Longrightarrow> unwire32 h bs = word_of_nat (le_value (rev bs))"
  "length bs = 2 \<Longrightarrow> unwire16 h bs = word_of_nat (le_value (rev bs))"
  "length bs = 1 \<Longrightarrow> unwire8 h bs = word_of_nat (le_value (rev bs))"
  using object_value_network_to_host [of bs h, where 'a = 64]
    object_value_network_to_host [of bs h, where 'a = 32]
    object_value_network_to_host [of bs h, where 'a = 16]
  by (simp_all add: unwire64_def unwire32_def unwire16_def unwire8_def endian_defs)
    (auto simp: object_value_def length_Suc_conv split: endianness.split)

lemma unat_mod_id: "256 ^ n = (2::nat) ^ LENGTH('a) \<Longrightarrow> unat (x :: 'a::len word) mod 256 ^ n = unat x"
  by (simp add: unsigned_less)

lemma big_endian_inverse:
  assumes "256 ^ n = (2::nat) ^ LENGTH('a)"
  shows "(word_of_nat (le_value (rev (rev (bytes_le n (unat x))))) :: 'a::len word) = x"
    and "length bs = n \<Longrightarrow>
      rev (bytes_le n (unat (word_of_nat (le_value (rev bs)) :: 'a word))) = bs"
proof -
  show "(word_of_nat (le_value (rev (rev (bytes_le n (unat x))))) :: 'a word) = x"
    using unat_mod_id [OF assms] by (simp add: le_value_bytes_le)
  assume "length bs = n"
  then have "unat (word_of_nat (le_value (rev bs)) :: 'a word) = le_value (rev bs)"
    by (intro unat_word_le_value) (simp add: assms)
  then show "rev (bytes_le n (unat (word_of_nat (le_value (rev bs)) :: 'a word))) = bs"
    using bytes_le_le_value [of "rev bs"] \<open>length bs = n\<close> by simp
qed

interpretation w64: wire_codec "wire64 h" "unwire64 h" 8
  using big_endian_inverse [where 'a = 64 and n = 8]
  by unfold_locales (simp_all add: wire_big_endian unwire_big_endian)

interpretation w32: wire_codec "wire32 h" "unwire32 h" 4
  using big_endian_inverse [where 'a = 32 and n = 4]
  by unfold_locales (simp_all add: wire_big_endian unwire_big_endian)

interpretation w16: wire_codec "wire16 h" "unwire16 h" 2
  using big_endian_inverse [where 'a = 16 and n = 2]
  by unfold_locales (simp_all add: wire_big_endian unwire_big_endian)

interpretation w8: wire_codec "wire8 h" "unwire8 h" 1
  using big_endian_inverse [where 'a = 8 and n = 1]
  by unfold_locales (simp_all add: wire_big_endian unwire_big_endian del: bytes_le.simps)

end
