(* ===== verification/Buffer.thy ===== *)
theory Buffer
  imports Endian
begin

text \<open>
  \<open>muduo/net/Buffer.h\<close>, \<open>Buffer.cpp\<close>: the byte buffer of a connection.

  The record holds the vector and the two indices. A \<open>const char*\<close> into the buffer is the offset
  from \<open>begin()\<close>, a null pointer \<open>None\<close>. \<open>size_t\<close> arithmetic is modulo \<open>2 ^ 64\<close> as in the code
  (\<open>sub64\<close>, \<open>size64\<close>), so that an absurd length (a negative count converted to \<open>size_t\<close>) behaves
  as it does there. \<open>Buffer_wf\<close> is the class invariant, \<open>Buffer_content\<close> the abstraction to the
  readable bytes; one lemma per operation says what it does to the content and that it keeps the
  invariant.
\<close>

record buffer =
  bufdata :: "char list"
  readerIndex :: nat
  writerIndex :: nat

definition kCheapPrepend :: nat where "kCheapPrepend = 8"
definition kInitialSize :: nat where "kInitialSize = 1024"
definition kCRLF :: "char list" where "kCRLF = [CHR 0x0D, CHR 0x0A]"

section \<open>Construction and observers\<close>

definition Buffer_new :: "nat \<Rightarrow> buffer" where
  "Buffer_new initialSize =
     \<lparr>bufdata = replicate (kCheapPrepend + initialSize) (CHR 0x00),
      readerIndex = kCheapPrepend, writerIndex = kCheapPrepend\<rparr>"

definition Buffer_swap :: "buffer \<Rightarrow> buffer \<Rightarrow> buffer \<times> buffer" where
  "Buffer_swap b rhs = (rhs, b)"

definition Buffer_readableBytes :: "buffer \<Rightarrow> nat" where
  "Buffer_readableBytes b = sub64 (writerIndex b) (readerIndex b)"

definition Buffer_writableBytes :: "buffer \<Rightarrow> nat" where
  "Buffer_writableBytes b = sub64 (length (bufdata b)) (writerIndex b)"

definition Buffer_prependableBytes :: "buffer \<Rightarrow> nat" where
  "Buffer_prependableBytes b = readerIndex b"

definition Buffer_peek :: "buffer \<Rightarrow> nat" where
  "Buffer_peek b = readerIndex b"

definition Buffer_beginWrite :: "buffer \<Rightarrow> nat" where
  "Buffer_beginWrite b = writerIndex b"

text \<open>The bytes between two pointers into the buffer.\<close>

definition Buffer_range :: "buffer \<Rightarrow> nat \<Rightarrow> nat \<Rightarrow> char list" where
  "Buffer_range b p q = take (q - p) (drop p (bufdata b))"

definition Buffer_findCRLF_from :: "buffer \<Rightarrow> nat \<Rightarrow> nat option result" where
  "Buffer_findCRLF_from b start =
     cassert (Buffer_peek b \<le> start)
       (cassert (start \<le> Buffer_beginWrite b)
         (let crlf = start + std_search kCRLF (Buffer_range b start (Buffer_beginWrite b))
          in Inr (if crlf = Buffer_beginWrite b then None else Some crlf)))"

definition Buffer_findCRLF :: "buffer \<Rightarrow> nat option" where
  "Buffer_findCRLF b =
     (let crlf = Buffer_peek b
            + std_search kCRLF (Buffer_range b (Buffer_peek b) (Buffer_beginWrite b))
      in if crlf = Buffer_beginWrite b then None else Some crlf)"

definition std_memchr :: "buffer \<Rightarrow> nat \<Rightarrow> char \<Rightarrow> nat \<Rightarrow> nat option" where
  "std_memchr b start c n =
     (let i = std_find c (take n (drop start (bufdata b)))
      in if i = length (take n (drop start (bufdata b))) then None else Some (start + i))"

definition Buffer_findEOL :: "buffer \<Rightarrow> nat option" where
  "Buffer_findEOL b = std_memchr b (Buffer_peek b) (CHR 0x0A) (Buffer_readableBytes b)"

definition Buffer_findEOL_from :: "buffer \<Rightarrow> nat \<Rightarrow> nat option result" where
  "Buffer_findEOL_from b start =
     cassert (Buffer_peek b \<le> start)
       (cassert (start \<le> Buffer_beginWrite b)
         (Inr (std_memchr b start (CHR 0x0A) (Buffer_beginWrite b - start))))"

section \<open>Consuming\<close>

definition Buffer_retrieveAll :: "buffer \<Rightarrow> buffer" where
  "Buffer_retrieveAll b = b\<lparr>readerIndex := kCheapPrepend, writerIndex := kCheapPrepend\<rparr>"

definition Buffer_retrieve :: "buffer \<Rightarrow> nat \<Rightarrow> buffer result" where
  "Buffer_retrieve b len =
     cassert (len \<le> Buffer_readableBytes b)
       (if len < Buffer_readableBytes b
        then Inr (b\<lparr>readerIndex := readerIndex b + len\<rparr>)
        else Inr (Buffer_retrieveAll b))"

definition Buffer_retrieveUntil :: "buffer \<Rightarrow> nat \<Rightarrow> buffer result" where
  "Buffer_retrieveUntil b e =
     cassert (Buffer_peek b \<le> e)
       (cassert (e \<le> Buffer_beginWrite b) (Buffer_retrieve b (e - Buffer_peek b)))"

definition Buffer_retrieveInt64 :: "buffer \<Rightarrow> buffer result" where
  "Buffer_retrieveInt64 b = Buffer_retrieve b 8"

definition Buffer_retrieveInt32 :: "buffer \<Rightarrow> buffer result" where
  "Buffer_retrieveInt32 b = Buffer_retrieve b 4"

definition Buffer_retrieveInt16 :: "buffer \<Rightarrow> buffer result" where
  "Buffer_retrieveInt16 b = Buffer_retrieve b 2"

definition Buffer_retrieveInt8 :: "buffer \<Rightarrow> buffer result" where
  "Buffer_retrieveInt8 b = Buffer_retrieve b 1"

definition Buffer_retrieveAsString :: "buffer \<Rightarrow> nat \<Rightarrow> (char list \<times> buffer) result" where
  "Buffer_retrieveAsString b len =
     cassert (len \<le> Buffer_readableBytes b)
       (let s = take len (drop (Buffer_peek b) (bufdata b))
        in andThen (Buffer_retrieve b len) (\<lambda>b'. Inr (s, b')))"

definition Buffer_retrieveAllAsString :: "buffer \<Rightarrow> (char list \<times> buffer) result" where
  "Buffer_retrieveAllAsString b = Buffer_retrieveAsString b (Buffer_readableBytes b)"

section \<open>Writing\<close>

text \<open>\<open>vector<char>::resize\<close>: new elements are zero.\<close>

definition vector_resize :: "char list \<Rightarrow> nat \<Rightarrow> char list result" where
  "vector_resize d n =
     (if max_size < n then Inl Length_error
      else Inr (take n d @ replicate (n - length d) (CHR 0x00)))"

definition Buffer_makeSpace :: "buffer \<Rightarrow> nat \<Rightarrow> buffer result" where
  "Buffer_makeSpace b len =
     (if size64 (Buffer_writableBytes b + Buffer_prependableBytes b) < size64 (len + kCheapPrepend)
      then andThen (vector_resize (bufdata b) (size64 (writerIndex b + len)))
             (\<lambda>d. Inr (b\<lparr>bufdata := d\<rparr>))
      else cassert (kCheapPrepend < readerIndex b)
        (let readable = Buffer_readableBytes b;
             b' = b\<lparr>bufdata := std_copy (bufdata b) kCheapPrepend
                      (Buffer_range b (readerIndex b) (writerIndex b)),
                    readerIndex := kCheapPrepend,
                    writerIndex := kCheapPrepend + readable\<rparr>
         in cassert (readable = Buffer_readableBytes b') (Inr b')))"

definition Buffer_ensureWritableBytes :: "buffer \<Rightarrow> nat \<Rightarrow> buffer result" where
  "Buffer_ensureWritableBytes b len =
     andThen (if Buffer_writableBytes b < len then Buffer_makeSpace b len else Inr b)
       (\<lambda>b'. cassert (len \<le> Buffer_writableBytes b') (Inr b'))"

definition Buffer_hasWritten :: "buffer \<Rightarrow> nat \<Rightarrow> buffer result" where
  "Buffer_hasWritten b len =
     cassert (len \<le> Buffer_writableBytes b) (Inr (b\<lparr>writerIndex := writerIndex b + len\<rparr>))"

definition Buffer_unwrite :: "buffer \<Rightarrow> nat \<Rightarrow> buffer result" where
  "Buffer_unwrite b len =
     cassert (len \<le> Buffer_readableBytes b) (Inr (b\<lparr>writerIndex := writerIndex b - len\<rparr>))"

text \<open>
  \<open>append(const char* data, size_t len)\<close>: \<open>mem\<close> is the object that \<open>data\<close> points into, from
  \<open>data\<close> on. Copying past its end, or past the end of the vector, is undefined.
\<close>

definition Buffer_append :: "buffer \<Rightarrow> char list \<Rightarrow> nat \<Rightarrow> buffer result" where
  "Buffer_append b mem len =
     andThen (Buffer_ensureWritableBytes b len) (\<lambda>b1.
       if length mem < len \<or> length (bufdata b1) < Buffer_beginWrite b1 + len
       then Inl Undefined_behaviour
       else Buffer_hasWritten
              (b1\<lparr>bufdata := std_copy (bufdata b1) (Buffer_beginWrite b1) (take len mem)\<rparr>) len)"

text \<open>
  \<open>append(const StringPiece&)\<close>: the piece's length is an \<open>int\<close>, so a string of \<open>2 ^ 31\<close> bytes or
  more has lost its length before it gets here.
\<close>

definition Buffer_append_piece :: "buffer \<Rightarrow> char list \<Rightarrow> buffer result" where
  "Buffer_append_piece b str =
     Buffer_append b str (size_of_int (int32_of (int (length str))))"

definition Buffer_prepend :: "buffer \<Rightarrow> char list \<Rightarrow> buffer result" where
  "Buffer_prepend b d =
     cassert (length d \<le> Buffer_prependableBytes b)
       (let r = readerIndex b - length d
        in Inr (b\<lparr>readerIndex := r, bufdata := std_copy (bufdata b) r d\<rparr>))"

definition Buffer_shrink :: "buffer \<Rightarrow> nat \<Rightarrow> buffer result" where
  "Buffer_shrink b reserve =
     andThen (Buffer_ensureWritableBytes (Buffer_new kInitialSize)
                (size64 (Buffer_readableBytes b + reserve)))
       (\<lambda>other. andThen
          (Buffer_append_piece other (Buffer_range b (Buffer_peek b) (Buffer_beginWrite b)))
          (\<lambda>other'. Inr (fst (Buffer_swap b other'))))"

section \<open>Integers in network byte order\<close>

definition Buffer_appendInt64 :: "endianness \<Rightarrow> buffer \<Rightarrow> 64 word \<Rightarrow> buffer result" where
  "Buffer_appendInt64 h b x =
     (let be64 = hostToNetwork64 h x in Buffer_append b (object_bytes h 8 be64) 8)"

definition Buffer_appendInt32 :: "endianness \<Rightarrow> buffer \<Rightarrow> 32 word \<Rightarrow> buffer result" where
  "Buffer_appendInt32 h b x =
     (let be32 = hostToNetwork32 h x in Buffer_append b (object_bytes h 4 be32) 4)"

text \<open>The parameter of \<open>appendInt16\<close> is an \<open>int64_t\<close> in the source; the conversion truncates it.\<close>

definition Buffer_appendInt16 :: "endianness \<Rightarrow> buffer \<Rightarrow> 64 word \<Rightarrow> buffer result" where
  "Buffer_appendInt16 h b x =
     (let be16 = hostToNetwork16 h (ucast x) in Buffer_append b (object_bytes h 2 be16) 2)"

definition Buffer_appendInt8 :: "endianness \<Rightarrow> buffer \<Rightarrow> 8 word \<Rightarrow> buffer result" where
  "Buffer_appendInt8 h b x = Buffer_append b (object_bytes h 1 x) 1"

definition Buffer_peekInt64 :: "endianness \<Rightarrow> buffer \<Rightarrow> 64 word result" where
  "Buffer_peekInt64 h b =
     cassert (8 \<le> Buffer_readableBytes b)
       (let be64 = object_value h (take 8 (drop (Buffer_peek b) (bufdata b)))
        in Inr (networkToHost64 h be64))"

definition Buffer_peekInt32 :: "endianness \<Rightarrow> buffer \<Rightarrow> 32 word result" where
  "Buffer_peekInt32 h b =
     cassert (4 \<le> Buffer_readableBytes b)
       (let be32 = object_value h (take 4 (drop (Buffer_peek b) (bufdata b)))
        in Inr (networkToHost32 h be32))"

definition Buffer_peekInt16 :: "endianness \<Rightarrow> buffer \<Rightarrow> 16 word result" where
  "Buffer_peekInt16 h b =
     cassert (2 \<le> Buffer_readableBytes b)
       (let be16 = object_value h (take 2 (drop (Buffer_peek b) (bufdata b)))
        in Inr (networkToHost16 h be16))"

definition Buffer_peekInt8 :: "endianness \<Rightarrow> buffer \<Rightarrow> 8 word result" where
  "Buffer_peekInt8 h b =
     cassert (1 \<le> Buffer_readableBytes b)
       (Inr (object_value h (take 1 (drop (Buffer_peek b) (bufdata b)))))"

definition Buffer_readInt64 :: "endianness \<Rightarrow> buffer \<Rightarrow> (64 word \<times> buffer) result" where
  "Buffer_readInt64 h b =
     andThen (Buffer_peekInt64 h b)
       (\<lambda>r. andThen (Buffer_retrieveInt64 b) (\<lambda>b'. Inr (r, b')))"

definition Buffer_readInt32 :: "endianness \<Rightarrow> buffer \<Rightarrow> (32 word \<times> buffer) result" where
  "Buffer_readInt32 h b =
     andThen (Buffer_peekInt32 h b)
       (\<lambda>r. andThen (Buffer_retrieveInt32 b) (\<lambda>b'. Inr (r, b')))"

definition Buffer_readInt16 :: "endianness \<Rightarrow> buffer \<Rightarrow> (16 word \<times> buffer) result" where
  "Buffer_readInt16 h b =
     andThen (Buffer_peekInt16 h b)
       (\<lambda>r. andThen (Buffer_retrieveInt16 b) (\<lambda>b'. Inr (r, b')))"

definition Buffer_readInt8 :: "endianness \<Rightarrow> buffer \<Rightarrow> (8 word \<times> buffer) result" where
  "Buffer_readInt8 h b =
     andThen (Buffer_peekInt8 h b)
       (\<lambda>r. andThen (Buffer_retrieveInt8 b) (\<lambda>b'. Inr (r, b')))"

definition Buffer_prependInt64 :: "endianness \<Rightarrow> buffer \<Rightarrow> 64 word \<Rightarrow> buffer result" where
  "Buffer_prependInt64 h b x =
     (let be64 = hostToNetwork64 h x in Buffer_prepend b (object_bytes h 8 be64))"

definition Buffer_prependInt32 :: "endianness \<Rightarrow> buffer \<Rightarrow> 32 word \<Rightarrow> buffer result" where
  "Buffer_prependInt32 h b x =
     (let be32 = hostToNetwork32 h x in Buffer_prepend b (object_bytes h 4 be32))"

definition Buffer_prependInt16 :: "endianness \<Rightarrow> buffer \<Rightarrow> 16 word \<Rightarrow> buffer result" where
  "Buffer_prependInt16 h b x =
     (let be16 = hostToNetwork16 h x in Buffer_prepend b (object_bytes h 2 be16))"

definition Buffer_prependInt8 :: "endianness \<Rightarrow> buffer \<Rightarrow> 8 word \<Rightarrow> buffer result" where
  "Buffer_prependInt8 h b x = Buffer_prepend b (object_bytes h 1 x)"

section \<open>Reading from a descriptor\<close>

text \<open>
  \<open>sockets::readv\<close> is the kernel's: it returns the bytes that arrived, at most the capacity of the
  vectors it is given, or fails with an \<open>errno\<close>. Bytes are stored in the first vector first.
\<close>

datatype read_result = Read_bytes "char list" | Read_failed int

definition extrabuf_size :: nat where "extrabuf_size = 65536"

definition Buffer_readv_capacity :: "buffer \<Rightarrow> nat" where
  "Buffer_readv_capacity b =
     Buffer_writableBytes b +
     (if Buffer_writableBytes b < extrabuf_size then extrabuf_size else 0)"

text \<open>The result is the return value, \<open>savedErrno\<close> where the code sets it, and the buffer.\<close>

fun Buffer_readFd :: "buffer \<Rightarrow> read_result \<Rightarrow> (int \<times> int option \<times> buffer) result" where
  "Buffer_readFd b (Read_failed e) = Inr (-1, Some e, b)"
| "Buffer_readFd b (Read_bytes xs) =
     (let n = length xs; writable = Buffer_writableBytes b;
          b1 = b\<lparr>bufdata := std_copy (bufdata b) (writerIndex b) (take writable xs)\<rparr>;
          extrabuf = drop writable xs
      in if n \<le> writable
         then Inr (int n, None, b1\<lparr>writerIndex := writerIndex b1 + n\<rparr>)
         else andThen (Buffer_append (b1\<lparr>writerIndex := length (bufdata b1)\<rparr>) extrabuf
                         (n - writable))
                (\<lambda>b2. Inr (int n, None, b2)))"

section \<open>The class invariant and the content\<close>

definition Buffer_wf :: "buffer \<Rightarrow> bool" where
  "Buffer_wf b \<longleftrightarrow>
     readerIndex b \<le> writerIndex b \<and> writerIndex b \<le> length (bufdata b) \<and>
     length (bufdata b) \<le> max_size"

definition Buffer_content :: "buffer \<Rightarrow> char list" where
  "Buffer_content b = take (writerIndex b - readerIndex b) (drop (readerIndex b) (bufdata b))"

named_theorems buffer_obs \<open>observers of a well-formed buffer\<close>

lemma Buffer_wf_indices:
  assumes "Buffer_wf b"
  shows "readerIndex b \<le> writerIndex b" "writerIndex b \<le> length (bufdata b)"
    "length (bufdata b) < 2 ^ 64" "writerIndex b < 2 ^ 64"
  using assms by (auto simp: Buffer_wf_def max_size_def)

lemma Buffer_readableBytes_eq [buffer_obs]:
  "Buffer_wf b \<Longrightarrow> Buffer_readableBytes b = length (Buffer_content b)"
  using Buffer_wf_indices [of b]
  by (simp add: Buffer_readableBytes_def Buffer_content_def)

lemma Buffer_writableBytes_eq [buffer_obs]:
  "Buffer_wf b \<Longrightarrow> Buffer_writableBytes b = length (bufdata b) - writerIndex b"
  using Buffer_wf_indices [of b] by (simp add: Buffer_writableBytes_def)

lemma Buffer_content_length [buffer_obs]:
  "Buffer_wf b \<Longrightarrow> length (Buffer_content b) = writerIndex b - readerIndex b"
  using Buffer_wf_indices [of b] by (simp add: Buffer_content_def)

lemma Buffer_contentI:
  "take (writerIndex b - readerIndex b) (drop (readerIndex b) (bufdata b)) = xs \<Longrightarrow>
   Buffer_content b = xs"
  by (simp add: Buffer_content_def)

lemma Buffer_range_content:
  "Buffer_range b (readerIndex b) (writerIndex b) = Buffer_content b"
  by (simp add: Buffer_range_def Buffer_content_def)

lemma Buffer_wf_new [simp]: "n \<le> max_size - kCheapPrepend \<Longrightarrow> Buffer_wf (Buffer_new n)"
  by (simp add: Buffer_wf_def Buffer_new_def kCheapPrepend_def max_size_def)

lemma Buffer_content_new [simp]: "Buffer_content (Buffer_new n) = []"
  by (simp add: Buffer_content_def Buffer_new_def)

lemma Buffer_indices_new [simp]:
  "readerIndex (Buffer_new n) = kCheapPrepend" "writerIndex (Buffer_new n) = kCheapPrepend"
  by (simp_all add: Buffer_new_def)

text \<open>The three assertions of the constructor.\<close>

lemma Buffer_new_asserts:
  "n \<le> max_size - kCheapPrepend \<Longrightarrow>
   Buffer_readableBytes (Buffer_new n) = 0 \<and> Buffer_writableBytes (Buffer_new n) = n \<and>
   Buffer_prependableBytes (Buffer_new n) = kCheapPrepend"
  by (simp add: buffer_obs Buffer_prependableBytes_def)
    (simp add: Buffer_new_def)

section \<open>What each operation does\<close>

lemma Buffer_retrieveAll_ok:
  "Buffer_wf b \<Longrightarrow> kCheapPrepend \<le> length (bufdata b) \<Longrightarrow>
   Buffer_wf (Buffer_retrieveAll b) \<and> Buffer_content (Buffer_retrieveAll b) = []"
  by (simp add: Buffer_wf_def Buffer_content_def Buffer_retrieveAll_def)

lemma Buffer_content_advance:
  assumes "Buffer_wf b" and "len \<le> length (Buffer_content b)"
  shows "Buffer_content (b\<lparr>readerIndex := readerIndex b + len\<rparr>) = drop len (Buffer_content b)"
  by (simp add: Buffer_content_def drop_take add.commute)

text \<open>
  The vector never becomes shorter than the eight bytes of \<open>kCheapPrepend\<close> it starts with, so
  \<open>retrieveAll\<close> stays inside it; this is part of the invariant of a buffer in use.
\<close>

definition Buffer_inv :: "buffer \<Rightarrow> bool" where
  "Buffer_inv b \<longleftrightarrow> Buffer_wf b \<and> kCheapPrepend \<le> length (bufdata b)"

lemma Buffer_inv_wf [dest]: "Buffer_inv b \<Longrightarrow> Buffer_wf b"
  by (simp add: Buffer_inv_def)

lemma Buffer_inv_new [simp]: "n \<le> max_size - kCheapPrepend \<Longrightarrow> Buffer_inv (Buffer_new n)"
  by (simp add: Buffer_inv_def) (simp add: Buffer_new_def)

lemma Buffer_inv_retrieveAll [simp]: "Buffer_inv b \<Longrightarrow> Buffer_inv (Buffer_retrieveAll b)"
  using Buffer_retrieveAll_ok [of b] by (simp add: Buffer_inv_def) (simp add: Buffer_retrieveAll_def)

lemma Buffer_content_retrieveAll [simp]: "Buffer_content (Buffer_retrieveAll b) = []"
  by (simp add: Buffer_content_def Buffer_retrieveAll_def)

lemma Buffer_retrieve_ok:
  assumes "Buffer_inv b" and "len \<le> length (Buffer_content b)"
  shows "\<exists>b'. Buffer_retrieve b len = Inr b' \<and> Buffer_inv b' \<and>
    Buffer_content b' = drop len (Buffer_content b)"
proof (cases "len < length (Buffer_content b)")
  case True
  have wf: "Buffer_wf b" using assms(1) by auto
  let ?b = "b\<lparr>readerIndex := readerIndex b + len\<rparr>"
  have "Buffer_retrieve b len = Inr ?b"
    using True wf by (simp add: Buffer_retrieve_def buffer_obs)
  moreover have "Buffer_inv ?b"
    using True assms(1) wf by (simp add: Buffer_inv_def Buffer_wf_def buffer_obs)
  ultimately show ?thesis
    using Buffer_content_advance [OF wf assms(2)] by auto
next
  case False
  then have "Buffer_retrieve b len = Inr (Buffer_retrieveAll b)"
    using assms Buffer_readableBytes_eq [of b] by (auto simp: Buffer_retrieve_def)
  moreover have "drop len (Buffer_content b) = []" using False by simp
  ultimately show ?thesis using assms(1) by auto
qed

lemma Buffer_retrieve_assert:
  "Buffer_wf b \<Longrightarrow> length (Buffer_content b) < len \<Longrightarrow> Buffer_retrieve b len = Inl Assert_failed"
  by (simp add: Buffer_retrieve_def Buffer_readableBytes_eq)

lemma Buffer_retrieveAsString_ok:
  assumes "Buffer_inv b" and "len \<le> length (Buffer_content b)"
  shows "\<exists>b'. Buffer_retrieveAsString b len = Inr (take len (Buffer_content b), b') \<and> Buffer_inv b' \<and>
    Buffer_content b' = drop len (Buffer_content b)"
proof -
  from Buffer_retrieve_ok [OF assms] obtain b' where
    "Buffer_retrieve b len = Inr b'" "Buffer_inv b'" "Buffer_content b' = drop len (Buffer_content b)"
    by blast
  moreover have "take len (drop (Buffer_peek b) (bufdata b)) = take len (Buffer_content b)"
    using assms Buffer_content_length [of b]
    by (auto simp: Buffer_peek_def Buffer_content_def min_def)
  ultimately show ?thesis
    using assms by (auto simp: Buffer_retrieveAsString_def Buffer_readableBytes_eq)
qed

section \<open>Making room\<close>

text \<open>
  A condition on the content alone under which \<open>n\<close> more bytes can be written: where the code
  enlarges the vector, \<open>writerIndex_ + n\<close> is below \<open>readable + 2 * n + kCheapPrepend\<close>.
\<close>

definition Buffer_fits :: "buffer \<Rightarrow> nat \<Rightarrow> bool" where
  "Buffer_fits b n \<longleftrightarrow> length (Buffer_content b) + 2 * n + kCheapPrepend \<le> max_size"

lemma Buffer_makeSpace_total:
  assumes inv: "Buffer_inv b" and short: "Buffer_writableBytes b < len"
    and small: "len \<le> max_size"
  shows "(\<not> Buffer_fits b len \<and> Buffer_makeSpace b len = Inl Length_error) \<or>
    (\<exists>b'. Buffer_makeSpace b len = Inr b' \<and> Buffer_inv b' \<and>
    Buffer_content b' = Buffer_content b \<and> len \<le> Buffer_writableBytes b')"
proof -
  have wf: "Buffer_wf b" using inv by auto
  note ix = Buffer_wf_indices [OF wf]
  have w: "Buffer_writableBytes b = length (bufdata b) - writerIndex b"
    using wf by (rule Buffer_writableBytes_eq)
  have room: "Buffer_writableBytes b + Buffer_prependableBytes b < 2 ^ 64"
      "len + kCheapPrepend < 2 ^ 64"
    using ix small w
    by (auto simp: Buffer_prependableBytes_def kCheapPrepend_def max_size_def)
  show ?thesis
  proof (cases "Buffer_writableBytes b + Buffer_prependableBytes b < len + kCheapPrepend \<and>
      max_size < writerIndex b + len")
    case True
    have n: "writerIndex b + len < 2 ^ 64"
      using ix wf small by (simp add: Buffer_wf_def max_size_def)
    have "readerIndex b < len + kCheapPrepend"
      using True unfolding Buffer_prependableBytes_def by linarith
    then have "\<not> Buffer_fits b len"
      using True ix(1) Buffer_content_length [OF wf] unfolding Buffer_fits_def by linarith
    moreover have "Buffer_makeSpace b len = Inl Length_error"
      using True room n by (simp add: Buffer_makeSpace_def vector_resize_def)
    ultimately show ?thesis by blast
  next
    case no_error: False
    show ?thesis
  proof (cases "Buffer_writableBytes b + Buffer_prependableBytes b < len + kCheapPrepend")
    case True
    let ?n = "writerIndex b + len"
    let ?b = "b\<lparr>bufdata := bufdata b @ replicate (?n - length (bufdata b)) (CHR 0x00)\<rparr>"
    have fit: "?n \<le> max_size" using True no_error by simp
    have grow: "length (bufdata b) \<le> ?n" using short w ix by simp
    then have "vector_resize (bufdata b) ?n =
        Inr (bufdata b @ replicate (?n - length (bufdata b)) (CHR 0x00))"
      using fit by (simp add: vector_resize_def)
    then have "Buffer_makeSpace b len = Inr ?b"
      using True room max_size_less [OF fit] by (simp add: Buffer_makeSpace_def)
    moreover have inv': "Buffer_inv ?b"
      using inv fit grow by (simp add: Buffer_inv_def Buffer_wf_def)
    moreover have "Buffer_content ?b = Buffer_content b"
      using ix by (simp add: Buffer_content_def)
    moreover have "len \<le> Buffer_writableBytes ?b"
      using Buffer_writableBytes_eq [of ?b] inv' grow by auto
    ultimately show ?thesis by auto
  next
    case False
    let ?b = "b\<lparr>bufdata := std_copy (bufdata b) kCheapPrepend (Buffer_content b),
      readerIndex := kCheapPrepend, writerIndex := kCheapPrepend + length (Buffer_content b)\<rparr>"
    have "kCheapPrepend < readerIndex b"
      using False short by (simp add: Buffer_prependableBytes_def)
    moreover have len: "length (Buffer_content b) = writerIndex b - readerIndex b"
      using wf by (rule Buffer_content_length)
    ultimately have fit: "kCheapPrepend + length (Buffer_content b) \<le> writerIndex b"
      using ix by simp
    then have l: "length (bufdata ?b) = length (bufdata b)" using ix by simp
    have inv': "Buffer_inv ?b"
      using inv fit ix l by (simp add: Buffer_inv_def Buffer_wf_def)
    have cont: "Buffer_content ?b = Buffer_content b"
      using ix fit by (intro Buffer_contentI) (simp add: std_copy_def)
    have "Buffer_makeSpace b len = Inr ?b"
      using False room \<open>kCheapPrepend < readerIndex b\<close> inv' wf
      by (simp add: Buffer_makeSpace_def Buffer_range_content Let_def Buffer_readableBytes_eq
        Buffer_inv_wf cont)
    moreover have "len \<le> Buffer_writableBytes ?b"
      using Buffer_writableBytes_eq [of ?b] inv' l False w ix len
        \<open>kCheapPrepend < readerIndex b\<close>
      by (auto simp: Buffer_prependableBytes_def)
    ultimately show ?thesis using inv' cont fit by auto
  qed
  qed
qed

lemma Buffer_fits_small: "Buffer_fits b len \<Longrightarrow> len \<le> max_size"
  by (simp add: Buffer_fits_def)

lemma Buffer_ensureWritableBytes_total:
  assumes "Buffer_inv b" and "len \<le> max_size"
  shows "(\<not> Buffer_fits b len \<and> Buffer_ensureWritableBytes b len = Inl Length_error) \<or>
    (\<exists>b'. Buffer_ensureWritableBytes b len = Inr b' \<and> Buffer_inv b' \<and>
    Buffer_content b' = Buffer_content b \<and> len \<le> Buffer_writableBytes b')"
proof (cases "Buffer_writableBytes b < len")
  case True
  from Buffer_makeSpace_total [OF assms(1) True assms(2)] True show ?thesis
    by (auto simp: Buffer_ensureWritableBytes_def)
next
  case False
  with assms(1) show ?thesis by (auto simp: Buffer_ensureWritableBytes_def)
qed

lemma Buffer_ensureWritableBytes_ok:
  assumes "Buffer_inv b" and "Buffer_fits b len"
  shows "\<exists>b'. Buffer_ensureWritableBytes b len = Inr b' \<and> Buffer_inv b' \<and>
    Buffer_content b' = Buffer_content b \<and> len \<le> Buffer_writableBytes b'"
  using Buffer_ensureWritableBytes_total [OF assms(1) Buffer_fits_small [OF assms(2)]] assms(2) by blast

text \<open>Writing \<open>xs\<close> at \<open>beginWrite()\<close> and advancing the write index.\<close>

lemma Buffer_write_at_end:
  assumes "Buffer_inv b" and "length xs \<le> Buffer_writableBytes b"
  defines "b' \<equiv> b\<lparr>bufdata := std_copy (bufdata b) (writerIndex b) xs,
                  writerIndex := writerIndex b + length xs\<rparr>"
  shows "Buffer_inv b'" and "Buffer_content b' = Buffer_content b @ xs"
proof -
  have wf: "Buffer_wf b" using assms(1) by auto
  note ix = Buffer_wf_indices [OF wf]
  have room: "writerIndex b + length xs \<le> length (bufdata b)"
    using assms(2) ix by (simp add: Buffer_writableBytes_eq [OF wf])
  then show "Buffer_inv b'"
    using assms(1) ix by (simp add: b'_def Buffer_inv_def Buffer_wf_def)
  have "drop (readerIndex b) (bufdata b') =
      drop (readerIndex b) (take (writerIndex b) (bufdata b)) @ xs @
      drop (writerIndex b + length xs) (bufdata b)"
    using ix by (simp add: b'_def drop_std_copy)
  moreover have "drop (readerIndex b) (take (writerIndex b) (bufdata b)) = Buffer_content b"
    by (simp add: Buffer_content_def drop_take)
  moreover have "writerIndex b + length xs - readerIndex b = length (Buffer_content b) + length xs"
    using ix Buffer_content_length [OF wf] by simp
  ultimately show "Buffer_content b' = Buffer_content b @ xs"
    unfolding b'_def by (intro Buffer_contentI) simp
qed

text \<open>An append either succeeds or needs a vector larger than the library allows.\<close>

lemma Buffer_append_total:
  assumes inv: "Buffer_inv b" and mem: "len \<le> length mem" and small: "len \<le> max_size"
  shows "(\<not> Buffer_fits b len \<and> Buffer_append b mem len = Inl Length_error) \<or>
    (\<exists>b'. Buffer_append b mem len = Inr b' \<and> Buffer_inv b' \<and>
    Buffer_content b' = Buffer_content b @ take len mem)"
  using Buffer_ensureWritableBytes_total [OF inv small]
proof (elim disjE exE conjE)
  assume "\<not> Buffer_fits b len" "Buffer_ensureWritableBytes b len = Inl Length_error"
  then show ?thesis by (simp add: Buffer_append_def)
next
  fix b1
  assume
    b1: "Buffer_ensureWritableBytes b len = Inr b1" "Buffer_inv b1"
      "Buffer_content b1 = Buffer_content b" "len \<le> Buffer_writableBytes b1"
  have wf: "Buffer_wf b1" using b1(2) by auto
  note ix = Buffer_wf_indices [OF wf]
  have room: "writerIndex b1 + len \<le> length (bufdata b1)"
    using b1(4) ix by (simp add: Buffer_writableBytes_eq [OF wf])
  let ?b = "b1\<lparr>bufdata := std_copy (bufdata b1) (writerIndex b1) (take len mem),
    writerIndex := writerIndex b1 + len\<rparr>"
  have "Buffer_writableBytes (b1\<lparr>bufdata := std_copy (bufdata b1) (writerIndex b1) (take len mem)\<rparr>)
      = Buffer_writableBytes b1"
    using room mem by (simp add: Buffer_writableBytes_def)
  then have "Buffer_append b mem len = Inr ?b"
    using b1 room mem by (simp add: Buffer_append_def Buffer_beginWrite_def Buffer_hasWritten_def)
  then show ?thesis
    using Buffer_write_at_end [OF b1(2), of "take len mem"] b1 mem by auto
qed

lemma Buffer_append_ok:
  assumes inv: "Buffer_inv b" and mem: "len \<le> length mem"
    and fits: "Buffer_fits b len"
  shows "\<exists>b'. Buffer_append b mem len = Inr b' \<and> Buffer_inv b' \<and>
    Buffer_content b' = Buffer_content b @ take len mem"
  using Buffer_append_total [OF inv mem Buffer_fits_small [OF fits]] fits by blast

corollary Buffer_append_all_ok:
  assumes "Buffer_inv b" and "Buffer_fits b (length xs)"
  shows "\<exists>b'. Buffer_append b xs (length xs) = Inr b' \<and> Buffer_inv b' \<and>
    Buffer_content b' = Buffer_content b @ xs"
  using Buffer_append_ok [OF assms(1) order_refl assms(2)] by simp

lemma Buffer_append_piece_ok:
  assumes "Buffer_inv b" and "length xs < 2 ^ 31" and "Buffer_fits b (length xs)"
  shows "\<exists>b'. Buffer_append_piece b xs = Inr b' \<and> Buffer_inv b' \<and>
    Buffer_content b' = Buffer_content b @ xs"
  using Buffer_append_all_ok [OF assms(1,3)] assms(2) by (simp add: Buffer_append_piece_def)

section \<open>The remaining operations\<close>

lemma Buffer_prepend_ok:
  assumes "Buffer_inv b" and "length d \<le> readerIndex b"
  shows "\<exists>b'. Buffer_prepend b d = Inr b' \<and> Buffer_inv b' \<and>
    Buffer_content b' = d @ Buffer_content b \<and> readerIndex b' = readerIndex b - length d"
proof -
  have wf: "Buffer_wf b" using assms(1) by auto
  note ix = Buffer_wf_indices [OF wf]
  let ?r = "readerIndex b - length d"
  let ?b = "b\<lparr>readerIndex := ?r, bufdata := std_copy (bufdata b) ?r d\<rparr>"
  have "Buffer_prepend b d = Inr ?b"
    using assms(2) by (simp add: Buffer_prepend_def Buffer_prependableBytes_def Let_def)
  moreover have "Buffer_inv ?b"
    using assms ix by (simp add: Buffer_inv_def Buffer_wf_def)
  moreover have "Buffer_content ?b = d @ Buffer_content b"
  proof (rule Buffer_contentI)
    have "drop ?r (std_copy (bufdata b) ?r d) = d @ drop (readerIndex b) (bufdata b)"
      using assms(2) ix by (simp add: drop_std_copy)
    moreover have "writerIndex b - ?r = length d + (writerIndex b - readerIndex b)"
      using assms(2) ix by simp
    ultimately show "take (writerIndex ?b - readerIndex ?b) (drop (readerIndex ?b) (bufdata ?b)) =
        d @ Buffer_content b"
      by (simp add: Buffer_content_def)
  qed
  ultimately show ?thesis by simp
qed

lemma Buffer_prepend_assert:
  "readerIndex b < length d \<Longrightarrow> Buffer_prepend b d = Inl Assert_failed"
  by (simp add: Buffer_prepend_def Buffer_prependableBytes_def)

lemma Buffer_unwrite_ok:
  assumes "Buffer_inv b" and "len \<le> length (Buffer_content b)"
  shows "\<exists>b'. Buffer_unwrite b len = Inr b' \<and> Buffer_inv b' \<and>
    Buffer_content b' = take (length (Buffer_content b) - len) (Buffer_content b)"
proof -
  have wf: "Buffer_wf b" using assms(1) by auto
  note ix = Buffer_wf_indices [OF wf]
  let ?b = "b\<lparr>writerIndex := writerIndex b - len\<rparr>"
  have "Buffer_unwrite b len = Inr ?b"
    using assms wf by (simp add: Buffer_unwrite_def Buffer_readableBytes_eq)
  moreover have "Buffer_inv ?b"
    using assms ix Buffer_content_length [OF wf] by (auto simp: Buffer_inv_def Buffer_wf_def)
  moreover have "Buffer_content ?b = take (length (Buffer_content b) - len) (Buffer_content b)"
    using Buffer_content_length [OF wf]
    by (simp add: Buffer_content_def diff_right_commute add.commute)
  ultimately show ?thesis by blast
qed

lemma Buffer_shrink_ok:
  assumes inv: "Buffer_inv b" and len: "length (Buffer_content b) < 2 ^ 31"
    and fits: "2 * (length (Buffer_content b) + reserve) + kCheapPrepend \<le> max_size"
  shows "\<exists>b'. Buffer_shrink b reserve = Inr b' \<and> Buffer_inv b' \<and>
    Buffer_content b' = Buffer_content b"
proof -
  have wf: "Buffer_wf b" using inv by auto
  let ?n = "length (Buffer_content b) + reserve"
  have "?n < 2 ^ 64" using fits by (simp add: max_size_def)
  have "Buffer_inv (Buffer_new kInitialSize)" "Buffer_fits (Buffer_new kInitialSize) ?n"
    using fits by (simp_all add: Buffer_fits_def kInitialSize_def kCheapPrepend_def max_size_def)
  from Buffer_ensureWritableBytes_ok [OF this] obtain b1 where
    b1: "Buffer_ensureWritableBytes (Buffer_new kInitialSize) ?n = Inr b1" "Buffer_inv b1"
      "Buffer_content b1 = []" by auto
  have "Buffer_fits b1 (length (Buffer_content b))"
    using b1(3) fits by (simp add: Buffer_fits_def)
  from Buffer_append_piece_ok [OF b1(2) len this] obtain b2 where
    "Buffer_append_piece b1 (Buffer_content b) = Inr b2" "Buffer_inv b2"
    "Buffer_content b2 = Buffer_content b" using b1(3) by auto
  with b1 \<open>?n < 2 ^ 64\<close> wf show ?thesis
    by (simp add: Buffer_shrink_def Buffer_readableBytes_eq Buffer_peek_def Buffer_beginWrite_def
      Buffer_range_content Buffer_swap_def)
qed

text \<open>A read of \<open>xs\<close> appends \<open>xs\<close>, whether or not it overflowed into \<open>extrabuf\<close>.\<close>

lemma Buffer_readFd_total:
  assumes inv: "Buffer_inv b" and kernel: "length xs \<le> Buffer_readv_capacity b"
  shows "(\<not> Buffer_fits b (length xs) \<and> Buffer_readFd b (Read_bytes xs) = Inl Length_error) \<or>
    (\<exists>b'. Buffer_readFd b (Read_bytes xs) = Inr (int (length xs), None, b') \<and> Buffer_inv b' \<and>
    Buffer_content b' = Buffer_content b @ xs)"
proof (cases "length xs \<le> Buffer_writableBytes b")
  case True
  let ?b = "b\<lparr>bufdata := std_copy (bufdata b) (writerIndex b) xs,
    writerIndex := writerIndex b + length xs\<rparr>"
  have "Buffer_readFd b (Read_bytes xs) = Inr (int (length xs), None, ?b)"
    using True by (simp add: Let_def)
  then show ?thesis using Buffer_write_at_end [OF inv True] by blast
next
  case False
  have wf: "Buffer_wf b" using inv by auto
  note ix = Buffer_wf_indices [OF wf]
  let ?w = "Buffer_writableBytes b"
  let ?b = "b\<lparr>bufdata := std_copy (bufdata b) (writerIndex b) (take ?w xs),
    writerIndex := writerIndex b + length (take ?w xs)\<rparr>"
  let ?xs = "drop ?w xs"
  have w: "length (take ?w xs) = ?w" using False by simp
  have full: "writerIndex b + ?w = length (bufdata b)"
    using ix by (simp add: Buffer_writableBytes_eq [OF wf])
  have b: "Buffer_inv ?b" "Buffer_content ?b = Buffer_content b @ take ?w xs"
    using Buffer_write_at_end [OF inv, of "take ?w xs"] w by simp_all
  have "length ?xs \<le> extrabuf_size"
    using kernel False by (auto simp: Buffer_readv_capacity_def split: if_splits)
  then have small: "length ?xs \<le> max_size"
    by (simp add: extrabuf_size_def max_size_def)
  have fits: "Buffer_fits b (length xs) \<Longrightarrow> Buffer_fits ?b (length ?xs)"
    using b(2) w by (simp add: Buffer_fits_def)
  have "length (std_copy (bufdata b) (writerIndex b) (take ?w xs)) = writerIndex ?b"
    using w full by simp
  then have read: "Buffer_readFd b (Read_bytes xs) =
      andThen (Buffer_append ?b ?xs (length ?xs)) (\<lambda>b2. Inr (int (length xs), None, b2))"
    using False by (simp add: Let_def)
  from Buffer_append_total [OF b(1) order_refl small] show ?thesis
  proof (elim disjE exE conjE)
    assume "\<not> Buffer_fits ?b (length ?xs)" "Buffer_append ?b ?xs (length ?xs) = Inl Length_error"
    then show ?thesis using fits read by auto
  next
    fix b' assume "Buffer_append ?b ?xs (length ?xs) = Inr b'" "Buffer_inv b'"
      "Buffer_content b' = Buffer_content ?b @ take (length ?xs) ?xs"
    then show ?thesis using b(2) read by (intro disjI2 exI [of _ b']) simp
  qed
qed

lemma Buffer_readFd_ok:
  assumes "Buffer_inv b" and "length xs \<le> Buffer_readv_capacity b" and "Buffer_fits b (length xs)"
  shows "\<exists>b'. Buffer_readFd b (Read_bytes xs) = Inr (int (length xs), None, b') \<and> Buffer_inv b' \<and>
    Buffer_content b' = Buffer_content b @ xs"
  using Buffer_readFd_total [OF assms(1,2)] assms(3) by blast

section \<open>Searching\<close>

lemma Buffer_findCRLF_content:
  assumes "Buffer_wf b"
  shows "Buffer_findCRLF b =
    (let i = std_search kCRLF (Buffer_content b)
     in if i = length (Buffer_content b) then None else Some (readerIndex b + i))"
  using Buffer_wf_indices [OF assms] Buffer_content_length [OF assms]
  by (auto simp: Buffer_findCRLF_def Buffer_peek_def Buffer_beginWrite_def Buffer_range_content
    Let_def)

lemma Buffer_findEOL_content:
  assumes "Buffer_wf b"
  shows "Buffer_findEOL b =
    (let i = std_find (CHR 0x0A) (Buffer_content b)
     in if i = length (Buffer_content b) then None else Some (readerIndex b + i))"
proof -
  have "take (Buffer_readableBytes b) (drop (Buffer_peek b) (bufdata b)) = Buffer_content b"
    using Buffer_content_length [OF assms]
    by (simp add: Buffer_readableBytes_eq [OF assms] Buffer_peek_def)
      (simp add: Buffer_content_def)
  then show ?thesis by (simp add: Buffer_findEOL_def std_memchr_def Buffer_peek_def Let_def)
qed

lemma Buffer_retrieveUntil_ok:
  assumes "Buffer_inv b" and "len \<le> length (Buffer_content b)"
  shows "Buffer_retrieveUntil b (readerIndex b + len) = Buffer_retrieve b len"
proof -
  have "readerIndex b + len \<le> writerIndex b"
    using assms(2) Buffer_content_length [OF Buffer_inv_wf [OF assms(1)]]
      Buffer_wf_indices(1) [OF Buffer_inv_wf [OF assms(1)]] by linarith
  then show ?thesis
    by (simp add: Buffer_retrieveUntil_def Buffer_peek_def Buffer_beginWrite_def)
qed

section \<open>Buffers as byte queues\<close>

text \<open>
  What the clients of a buffer rely on. A sink takes strings at its end; a queue also gives
  bytes back from its front. How much fits is a condition on the content alone.
\<close>

locale byte_sink =
  fixes inv :: "'b \<Rightarrow> bool"
    and content :: "'b \<Rightarrow> char list"
    and put :: "'b \<Rightarrow> char list \<Rightarrow> 'b result"
    and limit :: nat
    and piece_limit :: nat
  assumes put_ok: "inv b \<Longrightarrow> length xs < piece_limit \<Longrightarrow>
    length (content b) + 2 * length xs + kCheapPrepend \<le> limit \<Longrightarrow>
    \<exists>b'. put b xs = Inr b' \<and> inv b' \<and> content b' = content b @ xs"
begin

lemma put_many:
  assumes "inv b" and "\<forall>xs \<in> set xss. length xs < piece_limit"
    and "length (content b) + 2 * length (concat xss) + kCheapPrepend \<le> limit"
  shows "\<exists>b'. foldR put b xss = Inr b' \<and> inv b' \<and> content b' = content b @ concat xss"
  using assms
proof (induction xss arbitrary: b)
  case (Cons xs xss)
  from put_ok [OF Cons.prems(1), of xs] Cons.prems(2,3) obtain b1 where
    b1: "put b xs = Inr b1" "inv b1" "content b1 = content b @ xs"
    by auto
  with Cons.IH [OF b1(2)] Cons.prems(2,3) show ?case by fastforce
qed simp

end

locale byte_queue = byte_sink +
  fixes get :: "'b \<Rightarrow> nat \<Rightarrow> (char list \<times> 'b) result"
  assumes get_ok: "inv b \<Longrightarrow> n \<le> length (content b) \<Longrightarrow>
    \<exists>b'. get b n = Inr (take n (content b), b') \<and> inv b' \<and> content b' = drop n (content b)"
begin

text \<open>First in, first out: what went in first comes out first, whatever was put behind it.\<close>

lemma fifo:
  assumes "inv b" and "content b = []" and "\<forall>xs \<in> set xss. length xs < piece_limit"
    and "2 * length (concat xss) + kCheapPrepend \<le> limit"
    and "n \<le> length (concat xss)"
  shows "\<exists>b1 b2. foldR put b xss = Inr b1 \<and> get b1 n = Inr (take n (concat xss), b2) \<and>
    inv b2 \<and> content b2 = drop n (concat xss)"
proof -
  from put_many [OF assms(1,3)] assms(2,4) obtain b1 where
    b1: "foldR put b xss = Inr b1" "inv b1" "content b1 = concat xss" by auto
  then show ?thesis using get_ok [OF b1(2), of n] assms(5) by auto
qed

end

text \<open>Strings of any length through \<open>append(const char*, size_t)\<close>.\<close>

interpretation raw: byte_queue Buffer_inv Buffer_content
  "\<lambda>b xs. Buffer_append b xs (length xs)" max_size "2 ^ 64" Buffer_retrieveAsString
  by unfold_locales (use Buffer_append_all_ok Buffer_retrieveAsString_ok in \<open>auto simp: Buffer_fits_def\<close>)

text \<open>Strings shorter than \<open>2 ^ 31\<close> through \<open>append(const StringPiece&)\<close>.\<close>

interpretation piece: byte_queue Buffer_inv Buffer_content
  Buffer_append_piece max_size "2 ^ 31" Buffer_retrieveAsString
  by unfold_locales (use Buffer_append_piece_ok Buffer_retrieveAsString_ok in \<open>auto simp: Buffer_fits_def\<close>)

section \<open>Integers\<close>

lemma Buffer_peek_prefix:
  assumes "Buffer_wf b" and "n \<le> length (Buffer_content b)"
  shows "take n (drop (Buffer_peek b) (bufdata b)) = take n (Buffer_content b)"
  using assms Buffer_content_length [of b]
  by (simp add: Buffer_peek_def Buffer_content_def min_def)

lemma Buffer_peekInt_eq:
  assumes "Buffer_wf b"
  shows "Buffer_peekInt64 h b =
      cassert (8 \<le> length (Buffer_content b)) (Inr (unwire64 h (take 8 (Buffer_content b))))"
    and "Buffer_peekInt32 h b =
      cassert (4 \<le> length (Buffer_content b)) (Inr (unwire32 h (take 4 (Buffer_content b))))"
    and "Buffer_peekInt16 h b =
      cassert (2 \<le> length (Buffer_content b)) (Inr (unwire16 h (take 2 (Buffer_content b))))"
    and "Buffer_peekInt8 h b =
      cassert (1 \<le> length (Buffer_content b)) (Inr (unwire8 h (take 1 (Buffer_content b))))"
  using Buffer_peek_prefix [OF assms] assms
  by (simp_all add: Buffer_peekInt64_def Buffer_peekInt32_def Buffer_peekInt16_def
    Buffer_peekInt8_def unwire64_def unwire32_def unwire16_def unwire8_def
    Buffer_readableBytes_eq cassert_def Let_def)

text \<open>
  One argument for the four widths: an operation pair that reads \<open>width\<close> bytes of the content
  with a codec's decoder undoes its encoder.
\<close>

context wire_codec
begin

lemma read_back:
  assumes "Buffer_inv b" and "Buffer_content b = enc x @ rest"
    and "\<And>b'. Buffer_wf b' \<Longrightarrow> pk b' =
      cassert (width \<le> length (Buffer_content b')) (Inr (dec (take width (Buffer_content b'))))"
  shows "\<exists>b'. andThen (pk b) (\<lambda>r. andThen (Buffer_retrieve b width) (\<lambda>b'. Inr (r, b'))) = Inr (x, b') \<and>
    Buffer_inv b' \<and> Buffer_content b' = rest"
proof -
  have "width \<le> length (Buffer_content b)" and "take width (Buffer_content b) = enc x"
    using assms(2) enc_length [of x] by simp_all
  moreover have "pk b = Inr x"
    using assms(1) assms(3) [of b] calculation by (simp add: Buffer_inv_wf dec_enc)
  moreover have "drop width (Buffer_content b) = rest"
    using assms(2) by (simp only: drop_enc)
  ultimately show ?thesis
    using Buffer_retrieve_ok [OF assms(1), of width] by auto
qed

end

lemma Buffer_readInt64_ok:
  "Buffer_inv b \<Longrightarrow> Buffer_content b = wire64 h x @ rest \<Longrightarrow>
   \<exists>b'. Buffer_readInt64 h' b = Inr (x, b') \<and> Buffer_inv b' \<and> Buffer_content b' = rest"
  using w64.read_back [of b h' x rest "Buffer_peekInt64 h'"]
  by (simp add: Buffer_readInt64_def Buffer_retrieveInt64_def Buffer_peekInt_eq wire_big_endian)

lemma Buffer_readInt32_ok:
  "Buffer_inv b \<Longrightarrow> Buffer_content b = wire32 h x @ rest \<Longrightarrow>
   \<exists>b'. Buffer_readInt32 h' b = Inr (x, b') \<and> Buffer_inv b' \<and> Buffer_content b' = rest"
  using w32.read_back [of b h' x rest "Buffer_peekInt32 h'"]
  by (simp add: Buffer_readInt32_def Buffer_retrieveInt32_def Buffer_peekInt_eq wire_big_endian)

lemma Buffer_readInt16_ok:
  "Buffer_inv b \<Longrightarrow> Buffer_content b = wire16 h x @ rest \<Longrightarrow>
   \<exists>b'. Buffer_readInt16 h' b = Inr (x, b') \<and> Buffer_inv b' \<and> Buffer_content b' = rest"
  using w16.read_back [of b h' x rest "Buffer_peekInt16 h'"]
  by (simp add: Buffer_readInt16_def Buffer_retrieveInt16_def Buffer_peekInt_eq wire_big_endian)

lemma Buffer_readInt8_ok:
  "Buffer_inv b \<Longrightarrow> Buffer_content b = wire8 h x @ rest \<Longrightarrow>
   \<exists>b'. Buffer_readInt8 h' b = Inr (x, b') \<and> Buffer_inv b' \<and> Buffer_content b' = rest"
  using w8.read_back [of b h' x rest "Buffer_peekInt8 h'"]
  by (simp add: Buffer_readInt8_def Buffer_retrieveInt8_def Buffer_peekInt_eq wire_big_endian
    del: bytes_le.simps)

section \<open>Refinement of a byte string\<close>

text \<open>
  Scripts of buffer operations, and what they promise about the readable bytes alone: \<open>None\<close>
  where the caller breaks the operation's contract (it asks for more than is readable, or for
  more room than a vector can have).
\<close>

datatype buffer_op =
    Op_append "char list"
  | Op_append_piece "char list"
  | Op_readFd "char list"
  | Op_ensureWritableBytes nat
  | Op_retrieve nat
  | Op_retrieveAll
  | Op_retrieveAsString nat
  | Op_unwrite nat
  | Op_shrink nat

fun Buffer_exec :: "buffer \<Rightarrow> buffer_op \<Rightarrow> buffer result" where
  "Buffer_exec b (Op_append xs) = Buffer_append b xs (length xs)"
| "Buffer_exec b (Op_append_piece xs) = Buffer_append_piece b xs"
| "Buffer_exec b (Op_readFd xs) =
     andThen (Buffer_readFd b (Read_bytes xs)) (\<lambda>(n, e, b'). Inr b')"
| "Buffer_exec b (Op_ensureWritableBytes n) = Buffer_ensureWritableBytes b n"
| "Buffer_exec b (Op_retrieve n) = Buffer_retrieve b n"
| "Buffer_exec b Op_retrieveAll = Inr (Buffer_retrieveAll b)"
| "Buffer_exec b (Op_retrieveAsString n) =
     andThen (Buffer_retrieveAsString b n) (\<lambda>(s, b'). Inr b')"
| "Buffer_exec b (Op_unwrite n) = Buffer_unwrite b n"
| "Buffer_exec b (Op_shrink n) = Buffer_shrink b n"

definition string_fits :: "char list \<Rightarrow> nat \<Rightarrow> bool" where
  "string_fits s n \<longleftrightarrow> length s + 2 * n + kCheapPrepend \<le> max_size"

fun string_spec :: "char list \<Rightarrow> buffer_op \<Rightarrow> char list option" where
  "string_spec s (Op_append xs) = (if string_fits s (length xs) then Some (s @ xs) else None)"
| "string_spec s (Op_append_piece xs) =
     (if string_fits s (length xs) \<and> length xs < 2 ^ 31 then Some (s @ xs) else None)"
| "string_spec s (Op_readFd xs) =
     (if string_fits s (length xs) \<and> length xs \<le> extrabuf_size then Some (s @ xs) else None)"
| "string_spec s (Op_ensureWritableBytes n) = (if string_fits s n then Some s else None)"
| "string_spec s (Op_retrieve n) = (if n \<le> length s then Some (drop n s) else None)"
| "string_spec s Op_retrieveAll = Some []"
| "string_spec s (Op_retrieveAsString n) = (if n \<le> length s then Some (drop n s) else None)"
| "string_spec s (Op_unwrite n) =
     (if n \<le> length s then Some (take (length s - n) s) else None)"
| "string_spec s (Op_shrink n) =
     (if length s < 2 ^ 31 \<and> 2 * (length s + n) + kCheapPrepend \<le> max_size then Some s else None)"

fun string_specs :: "char list \<Rightarrow> buffer_op list \<Rightarrow> char list option" where
  "string_specs s [] = Some s"
| "string_specs s (a # as) =
     (case string_spec s a of None \<Rightarrow> None | Some s' \<Rightarrow> string_specs s' as)"

lemma Buffer_readv_capacity_min: "extrabuf_size \<le> Buffer_readv_capacity b"
  by (simp add: Buffer_readv_capacity_def)

lemma Buffer_exec_refines:
  assumes inv: "Buffer_inv b" and spec: "string_spec (Buffer_content b) a = Some s"
  shows "\<exists>b'. Buffer_exec b a = Inr b' \<and> Buffer_inv b' \<and> Buffer_content b' = s"
proof (cases a)
  case (Op_readFd xs)
  then show ?thesis
    using spec Buffer_readFd_ok [OF inv order_trans [OF _ Buffer_readv_capacity_min], of xs]
    by (auto simp: string_fits_def Buffer_fits_def split: if_splits)
next
  case (Op_retrieveAsString n)
  then show ?thesis
    using spec Buffer_retrieveAsString_ok [OF inv, of n] by (auto split: if_splits)
next
  case (Op_ensureWritableBytes n)
  then show ?thesis
    using spec Buffer_ensureWritableBytes_ok [OF inv, of n]
    by (auto simp: string_fits_def Buffer_fits_def split: if_splits)
qed (use inv spec Buffer_append_all_ok Buffer_append_piece_ok Buffer_retrieve_ok
      Buffer_unwrite_ok Buffer_shrink_ok
    in \<open>auto simp: string_fits_def Buffer_fits_def split: if_splits\<close>)

lemma Buffer_run_refines:
  assumes "Buffer_inv b" and "string_specs (Buffer_content b) as = Some s"
  shows "\<exists>b'. foldR Buffer_exec b as = Inr b' \<and> Buffer_inv b' \<and> Buffer_content b' = s"
  using assms
proof (induction as arbitrary: b)
  case (Cons a as)
  then obtain s1 where s1: "string_spec (Buffer_content b) a = Some s1" "string_specs s1 as = Some s"
    by (auto split: option.splits)
  from Buffer_exec_refines [OF Cons.prems(1) s1(1)] obtain b1 where
    "Buffer_exec b a = Inr b1" "Buffer_inv b1" "Buffer_content b1 = s1" by blast
  with Cons.IH [of b1] s1(2) show ?case by simp
qed simp

section \<open>Properties\<close>

text \<open>
  C2: any script of the nine operations of \<open>buffer_op\<close> (\<open>append\<close> of a pointer or a string, \<open>readFd\<close>,
  \<open>ensureWritableBytes\<close>, \<open>retrieve\<close>, \<open>retrieveAll\<close>, \<open>retrieveAsString\<close>, \<open>unwrite\<close>,
  \<open>shrink\<close>), started in a new buffer, behaves on the readable bytes as
  the same script on a plain byte string does. It never stops the process while its callers keep
  the contract (\<open>string_spec\<close>: no more is taken out than there is, the content can grow within
  \<open>max_size\<close>, and a \<open>readFd\<close> brings at most the 65536 bytes that every buffer has room for), keeps \<open>0 <= readerIndex <= writerIndex <= size\<close>, and leaves exactly the string
  the specification computes, through every growth, compaction and reset of the vector.
\<close>

theorem Buffer_refines_string:
  assumes "n \<le> max_size - kCheapPrepend" and "string_specs [] as = Some s"
  shows "\<exists>b. foldR Buffer_exec (Buffer_new n) as = Inr b \<and> Buffer_inv b \<and> Buffer_content b = s"
  using Buffer_run_refines [of "Buffer_new n" as s] assms by simp

lemma Buffer_refines_string_witness:
  "\<exists>b. foldR Buffer_exec (Buffer_new 4)
      [Op_append ''hello'', Op_retrieve 2, Op_append_piece '' world'', Op_unwrite 1] = Inr b \<and>
    Buffer_inv b \<and> Buffer_content b = ''llo worl''"
  by (rule Buffer_refines_string)
    (simp_all add: string_fits_def max_size_def kCheapPrepend_def)

text \<open>Calls outside the contract fail their assertion; nothing outside the vector is touched.\<close>

lemma Buffer_contract_violations:
  assumes "Buffer_wf b" and "length (Buffer_content b) < n"
  shows "Buffer_retrieve b n = Inl Assert_failed" "Buffer_retrieveAsString b n = Inl Assert_failed"
    "Buffer_unwrite b n = Inl Assert_failed"
  using assms
  by (simp_all add: Buffer_retrieve_assert Buffer_retrieveAsString_def
    Buffer_unwrite_def Buffer_readableBytes_eq)

text \<open>The four integer widths behind each other: what is written, and what is read back.\<close>

definition wire_ints :: "64 word \<Rightarrow> 32 word \<Rightarrow> 16 word \<Rightarrow> 8 word \<Rightarrow> char list" where
  "wire_ints x y z w = rev (bytes_le 8 (unat x)) @ rev (bytes_le 4 (unat y)) @
     rev (bytes_le 2 (unat z)) @ rev (bytes_le 1 (unat w))"

lemma Buffer_appendInts_ok:
  assumes "Buffer_inv b" and "Buffer_content b = []"
  shows "\<exists>b1 b2 b3 b4. Buffer_appendInt64 h b x = Inr b1 \<and> Buffer_appendInt32 h b1 y = Inr b2 \<and>
    Buffer_appendInt16 h b2 z = Inr b3 \<and> Buffer_appendInt8 h b3 w = Inr b4 \<and>
    Buffer_inv b4 \<and> Buffer_content b4 = wire_ints x y (ucast z) w"
proof -
  have app: "\<exists>b'. Buffer_append c bs (length bs) = Inr b' \<and> Buffer_inv b' \<and>
      Buffer_content b' = Buffer_content c @ bs"
    if "Buffer_inv c" "length (Buffer_content c) \<le> 100" "length bs \<le> 100" for c bs
    using Buffer_append_all_ok [OF that(1), of bs] that(2,3)
    by (simp add: Buffer_fits_def kCheapPrepend_def max_size_def)
  obtain b1 where b1: "Buffer_appendInt64 h b x = Inr b1" "Buffer_inv b1"
      "Buffer_content b1 = wire64 h x"
    using app [of b "wire64 h x"] assms
    by (auto simp: Buffer_appendInt64_def wire64_def)
  obtain b2 where b2: "Buffer_appendInt32 h b1 y = Inr b2" "Buffer_inv b2"
      "Buffer_content b2 = wire64 h x @ wire32 h y"
    using app [of b1 "wire32 h y"] b1
    by (auto simp: Buffer_appendInt32_def wire32_def w64.enc_length)
  obtain b3 where b3: "Buffer_appendInt16 h b2 z = Inr b3" "Buffer_inv b3"
      "Buffer_content b3 = wire64 h x @ wire32 h y @ wire16 h (ucast z)"
    using app [of b2 "wire16 h (ucast z)"] b2
    by (auto simp: Buffer_appendInt16_def wire16_def w64.enc_length w32.enc_length)
  obtain b4 where b4: "Buffer_appendInt8 h b3 w = Inr b4" "Buffer_inv b4"
      "Buffer_content b4 = wire64 h x @ wire32 h y @ wire16 h (ucast z) @ wire8 h w"
    using app [of b3 "wire8 h w"] b3
    by (auto simp: Buffer_appendInt8_def wire8_def w64.enc_length w32.enc_length w16.enc_length)
  show ?thesis
    using b1(1) b2(1) b3(1) b4 by (simp add: wire_ints_def wire_big_endian del: bytes_le.simps)
qed

lemma Buffer_readInts_ok:
  assumes "Buffer_inv r" and "Buffer_content r = wire_ints x y z w @ rest"
  shows "\<exists>r1 r2 r3 r4. Buffer_readInt64 h r = Inr (x, r1) \<and> Buffer_readInt32 h r1 = Inr (y, r2) \<and>
    Buffer_readInt16 h r2 = Inr (z, r3) \<and> Buffer_readInt8 h r3 = Inr (w, r4) \<and>
    Buffer_inv r4 \<and> Buffer_content r4 = rest"
proof -
  have "Buffer_content r = wire64 h x @ wire32 h y @ wire16 h z @ wire8 h w @ rest"
    using assms(2) by (simp add: wire_ints_def wire_big_endian del: bytes_le.simps)
  from Buffer_readInt64_ok [OF assms(1) this] obtain r1 where
    r1: "Buffer_readInt64 h r = Inr (x, r1)" "Buffer_inv r1"
      "Buffer_content r1 = wire32 h y @ wire16 h z @ wire8 h w @ rest" by blast
  from Buffer_readInt32_ok [OF r1(2,3)] obtain r2 where
    r2: "Buffer_readInt32 h r1 = Inr (y, r2)" "Buffer_inv r2"
      "Buffer_content r2 = wire16 h z @ wire8 h w @ rest" by blast
  from Buffer_readInt16_ok [OF r2(2,3)] obtain r3 where
    r3: "Buffer_readInt16 h r2 = Inr (z, r3)" "Buffer_inv r3"
      "Buffer_content r3 = wire8 h w @ rest" by blast
  from Buffer_readInt8_ok [OF r3(2,3)] obtain r4 where
    "Buffer_readInt8 h r3 = Inr (w, r4)" "Buffer_inv r4" "Buffer_content r4 = rest" by blast
  with r1(1) r2(1) r3(1) show ?thesis by blast
qed

text \<open>
  C29: integers survive the trip between any two hosts. Whatever the byte order \<open>h\<close> of the sender
  and \<open>h'\<close> of the receiver, what \<open>appendInt64\<close>, \<open>appendInt32\<close>, \<open>appendInt16\<close> and \<open>appendInt8\<close>
  put behind each other is, byte for byte, the big-endian digits of the values, and a receiver
  whose buffer starts with the sender's bytes reads back the same four values and is left with
  the bytes that follow. (\<open>appendInt16\<close> takes a 64-bit argument and sends its low 16 bits.)
\<close>

theorem Buffer_ints_portable:
  assumes "Buffer_inv b" and "Buffer_content b = []"
  shows "\<exists>b1 b2 b3 b4. Buffer_appendInt64 h b x = Inr b1 \<and> Buffer_appendInt32 h b1 y = Inr b2 \<and>
    Buffer_appendInt16 h b2 z = Inr b3 \<and> Buffer_appendInt8 h b3 w = Inr b4 \<and>
    Buffer_content b4 = wire_ints x y (ucast z) w \<and>
    (\<forall>r rest. Buffer_inv r \<and> Buffer_content r = Buffer_content b4 @ rest \<longrightarrow>
      (\<exists>r1 r2 r3 r4. Buffer_readInt64 h' r = Inr (x, r1) \<and> Buffer_readInt32 h' r1 = Inr (y, r2) \<and>
        Buffer_readInt16 h' r2 = Inr (ucast z, r3) \<and> Buffer_readInt8 h' r3 = Inr (w, r4) \<and>
        Buffer_content r4 = rest))"
proof -
  from Buffer_appendInts_ok [OF assms, of h x y z w] obtain b1 b2 b3 b4 where
    b: "Buffer_appendInt64 h b x = Inr b1" "Buffer_appendInt32 h b1 y = Inr b2"
      "Buffer_appendInt16 h b2 z = Inr b3" "Buffer_appendInt8 h b3 w = Inr b4"
      "Buffer_content b4 = wire_ints x y (ucast z) w" by blast
  have "\<exists>r1 r2 r3 r4. Buffer_readInt64 h' r = Inr (x, r1) \<and> Buffer_readInt32 h' r1 = Inr (y, r2) \<and>
      Buffer_readInt16 h' r2 = Inr (ucast z, r3) \<and> Buffer_readInt8 h' r3 = Inr (w, r4) \<and>
      Buffer_content r4 = rest"
    if "Buffer_inv r" "Buffer_content r = wire_ints x y (ucast z) w @ rest" for r rest
    using Buffer_readInts_ok [OF that, of h'] by blast
  with b show ?thesis by (intro exI [of _ b1] exI [of _ b2] exI [of _ b3] exI [of _ b4]) simp
qed

text \<open>A little-endian sender, and a big-endian receiver that is left with one more byte.\<close>

lemma Buffer_ints_portable_witness:
  "\<exists>r r1 r2 r3 r4. Buffer_readInt64 Big r = Inr (1234567890123, r1) \<and>
    Buffer_readInt32 Big r1 = Inr (9, r2) \<and> Buffer_readInt16 Big r2 = Inr (0xFFFE, r3) \<and>
    Buffer_readInt8 Big r3 = Inr (7, r4) \<and> Buffer_content r4 = ''A''"
proof -
  have "Buffer_inv (Buffer_new 0)" "Buffer_content (Buffer_new 0) = []" by simp_all
  from Buffer_ints_portable [OF this, where h = Little and h' = Big and x = 1234567890123
      and y = 9 and z = "0xFFFE" and w = 7]
  obtain b4 where b4: "Buffer_content b4 = wire_ints 1234567890123 9 (ucast (0xFFFE :: 64 word)) 7"
    and read: "\<And>r rest. Buffer_inv r \<Longrightarrow> Buffer_content r = Buffer_content b4 @ rest \<Longrightarrow>
      \<exists>r1 r2 r3 r4. Buffer_readInt64 Big r = Inr (1234567890123, r1) \<and>
        Buffer_readInt32 Big r1 = Inr (9, r2) \<and>
        Buffer_readInt16 Big r2 = Inr (ucast (0xFFFE :: 64 word), r3) \<and>
        Buffer_readInt8 Big r3 = Inr (7, r4) \<and> Buffer_content r4 = rest"
    by auto
  let ?bs = "Buffer_content b4 @ ''A''"
  let ?r = "\<lparr>bufdata = replicate 8 (CHR 0x00) @ ?bs, readerIndex = 8, writerIndex = 24\<rparr>"
  have "length (Buffer_content b4) = 15" by (simp add: b4 wire_ints_def)
  then have "Buffer_inv ?r"
    by (simp add: Buffer_inv_def Buffer_wf_def max_size_def kCheapPrepend_def)
  moreover have "Buffer_content ?r = ?bs"
    by (rule Buffer_contentI) (use \<open>length (Buffer_content b4) = 15\<close> in simp)
  ultimately have "Buffer_inv ?r" "Buffer_content ?r = ?bs" .
  from read [OF this] show ?thesis by simp blast
qed

end
