(* ===== verification/Decimal.thy ===== *)
theory Decimal
  imports Prelude
begin

text \<open>
  What \<open>printf\<close> writes: decimal digits (\<open>%d\<close>, \<open>%zd\<close>, \<open>%u\<close>, \<open>PRId64\<close>), zero and space
  padding (\<open>%06d\<close>, \<open>%2d\<close>), and the truncation of \<open>snprintf\<close>. \<open>decimal\<close> is also the reference
  that \<open>LogStream\<close>'s own integer conversion is compared with.
\<close>

definition digit_char :: "nat \<Rightarrow> char" where
  "digit_char d = char_of (48 + d)"

fun dec_digits :: "nat \<Rightarrow> char list" where
  "dec_digits n = (if n < 10 then [digit_char n] else dec_digits (n div 10) @ [digit_char (n mod 10)])"

declare dec_digits.simps [simp del]

definition decimal :: "int \<Rightarrow> char list" where
  "decimal i = (if i < 0 then CHR ''-'' # dec_digits (nat (- i)) else dec_digits (nat i))"

text \<open>\<open>%0wd\<close> and \<open>%wd\<close> of a value that is not negative.\<close>

definition pad_left :: "char \<Rightarrow> nat \<Rightarrow> char list \<Rightarrow> char list" where
  "pad_left c w s = replicate (w - length s) c @ s"

text \<open>\<open>%0wd\<close>: the zeros stand between the sign and the digits.\<close>

definition zero_padded :: "nat \<Rightarrow> int \<Rightarrow> char list" where
  "zero_padded w i =
     (if i < 0 then CHR ''-'' # pad_left (CHR ''0'') (w - 1) (dec_digits (nat (- i)))
      else pad_left (CHR ''0'') w (dec_digits (nat i)))"

definition space_padded :: "nat \<Rightarrow> int \<Rightarrow> char list" where
  "space_padded w i = pad_left (CHR '' '') w (decimal i)"

text \<open>\<open>snprintf(buf, n, ...)\<close> leaves at most \<open>n - 1\<close> characters before the terminator.\<close>

definition snprintf :: "nat \<Rightarrow> char list \<Rightarrow> char list" where
  "snprintf n s = take (n - 1) s"

section \<open>Reading digits back\<close>

fun dec_value :: "nat \<Rightarrow> char list \<Rightarrow> nat" where
  "dec_value acc [] = acc"
| "dec_value acc (c # cs) = dec_value (10 * acc + (of_char c - 48)) cs"

definition is_digit :: "char \<Rightarrow> bool" where
  "is_digit c \<longleftrightarrow> (48::nat) \<le> of_char c \<and> (of_char c :: nat) \<le> 57"

lemma of_char_digit [simp]: "d < 10 \<Longrightarrow> (of_char (digit_char d) :: nat) = 48 + d"
  by (simp add: digit_char_def)

lemma is_digit_digit_char [simp]: "d < 10 \<Longrightarrow> is_digit (digit_char d)"
  by (simp add: is_digit_def)

lemma dec_value_append: "dec_value acc (xs @ ys) = dec_value (dec_value acc xs) ys"
  by (induction xs arbitrary: acc) auto

lemma dec_value_digits [simp]: "dec_value 0 (dec_digits n) = n"
proof (induction n rule: dec_digits.induct)
  case (1 n)
  then show ?case by (subst dec_digits.simps) (auto simp: dec_value_append)
qed

lemma dec_digits_inject [simp]: "dec_digits m = dec_digits n \<longleftrightarrow> m = n"
  by (metis dec_value_digits)

lemma dec_digits_ne_Nil [simp]: "dec_digits n \<noteq> []"
  by (subst dec_digits.simps) simp

lemma dec_digits_digits: "\<forall>c \<in> set (dec_digits n). is_digit c"
proof (induction n rule: dec_digits.induct)
  case (1 n)
  then show ?case by (subst dec_digits.simps) auto
qed

lemma length_dec_digits:
  "n < 10 ^ k \<Longrightarrow> 0 < k \<Longrightarrow> length (dec_digits n) \<le> k"
proof (induction n arbitrary: k rule: dec_digits.induct)
  case (1 n)
  show ?case
  proof (cases "n < 10")
    case True
    then show ?thesis using "1.prems" by (subst dec_digits.simps) simp
  next
    case False
    then obtain j where k: "k = Suc j" "0 < j"
      using "1.prems" by (cases k; cases "k - 1") auto
    then have "n div 10 < 10 ^ j"
      using "1.prems" by (simp add: div_less_iff_less_mult mult.commute)
    then show ?thesis
      using "1.IH" [OF False, of j] False k by (subst dec_digits.simps) simp
  qed
qed

lemma not_digit_in_decimal:
  assumes "\<not> is_digit c" and "c \<noteq> CHR ''-''"
  shows "c \<notin> set (decimal i)"
  using assms dec_digits_digits by (auto simp: decimal_def)

end
