(* ===== verification/Std_Map.thy ===== *)
theory Std_Map
  imports Prelude "HOL-Library.Char_ord" "HOL-Library.List_Lexorder"
begin

text \<open>
  The ordered containers of the standard library that the program keeps its state in:
  \<open>std::map\<close> as the list of its entries in iteration order (keys ascending), \<open>std::set\<close> as the
  ascending list of its elements. Strings are ordered as \<open>std::string::operator<\<close> orders them:
  lexicographically, by the bytes as unsigned values (\<open>Char_ord\<close>, \<open>List_Lexorder\<close>).

  The locales \<open>dictionary\<close> and \<open>ordered_set\<close> state what the clients rely on.
\<close>

section \<open>Maps\<close>

fun map_put :: "'k::linorder \<Rightarrow> 'v \<Rightarrow> ('k \<times> 'v) list \<Rightarrow> ('k \<times> 'v) list" where
  "map_put k v [] = [(k, v)]"
| "map_put k v ((k', v') # m) =
     (if k < k' then (k, v) # (k', v') # m
      else if k = k' then (k, v) # m
      else (k', v') # map_put k v m)"

fun map_erase :: "'k::linorder \<Rightarrow> ('k \<times> 'v) list \<Rightarrow> ('k \<times> 'v) list" where
  "map_erase k [] = []"
| "map_erase k ((k', v') # m) = (if k = k' then m else (k', v') # map_erase k m)"

definition map_find :: "('k \<times> 'v) list \<Rightarrow> 'k \<Rightarrow> 'v option" where
  "map_find m k = map_of m k"

definition map_wf :: "('k::linorder \<times> 'v) list \<Rightarrow> bool" where
  "map_wf m \<longleftrightarrow> sorted_wrt (<) (map fst m)"

lemma map_find_Nil [simp]: "map_find [] = Map.empty"
  by (simp add: map_find_def fun_eq_iff)

lemma map_find_put [simp]:
  "map_find (map_put k v m) = (map_find m)(k \<mapsto> v)"
  unfolding map_find_def by (induction m rule: map_put.induct) (auto simp: fun_eq_iff)

lemma fst_map_put: "fst ` set (map_put k v m) = insert k (fst ` set m)"
  by (induction m rule: map_put.induct) auto

lemma map_wf_put [simp]: "map_wf m \<Longrightarrow> map_wf (map_put k v m)"
  unfolding map_wf_def
proof (induction m rule: map_put.induct)
  case (2 k v k' v' m)
  have "\<forall>x \<in> fst ` set (map_put k v m). k' < x" if "k' < k"
    using "2.prems" that by (auto simp: fst_map_put)
  then show ?case using 2 by (auto simp: not_less)
qed simp

lemma map_find_erase [simp]:
  "map_wf m \<Longrightarrow> map_find (map_erase k m) = (map_find m)(k := None)"
  unfolding map_find_def map_wf_def
proof (induction m rule: map_erase.induct)
  case (2 k k' v' m)
  have "map_of m k' = None" using "2.prems" by (auto simp: map_of_eq_None_iff)
  then show ?case using 2 by (auto simp: fun_eq_iff)
qed simp

lemma set_map_erase: "set (map_erase k m) \<subseteq> set m"
  by (induction m rule: map_erase.induct) auto

lemma map_wf_erase [simp]: "map_wf m \<Longrightarrow> map_wf (map_erase k m)"
  unfolding map_wf_def
proof (induction m rule: map_erase.induct)
  case (2 k k' v' m)
  then show ?case using set_map_erase [of k m] by auto
qed simp

locale dictionary =
  fixes wf :: "'m \<Rightarrow> bool"
    and find :: "'m \<Rightarrow> 'k \<Rightarrow> 'v option"
    and put :: "'k \<Rightarrow> 'v \<Rightarrow> 'm \<Rightarrow> 'm"
    and erase :: "'k \<Rightarrow> 'm \<Rightarrow> 'm"
  assumes wf_put: "wf m \<Longrightarrow> wf (put k v m)"
    and wf_erase: "wf m \<Longrightarrow> wf (erase k m)"
    and find_put: "wf m \<Longrightarrow> find (put k v m) = (find m)(k \<mapsto> v)"
    and find_erase: "wf m \<Longrightarrow> find (erase k m) = (find m)(k := None)"
begin

lemma erase_put_fresh: "wf m \<Longrightarrow> find m k = None \<Longrightarrow> find (erase k (put k v m)) = find m"
  by (simp add: wf_put find_put find_erase fun_upd_idem)

lemma put_other: "wf m \<Longrightarrow> k \<noteq> k' \<Longrightarrow> find (put k v m) k' = find m k'"
  by (simp add: find_put)

text \<open>Storing a list of entries, the last one wins.\<close>

lemma find_puts:
  "wf m \<Longrightarrow> find (foldl (\<lambda>m (k, v). put k v m) m kvs) = find m ++ map_of (rev kvs)"
proof (induction kvs arbitrary: m)
  case (Cons kv kvs)
  then show ?case
    by (cases kv) (auto simp: wf_put find_put map_add_def fun_eq_iff split: option.splits)
qed simp

end

interpretation smap: dictionary map_wf map_find map_put map_erase
  by unfold_locales simp_all

section \<open>Sets\<close>

fun set_insert :: "'a::linorder \<Rightarrow> 'a list \<Rightarrow> 'a list" where
  "set_insert x [] = [x]"
| "set_insert x (y # ys) =
     (if x < y then x # y # ys else if x = y then y # ys else y # set_insert x ys)"

text \<open>\<open>erase(key)\<close> of a set, and the number of elements it erased.\<close>

definition set_erase :: "'a \<Rightarrow> 'a list \<Rightarrow> 'a list" where
  "set_erase x ys = removeAll x ys"

definition set_wf :: "'a::linorder list \<Rightarrow> bool" where
  "set_wf ys \<longleftrightarrow> sorted_wrt (<) ys"

text \<open>\<open>[begin(), lower_bound(x))\<close> and \<open>[lower_bound(x), end())\<close>.\<close>

definition set_below :: "'a::linorder \<Rightarrow> 'a list \<Rightarrow> 'a list" where
  "set_below x ys = takeWhile (\<lambda>y. y < x) ys"

definition set_from :: "'a::linorder \<Rightarrow> 'a list \<Rightarrow> 'a list" where
  "set_from x ys = dropWhile (\<lambda>y. y < x) ys"

lemma set_set_insert [simp]: "set (set_insert x ys) = insert x (set ys)"
  by (induction ys) auto

lemma set_wf_insert [simp]: "set_wf ys \<Longrightarrow> set_wf (set_insert x ys)"
  unfolding set_wf_def by (induction ys) (auto simp: not_less)

lemma length_set_insert:
  "x \<notin> set ys \<Longrightarrow> length (set_insert x ys) = Suc (length ys)"
  by (induction ys) auto

lemma set_set_erase [simp]: "set (set_erase x ys) = set ys - {x}"
  by (auto simp: set_erase_def)

lemma set_wf_erase [simp]: "set_wf ys \<Longrightarrow> set_wf (set_erase x ys)"
  unfolding set_wf_def set_erase_def removeAll_filter_not_eq by (rule sorted_wrt_filter)

lemma set_wf_distinct: "set_wf ys \<Longrightarrow> distinct ys"
  by (simp add: set_wf_def strict_sorted_iff)

lemma length_set_erase:
  "set_wf ys \<Longrightarrow> x \<in> set ys \<Longrightarrow> Suc (length (set_erase x ys)) = length ys"
  using set_wf_distinct [of ys]
  by (simp add: set_erase_def distinct_remove1_removeAll [symmetric] length_remove1)
    (metis Suc_pred length_pos_if_in_set)

lemma set_below_from: "set_below x ys @ set_from x ys = ys"
  by (simp add: set_below_def set_from_def)

lemma set_wf_parts [simp]:
  "set_wf ys \<Longrightarrow> set_wf (set_below x ys)" "set_wf ys \<Longrightarrow> set_wf (set_from x ys)"
  using set_below_from [of x ys] unfolding set_wf_def by (metis sorted_wrt_append)+

lemma set_set_below [simp]: "set_wf ys \<Longrightarrow> set (set_below x ys) = {y \<in> set ys. y < x}"
proof (induction ys)
  case (Cons a ys)
  show ?case
  proof (cases "a < x")
    case True
    with Cons show ?thesis by (auto simp: set_wf_def set_below_def)
  next
    case False
    then have "\<not> y < x" if "y \<in> set ys" for y
      using Cons.prems that less_trans [of a y x] by (auto simp: set_wf_def)
    with False show ?thesis by (auto simp: set_below_def)
  qed
qed (simp add: set_below_def)

lemma in_set_from: "set_wf ys \<Longrightarrow> y \<in> set (set_from x ys) \<longleftrightarrow> y \<in> set ys \<and> \<not> y < x"
proof (induction ys)
  case (Cons a ys)
  have wf: "set_wf ys" and above: "\<And>z. z \<in> set ys \<Longrightarrow> a < z"
    using Cons.prems by (simp_all add: set_wf_def)
  show ?case
  proof (cases "a < x")
    case True
    then have "set_from x (a # ys) = set_from x ys" by (simp add: set_from_def)
    then show ?thesis using True Cons.IH [OF wf] by (cases "y = a") simp_all
  next
    case False
    have "\<not> y < x" if "y \<in> set ys"
      using False less_trans [OF above [OF that], of x] by blast
    then show ?thesis using False by (cases "y = a") (simp_all add: set_from_def, blast)
  qed
qed (simp add: set_from_def)

lemma set_set_from [simp]: "set_wf ys \<Longrightarrow> set (set_from x ys) = {y \<in> set ys. x \<le> y}"
  by (simp add: set_eq_iff in_set_from not_less)

text \<open>The first element is the least one.\<close>

lemma set_wf_hd: "set_wf ys \<Longrightarrow> ys \<noteq> [] \<Longrightarrow> \<forall>y \<in> set ys. hd ys \<le> y"
  by (cases ys) (simp_all add: set_wf_def less_imp_le)

lemma set_insert_less_all:
  "\<forall>y \<in> set ys. x < y \<Longrightarrow> set_insert x ys = x # ys"
  by (cases ys) simp_all

locale ordered_set =
  fixes wf :: "'s \<Rightarrow> bool"
    and elems :: "'s \<Rightarrow> 'a::linorder list"
    and add :: "'a \<Rightarrow> 's \<Rightarrow> 's"
    and remove :: "'a \<Rightarrow> 's \<Rightarrow> 's"
    and below :: "'a \<Rightarrow> 's \<Rightarrow> 's"
    and beyond :: "'a \<Rightarrow> 's \<Rightarrow> 's"
  assumes ascending: "wf s \<Longrightarrow> sorted_wrt (<) (elems s)"
    and wf_add: "wf s \<Longrightarrow> wf (add x s)"
    and wf_remove: "wf s \<Longrightarrow> wf (remove x s)"
    and wf_below: "wf s \<Longrightarrow> wf (below x s)"
    and wf_beyond: "wf s \<Longrightarrow> wf (beyond x s)"
    and elems_add: "wf s \<Longrightarrow> set (elems (add x s)) = insert x (set (elems s))"
    and elems_remove: "wf s \<Longrightarrow> set (elems (remove x s)) = set (elems s) - {x}"
    and elems_below: "wf s \<Longrightarrow> set (elems (below x s)) = {y \<in> set (elems s). y < x}"
    and elems_beyond: "wf s \<Longrightarrow> set (elems (beyond x s)) = {y \<in> set (elems s). x \<le> y}"
begin

text \<open>Splitting at a bound loses nothing, and the two parts do not overlap.\<close>

lemma split_at:
  "wf s \<Longrightarrow> set (elems (below x s)) \<union> set (elems (beyond x s)) = set (elems s)"
  "wf s \<Longrightarrow> set (elems (below x s)) \<inter> set (elems (beyond x s)) = {}"
  by (auto simp: elems_below elems_beyond)

lemma add_then_remove:
  "wf s \<Longrightarrow> x \<notin> set (elems s) \<Longrightarrow> set (elems (remove x (add x s))) = set (elems s)"
  by (simp add: elems_remove elems_add wf_add)

text \<open>The iteration order is determined by the elements.\<close>

lemma elems_unique:
  assumes "wf s" "wf s'" "set (elems s) = set (elems s')"
  shows "elems s = elems s'"
  using ascending [OF assms(1)] ascending [OF assms(2)] assms(3)
  by (simp add: strict_sorted_equal)

end

interpretation sset: ordered_set set_wf "\<lambda>s. s" set_insert set_erase set_below set_from
  by unfold_locales (simp_all, simp add: set_wf_def)

end
