(* ===== verification/Http_Request.thy ===== *)
theory Http_Request
  imports Buffer Std_Map
begin

text \<open>
  \<open>muduo/net/http/HttpRequest.h\<close>: one parsed request. A \<open>const char*\<close> pair into the buffer is
  passed as the string between the pointers, a single pointer as an offset in it. Time stamps are
  microseconds since the epoch.
\<close>

datatype http_method = kInvalid | kGet | kPost | kHead | kPut | kDelete

datatype http_version = kUnknown | kHttp10 | kHttp11

record http_request =
  req_method :: http_method
  req_version :: http_version
  req_path :: "char list"
  req_query :: "char list"
  req_receiveTime :: int
  req_headers :: "(char list \<times> char list) list"

definition HttpRequest_new :: http_request where
  "HttpRequest_new =
     \<lparr>req_method = kInvalid, req_version = kUnknown, req_path = [], req_query = [],
      req_receiveTime = 0, req_headers = []\<rparr>"

definition HttpRequest_setVersion :: "http_request \<Rightarrow> http_version \<Rightarrow> http_request" where
  "HttpRequest_setVersion r v = r\<lparr>req_version := v\<rparr>"

definition method_of_string :: "char list \<Rightarrow> http_method" where
  "method_of_string m =
     (if m = ''GET'' then kGet
      else if m = ''POST'' then kPost
      else if m = ''HEAD'' then kHead
      else if m = ''PUT'' then kPut
      else if m = ''DELETE'' then kDelete
      else kInvalid)"

definition HttpRequest_setMethod :: "http_request \<Rightarrow> char list \<Rightarrow> (bool \<times> http_request) result" where
  "HttpRequest_setMethod r m =
     cassert (req_method r = kInvalid)
       (let r' = r\<lparr>req_method := method_of_string m\<rparr>
        in Inr (req_method r' \<noteq> kInvalid, r'))"

fun HttpRequest_methodString :: "http_method \<Rightarrow> char list" where
  "HttpRequest_methodString kGet = ''GET''"
| "HttpRequest_methodString kPost = ''POST''"
| "HttpRequest_methodString kHead = ''HEAD''"
| "HttpRequest_methodString kPut = ''PUT''"
| "HttpRequest_methodString kDelete = ''DELETE''"
| "HttpRequest_methodString kInvalid = ''UNKNOWN''"

definition HttpRequest_setPath :: "http_request \<Rightarrow> char list \<Rightarrow> http_request" where
  "HttpRequest_setPath r s = r\<lparr>req_path := s\<rparr>"

definition HttpRequest_setQuery :: "http_request \<Rightarrow> char list \<Rightarrow> http_request" where
  "HttpRequest_setQuery r s = r\<lparr>req_query := s\<rparr>"

definition HttpRequest_setReceiveTime :: "http_request \<Rightarrow> int \<Rightarrow> http_request" where
  "HttpRequest_setReceiveTime r t = r\<lparr>req_receiveTime := t\<rparr>"

text \<open>\<open>isspace\<close> in the C locale.\<close>

definition isspace :: "char \<Rightarrow> bool" where
  "isspace c \<longleftrightarrow> (of_char c :: nat) = 32 \<or> 9 \<le> (of_char c :: nat) \<and> (of_char c :: nat) \<le> 13"

text \<open>The second loop: \<open>while (!value.empty() && isspace(value.back())) value.pop_back()\<close>.\<close>

function strip_back :: "char list \<Rightarrow> char list" where
  "strip_back value = (if value \<noteq> [] \<and> isspace (last value) then strip_back (butlast value) else value)"
  by pat_completeness auto
termination
  by (relation "measure length") auto

declare strip_back.simps [simp del]

text \<open>\<open>addHeader(start, colon, end)\<close>; \<open>line\<close> is \<open>[start, end)\<close> and \<open>colon\<close> an offset in it.\<close>

definition HttpRequest_addHeader :: "http_request \<Rightarrow> char list \<Rightarrow> nat \<Rightarrow> http_request" where
  "HttpRequest_addHeader r line colon =
     (let field = take colon line;
          value = strip_back (dropWhile isspace (drop (Suc colon) line))
      in r\<lparr>req_headers := map_put field value (req_headers r)\<rparr>)"

definition HttpRequest_getHeader :: "http_request \<Rightarrow> char list \<Rightarrow> char list" where
  "HttpRequest_getHeader r field =
     (case map_find (req_headers r) field of None \<Rightarrow> [] | Some v \<Rightarrow> v)"

definition HttpRequest_swap :: "http_request \<Rightarrow> http_request \<Rightarrow> http_request \<times> http_request" where
  "HttpRequest_swap r that = (that, r)"

section \<open>Facts\<close>

lemma strip_back_rev: "strip_back v = rev (dropWhile isspace (rev v))"
proof (induction v rule: strip_back.induct)
  case (1 v)
  show ?case
  proof (cases v rule: rev_exhaust)
    case Nil
    then show ?thesis by (subst strip_back.simps) simp
  next
    case (snoc ys y)
    then show ?thesis using 1 by (subst strip_back.simps) auto
  qed
qed

lemma method_of_methodString [simp]:
  "method_of_string (HttpRequest_methodString m) = m"
  by (cases m) (simp_all add: method_of_string_def)

lemma methodString_of_method:
  "method_of_string s \<noteq> kInvalid \<Longrightarrow> HttpRequest_methodString (method_of_string s) = s"
  by (auto simp: method_of_string_def split: if_splits)

lemma methodString_no_space: "CHR '' '' \<notin> set (HttpRequest_methodString m)"
  by (cases m) auto

lemma methodString_no_cr: "CHR 0x0D \<notin> set (HttpRequest_methodString m)"
  by (cases m) auto

text \<open>A value with no space at either end is stored as it is.\<close>

definition trimmed :: "char list \<Rightarrow> bool" where
  "trimmed v \<longleftrightarrow> v = [] \<or> \<not> isspace (hd v) \<and> \<not> isspace (last v)"

lemma strip_trimmed:
  assumes "trimmed v" and "\<forall>c \<in> set ws. isspace c"
  shows "strip_back (dropWhile isspace (ws @ v)) = v"
proof -
  have "dropWhile isspace (ws @ v) = dropWhile isspace v"
    using assms(2) by (cases v) (auto simp: dropWhile_append2 dropWhile_eq_Nil_conv dest: set_dropWhileD)
  also have "\<dots> = v"
    using assms by (cases v) (auto simp: trimmed_def)
  finally have "dropWhile isspace (ws @ v) = v" .
  then show ?thesis
    using assms(1) by (cases v rule: rev_exhaust) (simp_all only:, auto simp: strip_back_rev trimmed_def)
qed

text \<open>What is stored has no space at either end, whatever the line.\<close>

lemma strip_back_trimmed: "trimmed (strip_back (dropWhile isspace v))"
proof -
  let ?w = "dropWhile isspace v"
  have front: "?w = [] \<or> \<not> isspace (hd ?w)" using hd_dropWhile by blast
  have rear: "strip_back ?w = [] \<or> \<not> isspace (last (strip_back ?w))"
    using hd_dropWhile [of isspace "rev ?w"] by (auto simp: strip_back_rev last_rev)
  have "\<exists>zs. ?w = strip_back ?w @ zs"
    using takeWhile_dropWhile_id [of isspace "rev ?w"]
    by (metis strip_back_rev rev_append rev_rev_ident)
  then have "strip_back ?w \<noteq> [] \<Longrightarrow> hd (strip_back ?w) = hd ?w"
    by (metis hd_append2)
  with front rear show ?thesis
    unfolding trimmed_def by (metis append_Nil2 strip_back_rev dropWhile.simps(1) rev.simps(1))
qed

end
