(* ===== verification/Http_Context.thy ===== *)
theory Http_Context
  imports Http_Request
begin

text \<open>
  \<open>muduo/net/http/HttpContext.h\<close>, \<open>HttpContext.cpp\<close>: the incremental request parser.

  \<open>HttpContext_parse_step\<close> is one iteration of the \<open>while (hasMore)\<close> loop of \<open>parseRequest\<close> and
  \<open>HttpContext_parse_loop\<close> the loop. The loop has no bound of its own: in the states \<open>kExpectBody\<close>
  and \<open>kGotAll\<close> no branch touches \<open>hasMore\<close>. So it is a partial function; \<open>None\<close> is "does not
  return". The second half relates it to \<open>parse_bytes\<close>, the same parser on the readable bytes.
\<close>

datatype parse_state = kExpectRequestLine | kExpectHeaders | kExpectBody | kGotAll

record http_context =
  ctx_state :: parse_state
  ctx_request :: http_request

definition HttpContext_new :: http_context where
  "HttpContext_new = \<lparr>ctx_state = kExpectRequestLine, ctx_request = HttpRequest_new\<rparr>"

definition HttpContext_gotAll :: "http_context \<Rightarrow> bool" where
  "HttpContext_gotAll c \<longleftrightarrow> ctx_state c = kGotAll"

definition HttpContext_reset :: "http_context \<Rightarrow> http_context" where
  "HttpContext_reset c =
     (let dummy = HttpRequest_new
      in c\<lparr>ctx_state := kExpectRequestLine,
           ctx_request := fst (HttpRequest_swap (ctx_request c) dummy)\<rparr>)"

text \<open>
  The version part, \<open>[start, end)\<close>: eight characters, the first seven \<open>HTTP/1.\<close>, the last \<open>1\<close> or
  \<open>0\<close>.
\<close>

definition parse_version :: "char list \<Rightarrow> http_request \<Rightarrow> bool \<times> http_request" where
  "parse_version v r =
     (if length v = 8 \<and> take 7 v = ''HTTP/1.''
      then if last v = CHR ''1'' then (True, HttpRequest_setVersion r kHttp11)
           else if last v = CHR ''0'' then (True, HttpRequest_setVersion r kHttp10)
           else (False, r)
      else (False, r))"

definition parse_target :: "char list \<Rightarrow> http_request \<Rightarrow> http_request" where
  "parse_target target r =
     (let question = std_find (CHR ''?'') target
      in if question \<noteq> length target
         then HttpRequest_setQuery (HttpRequest_setPath r (take question target))
                (drop question target)
         else HttpRequest_setPath r target)"

text \<open>\<open>processRequestLine(begin, end)\<close>; \<open>line\<close> is \<open>[begin, end)\<close>.\<close>

definition HttpContext_processRequestLine ::
    "http_request \<Rightarrow> char list \<Rightarrow> (bool \<times> http_request) result" where
  "HttpContext_processRequestLine r line =
     (let space = std_find (CHR '' '') line
      in if space = length line then Inr (False, r)
         else andThen (HttpRequest_setMethod r (take space line)) (\<lambda>(found, r1).
           if \<not> found then Inr (False, r1)
           else let line2 = drop (Suc space) line;
                    space2 = std_find (CHR '' '') line2
                in if space2 = length line2 then Inr (False, r1)
                   else Inr (parse_version (drop (Suc space2) line2)
                              (parse_target (take space2 line2) r1))))"

text \<open>
  One iteration: the result is \<open>ok\<close>, \<open>hasMore\<close>, the context and the buffer.
\<close>

definition HttpContext_parse_step ::
    "int \<Rightarrow> bool \<Rightarrow> http_context \<Rightarrow> buffer \<Rightarrow> (bool \<times> bool \<times> http_context \<times> buffer) result" where
  "HttpContext_parse_step receiveTime ok c buf =
     (case ctx_state c of
        kExpectRequestLine \<Rightarrow>
          (case Buffer_findCRLF buf of
             None \<Rightarrow> Inr (ok, False, c, buf)
           | Some crlf \<Rightarrow>
               andThen (HttpContext_processRequestLine (ctx_request c)
                          (Buffer_range buf (Buffer_peek buf) crlf)) (\<lambda>(ok', r).
                 if ok'
                 then andThen (Buffer_retrieveUntil buf (crlf + 2)) (\<lambda>buf'.
                   Inr (True, True, \<lparr>ctx_state = kExpectHeaders,
                                     ctx_request = HttpRequest_setReceiveTime r receiveTime\<rparr>, buf'))
                 else Inr (False, False, c\<lparr>ctx_request := r\<rparr>, buf)))
      | kExpectHeaders \<Rightarrow>
          (case Buffer_findCRLF buf of
             None \<Rightarrow> Inr (ok, False, c, buf)
           | Some crlf \<Rightarrow>
               (let line = Buffer_range buf (Buffer_peek buf) crlf;
                    colon = std_find (CHR '':'') line;
                    c' = (if colon \<noteq> length line
                          then c\<lparr>ctx_request := HttpRequest_addHeader (ctx_request c) line colon\<rparr>
                          else c\<lparr>ctx_state := kGotAll\<rparr>)
                in andThen (Buffer_retrieveUntil buf (crlf + 2)) (\<lambda>buf'.
                     Inr (ok, colon \<noteq> length line, c', buf'))))
      | kExpectBody \<Rightarrow> Inr (ok, True, c, buf)
      | kGotAll \<Rightarrow> Inr (ok, True, c, buf))"

partial_function (option) HttpContext_parse_loop ::
    "int \<Rightarrow> bool \<Rightarrow> http_context \<Rightarrow> buffer \<Rightarrow> (bool \<times> http_context \<times> buffer) result option" where
  "HttpContext_parse_loop receiveTime ok c buf =
     (case HttpContext_parse_step receiveTime ok c buf of
        Inl e \<Rightarrow> Some (Inl e)
      | Inr (ok', hasMore, c', buf') \<Rightarrow>
          if hasMore then HttpContext_parse_loop receiveTime ok' c' buf'
          else Some (Inr (ok', c', buf')))"

definition HttpContext_parseRequest ::
    "http_context \<Rightarrow> buffer \<Rightarrow> int \<Rightarrow> (bool \<times> http_context \<times> buffer) result option" where
  "HttpContext_parseRequest c buf receiveTime = HttpContext_parse_loop receiveTime True c buf"

section \<open>The same parser on a byte string\<close>

text \<open>
  \<open>split_line s\<close> cuts \<open>s\<close> at its first \<open>CRLF\<close>. The reference parser consumes at least two bytes
  per iteration in the two states that parse, so it is total.
\<close>

definition split_line :: "char list \<Rightarrow> (char list \<times> char list) option" where
  "split_line s =
     (let i = std_search kCRLF s
      in if i = length s then None else Some (take i s, drop (i + 2) s))"

lemma split_line_shorter: "split_line s = Some (l, s') \<Longrightarrow> length s' < length s"
  by (auto simp: split_line_def Let_def dest: std_search_less split: if_splits)

function parse_bytes ::
    "int \<Rightarrow> http_context \<Rightarrow> char list \<Rightarrow> (bool \<times> http_context \<times> char list) result option" where
  "parse_bytes t c s =
     (case ctx_state c of
        kExpectRequestLine \<Rightarrow>
          (case split_line s of
             None \<Rightarrow> Some (Inr (True, c, s))
           | Some (line, s') \<Rightarrow>
               (case HttpContext_processRequestLine (ctx_request c) line of
                  Inl e \<Rightarrow> Some (Inl e)
                | Inr (ok, r) \<Rightarrow>
                    if ok then parse_bytes t \<lparr>ctx_state = kExpectHeaders,
                                              ctx_request = HttpRequest_setReceiveTime r t\<rparr> s'
                    else Some (Inr (False, c\<lparr>ctx_request := r\<rparr>, s))))
      | kExpectHeaders \<Rightarrow>
          (case split_line s of
             None \<Rightarrow> Some (Inr (True, c, s))
           | Some (line, s') \<Rightarrow>
               if CHR '':'' \<in> set line
               then parse_bytes t
                      (c\<lparr>ctx_request := HttpRequest_addHeader (ctx_request c) line
                                          (std_find (CHR '':'') line)\<rparr>) s'
               else Some (Inr (True, c\<lparr>ctx_state := kGotAll\<rparr>, s')))
      | kExpectBody \<Rightarrow> None
      | kGotAll \<Rightarrow> None)"
  by pat_completeness auto
termination
  by (relation "measure (\<lambda>(t, c, s). length s)") (auto dest: split_line_shorter)

declare parse_bytes.simps [simp del]

definition parsing :: "http_context \<Rightarrow> bool" where
  "parsing c \<longleftrightarrow> ctx_state c = kExpectRequestLine \<or> ctx_state c = kExpectHeaders"

lemma parsing_cases:
  assumes "parsing c"
  obtains "ctx_state c = kExpectRequestLine" | "ctx_state c = kExpectHeaders"
  using assms by (auto simp: parsing_def)

section \<open>The buffer parser refines the string parser\<close>

lemma Buffer_line:
  assumes "Buffer_inv b"
  shows "case split_line (Buffer_content b) of
      None \<Rightarrow> Buffer_findCRLF b = None
    | Some (line, s) \<Rightarrow> \<exists>crlf b'. Buffer_findCRLF b = Some crlf \<and>
        Buffer_range b (Buffer_peek b) crlf = line \<and>
        Buffer_retrieveUntil b (crlf + 2) = Inr b' \<and> Buffer_inv b' \<and> Buffer_content b' = s"
proof -
  let ?s = "Buffer_content b"
  let ?i = "std_search kCRLF ?s"
  have wf: "Buffer_wf b" using assms by auto
  show ?thesis
  proof (cases "?i = length ?s")
    case True
    then show ?thesis by (simp add: split_line_def Buffer_findCRLF_content [OF wf])
  next
    case False
    then have lt: "?i < length ?s" by (rule std_search_less)
    have len: "?i + 2 \<le> length ?s" using std_search_match_fits [OF lt] by (simp add: kCRLF_def)
    have "Buffer_range b (Buffer_peek b) (readerIndex b + ?i) = take ?i ?s"
      using lt Buffer_content_length [OF wf]
      by (simp add: Buffer_range_def Buffer_peek_def Buffer_content_def min_def)
    moreover from Buffer_retrieve_ok [OF assms len] obtain b' where
      "Buffer_retrieve b (?i + 2) = Inr b'" "Buffer_inv b'" "Buffer_content b' = drop (?i + 2) ?s"
      by blast
    moreover have "Buffer_retrieveUntil b (readerIndex b + ?i + 2) = Buffer_retrieve b (?i + 2)"
      using Buffer_retrieveUntil_ok [OF assms len] by (simp add: add.assoc)
    ultimately show ?thesis
      using False by (simp add: split_line_def Buffer_findCRLF_content [OF wf] Let_def)
  qed
qed

text \<open>When a loop on a buffer returns what the string parser returned.\<close>

definition refines_bytes ::
    "(bool \<times> http_context \<times> buffer) result option \<Rightarrow>
     (bool \<times> http_context \<times> char list) result option \<Rightarrow> bool" where
  "refines_bytes x y \<longleftrightarrow>
     (case y of
        None \<Rightarrow> x = None
      | Some (Inl e) \<Rightarrow> x = Some (Inl e)
      | Some (Inr (ok, c, s)) \<Rightarrow>
          (\<exists>b. x = Some (Inr (ok, c, b)) \<and> Buffer_inv b \<and> Buffer_content b = s))"

lemma refines_bytes_simps [simp]:
  "refines_bytes x None \<longleftrightarrow> x = None"
  "refines_bytes x (Some (Inl e)) \<longleftrightarrow> x = Some (Inl e)"
  "refines_bytes x (Some (Inr (ok, c, s))) \<longleftrightarrow>
     (\<exists>b. x = Some (Inr (ok, c, b)) \<and> Buffer_inv b \<and> Buffer_content b = s)"
  by (simp_all add: refines_bytes_def)

text \<open>In the other two states the loop never returns.\<close>

lemma parse_loop_diverges:
  assumes "\<not> parsing c"
  shows "HttpContext_parse_loop t ok c b = None"
proof -
  have "\<not> parsing c \<longrightarrow> False" if "HttpContext_parse_loop t ok c b = Some r" for ok c b r
  proof (rule HttpContext_parse_loop.raw_induct [where P = "\<lambda>t ok c b r. \<not> parsing c \<longrightarrow> False", OF _ that])
    fix f t ok c b r
    assume IH: "\<And>t ok c b r. f t ok c b = Some r \<Longrightarrow> \<not> parsing c \<longrightarrow> False"
      and eq: "(case HttpContext_parse_step t ok c b of Inl e \<Rightarrow> Some (Inl e)
        | Inr (ok', hasMore, c', buf') \<Rightarrow>
            if hasMore then f t ok' c' buf' else Some (Inr (ok', c', buf'))) = Some r"
    show "\<not> parsing c \<longrightarrow> False"
    proof
      assume "\<not> parsing c"
      then have "HttpContext_parse_step t ok c b = Inr (ok, True, c, b)"
        by (cases "ctx_state c") (simp_all add: parsing_def HttpContext_parse_step_def)
      then have "f t ok c b = Some r" using eq by simp
      then show False using IH \<open>\<not> parsing c\<close> by blast
    qed
  qed
  then show ?thesis using assms by (cases "HttpContext_parse_loop t ok c b") auto
qed

lemma parse_loop_refines:
  "Buffer_inv b \<Longrightarrow> Buffer_content b = s \<Longrightarrow>
   refines_bytes (HttpContext_parse_loop t True c b) (parse_bytes t c s)"
proof (induction t c s arbitrary: b rule: parse_bytes.induct)
  case (1 t c s)
  note line = Buffer_line [OF "1.prems"(1), unfolded "1.prems"(2)]
  show ?case
  proof (cases "parsing c")
    case False
    then have "parse_bytes t c s = None"
      by (subst parse_bytes.simps) (auto simp: parsing_def split: parse_state.split)
    then show ?thesis using parse_loop_diverges [OF False] by simp
  next
    case True
    show ?thesis
    proof (cases "split_line s")
      case None
      with line have "HttpContext_parse_step t True c b = Inr (True, False, c, b)"
        using True by (auto simp: HttpContext_parse_step_def parsing_def)
      moreover have "parse_bytes t c s = Some (Inr (True, c, s))"
        using True None by (subst parse_bytes.simps) (auto simp: parsing_def)
      ultimately show ?thesis
        using "1.prems" by (subst HttpContext_parse_loop.simps) simp
    next
      case (Some ls)
      obtain l s' where ls: "split_line s = Some (l, s')" using Some by (cases ls) auto
      with line obtain crlf b' where
        b': "Buffer_findCRLF b = Some crlf" "Buffer_range b (Buffer_peek b) crlf = l"
          "Buffer_retrieveUntil b (Suc (Suc crlf)) = Inr b'" "Buffer_inv b'" "Buffer_content b' = s'"
        by auto
      from True show ?thesis
      proof (cases rule: parsing_cases)
        case 1
        then show ?thesis
          using b' ls "1.prems" "1.IH"(1) [OF 1 ls [THEN trans [OF _ refl]] refl, of _ _ _ b']
          by (subst parse_bytes.simps, subst HttpContext_parse_loop.simps)
            (auto simp: HttpContext_parse_step_def split: sum.split)
      next
        case 2
        then show ?thesis
          using b' ls "1.prems" "1.IH"(2) [OF 2 ls refl, of b']
          by (subst parse_bytes.simps, subst HttpContext_parse_loop.simps)
            (auto simp: HttpContext_parse_step_def std_find_length_iff Let_def)
      qed
    qed
  qed
qed

section \<open>Splitting the stream\<close>

lemma split_line_append:
  assumes "split_line s = Some (l, s')"
  shows "split_line (s @ ys) = Some (l, s' @ ys)"
proof -
  let ?i = "std_search kCRLF s"
  have i: "?i < length s" and l: "l = take ?i s" and s': "s' = drop (?i + 2) s"
    using assms by (auto simp: split_line_def Let_def dest: std_search_less split: if_splits)
  have fits: "?i + 2 \<le> length s" using std_search_match_fits [OF i] by (simp add: kCRLF_def)
  have "std_search kCRLF (s @ ys) = ?i"
  proof (rule std_search_eqI)
    show "take (length kCRLF) (drop ?i (s @ ys)) = kCRLF"
      using std_search_match [OF i] fits by (simp add: kCRLF_def)
    show "?i < length (s @ ys)" using i by simp
    show "take (length kCRLF) (drop j (s @ ys)) \<noteq> kCRLF" if "j < ?i" for j
      using std_search_first [OF that] that fits by (simp add: kCRLF_def)
  qed
  then show ?thesis using i l s' fits by (simp add: split_line_def Let_def)
qed

lemma split_line_CRLF:
  assumes "CHR 0x0D \<notin> set l"
  shows "split_line (l @ kCRLF @ s) = Some (l, s)"
proof -
  have "std_search kCRLF (l @ kCRLF @ s) = length l"
  proof (rule std_search_eqI)
    show "take (length kCRLF) (drop j (l @ kCRLF @ s)) \<noteq> kCRLF" if "j < length l" for j
    proof
      assume "take (length kCRLF) (drop j (l @ kCRLF @ s)) = kCRLF"
      then have "l ! j = CHR 0x0D"
        using that by (simp add: Cons_nth_drop_Suc [symmetric] kCRLF_def)
      then show False using assms that nth_mem by metis
    qed
  qed (simp_all add: kCRLF_def)
  then show ?thesis by (simp add: split_line_def kCRLF_def)
qed

text \<open>
  What the parser has done with a prefix it does not undo when more bytes arrive: where it asked
  for more it goes on from there, otherwise the result stands.
\<close>

definition resume ::
    "int \<Rightarrow> (bool \<times> http_context \<times> char list) result option \<Rightarrow> char list \<Rightarrow>
     (bool \<times> http_context \<times> char list) result option" where
  "resume t x ys =
     (case x of
        Some (Inr (ok, c, s)) \<Rightarrow>
          if ok \<and> ctx_state c \<noteq> kGotAll then parse_bytes t c (s @ ys)
          else Some (Inr (ok, c, s @ ys))
      | _ \<Rightarrow> x)"

lemma parse_bytes_append: "parse_bytes t c (s @ ys) = resume t (parse_bytes t c s) ys"
proof (induction t c s rule: parse_bytes.induct)
  case (1 t c s)
  show ?case
  proof (cases "split_line s")
    case None
    then show ?thesis
      by (cases "ctx_state c")
        (simp_all add: resume_def parse_bytes.simps [of t c s], simp_all add: parse_bytes.simps)
  next
    case (Some ls)
    obtain l s' where ls: "split_line s = Some (l, s')" using Some by (cases ls) auto
    note ls' = split_line_append [OF ls, of ys]
    show ?thesis
    proof (cases "ctx_state c")
      case kExpectRequestLine
      show ?thesis
        using 1(1) [OF kExpectRequestLine ls refl]
        by (simp add: kExpectRequestLine ls ls' parse_bytes.simps [of t c s]
            parse_bytes.simps [of t c "s @ ys"] resume_def split: sum.split prod.split)
    next
      case kExpectHeaders
      show ?thesis
        using 1(2) [OF kExpectHeaders ls refl]
        by (simp add: kExpectHeaders ls ls' parse_bytes.simps [of t c s]
            parse_bytes.simps [of t c "s @ ys"] resume_def)
    qed (simp_all add: parse_bytes.simps resume_def)
  qed
qed

text \<open>After a result that asks for more there is nothing left to do.\<close>

lemma parse_bytes_idem:
  "parse_bytes t c s = Some (Inr (True, c', s')) \<Longrightarrow> ctx_state c' \<noteq> kGotAll \<Longrightarrow>
   parse_bytes t c' s' = Some (Inr (True, c', s'))"
  using parse_bytes_append [of t c s "[]"] by (simp add: resume_def)

lemma parse_bytes_total: "parsing c \<Longrightarrow> parse_bytes t c s \<noteq> None"
proof (induction t c s rule: parse_bytes.induct)
  case (1 t c s)
  from "1.prems" show ?case
    by (cases rule: parsing_cases)
      (use 1 in \<open>auto simp: parse_bytes.simps [of t c s] parsing_def split: option.split sum.split\<close>)
qed

text \<open>The state in which the parser asks for more is one in which it parses.\<close>

lemma parse_bytes_parsing:
  "parse_bytes t c s = Some (Inr (True, c', s')) \<Longrightarrow> ctx_state c' \<noteq> kGotAll \<Longrightarrow> parsing c'"
  using parse_bytes_idem [of t c s c' s']
  by (auto simp: parsing_def parse_bytes.simps split: parse_state.splits)

section \<open>Printing and parsing\<close>

fun version_string :: "http_version \<Rightarrow> char list" where
  "version_string kHttp11 = ''HTTP/1.1''"
| "version_string kHttp10 = ''HTTP/1.0''"
| "version_string kUnknown = []"

definition render_header :: "char list \<times> char list \<Rightarrow> char list" where
  "render_header h = fst h @ '': '' @ snd h"

definition render_line :: "http_request \<Rightarrow> char list" where
  "render_line r = HttpRequest_methodString (req_method r) @ '' '' @ req_path r @ req_query r @
     '' '' @ version_string (req_version r)"

text \<open>A request as a client sends it, with its headers in the order \<open>hs\<close>.\<close>

definition render_request :: "http_request \<Rightarrow> (char list \<times> char list) list \<Rightarrow> char list" where
  "render_request r hs =
     render_line r @ kCRLF @ concat (map (\<lambda>h. render_header h @ kCRLF) hs) @ kCRLF"

definition line_wf :: "http_request \<Rightarrow> bool" where
  "line_wf r \<longleftrightarrow> req_method r \<noteq> kInvalid \<and> req_version r \<noteq> kUnknown \<and>
     CHR '' '' \<notin> set (req_path r) \<and> CHR ''?'' \<notin> set (req_path r) \<and> CHR 0x0D \<notin> set (req_path r) \<and>
     (req_query r = [] \<or> hd (req_query r) = CHR ''?'') \<and>
     CHR '' '' \<notin> set (req_query r) \<and> CHR 0x0D \<notin> set (req_query r)"

definition header_wf :: "char list \<times> char list \<Rightarrow> bool" where
  "header_wf h \<longleftrightarrow> CHR '':'' \<notin> set (fst h) \<and> CHR 0x0D \<notin> set (fst h) \<and>
     CHR 0x0D \<notin> set (snd h) \<and> trimmed (snd h)"

lemma std_find_space [simp]:
  "c \<notin> set xs \<Longrightarrow> std_find c (xs @ ys) = length xs + std_find c ys"
  by (simp add: std_find_append)

lemma parse_version_string:
  "v \<noteq> kUnknown \<Longrightarrow> parse_version (version_string v) r = (True, r\<lparr>req_version := v\<rparr>)"
  by (cases v) (simp_all add: parse_version_def HttpRequest_setVersion_def)

lemma parse_target_eq:
  assumes "CHR ''?'' \<notin> set p" and "q = [] \<or> hd q = CHR ''?''" and "req_query r = []"
  shows "parse_target (p @ q) r = r\<lparr>req_path := p, req_query := q\<rparr>"
  using assms
  by (cases q; cases r)
    (auto simp: parse_target_def HttpRequest_setQuery_def HttpRequest_setPath_def Let_def
      std_find_length_iff [THEN iffD2])

text \<open>The first line: every field comes back as it was.\<close>

lemma processRequestLine_render:
  assumes "line_wf r" and "req_method r0 = kInvalid" and "req_query r0 = []"
  shows "HttpContext_processRequestLine r0 (render_line r) =
    Inr (True, r0\<lparr>req_method := req_method r, req_path := req_path r, req_query := req_query r,
                  req_version := req_version r\<rparr>)"
proof -
  let ?m = "HttpRequest_methodString (req_method r)"
  let ?t = "req_path r @ req_query r"
  have t: "CHR '' '' \<notin> set ?t" using assms(1) by (simp add: line_wf_def)
  have set: "HttpRequest_setMethod r0 ?m = Inr (True, r0\<lparr>req_method := req_method r\<rparr>)"
    using assms(1,2) by (simp add: HttpRequest_setMethod_def line_wf_def)
  have "std_find (CHR '' '') (?t @ '' '' @ version_string (req_version r)) = length ?t"
    using t by (simp add: std_find_append)
  then show ?thesis
    using assms(1,3) set methodString_no_space [of "req_method r"]
      parse_version_string [of "req_version r"]
      parse_target_eq [of "req_path r" "req_query r" "r0\<lparr>req_method := req_method r\<rparr>"]
    by (simp add: HttpContext_processRequestLine_def render_line_def line_wf_def Let_def)
qed

lemma render_line_no_cr: "line_wf r \<Longrightarrow> CHR 0x0D \<notin> set (render_line r)"
  using methodString_no_cr [of "req_method r"]
  by (cases "req_version r") (auto simp: render_line_def line_wf_def)

lemma addHeader_render:
  assumes "header_wf (f, v)"
  shows "HttpRequest_addHeader r (render_header (f, v)) (std_find (CHR '':'') (render_header (f, v)))
    = r\<lparr>req_headers := map_put f v (req_headers r)\<rparr>"
proof -
  have "strip_back (dropWhile isspace ('' '' @ v)) = v"
    using assms by (intro strip_trimmed) (simp_all add: header_wf_def isspace_def)
  then show ?thesis
    using assms by (simp add: HttpRequest_addHeader_def render_header_def header_wf_def)
qed

lemma parse_headers_render:
  assumes "\<forall>h \<in> set hs. header_wf h"
  shows "parse_bytes t \<lparr>ctx_state = kExpectHeaders, ctx_request = r\<rparr>
      (concat (map (\<lambda>h. render_header h @ kCRLF) hs) @ kCRLF @ rest) =
    Some (Inr (True, \<lparr>ctx_state = kGotAll,
      ctx_request = r\<lparr>req_headers := foldl (\<lambda>m (f, v). map_put f v m) (req_headers r) hs\<rparr>\<rparr>, rest))"
  using assms
proof (induction hs arbitrary: r)
  case Nil
  have "split_line (kCRLF @ rest) = Some ([], rest)"
    using split_line_CRLF [of "[]" rest] by simp
  then show ?case by (subst parse_bytes.simps) simp
next
  case (Cons h hs)
  obtain f v where h: "h = (f, v)" by (cases h)
  let ?s = "concat (map (\<lambda>h. render_header h @ kCRLF) hs) @ kCRLF @ rest"
  have wf: "header_wf (f, v)" using Cons.prems h by simp
  then have "split_line (render_header h @ kCRLF @ ?s) = Some (render_header h, ?s)"
    by (intro split_line_CRLF) (auto simp: h render_header_def header_wf_def)
  moreover have "CHR '':'' \<in> set (render_header h)" by (simp add: render_header_def)
  ultimately show ?case
    using Cons.IH Cons.prems addHeader_render [OF wf]
    by (subst parse_bytes.simps) (simp add: h)
qed

lemma parse_bytes_render:
  assumes "line_wf r" and "\<forall>h \<in> set hs. header_wf h"
  shows "parse_bytes t HttpContext_new (render_request r hs @ rest) =
    Some (Inr (True, \<lparr>ctx_state = kGotAll,
      ctx_request = r\<lparr>req_receiveTime := t,
                      req_headers := foldl (\<lambda>m (f, v). map_put f v m) [] hs\<rparr>\<rparr>, rest))"
proof -
  let ?s = "concat (map (\<lambda>h. render_header h @ kCRLF) hs) @ kCRLF @ rest"
  have "split_line (render_line r @ kCRLF @ ?s) = Some (render_line r, ?s)"
    using render_line_no_cr [OF assms(1)] by (rule split_line_CRLF)
  moreover note processRequestLine_render [OF assms(1), of HttpRequest_new]
  ultimately show ?thesis
    using parse_headers_render [OF assms(2), of t _ rest]
    by (subst parse_bytes.simps)
      (simp add: render_request_def HttpContext_new_def HttpRequest_new_def
        HttpRequest_setReceiveTime_def)
qed

section \<open>A request that arrives in pieces\<close>

text \<open>
  What a server does with the pieces of a stream until it has a request: append the piece that was
  read to the input buffer, and parse.
\<close>

fun parse_chunks ::
    "int \<Rightarrow> http_context \<Rightarrow> buffer \<Rightarrow> char list list \<Rightarrow>
     (bool \<times> http_context \<times> buffer) result option" where
  "parse_chunks t c b [] = Some (Inr (True, c, b))"
| "parse_chunks t c b (xs # xss) =
     (case Buffer_append b xs (length xs) of
        Inl e \<Rightarrow> Some (Inl e)
      | Inr b1 \<Rightarrow>
          (case HttpContext_parseRequest c b1 t of
             Some (Inr (ok, c', b2)) \<Rightarrow>
               if ok \<and> \<not> HttpContext_gotAll c' then parse_chunks t c' b2 xss
               else Some (Inr (ok, c', b2))
           | r \<Rightarrow> r))"

lemma parse_bytes_length:
  "parse_bytes t c s = Some (Inr (ok, c', s')) \<Longrightarrow> length s' \<le> length s"
proof (induction t c s rule: parse_bytes.induct)
  case (1 t c s)
  from "1.prems" show ?case
    using "1.IH"
    by (subst (asm) parse_bytes.simps)
      (auto split: parse_state.splits option.splits sum.splits if_splits dest!: split_line_shorter,
        (fastforce intro: less_imp_le le_trans)+)
qed

text \<open>
  Piece by piece or in one go: the same verdict, the same request, and together with the pieces not
  yet looked at the same bytes left over.
\<close>

lemma parse_chunks_whole:
  assumes "Buffer_inv b" and "parse_bytes t c (Buffer_content b) = Some (Inr (True, c, Buffer_content b))"
    and "ctx_state c \<noteq> kGotAll"
    and "length (Buffer_content b) + 2 * length (concat xss) + kCheapPrepend \<le> max_size"
    and "parse_bytes t c (Buffer_content b @ concat xss) = Some (Inr (ok, c', s'))"
  shows "\<exists>b' n. parse_chunks t c b xss = Some (Inr (ok, c', b')) \<and> Buffer_inv b' \<and>
    s' = Buffer_content b' @ concat (drop n xss)"
  using assms
proof (induction xss arbitrary: c b)
  case Nil
  then show ?case by auto
next
  case (Cons xs xss)
  have "Buffer_fits b (length xs)" using Cons.prems(4) by (simp add: Buffer_fits_def)
  from Buffer_append_all_ok [OF Cons.prems(1) this] obtain b1 where
    b1: "Buffer_append b xs (length xs) = Inr b1" "Buffer_inv b1"
      "Buffer_content b1 = Buffer_content b @ xs" by blast
  have whole: "resume t (parse_bytes t c (Buffer_content b1)) (concat xss) =
      Some (Inr (ok, c', s'))"
    using Cons.prems(5) b1(3) by (simp add: parse_bytes_append [symmetric])
  then obtain ok1 c1 s1 where
    p: "parse_bytes t c (Buffer_content b1) = Some (Inr (ok1, c1, s1))"
    by (auto simp: resume_def split: option.splits sum.splits)
  from parse_loop_refines [OF b1(2) refl, of t c] p obtain b2 where
    b2: "HttpContext_parseRequest c b1 t = Some (Inr (ok1, c1, b2))" "Buffer_inv b2"
      "Buffer_content b2 = s1"
    by (auto simp: HttpContext_parseRequest_def)
  show ?case
  proof (cases "ok1 \<and> ctx_state c1 \<noteq> kGotAll")
    case False
    then have "ok1 = ok" "c1 = c'" "s' = s1 @ concat xss"
      using whole p by (auto simp: resume_def)
    then show ?thesis
      using False b1 b2 by (intro exI [of _ b2] exI [of _ 1]) (auto simp: HttpContext_gotAll_def)
  next
    case True
    have "length s1 \<le> length (Buffer_content b) + length xs"
      using parse_bytes_length [OF p] b1(3) by simp
    then have fits: "length (Buffer_content b2) + 2 * length (concat xss) + kCheapPrepend \<le> max_size"
      using Cons.prems(4) b2(3) by simp
    have "parse_bytes t c1 (Buffer_content b2) = Some (Inr (True, c1, Buffer_content b2))"
      using parse_bytes_idem [of t c _ c1 s1] p True b2(3) by simp
    moreover have "parse_bytes t c1 (Buffer_content b2 @ concat xss) = Some (Inr (ok, c', s'))"
      using whole p True b2(3) by (simp add: resume_def)
    ultimately obtain b' n where
      "parse_chunks t c1 b2 xss = Some (Inr (ok, c', b'))" "Buffer_inv b'"
      "s' = Buffer_content b' @ concat (drop n xss)"
      using Cons.IH [OF b2(2) _ _ fits] True by blast
    then show ?thesis
      using True b1 b2
      by (intro exI [of _ b'] exI [of _ "Suc n"]) (auto simp: HttpContext_gotAll_def)
  qed
qed

section \<open>Properties\<close>

text \<open>
  \<open>parseRequest\<close> returns exactly in the two states that parse: from \<open>kExpectRequestLine\<close> and
  \<open>kExpectHeaders\<close> on every input, with the buffer still well formed; called in \<open>kExpectBody\<close> or
  \<open>kGotAll\<close> its loop never ends.
\<close>

theorem parseRequest_returns_iff_parsing:
  assumes "Buffer_inv b"
  shows "(\<exists>r. HttpContext_parseRequest c b t = Some r \<and>
      (case r of Inl e \<Rightarrow> e = Assert_failed | Inr (ok, c', b') \<Rightarrow> Buffer_inv b')) \<longleftrightarrow> parsing c"
proof (cases "parsing c")
  case False
  then show ?thesis by (simp add: HttpContext_parseRequest_def parse_loop_diverges)
next
  case True
  have assert: "parse_bytes t c s = Some (Inl e) \<Longrightarrow> e = Assert_failed" for e c s
  proof (induction t c s rule: parse_bytes.induct)
    case (1 t c s)
    from "1.prems" show ?case
      using "1.IH"
      by (subst (asm) parse_bytes.simps)
        (auto simp: HttpContext_processRequestLine_def HttpRequest_setMethod_def cassert_def Let_def
          split: parse_state.splits option.splits sum.splits if_splits)
  qed
  obtain r where r: "parse_bytes t c (Buffer_content b) = Some r"
    using parse_bytes_total [OF True] by blast
  with parse_loop_refines [OF assms refl, of t c] True assert [OF r [THEN trans]] show ?thesis
    by (cases r) (auto simp: HttpContext_parseRequest_def)
qed

lemma parseRequest_returns_iff_parsing_witness:
  "Buffer_inv (Buffer_new 0) \<and>
   (\<exists>r. HttpContext_parseRequest HttpContext_new (Buffer_new 0) 7 = Some r) \<and>
   HttpContext_parseRequest \<lparr>ctx_state = kGotAll, ctx_request = HttpRequest_new\<rparr> (Buffer_new 0) 7 = None"
proof -
  have inv: "Buffer_inv (Buffer_new 0)" by simp
  show ?thesis
    using inv parseRequest_returns_iff_parsing [OF inv, of HttpContext_new 7]
      parse_loop_diverges [of "\<lparr>ctx_state = kGotAll, ctx_request = HttpRequest_new\<rparr>" 7 True "Buffer_new 0"]
    by (auto simp: parsing_def HttpContext_new_def HttpContext_parseRequest_def)
qed

text \<open>
  C8: framing does not depend on how TCP cuts the stream. Take any well-formed request, printed as
  a client prints it and followed by any bytes, and cut the stream into any pieces. Appending the
  pieces to the input buffer and parsing after each one ends with a complete request equal to the
  one printed (its header map holding, for a repeated field, the last value), and what is left in
  the buffer together with the pieces not yet read is exactly what followed the request.
\<close>

theorem request_survives_segmentation:
  assumes "line_wf r" and "\<forall>h \<in> set hs. header_wf h"
    and "concat xss = render_request r hs @ rest"
    and "2 * length (concat xss) + kCheapPrepend \<le> max_size"
  shows "\<exists>b c n. parse_chunks t HttpContext_new (Buffer_new kInitialSize) xss = Some (Inr (True, c, b)) \<and>
    HttpContext_gotAll c \<and>
    ctx_request c = r\<lparr>req_receiveTime := t,
                      req_headers := foldl (\<lambda>m (f, v). map_put f v m) [] hs\<rparr> \<and>
    (\<forall>f. map_find (req_headers (ctx_request c)) f = map_of (rev hs) f) \<and>
    rest = Buffer_content b @ concat (drop n xss)"
proof -
  let ?b = "Buffer_new kInitialSize"
  have inv: "Buffer_inv ?b" by (simp add: kInitialSize_def kCheapPrepend_def max_size_def)
  have "parse_bytes t HttpContext_new [] = Some (Inr (True, HttpContext_new, []))"
    by (subst parse_bytes.simps) (simp add: HttpContext_new_def split_line_def)
  moreover note parse_bytes_render [OF assms(1,2), of t rest]
  moreover have "map_find (foldl (\<lambda>m (f, v). map_put f v m) [] hs) = map_of (rev hs)"
    using smap.find_puts [of "[]" hs] by (simp add: map_wf_def map_find_def)
  ultimately show ?thesis
    using parse_chunks_whole [OF inv, of t HttpContext_new xss] assms(3,4)
    by (fastforce simp: HttpContext_gotAll_def HttpContext_new_def)
qed

lemma request_survives_segmentation_witness:
  "\<exists>b c n. parse_chunks 7 HttpContext_new (Buffer_new kInitialSize)
      [''GET /a?b HT'', ''TP/1.1'' @ [CHR 0x0D], CHR 0x0A # ''H: v'' @ kCRLF @ [CHR 0x0D], CHR 0x0A # ''xy''] =
      Some (Inr (True, c, b)) \<and> HttpContext_gotAll c \<and> req_path (ctx_request c) = ''/a'' \<and>
    req_query (ctx_request c) = ''?b'' \<and> map_find (req_headers (ctx_request c)) ''H'' = Some ''v'' \<and>
    ''xy'' = Buffer_content b @ concat (drop n
      [''GET /a?b HT'', ''TP/1.1'' @ [CHR 0x0D], CHR 0x0A # ''H: v'' @ kCRLF @ [CHR 0x0D], CHR 0x0A # ''xy''])"
proof -
  let ?r = "\<lparr>req_method = kGet, req_version = kHttp11, req_path = ''/a'', req_query = ''?b'',
    req_receiveTime = 0, req_headers = []\<rparr>"
  let ?hs = "[(''H'', ''v'')]"
  let ?xss = "[''GET /a?b HT'', ''TP/1.1'' @ [CHR 0x0D], CHR 0x0A # ''H: v'' @ kCRLF @ [CHR 0x0D], CHR 0x0A # ''xy'']"
  have wf: "line_wf ?r" "\<forall>h \<in> set ?hs. header_wf h"
    by (simp_all add: line_wf_def header_wf_def trimmed_def isspace_def)
  have split: "concat ?xss = render_request ?r ?hs @ ''xy''"
    by (simp add: render_request_def render_line_def render_header_def kCRLF_def)
  have small: "2 * length (concat ?xss) + kCheapPrepend \<le> max_size"
    by (simp add: kCRLF_def kCheapPrepend_def max_size_def)
  show ?thesis
    using request_survives_segmentation [OF wf split small, of 7] by fastforce
qed

end
