(* ===== verification/Http_Response.thy ===== *)
theory Http_Response
  imports Http_Context Decimal
begin

text \<open>
  \<open>muduo/net/http/HttpResponse.h\<close>, \<open>HttpResponse.cpp\<close>: building a response and printing it into a
  buffer. The headers are a \<open>std::map\<close>, printed in the order of their names.
\<close>

datatype http_status = kUnknownStatus | k200Ok | k301MoveedPermanently | k400BadRequest | k404NotFound

fun status_code :: "http_status \<Rightarrow> int" where
  "status_code kUnknownStatus = 0"
| "status_code k200Ok = 200"
| "status_code k301MoveedPermanently = 301"
| "status_code k400BadRequest = 400"
| "status_code k404NotFound = 404"

record http_response =
  resp_headers :: "(char list \<times> char list) list"
  resp_statusCode :: http_status
  resp_statusMessage :: "char list"
  resp_closeConnection :: bool
  resp_body :: "char list"

definition HttpResponse_new :: "bool \<Rightarrow> http_response" where
  "HttpResponse_new close =
     \<lparr>resp_headers = [], resp_statusCode = kUnknownStatus, resp_statusMessage = [],
      resp_closeConnection = close, resp_body = []\<rparr>"

definition HttpResponse_setStatusCode :: "http_response \<Rightarrow> http_status \<Rightarrow> http_response" where
  "HttpResponse_setStatusCode r code = r\<lparr>resp_statusCode := code\<rparr>"

definition HttpResponse_setStatusMessage :: "http_response \<Rightarrow> char list \<Rightarrow> http_response" where
  "HttpResponse_setStatusMessage r m = r\<lparr>resp_statusMessage := m\<rparr>"

definition HttpResponse_setCloseConnection :: "http_response \<Rightarrow> bool \<Rightarrow> http_response" where
  "HttpResponse_setCloseConnection r on = r\<lparr>resp_closeConnection := on\<rparr>"

definition HttpResponse_addHeader :: "http_response \<Rightarrow> char list \<Rightarrow> char list \<Rightarrow> http_response" where
  "HttpResponse_addHeader r k v = r\<lparr>resp_headers := map_put k v (resp_headers r)\<rparr>"

definition HttpResponse_setContentType :: "http_response \<Rightarrow> char list \<Rightarrow> http_response" where
  "HttpResponse_setContentType r t = HttpResponse_addHeader r ''Content-Type'' t"

definition HttpResponse_setBody :: "http_response \<Rightarrow> char list \<Rightarrow> http_response" where
  "HttpResponse_setBody r b = r\<lparr>resp_body := b\<rparr>"

text \<open>The strings handed to \<open>output->append\<close>, in order. The local buffer has 32 bytes.\<close>

definition response_pieces :: "http_response \<Rightarrow> char list list" where
  "response_pieces r =
     [snprintf 32 (''HTTP/1.1 '' @ decimal (status_code (resp_statusCode r)) @ '' ''),
      resp_statusMessage r, kCRLF] @
     (if resp_closeConnection r then [''Connection: close'' @ kCRLF]
      else [snprintf 32 (''Content-Length: '' @ decimal (int (length (resp_body r))) @ kCRLF),
            ''Connection: Keep-ALive'' @ kCRLF]) @
     concat (map (\<lambda>(k, v). [k, '': '', v, kCRLF]) (resp_headers r)) @
     [kCRLF, resp_body r]"

definition HttpResponse_appendToBuffer :: "http_response \<Rightarrow> buffer \<Rightarrow> buffer result" where
  "HttpResponse_appendToBuffer r output = foldR Buffer_append_piece output (response_pieces r)"

section \<open>What is printed\<close>

text \<open>The lines of a response, then its body.\<close>

definition response_lines :: "http_response \<Rightarrow> char list list" where
  "response_lines r =
     (''HTTP/1.1 '' @ decimal (status_code (resp_statusCode r)) @ '' '' @ resp_statusMessage r) #
     (if resp_closeConnection r then [''Connection: close'']
      else [''Content-Length: '' @ decimal (int (length (resp_body r))), ''Connection: Keep-ALive'']) @
     map render_header (resp_headers r)"

definition render_response :: "http_response \<Rightarrow> char list" where
  "render_response r = concat (map (\<lambda>l. l @ kCRLF) (response_lines r)) @ kCRLF @ resp_body r"

definition response_wf :: "http_response \<Rightarrow> bool" where
  "response_wf r \<longleftrightarrow>
     length (resp_statusMessage r) < 2 ^ 31 \<and> length (resp_body r) < 2 ^ 31 \<and>
     (\<forall>(k, v) \<in> set (resp_headers r). length k < 2 ^ 31 \<and> length v < 2 ^ 31)"

lemma snprintf_fits [simp]: "length s < n \<Longrightarrow> snprintf n s = s"
  by (simp add: snprintf_def)

lemma length_decimal: "0 \<le> i \<Longrightarrow> i < 10 ^ k \<Longrightarrow> 0 < k \<Longrightarrow> length (decimal i) \<le> k"
  using length_dec_digits [of "nat i" k] by (simp add: decimal_def nat_less_iff)

lemma status_line_fits:
  "snprintf 32 (''HTTP/1.1 '' @ decimal (status_code c) @ '' '') =
   ''HTTP/1.1 '' @ decimal (status_code c) @ '' ''"
  using length_decimal [of "status_code c" 3] by (cases c) simp_all

lemma content_length_fits:
  assumes "n < 2 ^ 31"
  shows "snprintf 32 (''Content-Length: '' @ decimal (int n) @ kCRLF) =
    ''Content-Length: '' @ decimal (int n) @ kCRLF"
  using length_decimal [of "int n" 10] assms by (simp add: kCRLF_def)

lemma concat_response_pieces:
  assumes "response_wf r"
  shows "concat (response_pieces r) = render_response r"
proof -
  have "concat (concat (map (\<lambda>(k, v). [k, '': '', v, kCRLF]) hs)) =
      concat (map (\<lambda>l. l @ kCRLF) (map render_header hs))" for hs
    by (induction hs) (auto simp: render_header_def)
  moreover have "snprintf 32 (''Content-Length: '' @ decimal (int (length (resp_body r))) @ kCRLF) =
      ''Content-Length: '' @ decimal (int (length (resp_body r))) @ kCRLF"
    using assms by (intro content_length_fits) (simp add: response_wf_def)
  ultimately show ?thesis
    unfolding response_pieces_def status_line_fits
    by (simp only: render_response_def response_lines_def) simp
qed

lemma response_pieces_small:
  assumes "response_wf r" and "xs \<in> set (response_pieces r)"
  shows "length xs < 2 ^ 31"
proof -
  have [simp]: "length (snprintf 32 s) < 2147483648" for s by (simp add: snprintf_def)
  have [simp]: "length kCRLF < 2147483648" by (simp add: kCRLF_def)
  show ?thesis
    using assms by (auto simp: response_pieces_def response_wf_def kCRLF_def split: if_splits)
qed

lemma HttpResponse_appendToBuffer_ok:
  assumes "response_wf r" and "Buffer_inv b"
    and "length (Buffer_content b) + 2 * length (render_response r) + kCheapPrepend \<le> max_size"
  shows "\<exists>b'. HttpResponse_appendToBuffer r b = Inr b' \<and> Buffer_inv b' \<and>
    Buffer_content b' = Buffer_content b @ render_response r"
  using piece.put_many [OF assms(2), of "response_pieces r"] assms(1,3) response_pieces_small
  by (simp add: HttpResponse_appendToBuffer_def concat_response_pieces)

section \<open>Reading a response back\<close>

text \<open>The lines before the first empty one, and the bytes after it.\<close>

function read_head :: "char list \<Rightarrow> (char list list \<times> char list) option" where
  "read_head s =
     (case split_line s of
        None \<Rightarrow> None
      | Some (l, s') \<Rightarrow>
          if l = [] then Some ([], s') else map_option (\<lambda>(ls, r). (l # ls, r)) (read_head s'))"
  by pat_completeness auto
termination
  by (relation "measure length") (auto dest: split_line_shorter)

declare read_head.simps [simp del]

definition response_clean :: "http_response \<Rightarrow> bool" where
  "response_clean r \<longleftrightarrow> CHR 0x0D \<notin> set (resp_statusMessage r) \<and>
     (\<forall>h \<in> set (resp_headers r). CHR 0x0D \<notin> set (fst h) \<and> CHR 0x0D \<notin> set (snd h))"

lemma read_head_lines:
  assumes "\<forall>l \<in> set ls. l \<noteq> [] \<and> CHR 0x0D \<notin> set l"
  shows "read_head (concat (map (\<lambda>l. l @ kCRLF) ls) @ kCRLF @ s) = Some (ls, s)"
  using assms
proof (induction ls)
  case Nil
  then show ?case using split_line_CRLF [of "[]" s] by (subst read_head.simps) simp
next
  case (Cons l ls)
  then show ?case
    using split_line_CRLF [of l "concat (map (\<lambda>l. l @ kCRLF) ls) @ kCRLF @ s"]
    by (subst read_head.simps) simp
qed

lemma cr_not_in_decimal: "CHR 0x0D \<notin> set (decimal i)"
  by (rule not_digit_in_decimal) (simp_all add: is_digit_def)

lemma read_head_response:
  assumes "response_clean r"
  shows "read_head (render_response r @ s) = Some (response_lines r, resp_body r @ s)"
proof -
  have "\<forall>l \<in> set (response_lines r). l \<noteq> [] \<and> CHR 0x0D \<notin> set l"
    using assms cr_not_in_decimal
    by (auto simp: response_lines_def response_clean_def render_header_def)
  then show ?thesis using read_head_lines by (simp add: render_response_def)
qed

text \<open>
  C26: a printed response can be framed by its reader. For a response whose status message and headers
  contain no carriage return (\<open>response_clean\<close>; the code escapes nothing), \<open>appendToBuffer\<close> appends to
  the buffer bytes whose head, read up to the empty line, is the status line, the connection lines and the
  headers in order, with the body and whatever followed it right behind. Where \<open>closeConnection\<close> is
  false, the second line is a \<open>Content-Length\<close> whose digits read back as the length of the body; where it
  is true, the code writes \<open>Connection: close\<close> and no length, and the end of the connection ends the body.
\<close>

theorem appendToBuffer_framing:
  assumes "response_wf r" and "response_clean r" and "Buffer_inv b"
    and "length (Buffer_content b) + 2 * length (render_response r) + kCheapPrepend \<le> max_size"
  shows "\<exists>b' out. HttpResponse_appendToBuffer r b = Inr b' \<and> Buffer_inv b' \<and>
    Buffer_content b' = Buffer_content b @ out \<and>
    read_head (out @ s) = Some (response_lines r, resp_body r @ s) \<and>
    (resp_closeConnection r \<or>
      (\<exists>digits. response_lines r ! 1 = ''Content-Length: '' @ digits \<and>
        dec_value 0 digits = length (resp_body r)))"
proof -
  have "resp_closeConnection r \<or>
      (\<exists>digits. response_lines r ! 1 = ''Content-Length: '' @ digits \<and>
        dec_value 0 digits = length (resp_body r))"
    by (simp add: response_lines_def decimal_def)
  then show ?thesis
    using HttpResponse_appendToBuffer_ok [OF assms(1,3,4)] read_head_response [OF assms(2), of s]
    by blast
qed

lemma appendToBuffer_framing_witness:
  "\<exists>b' out. HttpResponse_appendToBuffer
      (HttpResponse_setBody (HttpResponse_addHeader (HttpResponse_setStatusCode
        (HttpResponse_new False) k200Ok) ''Server'' ''Muduo'') ''hello'') (Buffer_new kInitialSize) = Inr b' \<and>
    Buffer_content b' = out \<and> (\<exists>ls. read_head (out @ ''next'') = Some (ls, ''hellonext''))"
proof -
  let ?r = "HttpResponse_setBody (HttpResponse_addHeader (HttpResponse_setStatusCode
        (HttpResponse_new False) k200Ok) ''Server'' ''Muduo'') ''hello''"
  note defs = HttpResponse_setBody_def HttpResponse_addHeader_def HttpResponse_setStatusCode_def
    HttpResponse_new_def
  have wf: "response_wf ?r" "response_clean ?r"
    by (simp_all add: response_wf_def response_clean_def defs)
  have inv: "Buffer_inv (Buffer_new kInitialSize)"
    by (simp add: kInitialSize_def kCheapPrepend_def max_size_def)
  have "length (decimal 200) \<le> 3" "length (decimal 5) \<le> 1"
    by (rule length_decimal; simp)+
  then have small: "length (Buffer_content (Buffer_new kInitialSize)) + 2 * length (render_response ?r)
      + kCheapPrepend \<le> max_size"
    by (simp add: render_response_def response_lines_def render_header_def defs kCRLF_def
      kCheapPrepend_def max_size_def)
  from appendToBuffer_framing [OF wf inv small, of "''next''"] show ?thesis
    by (auto simp: defs)
qed

end
