(* ===== verification/Http_Server.thy ===== *)
theory Http_Server
  imports Http_Response
begin

text \<open>
  \<open>muduo/net/http/HttpServer.cpp\<close>: the callbacks of the HTTP server.

  The user's \<open>HttpCallback\<close> is the parameter \<open>httpCallback\<close>, a function from the request and the
  prepared response to the response it leaves. The calls on the connection are values of
  \<open>conn_action\<close>, in program order; \<open>Tcp_Connection\<close> gives them their meaning.
\<close>

datatype conn_action =
    Send_piece "char list"   \<comment> \<open>\<open>conn->send(const StringPiece&)\<close>\<close>
  | Send_buffer buffer       \<comment> \<open>\<open>conn->send(Buffer*)\<close>\<close>
  | Shutdown                 \<comment> \<open>\<open>conn->shutdown()\<close>\<close>

type_synonym http_callback = "http_request \<Rightarrow> http_response \<Rightarrow> http_response"

definition defaultHttpCallback :: http_callback where
  "defaultHttpCallback req resp =
     HttpResponse_setCloseConnection
       (HttpResponse_setStatusMessage (HttpResponse_setStatusCode resp k404NotFound) ''Not Found'')
       True"

definition HttpServer_onConnection :: "bool \<Rightarrow> http_context option \<Rightarrow> http_context option" where
  "HttpServer_onConnection connected context =
     (if connected then Some HttpContext_new else context)"

definition close_requested :: "http_request \<Rightarrow> bool" where
  "close_requested req =
     (let connection = HttpRequest_getHeader req ''Connection''
      in connection = ''close'' \<or> req_version req = kHttp10 \<and> connection \<noteq> ''Keep-Alive'')"

definition HttpServer_onRequest :: "http_callback \<Rightarrow> http_request \<Rightarrow> conn_action list result" where
  "HttpServer_onRequest httpCallback req =
     (let response = httpCallback req (HttpResponse_new (close_requested req))
      in andThen (HttpResponse_appendToBuffer response (Buffer_new kInitialSize)) (\<lambda>buf.
           Inr (Send_buffer buf # (if resp_closeConnection response then [Shutdown] else []))))"

definition bad_request :: "char list" where
  "bad_request = ''HTTP/1.1 400 Bad Request'' @ kCRLF @ kCRLF"

text \<open>\<open>None\<close> when \<open>parseRequest\<close> does not return.\<close>

definition HttpServer_onMessage ::
    "http_callback \<Rightarrow> http_context \<Rightarrow> buffer \<Rightarrow> int \<Rightarrow>
     (http_context \<times> buffer \<times> conn_action list) result option" where
  "HttpServer_onMessage httpCallback context buf receiveTime =
     (case HttpContext_parseRequest context buf receiveTime of
        None \<Rightarrow> None
      | Some parsed \<Rightarrow> Some (andThen parsed (\<lambda>(ok, context1, buf1).
          let refusal = (if \<not> ok then [Send_piece bad_request, Shutdown] else [])
          in if HttpContext_gotAll context1
             then andThen (HttpServer_onRequest httpCallback (ctx_request context1)) (\<lambda>answer.
                    Inr (HttpContext_reset context1, buf1, refusal @ answer))
             else Inr (context1, buf1, refusal))))"

text \<open>A connection's input: pieces of the stream, each appended to the input buffer by \<open>handleRead\<close>
  and then passed to \<open>onMessage\<close>.\<close>

fun HttpServer_run ::
    "http_callback \<Rightarrow> http_context \<Rightarrow> buffer \<Rightarrow> (char list \<times> int) list \<Rightarrow>
     (http_context \<times> buffer \<times> conn_action list) result option" where
  "HttpServer_run cb c b [] = Some (Inr (c, b, []))"
| "HttpServer_run cb c b ((xs, t) # ms) =
     (case Buffer_append b xs (length xs) of
        Inl e \<Rightarrow> Some (Inl e)
      | Inr b1 \<Rightarrow>
          (case HttpServer_onMessage cb c b1 t of
             Some (Inr (c1, b2, acts)) \<Rightarrow>
               map_option (\<lambda>r. andThen r (\<lambda>(c2, b3, acts'). Inr (c2, b3, acts @ acts')))
                 (HttpServer_run cb c1 b2 ms)
           | r \<Rightarrow> r))"

section \<open>The context between two messages\<close>

lemma parse_bytes_state:
  "parse_bytes t c s = Some (Inr (ok, c', s')) \<Longrightarrow> parsing c \<Longrightarrow>
   if ok then parsing c' \<or> HttpContext_gotAll c' else ctx_state c' = kExpectRequestLine"
proof (induction t c s rule: parse_bytes.induct)
  case (1 t c s)
  from "1.prems" show ?case
    using "1.IH"
    by (subst (asm) parse_bytes.simps)
      (auto simp: parsing_def HttpContext_gotAll_def
        split: parse_state.splits option.splits sum.splits if_splits)
qed

lemma parsing_reset [simp]: "parsing (HttpContext_reset c)"
  by (simp add: parsing_def HttpContext_reset_def)

lemma onMessage_cases:
  assumes "Buffer_inv b" and "parsing c"
  shows "(\<exists>e. HttpServer_onMessage cb c b t = Some (Inl e)) \<or>
    (\<exists>c' b' acts. HttpServer_onMessage cb c b t = Some (Inr (c', b', acts)) \<and>
      Buffer_inv b' \<and> parsing c' \<and> length (Buffer_content b') \<le> length (Buffer_content b))"
proof -
  obtain r where r: "parse_bytes t c (Buffer_content b) = Some r"
    using parse_bytes_total [OF assms(2)] by blast
  show ?thesis
  proof (cases r)
    case (Inl e)
    with parse_loop_refines [OF assms(1) refl, of t c] r show ?thesis
      by (simp add: HttpServer_onMessage_def HttpContext_parseRequest_def)
  next
    case (Inr p)
    then obtain ok c1 s1 where p: "parse_bytes t c (Buffer_content b) = Some (Inr (ok, c1, s1))"
      using r by (cases p) auto
    with parse_loop_refines [OF assms(1) refl, of t c] obtain b1 where
      b1: "HttpContext_parseRequest c b t = Some (Inr (ok, c1, b1))" "Buffer_inv b1"
        "Buffer_content b1 = s1"
      by (auto simp: HttpContext_parseRequest_def)
    have st: "if ok then parsing c1 \<or> HttpContext_gotAll c1 else ctx_state c1 = kExpectRequestLine"
      using parse_bytes_state [OF p assms(2)] .
    show ?thesis
    proof (cases "HttpContext_gotAll c1")
      case True
      then show ?thesis
        using b1 parse_bytes_length [OF p]
        by (cases "HttpServer_onRequest cb (ctx_request c1)") (simp_all add: HttpServer_onMessage_def Let_def)
    next
      case False
      then have "parsing c1" using st by (auto simp: parsing_def split: if_splits)
      with False show ?thesis
        using b1 parse_bytes_length [OF p] by (simp add: HttpServer_onMessage_def Let_def)
    qed
  qed
qed

lemma HttpServer_run_returns:
  assumes "Buffer_inv b" and "parsing c"
    and "length (Buffer_content b) + 2 * length (concat (map fst ms)) + kCheapPrepend \<le> max_size"
  shows "\<exists>r. HttpServer_run cb c b ms = Some r \<and>
    (\<forall>c' b' acts. r = Inr (c', b', acts) \<longrightarrow> parsing c' \<and> Buffer_inv b')"
  using assms
proof (induction ms arbitrary: c b)
  case (Cons m ms)
  obtain xs t where m: "m = (xs, t)" by (cases m)
  have "Buffer_fits b (length xs)" using Cons.prems(3) m by (simp add: Buffer_fits_def)
  from Buffer_append_all_ok [OF Cons.prems(1) this] obtain b1 where
    b1: "Buffer_append b xs (length xs) = Inr b1" "Buffer_inv b1"
      "Buffer_content b1 = Buffer_content b @ xs" by blast
  from onMessage_cases [OF b1(2) Cons.prems(2), of cb t] show ?case
  proof
    assume "\<exists>e. HttpServer_onMessage cb c b1 t = Some (Inl e)"
    then show ?thesis using b1 m by auto
  next
    assume "\<exists>c' b' acts. HttpServer_onMessage cb c b1 t = Some (Inr (c', b', acts)) \<and>
      Buffer_inv b' \<and> parsing c' \<and> length (Buffer_content b') \<le> length (Buffer_content b1)"
    then obtain c1 b2 acts where
      s: "HttpServer_onMessage cb c b1 t = Some (Inr (c1, b2, acts))" "Buffer_inv b2" "parsing c1"
        "length (Buffer_content b2) \<le> length (Buffer_content b1)" by blast
    have "length (Buffer_content b2) + 2 * length (concat (map fst ms)) + kCheapPrepend \<le> max_size"
      using Cons.prems(3) m s(4) b1(3) by simp
    from Cons.IH [OF s(2,3) this] obtain r where
      "HttpServer_run cb c1 b2 ms = Some r"
      "\<forall>c' b' acts. r = Inr (c', b', acts) \<longrightarrow> parsing c' \<and> Buffer_inv b'" by blast
    then show ?thesis using b1 m s by (cases r) auto
  qed
qed (use assms in auto)

section \<open>Properties\<close>

text \<open>
  C27: the server never hangs in its parser. From the context that \<open>onConnection\<close> installs, whatever
  bytes arrive in whatever pieces and whatever the user's callback answers, every call of
  \<open>onMessage\<close> comes to an end: it stops the process with an error (C32 has one, a failed assertion), or
  it returns and leaves the context in one of the two states in which the next call comes to an end too,
  because a finished request is always reset.
\<close>

theorem HttpServer_never_hangs:
  assumes "HttpServer_onConnection True old = Some c"
    and "2 * length (concat (map fst ms)) + kCheapPrepend \<le> max_size"
  shows "\<exists>r. HttpServer_run cb c (Buffer_new kInitialSize) ms = Some r \<and>
    (\<forall>c' b' acts. r = Inr (c', b', acts) \<longrightarrow> parsing c' \<and> Buffer_inv b')"
proof -
  have "Buffer_inv (Buffer_new kInitialSize)"
    by (simp add: kInitialSize_def kCheapPrepend_def max_size_def)
  moreover have "parsing c"
    using assms(1) by (auto simp: HttpServer_onConnection_def parsing_def HttpContext_new_def)
  ultimately show ?thesis using HttpServer_run_returns assms(2) by simp
qed

lemma HttpServer_never_hangs_witness:
  "\<exists>r. HttpServer_run defaultHttpCallback HttpContext_new (Buffer_new kInitialSize)
     [(''GET / HTTP/1.1'', 1), (''nonsense'', 2)] = Some r"
  using HttpServer_never_hangs [of None HttpContext_new "[(''GET / HTTP/1.1'', 1), (''nonsense'', 2)]"
      defaultHttpCallback]
  by (simp add: HttpServer_onConnection_def kCheapPrepend_def max_size_def) blast

text \<open>
  C28: one message that completes a request is answered once, with what the user's callback made of
  it. The callback sees the request that was printed; the bytes sent are the printed response; the
  connection is shut down exactly when the response says so; the context is as new. Bytes behind
  the request stay in the input buffer, unparsed, even when they are another complete request:
  nothing looks at them until more data arrives.
\<close>

theorem onMessage_answers_request:
  assumes "line_wf r" and "\<forall>h \<in> set hs. header_wf h"
    and "Buffer_inv b" and "Buffer_content b = render_request r hs @ rest"
    and "req = r\<lparr>req_receiveTime := t, req_headers := foldl (\<lambda>m (f, v). map_put f v m) [] hs\<rparr>"
    and "resp = cb req (HttpResponse_new (close_requested req))" and "response_wf resp"
    and "2 * length (render_response resp) + kCheapPrepend \<le> max_size"
  shows "\<exists>b' out. HttpServer_onMessage cb HttpContext_new b t =
      Some (Inr (HttpContext_new, b',
        Send_buffer out # (if resp_closeConnection resp then [Shutdown] else []))) \<and>
    Buffer_content out = render_response resp \<and> Buffer_inv out \<and>
    Buffer_inv b' \<and> Buffer_content b' = rest"
proof -
  have "Buffer_inv (Buffer_new kInitialSize)"
    by (simp add: kInitialSize_def kCheapPrepend_def max_size_def)
  from HttpResponse_appendToBuffer_ok [OF assms(7) this] assms(8) obtain out where
    out: "HttpResponse_appendToBuffer resp (Buffer_new kInitialSize) = Inr out" "Buffer_inv out"
      "Buffer_content out = render_response resp" by auto
  have "refines_bytes (HttpContext_parseRequest HttpContext_new b t)
      (Some (Inr (True, \<lparr>ctx_state = kGotAll, ctx_request = req\<rparr>, rest)))"
    using parse_loop_refines [OF assms(3,4), of t HttpContext_new]
    by (simp add: HttpContext_parseRequest_def parse_bytes_render [OF assms(1,2)] assms(5))
  then obtain b' where
    "HttpContext_parseRequest HttpContext_new b t =
      Some (Inr (True, \<lparr>ctx_state = kGotAll, ctx_request = req\<rparr>, b'))"
    "Buffer_inv b'" "Buffer_content b' = rest" by auto
  then show ?thesis
    using out
    by (simp add: HttpServer_onMessage_def HttpContext_gotAll_def HttpServer_onRequest_def
      HttpContext_reset_def HttpRequest_swap_def HttpContext_new_def assms(6) [symmetric] Let_def)
qed

lemma onMessage_answers_request_witness:
  "\<exists>b b' out. HttpServer_onMessage defaultHttpCallback HttpContext_new b 5 =
      Some (Inr (HttpContext_new, b', [Send_buffer out, Shutdown])) \<and>
    Buffer_content b = ''GET / HTTP/1.1'' @ kCRLF @ kCRLF @ ''GET /next HTTP/1.1'' @ kCRLF @ kCRLF \<and>
    Buffer_content b' = ''GET /next HTTP/1.1'' @ kCRLF @ kCRLF"
proof -
  let ?r = "\<lparr>req_method = kGet, req_version = kHttp11, req_path = ''/'', req_query = [],
    req_receiveTime = 0, req_headers = []\<rparr>"
  let ?rest = "''GET /next HTTP/1.1'' @ kCRLF @ kCRLF"
  let ?s = "render_request ?r [] @ ?rest"
  have render: "render_request ?r [] = ''GET / HTTP/1.1'' @ kCRLF @ kCRLF"
    by (simp add: render_request_def render_line_def)
  then have s: "?s = ''GET / HTTP/1.1'' @ kCRLF @ kCRLF @ ?rest" by simp
  define b where "b = \<lparr>bufdata = replicate 8 (CHR 0x00) @ ?s, readerIndex = 8,
    writerIndex = 8 + length ?s\<rparr>"
  have inv: "Buffer_inv b"
    by (simp add: b_def Buffer_inv_def Buffer_wf_def max_size_def kCheapPrepend_def render kCRLF_def)
  have cont: "Buffer_content b = ?s" unfolding b_def by (rule Buffer_contentI) simp
  have wf: "line_wf ?r" "\<forall>h \<in> set []. header_wf h" by (simp_all add: line_wf_def)
  let ?req = "?r\<lparr>req_receiveTime := 5, req_headers := foldl (\<lambda>m (f, v). map_put f v m) [] []\<rparr>"
  let ?resp = "defaultHttpCallback ?req (HttpResponse_new (close_requested ?req))"
  note defs = defaultHttpCallback_def HttpResponse_setCloseConnection_def
    HttpResponse_setStatusMessage_def HttpResponse_setStatusCode_def HttpResponse_new_def
  have resp: "response_wf ?resp" by (simp add: response_wf_def defs)
  have "length (decimal 404) \<le> 3" by (rule length_decimal) simp_all
  then have small: "2 * length (render_response ?resp) + kCheapPrepend \<le> max_size"
    by (simp add: render_response_def response_lines_def defs kCRLF_def kCheapPrepend_def max_size_def)
  have closing: "resp_closeConnection ?resp" by (simp add: defs)
  from onMessage_answers_request [where r = ?r and hs = "[]" and rest = ?rest and req = ?req
      and resp = ?resp and t = 5 and cb = defaultHttpCallback, OF wf inv cont refl refl resp small] obtain b' out where
    "HttpServer_onMessage defaultHttpCallback HttpContext_new b 5 =
      Some (Inr (HttpContext_new, b', [Send_buffer out, Shutdown]))"
    "Buffer_content b' = ?rest"
    using closing by auto
  with cont s show ?thesis by metis
qed

text \<open>
  C32: a request line with a known method that is otherwise malformed stops the server one message
  later. The refusal \<open>400 Bad Request\<close> is sent, but neither the context nor the buffer is reset:
  the line stays in the buffer and the method in the request. Whatever bytes arrive next, the
  parser starts the same line again and \<open>setMethod\<close> fails \<open>assert(method_ == kInvalid)\<close>.
\<close>

theorem malformed_request_line_aborts:
  assumes "Buffer_inv b" and "ctx_state c = kExpectRequestLine"
    and "req_method (ctx_request c) = kInvalid"
    and "split_line (Buffer_content b) = Some (line, s)"
    and "HttpContext_processRequestLine (ctx_request c) line = Inr (False, r)"
    and "req_method r \<noteq> kInvalid"
    and "length (Buffer_content b) + 2 * length xs + kCheapPrepend \<le> max_size"
  shows "\<exists>c' b' b''. HttpServer_onMessage cb c b t = Some (Inr (c', b', [Send_piece bad_request, Shutdown])) \<and>
    Buffer_append b' xs (length xs) = Inr b'' \<and>
    HttpServer_onMessage cb c' b'' t' = Some (Inl Assert_failed)"
proof -
  let ?c = "c\<lparr>ctx_request := r\<rparr>"
  have "parse_bytes t c (Buffer_content b) = Some (Inr (False, ?c, Buffer_content b))"
    using assms(2,4,5) by (subst parse_bytes.simps) simp
  with parse_loop_refines [OF assms(1) refl, of t c] obtain b' where
    b': "HttpContext_parseRequest c b t = Some (Inr (False, ?c, b'))" "Buffer_inv b'"
      "Buffer_content b' = Buffer_content b" by (auto simp: HttpContext_parseRequest_def)
  have first: "HttpServer_onMessage cb c b t = Some (Inr (?c, b', [Send_piece bad_request, Shutdown]))"
    using b'(1) assms(2) by (simp add: HttpServer_onMessage_def HttpContext_gotAll_def)
  have "Buffer_fits b' (length xs)" using assms(7) b'(3) by (simp add: Buffer_fits_def)
  from Buffer_append_all_ok [OF b'(2) this] obtain b'' where
    b'': "Buffer_append b' xs (length xs) = Inr b''" "Buffer_inv b''"
      "Buffer_content b'' = Buffer_content b @ xs" using b'(3) by auto
  have "CHR '' '' \<in> set line"
  proof (rule ccontr)
    assume "CHR '' '' \<notin> set line"
    then have "r = ctx_request c"
      using assms(5) by (simp add: HttpContext_processRequestLine_def std_find_length_iff)
    with assms(3,6) show False by simp
  qed
  then have "HttpContext_processRequestLine r line = Inl Assert_failed"
    using assms(6) std_find_less [of "CHR '' ''" line]
    by (simp add: HttpContext_processRequestLine_def HttpRequest_setMethod_def Let_def)
  then have "parse_bytes t' ?c (Buffer_content b'') = Some (Inl Assert_failed)"
    using assms(2) split_line_append [OF assms(4), of xs] b''(3)
    by (subst parse_bytes.simps) simp
  with parse_loop_refines [OF b''(2) refl, of t' ?c]
  have "HttpServer_onMessage cb ?c b'' t' = Some (Inl Assert_failed)"
    by (simp add: HttpServer_onMessage_def HttpContext_parseRequest_def)
  with first b''(1) show ?thesis by blast
qed

lemma malformed_request_line_aborts_witness:
  "\<exists>b c' b' b''. Buffer_content b = ''GET / HTTP/2.0'' @ kCRLF \<and>
    HttpServer_onMessage defaultHttpCallback HttpContext_new b 1 =
      Some (Inr (c', b', [Send_piece bad_request, Shutdown])) \<and>
    Buffer_append b' ''x'' (length ''x'') = Inr b'' \<and>
    HttpServer_onMessage defaultHttpCallback c' b'' 2 = Some (Inl Assert_failed)"
proof -
  let ?l = "''GET / HTTP/2.0''"
  define b where
    "b = \<lparr>bufdata = replicate 8 (CHR 0x00) @ ?l @ kCRLF, readerIndex = 8, writerIndex = 24\<rparr>"
  let ?r = "HttpRequest_new\<lparr>req_method := kGet, req_path := ''/''\<rparr>"
  have inv: "Buffer_inv b"
    by (simp add: b_def Buffer_inv_def Buffer_wf_def max_size_def kCheapPrepend_def kCRLF_def)
  have cont: "Buffer_content b = ?l @ kCRLF"
    unfolding b_def by (rule Buffer_contentI) (simp add: kCRLF_def)
  have line: "split_line (Buffer_content b) = Some (?l, [])"
    using split_line_CRLF [of ?l "[]"] cont by simp
  have bad: "HttpContext_processRequestLine (ctx_request HttpContext_new) ?l = Inr (False, ?r)"
    by (simp add: HttpContext_processRequestLine_def HttpRequest_setMethod_def method_of_string_def
      parse_target_def parse_version_def HttpContext_new_def HttpRequest_new_def
      HttpRequest_setPath_def Let_def)
  have small: "length (Buffer_content b) + 2 * length ''x'' + kCheapPrepend \<le> max_size"
    by (simp add: cont kCRLF_def kCheapPrepend_def max_size_def)
  have start: "ctx_state HttpContext_new = kExpectRequestLine"
      "req_method (ctx_request HttpContext_new) = kInvalid" "req_method ?r \<noteq> kInvalid"
    by (simp_all add: HttpContext_new_def HttpRequest_new_def)
  show ?thesis
    using cont malformed_request_line_aborts [OF inv start(1,2) line bad start(3) small,
        of defaultHttpCallback 1 2] by blast
qed

end
