(* ===== verification/Channel.thy ===== *)
theory Channel
  imports Prelude Decimal
begin

unbundle bit_operations_syntax

text \<open>
  \<open>src/muduo/net/Channel.h\<close> and \<open>Channel.cpp\<close>: the events one descriptor is watched for and
  the callbacks they are dispatched to.

  Channels are shared by pointer between their owner, the loop and the poller, so they live in a
  store \<open>channels\<close> (address to object). A \<open>std::function\<close> is an identifier of type \<open>'f\<close>; what
  calling one does to the program is the parameter \<open>invoke\<close>, and what the owner loop does in
  \<open>updateChannel\<close> and \<open>removeChannel\<close> are the parameters \<open>loop_update\<close> and \<open>loop_remove\<close>, which
  the theories of the pollers and of the loop instantiate. \<open>'w\<close> is the rest of the program.
\<close>

section \<open>Event bits\<close>

text \<open>The constants of \<open><poll.h>\<close> on Linux; those of \<open><sys/epoll.h>\<close> have the same values, which
  the source asserts statically.\<close>

definition POLLIN :: "32 word" where "POLLIN = 1"
definition POLLPRI :: "32 word" where "POLLPRI = 2"
definition POLLOUT :: "32 word" where "POLLOUT = 4"
definition POLLERR :: "32 word" where "POLLERR = 8"
definition POLLHUP :: "32 word" where "POLLHUP = 16"
definition POLLNVAL :: "32 word" where "POLLNVAL = 32"
definition POLLRDHUP :: "32 word" where "POLLRDHUP = 8192"

lemmas poll_bits = POLLIN_def POLLPRI_def POLLOUT_def POLLERR_def POLLHUP_def POLLNVAL_def
  POLLRDHUP_def

definition kNoneEvent :: "32 word" where "kNoneEvent = 0"
definition kReadEvent :: "32 word" where "kReadEvent = POLLIN OR POLLPRI"
definition kWriteEvent :: "32 word" where "kWriteEvent = POLLOUT"

section \<open>The object\<close>

record 'f channel =
  ch_loop :: nat
  ch_fd :: int
  ch_events :: "32 word"
  ch_revents :: "32 word"
  ch_index :: int
  ch_logHup :: bool
  ch_tie :: "nat option"            \<comment> \<open>the object the weak pointer refers to\<close>
  ch_tied :: bool
  ch_eventHandling :: bool
  ch_addedToLoop :: bool
  ch_readCallback :: "'f option"
  ch_writeCallback :: "'f option"
  ch_closeCallback :: "'f option"
  ch_errorCallback :: "'f option"

type_synonym 'f channels = "nat \<Rightarrow> 'f channel option"

type_synonym ('f, 'w) chan_step = "'f channels \<times> 'w \<Rightarrow> ('f channels \<times> 'w) result"

definition Channel_new :: "nat \<Rightarrow> int \<Rightarrow> 'f channel" where
  "Channel_new loop fd =
     \<lparr>ch_loop = loop, ch_fd = fd, ch_events = 0, ch_revents = 0, ch_index = -1, ch_logHup = True,
      ch_tie = None, ch_tied = False, ch_eventHandling = False, ch_addedToLoop = False,
      ch_readCallback = None, ch_writeCallback = None, ch_closeCallback = None,
      ch_errorCallback = None\<rparr>"

definition Channel_setReadCallback :: "'f \<Rightarrow> 'f channel \<Rightarrow> 'f channel" where
  "Channel_setReadCallback cb c = c\<lparr>ch_readCallback := Some cb\<rparr>"

definition Channel_setWriteCallback :: "'f \<Rightarrow> 'f channel \<Rightarrow> 'f channel" where
  "Channel_setWriteCallback cb c = c\<lparr>ch_writeCallback := Some cb\<rparr>"

definition Channel_setCloseCallback :: "'f \<Rightarrow> 'f channel \<Rightarrow> 'f channel" where
  "Channel_setCloseCallback cb c = c\<lparr>ch_closeCallback := Some cb\<rparr>"

definition Channel_setErrorCallback :: "'f \<Rightarrow> 'f channel \<Rightarrow> 'f channel" where
  "Channel_setErrorCallback cb c = c\<lparr>ch_errorCallback := Some cb\<rparr>"

definition Channel_tie :: "nat \<Rightarrow> 'f channel \<Rightarrow> 'f channel" where
  "Channel_tie obj c = c\<lparr>ch_tie := Some obj, ch_tied := True\<rparr>"

definition Channel_doNotLogHup :: "'f channel \<Rightarrow> 'f channel" where
  "Channel_doNotLogHup c = c\<lparr>ch_logHup := False\<rparr>"

definition Channel_set_revents :: "32 word \<Rightarrow> 'f channel \<Rightarrow> 'f channel" where
  "Channel_set_revents revt c = c\<lparr>ch_revents := revt\<rparr>"

definition Channel_set_index :: "int \<Rightarrow> 'f channel \<Rightarrow> 'f channel" where
  "Channel_set_index idx c = c\<lparr>ch_index := idx\<rparr>"

definition Channel_isNoneEvent :: "'f channel \<Rightarrow> bool" where
  "Channel_isNoneEvent c \<longleftrightarrow> ch_events c = kNoneEvent"

definition Channel_isWriting :: "'f channel \<Rightarrow> bool" where
  "Channel_isWriting c \<longleftrightarrow> ch_events c AND kWriteEvent \<noteq> 0"

definition Channel_isReading :: "'f channel \<Rightarrow> bool" where
  "Channel_isReading c \<longleftrightarrow> ch_events c AND kReadEvent \<noteq> 0"

text \<open>The destructor: \<open>in_thread\<close> is \<open>loop_->isInLoopThread()\<close>, \<open>registered\<close> is
  \<open>loop_->hasChannel(this)\<close>.\<close>

definition Channel_delete :: "bool \<Rightarrow> bool \<Rightarrow> nat \<Rightarrow> 'f channels \<Rightarrow> 'f channels result" where
  "Channel_delete in_thread registered p h = deref h p (\<lambda>c.
     cassert (\<not> ch_eventHandling c) (
     cassert (\<not> ch_addedToLoop c) (
     if in_thread then cassert (\<not> registered) (Inr (h(p := None)))
     else Inr (h(p := None)))))"

section \<open>Changing the watched events\<close>

definition Channel_update ::
  "(nat \<Rightarrow> ('f, 'w) chan_step) \<Rightarrow> nat \<Rightarrow> ('f, 'w) chan_step" where
  "Channel_update loop_update p s =
     (case s of (h, w) \<Rightarrow> deref h p (\<lambda>c.
        loop_update p (h(p \<mapsto> c\<lparr>ch_addedToLoop := True\<rparr>), w)))"

definition Channel_enableReading ::
  "(nat \<Rightarrow> ('f, 'w) chan_step) \<Rightarrow> nat \<Rightarrow> ('f, 'w) chan_step" where
  "Channel_enableReading loop_update p s =
     (case s of (h, w) \<Rightarrow> deref h p (\<lambda>c.
        Channel_update loop_update p (h(p \<mapsto> c\<lparr>ch_events := ch_events c OR kReadEvent\<rparr>), w)))"

definition Channel_disableReading ::
  "(nat \<Rightarrow> ('f, 'w) chan_step) \<Rightarrow> nat \<Rightarrow> ('f, 'w) chan_step" where
  "Channel_disableReading loop_update p s =
     (case s of (h, w) \<Rightarrow> deref h p (\<lambda>c.
        Channel_update loop_update p
          (h(p \<mapsto> c\<lparr>ch_events := ch_events c AND NOT kReadEvent\<rparr>), w)))"

definition Channel_enableWriting ::
  "(nat \<Rightarrow> ('f, 'w) chan_step) \<Rightarrow> nat \<Rightarrow> ('f, 'w) chan_step" where
  "Channel_enableWriting loop_update p s =
     (case s of (h, w) \<Rightarrow> deref h p (\<lambda>c.
        Channel_update loop_update p (h(p \<mapsto> c\<lparr>ch_events := ch_events c OR kWriteEvent\<rparr>), w)))"

definition Channel_disableWriting ::
  "(nat \<Rightarrow> ('f, 'w) chan_step) \<Rightarrow> nat \<Rightarrow> ('f, 'w) chan_step" where
  "Channel_disableWriting loop_update p s =
     (case s of (h, w) \<Rightarrow> deref h p (\<lambda>c.
        Channel_update loop_update p
          (h(p \<mapsto> c\<lparr>ch_events := ch_events c AND NOT kWriteEvent\<rparr>), w)))"

definition Channel_disableAll ::
  "(nat \<Rightarrow> ('f, 'w) chan_step) \<Rightarrow> nat \<Rightarrow> ('f, 'w) chan_step" where
  "Channel_disableAll loop_update p s =
     (case s of (h, w) \<Rightarrow> deref h p (\<lambda>c.
        Channel_update loop_update p (h(p \<mapsto> c\<lparr>ch_events := kNoneEvent\<rparr>), w)))"

definition Channel_remove ::
  "(nat \<Rightarrow> ('f, 'w) chan_step) \<Rightarrow> nat \<Rightarrow> ('f, 'w) chan_step" where
  "Channel_remove loop_remove p s =
     (case s of (h, w) \<Rightarrow> deref h p (\<lambda>c.
        cassert (Channel_isNoneEvent c)
          (loop_remove p (h(p \<mapsto> c\<lparr>ch_addedToLoop := False\<rparr>), w))))"

section \<open>Dispatching\<close>

text \<open>A call of a callback: the read callback gets the time of the poll.\<close>

datatype 'f call = Read_call 'f int | Event_call 'f

text \<open>\<open>if (callback) callback();\<close>\<close>

definition call_opt ::
  "('f call \<Rightarrow> 's \<Rightarrow> 's result) \<Rightarrow> ('f \<Rightarrow> 'f call) \<Rightarrow> 'f option \<Rightarrow> 's \<Rightarrow> 's result" where
  "call_opt invoke mk cb s = (case cb of None \<Rightarrow> Inr s | Some f \<Rightarrow> invoke (mk f) s)"

definition Channel_hup :: "32 word \<Rightarrow> bool" where
  "Channel_hup ev \<longleftrightarrow> ev AND POLLHUP \<noteq> 0 \<and> \<not> ev AND POLLIN \<noteq> 0"

text \<open>Every test reads the members again: a callback may have changed or destroyed the channel.\<close>

definition Channel_when ::
  "(32 word \<Rightarrow> bool) \<Rightarrow> ('f channel \<Rightarrow> 'f option) \<Rightarrow> ('f \<Rightarrow> 'f call) \<Rightarrow>
   ('f call \<Rightarrow> ('f, 'w) chan_step) \<Rightarrow> nat \<Rightarrow>
   ('f, 'w) chan_step" where
  "Channel_when test cb mk invoke p s = deref (fst s) p (\<lambda>c.
     if test (ch_revents c) then call_opt invoke mk (cb c) s else Inr s)"

definition Channel_handleEventWithGuard ::
  "('f call \<Rightarrow> ('f, 'w) chan_step) \<Rightarrow> nat \<Rightarrow> int \<Rightarrow> ('f, 'w) chan_step" where
  "Channel_handleEventWithGuard invoke p receiveTime s =
     deref (fst s) p (\<lambda>c.
     andThen (Channel_when Channel_hup ch_closeCallback Event_call invoke p
                ((fst s)(p \<mapsto> c\<lparr>ch_eventHandling := True\<rparr>), snd s)) (\<lambda>s.
     andThen (Channel_when (\<lambda>ev. ev AND (POLLERR OR POLLNVAL) \<noteq> 0) ch_errorCallback
                Event_call invoke p s) (\<lambda>s.
     andThen (Channel_when (\<lambda>ev. ev AND (POLLIN OR POLLPRI OR POLLRDHUP) \<noteq> 0) ch_readCallback
                (\<lambda>f. Read_call f receiveTime) invoke p s) (\<lambda>s.
     andThen (Channel_when (\<lambda>ev. ev AND POLLOUT \<noteq> 0) ch_writeCallback
                Event_call invoke p s) (\<lambda>s.
     deref (fst s) p (\<lambda>c. Inr ((fst s)(p \<mapsto> c\<lparr>ch_eventHandling := False\<rparr>), snd s)))))))"

text \<open>\<open>lock\<close> is whether the tied object still exists.\<close>

definition Channel_handleEvent ::
  "(nat \<Rightarrow> 'w \<Rightarrow> bool) \<Rightarrow> ('f call \<Rightarrow> ('f, 'w) chan_step) \<Rightarrow>
   nat \<Rightarrow> int \<Rightarrow> ('f, 'w) chan_step" where
  "Channel_handleEvent lock invoke p receiveTime s = deref (fst s) p (\<lambda>c.
     if ch_tied c then
       (case ch_tie c of
          None \<Rightarrow> Inr s
        | Some obj \<Rightarrow>
            if lock obj (snd s) then Channel_handleEventWithGuard invoke p receiveTime s
            else Inr s)
     else Channel_handleEventWithGuard invoke p receiveTime s)"

text \<open>\<open>eventsToString(fd, ev)\<close>, \<open>reventsToString()\<close>: \<open>operator<<\<close> of an \<open>int\<close> is decimal.\<close>

definition Channel_eventsToString :: "int \<Rightarrow> 32 word \<Rightarrow> string" where
  "Channel_eventsToString fd ev =
     decimal fd @ '': ''
       @ (if ev AND POLLIN \<noteq> 0 then ''IN '' else [])
       @ (if ev AND POLLPRI \<noteq> 0 then ''PRI '' else [])
       @ (if ev AND POLLOUT \<noteq> 0 then ''OUT '' else [])
       @ (if ev AND POLLHUP \<noteq> 0 then ''HUP '' else [])
       @ (if ev AND POLLRDHUP \<noteq> 0 then ''RDHUP '' else [])
       @ (if ev AND POLLERR \<noteq> 0 then ''ERR '' else [])
       @ (if ev AND POLLNVAL \<noteq> 0 then ''NVAL '' else [])"

definition Channel_reventsToString :: "'f channel \<Rightarrow> string" where
  "Channel_reventsToString c = Channel_eventsToString (ch_fd c) (ch_revents c)"

section \<open>Interests\<close>

lemma disjoint_masks:
  fixes w :: "32 word"
  assumes "w AND r = 0"
  shows "(ev OR w) AND r = ev AND r" "(ev AND NOT w) AND r = ev AND r"
    "(ev AND NOT w) AND w = 0" "(ev OR w) AND w = w"
proof -
  have "\<not> (bit w n \<and> bit r n)" for n
    using arg_cong [OF assms, of "\<lambda>x. bit x n"] by (simp add: bit_simps)
  then show "(ev OR w) AND r = ev AND r" "(ev AND NOT w) AND r = ev AND r"
    by (auto simp: bit_eq_iff bit_simps)
  show "(ev AND NOT w) AND w = 0" "(ev OR w) AND w = w"
    by (auto simp: bit_eq_iff bit_simps)
qed

lemma read_write_disjoint: "kReadEvent AND kWriteEvent = 0" "kWriteEvent AND kReadEvent = 0"
  by (simp_all add: kReadEvent_def kWriteEvent_def poll_bits)

text \<open>The two interests do not disturb each other.\<close>

lemmas event_bits [simp] =
  disjoint_masks [OF read_write_disjoint(1)] disjoint_masks [OF read_write_disjoint(2)]

lemma kWriteEvent_nonzero [simp]: "kWriteEvent \<noteq> 0" and kReadEvent_nonzero [simp]: "kReadEvent \<noteq> 0"
  and kNoneEvent_zero [simp]: "kNoneEvent = 0"
  by (simp_all add: kReadEvent_def kWriteEvent_def kNoneEvent_def poll_bits)

lemma or_events_nonzero [simp]:
  "ev OR kReadEvent \<noteq> 0" "ev OR kWriteEvent \<noteq> 0"
  using event_bits(4) [of ev] event_bits(8) [of ev] by (metis and_zero_eq bit.conj_zero_left
      kWriteEvent_nonzero kReadEvent_nonzero)+

text \<open>The words the operations can leave: only the three bits of the two interests.\<close>

definition interest_word :: "32 word \<Rightarrow> bool" where
  "interest_word ev \<longleftrightarrow> ev AND NOT (kReadEvent OR kWriteEvent) = 0"

lemma interest_word_closed [simp]:
  assumes "interest_word ev"
  shows "interest_word (ev OR kReadEvent)" "interest_word (ev OR kWriteEvent)"
    "interest_word (ev AND NOT kReadEvent)" "interest_word (ev AND NOT kWriteEvent)"
proof -
  have only: "bit ev n \<Longrightarrow> bit kReadEvent n \<or> bit kWriteEvent n" for n
    using arg_cong [OF assms [unfolded interest_word_def], of "\<lambda>x. bit x n"]
      bit_imp_le_length [of ev n]
    by (auto simp: bit_simps)
  show "interest_word (ev OR kReadEvent)" "interest_word (ev OR kWriteEvent)"
    "interest_word (ev AND NOT kReadEvent)" "interest_word (ev AND NOT kWriteEvent)"
    using only by (auto simp: interest_word_def bit_eq_iff bit_simps)
qed

lemma interest_word_zero [simp]: "interest_word 0"
  by (simp add: interest_word_def)

section \<open>Which callbacks an event runs\<close>

text \<open>The specification: close, error, read, write, in this order, each when its event occurred
  and it is set.\<close>

definition Channel_dispatch :: "'f channel \<Rightarrow> int \<Rightarrow> 'f call list" where
  "Channel_dispatch c t =
     (let ev = ch_revents c;
          calls = (\<lambda>b mk cb. if b then map mk (case cb of None \<Rightarrow> [] | Some f \<Rightarrow> [f]) else [])
      in calls (Channel_hup ev) Event_call (ch_closeCallback c)
       @ calls (ev AND (POLLERR OR POLLNVAL) \<noteq> 0) Event_call (ch_errorCallback c)
       @ calls (ev AND (POLLIN OR POLLPRI OR POLLRDHUP) \<noteq> 0) (\<lambda>f. Read_call f t) (ch_readCallback c)
       @ calls (ev AND POLLOUT \<noteq> 0) Event_call (ch_writeCallback c))"

text \<open>What dispatching reads of the object.\<close>

definition same_dispatch :: "'f channel \<Rightarrow> 'f channel \<Rightarrow> bool" where
  "same_dispatch c c' \<longleftrightarrow>
     ch_revents c' = ch_revents c \<and> ch_readCallback c' = ch_readCallback c \<and>
     ch_writeCallback c' = ch_writeCallback c \<and> ch_closeCallback c' = ch_closeCallback c \<and>
     ch_errorCallback c' = ch_errorCallback c"

definition keeps_channel ::
  "('f call \<Rightarrow> ('f, 'w) chan_step) \<Rightarrow> nat \<Rightarrow> 'f channel \<Rightarrow> bool" where
  "keeps_channel invoke p c \<longleftrightarrow>
     (\<forall>f s s' c1. invoke f s = Inr s' \<longrightarrow> fst s p = Some c1 \<longrightarrow> same_dispatch c c1 \<longrightarrow>
        (\<exists>c2. fst s' p = Some c2 \<and> same_dispatch c c2))"

text \<open>One guarded call, read from a channel that has not changed since the event.\<close>

lemma Channel_when_eq:
  assumes "fst s p = Some c1" and "same_dispatch c c1" and "cb c1 = cb c"
  shows "Channel_when test cb mk invoke p s =
     foldR (\<lambda>s f. invoke f s) s
       (if test (ch_revents c) then map mk (case cb c of None \<Rightarrow> [] | Some f \<Rightarrow> [f]) else [])"
  using assms by (simp add: Channel_when_def call_opt_def same_dispatch_def split: option.splits)

lemma foldR_keeps_channel:
  assumes "keeps_channel invoke p c"
    and "foldR (\<lambda>s f. invoke f s) s fs = Inr s'"
    and "\<exists>c1. fst s p = Some c1 \<and> same_dispatch c c1"
  shows "\<exists>c1. fst s' p = Some c1 \<and> same_dispatch c c1"
  using assms(2,3)
proof (rule foldR_invariant)
  fix s x s'
  assume "\<exists>c1. fst s p = Some c1 \<and> same_dispatch c c1" and "invoke x s = Inr s'"
  then show "\<exists>c1. fst s' p = Some c1 \<and> same_dispatch c c1"
    using assms(1) unfolding keeps_channel_def by blast
qed

text \<open>Chaining the guarded calls one by one.\<close>

lemma andThen_foldR_append:
  assumes "\<And>s'. foldR g s xs = Inr s' \<Longrightarrow> k s' = andThen (foldR g s' ys) k'"
  shows "andThen (foldR g s xs) k = andThen (foldR g s (xs @ ys)) k'"
  using assms by (cases "foldR g s xs") simp_all

lemma Channel_when_step:
  assumes "keeps_channel invoke p c" and "\<exists>c1. fst s p = Some c1 \<and> same_dispatch c c1"
    and "\<And>c1. same_dispatch c c1 \<Longrightarrow> cb c1 = cb c"
    and "\<And>s'. \<exists>c1. fst s' p = Some c1 \<and> same_dispatch c c1 \<Longrightarrow>
           k s' = andThen (foldR (\<lambda>s f. invoke f s) s' ys) k'"
  shows "andThen (Channel_when test cb mk invoke p s) k =
     andThen (foldR (\<lambda>s f. invoke f s) s
       ((if test (ch_revents c) then map mk (case cb c of None \<Rightarrow> [] | Some f \<Rightarrow> [f]) else []) @ ys)) k'"
proof -
  obtain c1 where c1: "fst s p = Some c1" "same_dispatch c c1"
    using assms(2) by blast
  show ?thesis
    unfolding Channel_when_eq [where test = test and mk = mk and cb = cb, OF c1 assms(3) [OF c1(2)]]
    by (rule andThen_foldR_append, rule assms(4), rule foldR_keeps_channel [OF assms(1)])
      (use assms(2) in auto)
qed

lemma Channel_when_last:
  assumes "keeps_channel invoke p c" and "\<exists>c1. fst s p = Some c1 \<and> same_dispatch c c1"
    and "\<And>c1. same_dispatch c c1 \<Longrightarrow> cb c1 = cb c"
  shows "andThen (Channel_when test cb mk invoke p s) k =
     andThen (foldR (\<lambda>s f. invoke f s) s
       (if test (ch_revents c) then map mk (case cb c of None \<Rightarrow> [] | Some f \<Rightarrow> [f]) else [])) k"
  using Channel_when_step [where test = test and mk = mk and cb = cb and ys = "[]" and k = k and k' = k,
      OF assms] by simp

text \<open>
  An event on a channel runs exactly the callbacks of the specification, in its order, inside
  the mark \<open>eventHandling_\<close>, provided the callbacks neither destroy the channel nor replace its
  callbacks while they run; a channel tied to an object that no longer exists runs none.
\<close>

theorem Channel_handleEvent_dispatch:
  assumes "h p = Some c" and "keeps_channel invoke p c"
  shows "Channel_handleEvent lock invoke p t (h, w) =
    (if ch_tied c \<and> (case ch_tie c of None \<Rightarrow> True | Some obj \<Rightarrow> \<not> lock obj w) then Inr (h, w)
     else andThen
       (foldR (\<lambda>s f. invoke f s) (h(p \<mapsto> c\<lparr>ch_eventHandling := True\<rparr>), w) (Channel_dispatch c t))
       (\<lambda>s. deref (fst s) p (\<lambda>c. Inr ((fst s)(p \<mapsto> c\<lparr>ch_eventHandling := False\<rparr>), snd s))))"
proof -
  have "Channel_handleEventWithGuard invoke p t (h, w) = andThen
       (foldR (\<lambda>s f. invoke f s) (h(p \<mapsto> c\<lparr>ch_eventHandling := True\<rparr>), w) (Channel_dispatch c t))
       (\<lambda>s. deref (fst s) p (\<lambda>c. Inr ((fst s)(p \<mapsto> c\<lparr>ch_eventHandling := False\<rparr>), snd s)))"
    unfolding Channel_handleEventWithGuard_def Channel_dispatch_def Let_def fst_conv snd_conv
      deref_simps(1) [where h = h and p = p, OF assms(1)]
    apply (rule Channel_when_step [OF assms(2)])
      apply (simp add: same_dispatch_def)
     apply (simp add: same_dispatch_def)
    apply (rule Channel_when_step [OF assms(2)], assumption, simp add: same_dispatch_def)
    apply (rule Channel_when_step [OF assms(2)], assumption, simp add: same_dispatch_def)
    by (rule Channel_when_last [OF assms(2)], assumption, simp add: same_dispatch_def)
  then show ?thesis
    using assms(1) by (auto simp: Channel_handleEvent_def split: option.splits)
qed

text \<open>A hang-up with data still to read is not a close: the read callback sees the end of file.\<close>

lemma Channel_handleEvent_dispatch_witness:
  "\<exists>c. Channel_handleEvent (\<lambda>obj w. True) (\<lambda>f (h, w). Inr (h, f # w)) 7 99
        ([7 \<mapsto> c], []) =
      Inr ([7 \<mapsto> c], [Event_call ''write'', Read_call ''read'' 99]) \<and> ch_tied c"
proof -
  define c where "c = Channel_tie 3 (Channel_set_revents (POLLIN OR POLLHUP OR POLLOUT)
    (Channel_setReadCallback ''read'' (Channel_setWriteCallback ''write''
      (Channel_setCloseCallback ''close'' (Channel_new 1 5)))))"
  have keeps: "keeps_channel (\<lambda>f (h, w). Inr (h, f # w)) 7 c"
    by (auto simp: keeps_channel_def)
  have dispatch: "Channel_dispatch c 99 = [Read_call ''read'' 99, Event_call ''write'']"
    and tied: "ch_tied c" "ch_tie c = Some 3" "\<not> ch_eventHandling c"
    by (simp_all add: c_def Channel_dispatch_def Channel_hup_def poll_bits Channel_new_def
        Channel_tie_def Channel_set_revents_def Channel_setReadCallback_def
        Channel_setWriteCallback_def Channel_setCloseCallback_def)
  have same: "c\<lparr>ch_eventHandling := False\<rparr> = c"
    using tied(3) by (cases c) simp
  have "Channel_handleEvent (\<lambda>obj w. True) (\<lambda>f (h, w). Inr (h, f # w)) 7 99 ([7 \<mapsto> c], []) =
      Inr ([7 \<mapsto> c\<lparr>ch_eventHandling := False\<rparr>], [Event_call ''write'', Read_call ''read'' 99])"
    by (subst Channel_handleEvent_dispatch [OF _ keeps]) (simp_all add: dispatch tied)
  then show ?thesis
    unfolding same using tied(1) by blast
qed

end
