(* ===== verification/Poller.thy ===== *)
theory Poller
  imports Channel Std_Map
begin

text \<open>
  \<open>src/muduo/net/Poller.h\<close> and \<open>Poller.cpp\<close>: what the two pollers share, and the contract
  between a poller and its loop.

  The abstract state of a poller is its watch table: which channel is registered for which
  descriptor, and for which events. The locale \<open>poller\<close> states what \<open>updateChannel\<close> and
  \<open>removeChannel\<close> do to the table; \<open>EPoll_Poller\<close> and \<open>Poll_Poller\<close> interpret it. What the loop
  needs from either, for any sequence of calls, is proved once here.
\<close>

section \<open>The base class\<close>

record poller_base =
  po_channels :: "(int \<times> nat) list"      \<comment> \<open>\<open>std::map<int, Channel*>\<close>\<close>
  po_owner :: int                          \<comment> \<open>the thread of \<open>ownerLoop_\<close>\<close>

definition Poller_assertInLoopThread :: "int \<Rightarrow> ('m) poller_base_scheme \<Rightarrow> 'a result \<Rightarrow> 'a result" where
  "Poller_assertInLoopThread tid P m = (if tid = po_owner P then m else Inl Log_fatal)"

definition Poller_hasChannel ::
  "int \<Rightarrow> 'f channels \<Rightarrow> ('m) poller_base_scheme \<Rightarrow> nat \<Rightarrow> bool result" where
  "Poller_hasChannel tid h P p = Poller_assertInLoopThread tid P (deref h p (\<lambda>c.
     Inr (map_find (po_channels P) (ch_fd c) = Some p)))"

section \<open>The contract\<close>

text \<open>Per descriptor the registered channel and the events it is watched for.\<close>

type_synonym watch = "int \<Rightarrow> (nat \<times> 32 word) option"

text \<open>A call writes only the member \<open>index_\<close>, of its channel and of registered ones.\<close>

definition index_only :: "watch \<Rightarrow> nat \<Rightarrow> 'f channels \<Rightarrow> 'f channels \<Rightarrow> bool" where
  "index_only W p h h' \<longleftrightarrow>
     (\<forall>q. case h q of
        None \<Rightarrow> h' q = None
      | Some c \<Rightarrow> \<exists>i. h' q = Some (c\<lparr>ch_index := i\<rparr>) \<and>
          (q \<noteq> p \<and> map_option fst (W (ch_fd c)) \<noteq> Some q \<longrightarrow> i = ch_index c))"

lemma index_onlyI:
  assumes "h p = Some c"
  shows "index_only W p h (h(p \<mapsto> c\<lparr>ch_index := i\<rparr>))" and "index_only W p h h"
proof -
  have same: "\<exists>i. Some d = Some (d\<lparr>ch_index := i\<rparr>) \<and> (b \<longrightarrow> i = ch_index d)" for d :: "'a channel" and b
    by (rule exI [of _ "ch_index d"]) simp
  show "index_only W p h (h(p \<mapsto> c\<lparr>ch_index := i\<rparr>))" and "index_only W p h h"
    using assms same unfolding index_only_def by (auto split: option.splits)
qed

lemma index_only_registered:
  assumes "h q = Some d" and "W (ch_fd d) = Some (q, ev)"
  shows "index_only W p h (h(q \<mapsto> d\<lparr>ch_index := i\<rparr>))"
  unfolding index_only_def
proof
  fix r
  show "case h r of None \<Rightarrow> (h(q \<mapsto> d\<lparr>ch_index := i\<rparr>)) r = None
      | Some c \<Rightarrow> \<exists>j. (h(q \<mapsto> d\<lparr>ch_index := i\<rparr>)) r = Some (c\<lparr>ch_index := j\<rparr>) \<and>
          (r \<noteq> p \<and> map_option fst (W (ch_fd c)) \<noteq> Some r \<longrightarrow> j = ch_index c)"
  proof (cases "r = q")
    case True
    then show ?thesis using assms by auto
  next
    case False
    show ?thesis
    proof (cases "h r")
      case (Some c)
      then show ?thesis using False by (auto intro!: exI [of _ "ch_index c"])
    qed (use False in simp)
  qed
qed

text \<open>A registration the loop may ask for: the descriptor is free and the channel has never been
  registered, and asks for some event; or it is the channel that is registered.\<close>

definition may_update :: "watch \<Rightarrow> nat \<Rightarrow> 'f channel \<Rightarrow> bool" where
  "may_update W p c \<longleftrightarrow> 0 \<le> ch_fd c \<and> interest_word (ch_events c) \<and>
     (case W (ch_fd c) of
        None \<Rightarrow> ch_index c = -1 \<and> ch_events c \<noteq> 0
      | Some (q, ev) \<Rightarrow> q = p)"

definition may_remove :: "watch \<Rightarrow> nat \<Rightarrow> 'f channel \<Rightarrow> bool" where
  "may_remove W p c \<longleftrightarrow> ch_events c = 0 \<and> W (ch_fd c) = Some (p, 0)"

text \<open>\<open>reuse\<close>: whether a removed channel can be registered again. \<open>fallible\<close>: whether the system
  can refuse a registration, which stops the process; a call does not fail in another way.\<close>

locale poller =
  fixes rep :: "'f channels \<Rightarrow> 'p \<Rightarrow> watch \<Rightarrow> bool"
    and update :: "nat \<Rightarrow> ('f, 'p) chan_step"
    and remove :: "nat \<Rightarrow> ('f, 'p) chan_step"
    and reuse :: bool
    and fallible :: bool
  assumes update_ok: "rep h P W \<Longrightarrow> h p = Some c \<Longrightarrow> may_update W p c \<Longrightarrow>
      fallible \<and> update p (h, P) = Inl Log_fatal \<or>
      (\<exists>h' P'. update p (h, P) = Inr (h', P') \<and> rep h' P' (W(ch_fd c \<mapsto> (p, ch_events c))) \<and>
         index_only W p h h')"
    and remove_ok: "rep h P W \<Longrightarrow> h p = Some c \<Longrightarrow> may_remove W p c \<Longrightarrow>
      \<exists>h' P'. remove p (h, P) = Inr (h', P') \<and> rep h' P' (W(ch_fd c := None)) \<and>
         index_only W p h h' \<and> (reuse \<longrightarrow> (\<exists>c'. h' p = Some c' \<and> ch_index c' = -1))"
    and rep_set_events: "rep h P W \<Longrightarrow> h p = Some c \<Longrightarrow>
      rep (h(p \<mapsto> c\<lparr>ch_events := ev, ch_addedToLoop := b\<rparr>)) P W"

section \<open>Scripts of channel operations\<close>

text \<open>What the owners of channels do, one call after the other, on any of them.\<close>

datatype chan_op =
    Enable_reading nat | Disable_reading nat | Enable_writing nat | Disable_writing nat
  | Disable_all nat | Remove nat

fun chan_exec ::
  "(nat \<Rightarrow> ('f, 'p) chan_step) \<Rightarrow> (nat \<Rightarrow> ('f, 'p) chan_step) \<Rightarrow>
   'f channels \<times> 'p \<Rightarrow> chan_op \<Rightarrow> ('f channels \<times> 'p) result" where
  "chan_exec up rm s (Enable_reading p) = Channel_enableReading up p s"
| "chan_exec up rm s (Disable_reading p) = Channel_disableReading up p s"
| "chan_exec up rm s (Enable_writing p) = Channel_enableWriting up p s"
| "chan_exec up rm s (Disable_writing p) = Channel_disableWriting up p s"
| "chan_exec up rm s (Disable_all p) = Channel_disableAll up p s"
| "chan_exec up rm s (Remove p) = Channel_remove rm p s"

text \<open>The specification keeps, per channel, its descriptor, its interest and where it is in its
  life; an operation outside the contract is \<open>None\<close>.\<close>

datatype chan_life = Fresh | Registered | Removed

type_synonym chan_table = "nat \<Rightarrow> (int \<times> 32 word \<times> chan_life) option"

fun op_channel :: "chan_op \<Rightarrow> nat" where
  "op_channel (Enable_reading p) = p"
| "op_channel (Disable_reading p) = p"
| "op_channel (Enable_writing p) = p"
| "op_channel (Disable_writing p) = p"
| "op_channel (Disable_all p) = p"
| "op_channel (Remove p) = p"

fun op_events :: "chan_op \<Rightarrow> 32 word \<Rightarrow> 32 word" where
  "op_events (Enable_reading p) ev = ev OR kReadEvent"
| "op_events (Disable_reading p) ev = ev AND NOT kReadEvent"
| "op_events (Enable_writing p) ev = ev OR kWriteEvent"
| "op_events (Disable_writing p) ev = ev AND NOT kWriteEvent"
| "op_events (Disable_all p) ev = 0"
| "op_events (Remove p) ev = ev"

definition is_Remove :: "chan_op \<Rightarrow> bool" where
  "is_Remove op \<longleftrightarrow> (case op of Remove p \<Rightarrow> True | _ \<Rightarrow> False)"

definition fd_free :: "chan_table \<Rightarrow> int \<Rightarrow> bool" where
  "fd_free E fd \<longleftrightarrow> (\<forall>q ev. E q \<noteq> Some (fd, ev, Registered))"

text \<open>One step: \<open>op_allowed\<close> is the contract, \<open>op_result\<close> the effect.\<close>

definition op_allowed :: "chan_op \<Rightarrow> chan_table \<Rightarrow> bool" where
  "op_allowed op E \<longleftrightarrow>
     (case E (op_channel op) of
        None \<Rightarrow> False
      | Some (fd, ev, life) \<Rightarrow>
          if is_Remove op then life = Registered \<and> ev = 0
          else 0 \<le> fd \<and>
            (life = Registered \<or> life = Fresh \<and> op_events op ev \<noteq> 0 \<and> fd_free E fd))"

definition op_result :: "bool \<Rightarrow> chan_op \<Rightarrow> chan_table \<Rightarrow> chan_table" where
  "op_result reuse op E =
     (case E (op_channel op) of
        None \<Rightarrow> E
      | Some (fd, ev, life) \<Rightarrow>
          E(op_channel op \<mapsto> (fd, op_events op ev,
              if is_Remove op then (if reuse then Fresh else Removed) else Registered)))"

fun script_allowed :: "bool \<Rightarrow> chan_op list \<Rightarrow> chan_table \<Rightarrow> bool" where
  "script_allowed reuse [] E \<longleftrightarrow> True"
| "script_allowed reuse (op # ops) E \<longleftrightarrow>
     op_allowed op E \<and> script_allowed reuse ops (op_result reuse op E)"

definition script_result :: "bool \<Rightarrow> chan_op list \<Rightarrow> chan_table \<Rightarrow> chan_table" where
  "script_result reuse ops E = fold (op_result reuse) ops E"

text \<open>The store and the watch table of a poller stand for a table of channels.\<close>

definition stands_for :: "'f channels \<Rightarrow> watch \<Rightarrow> chan_table \<Rightarrow> bool" where
  "stands_for h W E \<longleftrightarrow>
     (\<forall>p fd ev life. E p = Some (fd, ev, life) \<longrightarrow>
        (\<exists>c. h p = Some c \<and> ch_fd c = fd \<and> ch_events c = ev \<and> interest_word ev \<and>
             (life = Fresh \<longrightarrow> ch_index c = -1))) \<and>
     (\<forall>fd p ev. W fd = Some (p, ev) \<longleftrightarrow> E p = Some (fd, ev, Registered))"

lemma stands_forD:
  assumes "stands_for h W E" and "E p = Some (fd, ev, life)"
  obtains c where "h p = Some c" "ch_fd c = fd" "ch_events c = ev" "interest_word ev"
    "life = Fresh \<longrightarrow> ch_index c = -1"
  using assms unfolding stands_for_def by blast

lemma stands_for_watch:
  "stands_for h W E \<Longrightarrow> W fd = Some (p, ev) \<longleftrightarrow> E p = Some (fd, ev, Registered)"
  by (simp add: stands_for_def)

lemma interest_word_op: "interest_word ev \<Longrightarrow> interest_word (op_events op ev)"
  by (cases op) simp_all

lemma chan_exec_update:
  assumes "h p = Some c" and "op_channel op = p" and "\<not> is_Remove op"
  shows "chan_exec up rm (h, P) op =
    up p (h(p \<mapsto> c\<lparr>ch_events := op_events op (ch_events c), ch_addedToLoop := True\<rparr>), P)"
  using assms
  by (cases op) (simp_all add: is_Remove_def Channel_update_def Channel_enableReading_def
      Channel_disableReading_def Channel_enableWriting_def Channel_disableWriting_def
      Channel_disableAll_def)

lemma chan_exec_remove:
  assumes "h p = Some c" and "op_channel op = p" and "is_Remove op" and "ch_events c = 0"
  shows "chan_exec up rm (h, P) op =
    rm p (h(p \<mapsto> c\<lparr>ch_events := 0, ch_addedToLoop := False\<rparr>), P)"
proof -
  have same: "c\<lparr>ch_events := 0, ch_addedToLoop := False\<rparr> = c\<lparr>ch_addedToLoop := False\<rparr>"
    using assms(4) by (cases c) simp
  show ?thesis
    unfolding same
    using assms by (cases op) (simp_all add: is_Remove_def Channel_remove_def Channel_isNoneEvent_def)
qed

text \<open>Writing the table entry of one channel.\<close>

lemma stands_for_index_only:
  assumes "stands_for h W E" and "h p = Some c" and "index_only W p (h(p \<mapsto> c1)) h'"
    and "q \<noteq> p" and "E q = Some (fd, ev, life)"
  shows "\<exists>c. h' q = Some c \<and> ch_fd c = fd \<and> ch_events c = ev \<and> interest_word ev \<and>
    (life = Fresh \<longrightarrow> ch_index c = -1)"
proof -
  obtain cq where cq: "h q = Some cq" "ch_fd cq = fd" "ch_events cq = ev" "interest_word ev"
    "life = Fresh \<longrightarrow> ch_index cq = -1"
    using stands_forD [OF assms(1,5)] .
  obtain i where i: "h' q = Some (cq\<lparr>ch_index := i\<rparr>)"
    "map_option fst (W (ch_fd cq)) \<noteq> Some q \<Longrightarrow> i = ch_index cq"
    using spec [OF assms(3) [unfolded index_only_def], of q] assms(4) cq(1) by auto
  have "map_option fst (W (ch_fd cq)) \<noteq> Some q" if "life = Fresh"
    using that assms(5) stands_for_watch [OF assms(1)] cq(2) by auto
  then show ?thesis using cq i by auto
qed

lemma stands_for_update:
  assumes rel: "stands_for h W E" and "h p = Some c" and p: "E p = Some (fd, ev, life)"
    and io: "index_only W p (h(p \<mapsto> c1)) h'" and c1: "ch_fd c1 = fd" "ch_events c1 = ev'"
    and ev': "interest_word ev'" and owner: "\<And>q e. W fd = Some (q, e) \<Longrightarrow> q = p"
  shows "stands_for h' (W(fd \<mapsto> (p, ev'))) (E(p \<mapsto> (fd, ev', Registered)))"
proof -
  obtain i where i: "h' p = Some (c1\<lparr>ch_index := i\<rparr>)"
    using spec [OF io [unfolded index_only_def], of p] by auto
  have other: "(W(fd \<mapsto> (p, ev'))) fd' = Some (q, e) \<longleftrightarrow>
      (E(p \<mapsto> (fd, ev', Registered))) q = Some (fd', e, Registered)" for fd' q e
  proof (cases "fd' = fd \<and> q \<noteq> p")
    case True
    then have "E q \<noteq> Some (fd, e, Registered)"
      using stands_for_watch [OF rel, of fd q e] owner by blast
    then show ?thesis using True by auto
  next
    case False
    then show ?thesis using stands_for_watch [OF rel, of fd' q e] p by auto
  qed
  show ?thesis
    unfolding stands_for_def
  proof (intro conjI allI impI)
    fix q fd' e life'
    assume q: "(E(p \<mapsto> (fd, ev', Registered))) q = Some (fd', e, life')"
    show "\<exists>c. h' q = Some c \<and> ch_fd c = fd' \<and> ch_events c = e \<and> interest_word e \<and>
       (life' = Fresh \<longrightarrow> ch_index c = -1)"
    proof (cases "q = p")
      case True
      then show ?thesis using q i c1 ev' by auto
    next
      case False
      then show ?thesis using stands_for_index_only [OF rel assms(2) io False] q by simp
    qed
  qed (rule other)
qed

lemma stands_for_remove:
  assumes rel: "stands_for h W E" and "h p = Some c" and p: "E p = Some (fd, 0, Registered)"
    and io: "index_only W p (h(p \<mapsto> c1)) h'" and c1: "ch_fd c1 = fd" "ch_events c1 = 0"
    and fresh: "life = Fresh \<Longrightarrow> \<exists>c'. h' p = Some c' \<and> ch_index c' = -1" and "life \<noteq> Registered"
  shows "stands_for h' (W(fd := None)) (E(p \<mapsto> (fd, 0, life)))"
proof -
  obtain i where i: "h' p = Some (c1\<lparr>ch_index := i\<rparr>)"
    using spec [OF io [unfolded index_only_def], of p] by auto
  have W: "W fd = Some (p, 0)"
    using p stands_for_watch [OF rel] by blast
  have other: "(W(fd := None)) fd' = Some (q, e) \<longleftrightarrow>
      (E(p \<mapsto> (fd, 0, life))) q = Some (fd', e, Registered)" for fd' q e
    using stands_for_watch [OF rel, of fd' q e] p \<open>life \<noteq> Registered\<close> W
    by (cases "fd' = fd"; cases "q = p") simp_all
  show ?thesis
    unfolding stands_for_def
  proof (intro conjI allI impI)
    fix q fd' e life'
    assume q: "(E(p \<mapsto> (fd, 0, life))) q = Some (fd', e, life')"
    show "\<exists>c. h' q = Some c \<and> ch_fd c = fd' \<and> ch_events c = e \<and> interest_word e \<and>
       (life' = Fresh \<longrightarrow> ch_index c = -1)"
    proof (cases "q = p")
      case True
      then show ?thesis using q i c1 fresh by auto
    next
      case False
      then show ?thesis using stands_for_index_only [OF rel assms(2) io False] q by simp
    qed
  qed (rule other)
qed

context poller
begin

lemma exec_step:
  assumes "rep h P W" and rel: "stands_for h W E" and allowed: "op_allowed op E"
  shows "fallible \<and> chan_exec update remove (h, P) op = Inl Log_fatal \<or>
    (\<exists>h' P' W'. chan_exec update remove (h, P) op = Inr (h', P') \<and> rep h' P' W' \<and>
       stands_for h' W' (op_result reuse op E))"
proof -
  define p where "p = op_channel op"
  obtain fd ev life where E: "E p = Some (fd, ev, life)"
    using allowed by (auto simp: op_allowed_def p_def split: option.splits)
  obtain c where c: "h p = Some c" "ch_fd c = fd" "ch_events c = ev" "interest_word ev"
    "life = Fresh \<longrightarrow> ch_index c = -1"
    using stands_forD [OF rel E] .
  show ?thesis
  proof (cases "is_Remove op")
    case True
    define c1 where "c1 = c\<lparr>ch_events := 0, ch_addedToLoop := False\<rparr>"
    have life: "life = Registered" "ev = 0" and W: "W fd = Some (p, 0)"
      using allowed E True stands_for_watch [OF rel, of fd p 0] by (auto simp: op_allowed_def p_def)
    have ex: "chan_exec update remove (h, P) op = remove p (h(p \<mapsto> c1), P)"
      unfolding c1_def by (rule chan_exec_remove) (use c True life(2) in \<open>simp_all add: p_def\<close>)
    have "rep (h(p \<mapsto> c1)) P W"
      unfolding c1_def by (rule rep_set_events [OF assms(1) c(1)])
    moreover have "may_remove W p c1"
      using W c(2) by (simp add: may_remove_def c1_def)
    ultimately obtain h' P' where r: "remove p (h(p \<mapsto> c1), P) = Inr (h', P')"
      "rep h' P' (W(fd := None))" "index_only W p (h(p \<mapsto> c1)) h'"
      "reuse \<longrightarrow> (\<exists>c'. h' p = Some c' \<and> ch_index c' = -1)"
      using remove_ok [of "h(p \<mapsto> c1)" P W p c1] c(2) by (auto simp: c1_def)
    have "stands_for h' (W(fd := None)) (E(p \<mapsto> (fd, 0, if reuse then Fresh else Removed)))"
      by (rule stands_for_remove [OF rel c(1) _ r(3)]) (use E life c r(4) in \<open>auto simp: c1_def\<close>)
    then show ?thesis
      using ex r True E life by (auto simp: op_result_def p_def [symmetric] is_Remove_def
          split: chan_op.splits)
  next
    case False
    define ev' where "ev' = op_events op ev"
    define c1 where "c1 = c\<lparr>ch_events := ev', ch_addedToLoop := True\<rparr>"
    have cond: "0 \<le> fd" "life = Registered \<or> life = Fresh \<and> ev' \<noteq> 0 \<and> fd_free E fd"
      using allowed E False by (auto simp: op_allowed_def p_def ev'_def)
    have ex: "chan_exec update remove (h, P) op = update p (h(p \<mapsto> c1), P)"
      unfolding c1_def ev'_def c(3) [symmetric]
      by (rule chan_exec_update) (use c False in \<open>simp_all add: p_def\<close>)
    have ev'_ok: "interest_word ev'"
      using c(4) by (simp add: ev'_def interest_word_op)
    have owner: "q = p" if "W fd = Some (q, e)" for q e
    proof -
      have q: "E q = Some (fd, e, Registered)"
        using that stands_for_watch [OF rel] by blast
      then have "life = Registered"
        using cond(2) unfolding fd_free_def by blast
      then have "W fd = Some (p, ev)"
        using E stands_for_watch [OF rel] by blast
      then show ?thesis using that by simp
    qed
    have "rep (h(p \<mapsto> c1)) P W"
      unfolding c1_def by (rule rep_set_events [OF assms(1) c(1)])
    moreover have "may_update W p c1"
      using cond ev'_ok c owner E stands_for_watch [OF rel, of fd p ev]
      by (auto simp: may_update_def c1_def split: option.splits)
    ultimately consider "fallible" "update p (h(p \<mapsto> c1), P) = Inl Log_fatal"
      | h' P' where "update p (h(p \<mapsto> c1), P) = Inr (h', P')"
        "rep h' P' (W(fd \<mapsto> (p, ev')))" "index_only W p (h(p \<mapsto> c1)) h'"
      using update_ok [of "h(p \<mapsto> c1)" P W p c1] c(2) by (auto simp: c1_def)
    then show ?thesis
    proof cases
      case 1
      then show ?thesis using ex by simp
    next
      case 2
      have "stands_for h' (W(fd \<mapsto> (p, ev'))) (E(p \<mapsto> (fd, ev', Registered)))"
        by (rule stands_for_update [OF rel c(1) E 2(3)]) (use c ev'_ok owner in \<open>auto simp: c1_def\<close>)
      moreover have "op_result reuse op E = E(p \<mapsto> (fd, ev', Registered))"
        using E False by (simp add: op_result_def p_def ev'_def)
      ultimately show ?thesis using ex 2 by auto
    qed
  qed
qed

lemma script_refines:
  assumes "rep h P W" and "stands_for h W E" and "script_allowed reuse ops E"
  shows "fallible \<and> foldR (chan_exec update remove) (h, P) ops = Inl Log_fatal \<or>
    (\<exists>h' P' W'. foldR (chan_exec update remove) (h, P) ops = Inr (h', P') \<and> rep h' P' W' \<and>
       stands_for h' W' (script_result reuse ops E))"
  using assms
proof (induction ops arbitrary: h P W E)
  case Nil
  then show ?case by (auto simp: script_result_def)
next
  case (Cons op ops)
  from exec_step [OF Cons.prems(1,2), of op] Cons.prems(3)
  consider "fallible" "chan_exec update remove (h, P) op = Inl Log_fatal"
    | h1 P1 W1 where "chan_exec update remove (h, P) op = Inr (h1, P1)" "rep h1 P1 W1"
      "stands_for h1 W1 (op_result reuse op E)"
    by auto
  then show ?case
  proof cases
    case 1
    then show ?thesis by simp
  next
    case 2
    then show ?thesis
      using Cons.IH [OF 2(2,3)] Cons.prems(3) by (simp add: script_result_def)
  qed
qed

end

end
