(* ===== verification/EPoll_Poller.thy ===== *)
theory EPoll_Poller
  imports Poller
begin

text \<open>
  \<open>src/muduo/net/EPollPoller.h\<close> and \<open>EPollPoller.cpp\<close>: the poller on \<open>epoll(7)\<close>.

  The epoll instance is kernel state of an arbitrary type \<open>'k\<close>; \<open>epoll_ctl\<close> and \<open>epoll_wait\<close> are
  the parameters \<open>ctl\<close> and \<open>wait\<close>. The locale \<open>epoll_instance\<close> states their documented
  behaviour through the interest list; \<open>Interest_list\<close> below is a kernel that has it.
\<close>

section \<open>The system calls\<close>

datatype epoll_op = EPOLL_CTL_ADD | EPOLL_CTL_DEL | EPOLL_CTL_MOD

type_synonym epoll_event = "32 word \<times> nat"    \<comment> \<open>\<open>events\<close>, \<open>data.ptr\<close>\<close>

type_synonym 'k epoll_ctl = "'k \<Rightarrow> epoll_op \<Rightarrow> int \<Rightarrow> epoll_event \<Rightarrow> int \<times> 'k"

text \<open>The arguments after the instance are \<open>maxevents\<close> and the timeout; the result is the return
  value and the events written.\<close>

type_synonym 'k epoll_wait = "'k \<Rightarrow> int \<Rightarrow> int \<Rightarrow> int \<times> epoll_event list"

locale epoll_instance =
  fixes ctl :: "'k epoll_ctl" and wait :: "'k epoll_wait"
    and interest :: "'k \<Rightarrow> int \<Rightarrow> epoll_event option"
  assumes ctl_add: "ctl k EPOLL_CTL_ADD fd ev = (r, k') \<Longrightarrow> \<not> r < 0 \<Longrightarrow>
      interest k' = (interest k)(fd \<mapsto> ev)"
    and ctl_mod: "ctl k EPOLL_CTL_MOD fd ev = (r, k') \<Longrightarrow> \<not> r < 0 \<Longrightarrow>
      interest k' = (interest k)(fd \<mapsto> ev)"
    and ctl_del: "ctl k EPOLL_CTL_DEL fd ev = (r, k') \<Longrightarrow> interest k' = (interest k)(fd := None)"
    and wait_count: "wait k maxevents timeout = (n, evs) \<Longrightarrow> 0 < n \<Longrightarrow>
      n \<le> maxevents \<and> length evs = nat n"
    and wait_interest: "wait k maxevents timeout = (n, evs) \<Longrightarrow> (revents, p) \<in> set evs \<Longrightarrow>
      \<exists>fd ev'. interest k fd = Some (ev', p)"

section \<open>The poller\<close>

definition kNew :: int where "kNew = -1"
definition kAdded :: int where "kAdded = 1"
definition kDeleted :: int where "kDeleted = 2"

definition kInitEventListSize :: nat where "kInitEventListSize = 16"

record 'k epoll_poller = poller_base +
  ep_kernel :: 'k                  \<comment> \<open>the instance behind \<open>epollfd_\<close>\<close>
  ep_events_size :: nat            \<comment> \<open>\<open>events_.size()\<close>; \<open>epoll_wait\<close> writes the contents\<close>

text \<open>\<open>epollfd\<close> is what \<open>epoll_create1\<close> returned, \<open>k\<close> the new instance.\<close>

definition EPollPoller_new :: "int \<Rightarrow> int \<Rightarrow> 'k \<Rightarrow> 'k epoll_poller result" where
  "EPollPoller_new tid epollfd k =
     (if epollfd < 0 then Inl Log_fatal
      else Inr \<lparr>po_channels = [], po_owner = tid, ep_kernel = k,
                ep_events_size = kInitEventListSize\<rparr>)"

definition EPollPoller_update ::
  "'k epoll_ctl \<Rightarrow> epoll_op \<Rightarrow> nat \<Rightarrow> 'f channels \<Rightarrow> 'k epoll_poller \<Rightarrow> 'k epoll_poller result" where
  "EPollPoller_update ctl operation p h ep = deref h p (\<lambda>c.
     let event = (ch_events c, p);
         (r, k') = ctl (ep_kernel ep) operation (ch_fd c) event
     in if r < 0 then
          (if operation = EPOLL_CTL_DEL then Inr (ep\<lparr>ep_kernel := k'\<rparr>) else Inl Log_fatal)
        else Inr (ep\<lparr>ep_kernel := k'\<rparr>))"

definition EPollPoller_updateChannel ::
  "'k epoll_ctl \<Rightarrow> int \<Rightarrow> nat \<Rightarrow> ('f, 'k epoll_poller) chan_step" where
  "EPollPoller_updateChannel ctl tid p s = (case s of (h, ep) \<Rightarrow>
     Poller_assertInLoopThread tid ep (deref h p (\<lambda>c.
     let index = ch_index c; fd = ch_fd c; m = po_channels ep in
     if index = kNew \<or> index = kDeleted then
       andThen
         (if index = kNew then
            cassert (map_find m fd = None) (Inr (ep\<lparr>po_channels := map_put fd p m\<rparr>))
          else
            cassert (map_find m fd \<noteq> None) (
            cassert (map_find m fd = Some p) (Inr ep)))
         (\<lambda>ep1.
            let h1 = h(p \<mapsto> Channel_set_index kAdded c) in
            andThen (EPollPoller_update ctl EPOLL_CTL_ADD p h1 ep1) (\<lambda>ep2. Inr (h1, ep2)))
     else
       cassert (map_find m fd \<noteq> None) (
       cassert (map_find m fd = Some p) (
       cassert (index = kAdded) (
       if Channel_isNoneEvent c then
         andThen (EPollPoller_update ctl EPOLL_CTL_DEL p h ep) (\<lambda>ep1.
         Inr (h(p \<mapsto> Channel_set_index kDeleted c), ep1))
       else
         andThen (EPollPoller_update ctl EPOLL_CTL_MOD p h ep) (\<lambda>ep1. Inr (h, ep1))))))))"

text \<open>\<open>assert(n)\<close> on the number of erased entries cannot fail after the first assertion; it is
  kept.\<close>

definition EPollPoller_removeChannel ::
  "'k epoll_ctl \<Rightarrow> int \<Rightarrow> nat \<Rightarrow> ('f, 'k epoll_poller) chan_step" where
  "EPollPoller_removeChannel ctl tid p s = (case s of (h, ep) \<Rightarrow>
     Poller_assertInLoopThread tid ep (deref h p (\<lambda>c.
     let fd = ch_fd c; m = po_channels ep; index = ch_index c in
     cassert (map_find m fd \<noteq> None) (
     cassert (map_find m fd = Some p) (
     cassert (Channel_isNoneEvent c) (
     cassert (index = kAdded \<or> index = kDeleted) (
     let ep1 = ep\<lparr>po_channels := map_erase fd m\<rparr> in
     cassert (map_find m fd \<noteq> None) (
     andThen
       (if index = kAdded then EPollPoller_update ctl EPOLL_CTL_DEL p h ep1 else Inr ep1)
       (\<lambda>ep2. Inr (h(p \<mapsto> Channel_set_index kNew c), ep2))))))))))"

text \<open>The loop of \<open>fillActiveChannels\<close> and its body; \<open>evs\<close> is the contents of \<open>events_\<close>.\<close>

definition EPollPoller_activate ::
  "'k epoll_poller \<Rightarrow> 'f channels \<times> nat list \<Rightarrow> epoll_event \<Rightarrow> ('f channels \<times> nat list) result" where
  "EPollPoller_activate ep s e = (case s of (h, active) \<Rightarrow> case e of (ev, p) \<Rightarrow>
     deref h p (\<lambda>c.
     cassert (map_find (po_channels ep) (ch_fd c) \<noteq> None) (
     cassert (map_find (po_channels ep) (ch_fd c) = Some p) (
     Inr (h(p \<mapsto> Channel_set_revents ev c), active @ [p])))))"

definition EPollPoller_fillActiveChannels ::
  "nat \<Rightarrow> epoll_event list \<Rightarrow> 'k epoll_poller \<Rightarrow> 'f channels \<times> nat list \<Rightarrow>
   ('f channels \<times> nat list) result" where
  "EPollPoller_fillActiveChannels numEvents evs ep s =
     cassert (numEvents \<le> ep_events_size ep)
       (foldR (EPollPoller_activate ep) s (take numEvents evs))"

text \<open>The time of the return is the argument \<open>now\<close>; \<open>errno\<close> only decides what is logged.\<close>

definition EPollPoller_poll ::
  "'k epoll_wait \<Rightarrow> int \<Rightarrow> int \<Rightarrow> 'f channels \<times> 'k epoll_poller \<times> nat list \<Rightarrow>
   (int \<times> 'f channels \<times> 'k epoll_poller \<times> nat list) result" where
  "EPollPoller_poll wait now timeoutMs s = (case s of (h, ep, active) \<Rightarrow>
     let (n, evs) = wait (ep_kernel ep) (int32_of (int (ep_events_size ep))) timeoutMs in
     if 0 < n then
       andThen (EPollPoller_fillActiveChannels (nat n) evs ep (h, active)) (\<lambda>(h', active').
       Inr (now, h',
            if nat n = ep_events_size ep then ep\<lparr>ep_events_size := ep_events_size ep * 2\<rparr> else ep,
            active'))
     else Inr (now, h, ep, active))"

definition EPollPoller_operationToString :: "epoll_op \<Rightarrow> string" where
  "EPollPoller_operationToString op =
     (case op of EPOLL_CTL_ADD \<Rightarrow> ''ADD'' | EPOLL_CTL_DEL \<Rightarrow> ''DEL'' | EPOLL_CTL_MOD \<Rightarrow> ''MOD'')"

section \<open>The watch table\<close>

text \<open>What the store and the poller look like when the watch table is \<open>W\<close>: a registered channel is
  in the interest list with the events last asked for, or, once none were left, out of it with its
  index saying so.\<close>

definition epoll_entry ::
  "nat option \<Rightarrow> epoll_event option \<Rightarrow> 'f channels \<Rightarrow> int \<Rightarrow> (nat \<times> 32 word) option \<Rightarrow> bool" where
  "epoll_entry m e h fd w \<longleftrightarrow>
     (case w of
        None \<Rightarrow> m = None \<and> e = None
      | Some (p, ev) \<Rightarrow> m = Some p \<and>
          (\<exists>c. h p = Some c \<and> ch_fd c = fd \<and>
             (ch_index c = kAdded \<and> e = Some (ev, p) \<or>
              ch_index c = kDeleted \<and> ev = 0 \<and> e = None)))"

definition epoll_rep ::
  "('k \<Rightarrow> int \<Rightarrow> epoll_event option) \<Rightarrow> int \<Rightarrow> 'f channels \<Rightarrow> 'k epoll_poller \<Rightarrow> watch \<Rightarrow> bool" where
  "epoll_rep interest tid h ep W \<longleftrightarrow>
     po_owner ep = tid \<and> map_wf (po_channels ep) \<and>
     (\<forall>fd. epoll_entry (map_find (po_channels ep) fd) (interest (ep_kernel ep) fd) h fd (W fd))"

lemmas ep_index = kNew_def kAdded_def kDeleted_def

lemma epoll_repD:
  "epoll_rep interest tid h ep W \<Longrightarrow>
   epoll_entry (map_find (po_channels ep) fd) (interest (ep_kernel ep) fd) h fd (W fd)"
  by (simp add: epoll_rep_def)

lemma epoll_rep_None:
  "epoll_rep interest tid h ep W \<Longrightarrow> W fd = None \<Longrightarrow>
   map_find (po_channels ep) fd = None \<and> interest (ep_kernel ep) fd = None"
  using epoll_repD [where fd = fd] by (fastforce simp: epoll_entry_def)

lemma epoll_rep_Some:
  assumes "epoll_rep interest tid h ep W" and "W fd = Some (p, ev)" and "h p = Some c"
  shows "map_find (po_channels ep) fd = Some p" and "ch_fd c = fd"
    and "ch_index c = kAdded \<and> interest (ep_kernel ep) fd = Some (ev, p) \<or>
         ch_index c = kDeleted \<and> ev = 0 \<and> interest (ep_kernel ep) fd = None"
  using epoll_repD [OF assms(1), of fd] assms(2,3) by (auto simp: epoll_entry_def)

text \<open>An entry is about its own channel only.\<close>

lemma epoll_entry_other:
  assumes "epoll_entry m e h fd' w" and "\<And>q. q \<noteq> p \<Longrightarrow> h' q = h q"
    and "h p = Some c" and "ch_fd c \<noteq> fd'"
  shows "epoll_entry m e h' fd' w"
proof (cases w)
  case (Some a)
  then obtain q ev where "w = Some (q, ev)" by (cases a) auto
  moreover have "q \<noteq> p" using assms(1,3,4) calculation by (auto simp: epoll_entry_def)
  ultimately show ?thesis using assms(1) assms(2) [of q] by (simp add: epoll_entry_def)
qed (use assms(1) in \<open>simp add: epoll_entry_def\<close>)

text \<open>Replacing the entry of one descriptor.\<close>

lemma epoll_rep_put:
  assumes rep: "epoll_rep interest tid h ep W"
    and "po_owner ep' = tid" "map_wf (po_channels ep')"
    and m: "map_find (po_channels ep') = (map_find (po_channels ep))(fd := map_option fst w)"
    and e: "interest (ep_kernel ep') = (interest (ep_kernel ep))(fd := e)"
    and h: "\<And>q. q \<noteq> p \<Longrightarrow> h' q = h q" and c: "h p = Some c" "ch_fd c = fd"
    and new: "epoll_entry (map_option fst w) e h' fd w"
  shows "epoll_rep interest tid h' ep' (W(fd := w))"
  unfolding epoll_rep_def
proof (intro conjI allI)
  fix fd'
  show "epoll_entry (map_find (po_channels ep') fd') (interest (ep_kernel ep') fd') h' fd'
      ((W(fd := w)) fd')"
  proof (cases "fd' = fd")
    case True
    then show ?thesis using new by (simp add: m e)
  next
    case False
    then show ?thesis
      using epoll_entry_other [OF epoll_repD [OF rep, of fd'] h c(1)] c(2) by (simp add: m e)
  qed
qed (use assms in auto)

lemma EPollPoller_update_add_mod:
  assumes "epoll_instance ctl wait interest" and "op \<noteq> EPOLL_CTL_DEL" and "h p = Some c"
  shows "EPollPoller_update ctl op p h ep = Inl Log_fatal \<or>
    (\<exists>k'. EPollPoller_update ctl op p h ep = Inr (ep\<lparr>ep_kernel := k'\<rparr>) \<and>
       interest k' = (interest (ep_kernel ep))(ch_fd c \<mapsto> (ch_events c, p)))"
proof (cases "ctl (ep_kernel ep) op (ch_fd c) (ch_events c, p)")
  case (Pair r k')
  then show ?thesis
    using assms epoll_instance.ctl_add [OF assms(1)] epoll_instance.ctl_mod [OF assms(1)]
    by (cases op) (auto simp: EPollPoller_update_def intro!: exI [of _ k'])
qed

lemma EPollPoller_update_del:
  assumes "epoll_instance ctl wait interest" and "h p = Some c"
  shows "\<exists>k'. EPollPoller_update ctl EPOLL_CTL_DEL p h ep = Inr (ep\<lparr>ep_kernel := k'\<rparr>) \<and>
    interest k' = (interest (ep_kernel ep))(ch_fd c := None)"
proof (cases "ctl (ep_kernel ep) EPOLL_CTL_DEL (ch_fd c) (ch_events c, p)")
  case (Pair r k')
  then show ?thesis
    using assms epoll_instance.ctl_del [OF assms(1) Pair]
    by (auto simp: EPollPoller_update_def intro!: exI [of _ k'])
qed

lemma EPollPoller_updateChannel_ok:
  assumes K: "epoll_instance ctl wait interest"
    and rep: "epoll_rep interest tid h ep W" and c: "h p = Some c" and may: "may_update W p c"
  shows "EPollPoller_updateChannel ctl tid p (h, ep) = Inl Log_fatal \<or>
    (\<exists>h' ep'. EPollPoller_updateChannel ctl tid p (h, ep) = Inr (h', ep') \<and>
       epoll_rep interest tid h' ep' (W(ch_fd c \<mapsto> (p, ch_events c))) \<and> index_only W p h h')"
proof -
  have owner: "po_owner ep = tid" and wf: "map_wf (po_channels ep)"
    using rep by (auto simp: epoll_rep_def)
  note unfold = EPollPoller_updateChannel_def Poller_assertInLoopThread_def Let_def
  note io = index_onlyI [where h = h and p = p and W = W, OF c]
  show ?thesis
  proof (cases "W (ch_fd c)")
    case None
    then have idx: "ch_index c = kNew" and free: "map_find (po_channels ep) (ch_fd c) = None"
      using may epoll_rep_None [OF rep] by (auto simp: may_update_def ep_index)
    define h1 where "h1 = h(p \<mapsto> Channel_set_index kAdded c)"
    define ep1 where "ep1 = ep\<lparr>po_channels := map_put (ch_fd c) p (po_channels ep)\<rparr>"
    have run: "EPollPoller_updateChannel ctl tid p (h, ep) =
        andThen (EPollPoller_update ctl EPOLL_CTL_ADD p h1 ep1) (\<lambda>ep2. Inr (h1, ep2))"
      using c owner idx free by (simp add: unfold h1_def ep1_def)
    have "epoll_rep interest tid h1 (ep1\<lparr>ep_kernel := k'\<rparr>) (W(ch_fd c \<mapsto> (p, ch_events c)))"
      if "interest k' = (interest (ep_kernel ep))(ch_fd c \<mapsto> (ch_events c, p))" for k'
      by (rule epoll_rep_put [OF rep _ _ _ _ _ c])
        (use owner wf that in \<open>auto simp: ep1_def h1_def epoll_entry_def Channel_set_index_def\<close>)
    moreover have "index_only W p h h1"
      using io(1) by (simp add: h1_def Channel_set_index_def)
    ultimately show ?thesis
      using EPollPoller_update_add_mod [OF K, of EPOLL_CTL_ADD h1 p "Channel_set_index kAdded c" ep1] run
      by (auto simp: h1_def ep1_def Channel_set_index_def)
  next
    case (Some w)
    then obtain ev where W: "W (ch_fd c) = Some (p, ev)"
      using may by (auto simp: may_update_def split: prod.splits)
    note old = epoll_rep_Some [OF rep W c]
    show ?thesis
    proof (cases "ch_index c = kDeleted")
      case True
      define h1 where "h1 = h(p \<mapsto> Channel_set_index kAdded c)"
      have run: "EPollPoller_updateChannel ctl tid p (h, ep) =
          andThen (EPollPoller_update ctl EPOLL_CTL_ADD p h1 ep) (\<lambda>ep2. Inr (h1, ep2))"
        using c owner True old(1) by (simp add: unfold h1_def ep_index)
      have "epoll_rep interest tid h1 (ep\<lparr>ep_kernel := k'\<rparr>) (W(ch_fd c \<mapsto> (p, ch_events c)))"
        if "interest k' = (interest (ep_kernel ep))(ch_fd c \<mapsto> (ch_events c, p))" for k'
        by (rule epoll_rep_put [OF rep _ _ _ _ _ c])
          (use owner wf that old(1) in \<open>auto simp: h1_def Channel_set_index_def epoll_entry_def fun_upd_idem\<close>)
      moreover have "index_only W p h h1"
        using io(1) by (simp add: h1_def Channel_set_index_def)
      ultimately show ?thesis
        using EPollPoller_update_add_mod [OF K, of EPOLL_CTL_ADD h1 p "Channel_set_index kAdded c" ep] run
        by (auto simp: h1_def Channel_set_index_def)
    next
      case False
      then have idx: "ch_index c = kAdded" using old(3) by blast
      show ?thesis
      proof (cases "Channel_isNoneEvent c")
        case True
        then have run: "EPollPoller_updateChannel ctl tid p (h, ep) =
            andThen (EPollPoller_update ctl EPOLL_CTL_DEL p h ep) (\<lambda>ep1.
              Inr (h(p \<mapsto> Channel_set_index kDeleted c), ep1))"
          using c owner idx old(1) by (simp add: unfold ep_index)
        have "epoll_rep interest tid (h(p \<mapsto> Channel_set_index kDeleted c)) (ep\<lparr>ep_kernel := k'\<rparr>)
            (W(ch_fd c \<mapsto> (p, ch_events c)))"
          if "interest k' = (interest (ep_kernel ep))(ch_fd c := None)" for k'
          by (rule epoll_rep_put [OF rep _ _ _ _ _ c])
            (use owner wf that old(1) True in
              \<open>auto simp: Channel_set_index_def epoll_entry_def fun_upd_idem Channel_isNoneEvent_def\<close>)
        then show ?thesis
          using EPollPoller_update_del [where h = h and p = p and ep = ep, OF K c] run io(1)
          by (auto simp: Channel_set_index_def)
      next
        case False
        then have run: "EPollPoller_updateChannel ctl tid p (h, ep) =
            andThen (EPollPoller_update ctl EPOLL_CTL_MOD p h ep) (\<lambda>ep1. Inr (h, ep1))"
          using c owner idx old(1) by (simp add: unfold ep_index)
        have "epoll_rep interest tid h (ep\<lparr>ep_kernel := k'\<rparr>) (W(ch_fd c \<mapsto> (p, ch_events c)))"
          if "interest k' = (interest (ep_kernel ep))(ch_fd c \<mapsto> (ch_events c, p))" for k'
          by (rule epoll_rep_put [OF rep _ _ _ _ _ c])
            (use owner wf that old(1) idx c in \<open>auto simp: epoll_entry_def fun_upd_idem\<close>)
        then show ?thesis
          using EPollPoller_update_add_mod [where h = h and p = p and ep = ep, OF K _ c, of EPOLL_CTL_MOD]
            run io(2) by auto
      qed
    qed
  qed
qed

lemma EPollPoller_removeChannel_ok:
  assumes K: "epoll_instance ctl wait interest"
    and rep: "epoll_rep interest tid h ep W" and c: "h p = Some c" and may: "may_remove W p c"
  shows "\<exists>h' ep'. EPollPoller_removeChannel ctl tid p (h, ep) = Inr (h', ep') \<and>
       epoll_rep interest tid h' ep' (W(ch_fd c := None)) \<and> index_only W p h h' \<and>
       (True \<longrightarrow> (\<exists>c'. h' p = Some c' \<and> ch_index c' = -1))"
proof -
  have owner: "po_owner ep = tid" and wf: "map_wf (po_channels ep)"
    using rep by (auto simp: epoll_rep_def)
  have W: "W (ch_fd c) = Some (p, 0)" and none: "Channel_isNoneEvent c"
    using may by (auto simp: may_remove_def Channel_isNoneEvent_def)
  note old = epoll_rep_Some [OF rep W c]
  note unfold = EPollPoller_removeChannel_def Poller_assertInLoopThread_def Let_def
  define ep1 where "ep1 = ep\<lparr>po_channels := map_erase (ch_fd c) (po_channels ep)\<rparr>"
  define h1 where "h1 = h(p \<mapsto> Channel_set_index kNew c)"
  have run: "EPollPoller_removeChannel ctl tid p (h, ep) = andThen
      (if ch_index c = kAdded then EPollPoller_update ctl EPOLL_CTL_DEL p h ep1 else Inr ep1)
      (\<lambda>ep2. Inr (h1, ep2))"
    using c owner old none by (auto simp: unfold ep1_def h1_def ep_index)
  have "epoll_rep interest tid h1 (ep1\<lparr>ep_kernel := k'\<rparr>) (W(ch_fd c := None))"
    if "interest k' = (interest (ep_kernel ep))(ch_fd c := None)" for k'
    by (rule epoll_rep_put [OF rep _ _ _ _ _ c])
      (use owner wf that in \<open>auto simp: ep1_def h1_def epoll_entry_def\<close>)
  moreover have "epoll_rep interest tid h1 ep1 (W(ch_fd c := None))" if "ch_index c \<noteq> kAdded"
    by (rule epoll_rep_put [OF rep _ _ _ _ _ c])
      (use owner wf that old(3) in \<open>auto simp: ep1_def h1_def epoll_entry_def fun_upd_idem\<close>)
  moreover have "index_only W p h h1"
    using index_onlyI(1) [where h = h and p = p, OF c] by (simp add: h1_def Channel_set_index_def)
  moreover have "\<exists>c'. h1 p = Some c' \<and> ch_index c' = -1"
    by (simp add: h1_def Channel_set_index_def ep_index)
  ultimately show ?thesis
    using EPollPoller_update_del [where h = h and p = p and ep = ep1, OF K c] run
    by (cases "ch_index c = kAdded") (auto simp: ep1_def)
qed

lemma epoll_rep_set_events:
  assumes rep: "epoll_rep interest tid h ep W" and c: "h p = Some c"
    and same: "ch_fd c' = ch_fd c" "ch_index c' = ch_index c"
  shows "epoll_rep interest tid (h(p \<mapsto> c')) ep W"
proof -
  have "epoll_entry m e (h(p \<mapsto> c')) fd w" if "epoll_entry m e h fd w" for m e fd w
    using that c same by (auto simp: epoll_entry_def split: option.splits prod.splits)
  then show ?thesis using rep by (simp add: epoll_rep_def)
qed

lemma EPollPoller_is_poller:
  assumes "epoll_instance ctl wait interest"
  shows "poller (epoll_rep interest tid) (EPollPoller_updateChannel ctl tid)
    (EPollPoller_removeChannel ctl tid) True True"
  by unfold_locales
    (use EPollPoller_updateChannel_ok [OF assms] EPollPoller_removeChannel_ok [OF assms]
      in \<open>blast, blast, simp add: epoll_rep_set_events\<close>)

sublocale epoll_instance \<subseteq> ep: poller "epoll_rep interest tid" "EPollPoller_updateChannel ctl tid"
    "EPollPoller_removeChannel ctl tid" True True for tid
  by (rule EPollPoller_is_poller) (rule epoll_instance_axioms)

section \<open>A kernel\<close>

text \<open>The interest list itself as the kernel state: calls fail as \<open>epoll_ctl(2)\<close> documents
  (\<open>EEXIST\<close>, \<open>ENOENT\<close>), and \<open>epoll_wait\<close> reports every descriptor of \<open>ready\<close>.\<close>

definition list_ctl :: "(int \<Rightarrow> epoll_event option) epoll_ctl" where
  "list_ctl k op fd ev =
     (case op of
        EPOLL_CTL_ADD \<Rightarrow> if k fd = None then (0, k(fd \<mapsto> ev)) else (-1, k)
      | EPOLL_CTL_MOD \<Rightarrow> if k fd = None then (-1, k) else (0, k(fd \<mapsto> ev))
      | EPOLL_CTL_DEL \<Rightarrow> if k fd = None then (-1, k) else (0, k(fd := None)))"

definition list_wait :: "(int \<times> 32 word) list \<Rightarrow> (int \<Rightarrow> epoll_event option) epoll_wait" where
  "list_wait ready k maxevents timeout =
     (let evs = take (nat maxevents)
           (concat (map (\<lambda>(fd, rv). case k fd of None \<Rightarrow> [] | Some (ev, p) \<Rightarrow> [(rv, p)]) ready))
      in (int (length evs), evs))"

lemma in_list_wait:
  assumes "list_wait ready k m t = (n, evs)" and "(rv, p) \<in> set evs"
  shows "\<exists>fd ev'. k fd = Some (ev', p)"
  using assms
  by (auto simp: list_wait_def Let_def split: option.splits dest!: in_set_takeD)
    (metis prod.collapse)+

lemma list_wait_count:
  "list_wait ready k m t = (n, evs) \<Longrightarrow> 0 < n \<Longrightarrow> n \<le> m \<and> length evs = nat n"
  by (auto simp: list_wait_def Let_def)

interpretation interest_list: epoll_instance list_ctl "list_wait ready" "\<lambda>k. k"
  by unfold_locales
    (auto simp: list_ctl_def split: if_splits dest: in_list_wait list_wait_count)

section \<open>Polling\<close>

lemma EPollPoller_fill_ok:
  assumes rep: "epoll_rep interest tid h ep W"
    and evs: "\<And>ev p. (ev, p) \<in> set evs \<Longrightarrow> \<exists>fd ev'. interest (ep_kernel ep) fd = Some (ev', p)"
    and size: "length evs \<le> ep_events_size ep"
  shows "\<exists>h'. EPollPoller_fillActiveChannels (length evs) evs ep (h, active) =
      Inr (h', active @ map snd evs) \<and> epoll_rep interest tid h' ep W"
proof -
  have step: "\<exists>c fd. h p = Some c \<and> ch_fd c = fd \<and> map_find (po_channels ep) fd = Some p"
    if "epoll_rep interest tid h ep W" "interest (ep_kernel ep) fd' = Some (ev', p)" for h p fd' ev'
    using epoll_repD [OF that(1), of fd'] that(2)
    by (auto simp: epoll_entry_def split: option.splits prod.splits)
  have "\<exists>h'. foldR (EPollPoller_activate ep) (h, active) evs =
      Inr (h', active @ map snd evs) \<and> epoll_rep interest tid h' ep W"
    using rep evs
  proof (induction evs arbitrary: h active)
    case (Cons e es)
    obtain ev p where e: "e = (ev, p)" by (cases e)
    obtain c where c: "h p = Some c" "map_find (po_channels ep) (ch_fd c) = Some p"
      using step [OF Cons.prems(1)] Cons.prems(2) [of ev p] e by force
    have "epoll_rep interest tid (h(p \<mapsto> Channel_set_revents ev c)) ep W"
      by (rule epoll_rep_set_events [OF Cons.prems(1) c(1)]) (simp_all add: Channel_set_revents_def)
    moreover have "\<exists>fd ev'. interest (ep_kernel ep) fd = Some (ev', p)" if "(ev, p) \<in> set es" for ev p
      using that Cons.prems(2) [of ev p] by simp
    ultimately obtain h' where
      "foldR (EPollPoller_activate ep) (h(p \<mapsto> Channel_set_revents ev c), active @ [p]) es =
         Inr (h', (active @ [p]) @ map snd es)" "epoll_rep interest tid h' ep W"
      using Cons.IH by blast
    moreover have "EPollPoller_activate ep (h, active) e =
        Inr (h(p \<mapsto> Channel_set_revents ev c), active @ [p])"
      by (simp add: e c EPollPoller_activate_def)
    ultimately show ?case using e by simp
  qed auto
  then show ?thesis
    using size by (simp add: EPollPoller_fillActiveChannels_def)
qed

lemma int32_of_le: "0 \<le> x \<Longrightarrow> int32_of x \<le> x"
  using zmod_le_nonneg_dividend [of "x + 2 ^ 31" "2 ^ 32"] by (simp add: int32_of_def)

lemma epoll_rep_events_size:
  "epoll_rep interest tid h (ep\<lparr>ep_events_size := n\<rparr>) W = epoll_rep interest tid h ep W"
  by (simp add: epoll_rep_def)

lemma EPollPoller_poll_ok:
  assumes K: "epoll_instance ctl wait interest" and rep: "epoll_rep interest tid h ep W"
  shows "\<exists>h' ep' ready. EPollPoller_poll wait now t (h, ep, active) = Inr (now, h', ep', active @ ready) \<and>
     epoll_rep interest tid h' ep' W \<and> interest (ep_kernel ep') = interest (ep_kernel ep) \<and>
     (\<forall>p \<in> set ready. \<exists>fd ev. W fd = Some (p, ev))"
proof -
  obtain n evs where w: "wait (ep_kernel ep) (int32_of (int (ep_events_size ep))) t = (n, evs)"
    by fastforce
  show ?thesis
  proof (cases "0 < n")
    case True
    have evs: "\<exists>fd ev'. interest (ep_kernel ep) fd = Some (ev', p)" if "(rv, p) \<in> set evs" for rv p
      using epoll_instance.wait_interest [OF K w that] .
    have n: "length evs = nat n" "n \<le> int (ep_events_size ep)"
      using epoll_instance.wait_count [OF K w True] int32_of_le [of "int (ep_events_size ep)"] by auto
    then have "length evs \<le> ep_events_size ep" using True by simp
    then obtain h' where
      h': "EPollPoller_fillActiveChannels (length evs) evs ep (h, active) = Inr (h', active @ map snd evs)"
      "epoll_rep interest tid h' ep W"
      using EPollPoller_fill_ok [where active = active and evs = evs, OF rep] evs by blast
    have "\<exists>fd ev. W fd = Some (p, ev)" if "p \<in> set (map snd evs)" for p
    proof -
      obtain rv where "(rv, p) \<in> set evs"
        using \<open>p \<in> set (map snd evs)\<close> unfolding set_map image_iff by (metis prod.collapse)
      from evs [OF this] obtain fd ev' where "interest (ep_kernel ep) fd = Some (ev', p)" by auto
      then show ?thesis
        using epoll_repD [OF rep, of fd] by (auto simp: epoll_entry_def split: option.splits)
    qed
    then show ?thesis
      using w True n(1) h' by (auto simp: EPollPoller_poll_def epoll_rep_events_size)
  next
    case False
    then show ?thesis
      using w rep by (auto simp: EPollPoller_poll_def intro!: exI [of _ "[]"])
  qed
qed

section \<open>Properties\<close>

text \<open>Channels nobody has registered yet.\<close>

definition unregistered :: "'f channels \<Rightarrow> chan_table \<Rightarrow> bool" where
  "unregistered h E \<longleftrightarrow> (\<forall>p fd ev life. E p = Some (fd, ev, life) \<longrightarrow>
     life = Fresh \<and> ev = 0 \<and> (\<exists>loop. h p = Some (Channel_new loop fd)))"

lemma unregistered_stands_for: "unregistered h E \<Longrightarrow> stands_for h Map.empty E"
  unfolding unregistered_def stands_for_def by (fastforce simp: Channel_new_def)

lemma EPollPoller_new_rep:
  "EPollPoller_new tid epollfd k = Inr ep \<Longrightarrow> interest k = Map.empty \<Longrightarrow>
   epoll_rep interest tid h ep Map.empty"
  by (auto simp: EPollPoller_new_def epoll_rep_def epoll_entry_def map_wf_def split: if_splits)

text \<open>What the contract says of the kernel and of \<open>hasChannel\<close>.\<close>

lemma epoll_rep_listed:
  "epoll_rep interest tid h ep W \<Longrightarrow> interest (ep_kernel ep) fd = Some (ev, p) \<Longrightarrow> W fd = Some (p, ev)"
  using epoll_repD [where fd = fd] by (fastforce simp: epoll_entry_def split: option.splits)

lemma epoll_rep_watched:
  "epoll_rep interest tid h ep W \<Longrightarrow> W fd = Some (p, ev) \<Longrightarrow> ev \<noteq> 0 \<Longrightarrow>
   interest (ep_kernel ep) fd = Some (ev, p)"
  using epoll_repD [where fd = fd] by (fastforce simp: epoll_entry_def)

lemma epoll_rep_has:
  assumes rep: "epoll_rep interest tid h ep W" and rel: "stands_for h W R" and p: "R p = Some (fd, ev, life)"
  shows "Poller_hasChannel tid h ep p = Inr (life = Registered) \<and> (\<exists>c. h p = Some c \<and> ch_events c = ev)"
proof -
  obtain c where c: "h p = Some c" "ch_fd c = fd" "ch_events c = ev"
    using stands_forD [OF rel p] .
  have "map_find (po_channels ep) fd = Some p \<longleftrightarrow> (\<exists>ev. W fd = Some (p, ev))"
    using epoll_repD [OF rep, of fd] by (auto simp: epoll_entry_def split: option.splits)
  also have "\<dots> \<longleftrightarrow> life = Registered" using stands_for_watch [OF rel] p by auto
  finally show ?thesis
    using c rep by (simp add: Poller_hasChannel_def Poller_assertInLoopThread_def epoll_rep_def)
qed

text \<open>
  C9: after any sequence of operations on channels within the contract, the epoll instance watches
  exactly the registered channels, each for the events its channel says (a channel with no events
  may be out of it), or the process stopped because the kernel refused a registration. Polling then
  succeeds and makes only registered channels active.
\<close>

theorem EPollPoller_watches_interests:
  assumes K: "epoll_instance ctl wait interest"
    and new: "EPollPoller_new tid epollfd k = Inr ep" "interest k = Map.empty"
    and start: "unregistered h E" and script: "script_allowed True ops E"
    and run: "foldR (chan_exec (EPollPoller_updateChannel ctl tid) (EPollPoller_removeChannel ctl tid))
                (h, ep) ops \<noteq> Inl Log_fatal"
  defines "R \<equiv> script_result True ops E"
  shows "\<exists>h' ep'.
    foldR (chan_exec (EPollPoller_updateChannel ctl tid) (EPollPoller_removeChannel ctl tid)) (h, ep) ops
      = Inr (h', ep') \<and>
    (\<forall>fd p ev. interest (ep_kernel ep') fd = Some (ev, p) \<longrightarrow> R p = Some (fd, ev, Registered)) \<and>
    (\<forall>fd p ev. R p = Some (fd, ev, Registered) \<and> ev \<noteq> 0 \<longrightarrow>
       interest (ep_kernel ep') fd = Some (ev, p)) \<and>
    (\<forall>p fd ev life. R p = Some (fd, ev, life) \<longrightarrow>
       Poller_hasChannel tid h' ep' p = Inr (life = Registered) \<and>
       (\<exists>c. h' p = Some c \<and> ch_events c = ev)) \<and>
    (\<forall>now t. \<exists>h'' ep'' ready. EPollPoller_poll wait now t (h', ep', []) = Inr (now, h'', ep'', ready) \<and>
       (\<forall>p \<in> set ready. \<exists>fd ev. R p = Some (fd, ev, Registered)))"
proof -
  obtain h' ep' W where r: "foldR (chan_exec (EPollPoller_updateChannel ctl tid)
        (EPollPoller_removeChannel ctl tid)) (h, ep) ops = Inr (h', ep')"
      and rep: "epoll_rep interest tid h' ep' W" and rel: "stands_for h' W R"
    using poller.script_refines [OF EPollPoller_is_poller [OF K] EPollPoller_new_rep [where interest = interest, OF new]
        unregistered_stands_for [OF start] script] run unfolding R_def by blast
  note W = stands_for_watch [OF rel]
  note listed = epoll_rep_listed [OF rep] and watched = epoll_rep_watched [OF rep]
    and has = epoll_rep_has [OF rep rel]
  have poll: "\<exists>h'' ep'' ready. EPollPoller_poll wait now t (h', ep', []) = Inr (now, h'', ep'', ready) \<and>
       (\<forall>p \<in> set ready. \<exists>fd ev. R p = Some (fd, ev, Registered))" for now t
    using EPollPoller_poll_ok [where active = "[]" and now = now and t = t, OF K rep] W by auto
  show ?thesis
    by (rule exI [of _ h'], rule exI [of _ ep'])
      (use r poll W in \<open>blast dest: listed watched has\<close>)
qed

lemmas epoll_eval = EPollPoller_updateChannel_def EPollPoller_removeChannel_def EPollPoller_update_def
  Poller_assertInLoopThread_def Channel_enableReading_def Channel_enableWriting_def
  Channel_disableAll_def Channel_remove_def Channel_update_def Channel_isNoneEvent_def
  Channel_set_index_def Channel_new_def ep_index list_ctl_def map_find_def

lemma EPollPoller_watches_interests_witness:
  "\<exists>h' ep'. foldR (chan_exec (EPollPoller_updateChannel list_ctl 9) (EPollPoller_removeChannel list_ctl 9))
      ([1 \<mapsto> Channel_new 0 5, 2 \<mapsto> Channel_new 0 6],
       \<lparr>po_channels = [], po_owner = 9, ep_kernel = Map.empty, ep_events_size = 16\<rparr>)
      [Enable_reading 1, Enable_reading 2, Enable_writing 1, Disable_all 2, Remove 2, Enable_writing 2]
      = Inr (h', ep') \<and>
    ep_kernel ep' 5 = Some (kReadEvent OR kWriteEvent, 1) \<and> ep_kernel ep' 6 = Some (kWriteEvent, 2)"
proof -
  define h :: "'a channels" where "h = [1 \<mapsto> Channel_new 0 5, 2 \<mapsto> Channel_new 0 6]"
  define ep :: "(int \<Rightarrow> epoll_event option) epoll_poller" where
    "ep = \<lparr>po_channels = [], po_owner = 9, ep_kernel = Map.empty, ep_events_size = 16\<rparr>"
  define E :: chan_table where "E = [1 \<mapsto> (5, 0, Fresh), 2 \<mapsto> (6, 0, Fresh)]"
  define ops where
    "ops = [Enable_reading 1, Enable_reading 2, Enable_writing 1, Disable_all 2, Remove 2, Enable_writing 2]"
  have new: "EPollPoller_new 9 3 Map.empty = Inr ep"
    by (simp add: EPollPoller_new_def ep_def kInitEventListSize_def)
  have start: "unregistered h E"
    by (auto simp: unregistered_def h_def E_def split: if_splits)
  have script: "script_allowed True ops E"
    by (simp add: ops_def E_def op_allowed_def op_result_def is_Remove_def fd_free_def)
  have final: "script_result True ops E 1 = Some (5, kReadEvent OR kWriteEvent, Registered)"
    "script_result True ops E 2 = Some (6, kWriteEvent, Registered)"
    by (simp_all add: script_result_def ops_def E_def op_result_def is_Remove_def)
  have run: "foldR (chan_exec (EPollPoller_updateChannel list_ctl 9) (EPollPoller_removeChannel list_ctl 9))
      (h, ep) ops \<noteq> Inl Log_fatal"
    by (simp add: ops_def h_def ep_def epoll_eval)
  obtain h' ep' where "foldR (chan_exec (EPollPoller_updateChannel list_ctl 9)
        (EPollPoller_removeChannel list_ctl 9)) (h, ep) ops = Inr (h', ep')"
    and "\<forall>fd p ev. script_result True ops E p = Some (fd, ev, Registered) \<and> ev \<noteq> 0 \<longrightarrow>
       ep_kernel ep' fd = Some (ev, p)"
    using EPollPoller_watches_interests [OF interest_list.epoll_instance_axioms [of "[]"] new refl start
        script run] by blast
  then show ?thesis
    using final unfolding h_def ep_def ops_def
    by (intro exI [of _ h'] exI [of _ ep']) (simp del: chan_exec.simps foldR.simps)
qed

end
