(* ===== verification/Poll_Poller.thy ===== *)
theory Poll_Poller
  imports EPoll_Poller
begin

text \<open>
  \<open>src/muduo/net/PollPoller.h\<close> and \<open>PollPoller.cpp\<close>: the poller on \<open>poll(2)\<close>, chosen by the
  environment variable \<open>MUDUO_USE_POLL\<close> (\<open>DefaultPoller.cpp\<close>).

  The array handed to the system call is part of the state; a channel's index is its position in
  it. The system call is the parameter \<open>sys_poll\<close>, which returns the array with the member
  \<open>revents\<close> written. Positions and sizes stay below \<open>2 ^ 31\<close>, the number of descriptors.
\<close>

section \<open>The poller\<close>

record pollfd =
  pfd_fd :: int
  pfd_events :: "16 word"
  pfd_revents :: "16 word"

record poll_poller = poller_base +
  pp_pollfds :: "pollfd list"

type_synonym sys_poll = "pollfd list \<Rightarrow> int \<Rightarrow> int \<times> pollfd list"

definition PollPoller_new :: "int \<Rightarrow> poll_poller" where
  "PollPoller_new tid = \<lparr>po_channels = [], po_owner = tid, pp_pollfds = []\<rparr>"

definition PollPoller_updateChannel :: "int \<Rightarrow> nat \<Rightarrow> ('f, poll_poller) chan_step" where
  "PollPoller_updateChannel tid p s = (case s of (h, pp) \<Rightarrow>
     Poller_assertInLoopThread tid pp (deref h p (\<lambda>c.
     let m = po_channels pp; fd = ch_fd c in
     if ch_index c < 0 then
       cassert (map_find m fd = None) (
       let pfd = \<lparr>pfd_fd = fd, pfd_events = ucast (ch_events c), pfd_revents = 0\<rparr>;
           fds = pp_pollfds pp @ [pfd];
           idx = int (length fds) - 1
       in Inr (h(p \<mapsto> Channel_set_index idx c),
               pp\<lparr>pp_pollfds := fds, po_channels := map_put (pfd_fd pfd) p m\<rparr>))
     else
       cassert (map_find m fd \<noteq> None) (
       cassert (map_find m fd = Some p) (
       let idx = ch_index c in
       cassert (0 \<le> idx \<and> idx < int (length (pp_pollfds pp))) (
       let pfd = pp_pollfds pp ! nat idx in
       cassert (pfd_fd pfd = fd \<or> pfd_fd pfd = - fd - 1) (
       let pfd1 = \<lparr>pfd_fd = fd, pfd_events = ucast (ch_events c), pfd_revents = 0\<rparr>;
           pfd2 = if Channel_isNoneEvent c then pfd1\<lparr>pfd_fd := - fd - 1\<rparr> else pfd1
       in Inr (h, pp\<lparr>pp_pollfds := (pp_pollfds pp)[nat idx := pfd2]\<rparr>))))))))"

text \<open>\<open>iter_swap\<close> of a position with the last one.\<close>

definition swap_with_last :: "nat \<Rightarrow> 'a list \<Rightarrow> 'a list" where
  "swap_with_last i xs = xs[i := last xs, length xs - 1 := xs ! i]"

definition PollPoller_removeChannel :: "int \<Rightarrow> nat \<Rightarrow> ('f, poll_poller) chan_step" where
  "PollPoller_removeChannel tid p s = (case s of (h, pp) \<Rightarrow>
     Poller_assertInLoopThread tid pp (deref h p (\<lambda>c.
     let m = po_channels pp; fd = ch_fd c; idx = ch_index c; fds = pp_pollfds pp in
     cassert (map_find m fd \<noteq> None) (
     cassert (map_find m fd = Some p) (
     cassert (Channel_isNoneEvent c) (
     cassert (0 \<le> idx \<and> idx < int (length fds)) (
     let pfd = fds ! nat idx in
     cassert (pfd_fd pfd = - fd - 1 \<and> (scast (pfd_events pfd) :: 32 word) = ch_events c) (
     let m1 = map_erase fd m in
     if nat idx = length fds - 1 then
       Inr (h, pp\<lparr>po_channels := m1, pp_pollfds := butlast fds\<rparr>)
     else
       let channelAtEnd = pfd_fd (last fds);
           fds1 = swap_with_last (nat idx) fds;
           channelAtEnd = (if channelAtEnd < 0 then - channelAtEnd - 1 else channelAtEnd)
       in case map_find m1 channelAtEnd of
            None \<Rightarrow> Inl Undefined_behaviour
          | Some q \<Rightarrow> deref h q (\<lambda>d.
              Inr (h(q \<mapsto> Channel_set_index idx d),
                   pp\<lparr>po_channels := m1, pp_pollfds := butlast fds1\<rparr>))))))))))"

text \<open>The loop of \<open>fillActiveChannels\<close>: \<open>revents\<close> is a signed \<open>short\<close>.\<close>

fun PollPoller_fill ::
  "(int \<times> nat) list \<Rightarrow> int \<Rightarrow> pollfd list \<Rightarrow> 'f channels \<times> nat list \<Rightarrow>
   ('f channels \<times> nat list) result" where
  "PollPoller_fill m numEvents [] s = Inr s"
| "PollPoller_fill m numEvents (pfd # pfds) s =
     (if \<not> 0 < numEvents then Inr s
      else if sint (pfd_revents pfd) \<le> 0 then PollPoller_fill m numEvents pfds s
      else case map_find m (pfd_fd pfd) of
          None \<Rightarrow> Inl Assert_failed
        | Some p \<Rightarrow> deref (fst s) p (\<lambda>c.
            cassert (ch_fd c = pfd_fd pfd)
              (PollPoller_fill m (numEvents - 1) pfds
                 ((fst s)(p \<mapsto> Channel_set_revents (scast (pfd_revents pfd)) c), snd s @ [p]))))"

definition PollPoller_poll ::
  "sys_poll \<Rightarrow> int \<Rightarrow> int \<Rightarrow> 'f channels \<times> poll_poller \<times> nat list \<Rightarrow>
   (int \<times> 'f channels \<times> poll_poller \<times> nat list) result" where
  "PollPoller_poll sys_poll now timeoutMs s = (case s of (h, pp, active) \<Rightarrow>
     let (numEvents, fds) = sys_poll (pp_pollfds pp) timeoutMs;
         pp1 = pp\<lparr>pp_pollfds := fds\<rparr>
     in if 0 < numEvents then
          andThen (PollPoller_fill (po_channels pp1) numEvents fds (h, active)) (\<lambda>(h', active').
          Inr (now, h', pp1, active'))
        else Inr (now, h, pp1, active))"

text \<open>\<open>Poller::newDefaultPoller\<close>: \<open>use_poll\<close> is whether \<open>MUDUO_USE_POLL\<close> is set.\<close>

datatype 'k default_poller = Default_poll poll_poller | Default_epoll "'k epoll_poller"

definition Poller_newDefaultPoller :: "bool \<Rightarrow> int \<Rightarrow> int \<Rightarrow> 'k \<Rightarrow> 'k default_poller result" where
  "Poller_newDefaultPoller use_poll tid epollfd k =
     (if use_poll then Inr (Default_poll (PollPoller_new tid))
      else andThen (EPollPoller_new tid epollfd k) (\<lambda>ep. Inr (Default_epoll ep)))"

section \<open>The watch table\<close>

text \<open>The array slot of a registered channel: with no events left, the descriptor is stored as
  \<open>-fd - 1\<close>, which \<open>poll(2)\<close> skips, also when it is 0.\<close>

definition poll_slot :: "pollfd \<Rightarrow> int \<Rightarrow> 32 word \<Rightarrow> bool" where
  "poll_slot pf fd ev \<longleftrightarrow> 0 \<le> fd \<and> pfd_events pf = ucast ev \<and>
     pfd_fd pf = (if ev = 0 then - fd - 1 else fd)"

definition poll_rep :: "int \<Rightarrow> 'f channels \<Rightarrow> poll_poller \<Rightarrow> watch \<Rightarrow> bool" where
  "poll_rep tid h pp W \<longleftrightarrow>
     po_owner pp = tid \<and> map_wf (po_channels pp) \<and>
     (\<forall>fd. map_find (po_channels pp) fd = map_option fst (W fd)) \<and>
     (\<forall>fd p ev. W fd = Some (p, ev) \<longrightarrow>
        (\<exists>c i. h p = Some c \<and> ch_fd c = fd \<and> ch_index c = int i \<and> i < length (pp_pollfds pp) \<and>
           poll_slot (pp_pollfds pp ! i) fd ev)) \<and>
     (\<forall>i < length (pp_pollfds pp). \<exists>fd p ev c.
        W fd = Some (p, ev) \<and> h p = Some c \<and> ch_index c = int i)"

lemma poll_slot_unique: "poll_slot pf fd ev \<Longrightarrow> poll_slot pf fd' ev' \<Longrightarrow> fd = fd'"
  by (auto simp: poll_slot_def split: if_splits)

lemma poll_rep_find:
  "poll_rep tid h pp W \<Longrightarrow> map_find (po_channels pp) fd = map_option fst (W fd)"
  by (simp add: poll_rep_def)

lemma poll_repD:
  assumes "poll_rep tid h pp W" and "W fd = Some (p, ev)"
  obtains c i where "h p = Some c" "ch_fd c = fd" "ch_index c = int i" "i < length (pp_pollfds pp)"
    "poll_slot (pp_pollfds pp ! i) fd ev"
  using assms unfolding poll_rep_def by blast

lemma poll_rep_slotE:
  assumes "poll_rep tid h pp W" and "i < length (pp_pollfds pp)"
  obtains fd p ev c where "W fd = Some (p, ev)" "h p = Some c" "ch_fd c = fd" "ch_index c = int i"
    "poll_slot (pp_pollfds pp ! i) fd ev"
proof -
  obtain fd p ev c where w: "W fd = Some (p, ev)" "h p = Some c" "ch_index c = int i"
    using assms unfolding poll_rep_def by blast
  obtain d j where "h p = Some d" "ch_fd d = fd" "ch_index d = int j"
    "poll_slot (pp_pollfds pp ! j) fd ev"
    using poll_repD [OF assms(1) w(1)] .
  with w have "ch_fd c = fd" "poll_slot (pp_pollfds pp ! i) fd ev" by simp_all
  then show ?thesis using that [OF w(1,2) _ w(3)] by simp
qed

text \<open>Two registered channels with one index are the same.\<close>

lemma poll_rep_index_inj:
  assumes "poll_rep tid h pp W" and "W fd = Some (p, ev)" "W fd' = Some (p', ev')"
    and "h p = Some c" "h p' = Some c'" "ch_index c = ch_index c'"
  shows "fd = fd' \<and> p = p'"
proof -
  obtain d i where 1: "h p = Some d" "ch_index d = int i"
    and slot: "poll_slot (pp_pollfds pp ! i) fd ev"
    using poll_repD [OF assms(1,2)] .
  obtain d' j where 2: "h p' = Some d'" "ch_index d' = int j"
    and slot': "poll_slot (pp_pollfds pp ! j) fd' ev'"
    using poll_repD [OF assms(1,3)] .
  have "i = j" using 1 2 assms(4-6) by simp
  then have "fd = fd'" using poll_slot_unique [OF slot] slot' by blast
  then show ?thesis using assms(2,3) by simp
qed

lemma poll_repI:
  assumes "po_owner pp = tid" "map_wf (po_channels pp)"
    and "\<And>fd. map_find (po_channels pp) fd = map_option fst (W fd)"
    and "\<And>fd p ev. W fd = Some (p, ev) \<Longrightarrow>
        \<exists>c i. h p = Some c \<and> ch_fd c = fd \<and> ch_index c = int i \<and> i < length (pp_pollfds pp) \<and>
           poll_slot (pp_pollfds pp ! i) fd ev"
    and "\<And>i. i < length (pp_pollfds pp) \<Longrightarrow>
        \<exists>fd p ev c. W fd = Some (p, ev) \<and> h p = Some c \<and> ch_index c = int i"
  shows "poll_rep tid h pp W"
  using assms unfolding poll_rep_def by blast

lemma poll_rep_set_events:
  assumes rep: "poll_rep tid h pp W" and c: "h p = Some c"
    and same: "ch_fd c' = ch_fd c" "ch_index c' = ch_index c"
  shows "poll_rep tid (h(p \<mapsto> c')) pp W"
proof (rule poll_repI)
  show "\<exists>d i. (h(p \<mapsto> c')) q = Some d \<and> ch_fd d = fd \<and> ch_index d = int i \<and>
      i < length (pp_pollfds pp) \<and> poll_slot (pp_pollfds pp ! i) fd ev"
    if w: "W fd = Some (q, ev)" for fd q ev
  proof -
    obtain d i where "h q = Some d" "ch_fd d = fd" "ch_index d = int i"
      "i < length (pp_pollfds pp)" "poll_slot (pp_pollfds pp ! i) fd ev"
      using poll_repD [OF rep w] .
    then show ?thesis using c same by (cases "q = p") auto
  qed
  show "\<exists>fd q ev d. W fd = Some (q, ev) \<and> (h(p \<mapsto> c')) q = Some d \<and> ch_index d = int i"
    if i: "i < length (pp_pollfds pp)" for i
  proof -
    obtain fd q ev d where "W fd = Some (q, ev)" "h q = Some d" "ch_index d = int i"
      using poll_rep_slotE [OF rep i] .
    then show ?thesis using c same by (intro exI [of _ fd] exI [of _ q]) auto
  qed
qed (use rep in \<open>auto simp: poll_rep_def\<close>)

text \<open>Rewriting the slot of a registered channel.\<close>

lemma poll_rep_replace_slot:
  assumes rep: "poll_rep tid h pp W" and W: "W fd = Some (p, ev)" and c: "h p = Some c"
    and idx: "ch_index c = int i" and i: "i < length (pp_pollfds pp)"
    and slot: "poll_slot pfd fd ev'"
  shows "poll_rep tid h (pp\<lparr>pp_pollfds := (pp_pollfds pp)[i := pfd]\<rparr>) (W(fd \<mapsto> (p, ev')))"
proof (rule poll_repI)
  fix fd' q e assume q: "(W(fd \<mapsto> (p, ev'))) fd' = Some (q, e)"
  have "\<exists>ev. W fd' = Some (q, ev)" using q W by (auto split: if_splits)
  then obtain ev0 where w: "W fd' = Some (q, ev0)" by blast
  obtain d j where d: "h q = Some d" "ch_fd d = fd'" "ch_index d = int j"
    "j < length (pp_pollfds pp)" "poll_slot (pp_pollfds pp ! j) fd' ev0"
    using poll_repD [OF rep w] .
  have "fd' = fd \<longleftrightarrow> j = i"
    using poll_rep_index_inj [OF rep w W d(1) c] d(1,3) c idx w W by auto
  then show "\<exists>d j. h q = Some d \<and> ch_fd d = fd' \<and> ch_index d = int j \<and>
      j < length (pp_pollfds (pp\<lparr>pp_pollfds := (pp_pollfds pp)[i := pfd]\<rparr>)) \<and>
      poll_slot (pp_pollfds (pp\<lparr>pp_pollfds := (pp_pollfds pp)[i := pfd]\<rparr>) ! j) fd' e"
    using d q w slot i by (intro exI [of _ d] exI [of _ j]) (auto split: if_splits)
next
  fix j assume "j < length (pp_pollfds (pp\<lparr>pp_pollfds := (pp_pollfds pp)[i := pfd]\<rparr>))"
  then have j: "j < length (pp_pollfds pp)" by simp
  obtain fd' q e d where "W fd' = Some (q, e)" "h q = Some d" "ch_index d = int j"
    using poll_rep_slotE [OF rep j] .
  then show "\<exists>fd' q e d. (W(fd \<mapsto> (p, ev'))) fd' = Some (q, e) \<and> h q = Some d \<and> ch_index d = int j"
    using W by (cases "fd' = fd") (auto intro!: exI [of _ fd'])
qed (use rep W in \<open>auto simp: poll_rep_def\<close>)

lemma PollPoller_updateChannel_ok:
  assumes rep: "poll_rep tid h pp W" and c: "h p = Some c" and may: "may_update W p c"
  shows "\<exists>h' pp'. PollPoller_updateChannel tid p (h, pp) = Inr (h', pp') \<and>
       poll_rep tid h' pp' (W(ch_fd c \<mapsto> (p, ch_events c))) \<and> index_only W p h h'"
proof -
  have owner: "po_owner pp = tid" and wf: "map_wf (po_channels pp)" and fd: "0 \<le> ch_fd c"
    using rep may by (auto simp: poll_rep_def may_update_def)
  note find = poll_rep_find [OF rep]
  note unfold = PollPoller_updateChannel_def Poller_assertInLoopThread_def Let_def
  show ?thesis
  proof (cases "W (ch_fd c)")
    case None
    define fds where "fds = pp_pollfds pp"
    define pfd where "pfd = \<lparr>pfd_fd = ch_fd c, pfd_events = ucast (ch_events c), pfd_revents = 0\<rparr>"
    define h1 where "h1 = h(p \<mapsto> Channel_set_index (int (length fds)) c)"
    define pp1 where "pp1 = pp\<lparr>pp_pollfds := fds @ [pfd],
        po_channels := map_put (ch_fd c) p (po_channels pp)\<rparr>"
    have idx: "ch_index c = -1" and ev: "ch_events c \<noteq> 0"
      using may None by (auto simp: may_update_def)
    have run: "PollPoller_updateChannel tid p (h, pp) = Inr (h1, pp1)"
      using c owner idx None by (simp add: unfold find h1_def pp1_def pfd_def fds_def)
    have keep: "h1 q = h q" if w: "W fd = Some (q, e)" for fd q e
    proof -
      obtain d i where "h q = Some d" "ch_index d = int i"
        using poll_repD [OF rep w] .
      then have "q \<noteq> p" using c idx by auto
      then show ?thesis by (simp add: h1_def)
    qed
    have slot: "poll_slot pfd (ch_fd c) (ch_events c)"
      using fd ev by (simp add: poll_slot_def pfd_def)
    have "poll_rep tid h1 pp1 (W(ch_fd c \<mapsto> (p, ch_events c)))"
    proof (rule poll_repI)
      fix fd q e assume q: "(W(ch_fd c \<mapsto> (p, ch_events c))) fd = Some (q, e)"
      show "\<exists>d i. h1 q = Some d \<and> ch_fd d = fd \<and> ch_index d = int i \<and>
          i < length (pp_pollfds pp1) \<and> poll_slot (pp_pollfds pp1 ! i) fd e"
      proof (cases "fd = ch_fd c")
        case True
        then have "q = p" "e = ch_events c" using q by auto
        moreover have "h1 p = Some (Channel_set_index (int (length fds)) c)" by (simp add: h1_def)
        ultimately show ?thesis
          using True slot
          by (intro exI [of _ "Channel_set_index (int (length fds)) c"] exI [of _ "length fds"])
            (simp add: pp1_def Channel_set_index_def)
      next
        case False
        then have w: "W fd = Some (q, e)" using q by simp
        obtain d i where "h q = Some d" "ch_fd d = fd" "ch_index d = int i" "i < length fds"
          "poll_slot (fds ! i) fd e"
          using poll_repD [OF rep w] unfolding fds_def .
        then show ?thesis
          using keep [OF w] by (intro exI [of _ d] exI [of _ i]) (simp add: pp1_def nth_append)
      qed
    next
      fix i assume i: "i < length (pp_pollfds pp1)"
      show "\<exists>fd q e d. (W(ch_fd c \<mapsto> (p, ch_events c))) fd = Some (q, e) \<and> h1 q = Some d \<and>
          ch_index d = int i"
      proof (cases "i < length fds")
        case True
        then obtain fd q e d where w: "W fd = Some (q, e)" "h q = Some d" "ch_index d = int i"
          using poll_rep_slotE [OF rep] unfolding fds_def by metis
        moreover have "fd \<noteq> ch_fd c" using w None by auto
        ultimately show ?thesis
          using keep [OF w(1)] by (intro exI [of _ fd] exI [of _ q]) simp
      next
        case False
        then have "i = length fds" using i by (simp add: pp1_def)
        then show ?thesis
          by (intro exI [of _ "ch_fd c"] exI [of _ p]) (simp add: h1_def Channel_set_index_def)
      qed
    qed (use owner wf find in \<open>auto simp: pp1_def\<close>)
    moreover have "index_only W p h h1"
      using index_onlyI(1) [where h = h and p = p, OF c] by (simp add: h1_def Channel_set_index_def)
    ultimately show ?thesis using run by blast
  next
    case (Some w)
    then obtain ev where W: "W (ch_fd c) = Some (p, ev)"
      using may by (auto simp: may_update_def split: prod.splits)
    obtain d i where d: "h p = Some d" "ch_index d = int i" and i: "i < length (pp_pollfds pp)"
      and slot: "poll_slot (pp_pollfds pp ! i) (ch_fd c) ev"
      using poll_repD [OF rep W] .
    have idx: "ch_index c = int i" using c d by simp
    define pfd where "pfd = \<lparr>pfd_fd = (if ch_events c = 0 then - ch_fd c - 1 else ch_fd c),
        pfd_events = ucast (ch_events c), pfd_revents = 0\<rparr>"
    define pp1 where "pp1 = pp\<lparr>pp_pollfds := (pp_pollfds pp)[i := pfd]\<rparr>"
    have run: "PollPoller_updateChannel tid p (h, pp) = Inr (h, pp1)"
      using c owner idx W i slot
      by (simp add: unfold find pp1_def pfd_def Channel_isNoneEvent_def poll_slot_def)
    have "poll_slot pfd (ch_fd c) (ch_events c)"
      using fd by (simp add: poll_slot_def pfd_def)
    then have "poll_rep tid h pp1 (W(ch_fd c \<mapsto> (p, ch_events c)))"
      unfolding pp1_def by (rule poll_rep_replace_slot [OF rep W c idx i])
    then show ?thesis
      using run index_onlyI(2) [where h = h and p = p, OF c] by blast
  qed
qed

text \<open>Removing: the last slot moves into the hole.\<close>

lemma length_swap_with_last [simp]: "length (swap_with_last i xs) = length xs"
  by (simp add: swap_with_last_def)

lemma nth_butlast_swap:
  assumes "i < length xs - 1" and "j < length xs - 1"
  shows "butlast (swap_with_last i xs) ! j = (if j = i then last xs else xs ! j)"
  using assms by (auto simp: nth_butlast swap_with_last_def)

text \<open>The state after a removal, described by what became of the other channels: channel \<open>q\<close> now
  has the slot of \<open>p\<close>, every other one keeps its slot, and the last slot is gone.\<close>

lemma poll_rep_removed:
  assumes rep: "poll_rep tid h pp W" and W: "W fd = Some (p, ev)" and c: "h p = Some c"
    and idx: "ch_index c = int i"
    and owner: "po_owner pp' = tid" and m: "po_channels pp' = map_erase fd (po_channels pp)"
    and len: "length (pp_pollfds pp') = length (pp_pollfds pp) - 1"
    and moved: "\<And>fd' q e d j. W fd' = Some (q, e) \<Longrightarrow> q \<noteq> p \<Longrightarrow> h q = Some d \<Longrightarrow> ch_index d = int j \<Longrightarrow>
        j < length (pp_pollfds pp) \<Longrightarrow>
        (let j' = if j = length (pp_pollfds pp) - 1 then i else j in
         j' < length (pp_pollfds pp') \<and> h' q = Some (d\<lparr>ch_index := int j'\<rparr>) \<and>
         pp_pollfds pp' ! j' = pp_pollfds pp ! j)"
  shows "poll_rep tid h' pp' (W(fd := None))"
proof (rule poll_repI)
  have wf: "map_wf (po_channels pp)" using rep by (simp add: poll_rep_def)
  then show "map_wf (po_channels pp')" by (simp add: m)
  show "map_find (po_channels pp') fd' = map_option fst ((W(fd := None)) fd')" for fd'
    using wf by (simp add: m poll_rep_find [OF rep])
  fix fd' q e assume "(W(fd := None)) fd' = Some (q, e)"
  then have q: "W fd' = Some (q, e)" "fd' \<noteq> fd" by (auto split: if_splits)
  obtain d j where d: "h q = Some d" "ch_fd d = fd'" "ch_index d = int j"
    "j < length (pp_pollfds pp)" "poll_slot (pp_pollfds pp ! j) fd' e"
    using poll_repD [OF rep q(1)] .
  have "q \<noteq> p" using poll_rep_index_inj [OF rep q(1) W d(1) c] q(2) d(1) c by auto
  then show "\<exists>d j. h' q = Some d \<and> ch_fd d = fd' \<and> ch_index d = int j \<and>
      j < length (pp_pollfds pp') \<and> poll_slot (pp_pollfds pp' ! j) fd' e"
    using moved [OF q(1) _ d(1,3,4)] d by (auto simp: Let_def split: if_splits)
next
  fix j assume "j < length (pp_pollfds pp')"
  then have j: "j < length (pp_pollfds pp) - 1" by (simp add: len)
  define k where "k = (if j = i then length (pp_pollfds pp) - 1 else j)"
  have k: "k < length (pp_pollfds pp)" using j by (auto simp: k_def)
  obtain fd' q e d where d: "W fd' = Some (q, e)" "h q = Some d" "ch_index d = int k"
    using poll_rep_slotE [OF rep k] .
  have "k \<noteq> i" using j by (auto simp: k_def)
  then have other: "q \<noteq> p" using d c idx by auto
  then have "fd' \<noteq> fd" using d(1) W by auto
  moreover have "\<exists>d. h' q = Some d \<and> ch_index d = int j"
    using moved [OF d(1) other d(2,3) k] j by (auto simp: Let_def k_def split: if_splits)
  ultimately show "\<exists>fd' q e d. (W(fd := None)) fd' = Some (q, e) \<and> h' q = Some d \<and> ch_index d = int j"
    using d(1) by (intro exI [of _ fd'] exI [of _ q]) auto
qed (rule owner)

lemma PollPoller_removeChannel_ok:
  assumes rep: "poll_rep tid h pp W" and c: "h p = Some c" and may: "may_remove W p c"
  shows "\<exists>h' pp'. PollPoller_removeChannel tid p (h, pp) = Inr (h', pp') \<and>
       poll_rep tid h' pp' (W(ch_fd c := None)) \<and> index_only W p h h'"
proof -
  have owner: "po_owner pp = tid" and wf: "map_wf (po_channels pp)"
    using rep by (auto simp: poll_rep_def)
  have W: "W (ch_fd c) = Some (p, 0)" and none: "ch_events c = 0" "Channel_isNoneEvent c"
    using may by (auto simp: may_remove_def Channel_isNoneEvent_def)
  define fds where "fds = pp_pollfds pp"
  obtain d i where d: "h p = Some d" "ch_index d = int i" and i: "i < length fds"
    and slot: "poll_slot (fds ! i) (ch_fd c) 0"
    using poll_repD [OF rep W] unfolding fds_def .
  have idx: "ch_index c = int i" using c d by simp
  have head: "PollPoller_removeChannel tid p (h, pp) =
     (if i = length fds - 1 then
       Inr (h, pp\<lparr>po_channels := map_erase (ch_fd c) (po_channels pp), pp_pollfds := butlast fds\<rparr>)
     else
       let channelAtEnd = pfd_fd (last fds);
           fds1 = swap_with_last i fds;
           channelAtEnd = (if channelAtEnd < 0 then - channelAtEnd - 1 else channelAtEnd)
       in case map_find (map_erase (ch_fd c) (po_channels pp)) channelAtEnd of
            None \<Rightarrow> Inl Undefined_behaviour
          | Some q \<Rightarrow> deref h q (\<lambda>d.
              Inr (h(q \<mapsto> Channel_set_index (ch_index c) d),
                   pp\<lparr>po_channels := map_erase (ch_fd c) (po_channels pp),
                      pp_pollfds := butlast fds1\<rparr>)))"
    using c owner idx none i slot
    unfolding PollPoller_removeChannel_def Poller_assertInLoopThread_def fds_def [symmetric]
    by (simp add: poll_rep_find [OF rep] W poll_slot_def Let_def fds_def [symmetric])
  show ?thesis
  proof (cases "i = length fds - 1")
    case True
    define pp1 where "pp1 = pp\<lparr>po_channels := map_erase (ch_fd c) (po_channels pp),
      pp_pollfds := butlast fds\<rparr>"
    have "poll_rep tid h pp1 (W(ch_fd c := None))"
    proof (rule poll_rep_removed [OF rep W c idx])
      fix fd' q e d j
      assume q: "W fd' = Some (q, e)" "q \<noteq> p" "h q = Some d" "ch_index d = int j"
        "j < length (pp_pollfds pp)"
      have "j \<noteq> i" using poll_rep_index_inj [OF rep q(1) W q(3) c] q(2,4) idx by auto
      then have "j < length fds - 1" using q(5) True unfolding fds_def by simp
      then show "let j' = if j = length (pp_pollfds pp) - 1 then i else j in
         j' < length (pp_pollfds pp1) \<and> h q = Some (d\<lparr>ch_index := int j'\<rparr>) \<and>
         pp_pollfds pp1 ! j' = pp_pollfds pp ! j"
        using q(3,4) by (auto simp: pp1_def fds_def nth_butlast)
    qed (use owner in \<open>simp_all add: pp1_def fds_def\<close>)
    then show ?thesis
      using head True index_onlyI(2) [where h = h and p = p, OF c] by (auto simp: pp1_def)
  next
    case False
    define l where "l = length fds - 1"
    have l_size: "length fds - Suc 0 = l" by (simp add: l_def)
    have l: "l < length fds" "i < l" "fds ! l = last fds"
      using i False last_conv_nth [of fds] unfolding l_def by (cases "fds = []"; simp)+
    obtain fdl q e dl where q: "W fdl = Some (q, e)" "h q = Some dl" "ch_fd dl = fdl"
      "ch_index dl = int l" "poll_slot (fds ! l) fdl e"
      using poll_rep_slotE [OF rep] l(1) unfolding fds_def by metis
    have "q \<noteq> p" using q(2,4) c idx l(2) by auto
    then have fdl: "fdl \<noteq> ch_fd c" using q(1) W by auto
    have at_end: "(if pfd_fd (last fds) < 0 then - pfd_fd (last fds) - 1 else pfd_fd (last fds)) = fdl"
      using q(5) l(3) by (auto simp: poll_slot_def split: if_splits)
    define h1 where "h1 = h(q \<mapsto> Channel_set_index (int i) dl)"
    define pp1 where "pp1 = pp\<lparr>po_channels := map_erase (ch_fd c) (po_channels pp),
      pp_pollfds := butlast (swap_with_last i fds)\<rparr>"
    have "map_find (map_erase (ch_fd c) (po_channels pp)) fdl = Some q"
      using wf q(1) fdl by (simp add: poll_rep_find [OF rep])
    then have run: "PollPoller_removeChannel tid p (h, pp) = Inr (h1, pp1)"
      unfolding head Let_def at_end idx using False q(2) by (simp add: h1_def pp1_def)
    have "poll_rep tid h1 pp1 (W(ch_fd c := None))"
    proof (rule poll_rep_removed [OF rep W c idx])
      fix fd' r e' d j
      assume r: "W fd' = Some (r, e')" "r \<noteq> p" "h r = Some d" "ch_index d = int j"
        "j < length (pp_pollfds pp)"
      have ji: "j \<noteq> i" using poll_rep_index_inj [OF rep r(1) W r(3) c] r(2,4) idx by auto
      have jl: "j = l \<longleftrightarrow> r = q"
        using poll_rep_index_inj [OF rep r(1) q(1) r(3) q(2)] r(3,4) q(2,4) by auto
      show "let j' = if j = length (pp_pollfds pp) - 1 then i else j in
         j' < length (pp_pollfds pp1) \<and> h1 r = Some (d\<lparr>ch_index := int j'\<rparr>) \<and>
         pp_pollfds pp1 ! j' = pp_pollfds pp ! j"
      proof (cases "j = l")
        case True
        then have "dl = d" "r = q" using jl r(3) q(2) by auto
        moreover have "butlast (swap_with_last i fds) ! i = fds ! l"
          using nth_butlast_swap [of i fds i] l by (simp add: l_def)
        ultimately show ?thesis
          using True l
          by (simp add: pp1_def h1_def l_size fds_def [symmetric] Channel_set_index_def)
      next
        case False
        then have "j < l" using r(5) by (simp add: l_def fds_def)
        then have "butlast (swap_with_last i fds) ! j = fds ! j"
          using nth_butlast_swap [of i fds j] l ji by (simp add: l_def)
        moreover have "h1 r = Some (d\<lparr>ch_index := int j\<rparr>)"
          using False jl r(3,4) by (simp add: h1_def)
        ultimately show ?thesis
          using False \<open>j < l\<close> by (simp add: pp1_def l_size fds_def [symmetric])
      qed
    qed (use owner in \<open>simp_all add: pp1_def fds_def\<close>)
    moreover have "index_only W p h h1"
      using index_only_registered [where h = h and W = W, OF q(2)] q(1,3)
      by (simp add: h1_def Channel_set_index_def)
    ultimately show ?thesis using run by blast
  qed
qed

interpretation pp: poller "poll_rep tid" "PollPoller_updateChannel tid" "PollPoller_removeChannel tid"
    False False for tid
  by unfold_locales
    (use PollPoller_updateChannel_ok PollPoller_removeChannel_ok
      in \<open>blast, blast, simp add: poll_rep_set_events\<close>)

section \<open>Polling\<close>

text \<open>What \<open>poll(2)\<close> documents: it writes \<open>revents\<close> only, and 0 for a negative descriptor; it returns the
  number of slots whose \<open>revents\<close> are not 0, or -1.\<close>

definition poll_law :: "sys_poll \<Rightarrow> bool" where
  "poll_law sys_poll \<longleftrightarrow> (\<forall>fds t n fds'. sys_poll fds t = (n, fds') \<longrightarrow>
     map (\<lambda>x. (pfd_fd x, pfd_events x)) fds' = map (\<lambda>x. (pfd_fd x, pfd_events x)) fds \<and>
     (\<forall>x \<in> set fds'. pfd_fd x < 0 \<longrightarrow> pfd_revents x = 0) \<and>
     (n = -1 \<or> n = int (length (filter (\<lambda>x. pfd_revents x \<noteq> 0) fds'))))"

text \<open>A system where the descriptor \<open>fd\<close> is in the condition \<open>cond fd\<close>: errors and hang-ups are always
  reported, the rest when asked for.\<close>

definition ready_poll :: "(int \<Rightarrow> 16 word) \<Rightarrow> sys_poll" where
  "ready_poll cond fds t =
     (let fds' = map (\<lambda>x. x\<lparr>pfd_revents := (if pfd_fd x < 0 then 0
            else cond (pfd_fd x) AND (pfd_events x OR ucast (POLLERR OR POLLHUP OR POLLNVAL)))\<rparr>) fds
      in (int (length (filter (\<lambda>x. pfd_revents x \<noteq> 0) fds')), fds'))"

lemma ready_poll_law: "poll_law (ready_poll cond)"
  by (auto simp: poll_law_def ready_poll_def Let_def)

text \<open>Every reported slot has its channel in \<open>ready\<close>.\<close>

definition slots_shown :: "(int \<Rightarrow> (nat \<times> 32 word) option) \<Rightarrow> pollfd list \<Rightarrow> nat list \<Rightarrow> bool" where
  "slots_shown W fds ready \<longleftrightarrow> (\<forall>x \<in> set fds. 0 < sint (pfd_revents x) \<longrightarrow>
     (\<exists>p ev. W (pfd_fd x) = Some (p, ev) \<and> p \<in> set ready))"

abbreviation reported_slots :: "pollfd list \<Rightarrow> int" where
  "reported_slots fds \<equiv> int (length (filter (\<lambda>x. 0 < sint (pfd_revents x)) fds))"

lemma slots_shown_simps [simp]:
  "slots_shown W [] ready"
  "\<not> 0 < sint (pfd_revents x) \<Longrightarrow> slots_shown W (x # fds) ready = slots_shown W fds ready"
  by (simp_all add: slots_shown_def)

lemma slots_shown_Cons:
  "slots_shown W fds ready \<Longrightarrow> W (pfd_fd x) = Some (p, ev) \<Longrightarrow> slots_shown W (x # fds) (p # ready)"
  by (auto simp: slots_shown_def)

lemma slots_shown_none: "reported_slots fds \<le> 0 \<Longrightarrow> slots_shown W fds ready"
  by (auto simp: slots_shown_def filter_empty_conv)

lemma PollPoller_fill_ok:
  assumes find: "\<And>fd. map_find m fd = map_option fst (W fd)"
    and "\<And>fd p ev. W fd = Some (p, ev) \<Longrightarrow> \<exists>c. h p = Some c \<and> ch_fd c = fd"
    and "\<And>x. x \<in> set fds \<Longrightarrow> 0 < sint (pfd_revents x) \<Longrightarrow> \<exists>p ev. W (pfd_fd x) = Some (p, ev) \<and> ev \<noteq> 0"
  shows "\<exists>h' ready. PollPoller_fill m n fds (h, active) = Inr (h', active @ ready) \<and>
     (\<forall>p \<in> set ready. \<exists>fd ev. W fd = Some (p, ev) \<and> ev \<noteq> 0) \<and>
     (reported_slots fds \<le> n \<longrightarrow> slots_shown W fds ready)"
  using assms(2,3)
proof (induction fds arbitrary: n h active)
  case Nil
  show ?case by (intro exI [of _ h] exI [of _ "[]"]) simp
next
  case (Cons x fds)
  consider (hit) "0 < n" "0 < sint (pfd_revents x)" | (skip) "0 < n" "\<not> 0 < sint (pfd_revents x)"
    | (stop) "\<not> 0 < n" by blast
  then show ?case
  proof cases
    case hit
    obtain p ev where W: "W (pfd_fd x) = Some (p, ev)" "ev \<noteq> 0"
      using Cons.prems(2) [OF list.set_intros(1) hit(2)] by blast
    obtain c where c: "h p = Some c" "ch_fd c = pfd_fd x"
      using Cons.prems(1) [OF W(1)] by blast
    define h1 where "h1 = h(p \<mapsto> Channel_set_revents (scast (pfd_revents x)) c)"
    have at: "\<exists>c. h1 q = Some c \<and> ch_fd c = fd" if "W fd = Some (q, e)" for fd q e
      using Cons.prems(1) [OF that] c by (cases "q = p") (simp_all add: h1_def Channel_set_revents_def)
    have later: "\<exists>p ev. W (pfd_fd y) = Some (p, ev) \<and> ev \<noteq> 0" if "y \<in> set fds" "0 < sint (pfd_revents y)" for y
      using Cons.prems(2) [OF list.set_intros(2) [OF that(1)] that(2)] .
    obtain h' ready where rest:
      "PollPoller_fill m (n - 1) fds (h1, active @ [p]) = Inr (h', (active @ [p]) @ ready)"
      "\<forall>p \<in> set ready. \<exists>fd ev. W fd = Some (p, ev) \<and> ev \<noteq> 0"
      "reported_slots fds \<le> n - 1 \<longrightarrow> slots_shown W fds ready"
      using Cons.IH [of h1 "n - 1" "active @ [p]"] at later by blast
    have "PollPoller_fill m n (x # fds) (h, active) = Inr (h', active @ p # ready)"
      using hit rest(1) c find [of "pfd_fd x"] W(1) by (simp add: h1_def)
    moreover have "reported_slots (x # fds) \<le> n \<longrightarrow> slots_shown W (x # fds) (p # ready)"
      using rest(3) hit(2) slots_shown_Cons [where W = W and fds = fds and ready = ready and x = x, OF _ W(1)] by simp
    moreover have "\<forall>q \<in> set (p # ready). \<exists>fd ev. W fd = Some (q, ev) \<and> ev \<noteq> 0"
      using rest(2) W by auto
    ultimately show ?thesis by blast
  next
    case skip
    have "PollPoller_fill m n (x # fds) (h, active) = PollPoller_fill m n fds (h, active)"
      using skip by simp
    moreover have "reported_slots (x # fds) = reported_slots fds"
      "slots_shown W (x # fds) = slots_shown W fds"
      using skip(2) by (simp_all add: fun_eq_iff)
    moreover have "\<exists>h' ready. PollPoller_fill m n fds (h, active) = Inr (h', active @ ready) \<and>
       (\<forall>p \<in> set ready. \<exists>fd ev. W fd = Some (p, ev) \<and> ev \<noteq> 0) \<and>
       (reported_slots fds \<le> n \<longrightarrow> slots_shown W fds ready)"
      by (rule Cons.IH) (erule Cons.prems(1), erule Cons.prems(2) [OF list.set_intros(2)])
    ultimately show ?thesis by (simp only:)
  next
    case stop
    have "PollPoller_fill m n (x # fds) (h, active) = Inr (h, active @ [])" using stop by simp
    moreover have "reported_slots (x # fds) \<le> n \<longrightarrow> slots_shown W (x # fds) []"
      using stop slots_shown_none [of "x # fds" W "[]"] by linarith
    moreover have "\<forall>p \<in> set []. \<exists>fd ev. W fd = Some (p, ev) \<and> ev \<noteq> 0" by simp
    ultimately show ?thesis by blast
  qed
qed

lemma poll_rep_watched:
  assumes rep: "poll_rep tid h pp W" and "x \<in> set (pp_pollfds pp)" and "0 \<le> pfd_fd x"
  shows "\<exists>p ev. W (pfd_fd x) = Some (p, ev) \<and> ev \<noteq> 0 \<and> pfd_events x = ucast ev"
proof -
  obtain i where i: "i < length (pp_pollfds pp)" "pp_pollfds pp ! i = x"
    using assms(2) by (auto simp: in_set_conv_nth)
  obtain fd p ev where "W fd = Some (p, ev)" "poll_slot x fd ev"
    using poll_rep_slotE [OF rep i(1)] i(2) by metis
  then show ?thesis using assms(3) by (auto simp: poll_slot_def split: if_splits)
qed

lemma poll_law_count:
  assumes "poll_law sys_poll" "sys_poll fds t = (n, fds')" "n \<noteq> -1"
  shows "reported_slots fds' \<le> n"
proof -
  have "length (filter (\<lambda>x. 0 < sint (pfd_revents x)) xs) \<le> length (filter (\<lambda>x. pfd_revents x \<noteq> 0) xs)"
    for xs :: "pollfd list"
    by (induction xs) auto
  moreover have "n = int (length (filter (\<lambda>x. pfd_revents x \<noteq> 0) fds'))"
    using assms unfolding poll_law_def by blast
  ultimately show ?thesis by simp
qed

lemma PollPoller_poll_ok:
  assumes law: "poll_law sys_poll" and rep: "poll_rep tid h pp W"
  shows "\<exists>h' pp' ready. PollPoller_poll sys_poll now t (h, pp, active) = Inr (now, h', pp', active @ ready) \<and>
     (\<forall>p \<in> set ready. \<exists>fd ev. W fd = Some (p, ev) \<and> ev \<noteq> 0) \<and>
     (fst (sys_poll (pp_pollfds pp) t) \<noteq> -1 \<longrightarrow> slots_shown W (snd (sys_poll (pp_pollfds pp) t)) ready)"
proof -
  obtain n fds where sp: "sys_poll (pp_pollfds pp) t = (n, fds)" by fastforce
  have same: "map (\<lambda>x. (pfd_fd x, pfd_events x)) fds = map (\<lambda>x. (pfd_fd x, pfd_events x)) (pp_pollfds pp)"
    and neg: "x \<in> set fds \<Longrightarrow> pfd_fd x < 0 \<Longrightarrow> pfd_revents x = 0" for x
    using law sp unfolding poll_law_def by blast+
  have there: "\<exists>p ev. W (pfd_fd x) = Some (p, ev) \<and> ev \<noteq> 0"
    if x: "x \<in> set fds" "0 < sint (pfd_revents x)" for x
  proof -
    have "0 \<le> pfd_fd x" using neg [OF x(1)] x(2) by (cases "pfd_fd x < 0") auto
    moreover obtain y where "y \<in> set (pp_pollfds pp)" "pfd_fd y = pfd_fd x"
      using x(1) arg_cong [OF same, of set] by force
    ultimately show ?thesis using poll_rep_watched [OF rep, of y] by auto
  qed
  have at: "\<exists>c. h p = Some c \<and> ch_fd c = fd" if w: "W fd = Some (p, ev)" for fd p ev
    using poll_repD [OF rep w] by blast
  obtain h' ready where fill:
    "PollPoller_fill (po_channels pp) n fds (h, active) = Inr (h', active @ ready)"
    "\<forall>p \<in> set ready. \<exists>fd ev. W fd = Some (p, ev) \<and> ev \<noteq> 0"
    "reported_slots fds \<le> n \<longrightarrow> slots_shown W fds ready"
    using PollPoller_fill_ok [of "po_channels pp" W h fds n active, OF poll_rep_find [OF rep]] at there by blast
  show ?thesis
  proof (cases "0 < n")
    case True
    then have "PollPoller_poll sys_poll now t (h, pp, active) =
        Inr (now, h', pp\<lparr>pp_pollfds := fds\<rparr>, active @ ready)"
      using fill(1) by (simp add: PollPoller_poll_def sp)
    then show ?thesis using fill(2,3) poll_law_count [OF law sp] by (simp add: sp)
  next
    case False
    then have "PollPoller_poll sys_poll now t (h, pp, active) =
        Inr (now, h, pp\<lparr>pp_pollfds := fds\<rparr>, active @ [])"
      by (simp add: PollPoller_poll_def sp)
    moreover have "n \<noteq> -1 \<longrightarrow> slots_shown W fds []"
      using False poll_law_count [OF law sp] slots_shown_none [of fds W "[]"] by linarith
    ultimately show ?thesis by (intro exI conjI) (assumption, simp, simp add: sp)
  qed
qed

section \<open>Properties\<close>

text \<open>
  C21: after any sequence of operations on channels within the contract (a removed channel is not
  used again), the slots of the array that \<open>poll(2)\<close> looks at are exactly the registered channels
  with some event, each with the events its channel says; no call stops the process. Polling, with any
  answer that \<open>poll(2)\<close> may give, then succeeds and makes only such channels active, and all those whose
  descriptor \<open>poll(2)\<close> reports when it did not fail.
\<close>

theorem PollPoller_watches_interests:
  assumes start: "unregistered h E" and script: "script_allowed False ops E"
  defines "R \<equiv> script_result False ops E"
  shows "\<exists>h' pp'.
    foldR (chan_exec (PollPoller_updateChannel tid) (PollPoller_removeChannel tid))
      (h, PollPoller_new tid) ops = Inr (h', pp') \<and>
    {(pfd_fd x, pfd_events x) | x. x \<in> set (pp_pollfds pp') \<and> 0 \<le> pfd_fd x} =
    {(fd, ucast ev) | p fd ev. R p = Some (fd, ev, Registered) \<and> ev \<noteq> 0} \<and>
    (\<forall>sys_poll now t. poll_law sys_poll \<longrightarrow>
       (\<exists>h'' pp'' ready. PollPoller_poll sys_poll now t (h', pp', []) = Inr (now, h'', pp'', ready) \<and>
          (\<forall>p \<in> set ready. \<exists>fd ev. R p = Some (fd, ev, Registered) \<and> ev \<noteq> 0) \<and>
          (fst (sys_poll (pp_pollfds pp') t) \<noteq> -1 \<longrightarrow>
             (\<forall>x \<in> set (snd (sys_poll (pp_pollfds pp') t)). 0 < sint (pfd_revents x) \<longrightarrow>
                (\<exists>p ev. R p = Some (pfd_fd x, ev, Registered) \<and> p \<in> set ready)))))"
proof -
  have "poll_rep tid h (PollPoller_new tid) Map.empty"
    by (simp add: poll_rep_def PollPoller_new_def map_wf_def)
  then obtain h' pp' W where r: "foldR (chan_exec (PollPoller_updateChannel tid)
        (PollPoller_removeChannel tid)) (h, PollPoller_new tid) ops = Inr (h', pp')"
      and rep: "poll_rep tid h' pp' W" and rel: "stands_for h' W R"
    using pp.script_refines [OF _ unregistered_stands_for [OF start] script] unfolding R_def by blast
  note W = stands_for_watch [OF rel]
  have slot: "\<exists>x \<in> set (pp_pollfds pp'). pfd_fd x = fd \<and> 0 \<le> fd \<and> pfd_events x = ucast ev"
    if w: "W fd = Some (p, ev)" "ev \<noteq> 0" for fd p ev
  proof -
    obtain i where "i < length (pp_pollfds pp')" "poll_slot (pp_pollfds pp' ! i) fd ev"
      using poll_repD [OF rep w(1)] .
    then show ?thesis
      using w(2) by (intro bexI [of _ "pp_pollfds pp' ! i"]) (auto simp: poll_slot_def)
  qed
  have slots: "{(pfd_fd x, pfd_events x) | x. x \<in> set (pp_pollfds pp') \<and> 0 \<le> pfd_fd x} =
    {(fd, ucast ev) | p fd ev. R p = Some (fd, ev, Registered) \<and> ev \<noteq> 0}" (is "?A = ?B")
  proof (intro equalityI subsetI)
    fix z assume "z \<in> ?A"
    then show "z \<in> ?B" using poll_rep_watched [OF rep] W by blast
  next
    fix z assume "z \<in> ?B"
    then obtain p fd ev where z: "z = (fd, ucast ev)" "R p = Some (fd, ev, Registered)" "ev \<noteq> 0"
      by blast
    then have "W fd = Some (p, ev)" using W by blast
    from slot [OF this z(3)] show "z \<in> ?A" using z(1) by force
  qed
  have "\<exists>h'' pp'' ready. PollPoller_poll sys_poll now t (h', pp', []) = Inr (now, h'', pp'', ready) \<and>
          (\<forall>p \<in> set ready. \<exists>fd ev. R p = Some (fd, ev, Registered) \<and> ev \<noteq> 0) \<and>
          (fst (sys_poll (pp_pollfds pp') t) \<noteq> -1 \<longrightarrow>
             (\<forall>x \<in> set (snd (sys_poll (pp_pollfds pp') t)). 0 < sint (pfd_revents x) \<longrightarrow>
                (\<exists>p ev. R p = Some (pfd_fd x, ev, Registered) \<and> p \<in> set ready)))" (is "?polls sys_poll now t")
    if law: "poll_law sys_poll" for sys_poll now t
  proof -
    obtain h'' pp'' ready where run: "PollPoller_poll sys_poll now t (h', pp', []) = Inr (now, h'', pp'', [] @ ready)"
      and only: "\<forall>p \<in> set ready. \<exists>fd ev. W fd = Some (p, ev) \<and> ev \<noteq> 0"
      and shown: "fst (sys_poll (pp_pollfds pp') t) \<noteq> -1 \<longrightarrow>
        slots_shown W (snd (sys_poll (pp_pollfds pp') t)) ready"
      using PollPoller_poll_ok [where now = now and t = t and active = "[]", OF law rep] by blast
    have "\<forall>p \<in> set ready. \<exists>fd ev. R p = Some (fd, ev, Registered) \<and> ev \<noteq> 0"
      using only unfolding W by blast
    moreover have "fst (sys_poll (pp_pollfds pp') t) \<noteq> -1 \<longrightarrow>
        (\<forall>x \<in> set (snd (sys_poll (pp_pollfds pp') t)). 0 < sint (pfd_revents x) \<longrightarrow>
           (\<exists>p ev. R p = Some (pfd_fd x, ev, Registered) \<and> p \<in> set ready))"
      using shown unfolding slots_shown_def W .
    ultimately show ?thesis
      by (intro exI [of _ h''] exI [of _ pp''] exI [of _ ready] conjI) (use run in simp)
  qed
  then have polls: "\<forall>sys_poll now t. poll_law sys_poll \<longrightarrow> ?polls sys_poll now t" by blast
  show ?thesis by (intro exI, rule conjI [OF r conjI [OF slots polls]])
qed

text \<open>Three channels; one is removed, one asks for nothing, and the last is writable when it is polled.\<close>

lemma PollPoller_watches_interests_witness:
  "\<exists>h' pp' h'' pp'' ready. foldR (chan_exec (PollPoller_updateChannel 9) (PollPoller_removeChannel 9))
      ([1 \<mapsto> Channel_new 0 5, 2 \<mapsto> Channel_new 0 0, 3 \<mapsto> Channel_new 0 6], PollPoller_new 9)
      [Enable_reading 1, Enable_reading 2, Enable_writing 3, Disable_all 2, Disable_all 1, Remove 1]
      = Inr (h', pp') \<and>
    {(pfd_fd x, pfd_events x) | x. x \<in> set (pp_pollfds pp') \<and> 0 \<le> pfd_fd x} = {(6, ucast kWriteEvent)} \<and>
    PollPoller_poll (ready_poll (\<lambda>fd. ucast POLLOUT)) 77 10 (h', pp', []) = Inr (77, h'', pp'', ready) \<and>
    set ready = {3}"
proof -
  define h :: "'a channels" where
    "h = [1 \<mapsto> Channel_new 0 5, 2 \<mapsto> Channel_new 0 0, 3 \<mapsto> Channel_new 0 6]"
  define E :: chan_table where "E = [1 \<mapsto> (5, 0, Fresh), 2 \<mapsto> (0, 0, Fresh), 3 \<mapsto> (6, 0, Fresh)]"
  define ops where
    "ops = [Enable_reading 1, Enable_reading 2, Enable_writing 3, Disable_all 2, Disable_all 1, Remove 1]"
  have start: "unregistered h E"
    by (auto simp: unregistered_def h_def E_def split: if_splits)
  have script: "script_allowed False ops E"
    by (simp add: ops_def E_def op_allowed_def op_result_def is_Remove_def fd_free_def)
  define T :: chan_table where
    "T = [1 \<mapsto> (5, 0, Removed), 2 \<mapsto> (0, 0, Registered), 3 \<mapsto> (6, kWriteEvent, Registered)]"
  have R: "script_result False ops E = T"
    by (simp add: script_result_def ops_def E_def T_def op_result_def is_Remove_def fun_eq_iff)
  have T: "T p = Some (fd, ev, Registered) \<and> ev \<noteq> 0 \<longleftrightarrow> p = 3 \<and> fd = 6 \<and> ev = kWriteEvent" for p fd ev
    by (cases "p = 3"; cases "p = 2"; cases "p = 1") (auto simp: T_def)
  then have "{(fd, ucast ev :: 16 word) | p fd ev. script_result False ops E p = Some (fd, ev, Registered) \<and> ev \<noteq> 0}
      = {(6, ucast kWriteEvent)}"
    unfolding R by simp
  moreover obtain h' pp' where run: "foldR (chan_exec (PollPoller_updateChannel 9) (PollPoller_removeChannel 9))
      (h, PollPoller_new 9) ops = Inr (h', pp')"
    and slots: "{(pfd_fd x, pfd_events x) | x. x \<in> set (pp_pollfds pp') \<and> 0 \<le> pfd_fd x} =
      {(fd, ucast ev) | p fd ev. script_result False ops E p = Some (fd, ev, Registered) \<and> ev \<noteq> 0}"
    and polls: "\<forall>sys_poll now t. poll_law sys_poll \<longrightarrow>
      (\<exists>h'' pp'' ready. PollPoller_poll sys_poll now t (h', pp', []) = Inr (now, h'', pp'', ready) \<and>
        (\<forall>p \<in> set ready. \<exists>fd ev. script_result False ops E p = Some (fd, ev, Registered) \<and> ev \<noteq> 0) \<and>
        (fst (sys_poll (pp_pollfds pp') t) \<noteq> -1 \<longrightarrow>
           (\<forall>x \<in> set (snd (sys_poll (pp_pollfds pp') t)). 0 < sint (pfd_revents x) \<longrightarrow>
              (\<exists>p ev. script_result False ops E p = Some (pfd_fd x, ev, Registered) \<and> p \<in> set ready))))"
    using PollPoller_watches_interests [OF start script, of 9] by (elim exE conjE) (rule that)
  ultimately have six: "{(pfd_fd x, pfd_events x) | x. x \<in> set (pp_pollfds pp') \<and> 0 \<le> pfd_fd x} = {(6, ucast kWriteEvent)}"
    by simp
  let ?sys = "ready_poll (\<lambda>fd. ucast POLLOUT)"
  obtain h'' pp'' ready where poll: "PollPoller_poll ?sys 77 10 (h', pp', []) = Inr (77, h'', pp'', ready)"
    and only: "\<forall>p \<in> set ready. \<exists>fd ev. T p = Some (fd, ev, Registered) \<and> ev \<noteq> 0"
    and all: "fst (?sys (pp_pollfds pp') 10) \<noteq> -1 \<longrightarrow> (\<forall>x \<in> set (snd (?sys (pp_pollfds pp') 10)).
      0 < sint (pfd_revents x) \<longrightarrow> (\<exists>p ev. T p = Some (pfd_fd x, ev, Registered) \<and> p \<in> set ready))"
    using polls [rule_format, OF ready_poll_law, of "\<lambda>fd. ucast POLLOUT" 77 10] unfolding R
    by (elim exE conjE) (rule that)
  obtain x where x: "x \<in> set (pp_pollfds pp')" "pfd_fd x = 6" "pfd_events x = ucast kWriteEvent" using six by blast
  define y where "y = x\<lparr>pfd_revents := ucast POLLOUT AND (ucast kWriteEvent OR ucast (POLLERR OR POLLHUP OR POLLNVAL))\<rparr>"
  have "y \<in> set (snd (?sys (pp_pollfds pp') 10))"
    using x by (auto simp: ready_poll_def Let_def y_def intro!: rev_image_eqI [OF x(1)])
  moreover have "0 < sint (pfd_revents y)"
    by (simp add: y_def kWriteEvent_def POLLOUT_def POLLERR_def POLLHUP_def POLLNVAL_def)
  moreover have "fst (?sys (pp_pollfds pp') 10) \<noteq> -1" by (simp add: ready_poll_def Let_def)
  ultimately obtain p ev where "T p = Some (6, ev, Registered)" "p \<in> set ready" using all x(2) by (auto simp: y_def)
  then have "3 \<in> set ready" by (auto simp: T_def split: if_splits)
  moreover have "set ready \<subseteq> {3}" using only T by auto
  ultimately have "set ready = {3}" by auto
  then show ?thesis unfolding h_def [symmetric] ops_def [symmetric]
    by (intro exI conjI) (rule run, rule six, rule poll)
qed

text \<open>
  The two pollers do not accept the same use. With \<open>poll\<close> a channel that was removed keeps its
  index, and registering it again fails an assertion; and a channel that is disabled and removed
  without ever having asked for an event (an acceptor that is destroyed before it listens) fails
  one in \<open>removeChannel\<close>. With \<open>epoll\<close> both are accepted.
\<close>

theorem PollPoller_stricter:
  fixes h :: "'f channels"
  assumes "h p = Some (Channel_new loop fd)" and "0 \<le> fd"
  shows "let poll = foldR (chan_exec (PollPoller_updateChannel tid) (PollPoller_removeChannel tid))
             (h, PollPoller_new tid);
           epoll = foldR (chan_exec (EPollPoller_updateChannel list_ctl tid)
               (EPollPoller_removeChannel list_ctl tid))
             (h, \<lparr>po_channels = [], po_owner = tid, ep_kernel = Map.empty, ep_events_size = 16\<rparr>);
           again = [Enable_reading p, Disable_all p, Remove p, Enable_reading p];
           idle = [Disable_all p, Remove p]
       in poll again = Inl Assert_failed \<and> poll idle = Inl Assert_failed \<and>
          (\<exists>s. epoll again = Inr s) \<and> (\<exists>s. epoll idle = Inr s)"
  using assms unfolding Let_def
  by (simp add: PollPoller_new_def PollPoller_updateChannel_def PollPoller_removeChannel_def
      epoll_eval Let_def)

lemma PollPoller_stricter_witness:
  "foldR (chan_exec (PollPoller_updateChannel 9) (PollPoller_removeChannel 9))
     ([1 \<mapsto> Channel_new 0 5], PollPoller_new 9) [Disable_all 1, Remove 1] = Inl Assert_failed"
  using PollPoller_stricter [of "[1 \<mapsto> Channel_new 0 5]" 1 0 5 9, OF fun_upd_same zero_le_numeral,
      unfolded Let_def] by (elim conjE)

end
