(* ===== verification/Timestamp.thy ===== *)
theory Timestamp
  imports Complex_Main Decimal "HOL-Library.Signed_Division"
begin

text \<open>
  \<open>src/muduo/base/Timestamp.h\<close> and \<open>Timestamp.cpp\<close>: microseconds since the epoch.

  An \<open>int64_t\<close> count of microseconds is an \<open>int\<close> here: it reaches \<open>2 ^ 63\<close> in the year 294247,
  and an overflow before that needs an argument of that size; \<open>addTime_fits\<close> says when \<open>addTime\<close> has
  none. A \<open>double\<close> is the rational it
  stands for, and the rounding of a floating-point operation is the parameter \<open>rnd\<close>. C++ division
  truncates towards zero (\<open>sdiv\<close>, \<open>smod\<close>).
\<close>

type_synonym timestamp = int
type_synonym double = rat

definition kMicroSecondsPerSecond :: int where
  "kMicroSecondsPerSecond = 1000 * 1000"

definition Timestamp_invalid :: timestamp where
  "Timestamp_invalid = 0"

definition Timestamp_valid :: "timestamp \<Rightarrow> bool" where
  "Timestamp_valid t \<longleftrightarrow> 0 < t"

definition Timestamp_secondsSinceEpoch :: "timestamp \<Rightarrow> int" where
  "Timestamp_secondsSinceEpoch t = t sdiv kMicroSecondsPerSecond"

definition Timestamp_fromUnixTime :: "int \<Rightarrow> int \<Rightarrow> timestamp" where
  "Timestamp_fromUnixTime t microseconds = t * kMicroSecondsPerSecond + microseconds"

text \<open>\<open>gettimeofday\<close> filled in \<open>tv_sec\<close> and \<open>tv_usec\<close>.\<close>

definition Timestamp_now :: "int \<Rightarrow> int \<Rightarrow> timestamp" where
  "Timestamp_now tv_sec tv_usec = tv_sec * kMicroSecondsPerSecond + tv_usec"

text \<open>\<open>static_cast<int64_t>\<close> of a \<open>double\<close> in range.\<close>

definition truncate :: "double \<Rightarrow> int" where
  "truncate x = (if 0 \<le> x then \<lfloor>x\<rfloor> else \<lceil>x\<rceil>)"

definition timeDifference :: "(rat \<Rightarrow> double) \<Rightarrow> timestamp \<Rightarrow> timestamp \<Rightarrow> double" where
  "timeDifference rnd high low =
     (let diff = high - low in rnd (rnd (of_int diff) / of_int kMicroSecondsPerSecond))"

definition addTime :: "(rat \<Rightarrow> double) \<Rightarrow> timestamp \<Rightarrow> double \<Rightarrow> timestamp" where
  "addTime rnd timestamp seconds =
     (let delta = truncate (rnd (seconds * of_int kMicroSecondsPerSecond)) in timestamp + delta)"

text \<open>Neither the conversion nor the sum leaves the range of \<open>int64_t\<close>.\<close>

definition addTime_fits :: "(rat \<Rightarrow> double) \<Rightarrow> timestamp \<Rightarrow> double \<Rightarrow> bool" where
  "addTime_fits rnd timestamp seconds \<longleftrightarrow>
     (let delta = truncate (rnd (seconds * of_int kMicroSecondsPerSecond))
      in - (2 ^ 63) \<le> delta \<and> delta < 2 ^ 63 \<and> - (2 ^ 63) \<le> timestamp + delta \<and> timestamp + delta < 2 ^ 63)"

definition Timestamp_toString :: "timestamp \<Rightarrow> string" where
  "Timestamp_toString t =
     (let seconds = t sdiv kMicroSecondsPerSecond;
          microseconds = t smod kMicroSecondsPerSecond
      in snprintf (32 - 1) (decimal seconds @ ''.'' @ zero_padded 6 microseconds))"

section \<open>Lemmas\<close>

lemma sdiv_nonneg: "0 \<le> a \<Longrightarrow> 0 < b \<Longrightarrow> (a :: int) sdiv b = a div b"
  by (cases "a = 0") (simp_all add: signed_divide_int_def sgn_if)

lemma smod_nonneg: "0 \<le> a \<Longrightarrow> 0 < b \<Longrightarrow> (a :: int) smod b = a mod b"
  by (cases "a = 0") (simp_all add: signed_modulo_int_def sgn_if)

text \<open>Time does not run backwards: a delay that is not negative gives no earlier time, as long as
  the rounding is monotonic and exact at 0, as IEEE rounding is.\<close>

definition rounding :: "(rat \<Rightarrow> double) \<Rightarrow> bool" where
  "rounding rnd \<longleftrightarrow> mono rnd \<and> rnd 0 = 0"

lemma rounding_nonneg: "rounding rnd \<Longrightarrow> 0 \<le> x \<Longrightarrow> 0 \<le> rnd x"
  unfolding rounding_def by (metis monoD)

lemma addTime_le: "rounding rnd \<Longrightarrow> 0 \<le> seconds \<Longrightarrow> t \<le> addTime rnd t seconds"
  using rounding_nonneg [of rnd "seconds * of_int kMicroSecondsPerSecond"]
  by (simp add: addTime_def truncate_def kMicroSecondsPerSecond_def Let_def)

lemma addTime_mono:
  assumes "rounding rnd" and "0 \<le> s" and "s \<le> s'"
  shows "addTime rnd t s \<le> addTime rnd t s'"
proof -
  have "rnd (s * of_int kMicroSecondsPerSecond) \<le> rnd (s' * of_int kMicroSecondsPerSecond)"
    by (rule monoD) (use assms in \<open>simp_all add: rounding_def kMicroSecondsPerSecond_def\<close>)
  moreover have "0 \<le> rnd (s * of_int kMicroSecondsPerSecond)"
    using rounding_nonneg [OF assms(1)] assms(2) by (simp add: kMicroSecondsPerSecond_def)
  ultimately show ?thesis
    by (simp add: addTime_def truncate_def Let_def floor_mono)
qed

lemma rounding_id: "rounding (\<lambda>x. x)"
  by (simp add: rounding_def mono_def)

end
