(* ===== verification/Timer_Queue.thy ===== *)
theory Timer_Queue
  imports Timestamp Std_Map "HOL-Library.Product_Lexorder"
begin

text \<open>
  \<open>src/muduo/net/TimerQueue.h\<close>, \<open>TimerQueue.cpp\<close>, \<open>Timer.h\<close>, \<open>Timer.cpp\<close>, \<open>TimerId.h\<close>: the
  timers of one loop.

  Timers live in a store by address; \<open>timers_\<close> and \<open>activeTimers_\<close> are ordered sets (\<open>Std_Map\<close>) of
  (expiration, address) and (address, sequence), so an address that \<open>new\<close> hands out again is a
  case of the model. The allocator is the parameter \<open>alloc\<close>, which may choose any free address.
  A callback is an identifier; what running it does to the queue is the parameter \<open>behave\<close>, a list
  of calls of the public operations that may depend on the whole state. \<open>tq_clock\<close> is what
  \<open>Timestamp::now()\<close> returns; time passes, also during a callback, by the command \<open>Pass_time\<close>.
  \<open>tq_log\<close> records the callbacks run, which is what a user of the queue observes.
\<close>

section \<open>Timers\<close>

record timer =
  tm_callback :: nat
  tm_expiration :: timestamp
  tm_interval :: double
  tm_repeat :: bool
  tm_sequence :: int

text \<open>\<open>seq\<close> is the value of \<open>s_numCreated_.incrementAndGet()\<close>.\<close>

definition Timer_new :: "int \<Rightarrow> nat \<Rightarrow> timestamp \<Rightarrow> double \<Rightarrow> timer" where
  "Timer_new seq cb when interval =
     \<lparr>tm_callback = cb, tm_expiration = when, tm_interval = interval, tm_repeat = (interval > 0),
      tm_sequence = seq\<rparr>"

definition Timer_restart :: "(rat \<Rightarrow> double) \<Rightarrow> timestamp \<Rightarrow> timer \<Rightarrow> timer" where
  "Timer_restart rnd now t =
     (if tm_repeat t then t\<lparr>tm_expiration := addTime rnd now (tm_interval t)\<rparr>
      else t\<lparr>tm_expiration := Timestamp_invalid\<rparr>)"

type_synonym timer_id = "nat \<times> int"      \<comment> \<open>\<open>TimerId\<close>: address and sequence\<close>

section \<open>The queue\<close>

datatype timer_task = Add_task nat | Cancel_task timer_id

record timer_queue =
  tq_owner :: int                            \<comment> \<open>the thread of \<open>loop_\<close>\<close>
  tq_heap :: "nat \<Rightarrow> timer option"
  tq_numCreated :: int                       \<comment> \<open>\<open>Timer::s_numCreated_\<close>\<close>
  tq_timers :: "(timestamp \<times> nat) list"
  tq_active :: "timer_id list"
  tq_calling :: bool                         \<comment> \<open>\<open>callingExpiredTimers_\<close>\<close>
  tq_canceling :: "timer_id list"
  tq_armed :: "(timestamp \<times> int \<times> int) option"
    \<comment> \<open>\<open>timerfd_\<close>: when it was set, and the \<open>it_value\<close>\<close>
  tq_pending :: "timer_task list"            \<comment> \<open>tasks queued in the loop by other threads\<close>
  tq_clock :: timestamp
  tq_log :: "(nat \<times> int \<times> timestamp) list"
    \<comment> \<open>callback, sequence and expiration of every timer run\<close>

definition UINTPTR_MAX :: nat where
  "UINTPTR_MAX = 2 ^ 64 - 1"

definition TimerQueue_new :: "int \<Rightarrow> timestamp \<Rightarrow> timer_queue" where
  "TimerQueue_new tid clock =
     \<lparr>tq_owner = tid, tq_heap = Map.empty, tq_numCreated = 0, tq_timers = [], tq_active = [],
      tq_calling = False, tq_canceling = [], tq_armed = None, tq_pending = [], tq_clock = clock,
      tq_log = []\<rparr>"

definition in_loop_thread :: "int \<Rightarrow> timer_queue \<Rightarrow> 'a result \<Rightarrow> 'a result" where
  "in_loop_thread tid q m = (if tid = tq_owner q then m else Inl Log_fatal)"

definition same_size :: "timer_queue \<Rightarrow> bool" where
  "same_size q \<longleftrightarrow> length (tq_timers q) = length (tq_active q)"

definition howMuchTimeFromNow :: "timestamp \<Rightarrow> timestamp \<Rightarrow> int \<times> int" where
  "howMuchTimeFromNow when now =
     (let microseconds = when - now;
          microseconds = (if microseconds < 100 then 100 else microseconds)
      in (microseconds sdiv kMicroSecondsPerSecond, (microseconds smod kMicroSecondsPerSecond) * 1000))"

definition resetTimerfd :: "timestamp \<Rightarrow> timer_queue \<Rightarrow> timer_queue" where
  "resetTimerfd expiration q =
     q\<lparr>tq_armed := Some (tq_clock q, howMuchTimeFromNow expiration (tq_clock q))\<rparr>"

definition readTimerfd :: "timer_queue \<Rightarrow> timer_queue" where
  "readTimerfd q = q\<lparr>tq_armed := None\<rparr>"

definition TimerQueue_insert :: "int \<Rightarrow> nat \<Rightarrow> timer_queue \<Rightarrow> (bool \<times> timer_queue) result" where
  "TimerQueue_insert tid p q = in_loop_thread tid q (cassert (same_size q) (
     deref (tq_heap q) p (\<lambda>t.
     let when = tm_expiration t;
         earliestChanged = (case tq_timers q of [] \<Rightarrow> True | e # es \<Rightarrow> when < fst e)
     in cassert ((when, p) \<notin> set (tq_timers q)) (
        cassert ((p, tm_sequence t) \<notin> set (tq_active q)) (
        let q' = q\<lparr>tq_timers := set_insert (when, p) (tq_timers q),
                   tq_active := set_insert (p, tm_sequence t) (tq_active q)\<rparr>
        in cassert (same_size q') (Inr (earliestChanged, q')))))))"

definition TimerQueue_addTimerInLoop :: "int \<Rightarrow> nat \<Rightarrow> timer_queue \<Rightarrow> timer_queue result" where
  "TimerQueue_addTimerInLoop tid p q = in_loop_thread tid q (
     andThen (TimerQueue_insert tid p q) (\<lambda>(earliestChanged, q').
     if earliestChanged then
       deref (tq_heap q') p (\<lambda>t. Inr (resetTimerfd (tm_expiration t) q'))
     else Inr q'))"

definition TimerQueue_cancelInLoop :: "int \<Rightarrow> timer_id \<Rightarrow> timer_queue \<Rightarrow> timer_queue result" where
  "TimerQueue_cancelInLoop tid timer q = in_loop_thread tid q (cassert (same_size q) (
     andThen
       (if timer \<in> set (tq_active q) then
          deref (tq_heap q) (fst timer) (\<lambda>t.
          cassert ((tm_expiration t, fst timer) \<in> set (tq_timers q)) (
          Inr (q\<lparr>tq_timers := set_erase (tm_expiration t, fst timer) (tq_timers q),
                 tq_heap := (tq_heap q)(fst timer := None),
                 tq_active := set_erase timer (tq_active q)\<rparr>)))
        else if tq_calling q then
          Inr (q\<lparr>tq_canceling := set_insert timer (tq_canceling q)\<rparr>)
        else Inr q)
       (\<lambda>q'. cassert (same_size q') (Inr q'))))"

text \<open>\<open>loop_->runInLoop(task)\<close>: at once in the loop's thread, queued from another.\<close>

definition TimerQueue_run_task :: "int \<Rightarrow> timer_queue \<Rightarrow> timer_task \<Rightarrow> timer_queue result" where
  "TimerQueue_run_task tid q task =
     (case task of
        Add_task p \<Rightarrow> TimerQueue_addTimerInLoop tid p q
      | Cancel_task timer \<Rightarrow> TimerQueue_cancelInLoop tid timer q)"

definition TimerQueue_runInLoop :: "int \<Rightarrow> timer_task \<Rightarrow> timer_queue \<Rightarrow> timer_queue result" where
  "TimerQueue_runInLoop tid task q =
     (if tid = tq_owner q then TimerQueue_run_task tid q task
      else Inr (q\<lparr>tq_pending := tq_pending q @ [task]\<rparr>))"

text \<open>\<open>addTimer\<close> up to the return statement, and the return statement, which reads the timer once
  more. Between the two another thread may run.\<close>

definition TimerQueue_addTimer_begin ::
  "((nat \<Rightarrow> timer option) \<Rightarrow> nat option) \<Rightarrow> int \<Rightarrow> nat \<Rightarrow> timestamp \<Rightarrow> double \<Rightarrow>
   timer_queue \<Rightarrow> (nat \<times> timer_queue) result" where
  "TimerQueue_addTimer_begin alloc tid cb when interval q =
     (case alloc (tq_heap q) of
        None \<Rightarrow> Inl Out_of_memory
      | Some p \<Rightarrow>
          let seq = tq_numCreated q + 1;
              q1 = q\<lparr>tq_numCreated := seq,
                     tq_heap := (tq_heap q)(p \<mapsto> Timer_new seq cb when interval)\<rparr>
          in andThen (TimerQueue_runInLoop tid (Add_task p) q1) (\<lambda>q2. Inr (p, q2)))"

definition TimerQueue_addTimer_return :: "nat \<Rightarrow> timer_queue \<Rightarrow> timer_id result" where
  "TimerQueue_addTimer_return p q = deref (tq_heap q) p (\<lambda>t. Inr (p, tm_sequence t))"

text \<open>
  A call of \<open>addTimer\<close> with nothing between the hand-over and the return statement: always so in the loop's
  thread and in its callbacks. In another thread the loop may come between; then the two parts are steps of
  their own (\<open>Begin_add\<close> and \<open>Return_add\<close> of \<open>timer_op\<close>).
\<close>

definition TimerQueue_addTimer ::
  "((nat \<Rightarrow> timer option) \<Rightarrow> nat option) \<Rightarrow> int \<Rightarrow> nat \<Rightarrow> timestamp \<Rightarrow> double \<Rightarrow>
   timer_queue \<Rightarrow> (timer_id \<times> timer_queue) result" where
  "TimerQueue_addTimer alloc tid cb when interval q =
     andThen (TimerQueue_addTimer_begin alloc tid cb when interval q) (\<lambda>(p, q1).
     andThen (TimerQueue_addTimer_return p q1) (\<lambda>timer. Inr (timer, q1)))"

definition TimerQueue_cancel :: "int \<Rightarrow> timer_id \<Rightarrow> timer_queue \<Rightarrow> timer_queue result" where
  "TimerQueue_cancel tid timer q = TimerQueue_runInLoop tid (Cancel_task timer) q"

section \<open>Expiry\<close>

text \<open>The loop of \<open>getExpired\<close> that takes one expired timer out of \<open>activeTimers_\<close>.\<close>

definition TimerQueue_deactivate :: "timer_queue \<Rightarrow> timestamp \<times> nat \<Rightarrow> timer_queue result" where
  "TimerQueue_deactivate q it = deref (tq_heap q) (snd it) (\<lambda>t.
     cassert ((snd it, tm_sequence t) \<in> set (tq_active q)) (
     Inr (q\<lparr>tq_active := set_erase (snd it, tm_sequence t) (tq_active q)\<rparr>)))"

definition TimerQueue_getExpired ::
  "timestamp \<Rightarrow> timer_queue \<Rightarrow> ((timestamp \<times> nat) list \<times> timer_queue) result" where
  "TimerQueue_getExpired now q = cassert (same_size q) (
     let sentry = (now, UINTPTR_MAX);
         expired = set_below sentry (tq_timers q);
         rest = set_from sentry (tq_timers q)
     in cassert (case rest of [] \<Rightarrow> True | e # es \<Rightarrow> now < fst e) (
        andThen (foldR TimerQueue_deactivate (q\<lparr>tq_timers := rest\<rparr>) expired) (\<lambda>q'.
        cassert (same_size q') (Inr (expired, q')))))"

text \<open>The public operations a callback, or any other code, may call.\<close>

datatype timer_command =
    Add_timer nat timestamp double
  | Cancel_timer timer_id
  | Pass_time timestamp

fun TimerQueue_command ::
  "((nat \<Rightarrow> timer option) \<Rightarrow> nat option) \<Rightarrow> int \<Rightarrow> timer_queue \<Rightarrow> timer_command \<Rightarrow> timer_queue result" where
  "TimerQueue_command alloc tid q (Add_timer cb when interval) =
     andThen (TimerQueue_addTimer alloc tid cb when interval q) (\<lambda>(timer, q'). Inr q')"
| "TimerQueue_command alloc tid q (Cancel_timer timer) = TimerQueue_cancel tid timer q"
| "TimerQueue_command alloc tid q (Pass_time t) = Inr (q\<lparr>tq_clock := t\<rparr>)"

text \<open>\<open>it.second->run()\<close>.\<close>

definition Timer_run ::
  "((nat \<Rightarrow> timer option) \<Rightarrow> nat option) \<Rightarrow> (nat \<Rightarrow> timer_queue \<Rightarrow> timer_command list) \<Rightarrow> int \<Rightarrow>
   timer_queue \<Rightarrow> timestamp \<times> nat \<Rightarrow> timer_queue result" where
  "Timer_run alloc behave tid q it = deref (tq_heap q) (snd it) (\<lambda>t.
     let q1 = q\<lparr>tq_log := tq_log q @ [(tm_callback t, tm_sequence t, tm_expiration t)]\<rparr>
     in foldR (TimerQueue_command alloc tid) q1 (behave (tm_callback t) q1))"

text \<open>The loop of \<open>reset\<close>, and the rest of it. An overflow in \<open>Timer::restart\<close> is undefined.\<close>

definition TimerQueue_reset_one ::
  "(rat \<Rightarrow> double) \<Rightarrow> int \<Rightarrow> timestamp \<Rightarrow> timer_queue \<Rightarrow> timestamp \<times> nat \<Rightarrow> timer_queue result" where
  "TimerQueue_reset_one rnd tid now q it = deref (tq_heap q) (snd it) (\<lambda>t.
     if tm_repeat t \<and> (snd it, tm_sequence t) \<notin> set (tq_canceling q) then
       (if addTime_fits rnd now (tm_interval t)
        then andThen (TimerQueue_insert tid (snd it)
               (q\<lparr>tq_heap := (tq_heap q)(snd it \<mapsto> Timer_restart rnd now t)\<rparr>)) (\<lambda>(b, q'). Inr q')
        else Inl Undefined_behaviour)
     else Inr (q\<lparr>tq_heap := (tq_heap q)(snd it := None)\<rparr>))"

definition TimerQueue_reset ::
  "(rat \<Rightarrow> double) \<Rightarrow> int \<Rightarrow> (timestamp \<times> nat) list \<Rightarrow> timestamp \<Rightarrow> timer_queue \<Rightarrow> timer_queue result" where
  "TimerQueue_reset rnd tid expired now q =
     andThen (foldR (TimerQueue_reset_one rnd tid now) q expired) (\<lambda>q1.
     andThen
       (case tq_timers q1 of
          [] \<Rightarrow> Inr Timestamp_invalid
        | e # es \<Rightarrow> deref (tq_heap q1) (snd e) (\<lambda>t. Inr (tm_expiration t)))
       (\<lambda>nextExpire.
          if Timestamp_valid nextExpire then Inr (resetTimerfd nextExpire q1) else Inr q1))"

definition TimerQueue_handleRead ::
  "(rat \<Rightarrow> double) \<Rightarrow> ((nat \<Rightarrow> timer option) \<Rightarrow> nat option) \<Rightarrow>
   (nat \<Rightarrow> timer_queue \<Rightarrow> timer_command list) \<Rightarrow> int \<Rightarrow> timer_queue \<Rightarrow> timer_queue result" where
  "TimerQueue_handleRead rnd alloc behave tid q = in_loop_thread tid q (
     let now = tq_clock q; q0 = readTimerfd q in
     andThen (TimerQueue_getExpired now q0) (\<lambda>(expired, q1).
     andThen (foldR (Timer_run alloc behave tid)
                (q1\<lparr>tq_calling := True, tq_canceling := []\<rparr>) expired) (\<lambda>q2.
     TimerQueue_reset rnd tid expired now (q2\<lparr>tq_calling := False\<rparr>))))"

text \<open>The destructor frees what is in \<open>timers_\<close>.\<close>

definition TimerQueue_delete :: "timer_queue \<Rightarrow> timer_queue" where
  "TimerQueue_delete q = q\<lparr>tq_heap := (\<lambda>p. if p \<in> snd ` set (tq_timers q) then None else tq_heap q p)\<rparr>"

section \<open>Running the queue\<close>

text \<open>What happens to a queue: calls from any thread, the loop running what was queued, and the
  descriptor becoming readable. \<open>Command\<close> is a call that nothing comes between; a call of \<open>addTimer\<close> from
  another thread may also be in two steps, \<open>Begin_add\<close> up to the return statement and \<open>Return_add\<close> the
  return statement, with anything in between.\<close>

datatype timer_op =
    Command int timer_command
  | Begin_add int nat timestamp double
  | Return_add nat
  | Run_pending
  | Alarm

fun TimerQueue_exec ::
  "(rat \<Rightarrow> double) \<Rightarrow> ((nat \<Rightarrow> timer option) \<Rightarrow> nat option) \<Rightarrow>
   (nat \<Rightarrow> timer_queue \<Rightarrow> timer_command list) \<Rightarrow> timer_queue \<Rightarrow> timer_op \<Rightarrow> timer_queue result" where
  "TimerQueue_exec rnd alloc behave q (Command tid cmd) = TimerQueue_command alloc tid q cmd"
| "TimerQueue_exec rnd alloc behave q (Begin_add tid cb when interval) =
     andThen (TimerQueue_addTimer_begin alloc tid cb when interval q) (\<lambda>(p, q'). Inr q')"
| "TimerQueue_exec rnd alloc behave q (Return_add p) =
     andThen (TimerQueue_addTimer_return p q) (\<lambda>timer. Inr q)"
| "TimerQueue_exec rnd alloc behave q Run_pending =
     foldR (TimerQueue_run_task (tq_owner q)) (q\<lparr>tq_pending := []\<rparr>) (tq_pending q)"
| "TimerQueue_exec rnd alloc behave q Alarm =
     TimerQueue_handleRead rnd alloc behave (tq_owner q) q"

section \<open>The invariant\<close>

text \<open>The two sets hold the same timers, all of them alive.\<close>

definition timers_ok ::
  "(nat \<Rightarrow> timer option) \<Rightarrow> (timestamp \<times> nat) list \<Rightarrow> timer_id list \<Rightarrow> bool" where
  "timers_ok h T A \<longleftrightarrow> set_wf T \<and> set_wf A \<and>
     set T = {(tm_expiration t, p) | p t. h p = Some t \<and> (p, tm_sequence t) \<in> set A} \<and>
     (\<forall>p s. (p, s) \<in> set A \<longrightarrow> (\<exists>t. h p = Some t \<and> tm_sequence t = s))"

text \<open>Sequences identify timers.\<close>

definition heap_ok :: "(nat \<Rightarrow> timer option) \<Rightarrow> int \<Rightarrow> bool" where
  "heap_ok h n \<longleftrightarrow>
     (\<forall>p t. h p = Some t \<longrightarrow> p < UINTPTR_MAX \<and> tm_sequence t \<le> n \<and> (tm_repeat t \<longleftrightarrow> 0 < tm_interval t)) \<and>
     (\<forall>p p' t t'. h p = Some t \<and> h p' = Some t' \<and> tm_sequence t = tm_sequence t' \<longrightarrow> p = p')"

text \<open>Timers that are alive but in neither set: created by another thread and not yet added, or
  being run.\<close>

definition held_ok :: "(nat \<Rightarrow> timer option) \<Rightarrow> timer_id list \<Rightarrow> nat set \<Rightarrow> bool" where
  "held_ok h A X \<longleftrightarrow> (\<forall>p \<in> X. \<exists>t. h p = Some t \<and> (p, tm_sequence t) \<notin> set A)"

definition pending_adds :: "timer_task list \<Rightarrow> nat list" where
  "pending_adds ts = concat (map (\<lambda>t. case t of Add_task p \<Rightarrow> [p] | Cancel_task _ \<Rightarrow> []) ts)"

lemma pending_adds_simps [simp]:
  "pending_adds [] = []" "pending_adds (Add_task p # ts) = p # pending_adds ts"
  "pending_adds (Cancel_task i # ts) = pending_adds ts"
  "pending_adds (ts @ us) = pending_adds ts @ pending_adds us"
  by (simp_all add: pending_adds_def)

text \<open>\<open>X\<close> are the timers being run.\<close>

definition tq_inv :: "nat set \<Rightarrow> timer_queue \<Rightarrow> bool" where
  "tq_inv X q \<longleftrightarrow>
     timers_ok (tq_heap q) (tq_timers q) (tq_active q) \<and> heap_ok (tq_heap q) (tq_numCreated q) \<and>
     distinct (pending_adds (tq_pending q)) \<and> X \<inter> set (pending_adds (tq_pending q)) = {} \<and>
     held_ok (tq_heap q) (tq_active q) (X \<union> set (pending_adds (tq_pending q)))"

lemma tq_inv_new: "tq_inv {} (TimerQueue_new tid clock)"
  by (simp add: tq_inv_def TimerQueue_new_def timers_ok_def heap_ok_def held_ok_def set_wf_def)

lemma timers_ok_size:
  assumes "timers_ok h T A"
  shows "length T = length A"
proof -
  have d: "distinct T" "distinct A"
    using assms by (simp_all add: timers_ok_def set_wf_distinct)
  define f where "f = (\<lambda>(p :: nat, s :: int). (tm_expiration (the (h p)), p))"
  have alive: "\<exists>t. h p = Some t \<and> tm_sequence t = s" if "(p, s) \<in> set A" for p s
    using assms that by (simp add: timers_ok_def)
  have "inj_on f (set A)"
    by (auto simp: inj_on_def f_def dest!: alive)
  moreover have "set T = f ` set A"
  proof (intro equalityI subsetI)
    fix e assume "e \<in> set T"
    then obtain p t where "e = (tm_expiration t, p)" "h p = Some t" "(p, tm_sequence t) \<in> set A"
      using assms by (auto simp: timers_ok_def)
    then show "e \<in> f ` set A" by (intro image_eqI [of _ _ "(p, tm_sequence t)"]) (auto simp: f_def)
  next
    fix e assume "e \<in> f ` set A"
    then obtain p s where ps: "(p, s) \<in> set A" "e = f (p, s)" by auto
    obtain t where "h p = Some t" "tm_sequence t = s" using alive [OF ps(1)] by blast
    then show "e \<in> set T" using ps assms unfolding timers_ok_def f_def by auto
  qed
  ultimately show ?thesis
    using d by (metis card_image distinct_card)
qed

lemma timers_ok_mem:
  "timers_ok h T A \<Longrightarrow> (e, p) \<in> set T \<longleftrightarrow>
     (\<exists>t. h p = Some t \<and> tm_expiration t = e \<and> (p, tm_sequence t) \<in> set A)"
  by (auto simp: timers_ok_def)

lemma timers_ok_alive:
  assumes "timers_ok h T A" and "(p, s) \<in> set A"
  obtains t where "h p = Some t" "tm_sequence t = s" "(tm_expiration t, p) \<in> set T"
  using assms unfolding timers_ok_def by blast

lemma timers_ok_insert:
  assumes ok: "timers_ok h T A" and t: "h p = Some t"
  shows "timers_ok h (set_insert (tm_expiration t, p) T) (set_insert (p, tm_sequence t) A)"
proof -
  have "\<exists>t'. h q = Some t' \<and> tm_sequence t' = s" if "(q, s) \<in> insert (p, tm_sequence t) (set A)" for q s
    using that ok t by (auto simp: timers_ok_def)
  moreover have "insert (tm_expiration t, p) (set T) = {(tm_expiration t', q) | q t'. h q = Some t' \<and>
      (q, tm_sequence t') \<in> insert (p, tm_sequence t) (set A)}"
    using ok t unfolding timers_ok_def by fastforce
  ultimately show ?thesis
    using ok by (simp add: timers_ok_def)
qed

lemma timers_ok_erase:
  assumes ok: "timers_ok h T A" and t: "h p = Some t"
  shows "timers_ok h (set_erase (tm_expiration t, p) T) (set_erase (p, tm_sequence t) A)"
proof -
  have "set T - {(tm_expiration t, p)} = {(tm_expiration t', q) | q t'. h q = Some t' \<and>
      (q, tm_sequence t') \<in> set A - {(p, tm_sequence t)}}"
    using ok t unfolding timers_ok_def by fastforce
  then show ?thesis
    using ok by (simp add: timers_ok_def)
qed

text \<open>Only the timers in the sets matter.\<close>

lemma timers_ok_heap:
  assumes ok: "timers_ok h T A" and same: "\<And>p s. (p, s) \<in> set A \<Longrightarrow> h' p = h p"
  shows "timers_ok h' T A"
proof -
  have "h' p = Some t \<and> (p, tm_sequence t) \<in> set A \<longleftrightarrow> h p = Some t \<and> (p, tm_sequence t) \<in> set A" for p t
    using same by auto
  moreover have "\<exists>t. h' p = Some t \<and> tm_sequence t = s" if "(p, s) \<in> set A" for p s
    using ok same [OF that] that by (simp add: timers_ok_def)
  ultimately show ?thesis
    using ok by (simp add: timers_ok_def)
qed

lemma timers_ok_not_in:
  "timers_ok h T A \<Longrightarrow> h p = Some t \<Longrightarrow> (p, tm_sequence t) \<notin> set A \<Longrightarrow> (e, p) \<notin> set T"
  by (auto simp: timers_ok_mem)

lemma timers_ok_other_address:
  "timers_ok h T A \<Longrightarrow> h p = Some t \<Longrightarrow> (p, tm_sequence t) \<notin> set A \<Longrightarrow> (p, s) \<notin> set A"
  by (metis timers_ok_alive option.inject)

lemma heap_ok_remove: "heap_ok h n \<Longrightarrow> heap_ok (h(p := None)) n"
  by (auto simp: heap_ok_def)

lemma tq_inv_size: "tq_inv X q \<Longrightarrow> same_size q"
  by (auto simp: tq_inv_def same_size_def intro: timers_ok_size)

lemma tq_inv_held:
  "tq_inv X q \<Longrightarrow> p \<in> X \<union> set (pending_adds (tq_pending q)) \<Longrightarrow>
   \<exists>t. tq_heap q p = Some t \<and> (p, tm_sequence t) \<notin> set (tq_active q)"
  by (auto simp: tq_inv_def held_ok_def)

lemma heap_ok_create:
  assumes ok: "heap_ok h n" and p: "p < UINTPTR_MAX"
  shows "heap_ok (h(p \<mapsto> Timer_new (n + 1) cb when interval)) (n + 1)"
proof -
  have "tm_sequence t < n + 1" if "h q = Some t" for q t
    using ok that unfolding heap_ok_def by (metis zle_add1_eq_le)
  then have "tm_sequence t \<noteq> n + 1" if "h q = Some t" for q t
    using that by (metis less_irrefl)
  then show ?thesis
    using ok p unfolding heap_ok_def by (simp add: Timer_new_def) (metis add_increasing2 zero_le_one)
qed

section \<open>Each operation on a well-formed queue\<close>

lemma TimerQueue_insert_ok:
  assumes inv: "tq_inv X q" and p: "p \<in> X" and t: "tq_heap q p = Some t" and tid: "tid = tq_owner q"
  defines "q' \<equiv> q\<lparr>tq_timers := set_insert (tm_expiration t, p) (tq_timers q),
                  tq_active := set_insert (p, tm_sequence t) (tq_active q)\<rparr>"
  shows "TimerQueue_insert tid p q = Inr
      ((case tq_timers q of [] \<Rightarrow> True | e # es \<Rightarrow> tm_expiration t < fst e), q')"
    and "tq_inv (X - {p}) q'"
proof -
  have ok: "timers_ok (tq_heap q) (tq_timers q) (tq_active q)"
    using inv by (simp add: tq_inv_def)
  have fresh: "(p, tm_sequence t) \<notin> set (tq_active q)"
    using tq_inv_held [OF inv, of p] p t by auto
  note ok' = timers_ok_insert [where h = "tq_heap q" and p = p, OF ok t]
  have size: "same_size q'"
    using timers_ok_size [OF ok'] by (simp add: same_size_def q'_def)
  show "TimerQueue_insert tid p q = Inr
      ((case tq_timers q of [] \<Rightarrow> True | e # es \<Rightarrow> tm_expiration t < fst e), q')"
    using tid t tq_inv_size [OF inv] timers_ok_not_in [OF ok t fresh] fresh size
    unfolding q'_def by (simp add: TimerQueue_insert_def in_loop_thread_def Let_def)
  have "held_ok (tq_heap q) (set_insert (p, tm_sequence t) (tq_active q))
      (X - {p} \<union> set (pending_adds (tq_pending q)))"
    using inv p unfolding tq_inv_def held_ok_def by auto
  then show "tq_inv (X - {p}) q'"
    using inv ok' by (auto simp: tq_inv_def q'_def)
qed

text \<open>The alarm: when the descriptor set at \<open>fst a\<close> becomes readable, and that this is early enough
  for every timer (100 microseconds is the least delay the code sets).\<close>

definition alarm_time :: "timestamp \<times> int \<times> int \<Rightarrow> timestamp" where
  "alarm_time a = (case a of (set_at, sec, nsec) \<Rightarrow> set_at + sec * kMicroSecondsPerSecond + nsec div 1000)"

definition armed_ok :: "timer_queue \<Rightarrow> bool" where
  "armed_ok q \<longleftrightarrow> (\<forall>e p. (e, p) \<in> set (tq_timers q) \<longrightarrow>
     (\<exists>a. tq_armed q = Some a \<and> alarm_time a \<le> max e (fst a + 100)))"

lemma alarm_time_howMuchTimeFromNow:
  "alarm_time (now, howMuchTimeFromNow when now) = max when (now + 100)"
proof -
  define d where "d = (if when - now < 100 then 100 else when - now)"
  have "0 \<le> d" by (simp add: d_def)
  then have "alarm_time (now, howMuchTimeFromNow when now) =
      now + (d div 1000000 * 1000000 + d mod 1000000)"
    by (simp add: howMuchTimeFromNow_def alarm_time_def Let_def d_def kMicroSecondsPerSecond_def
        sdiv_nonneg smod_nonneg)
  also have "\<dots> = now + d"
    by (simp only: div_mult_mod_eq)
  finally show ?thesis by (simp add: d_def max_def)
qed

text \<open>The value is one the system call accepts.\<close>

lemma howMuchTimeFromNow_valid:
  "case howMuchTimeFromNow when now of (sec, nsec) \<Rightarrow> 0 \<le> sec \<and> 0 \<le> nsec \<and> nsec < 10 ^ 9 \<and> 0 < sec + nsec"
proof -
  define d where "d = (if when - now < 100 then 100 else when - now)"
  have d: "0 < d" by (simp add: d_def)
  have "howMuchTimeFromNow when now = (d div 1000000, d mod 1000000 * 1000)"
    using d by (simp add: howMuchTimeFromNow_def Let_def d_def kMicroSecondsPerSecond_def
        sdiv_nonneg smod_nonneg)
  moreover have "0 < d div 1000000 + d mod 1000000 * 1000"
  proof (cases "d < 1000000")
    case True
    then show ?thesis using d by simp
  next
    case False
    then have "0 < d div 1000000" by (simp add: pos_imp_zdiv_pos_iff)
    then show ?thesis by (simp add: add_pos_nonneg)
  qed
  moreover have "0 \<le> d div 1000000" "0 \<le> d mod 1000000" "d mod 1000000 < 1000000"
    using d by (simp_all add: pos_imp_zdiv_nonneg_iff)
  ultimately show ?thesis by simp
qed

lemma armed_ok_resetTimerfd:
  assumes "\<And>e p. (e, p) \<in> set (tq_timers q) \<Longrightarrow> when \<le> e"
  shows "armed_ok (resetTimerfd when q)"
  using assms by (fastforce simp: armed_ok_def resetTimerfd_def alarm_time_howMuchTimeFromNow)

lemma armed_ok_subset:
  "armed_ok q \<Longrightarrow> set (tq_timers q') \<subseteq> set (tq_timers q) \<Longrightarrow> tq_armed q' = tq_armed q \<Longrightarrow> armed_ok q'"
  unfolding armed_ok_def by (metis subsetD)

text \<open>All timers are due after the epoch.\<close>

definition positive :: "timer_queue \<Rightarrow> bool" where
  "positive q \<longleftrightarrow> 0 < tq_clock q \<and> (\<forall>p t. tq_heap q p = Some t \<longrightarrow> 0 < tm_expiration t)"

fun positive_command :: "timer_command \<Rightarrow> bool" where
  "positive_command (Add_timer cb when interval) \<longleftrightarrow> 0 < when"
| "positive_command (Cancel_timer timer) \<longleftrightarrow> True"
| "positive_command (Pass_time t) \<longleftrightarrow> 0 < t"

text \<open>What any public operation leaves alone: the timers being run, and what is gone stays gone.\<close>

definition tq_frame :: "nat set \<Rightarrow> timer_queue \<Rightarrow> timer_queue \<Rightarrow> bool" where
  "tq_frame X q q' \<longleftrightarrow>
     tq_owner q' = tq_owner q \<and> tq_calling q' = tq_calling q \<and> tq_log q' = tq_log q \<and>
     tq_numCreated q \<le> tq_numCreated q' \<and> (\<forall>p \<in> X. tq_heap q' p = tq_heap q p) \<and>
     set (tq_canceling q) \<subseteq> set (tq_canceling q') \<and>
     (\<forall>p t. tq_heap q' p = Some t \<longrightarrow> tq_heap q p = Some t \<or> tq_numCreated q < tm_sequence t)"

lemma tq_frame_refl [simp]: "tq_frame X q q"
  by (simp add: tq_frame_def)

lemma tq_frame_trans: "tq_frame X q q' \<Longrightarrow> tq_frame X q' q'' \<Longrightarrow> tq_frame X q q''"
  unfolding tq_frame_def by (fastforce intro: order_trans)

lemma tq_frame_log:
  assumes "tq_frame X (q\<lparr>tq_log := l\<rparr>) q1" and "tq_frame X (q1\<lparr>tq_log := l'\<rparr>) q2"
  shows "tq_frame X (q\<lparr>tq_log := l'\<rparr>) q2"
proof -
  have "tq_frame X (q\<lparr>tq_log := l'\<rparr>) (q1\<lparr>tq_log := l'\<rparr>)"
    using assms(1) by (simp add: tq_frame_def)
  then show ?thesis using assms(2) by (rule tq_frame_trans)
qed

text \<open>The allocator: a free address, never the greatest one.\<close>

definition alloc_ok :: "((nat \<Rightarrow> timer option) \<Rightarrow> nat option) \<Rightarrow> bool" where
  "alloc_ok alloc \<longleftrightarrow> (\<forall>h p. alloc h = Some p \<longrightarrow> h p = None \<and> p < UINTPTR_MAX)"

lemma TimerQueue_addTimerInLoop_ok:
  assumes inv: "tq_inv X q" and p: "p \<in> X" and t: "tq_heap q p = Some t" and tid: "tid = tq_owner q"
  shows "\<exists>q'. TimerQueue_addTimerInLoop tid p q = Inr q' \<and> tq_inv (X - {p}) q' \<and> tq_frame X q q' \<and>
     tq_heap q' = tq_heap q \<and> tq_pending q' = tq_pending q \<and> tq_clock q' = tq_clock q \<and>
     tq_canceling q' = tq_canceling q \<and>
     set (tq_active q') = insert (p, tm_sequence t) (set (tq_active q)) \<and>
     (armed_ok q \<longrightarrow> armed_ok q')"
proof -
  define q1 where "q1 = q\<lparr>tq_timers := set_insert (tm_expiration t, p) (tq_timers q),
                  tq_active := set_insert (p, tm_sequence t) (tq_active q)\<rparr>"
  define first where "first = (case tq_timers q of [] \<Rightarrow> True | e # es \<Rightarrow> tm_expiration t < fst e)"
  define q2 where "q2 = (if first then resetTimerfd (tm_expiration t) q1 else q1)"
  have run: "TimerQueue_addTimerInLoop tid p q = Inr q2"
    using TimerQueue_insert_ok(1) [OF inv p t tid] tid t
    by (simp add: TimerQueue_addTimerInLoop_def in_loop_thread_def q2_def q1_def first_def)
  have inv1: "tq_inv (X - {p}) q1"
    unfolding q1_def by (rule TimerQueue_insert_ok(2) [OF inv p t tid])
  have same: "tq_inv Y (resetTimerfd w q') = tq_inv Y q'" for Y w q'
    by (simp add: tq_inv_def resetTimerfd_def)
  have wf: "set_wf (tq_timers q)"
    using inv by (simp add: tq_inv_def timers_ok_def)
  have "armed_ok q2" if armed: "armed_ok q"
  proof (cases first)
    case True
    have "tm_expiration t \<le> e" if "(e, r) \<in> set (tq_timers q1)" for e r
    proof (cases "(e, r) \<in> set (tq_timers q)")
      case in_q: True
      then obtain z zs where z: "tq_timers q = z # zs" by (cases "tq_timers q") auto
      then have "z \<le> (e, r)" using set_wf_hd [OF wf] in_q by auto
      then have "fst z \<le> e" by (cases z) (auto simp: less_eq_prod_def)
      then show ?thesis using True z by (simp add: first_def)
    next
      case False
      then show ?thesis using that by (simp add: q1_def)
    qed
    then show ?thesis using True by (simp add: q2_def armed_ok_resetTimerfd)
  next
    case False
    then obtain z zs where z: "tq_timers q = z # zs" "fst z \<le> tm_expiration t"
      by (cases "tq_timers q") (auto simp: first_def not_less)
    obtain a where a: "tq_armed q = Some a" "alarm_time a \<le> max (fst z) (fst a + 100)"
      using armed z(1) unfolding armed_ok_def by (metis list.set_intros(1) prod.collapse)
    have "\<exists>a. tq_armed q = Some a \<and> alarm_time a \<le> max e (fst a + 100)"
      if "(e, r) = (tm_expiration t, p) \<or> (e, r) \<in> set (tq_timers q)" for e r
      using that a z(2) armed unfolding armed_ok_def by fastforce
    then show ?thesis using False by (auto simp: q2_def armed_ok_def q1_def)
  qed
  moreover have "tq_inv (X - {p}) q2"
    using inv1 same by (simp add: q2_def)
  moreover have "tq_frame X q q2" "tq_heap q2 = tq_heap q" "tq_pending q2 = tq_pending q"
    "tq_clock q2 = tq_clock q" "tq_canceling q2 = tq_canceling q"
    "set (tq_active q2) = insert (p, tm_sequence t) (set (tq_active q))"
    by (simp_all add: q2_def q1_def tq_frame_def resetTimerfd_def)
  ultimately show ?thesis
    using run by blast
qed

lemma tq_inv_alive:
  assumes "tq_inv X q" and "(p, s) \<in> set (tq_active q)"
  obtains t where "tq_heap q p = Some t" "tm_sequence t = s"
    "(tm_expiration t, p) \<in> set (tq_timers q)" "p \<notin> X \<union> set (pending_adds (tq_pending q))"
proof -
  have ok: "timers_ok (tq_heap q) (tq_timers q) (tq_active q)"
    using assms(1) by (simp add: tq_inv_def)
  obtain t where t: "tq_heap q p = Some t" "tm_sequence t = s"
    "(tm_expiration t, p) \<in> set (tq_timers q)"
    using timers_ok_alive [OF ok assms(2)] .
  moreover have "p \<notin> X \<union> set (pending_adds (tq_pending q))"
    using tq_inv_held [OF assms(1), of p] t assms(2) by auto
  ultimately show ?thesis by (rule that)
qed

lemma TimerQueue_cancelInLoop_ok:
  assumes inv: "tq_inv X q" and tid: "tid = tq_owner q"
  shows "\<exists>q'. TimerQueue_cancelInLoop tid timer q = Inr q' \<and> tq_inv X q' \<and> tq_frame X q q' \<and>
     tq_pending q' = tq_pending q \<and> tq_clock q' = tq_clock q \<and>
     set (tq_active q') = set (tq_active q) - {timer} \<and>
     tq_heap q' = (if timer \<in> set (tq_active q) then (tq_heap q)(fst timer := None) else tq_heap q) \<and>
     (tq_calling q \<and> timer \<notin> set (tq_active q) \<longrightarrow> timer \<in> set (tq_canceling q')) \<and>
     (armed_ok q \<longrightarrow> armed_ok q')"
proof (cases "timer \<in> set (tq_active q)")
  case False
  then show ?thesis
    using inv tid tq_inv_size [OF inv]
    by (auto simp: TimerQueue_cancelInLoop_def in_loop_thread_def same_size_def tq_inv_def
        tq_frame_def armed_ok_def)
next
  case True
  obtain p s where timer: "timer = (p, s)" by (cases timer)
  obtain t where t: "tq_heap q p = Some t" "tm_sequence t = s"
    "(tm_expiration t, p) \<in> set (tq_timers q)" "p \<notin> X \<union> set (pending_adds (tq_pending q))"
    using tq_inv_alive [OF inv] True timer by metis
  define q' where "q' = q\<lparr>tq_timers := set_erase (tm_expiration t, p) (tq_timers q),
      tq_heap := (tq_heap q)(p := None), tq_active := set_erase (p, s) (tq_active q)\<rparr>"
  have ok: "timers_ok (tq_heap q) (tq_timers q) (tq_active q)"
    using inv by (simp add: tq_inv_def)
  have only: "r \<noteq> p" if "(r, s') \<in> set (set_erase (p, s) (tq_active q))" for r s'
  proof
    assume "r = p"
    then have "(p, s') \<in> set (tq_active q)" using that by simp
    then have "s' = s" using timers_ok_alive [OF ok] t(1,2) by (metis option.inject)
    then show False using that \<open>r = p\<close> by simp
  qed
  have ok': "timers_ok (tq_heap q') (tq_timers q') (tq_active q')"
    unfolding q'_def using timers_ok_erase [where h = "tq_heap q" and p = p, OF ok t(1)] t(2) only
    by (auto intro: timers_ok_heap simp del: set_set_erase)
  have "same_size q'"
    using timers_ok_size [OF ok'] by (simp add: same_size_def)
  then have run: "TimerQueue_cancelInLoop tid timer q = Inr q'"
    using tid tq_inv_size [OF inv] True t timer
    by (simp add: TimerQueue_cancelInLoop_def in_loop_thread_def q'_def)
  have "held_ok (tq_heap q') (tq_active q') (X \<union> set (pending_adds (tq_pending q)))"
    unfolding held_ok_def
  proof
    fix r assume r: "r \<in> X \<union> set (pending_adds (tq_pending q))"
    then have "r \<noteq> p" using t(4) by blast
    then show "\<exists>t. tq_heap q' r = Some t \<and> (r, tm_sequence t) \<notin> set (tq_active q')"
      using tq_inv_held [OF inv r] by (auto simp: q'_def)
  qed
  moreover have "heap_ok (tq_heap q') (tq_numCreated q')"
    using inv heap_ok_remove by (simp add: tq_inv_def q'_def)
  ultimately have "tq_inv X q'"
    using inv ok' by (simp add: tq_inv_def q'_def)
  moreover have "tq_frame X q q'"
    using t(4) by (auto simp: tq_frame_def q'_def)
  moreover have "armed_ok q'" if "armed_ok q"
    by (rule armed_ok_subset [OF that]) (auto simp: q'_def)
  ultimately show ?thesis
    using run True timer by (intro exI [of _ q']) (simp add: q'_def)
qed

text \<open>Creating a timer: it is held until it is added.\<close>

lemma tq_inv_create:
  assumes inv: "tq_inv X q" and p: "tq_heap q p = None" "p < UINTPTR_MAX"
    and q1_def: "q1 = q\<lparr>tq_numCreated := tq_numCreated q + 1,
      tq_heap := (tq_heap q)(p \<mapsto> Timer_new (tq_numCreated q + 1) cb when interval)\<rparr>"
  shows "tq_inv (insert p X) q1" and "tq_frame X q q1" and "p \<notin> X"
    and "p \<notin> set (pending_adds (tq_pending q))"
proof -
  have held: "q' \<noteq> p" if "q' \<in> X \<union> set (pending_adds (tq_pending q))" for q'
    using tq_inv_held [OF inv that] p(1) by auto
  show new: "p \<notin> X" "p \<notin> set (pending_adds (tq_pending q))"
    using held by auto
  have ok: "timers_ok (tq_heap q) (tq_timers q) (tq_active q)"
    using inv by (simp add: tq_inv_def)
  have not_active: "r \<noteq> p" if "(r, s) \<in> set (tq_active q)" for r s
    using timers_ok_alive [OF ok that] p(1) by (metis option.distinct(1))
  have "timers_ok (tq_heap q1) (tq_timers q1) (tq_active q1)"
    using timers_ok_heap [OF ok, of "tq_heap q1"] not_active by (simp add: q1_def)
  moreover have "heap_ok (tq_heap q1) (tq_numCreated q1)"
    using inv p(2) heap_ok_create unfolding tq_inv_def q1_def by simp
  moreover have "held_ok (tq_heap q1) (tq_active q1) (insert p X \<union> set (pending_adds (tq_pending q1)))"
    using inv held not_active unfolding tq_inv_def held_ok_def q1_def by auto
  ultimately show "tq_inv (insert p X) q1"
    using inv new by (auto simp: tq_inv_def q1_def)
  show "tq_frame X q q1"
    using new p(1) by (auto simp: tq_frame_def q1_def Timer_new_def)
qed

lemma tq_frame_subset: "tq_frame Y q q' \<Longrightarrow> X \<subseteq> Y \<Longrightarrow> tq_frame X q q'"
  by (auto simp: tq_frame_def)

lemma tq_inv_queue_add:
  "tq_inv (insert p X) q \<Longrightarrow> p \<notin> X \<Longrightarrow> tq_inv X (q\<lparr>tq_pending := tq_pending q @ [Add_task p]\<rparr>)"
  by (auto simp: tq_inv_def held_ok_def)

text \<open>What is proved of every public operation, at once: it fails only when memory runs out, keeps
  the invariant and the frame, and does not disarm the alarm.\<close>

definition keeps_queue :: "nat set \<Rightarrow> bool \<Rightarrow> timer_queue \<Rightarrow> timer_queue result \<Rightarrow> bool" where
  "keeps_queue X pos q r \<longleftrightarrow> r = Inl Out_of_memory \<or>
     (\<exists>q'. r = Inr q' \<and> tq_inv X q' \<and> tq_frame X q q' \<and> (armed_ok q \<longrightarrow> armed_ok q') \<and>
        (pos \<longrightarrow> positive q \<longrightarrow> positive q'))"

lemma keeps_queueE:
  assumes "keeps_queue X pos q r"
  obtains "r = Inl Out_of_memory"
  | q' where "r = Inr q'" "tq_inv X q'" "tq_frame X q q'" "armed_ok q \<Longrightarrow> armed_ok q'"
      "pos \<Longrightarrow> positive q \<Longrightarrow> positive q'"
  using assms unfolding keeps_queue_def by blast

lemma keeps_queueI:
  "r = Inr q' \<Longrightarrow> tq_inv X q' \<Longrightarrow> tq_frame X q q' \<Longrightarrow> (armed_ok q \<Longrightarrow> armed_ok q') \<Longrightarrow>
   (pos \<Longrightarrow> positive q \<Longrightarrow> positive q') \<Longrightarrow> keeps_queue X pos q r"
  unfolding keeps_queue_def by blast

lemma keeps_queue_foldR:
  assumes step: "\<And>q x. tq_inv X q \<Longrightarrow> x \<in> set xs \<Longrightarrow> keeps_queue X (pos x) q (f q x)" and "tq_inv X q"
  shows "keeps_queue X (\<forall>x \<in> set xs. pos x) q (foldR f q xs)"
  using assms
proof (induction xs arbitrary: q)
  case Nil
  then show ?case by (auto intro: keeps_queueI)
next
  case (Cons x xs)
  have "keeps_queue X (pos x) q (f q x)"
    using Cons.prems(1) [OF Cons.prems(2)] by simp
  then show ?case
  proof (cases rule: keeps_queueE)
    case 1
    then show ?thesis by (simp add: keeps_queue_def)
  next
    case (2 q1)
    have "keeps_queue X (\<forall>x \<in> set xs. pos x) q1 (foldR f q1 xs)"
      by (rule Cons.IH) (use Cons.prems(1) 2 in auto)
    then show ?thesis
    proof (cases rule: keeps_queueE)
      case 1
      then show ?thesis using 2 by (simp add: keeps_queue_def)
    next
      case (2 q2)
      then show ?thesis
        using \<open>f q x = Inr q1\<close> \<open>tq_frame X q q1\<close> \<open>armed_ok q \<Longrightarrow> armed_ok q1\<close>
          \<open>pos x \<Longrightarrow> positive q \<Longrightarrow> positive q1\<close>
        by (auto intro!: keeps_queueI [of _ q2] intro: tq_frame_trans)
    qed
  qed
qed

lemma TimerQueue_cancel_keeps:
  assumes inv: "tq_inv X q"
  shows "keeps_queue X pos q (TimerQueue_cancel tid timer q)"
proof (cases "tid = tq_owner q")
  case True
  obtain q' where q': "TimerQueue_cancelInLoop tid timer q = Inr q'" "tq_inv X q'" "tq_frame X q q'"
    "tq_clock q' = tq_clock q" "armed_ok q \<longrightarrow> armed_ok q'"
    "tq_heap q' = (if timer \<in> set (tq_active q) then (tq_heap q)(fst timer := None) else tq_heap q)"
    using TimerQueue_cancelInLoop_ok [OF inv True] by blast
  then show ?thesis
    using True by (intro keeps_queueI [of _ q'])
      (auto simp: TimerQueue_cancel_def TimerQueue_runInLoop_def TimerQueue_run_task_def positive_def
        split: if_splits)
next
  case False
  have "tq_inv X (q\<lparr>tq_pending := tq_pending q @ [Cancel_task timer]\<rparr>)"
    using inv by (simp add: tq_inv_def)
  then show ?thesis
    using False by (intro keeps_queueI [of _ "q\<lparr>tq_pending := tq_pending q @ [Cancel_task timer]\<rparr>"])
      (auto simp: TimerQueue_cancel_def TimerQueue_runInLoop_def tq_frame_def armed_ok_def positive_def)
qed

text \<open>Adding a timer, in any thread: its id becomes scheduled, or is queued.\<close>

lemma TimerQueue_addTimer_ok:
  assumes inv: "tq_inv X q" and alloc: "alloc_ok alloc"
  shows "TimerQueue_addTimer alloc tid cb when interval q = Inl Out_of_memory \<or>
    (\<exists>p q'. TimerQueue_addTimer alloc tid cb when interval q = Inr ((p, tq_numCreated q + 1), q') \<and>
       tq_inv X q' \<and> tq_frame X q q' \<and> tq_heap q p = None \<and>
       tq_heap q' = (tq_heap q)(p \<mapsto> Timer_new (tq_numCreated q + 1) cb when interval) \<and>
       tq_clock q' = tq_clock q \<and> (armed_ok q \<longrightarrow> armed_ok q') \<and>
       (if tid = tq_owner q
        then set (tq_active q') = insert (p, tq_numCreated q + 1) (set (tq_active q)) \<and>
          tq_pending q' = tq_pending q
        else tq_active q' = tq_active q \<and> tq_pending q' = tq_pending q @ [Add_task p]))"
proof (cases "alloc (tq_heap q)")
  case None
  then show ?thesis by (simp add: TimerQueue_addTimer_def TimerQueue_addTimer_begin_def)
next
  case (Some p)
  have p: "tq_heap q p = None" "p < UINTPTR_MAX"
    using alloc Some unfolding alloc_ok_def by blast+
  define t where "t = Timer_new (tq_numCreated q + 1) cb when interval"
  define q1 where "q1 = q\<lparr>tq_numCreated := tq_numCreated q + 1,
      tq_heap := (tq_heap q)(p \<mapsto> t)\<rparr>"
  note create = tq_inv_create [OF inv p q1_def [unfolded t_def]]
  have t: "tq_heap q1 p = Some t" "tm_sequence t = tq_numCreated q + 1"
    by (simp_all add: q1_def t_def Timer_new_def)
  have armed: "armed_ok q1 \<longleftrightarrow> armed_ok q"
    by (simp add: armed_ok_def q1_def)
  show ?thesis
  proof (cases "tid = tq_owner q")
    case True
    obtain q2 where q2: "TimerQueue_addTimerInLoop tid p q1 = Inr q2" "tq_inv (insert p X - {p}) q2"
      "tq_frame (insert p X) q1 q2" "tq_heap q2 = tq_heap q1" "tq_pending q2 = tq_pending q1"
      "tq_clock q2 = tq_clock q1" "armed_ok q1 \<longrightarrow> armed_ok q2"
      "set (tq_active q2) = insert (p, tm_sequence t) (set (tq_active q1))"
      using TimerQueue_addTimerInLoop_ok [where X = "insert p X" and q = q1 and p = p, OF create(1) _ t(1),
          of tid] True by (auto simp: q1_def)
    have "TimerQueue_addTimer alloc tid cb when interval q = Inr ((p, tq_numCreated q + 1), q2)"
      using Some True q2(1,4) t
      by (simp add: TimerQueue_addTimer_def TimerQueue_addTimer_begin_def TimerQueue_runInLoop_def
          TimerQueue_run_task_def TimerQueue_addTimer_return_def Let_def q1_def t_def)
    moreover have "tq_inv X q2" using q2(2) create(3) by simp
    moreover have "tq_frame X q q2"
      using tq_frame_trans [OF create(2)] tq_frame_subset [OF q2(3), of X] by blast
    ultimately show ?thesis
      using q2 True armed p(1) t(2) by (auto simp: q1_def t_def)
  next
    case False
    define q2 where "q2 = q1\<lparr>tq_pending := tq_pending q1 @ [Add_task p]\<rparr>"
    have "TimerQueue_addTimer alloc tid cb when interval q = Inr ((p, tq_numCreated q + 1), q2)"
      using Some False t
      by (simp add: TimerQueue_addTimer_def TimerQueue_addTimer_begin_def TimerQueue_runInLoop_def
          TimerQueue_addTimer_return_def Let_def q1_def q2_def t_def)
    moreover have "tq_inv X q2"
      unfolding q2_def by (rule tq_inv_queue_add [OF create(1,3)])
    moreover have "tq_frame X q q2"
      using create(2) by (simp add: tq_frame_def q2_def)
    moreover have "armed_ok q2 \<longleftrightarrow> armed_ok q1"
      by (simp add: armed_ok_def q2_def)
    ultimately show ?thesis
      using False armed p(1) by (auto simp: q1_def q2_def t_def)
  qed
qed

text \<open>The first half of \<open>addTimer\<close> does all that the call does to the queue.\<close>

lemma TimerQueue_begin_is_add:
  assumes "tq_inv X q" and "alloc_ok alloc"
  shows "andThen (TimerQueue_addTimer_begin alloc tid cb due interval q) (\<lambda>(p, q'). Inr q') =
    TimerQueue_command alloc tid q (Add_timer cb due interval)"
  using TimerQueue_addTimer_ok [OF assms, of tid cb due interval]
  by (cases "TimerQueue_addTimer_begin alloc tid cb due interval q")
    (auto simp: TimerQueue_addTimer_def TimerQueue_addTimer_return_def result_simps deref_def split: option.splits)

lemma TimerQueue_command_keeps:
  assumes inv: "tq_inv X q" and alloc: "alloc_ok alloc"
  shows "keeps_queue X (positive_command cmd) q (TimerQueue_command alloc tid q cmd)"
proof (cases cmd)
  case (Add_timer cb due interval)
  from TimerQueue_addTimer_ok [OF inv alloc, of tid cb due interval] show ?thesis
  proof
    assume "TimerQueue_addTimer alloc tid cb due interval q = Inl Out_of_memory"
    then show ?thesis by (simp add: keeps_queue_def Add_timer)
  next
    assume "\<exists>p q'. TimerQueue_addTimer alloc tid cb due interval q = Inr ((p, tq_numCreated q + 1), q') \<and>
       tq_inv X q' \<and> tq_frame X q q' \<and> tq_heap q p = None \<and>
       tq_heap q' = (tq_heap q)(p \<mapsto> Timer_new (tq_numCreated q + 1) cb due interval) \<and>
       tq_clock q' = tq_clock q \<and> (armed_ok q \<longrightarrow> armed_ok q') \<and>
       (if tid = tq_owner q
        then set (tq_active q') = insert (p, tq_numCreated q + 1) (set (tq_active q)) \<and>
          tq_pending q' = tq_pending q
        else tq_active q' = tq_active q \<and> tq_pending q' = tq_pending q @ [Add_task p])"
    then obtain p q' where q': "TimerQueue_addTimer alloc tid cb due interval q =
        Inr ((p, tq_numCreated q + 1), q')" "tq_inv X q'" "tq_frame X q q'"
      "tq_heap q' = (tq_heap q)(p \<mapsto> Timer_new (tq_numCreated q + 1) cb due interval)"
      "tq_clock q' = tq_clock q" "armed_ok q \<longrightarrow> armed_ok q'" by blast
    then show ?thesis
      by (intro keeps_queueI [of _ q']) (auto simp: Add_timer positive_def Timer_new_def)
  qed
next
  case (Cancel_timer timer)
  then show ?thesis using TimerQueue_cancel_keeps [OF inv] by simp
next
  case (Pass_time t)
  have "tq_inv X (q\<lparr>tq_clock := t\<rparr>)" using inv by (simp add: tq_inv_def)
  then show ?thesis
    by (intro keeps_queueI [of _ "q\<lparr>tq_clock := t\<rparr>"])
      (auto simp: Pass_time tq_frame_def armed_ok_def positive_def)
qed

end
