(* ===== verification/Timer_Expiry.thy ===== *)
theory Timer_Expiry
  imports Timer_Queue
begin

text \<open>
  \<open>TimerQueue::handleRead\<close> on a well-formed queue, and the properties of the queue: which timers
  run, in which order, what becomes of them, that nothing fails, that the descriptor is armed.
\<close>

section \<open>Expiry of a well-formed queue\<close>

text \<open>The entries that are due, in the order of their expiration, and what running one records.\<close>

definition due :: "timestamp \<Rightarrow> (timestamp \<times> nat) list \<Rightarrow> (timestamp \<times> nat) list" where
  "due now T = filter (\<lambda>e. fst e \<le> now) T"

definition log_entry :: "(nat \<Rightarrow> timer option) \<Rightarrow> timestamp \<times> nat \<Rightarrow> nat \<times> int \<times> timestamp" where
  "log_entry h it =
     (tm_callback (the (h (snd it))), tm_sequence (the (h (snd it))), tm_expiration (the (h (snd it))))"

lemma takeWhile_dropWhile_filter:
  assumes "sorted_wrt (<) (xs :: 'a::linorder list)" and "\<And>x y. x < y \<Longrightarrow> P y \<Longrightarrow> P x"
  shows "takeWhile P xs = filter P xs \<and> dropWhile P xs = filter (\<lambda>x. \<not> P x) xs"
  using assms(1)
proof (induction xs)
  case (Cons x xs)
  have none: "\<forall>y \<in> set xs. \<not> P y" if "\<not> P x" using Cons.prems assms(2) that by auto
  have "takeWhile P xs = filter P xs \<and> dropWhile P xs = filter (\<lambda>x. \<not> P x) xs"
    using Cons by simp
  moreover have "filter P xs = [] \<and> filter (\<lambda>x. \<not> P x) xs = xs" if "\<not> P x"
    using none [OF that] by (simp add: filter_empty_conv)
  ultimately show ?case by auto
qed simp

lemma due_split:
  assumes inv: "tq_inv X q"
  shows "set_below (now, UINTPTR_MAX) (tq_timers q) = due now (tq_timers q)"
    and "set_from (now, UINTPTR_MAX) (tq_timers q) = filter (\<lambda>e. \<not> fst e \<le> now) (tq_timers q)"
proof -
  have wf: "sorted_wrt (<) (tq_timers q)"
    using inv by (simp add: tq_inv_def timers_ok_def set_wf_def)
  have bound: "snd e < UINTPTR_MAX" if "e \<in> set (tq_timers q)" for e
    using inv that unfolding tq_inv_def timers_ok_def heap_ok_def by auto
  have same: "e < (now, UINTPTR_MAX) \<longleftrightarrow> fst e \<le> now" if "e \<in> set (tq_timers q)" for e
    using bound [OF that] by (cases e) (auto simp: less_prod_def)
  have mono: "x < y \<Longrightarrow> y < (now, UINTPTR_MAX) \<Longrightarrow> x < (now, UINTPTR_MAX)" for x y :: "timestamp \<times> nat"
    by (rule less_trans)
  show "set_below (now, UINTPTR_MAX) (tq_timers q) = due now (tq_timers q)"
    unfolding set_below_def due_def
    using takeWhile_dropWhile_filter [where P = "\<lambda>e. e < (now, UINTPTR_MAX)", OF wf mono] same
    by (simp cong: filter_cong)
  show "set_from (now, UINTPTR_MAX) (tq_timers q) = filter (\<lambda>e. \<not> fst e \<le> now) (tq_timers q)"
    unfolding set_from_def
    using takeWhile_dropWhile_filter [where P = "\<lambda>e. e < (now, UINTPTR_MAX)", OF wf mono] same
    by (simp cong: filter_cong)
qed

lemma foldR_deactivate:
  assumes "\<forall>p \<in> snd ` set es. \<exists>t. tq_heap q p = Some t \<and> (p, tm_sequence t) \<in> set (tq_active q)"
    and "distinct (map snd es)" and "set_wf (tq_active q)"
  shows "\<exists>A. foldR TimerQueue_deactivate q es = Inr (q\<lparr>tq_active := A\<rparr>) \<and> set_wf A \<and>
     set A = {(p, s) \<in> set (tq_active q). p \<in> snd ` set es \<longrightarrow>
        (\<forall>t. tq_heap q p = Some t \<longrightarrow> s \<noteq> tm_sequence t)}"
  using assms
proof (induction es arbitrary: q)
  case Nil
  then show ?case by (intro exI [of _ "tq_active q"]) auto
next
  case (Cons x es)
  obtain e p where x: "x = (e, p)" by (cases x)
  obtain t where t: "tq_heap q p = Some t" "(p, tm_sequence t) \<in> set (tq_active q)"
    using Cons.prems(1) x by auto
  define q1 where "q1 = q\<lparr>tq_active := set_erase (p, tm_sequence t) (tq_active q)\<rparr>"
  have head: "TimerQueue_deactivate q x = Inr q1"
    using x t by (simp add: TimerQueue_deactivate_def q1_def)
  have new: "p \<notin> snd ` set es" using Cons.prems(2) x by auto
  then have "\<forall>r \<in> snd ` set es. \<exists>t. tq_heap q1 r = Some t \<and> (r, tm_sequence t) \<in> set (tq_active q1)"
    using Cons.prems(1) by (auto simp: q1_def)
  then obtain A where A: "foldR TimerQueue_deactivate q1 es = Inr (q1\<lparr>tq_active := A\<rparr>)" "set_wf A"
    "set A = {(p, s) \<in> set (tq_active q1). p \<in> snd ` set es \<longrightarrow>
        (\<forall>t. tq_heap q1 p = Some t \<longrightarrow> s \<noteq> tm_sequence t)}"
    using Cons.IH [of q1] Cons.prems(2,3) by (auto simp: q1_def)
  then show ?case
    using head x t new by (intro exI [of _ A]) (auto simp: q1_def)
qed

lemma TimerQueue_getExpired_ok:
  assumes inv: "tq_inv {} q" and ex_def: "ex = due now (tq_timers q)"
  shows "\<exists>A. TimerQueue_getExpired now q =
       Inr (ex, q\<lparr>tq_timers := filter (\<lambda>e. \<not> fst e \<le> now) (tq_timers q), tq_active := A\<rparr>) \<and>
     tq_inv (snd ` set ex)
       (q\<lparr>tq_timers := filter (\<lambda>e. \<not> fst e \<le> now) (tq_timers q), tq_active := A\<rparr>) \<and>
     set A = {(p, s) \<in> set (tq_active q). p \<notin> snd ` set ex}"
    and "distinct (map snd ex)"
    and "\<And>e p. (e, p) \<in> set ex \<Longrightarrow>
        \<exists>t. tq_heap q p = Some t \<and> tm_expiration t = e \<and> (p, tm_sequence t) \<in> set (tq_active q)"
proof -
  define rest where "rest = filter (\<lambda>e. \<not> fst e \<le> now) (tq_timers q)"
  have ok: "timers_ok (tq_heap q) (tq_timers q) (tq_active q)"
    using inv by (simp add: tq_inv_def)
  show mem: "\<exists>t. tq_heap q p = Some t \<and> tm_expiration t = e \<and> (p, tm_sequence t) \<in> set (tq_active q)"
    if "(e, p) \<in> set ex" for e p
    using that ok by (auto simp: ex_def due_def timers_ok_mem)
  show dist: "distinct (map snd ex)"
    unfolding distinct_map
  proof
    show "distinct ex"
      using ok by (simp add: ex_def due_def timers_ok_def set_wf_distinct)
    show "inj_on snd (set ex)"
      by (rule inj_onI) (metis mem option.inject prod.collapse)
  qed
  have wf: "set_wf (tq_active q)" using ok by (simp add: timers_ok_def)
  have "\<forall>p \<in> snd ` set ex. \<exists>t. tq_heap q p = Some t \<and> (p, tm_sequence t) \<in> set (tq_active q)"
    using mem by fastforce
  then obtain A where A: "foldR TimerQueue_deactivate (q\<lparr>tq_timers := rest\<rparr>) ex =
      Inr (q\<lparr>tq_timers := rest, tq_active := A\<rparr>)" "set_wf A"
    and set_A: "set A = {(p, s) \<in> set (tq_active q). p \<in> snd ` set ex \<longrightarrow>
        (\<forall>t. tq_heap q p = Some t \<longrightarrow> s \<noteq> tm_sequence t)}"
    using foldR_deactivate [of ex "q\<lparr>tq_timers := rest\<rparr>"] dist wf by auto
  have A_eq: "set A = {(p, s) \<in> set (tq_active q). p \<notin> snd ` set ex}"
  proof -
    have "\<exists>t. tq_heap q p = Some t \<and> s = tm_sequence t" if "(p, s) \<in> set (tq_active q)" for p s
      using timers_ok_alive [OF ok that] by metis
    then show ?thesis unfolding set_A by blast
  qed
  have in_rest: "(e, p) \<in> set rest \<longleftrightarrow> (e, p) \<in> set (tq_timers q) \<and> p \<notin> snd ` set ex" for e p
  proof
    assume "(e, p) \<in> set rest"
    moreover from this have "p \<notin> snd ` set ex"
      using ok mem by (fastforce simp: rest_def timers_ok_mem ex_def due_def)
    ultimately show "(e, p) \<in> set (tq_timers q) \<and> p \<notin> snd ` set ex"
      by (simp add: rest_def)
  next
    assume "(e, p) \<in> set (tq_timers q) \<and> p \<notin> snd ` set ex"
    then show "(e, p) \<in> set rest" by (force simp: rest_def ex_def due_def)
  qed
  define q' where "q' = q\<lparr>tq_timers := rest, tq_active := A\<rparr>"
  have wf_rest: "set_wf rest"
    using ok unfolding rest_def set_wf_def timers_ok_def by (auto intro: sorted_wrt_filter)
  have "set rest = {(tm_expiration t, p) | p t. tq_heap q p = Some t \<and> (p, tm_sequence t) \<in> set A}"
  proof (rule set_eqI)
    fix z :: "timestamp \<times> nat"
    obtain e p where z: "z = (e, p)" by (cases z)
    show "z \<in> set rest \<longleftrightarrow>
        z \<in> {(tm_expiration t, p) | p t. tq_heap q p = Some t \<and> (p, tm_sequence t) \<in> set A}"
      unfolding z in_rest A_eq timers_ok_mem [OF ok] by auto
  qed
  then have ok': "timers_ok (tq_heap q) rest A"
    using ok wf_rest A(2) unfolding timers_ok_def A_eq by auto
  have "held_ok (tq_heap q) A (snd ` set ex \<union> set (pending_adds (tq_pending q)))"
    using inv mem unfolding held_ok_def tq_inv_def A_eq by fastforce
  moreover have "snd ` set ex \<inter> set (pending_adds (tq_pending q)) = {}"
    using mem tq_inv_held [OF inv] by fastforce
  ultimately have inv': "tq_inv (snd ` set ex) q'"
    using inv ok' by (simp add: tq_inv_def q'_def)
  have "\<forall>e \<in> set rest. now < fst e" by (auto simp: rest_def)
  then have late: "case rest of [] \<Rightarrow> True | e # es \<Rightarrow> now < fst e" by (cases rest) auto
  have "TimerQueue_getExpired now q = Inr (ex, q')"
    using tq_inv_size [OF inv] tq_inv_size [OF inv'] A(1) late
    by (simp add: TimerQueue_getExpired_def due_split [OF inv] Let_def ex_def rest_def q'_def)
  then show "\<exists>A. TimerQueue_getExpired now q =
       Inr (ex, q\<lparr>tq_timers := filter (\<lambda>e. \<not> fst e \<le> now) (tq_timers q), tq_active := A\<rparr>) \<and>
     tq_inv (snd ` set ex)
       (q\<lparr>tq_timers := filter (\<lambda>e. \<not> fst e \<le> now) (tq_timers q), tq_active := A\<rparr>) \<and>
     set A = {(p, s) \<in> set (tq_active q). p \<notin> snd ` set ex}"
    using inv' A_eq by (auto simp: q'_def rest_def)
qed

text \<open>Running the expired timers: each callback once, in order.\<close>

definition positive_behave :: "(nat \<Rightarrow> timer_queue \<Rightarrow> timer_command list) \<Rightarrow> bool" where
  "positive_behave behave \<longleftrightarrow> (\<forall>cb q. \<forall>c \<in> set (behave cb q). positive_command c)"

lemma Timer_run_keeps:
  assumes inv: "tq_inv X q" and alloc: "alloc_ok alloc" and it: "snd it \<in> X"
  defines "q1 \<equiv> q\<lparr>tq_log := tq_log q @ [log_entry (tq_heap q) it]\<rparr>"
  shows "keeps_queue X (positive_behave behave) q1 (Timer_run alloc behave tid q it)"
proof -
  obtain t where t: "tq_heap q (snd it) = Some t"
    using tq_inv_held [OF inv, of "snd it"] it by auto
  have inv1: "tq_inv X q1" using inv by (simp add: tq_inv_def q1_def)
  have "Timer_run alloc behave tid q it =
      foldR (TimerQueue_command alloc tid) q1 (behave (tm_callback t) q1)"
    using t by (simp add: Timer_run_def Let_def q1_def log_entry_def)
  moreover have "keeps_queue X (\<forall>c \<in> set (behave (tm_callback t) q1). positive_command c) q1
      (foldR (TimerQueue_command alloc tid) q1 (behave (tm_callback t) q1))"
    by (rule keeps_queue_foldR [OF _ inv1]) (rule TimerQueue_command_keeps [OF _ alloc])
  ultimately show ?thesis
    unfolding keeps_queue_def positive_behave_def by auto
qed

lemma Timer_runs_keep:
  assumes inv: "tq_inv X q" and alloc: "alloc_ok alloc" and its: "snd ` set its \<subseteq> X"
  defines "q1 \<equiv> q\<lparr>tq_log := tq_log q @ map (log_entry (tq_heap q)) its\<rparr>"
  shows "keeps_queue X (positive_behave behave) q1 (foldR (Timer_run alloc behave tid) q its)"
  using inv its unfolding q1_def
proof (induction its arbitrary: q)
  case Nil
  then show ?case by (auto intro: keeps_queueI)
next
  case (Cons it its)
  define l where "l = log_entry (tq_heap q) it"
  have "keeps_queue X (positive_behave behave) (q\<lparr>tq_log := tq_log q @ [l]\<rparr>) (Timer_run alloc behave tid q it)"
    unfolding l_def by (rule Timer_run_keeps [OF Cons.prems(1) alloc]) (use Cons.prems(2) in simp)
  then show ?case
  proof (cases rule: keeps_queueE)
    case 1
    then show ?thesis by (simp add: keeps_queue_def)
  next
    case (2 q2)
    have same: "map (log_entry (tq_heap q2)) its = map (log_entry (tq_heap q)) its"
      using 2(3) Cons.prems(2) by (auto simp: tq_frame_def log_entry_def)
    have log: "tq_log q2 = tq_log q @ [l]" using 2(3) by (simp add: tq_frame_def)
    have "keeps_queue X (positive_behave behave)
        (q2\<lparr>tq_log := tq_log q2 @ map (log_entry (tq_heap q2)) its\<rparr>)
        (foldR (Timer_run alloc behave tid) q2 its)"
      by (rule Cons.IH [OF 2(2)]) (use Cons.prems(2) in simp)
    then show ?thesis
    proof (cases rule: keeps_queueE)
      case 1
      then show ?thesis using 2 by (simp add: keeps_queue_def)
    next
      case (2 q3)
      show ?thesis
      proof (rule keeps_queueI [of _ q3])
        show "foldR (Timer_run alloc behave tid) q (it # its) = Inr q3"
          using \<open>Timer_run alloc behave tid q it = Inr q2\<close> 2(1) by simp
        show "tq_frame X (q\<lparr>tq_log := tq_log q @ map (log_entry (tq_heap q)) (it # its)\<rparr>) q3"
          using tq_frame_log [OF \<open>tq_frame X (q\<lparr>tq_log := tq_log q @ [l]\<rparr>) q2\<close> 2(3)] log same
          by (simp add: l_def)
        have unlogged: "armed_ok (q\<lparr>tq_log := l1\<rparr>) = armed_ok q" "positive (q\<lparr>tq_log := l1\<rparr>) = positive q"
          for q l1 by (simp_all add: armed_ok_def positive_def)
        show "armed_ok q3" if "armed_ok (q\<lparr>tq_log := tq_log q @ map (log_entry (tq_heap q)) (it # its)\<rparr>)"
          using that \<open>armed_ok (q\<lparr>tq_log := tq_log q @ [l]\<rparr>) \<Longrightarrow> armed_ok q2\<close> 2(4) unlogged by blast
        show "positive q3" if "positive_behave behave"
          "positive (q\<lparr>tq_log := tq_log q @ map (log_entry (tq_heap q)) (it # its)\<rparr>)"
          using that 2(5) unlogged
            \<open>positive_behave behave \<Longrightarrow> positive (q\<lparr>tq_log := tq_log q @ [l]\<rparr>) \<Longrightarrow> positive q2\<close> by blast
      qed (rule 2(2))
    qed
  qed
qed

section \<open>Rearming\<close>

text \<open>What \<open>reset\<close> does with one expired timer.\<close>

definition again :: "timer_queue \<Rightarrow> nat \<Rightarrow> timer \<Rightarrow> bool" where
  "again q p t \<longleftrightarrow> tm_repeat t \<and> (p, tm_sequence t) \<notin> set (tq_canceling q)"

lemma TimerQueue_reset_one_ok:
  assumes inv: "tq_inv X q" and p: "p \<in> X" and t: "tq_heap q p = Some t"
    and fits: "again q p t \<longrightarrow> addTime_fits rnd now (tm_interval t)"
  shows "\<exists>q'. TimerQueue_reset_one rnd (tq_owner q) now q (e, p) = Inr q' \<and> tq_inv (X - {p}) q' \<and>
     tq_heap q' = (tq_heap q)(p := if again q p t then Some (Timer_restart rnd now t) else None) \<and>
     set (tq_active q') = set (tq_active q) \<union> (if again q p t then {(p, tm_sequence t)} else {}) \<and>
     tq_pending q' = tq_pending q \<and> tq_clock q' = tq_clock q \<and> tq_log q' = tq_log q \<and>
     tq_canceling q' = tq_canceling q \<and> tq_owner q' = tq_owner q \<and> tq_numCreated q' = tq_numCreated q \<and>
     tq_calling q' = tq_calling q"
proof -
  have ok: "timers_ok (tq_heap q) (tq_timers q) (tq_active q)"
    using inv by (simp add: tq_inv_def)
  have other: "r \<noteq> p" if "(r, s) \<in> set (tq_active q)" for r s
    by (rule tq_inv_alive [OF inv that]) (use p in auto)
  have not_pending: "p \<notin> set (pending_adds (tq_pending q))"
    using inv p by (auto simp: tq_inv_def)
  show ?thesis
  proof (cases "again q p t")
    case True
    define t' where "t' = Timer_restart rnd now t"
    define q1 where "q1 = q\<lparr>tq_heap := (tq_heap q)(p \<mapsto> t')\<rparr>"
    have t': "tm_sequence t' = tm_sequence t" "tm_repeat t' = tm_repeat t" "tm_interval t' = tm_interval t"
      by (simp_all add: t'_def Timer_restart_def)
    have "timers_ok (tq_heap q1) (tq_timers q1) (tq_active q1)"
      unfolding q1_def by simp (rule timers_ok_heap [OF ok], use other in auto)
    moreover have "heap_ok (tq_heap q1) (tq_numCreated q1)"
      using inv t t' unfolding tq_inv_def heap_ok_def q1_def by (auto split: if_splits)
    moreover have "held_ok (tq_heap q1) (tq_active q1) (X \<union> set (pending_adds (tq_pending q1)))"
      unfolding held_ok_def
    proof
      fix r assume r: "r \<in> X \<union> set (pending_adds (tq_pending q1))"
      then show "\<exists>t. tq_heap q1 r = Some t \<and> (r, tm_sequence t) \<notin> set (tq_active q1)"
        using tq_inv_held [OF inv, of r] other by (cases "r = p") (auto simp: q1_def)
    qed
    ultimately have inv1: "tq_inv X q1"
      using inv by (simp add: tq_inv_def q1_def)
    have t1: "tq_heap q1 p = Some t'" by (simp add: q1_def)
    note ins = TimerQueue_insert_ok [OF inv1 p t1, of "tq_owner q"]
    show ?thesis
      using ins t True fits t'(1)
      by (auto simp: TimerQueue_reset_one_def again_def q1_def t'_def)
  next
    case False
    define q1 where "q1 = q\<lparr>tq_heap := (tq_heap q)(p := None)\<rparr>"
    have "timers_ok (tq_heap q1) (tq_timers q1) (tq_active q1)"
      unfolding q1_def by simp (rule timers_ok_heap [OF ok], use other in auto)
    moreover have "heap_ok (tq_heap q1) (tq_numCreated q1)"
      using inv heap_ok_remove by (simp add: tq_inv_def q1_def)
    moreover have "held_ok (tq_heap q1) (tq_active q1) (X - {p} \<union> set (pending_adds (tq_pending q1)))"
      using inv not_pending unfolding tq_inv_def held_ok_def q1_def by auto
    ultimately have "tq_inv (X - {p}) q1"
      using inv by (auto simp: tq_inv_def q1_def)
    then show ?thesis
      using False t by (auto simp: TimerQueue_reset_one_def again_def q1_def)
  qed
qed

definition after_reset ::
  "(rat \<Rightarrow> double) \<Rightarrow> timestamp \<Rightarrow> timer_queue \<Rightarrow> nat \<Rightarrow> timer option" where
  "after_reset rnd now q p =
     (case tq_heap q p of
        None \<Rightarrow> None
      | Some t \<Rightarrow> if again q p t then Some (Timer_restart rnd now t) else None)"

text \<open>A timer that is started again goes beyond the range of \<open>int64_t\<close>.\<close>

definition restart_overflows :: "(rat \<Rightarrow> double) \<Rightarrow> timestamp \<Rightarrow> timer_queue \<Rightarrow> nat set \<Rightarrow> bool" where
  "restart_overflows rnd now q X \<longleftrightarrow>
     (\<exists>p t. p \<in> X \<and> tq_heap q p = Some t \<and> tm_repeat t \<and> \<not> addTime_fits rnd now (tm_interval t))"

lemma TimerQueue_resets_ok:
  assumes "tq_inv (snd ` set es) q" and "distinct (map snd es)"
  shows "foldR (TimerQueue_reset_one rnd (tq_owner q) now) q es = Inl Undefined_behaviour \<and>
      restart_overflows rnd now q (snd ` set es) \<or>
    (\<exists>q'. foldR (TimerQueue_reset_one rnd (tq_owner q) now) q es = Inr q' \<and> tq_inv {} q' \<and>
     tq_heap q' = (\<lambda>p. if p \<in> snd ` set es then after_reset rnd now q p else tq_heap q p) \<and>
     set (tq_active q') = set (tq_active q) \<union>
       {(p, tm_sequence t) | p t. p \<in> snd ` set es \<and> tq_heap q p = Some t \<and> again q p t} \<and>
     tq_pending q' = tq_pending q \<and> tq_clock q' = tq_clock q \<and> tq_log q' = tq_log q \<and>
     tq_owner q' = tq_owner q \<and> tq_numCreated q' = tq_numCreated q \<and> tq_calling q' = tq_calling q)"
  using assms
proof (induction es arbitrary: q)
  case Nil
  then show ?case by (auto intro!: exI [of _ q])
next
  case (Cons x es)
  obtain e p where x: "x = (e, p)" by (cases x)
  have new: "p \<notin> snd ` set es" using Cons.prems(2) x by auto
  obtain t where t: "tq_heap q p = Some t"
    using tq_inv_held [OF Cons.prems(1), of p] x by auto
  show ?case
  proof (cases "again q p t \<longrightarrow> addTime_fits rnd now (tm_interval t)")
    case False
    then have "TimerQueue_reset_one rnd (tq_owner q) now q x = Inl Undefined_behaviour"
      using t x by (auto simp: TimerQueue_reset_one_def again_def)
    moreover have "restart_overflows rnd now q (snd ` set (x # es))"
      using False t x by (auto simp: restart_overflows_def again_def)
    ultimately show ?thesis by simp
  next
    case fits: True
  obtain q1 where q1: "TimerQueue_reset_one rnd (tq_owner q) now q (e, p) = Inr q1"
    "tq_inv (snd ` set (x # es) - {p}) q1"
    "tq_heap q1 = (tq_heap q)(p := if again q p t then Some (Timer_restart rnd now t) else None)"
    "set (tq_active q1) = set (tq_active q) \<union> (if again q p t then {(p, tm_sequence t)} else {})"
    and same: "tq_pending q1 = tq_pending q" "tq_clock q1 = tq_clock q" "tq_log q1 = tq_log q"
    "tq_canceling q1 = tq_canceling q" "tq_owner q1 = tq_owner q"
    "tq_numCreated q1 = tq_numCreated q" "tq_calling q1 = tq_calling q"
    using TimerQueue_reset_one_ok [OF Cons.prems(1) _ t fits, of e] x by auto
  have "snd ` set (x # es) - {p} = snd ` set es" using new x by auto
  then have "tq_inv (snd ` set es) q1" using q1(2) by simp
  moreover have "distinct (map snd es)" using Cons.prems(2) by simp
  ultimately consider
      "foldR (TimerQueue_reset_one rnd (tq_owner q1) now) q1 es = Inl Undefined_behaviour"
      "restart_overflows rnd now q1 (snd ` set es)"
    | q2 where "foldR (TimerQueue_reset_one rnd (tq_owner q1) now) q1 es = Inr q2" "tq_inv {} q2"
      "tq_heap q2 = (\<lambda>p. if p \<in> snd ` set es then after_reset rnd now q1 p else tq_heap q1 p)"
      "set (tq_active q2) = set (tq_active q1) \<union>
         {(p, tm_sequence t) | p t. p \<in> snd ` set es \<and> tq_heap q1 p = Some t \<and> again q1 p t}"
      "tq_pending q2 = tq_pending q1" "tq_clock q2 = tq_clock q1" "tq_log q2 = tq_log q1"
      "tq_owner q2 = tq_owner q1" "tq_numCreated q2 = tq_numCreated q1" "tq_calling q2 = tq_calling q1"
    using Cons.IH [of q1] by blast
  then show ?thesis
  proof cases
    case 1
    have "restart_overflows rnd now q (snd ` set (x # es))"
      using 1(2) new unfolding restart_overflows_def q1(3) by (auto split: if_splits)
    then show ?thesis using 1(1) q1(1) same x by simp
  next
    case q2: (2 q2)
  have again_same: "again q1 = again q"
    by (simp add: again_def same fun_eq_iff)
  have "tq_heap q2 = (\<lambda>r. if r \<in> snd ` set (x # es) then after_reset rnd now q r else tq_heap q r)"
    unfolding q2(3) after_reset_def again_same q1(3) using x new t by (auto simp: fun_eq_iff)
  moreover have "set (tq_active q2) = set (tq_active q) \<union>
       {(r, tm_sequence t) | r t. r \<in> snd ` set (x # es) \<and> tq_heap q r = Some t \<and> again q r t}"
  proof -
    have "{(r, tm_sequence t) | r t. r \<in> snd ` set es \<and> tq_heap q1 r = Some t \<and> again q1 r t} =
        {(r, tm_sequence t) | r t. r \<in> snd ` set es \<and> tq_heap q r = Some t \<and> again q r t}"
    proof -
      have "tq_heap q1 r = tq_heap q r" if "r \<in> snd ` set es" for r
        using that new by (auto simp: q1(3))
      then show ?thesis unfolding again_same by (intro Collect_cong) metis
    qed
    then show ?thesis
      unfolding q2(4) q1(4) using x t by (auto split: if_splits)
  qed
  ultimately show ?thesis
    using q1(1) q2 same x by (intro disjI2 exI [of _ q2]) simp
  qed
  qed
qed

text \<open>The whole of \<open>reset\<close>: the alarm is set for the earliest timer left.\<close>

lemma tq_inv_resetTimerfd [simp]: "tq_inv X (resetTimerfd w q) = tq_inv X q"
  by (simp add: tq_inv_def resetTimerfd_def)

lemma TimerQueue_reset_ok:
  assumes inv: "tq_inv (snd ` set es) q" and "distinct (map snd es)"
  shows "TimerQueue_reset rnd (tq_owner q) es now q = Inl Undefined_behaviour \<and>
      restart_overflows rnd now q (snd ` set es) \<or>
    (\<exists>q'. TimerQueue_reset rnd (tq_owner q) es now q = Inr q' \<and> tq_inv {} q' \<and>
     tq_heap q' = (\<lambda>p. if p \<in> snd ` set es then after_reset rnd now q p else tq_heap q p) \<and>
     set (tq_active q') = set (tq_active q) \<union>
       {(p, tm_sequence t) | p t. p \<in> snd ` set es \<and> tq_heap q p = Some t \<and> again q p t} \<and>
     tq_pending q' = tq_pending q \<and> tq_clock q' = tq_clock q \<and> tq_log q' = tq_log q \<and>
     tq_owner q' = tq_owner q \<and> tq_numCreated q' = tq_numCreated q \<and> tq_calling q' = tq_calling q \<and>
     ((\<forall>p t. tq_heap q' p = Some t \<longrightarrow> 0 < tm_expiration t) \<longrightarrow> armed_ok q'))"
proof (cases "foldR (TimerQueue_reset_one rnd (tq_owner q) now) q es")
  case (Inl e)
  then show ?thesis using TimerQueue_resets_ok [OF assms, of rnd now] by (auto simp: TimerQueue_reset_def)
next
  case (Inr q0)
  obtain q1 where q1: "foldR (TimerQueue_reset_one rnd (tq_owner q) now) q es = Inr q1" "tq_inv {} q1"
    "tq_heap q1 = (\<lambda>p. if p \<in> snd ` set es then after_reset rnd now q p else tq_heap q p)"
    "set (tq_active q1) = set (tq_active q) \<union>
       {(p, tm_sequence t) | p t. p \<in> snd ` set es \<and> tq_heap q p = Some t \<and> again q p t}"
    "tq_pending q1 = tq_pending q" "tq_clock q1 = tq_clock q" "tq_log q1 = tq_log q"
    "tq_owner q1 = tq_owner q" "tq_numCreated q1 = tq_numCreated q" "tq_calling q1 = tq_calling q"
    using TimerQueue_resets_ok [OF assms, of rnd now] Inr by auto
  have ok: "timers_ok (tq_heap q1) (tq_timers q1) (tq_active q1)"
    using q1(2) by (simp add: tq_inv_def)
  show ?thesis
  proof (cases "tq_timers q1")
    case Nil
    then have "TimerQueue_reset rnd (tq_owner q) es now q = Inr q1"
      using q1(1) by (simp add: TimerQueue_reset_def Timestamp_valid_def Timestamp_invalid_def)
    moreover have "armed_ok q1" using Nil by (simp add: armed_ok_def)
    ultimately show ?thesis using q1 by blast
  next
    case (Cons z zs)
    obtain e p where z: "z = (e, p)" by (cases z)
    obtain t where t: "tq_heap q1 p = Some t" "tm_expiration t = e"
      using timers_ok_mem [OF ok, of e p] Cons z by auto
    define q2 where "q2 = (if Timestamp_valid e then resetTimerfd e q1 else q1)"
    have run: "TimerQueue_reset rnd (tq_owner q) es now q = Inr q2"
      using q1(1) Cons z t by (simp add: TimerQueue_reset_def q2_def)
    have armed: "armed_ok q2" if "0 < e"
    proof -
      have "set_wf (tq_timers q1)" using ok by (simp add: timers_ok_def)
      then have least: "z \<le> y" if "y \<in> set (tq_timers q1)" for y
        using set_wf_hd [of "tq_timers q1"] Cons that by auto
      have "e \<le> d" if "(d, r) \<in> set (tq_timers q1)" for d r
        using least [OF that] z by (auto simp: less_eq_prod_def)
      then show ?thesis
        using that by (simp add: q2_def Timestamp_valid_def armed_ok_resetTimerfd)
    qed
    have fields: "tq_heap q2 = tq_heap q1" "tq_active q2 = tq_active q1" "tq_pending q2 = tq_pending q1"
      "tq_clock q2 = tq_clock q1" "tq_log q2 = tq_log q1" "tq_owner q2 = tq_owner q1"
      "tq_numCreated q2 = tq_numCreated q1" "tq_calling q2 = tq_calling q1" "tq_inv {} q2 = tq_inv {} q1"
      by (simp_all add: q2_def resetTimerfd_def del: tq_inv_resetTimerfd)
        (simp add: tq_inv_def)
    have "armed_ok q2" if "\<forall>p t. tq_heap q2 p = Some t \<longrightarrow> 0 < tm_expiration t"
      using that t armed fields(1) by metis
    then show ?thesis
      using q1 run fields by (intro disjI2 exI [of _ q2]) simp
  qed
qed

section \<open>Cancelling while timers run\<close>

lemma TimerQueue_insert_canceling:
  "TimerQueue_insert tid p q = Inr (b, q') \<Longrightarrow> tq_canceling q' = tq_canceling q"
  by (auto simp: TimerQueue_insert_def in_loop_thread_def Let_def result_simps split: if_splits)

lemma TimerQueue_addTimerInLoop_canceling:
  "TimerQueue_addTimerInLoop tid p q = Inr q' \<Longrightarrow> tq_canceling q' = tq_canceling q"
  by (auto simp: TimerQueue_addTimerInLoop_def in_loop_thread_def result_simps resetTimerfd_def
      split: if_splits dest: TimerQueue_insert_canceling)

lemma TimerQueue_addTimer_canceling:
  "TimerQueue_addTimer alloc tid cb when interval q = Inr (i, q') \<Longrightarrow> tq_canceling q' = tq_canceling q"
  by (auto simp: TimerQueue_addTimer_def TimerQueue_addTimer_begin_def TimerQueue_runInLoop_def
      TimerQueue_run_task_def Let_def result_simps split: if_splits option.splits
      dest: TimerQueue_addTimerInLoop_canceling)

lemma TimerQueue_cancel_canceling:
  "TimerQueue_cancel tid i q = Inr q' \<Longrightarrow> set (tq_canceling q') \<subseteq> insert i (set (tq_canceling q))"
  by (auto simp: TimerQueue_cancel_def TimerQueue_runInLoop_def TimerQueue_run_task_def
      TimerQueue_cancelInLoop_def in_loop_thread_def result_simps split: if_splits)

text \<open>\<open>cancelingTimers_\<close> holds only what was cancelled.\<close>

lemma TimerQueue_commands_canceling:
  "foldR (TimerQueue_command alloc tid) q cs = Inr q' \<Longrightarrow>
   set (tq_canceling q') \<subseteq> set (tq_canceling q) \<union> {i. Cancel_timer i \<in> set cs}"
proof (induction cs arbitrary: q)
  case (Cons c cs)
  then obtain q1 where q1: "TimerQueue_command alloc tid q c = Inr q1"
    "foldR (TimerQueue_command alloc tid) q1 cs = Inr q'" by (auto simp: result_simps)
  have "set (tq_canceling q1) \<subseteq> set (tq_canceling q) \<union> {i. c = Cancel_timer i}"
    using q1(1) by (cases c) (auto simp: result_simps dest: TimerQueue_addTimer_canceling
        TimerQueue_cancel_canceling)
  then show ?case using Cons.IH [OF q1(2)] by auto
qed simp

text \<open>The calls that the callbacks of an alarm make, in order.\<close>

fun calls_of_runs ::
  "((nat \<Rightarrow> timer option) \<Rightarrow> nat option) \<Rightarrow> (nat \<Rightarrow> timer_queue \<Rightarrow> timer_command list) \<Rightarrow> int \<Rightarrow>
   timer_queue \<Rightarrow> (timestamp \<times> nat) list \<Rightarrow> timer_command list" where
  "calls_of_runs alloc behave tid q [] = []"
| "calls_of_runs alloc behave tid q (it # its) =
     (case tq_heap q (snd it) of
        None \<Rightarrow> []
      | Some t \<Rightarrow>
          behave (tm_callback t) (q\<lparr>tq_log := tq_log q @ [(tm_callback t, tm_sequence t, tm_expiration t)]\<rparr>) @
          (case Timer_run alloc behave tid q it of
             Inl e \<Rightarrow> []
           | Inr q' \<Rightarrow> calls_of_runs alloc behave tid q' its))"

definition alarm_calls ::
  "((nat \<Rightarrow> timer option) \<Rightarrow> nat option) \<Rightarrow> (nat \<Rightarrow> timer_queue \<Rightarrow> timer_command list) \<Rightarrow>
   timer_queue \<Rightarrow> timer_command list" where
  "alarm_calls alloc behave q =
     (case TimerQueue_getExpired (tq_clock q) (readTimerfd q) of
        Inl e \<Rightarrow> []
      | Inr (expired, q1) \<Rightarrow>
          calls_of_runs alloc behave (tq_owner q) (q1\<lparr>tq_calling := True, tq_canceling := []\<rparr>) expired)"

lemma Timer_runs_canceling:
  "foldR (Timer_run alloc behave tid) q its = Inr q' \<Longrightarrow>
   set (tq_canceling q') \<subseteq> set (tq_canceling q) \<union> {i. Cancel_timer i \<in> set (calls_of_runs alloc behave tid q its)}"
proof (induction its arbitrary: q)
  case (Cons it its)
  then obtain q1 where q1: "Timer_run alloc behave tid q it = Inr q1"
    "foldR (Timer_run alloc behave tid) q1 its = Inr q'" by (auto simp: result_simps)
  obtain t where t: "tq_heap q (snd it) = Some t"
    and cs: "foldR (TimerQueue_command alloc tid) (q\<lparr>tq_log := tq_log q @ [(tm_callback t, tm_sequence t, tm_expiration t)]\<rparr>)
      (behave (tm_callback t) (q\<lparr>tq_log := tq_log q @ [(tm_callback t, tm_sequence t, tm_expiration t)]\<rparr>)) = Inr q1"
    using q1(1) by (auto simp: Timer_run_def Let_def result_simps)
  show ?case
    using TimerQueue_commands_canceling [OF cs] Cons.IH [OF q1(2)] q1(1) t by auto
qed simp

text \<open>A timer that is being run and is cancelled is in it.\<close>

lemma TimerQueue_commands_record:
  assumes "tq_inv X q" and "alloc_ok alloc" and "p \<in> X" and "tq_calling q"
    and "foldR (TimerQueue_command alloc (tq_owner q)) q cs = Inr q'"
    and "Cancel_timer (p, s) \<in> set cs \<or> (p, s) \<in> set (tq_canceling q)"
    and "tq_heap q p = Some t"
  shows "(p, s) \<in> set (tq_canceling q')"
  using assms(1,4-7)
proof (induction cs arbitrary: q)
  case (Cons c cs)
  then obtain q1 where q1: "TimerQueue_command alloc (tq_owner q) q c = Inr q1"
    "foldR (TimerQueue_command alloc (tq_owner q)) q1 cs = Inr q'" by (auto simp: result_simps)
  have keeps: "tq_inv X q1" "tq_frame X q q1"
    using TimerQueue_command_keeps [OF Cons.prems(1) assms(2), of c "tq_owner q"] q1(1)
    by (auto simp: keeps_queue_def)
  have "(p, s) \<in> set (tq_canceling q1)" if "c = Cancel_timer (p, s) \<or> (p, s) \<in> set (tq_canceling q)"
    using that
  proof
    assume c: "c = Cancel_timer (p, s)"
    have "(p, s) \<notin> set (tq_active q)"
      using assms(3) by (metis tq_inv_alive [OF Cons.prems(1)] UnI1)
    then show ?thesis
      using TimerQueue_cancelInLoop_ok [OF Cons.prems(1) refl, of "(p, s)"] q1(1) Cons.prems(2) c
      by (auto simp: TimerQueue_cancel_def TimerQueue_runInLoop_def TimerQueue_run_task_def)
  next
    assume "(p, s) \<in> set (tq_canceling q)"
    then show ?thesis using keeps(2) by (auto simp: tq_frame_def)
  qed
  moreover have "tq_calling q1" "tq_owner q1 = tq_owner q" "tq_heap q1 p = Some t"
    using keeps(2) Cons.prems(2,5) assms(3) by (auto simp: tq_frame_def)
  ultimately show ?case
    using Cons.IH [OF keeps(1)] q1(2) Cons.prems(4) by auto
qed simp

text \<open>Once recorded, it stays recorded.\<close>

lemma Timer_runs_record:
  assumes "tq_inv X q" and "alloc_ok alloc" and "snd ` set its \<subseteq> X" and "p \<in> X" and "tq_calling q"
    and "foldR (Timer_run alloc behave (tq_owner q)) q its = Inr q'"
    and "(p, s) \<in> set (tq_canceling q) \<or>
      Cancel_timer (p, s) \<in> set (calls_of_runs alloc behave (tq_owner q) q its)"
  shows "(p, s) \<in> set (tq_canceling q')"
  using assms(1,3,5-7)
proof (induction its arbitrary: q)
  case (Cons it its)
  then obtain q2 where q2: "Timer_run alloc behave (tq_owner q) q it = Inr q2"
    "foldR (Timer_run alloc behave (tq_owner q)) q2 its = Inr q'" by (auto simp: result_simps)
  define q' where "q' = q\<lparr>tq_log := tq_log q @ [log_entry (tq_heap q) it]\<rparr>"
  have it: "snd it \<in> X" using Cons.prems(2) by simp
  have keeps: "tq_inv X q2" "tq_frame X q' q2"
    using Timer_run_keeps [OF Cons.prems(1) assms(2) it, of behave "tq_owner q"] q2(1)
    by (auto simp: keeps_queue_def q'_def)
  obtain t where t: "tq_heap q (snd it) = Some t"
    using tq_inv_held [OF Cons.prems(1), of "snd it"] it by auto
  obtain u where u: "tq_heap q p = Some u"
    using tq_inv_held [OF Cons.prems(1), of p] assms(4) by auto
  have "(p, s) \<in> set (tq_canceling q2)"
    if "(p, s) \<in> set (tq_canceling q) \<or> Cancel_timer (p, s) \<in> set (behave (tm_callback t) q')"
  proof (rule TimerQueue_commands_record [OF _ assms(2,4)])
    show "tq_inv X q'" using Cons.prems(1) by (simp add: tq_inv_def q'_def)
    show "tq_calling q'" using Cons.prems(3) by (simp add: q'_def)
    show "foldR (TimerQueue_command alloc (tq_owner q')) q' (behave (tm_callback t) q') = Inr q2"
      using q2(1) t by (simp add: Timer_run_def Let_def q'_def log_entry_def)
    show "Cancel_timer (p, s) \<in> set (behave (tm_callback t) q') \<or> (p, s) \<in> set (tq_canceling q')"
      using that by (auto simp: q'_def)
    show "tq_heap q' p = Some u" using u by (simp add: q'_def)
  qed
  moreover have "calls_of_runs alloc behave (tq_owner q) q (it # its) =
      behave (tm_callback t) q' @ calls_of_runs alloc behave (tq_owner q) q2 its"
    using t q2(1) by (simp add: q'_def log_entry_def)
  moreover have "tq_calling q2" "tq_owner q2 = tq_owner q"
    using keeps(2) Cons.prems(3) by (auto simp: tq_frame_def q'_def)
  ultimately show ?case
    using Cons.IH [OF keeps(1)] q2(2) Cons.prems(2,5) by auto
qed simp

section \<open>The alarm\<close>

text \<open>\<open>rounding\<close> makes periodic timers due after the time they ran at, at the earliest.\<close>

lemma TimerQueue_handleRead_ok:
  assumes inv: "tq_inv {} q" and alloc: "alloc_ok alloc"
    and ex_def: "ex = due (tq_clock q) (tq_timers q)"
  shows "TimerQueue_handleRead rnd alloc behave (tq_owner q) q = Inl Out_of_memory \<or>
    TimerQueue_handleRead rnd alloc behave (tq_owner q) q = Inl Undefined_behaviour \<and>
      restart_overflows rnd (tq_clock q) q (snd ` set ex) \<or>
    (\<exists>q2 q'. TimerQueue_handleRead rnd alloc behave (tq_owner q) q = Inr q' \<and> tq_inv {} q' \<and>
       tq_log q' = tq_log q @ map (log_entry (tq_heap q)) ex \<and>
       tq_owner q' = tq_owner q \<and> tq_numCreated q \<le> tq_numCreated q' \<and> \<not> tq_calling q' \<and>
       tq_heap q' = (\<lambda>p. if p \<in> snd ` set ex then after_reset rnd (tq_clock q) q2 p else tq_heap q2 p) \<and>
       (\<forall>p \<in> snd ` set ex. tq_heap q2 p = tq_heap q p) \<and>
       (\<forall>p t. tq_heap q2 p = Some t \<longrightarrow> tq_heap q p = Some t \<or> tq_numCreated q < tm_sequence t) \<and>
       (\<forall>p \<in> snd ` set ex. \<forall>t. tq_heap q p = Some t \<and> again q2 p t \<longrightarrow> (p, tm_sequence t) \<in> set (tq_active q')) \<and>
       (\<forall>p s. p \<in> snd ` set ex \<longrightarrow>
          ((p, s) \<in> set (tq_canceling q2) \<longleftrightarrow> Cancel_timer (p, s) \<in> set (alarm_calls alloc behave q))) \<and>
       (positive q \<and> positive_behave behave \<and> rounding rnd \<longrightarrow> positive q' \<and> armed_ok q'))"
proof -
  define X where "X = snd ` set ex"
  have inv0: "tq_inv {} (readTimerfd q)"
    using inv by (simp add: tq_inv_def readTimerfd_def)
  obtain A where get: "TimerQueue_getExpired (tq_clock q) (readTimerfd q) = Inr (ex, (readTimerfd q)
      \<lparr>tq_timers := filter (\<lambda>e. \<not> fst e \<le> tq_clock q) (tq_timers q), tq_active := A\<rparr>)"
    and inv1': "tq_inv X ((readTimerfd q)
      \<lparr>tq_timers := filter (\<lambda>e. \<not> fst e \<le> tq_clock q) (tq_timers q), tq_active := A\<rparr>)"
    using TimerQueue_getExpired_ok(1) [OF inv0, of ex "tq_clock q"]
    by (auto simp: ex_def X_def readTimerfd_def)
  have dist: "distinct (map snd ex)"
    using TimerQueue_getExpired_ok(2) [OF inv ex_def] .
  define q1 where "q1 = (readTimerfd q)\<lparr>tq_timers := filter (\<lambda>e. \<not> fst e \<le> tq_clock q) (tq_timers q),
      tq_active := A, tq_calling := True, tq_canceling := []\<rparr>"
  have inv1: "tq_inv X q1"
    using inv1' by (simp add: tq_inv_def q1_def readTimerfd_def)
  have q1_fields: "tq_owner q1 = tq_owner q" "tq_heap q1 = tq_heap q" "tq_log q1 = tq_log q"
    "tq_numCreated q1 = tq_numCreated q" "tq_clock q1 = tq_clock q" "tq_calling q1" "tq_canceling q1 = []"
    by (simp_all add: q1_def readTimerfd_def)
  have calls: "alarm_calls alloc behave q = calls_of_runs alloc behave (tq_owner q) q1 ex"
    using get by (simp add: alarm_calls_def q1_def)
  have run: "TimerQueue_handleRead rnd alloc behave (tq_owner q) q =
      andThen (foldR (Timer_run alloc behave (tq_owner q)) q1 ex)
        (\<lambda>q2. TimerQueue_reset rnd (tq_owner q) ex (tq_clock q) (q2\<lparr>tq_calling := False\<rparr>))"
    using get by (simp add: TimerQueue_handleRead_def in_loop_thread_def Let_def q1_def)
  have "keeps_queue X (positive_behave behave)
      (q1\<lparr>tq_log := tq_log q1 @ map (log_entry (tq_heap q1)) ex\<rparr>)
      (foldR (Timer_run alloc behave (tq_owner q)) q1 ex)"
    by (rule Timer_runs_keep [OF inv1 alloc]) (simp add: X_def)
  then show ?thesis
  proof (cases rule: keeps_queueE)
    case 1
    then show ?thesis by (simp add: run)
  next
    case (2 q2)
    have frame: "tq_owner q2 = tq_owner q" "tq_log q2 = tq_log q @ map (log_entry (tq_heap q)) ex"
      "tq_numCreated q \<le> tq_numCreated q2" "\<forall>p \<in> X. tq_heap q2 p = tq_heap q p"
      "\<forall>p t. tq_heap q2 p = Some t \<longrightarrow> tq_heap q p = Some t \<or> tq_numCreated q < tm_sequence t"
      using 2(3) by (simp_all add: tq_frame_def q1_fields)
    define q2' where "q2' = q2\<lparr>tq_calling := False\<rparr>"
    have again_same: "again q2' = again q2"
      by (simp add: again_def q2'_def fun_eq_iff)
    have reset_same: "after_reset rnd now q2' = after_reset rnd now q2" for now
      unfolding after_reset_def again_same by (simp add: q2'_def)
    have q2'_fields: "tq_owner q2' = tq_owner q" "tq_heap q2' = tq_heap q2" "tq_active q2' = tq_active q2"
      "tq_clock q2' = tq_clock q2" "tq_log q2' = tq_log q2" "tq_numCreated q2' = tq_numCreated q2"
      "tq_calling q2' = False"
      by (simp_all add: q2'_def frame)
    have "tq_inv (snd ` set ex) q2'"
      using 2(2) by (simp add: tq_inv_def q2'_def X_def)
    note reset = TimerQueue_reset_ok [OF this dist, of rnd "tq_clock q"]
    show ?thesis
    proof (cases "TimerQueue_reset rnd (tq_owner q) ex (tq_clock q) q2'")
    case (Inl err)
    then have err: "err = Undefined_behaviour" "restart_overflows rnd (tq_clock q) q2' X"
      using reset by (auto simp: q2'_fields X_def)
    then have "restart_overflows rnd (tq_clock q) q X"
      using frame(4) unfolding restart_overflows_def q2'_fields by fastforce
    then show ?thesis using run 2(1) Inl err by (simp add: q2'_def X_def)
  next
    case (Inr r)
    obtain q' where
      q': "TimerQueue_reset rnd (tq_owner q) ex (tq_clock q) q2' = Inr q'" "tq_inv {} q'"
      and heap': "tq_heap q' = (\<lambda>p. if p \<in> X then after_reset rnd (tq_clock q) q2 p else tq_heap q2 p)"
      and active': "set (tq_active q') = set (tq_active q2) \<union>
         {(p, tm_sequence t) | p t. p \<in> X \<and> tq_heap q2 p = Some t \<and> again q2 p t}"
      and fields': "tq_clock q' = tq_clock q2" "tq_log q' = tq_log q2" "tq_owner q' = tq_owner q"
        "tq_numCreated q' = tq_numCreated q2" "tq_calling q' = False"
      and armed': "(\<forall>p t. tq_heap q' p = Some t \<longrightarrow> 0 < tm_expiration t) \<longrightarrow> armed_ok q'"
      using reset Inr unfolding again_same reset_same q2'_fields X_def by auto
    have "TimerQueue_handleRead rnd alloc behave (tq_owner q) q = Inr q'"
      using run 2(1) q'(1) by (simp add: q2'_def)
    moreover have "\<forall>p \<in> X. \<forall>t. tq_heap q p = Some t \<and> again q2 p t \<longrightarrow> (p, tm_sequence t) \<in> set (tq_active q')"
      using active' frame(4) by auto
    moreover have "(p, s) \<in> set (tq_canceling q2) \<longleftrightarrow> Cancel_timer (p, s) \<in> set (alarm_calls alloc behave q)"
      if p: "p \<in> X" for p s
    proof
      assume "(p, s) \<in> set (tq_canceling q2)"
      then show "Cancel_timer (p, s) \<in> set (alarm_calls alloc behave q)"
        using Timer_runs_canceling [OF 2(1)] by (auto simp: q1_fields calls)
    next
      assume "Cancel_timer (p, s) \<in> set (alarm_calls alloc behave q)"
      then show "(p, s) \<in> set (tq_canceling q2)"
        by (intro Timer_runs_record [OF inv1 alloc _ p q1_fields(6)])
          (use 2(1) in \<open>auto simp: q1_fields calls X_def\<close>)
    qed
    moreover have "positive q' \<and> armed_ok q'" if pos: "positive q" "positive_behave behave" "rounding rnd"
    proof -
      have "positive q2" using 2(5) pos by (simp add: positive_def q1_fields)
      moreover have "0 < addTime rnd (tq_clock q) (tm_interval t)"
        if "tq_heap q2 p = Some t" "tm_repeat t" for p t
      proof -
        have "0 < tm_interval t"
          using 2(2) that by (auto simp: tq_inv_def heap_ok_def)
        then show ?thesis
          using addTime_le [OF pos(3), of "tm_interval t" "tq_clock q"] pos(1) by (simp add: positive_def)
      qed
      ultimately have "\<forall>p t. tq_heap q' p = Some t \<longrightarrow> 0 < tm_expiration t" "0 < tq_clock q'"
        unfolding heap' fields' positive_def
        by (auto simp: after_reset_def Timer_restart_def again_def split: option.splits if_splits)
      then show ?thesis using armed' by (simp add: positive_def)
    qed
    ultimately show ?thesis
      using q'(2) heap' frame fields' unfolding X_def by (intro disjI2 exI [of _ q2] exI [of _ q']) auto
    qed
  qed
qed

end
