(* ===== verification/Timer_Properties.thy ===== *)
theory Timer_Properties
  imports Timer_Expiry
begin

text \<open>
  The properties of the timer queue, for any sequence of calls from any thread, any behaviour of
  the callbacks and any allocator.
\<close>

section \<open>Any step keeps the invariant\<close>

lemma TimerQueue_run_tasks_ok:
  assumes "tq_inv (set (pending_adds ts)) q" and "distinct (pending_adds ts)"
  shows "\<exists>q'. foldR (TimerQueue_run_task (tq_owner q)) q ts = Inr q' \<and> tq_inv {} q' \<and>
     tq_frame {} q q' \<and> (armed_ok q \<longrightarrow> armed_ok q') \<and> (positive q \<longrightarrow> positive q')"
  using assms
proof (induction ts arbitrary: q)
  case Nil
  then show ?case by auto
next
  case (Cons task ts)
  have "\<exists>q1. TimerQueue_run_task (tq_owner q) q task = Inr q1 \<and> tq_inv (set (pending_adds ts)) q1 \<and>
     tq_frame {} q q1 \<and> (armed_ok q \<longrightarrow> armed_ok q1) \<and> (positive q \<longrightarrow> positive q1)"
  proof (cases task)
    case (Add_task p)
    obtain t where t: "tq_heap q p = Some t"
      using tq_inv_held [OF Cons.prems(1), of p] Add_task by auto
    obtain q1 where q1: "TimerQueue_addTimerInLoop (tq_owner q) p q = Inr q1"
      "tq_inv (set (pending_adds (task # ts)) - {p}) q1" "tq_frame (set (pending_adds (task # ts))) q q1"
      "tq_heap q1 = tq_heap q" "tq_clock q1 = tq_clock q" "armed_ok q \<longrightarrow> armed_ok q1"
      using TimerQueue_addTimerInLoop_ok [OF Cons.prems(1) _ t refl] Add_task by auto
    have "set (pending_adds (task # ts)) - {p} = set (pending_adds ts)"
      using Cons.prems(2) Add_task by auto
    then show ?thesis
      using q1 Add_task tq_frame_subset [OF q1(3), of "{}"]
      by (auto simp: TimerQueue_run_task_def positive_def)
  next
    case (Cancel_task i)
    obtain q1 where q1: "TimerQueue_cancelInLoop (tq_owner q) i q = Inr q1"
      "tq_inv (set (pending_adds ts)) q1" "tq_frame (set (pending_adds ts)) q q1"
      "tq_clock q1 = tq_clock q" "armed_ok q \<longrightarrow> armed_ok q1"
      "tq_heap q1 = (if i \<in> set (tq_active q) then (tq_heap q)(fst i := None) else tq_heap q)"
      using TimerQueue_cancelInLoop_ok [OF Cons.prems(1) refl, of i] Cancel_task by auto
    then show ?thesis
      using Cancel_task tq_frame_subset [OF q1(3), of "{}"]
      by (auto simp: TimerQueue_run_task_def positive_def split: if_splits)
  qed
  then obtain q1 where q1: "TimerQueue_run_task (tq_owner q) q task = Inr q1"
    "tq_inv (set (pending_adds ts)) q1" "tq_frame {} q q1"
    "armed_ok q \<longrightarrow> armed_ok q1" "positive q \<longrightarrow> positive q1" by blast
  have owner: "tq_owner q1 = tq_owner q" using q1(3) by (simp add: tq_frame_def)
  have "distinct (pending_adds ts)"
    using Cons.prems(2) by (cases task) auto
  then obtain q2 where q2: "foldR (TimerQueue_run_task (tq_owner q)) q1 ts = Inr q2" "tq_inv {} q2"
    "tq_frame {} q1 q2" "armed_ok q1 \<longrightarrow> armed_ok q2" "positive q1 \<longrightarrow> positive q2"
    using Cons.IH [OF q1(2)] owner by auto
  then show ?case
    using q1 tq_frame_trans [OF q1(3) q2(3)] by auto
qed

text \<open>What happens between two steps: nothing new runs but what the log gains, and timers that are
  gone stay gone.\<close>

definition steps_from :: "timer_queue \<Rightarrow> timer_queue \<Rightarrow> bool" where
  "steps_from q q' \<longleftrightarrow> tq_owner q' = tq_owner q \<and> tq_numCreated q \<le> tq_numCreated q' \<and>
     (\<forall>p t. tq_heap q' p = Some t \<longrightarrow>
        (\<exists>t0. tq_heap q p = Some t0 \<and> tm_sequence t0 = tm_sequence t) \<or> tq_numCreated q < tm_sequence t) \<and>
     (\<exists>new. tq_log q' = tq_log q @ new \<and>
        (\<forall>cb s e. (cb, s, e) \<in> set new \<longrightarrow> (\<exists>p t. tq_heap q p = Some t \<and> tm_sequence t = s)))"

lemma steps_from_frame: "tq_frame X q q' \<Longrightarrow> steps_from q q'"
  unfolding tq_frame_def steps_from_def by (auto intro!: exI [of _ "[]"]) blast+

lemma due_alive:
  assumes "tq_inv {} q" and "it \<in> set (due now (tq_timers q))"
  shows "\<exists>t. tq_heap q (snd it) = Some t \<and> tm_expiration t = fst it \<and> (snd it, tm_sequence t) \<in> set (tq_active q)"
  using TimerQueue_getExpired_ok(3) [OF assms(1) refl, of "fst it" "snd it" now] assms(2) by simp

text \<open>The two steps that can be undefined: the return statement of an \<open>addTimer\<close> whose timer is gone, and
  an alarm that starts a timer again beyond the range of \<open>int64_t\<close>.\<close>

definition undefined_step :: "(rat \<Rightarrow> double) \<Rightarrow> timer_queue \<Rightarrow> timer_op \<Rightarrow> bool" where
  "undefined_step rnd q op \<longleftrightarrow> (case op of
       Return_add p \<Rightarrow> tq_heap q p = None
     | Alarm \<Rightarrow> \<exists>p t. tq_heap q p = Some t \<and> tm_expiration t \<le> tq_clock q \<and> tm_repeat t \<and>
         \<not> addTime_fits rnd (tq_clock q) (tm_interval t)
     | _ \<Rightarrow> False)"

fun positive_op :: "timer_op \<Rightarrow> bool" where
  "positive_op (Command tid c) \<longleftrightarrow> positive_command c"
| "positive_op (Begin_add tid cb when interval) \<longleftrightarrow> 0 < when"
| "positive_op _ \<longleftrightarrow> True"

lemma TimerQueue_exec_ok:
  assumes inv: "tq_inv {} q" and alloc: "alloc_ok alloc"
  shows "TimerQueue_exec rnd alloc behave q op = Inl Out_of_memory \<or>
    TimerQueue_exec rnd alloc behave q op = Inl Undefined_behaviour \<and> undefined_step rnd q op \<or>
    (\<exists>q'. TimerQueue_exec rnd alloc behave q op = Inr q' \<and> tq_inv {} q' \<and> steps_from q q' \<and>
       (positive q \<and> armed_ok q \<and> positive_behave behave \<and> rounding rnd \<and> positive_op op \<longrightarrow>
        positive q' \<and> armed_ok q'))"
proof (cases op)
  case (Command tid c)
  from TimerQueue_command_keeps [OF inv alloc, of c tid] show ?thesis
    using Command steps_from_frame by (auto simp: keeps_queue_def)
next
  case (Begin_add tid cb due interval)
  from TimerQueue_command_keeps [OF inv alloc, of "Add_timer cb due interval" tid] show ?thesis
    using Begin_add TimerQueue_begin_is_add [OF inv alloc, of tid cb due interval] steps_from_frame
    by (auto simp: keeps_queue_def)
next
  case (Return_add p)
  have "steps_from q q" by (rule steps_from_frame [of "{}"]) simp
  then show ?thesis
    using Return_add inv by (cases "tq_heap q p") (simp_all add: TimerQueue_addTimer_return_def undefined_step_def)
next
  case Run_pending
  define q0 where "q0 = q\<lparr>tq_pending := []\<rparr>"
  have "tq_inv (set (pending_adds (tq_pending q))) q0" and d: "distinct (pending_adds (tq_pending q))"
    using inv by (auto simp: tq_inv_def q0_def)
  from TimerQueue_run_tasks_ok [OF this] obtain q' where q':
    "foldR (TimerQueue_run_task (tq_owner q0)) q0 (tq_pending q) = Inr q'" "tq_inv {} q'" "tq_frame {} q0 q'"
    "armed_ok q0 \<longrightarrow> armed_ok q'" "positive q0 \<longrightarrow> positive q'" by blast
  have "tq_frame {} q q'" using q'(3) by (simp add: tq_frame_def q0_def)
  then show ?thesis
    using Run_pending q' steps_from_frame by (auto simp: q0_def armed_ok_def positive_def)
next
  case Alarm
  define ex where "ex = due (tq_clock q) (tq_timers q)"
  from TimerQueue_handleRead_ok [OF inv alloc ex_def, of rnd behave]
  show ?thesis
  proof (elim disjE exE conjE)
    assume "TimerQueue_handleRead rnd alloc behave (tq_owner q) q = Inl Out_of_memory"
    then show ?thesis using Alarm by simp
  next
    assume "TimerQueue_handleRead rnd alloc behave (tq_owner q) q = Inl Undefined_behaviour"
      and "restart_overflows rnd (tq_clock q) q (snd ` set ex)"
    moreover from this(2) have "undefined_step rnd q op"
      using Alarm due_alive [OF inv] unfolding ex_def
      by (fastforce simp: restart_overflows_def undefined_step_def due_def)
    ultimately show ?thesis using Alarm by simp
  next
    fix q2 q'
    assume r: "TimerQueue_handleRead rnd alloc behave (tq_owner q) q = Inr q'" "tq_inv {} q'"
      and log: "tq_log q' = tq_log q @ map (log_entry (tq_heap q)) ex"
      and owner: "tq_owner q' = tq_owner q" "tq_numCreated q \<le> tq_numCreated q'"
      and heap: "tq_heap q' = (\<lambda>p. if p \<in> snd ` set ex then after_reset rnd (tq_clock q) q2 p else tq_heap q2 p)"
      and same: "\<forall>p \<in> snd ` set ex. tq_heap q2 p = tq_heap q p"
      and old: "\<forall>p t. tq_heap q2 p = Some t \<longrightarrow> tq_heap q p = Some t \<or> tq_numCreated q < tm_sequence t"
      and pos: "positive q \<and> positive_behave behave \<and> rounding rnd \<longrightarrow> positive q' \<and> armed_ok q'"
    have "(\<exists>t0. tq_heap q p = Some t0 \<and> tm_sequence t0 = tm_sequence t) \<or> tq_numCreated q < tm_sequence t"
      if "tq_heap q' p = Some t" for p t
    proof (cases "p \<in> snd ` set ex")
      case True
      then have "after_reset rnd (tq_clock q) q2 p = Some t" using that by (simp add: heap)
      then obtain t0 where "tq_heap q2 p = Some t0" "tm_sequence t0 = tm_sequence t"
        by (auto simp: after_reset_def Timer_restart_def split: option.splits if_splits)
      then show ?thesis using same True by auto
    next
      case False
      then show ?thesis using old that by (auto simp: heap)
    qed
    moreover have "\<exists>p t. tq_heap q p = Some t \<and> tm_sequence t = s"
      if new: "(cb, s, e) \<in> set (map (log_entry (tq_heap q)) ex)" for cb s e
    proof -
      obtain it where it: "it \<in> set ex" "(cb, s, e) = log_entry (tq_heap q) it" using new by auto
      obtain t where "tq_heap q (snd it) = Some t"
        using due_alive [OF inv] it(1) unfolding ex_def by blast
      then show ?thesis using it(2) by (auto simp: log_entry_def)
    qed
    ultimately have "steps_from q q'"
      using owner log unfolding steps_from_def by blast
    then show ?thesis using Alarm r pos by auto
  qed
qed

text \<open>A sequence that is used up: no timer has it, and no later one will.\<close>

definition used_up :: "int \<Rightarrow> timer_queue \<Rightarrow> bool" where
  "used_up s q \<longleftrightarrow> s \<le> tq_numCreated q \<and> (\<forall>p t. tq_heap q p = Some t \<longrightarrow> tm_sequence t \<noteq> s)"

lemma used_up_step:
  assumes "steps_from q q'" and "used_up s q"
  shows "used_up s q'" and "\<exists>new. tq_log q' = tq_log q @ new \<and> s \<notin> (fst \<circ> snd) ` set new"
proof -
  show "used_up s q'"
    using assms unfolding steps_from_def used_up_def by (metis not_le order_trans)
  obtain new where new: "tq_log q' = tq_log q @ new"
    "\<forall>cb s e. (cb, s, e) \<in> set new \<longrightarrow> (\<exists>p t. tq_heap q p = Some t \<and> tm_sequence t = s)"
    using assms(1) by (auto simp: steps_from_def)
  then have "s \<notin> (fst \<circ> snd) ` set new"
    using assms(2) by (fastforce simp: used_up_def)
  then show "\<exists>new. tq_log q' = tq_log q @ new \<and> s \<notin> (fst \<circ> snd) ` set new"
    using new(1) by blast
qed

lemma used_up_run:
  assumes "tq_inv {} q" and "alloc_ok alloc" and "used_up s q"
    and "foldR (TimerQueue_exec rnd alloc behave) q ops = Inr q'"
  shows "used_up s q' \<and> (\<exists>new. tq_log q' = tq_log q @ new \<and> s \<notin> (fst \<circ> snd) ` set new)"
  using assms(1,3,4)
proof (induction ops arbitrary: q)
  case Nil
  then show ?case by auto
next
  case (Cons op ops)
  then obtain q1 where q1: "TimerQueue_exec rnd alloc behave q op = Inr q1"
    "foldR (TimerQueue_exec rnd alloc behave) q1 ops = Inr q'" by (auto simp: result_simps)
  have step: "tq_inv {} q1" "steps_from q q1"
    using TimerQueue_exec_ok [OF Cons.prems(1) assms(2), of rnd behave op] q1(1) by auto
  note used = used_up_step [OF step(2) Cons.prems(2)]
  have "\<exists>new. tq_log q' = tq_log q1 @ new \<and> s \<notin> (fst \<circ> snd) ` set new" and "used_up s q'"
    using Cons.IH [OF step(1) used(1) q1(2)] by auto
  then show ?case using used(2) by (auto simp del: comp_apply)
qed

definition undefined_run ::
  "(rat \<Rightarrow> double) \<Rightarrow> ((nat \<Rightarrow> timer option) \<Rightarrow> nat option) \<Rightarrow> (nat \<Rightarrow> timer_queue \<Rightarrow> timer_command list) \<Rightarrow>
   timer_queue \<Rightarrow> timer_op list \<Rightarrow> bool" where
  "undefined_run rnd alloc behave q ops \<longleftrightarrow> (\<exists>ops1 op ops2 q1. ops = ops1 @ op # ops2 \<and>
     foldR (TimerQueue_exec rnd alloc behave) q ops1 = Inr q1 \<and> undefined_step rnd q1 op)"

lemma undefined_run_Cons:
  "undefined_step rnd q op \<Longrightarrow> undefined_run rnd alloc behave q (op # ops)"
  "TimerQueue_exec rnd alloc behave q op = Inr q1 \<Longrightarrow> undefined_run rnd alloc behave q1 ops \<Longrightarrow>
     undefined_run rnd alloc behave q (op # ops)"
proof -
  show "undefined_step rnd q op \<Longrightarrow> undefined_run rnd alloc behave q (op # ops)"
    unfolding undefined_run_def by (intro exI [of _ "[]"] exI [of _ op] exI [of _ ops] exI [of _ q]) simp
  assume step: "TimerQueue_exec rnd alloc behave q op = Inr q1" and "undefined_run rnd alloc behave q1 ops"
  then obtain ops1 op' ops2 q2 where "ops = ops1 @ op' # ops2"
    "foldR (TimerQueue_exec rnd alloc behave) q1 ops1 = Inr q2" "undefined_step rnd q2 op'"
    unfolding undefined_run_def by blast
  then show "undefined_run rnd alloc behave q (op # ops)"
    unfolding undefined_run_def using step
    by (intro exI [of _ "op # ops1"] exI [of _ op'] exI [of _ ops2] exI [of _ q2]) simp
qed

lemma TimerQueue_run_ok:
  assumes "tq_inv {} q" and "alloc_ok alloc"
  shows "foldR (TimerQueue_exec rnd alloc behave) q ops = Inl Out_of_memory \<or>
    foldR (TimerQueue_exec rnd alloc behave) q ops = Inl Undefined_behaviour \<and>
      undefined_run rnd alloc behave q ops \<or>
    (\<exists>q'. foldR (TimerQueue_exec rnd alloc behave) q ops = Inr q' \<and> tq_inv {} q' \<and>
       (positive q \<and> armed_ok q \<and> positive_behave behave \<and> rounding rnd \<and> (\<forall>op \<in> set ops. positive_op op) \<longrightarrow>
        positive q' \<and> armed_ok q'))"
  using assms(1)
proof (induction ops arbitrary: q)
  case Nil
  then show ?case by auto
next
  case (Cons op ops)
  from TimerQueue_exec_ok [OF Cons.prems assms(2), of rnd behave op]
  consider "TimerQueue_exec rnd alloc behave q op = Inl Out_of_memory"
    | "TimerQueue_exec rnd alloc behave q op = Inl Undefined_behaviour" "undefined_step rnd q op"
    | q1 where "TimerQueue_exec rnd alloc behave q op = Inr q1" "tq_inv {} q1"
      "positive q \<and> armed_ok q \<and> positive_behave behave \<and> rounding rnd \<and> positive_op op \<longrightarrow>
        positive q1 \<and> armed_ok q1"
    by blast
  then show ?case
  proof cases
    case 1
    then show ?thesis by simp
  next
    case 2
    then show ?thesis using undefined_run_Cons(1) by simp
  next
    case 3
    then show ?thesis using Cons.IH [OF 3(2)] undefined_run_Cons(2) [OF 3(1)] by auto
  qed
qed

section \<open>Properties\<close>

text \<open>
  C5: from an empty queue, any calls of \<open>addTimer\<close> and \<open>cancel\<close> from any thread and from inside
  callbacks, with any expirations and ids (stale ones too), and any alarms, never fail an assertion;
  the loop's thread never touches a timer that was freed. A call of \<open>addTimer\<close> from another thread is
  two steps, with anything between the hand-over to the loop and the return statement. The process
  can run out of memory, and two steps are undefined: that return statement, when the loop has freed
  the timer by then (\<open>TimerQueue_addTimer_race\<close> is such a run), and an alarm that starts a repeating
  timer again at a time beyond \<open>int64_t\<close>. The two sets of the queue keep holding the same live
  timers. If all times (the clock and the expirations asked for) are after the epoch and the
  floating-point rounding is monotonic and exact at 0, the descriptor is always set early enough for
  the earliest timer. Differences of two times are taken to fit an \<open>int64_t\<close>.
\<close>

theorem TimerQueue_never_fails:
  assumes "alloc_ok alloc"
    and "foldR (TimerQueue_exec rnd alloc behave) (TimerQueue_new tid clock) ops = r"
  shows "r = Inl Out_of_memory \<or>
    r = Inl Undefined_behaviour \<and>
      (\<exists>ops1 op ops2 q. ops = ops1 @ op # ops2 \<and>
         foldR (TimerQueue_exec rnd alloc behave) (TimerQueue_new tid clock) ops1 = Inr q \<and>
         ((\<exists>p. op = Return_add p \<and> tq_heap q p = None) \<or>
          op = Alarm \<and> (\<exists>p t. tq_heap q p = Some t \<and> tm_expiration t \<le> tq_clock q \<and> tm_repeat t \<and>
            \<not> addTime_fits rnd (tq_clock q) (tm_interval t)))) \<or>
    (\<exists>q. r = Inr q \<and> tq_inv {} q \<and> length (tq_timers q) = length (tq_active q) \<and>
       (0 < clock \<and> positive_behave behave \<and> rounding rnd \<and> (\<forall>op \<in> set ops. positive_op op) \<longrightarrow> armed_ok q))"
proof -
  have new: "positive (TimerQueue_new tid clock) \<longleftrightarrow> 0 < clock" "armed_ok (TimerQueue_new tid clock)"
    by (simp_all add: positive_def armed_ok_def TimerQueue_new_def)
  have steps: "undefined_step rnd q op \<longleftrightarrow> (\<exists>p. op = Return_add p \<and> tq_heap q p = None) \<or>
      op = Alarm \<and> (\<exists>p t. tq_heap q p = Some t \<and> tm_expiration t \<le> tq_clock q \<and> tm_repeat t \<and>
        \<not> addTime_fits rnd (tq_clock q) (tm_interval t))" for q op
    by (cases op) (auto simp: undefined_step_def)
  show ?thesis
    using TimerQueue_run_ok [OF tq_inv_new [of tid clock] assms(1), of rnd behave ops] assms(2) new
      tq_inv_size unfolding same_size_def undefined_run_def steps by blast
qed

lemma reachable_inv:
  "alloc_ok alloc \<Longrightarrow> foldR (TimerQueue_exec rnd alloc behave) (TimerQueue_new tid clock) ops = Inr q \<Longrightarrow>
   tq_inv {} q"
  using TimerQueue_run_ok [OF tq_inv_new [of tid clock], of alloc rnd behave ops] by auto

text \<open>
  C11: an alarm runs exactly the scheduled timers whose expiration is not after the current time,
  each once, the earlier ones first.
\<close>

theorem TimerQueue_runs_what_is_due:
  assumes "alloc_ok alloc"
    and "foldR (TimerQueue_exec rnd alloc behave) (TimerQueue_new tid clock) ops = Inr q"
    and "TimerQueue_exec rnd alloc behave q Alarm = Inr q'"
  shows "\<exists>new. tq_log q' = tq_log q @ new \<and> sorted (map (snd \<circ> snd) new) \<and> distinct (map (fst \<circ> snd) new) \<and>
    set new = {(tm_callback t, tm_sequence t, tm_expiration t) | p t.
      tq_heap q p = Some t \<and> (p, tm_sequence t) \<in> set (tq_active q) \<and> tm_expiration t \<le> tq_clock q}"
proof -
  have inv: "tq_inv {} q" by (rule reachable_inv [OF assms(1,2)])
  then have ok: "timers_ok (tq_heap q) (tq_timers q) (tq_active q)" and heap: "heap_ok (tq_heap q) (tq_numCreated q)"
    by (auto simp: tq_inv_def)
  define ex where "ex = due (tq_clock q) (tq_timers q)"
  have log: "tq_log q' = tq_log q @ map (log_entry (tq_heap q)) ex"
    using TimerQueue_handleRead_ok [OF inv assms(1) ex_def, of rnd behave] assms(3) by auto
  have entry: "\<exists>t. tq_heap q (snd it) = Some t \<and> tm_expiration t = fst it \<and>
      log_entry (tq_heap q) it = (tm_callback t, tm_sequence t, tm_expiration t)" if "it \<in> set ex" for it
    using due_alive [OF inv, of it "tq_clock q"] that by (auto simp: ex_def log_entry_def)
  have "sorted_wrt (<) ex"
    using ok unfolding ex_def due_def timers_ok_def set_wf_def by (auto intro: sorted_wrt_filter)
  then have "sorted (map fst ex)"
    by (auto simp: sorted_wrt_map less_prod_def elim!: sorted_wrt_mono_rel [rotated])
  moreover have "map (snd \<circ> snd) (map (log_entry (tq_heap q)) ex) = map fst ex"
    using entry by fastforce
  ultimately have "sorted (map (snd \<circ> snd) (map (log_entry (tq_heap q)) ex))"
    by (simp only:)
  moreover have "distinct (map (fst \<circ> snd) (map (log_entry (tq_heap q)) ex))"
  proof -
    have "inj_on (\<lambda>it. fst (snd (log_entry (tq_heap q) it))) (set ex)"
    proof (rule inj_onI)
      fix x y assume xy: "x \<in> set ex" "y \<in> set ex"
        "fst (snd (log_entry (tq_heap q) x)) = fst (snd (log_entry (tq_heap q) y))"
      obtain t u where t: "tq_heap q (snd x) = Some t" "tm_expiration t = fst x"
          "log_entry (tq_heap q) x = (tm_callback t, tm_sequence t, tm_expiration t)"
        and u: "tq_heap q (snd y) = Some u" "tm_expiration u = fst y"
          "log_entry (tq_heap q) y = (tm_callback u, tm_sequence u, tm_expiration u)"
        using entry [OF xy(1)] entry [OF xy(2)] by blast
      then have "tm_sequence t = tm_sequence u" using xy(3) by simp
      then have "snd x = snd y" using heap t(1) u(1) unfolding heap_ok_def by blast
      then show "x = y" using t u by (simp add: prod_eq_iff)
    qed
    moreover have "distinct ex"
      using ok by (simp add: ex_def due_def timers_ok_def set_wf_distinct)
    ultimately show ?thesis by (simp add: distinct_map comp_def)
  qed
  moreover have "set (map (log_entry (tq_heap q)) ex) = {(tm_callback t, tm_sequence t, tm_expiration t) | p t.
      tq_heap q p = Some t \<and> (p, tm_sequence t) \<in> set (tq_active q) \<and> tm_expiration t \<le> tq_clock q}"
  proof -
    have "it \<in> set ex \<longleftrightarrow> fst it \<le> tq_clock q \<and> (\<exists>t. tq_heap q (snd it) = Some t \<and>
        tm_expiration t = fst it \<and> (snd it, tm_sequence t) \<in> set (tq_active q))" for it
      using timers_ok_mem [OF ok, of "fst it" "snd it"] by (auto simp: ex_def due_def)
    then have ex_iff: "(e, p) \<in> set ex \<longleftrightarrow> e \<le> tq_clock q \<and> (\<exists>t. tq_heap q p = Some t \<and>
        tm_expiration t = e \<and> (p, tm_sequence t) \<in> set (tq_active q))" for e p
      by (metis fst_conv snd_conv)
    show ?thesis
    proof (intro equalityI subsetI)
      fix z assume "z \<in> set (map (log_entry (tq_heap q)) ex)"
      then obtain e p where "(e, p) \<in> set ex" "z = log_entry (tq_heap q) (e, p)" by auto
      then show "z \<in> {(tm_callback t, tm_sequence t, tm_expiration t) | p t.
        tq_heap q p = Some t \<and> (p, tm_sequence t) \<in> set (tq_active q) \<and> tm_expiration t \<le> tq_clock q}"
        unfolding ex_iff by (force simp: log_entry_def)
    next
      fix z assume "z \<in> {(tm_callback t, tm_sequence t, tm_expiration t) | p t.
        tq_heap q p = Some t \<and> (p, tm_sequence t) \<in> set (tq_active q) \<and> tm_expiration t \<le> tq_clock q}"
      then obtain p t where t: "z = (tm_callback t, tm_sequence t, tm_expiration t)" "tq_heap q p = Some t"
        "(p, tm_sequence t) \<in> set (tq_active q)" "tm_expiration t \<le> tq_clock q" by blast
      then have "(tm_expiration t, p) \<in> set ex" unfolding ex_iff by blast
      then show "z \<in> set (map (log_entry (tq_heap q)) ex)"
        using t by (force simp: log_entry_def)
    qed
  qed
  ultimately show ?thesis using log by blast
qed

text \<open>
  C16: cancelling a scheduled timer in the loop's thread, between two steps of the loop, frees that
  timer and no other one, and its callback never runs again, whatever happens later, also when its
  address is used for another timer. Cancelling an id that is not scheduled any more (or never was)
  changes nothing. (A cancel from a callback of an alarm that also took the timer out is
  \<open>TimerQueue_after_alarm\<close>: there the timer still runs once if its turn has not come.)
\<close>

theorem TimerQueue_cancelled_never_runs:
  assumes "alloc_ok alloc"
    and "foldR (TimerQueue_exec rnd alloc behave) (TimerQueue_new tid clock) ops = Inr q"
  shows "\<exists>q1. TimerQueue_cancel (tq_owner q) (p, s) q = Inr q1 \<and>
    set (tq_active q1) = set (tq_active q) - {(p, s)} \<and>
    (if (p, s) \<in> set (tq_active q)
     then tq_heap q1 = (tq_heap q)(p := None) \<and>
       (\<forall>ops' q'. foldR (TimerQueue_exec rnd alloc behave) q1 ops' = Inr q' \<longrightarrow>
          (\<exists>new. tq_log q' = tq_log q @ new \<and> s \<notin> (fst \<circ> snd) ` set new))
     else tq_heap q1 = tq_heap q)"
proof -
  have inv: "tq_inv {} q" by (rule reachable_inv [OF assms])
  obtain q1 where q1: "TimerQueue_cancelInLoop (tq_owner q) (p, s) q = Inr q1" "tq_inv {} q1" "tq_frame {} q q1"
    "set (tq_active q1) = set (tq_active q) - {(p, s)}"
    "tq_heap q1 = (if (p, s) \<in> set (tq_active q) then (tq_heap q)(fst (p, s) := None) else tq_heap q)"
    using TimerQueue_cancelInLoop_ok [OF inv refl, of "(p, s)"] by blast
  have "\<exists>new. tq_log q' = tq_log q @ new \<and> s \<notin> (fst \<circ> snd) ` set new"
    if act: "(p, s) \<in> set (tq_active q)" and
      run: "foldR (TimerQueue_exec rnd alloc behave) q1 ops' = Inr q'" for ops' q'
  proof -
    obtain t where t: "tq_heap q p = Some t" "tm_sequence t = s"
      using tq_inv_alive [OF inv act] .
    have heap: "heap_ok (tq_heap q) (tq_numCreated q)" using inv by (simp add: tq_inv_def)
    then have "s \<le> tq_numCreated q1"
      using t q1(3) unfolding heap_ok_def tq_frame_def by (metis order_trans)
    moreover have "tm_sequence u \<noteq> s" if "tq_heap q1 r = Some u" for r u
      using that q1(5) act t heap unfolding heap_ok_def by (cases "r = p") auto
    ultimately have "used_up s q1" by (simp add: used_up_def)
    then show ?thesis
      using used_up_run [OF q1(2) assms(1) _ run] q1(3) by (auto simp: tq_frame_def)
  qed
  then show ?thesis
    using q1 by (intro exI [of _ q1])
      (auto simp: TimerQueue_cancel_def TimerQueue_runInLoop_def TimerQueue_run_task_def)
qed

text \<open>
  C18: what an alarm makes of a timer it ran. A repeating timer whose id no callback of the same alarm
  cancels is scheduled again under the same id, its interval after the time of the alarm; one that
  does not repeat, or whose id some callback of the alarm (its own, or that of an earlier or later timer)
  cancels, never runs again after the alarm. (\<open>alarm_calls\<close> lists the calls that the callbacks of the
  alarm make; an alarm that starts a timer again beyond \<open>int64_t\<close> does not get this far.)
\<close>

theorem TimerQueue_after_alarm:
  assumes "alloc_ok alloc"
    and "foldR (TimerQueue_exec rnd alloc behave) (TimerQueue_new tid clock) ops = Inr q"
    and "TimerQueue_exec rnd alloc behave q Alarm = Inr q'"
    and "tq_heap q p = Some t" and "(p, tm_sequence t) \<in> set (tq_active q)"
    and "tm_expiration t \<le> tq_clock q"
  shows "if tm_repeat t \<and> Cancel_timer (p, tm_sequence t) \<notin> set (alarm_calls alloc behave q)
    then tq_heap q' p = Some (t\<lparr>tm_expiration := addTime rnd (tq_clock q) (tm_interval t)\<rparr>) \<and>
      (p, tm_sequence t) \<in> set (tq_active q')
    else \<forall>ops' q''. foldR (TimerQueue_exec rnd alloc behave) q' ops' = Inr q'' \<longrightarrow>
         (\<exists>new. tq_log q'' = tq_log q' @ new \<and> tm_sequence t \<notin> (fst \<circ> snd) ` set new)"
    (is "if ?keep then ?kept else ?dropped")
proof -
  have inv: "tq_inv {} q" by (rule reachable_inv [OF assms(1,2)])
  then have ok: "timers_ok (tq_heap q) (tq_timers q) (tq_active q)"
    and heap_ok: "heap_ok (tq_heap q) (tq_numCreated q)" by (auto simp: tq_inv_def)
  define ex where "ex = due (tq_clock q) (tq_timers q)"
  have "(tm_expiration t, p) \<in> set ex"
    using timers_ok_mem [OF ok] assms(4-6) by (auto simp: ex_def due_def)
  then have p: "p \<in> snd ` set ex" by force
  obtain q2 where inv': "tq_inv {} q'"
    and count: "tq_numCreated q \<le> tq_numCreated q'"
    and heap: "tq_heap q' = (\<lambda>p. if p \<in> snd ` set ex then after_reset rnd (tq_clock q) q2 p else tq_heap q2 p)"
    and same: "\<forall>p \<in> snd ` set ex. tq_heap q2 p = tq_heap q p"
    and old: "\<forall>p t. tq_heap q2 p = Some t \<longrightarrow> tq_heap q p = Some t \<or> tq_numCreated q < tm_sequence t"
    and act: "\<forall>p \<in> snd ` set ex. \<forall>t. tq_heap q p = Some t \<and> again q2 p t \<longrightarrow> (p, tm_sequence t) \<in> set (tq_active q')"
    and calls: "\<forall>p s. p \<in> snd ` set ex \<longrightarrow>
          ((p, s) \<in> set (tq_canceling q2) \<longleftrightarrow> Cancel_timer (p, s) \<in> set (alarm_calls alloc behave q))"
    using TimerQueue_handleRead_ok [OF inv assms(1) ex_def, of rnd behave] assms(3) [unfolded TimerQueue_exec.simps]
    by (elim disjE exE conjE) simp_all
  have here: "tq_heap q2 p = Some t" using bspec [OF same p] assms(4) by simp
  have again: "again q2 p t \<longleftrightarrow> ?keep" using calls p by (simp add: again_def)
  have keep: ?kept if r: ?keep
    using heap p here bspec [OF act p] assms(4) r again by (simp add: after_reset_def Timer_restart_def)
  have drop: ?dropped if stop: "\<not> ?keep"
  proof (intro impI allI)
    fix ops' q''
    assume run: "foldR (TimerQueue_exec rnd alloc behave) q' ops' = Inr q''"
    have "\<not> again q2 p t" using again stop by simp
    then have gone: "tq_heap q' p = None" using heap p here by (simp add: after_reset_def)
    have seq: "tm_sequence t \<le> tq_numCreated q" using heap_ok assms(4) unfolding heap_ok_def by blast
    have "tm_sequence u \<noteq> tm_sequence t" if u: "tq_heap q' r = Some u" for r u
    proof -
      have "r \<noteq> p" using u gone by auto
      have "(\<exists>t0. tq_heap q r = Some t0 \<and> tm_sequence t0 = tm_sequence u) \<or> tq_numCreated q < tm_sequence u"
      proof (cases "r \<in> snd ` set ex")
        case True
        have "tq_heap q2 r = tq_heap q r" using bspec [OF same True] .
        then show ?thesis using u True
          by (cases "tq_heap q r") (auto simp: heap after_reset_def Timer_restart_def simp del: image_iff split: if_splits)
      next
        case False
        then show ?thesis using u old by (simp add: heap) blast
      qed
      then show ?thesis
        using heap_ok assms(4) \<open>r \<noteq> p\<close> seq unfolding heap_ok_def by (metis not_le)
    qed
    then have "used_up (tm_sequence t) q'"
      using seq count by (auto simp: used_up_def)
    then show "\<exists>new. tq_log q'' = tq_log q' @ new \<and> tm_sequence t \<notin> (fst \<circ> snd) ` set new"
      using used_up_run [OF inv' assms(1) _ run] by blast
  qed
  show ?thesis using keep drop by presburger
qed

text \<open>
  \<open>addTimer\<close> called from a thread that is not the loop's reads the timer after it has handed it
  to the loop. If the loop adds, runs and frees a timer that is already due before the call returns,
  the return statement reads a timer that is gone.
\<close>

theorem TimerQueue_addTimer_race:
  assumes "tid' \<noteq> tid" and "alloc Map.empty = Some p" and "p < UINTPTR_MAX" and "when \<le> clock" and "\<not> 0 < interval"
    and "\<And>q. behave cb q = []"
  shows "\<exists>q1 q2. TimerQueue_addTimer_begin alloc tid' cb when interval (TimerQueue_new tid clock) = Inr (p, q1) \<and>
    foldR (TimerQueue_exec rnd alloc behave) q1 [Run_pending, Alarm] = Inr q2 \<and>
    (cb, 1, when) \<in> set (tq_log q2) \<and>
    TimerQueue_addTimer_return p q2 = Inl Undefined_behaviour"
  using assms
  by (simp add: TimerQueue_addTimer_begin_def TimerQueue_runInLoop_def TimerQueue_run_task_def TimerQueue_new_def
      TimerQueue_addTimerInLoop_def in_loop_thread_def TimerQueue_insert_def same_size_def Timer_new_def
      resetTimerfd_def TimerQueue_addTimer_return_def TimerQueue_handleRead_def readTimerfd_def Let_def
      TimerQueue_getExpired_def set_below_def set_from_def TimerQueue_deactivate_def Timer_run_def
      TimerQueue_reset_def TimerQueue_reset_one_def Timestamp_valid_def Timestamp_invalid_def less_prod_def not_less
      set_erase_def)

section \<open>An example\<close>

text \<open>A queue of thread 5 with one timer.\<close>

definition demo_alloc :: "(nat \<Rightarrow> timer option) \<Rightarrow> nat option" where
  "demo_alloc h = (if h 0 = None then Some 0 else None)"

definition demo_behave :: "nat \<Rightarrow> timer_queue \<Rightarrow> timer_command list" where
  "demo_behave cb q = []"

definition demo_ops :: "double \<Rightarrow> timer_op list" where
  "demo_ops interval = [Command 5 (Add_timer 7 50 interval), Command 5 (Pass_time 60)]"

definition demo_timer :: "double \<Rightarrow> timer" where
  "demo_timer interval = \<lparr>tm_callback = 7, tm_expiration = 50, tm_interval = interval,
     tm_repeat = (interval > 0), tm_sequence = 1\<rparr>"

definition demo_queue :: "double \<Rightarrow> timer_queue" where
  "demo_queue interval = \<lparr>tq_owner = 5, tq_heap = [0 \<mapsto> demo_timer interval],
     tq_numCreated = 1, tq_timers = [(50, 0)], tq_active = [(0, 1)], tq_calling = False,
     tq_canceling = [], tq_armed = Some (10, 0, 100000), tq_pending = [], tq_clock = 60, tq_log = []\<rparr>"

lemma demo_alloc_ok: "alloc_ok demo_alloc"
  by (simp add: alloc_ok_def demo_alloc_def UINTPTR_MAX_def)

lemmas demo_simps = demo_alloc_def demo_behave_def demo_timer_def demo_queue_def TimerQueue_new_def
  TimerQueue_addTimer_def TimerQueue_addTimer_begin_def TimerQueue_runInLoop_def TimerQueue_run_task_def
  TimerQueue_addTimerInLoop_def in_loop_thread_def TimerQueue_insert_def same_size_def Timer_new_def
  resetTimerfd_def howMuchTimeFromNow_def TimerQueue_addTimer_return_def kMicroSecondsPerSecond_def
  signed_divide_int_def signed_modulo_int_def TimerQueue_handleRead_def readTimerfd_def
  TimerQueue_getExpired_def set_below_def set_from_def TimerQueue_deactivate_def Timer_run_def
  TimerQueue_reset_def TimerQueue_reset_one_def Timestamp_valid_def Timestamp_invalid_def
  Timer_restart_def addTime_def addTime_fits_def less_prod_def UINTPTR_MAX_def set_erase_def
  Timestamp.truncate_def Let_def

lemma demo_run:
  "foldR (TimerQueue_exec id demo_alloc demo_behave) (TimerQueue_new 5 10) (demo_ops interval) = Inr (demo_queue interval)"
  by (simp add: demo_ops_def demo_simps)

lemma demo_alarm:
  "TimerQueue_exec id demo_alloc demo_behave (demo_queue 0) Alarm =
   Inr ((demo_queue 0)\<lparr>tq_heap := Map.empty, tq_timers := [], tq_active := [], tq_armed := None, tq_log := [(7, 1, 50)]\<rparr>)"
  by (simp add: demo_simps)

lemma demo_alarm_repeat:
  "TimerQueue_exec id demo_alloc demo_behave (demo_queue 1) Alarm =
   Inr ((demo_queue 1)\<lparr>tq_heap := [0 \<mapsto> (demo_timer 1)\<lparr>tm_expiration := 1000060\<rparr>], tq_timers := [(1000060, 0)],
     tq_armed := Some (60, 1, 0), tq_log := [(7, 1, 50)]\<rparr>)"
  by (simp add: demo_simps)

lemma TimerQueue_never_fails_witness:
  "alloc_ok demo_alloc \<and> (0::int) < 10 \<and> tq_inv {} (demo_queue 1) \<and> armed_ok (demo_queue 1)"
proof -
  have "positive_behave demo_behave" by (simp add: positive_behave_def demo_behave_def)
  moreover have "rounding id" by (simp add: rounding_def mono_def)
  moreover have "\<forall>op \<in> set (demo_ops 1). positive_op op"
    by (simp add: demo_ops_def)
  ultimately show ?thesis
    using TimerQueue_never_fails [OF demo_alloc_ok demo_run [of 1]] demo_alloc_ok by simp
qed

lemma TimerQueue_runs_what_is_due_witness:
  "tq_log (demo_queue 0) @ [(7, 1, 50)] = [(7, 1, 50)] \<and>
   (\<exists>new. [(7, 1, 50)] = tq_log (demo_queue 0) @ new \<and> sorted (map (snd \<circ> snd) new))"
  using TimerQueue_runs_what_is_due [OF demo_alloc_ok demo_run [of 0] demo_alarm]
  by (auto simp: demo_queue_def)

lemma TimerQueue_cancelled_never_runs_witness:
  "(0, 1) \<in> set (tq_active (demo_queue 1)) \<and>
   (\<exists>q1. TimerQueue_cancel 5 (0, 1) (demo_queue 1) = Inr q1 \<and> tq_heap q1 = Map.empty)"
  using TimerQueue_cancelled_never_runs [OF demo_alloc_ok demo_run [of 1], of 0 1]
  by (auto simp: demo_queue_def)

lemma TimerQueue_after_alarm_witness:
  "tq_heap (demo_queue 1) 0 = Some (demo_timer 1) \<and> addTime id 60 1 = 1000060 \<and>
   (\<exists>q'. TimerQueue_exec id demo_alloc demo_behave (demo_queue 1) Alarm = Inr q' \<and>
     tq_heap q' 0 = Some ((demo_timer 1)\<lparr>tm_expiration := 1000060\<rparr>) \<and> (0, 1) \<in> set (tq_active q'))"
proof -
  have "tq_heap (demo_queue 1) 0 = Some (demo_timer 1)" "(0, tm_sequence (demo_timer 1)) \<in> set (tq_active (demo_queue 1))"
    "tm_expiration (demo_timer 1) \<le> tq_clock (demo_queue 1)"
    by (simp_all add: demo_queue_def demo_timer_def)
  from TimerQueue_after_alarm [OF demo_alloc_ok demo_run [of 1] demo_alarm_repeat this]
  show ?thesis
    using demo_alarm_repeat by (simp add: demo_behave_def demo_queue_def demo_timer_def addTime_def kMicroSecondsPerSecond_def
        Timestamp.truncate_def)
qed

lemma TimerQueue_addTimer_race_witness:
  "\<exists>q1 q2. TimerQueue_addTimer_begin demo_alloc 6 7 50 0 (TimerQueue_new 5 60) = Inr (0, q1) \<and>
    foldR (TimerQueue_exec id demo_alloc demo_behave) q1 [Run_pending, Alarm] = Inr q2 \<and>
    TimerQueue_addTimer_return 0 q2 = Inl Undefined_behaviour"
  using TimerQueue_addTimer_race [of 6 5 demo_alloc 0 50 60 0 demo_behave 7 id]
  by (auto simp: demo_alloc_def demo_behave_def UINTPTR_MAX_def)

end
