(* ===== verification/Event_Loop.thy ===== *)
theory Event_Loop
  imports EPoll_Poller Poll_Poller Timer_Queue
begin

text \<open>
  \<open>src/muduo/net/EventLoop.h\<close>, \<open>EventLoop.cpp\<close>: the reactor.

  The first part is the code as one thread sees it: a loop is the record of its members, a functor
  is an identifier, and what poll returns, what callbacks do and what functors do are parameters.
  The second part is the protocol between the loop's thread and the others: \<open>queueInLoop\<close>,
  \<open>quit\<close> and \<open>loop\<close> cut into the pieces that other threads can see (a critical section of
  \<open>mutex_\<close>, an access to \<open>quit_\<close>, a system call on the descriptor), interleaved in any order.
\<close>

section \<open>The object\<close>

record ('g, 'p) event_loop =
  el_looping :: bool
  el_quit :: bool
  el_eventHandling :: bool
  el_callingPendingFunctors :: bool
  el_iteration :: int
  el_threadId :: int
  el_pollReturnTime :: timestamp
  el_poller :: 'p
  el_wakeups :: nat                          \<comment> \<open>the counter behind \<open>wakeupFd_\<close>\<close>
  el_activeChannels :: "nat list"
  el_currentActiveChannel :: "nat option"
  el_pendingFunctors :: "'g list"

text \<open>The largest value an eventfd counter can take.\<close>

definition eventfd_max :: nat where
  "eventfd_max = 2 ^ 64 - 2"

definition EventLoop_new :: "int \<Rightarrow> 'p \<Rightarrow> ('g, 'p) event_loop" where
  "EventLoop_new tid P =
     \<lparr>el_looping = False, el_quit = False, el_eventHandling = False,
      el_callingPendingFunctors = False, el_iteration = 0, el_threadId = tid,
      el_pollReturnTime = 0, el_poller = P, el_wakeups = 0, el_activeChannels = [],
      el_currentActiveChannel = None, el_pendingFunctors = []\<rparr>"

definition EventLoop_isInLoopThread :: "int \<Rightarrow> ('g, 'p, 'm) event_loop_scheme \<Rightarrow> bool" where
  "EventLoop_isInLoopThread tid L \<longleftrightarrow> el_threadId L = tid"

text \<open>\<open>abortNotInLoopThread\<close> is a \<open>LOG_FATAL\<close>.\<close>

definition EventLoop_assertInLoopThread ::
  "int \<Rightarrow> ('g, 'p, 'm) event_loop_scheme \<Rightarrow> 'a result \<Rightarrow> 'a result" where
  "EventLoop_assertInLoopThread tid L m =
     (if EventLoop_isInLoopThread tid L then m else Inl Log_fatal)"

section \<open>Channels\<close>

definition EventLoop_updateChannel ::
  "(nat \<Rightarrow> ('f, 'p) chan_step) \<Rightarrow> nat \<Rightarrow> int \<Rightarrow> nat \<Rightarrow>
   ('f, ('g, 'p, 'm) event_loop_scheme) chan_step" where
  "EventLoop_updateChannel poller_update self tid p s =
     (case s of (h, L) \<Rightarrow> deref h p (\<lambda>c.
        cassert (ch_loop c = self) (
        EventLoop_assertInLoopThread tid L (
        andThen (poller_update p (h, el_poller L)) (\<lambda>(h', P).
        Inr (h', L\<lparr>el_poller := P\<rparr>))))))"

definition EventLoop_removeChannel ::
  "(nat \<Rightarrow> ('f, 'p) chan_step) \<Rightarrow> nat \<Rightarrow> int \<Rightarrow> nat \<Rightarrow>
   ('f, ('g, 'p, 'm) event_loop_scheme) chan_step" where
  "EventLoop_removeChannel poller_remove self tid p s =
     (case s of (h, L) \<Rightarrow> deref h p (\<lambda>c.
        cassert (ch_loop c = self) (
        EventLoop_assertInLoopThread tid L (
        cassert (el_eventHandling L \<longrightarrow>
            el_currentActiveChannel L = Some p \<or> p \<notin> set (el_activeChannels L)) (
        andThen (poller_remove p (h, el_poller L)) (\<lambda>(h', P).
        Inr (h', L\<lparr>el_poller := P\<rparr>)))))))"

definition EventLoop_hasChannel ::
  "('f channels \<Rightarrow> 'p \<Rightarrow> nat \<Rightarrow> bool result) \<Rightarrow> nat \<Rightarrow> int \<Rightarrow> nat \<Rightarrow>
   'f channels \<times> ('g, 'p, 'm) event_loop_scheme \<Rightarrow> bool result" where
  "EventLoop_hasChannel poller_has self tid p s =
     (case s of (h, L) \<Rightarrow> deref h p (\<lambda>c.
        cassert (ch_loop c = self) (
        EventLoop_assertInLoopThread tid L (poller_has h (el_poller L) p))))"

section \<open>Construction and destruction\<close>

text \<open>
  \<open>tls\<close> is \<open>t_loopInThisThread\<close>, per thread. \<open>wc\<close> is the address of the new wake-up channel,
  \<open>fd\<close> its descriptor and \<open>handle_read\<close> the functor bound to \<open>EventLoop::handleRead\<close>.
\<close>

definition EventLoop_construct ::
  "(nat \<Rightarrow> ('f, 'p) chan_step) \<Rightarrow> nat \<Rightarrow> int \<Rightarrow> nat \<Rightarrow> int \<Rightarrow> 'f \<Rightarrow>
   (int \<Rightarrow> nat option) \<times> 'f channels \<times> 'p \<Rightarrow>
   ((int \<Rightarrow> nat option) \<times> 'f channels \<times> ('g, 'p) event_loop) result" where
  "EventLoop_construct poller_update self tid wc fd handle_read s =
     (case s of (tls, h, P) \<Rightarrow>
        if fd < 0 then Inl Log_fatal
        else if tls tid \<noteq> None then Inl Log_fatal
        else
          let c = Channel_setReadCallback handle_read (Channel_new self fd) in
          andThen (Channel_enableReading (EventLoop_updateChannel poller_update self tid) wc
                     (h(wc \<mapsto> c), EventLoop_new tid P)) (\<lambda>(h', L).
          Inr (tls(tid \<mapsto> self), h', L)))"

definition EventLoop_destruct ::
  "(nat \<Rightarrow> ('f, 'p) chan_step) \<Rightarrow> (nat \<Rightarrow> ('f, 'p) chan_step) \<Rightarrow> nat \<Rightarrow> int \<Rightarrow> nat \<Rightarrow>
   (int \<Rightarrow> nat option) \<times> 'f channels \<times> ('g, 'p, 'm) event_loop_scheme \<Rightarrow>
   ((int \<Rightarrow> nat option) \<times> 'f channels \<times> ('g, 'p, 'm) event_loop_scheme) result" where
  "EventLoop_destruct poller_update poller_remove self tid wc s =
     (case s of (tls, h, L) \<Rightarrow>
        andThen (Channel_disableAll (EventLoop_updateChannel poller_update self tid) wc (h, L)) (\<lambda>s.
        andThen (Channel_remove (EventLoop_removeChannel poller_remove self tid) wc s) (\<lambda>(h', L').
        Inr (tls(tid := None), h', L'))))"

section \<open>Waking up and queueing\<close>

text \<open>A write of 1 that would exceed the maximum, and a read of 0, return \<open>EAGAIN\<close>, which is
  only logged.\<close>

definition EventLoop_wakeup :: "('g, 'p, 'm) event_loop_scheme \<Rightarrow> ('g, 'p, 'm) event_loop_scheme" where
  "EventLoop_wakeup L =
     (if el_wakeups L < eventfd_max then L\<lparr>el_wakeups := Suc (el_wakeups L)\<rparr> else L)"

definition EventLoop_handleRead :: "('g, 'p, 'm) event_loop_scheme \<Rightarrow> ('g, 'p, 'm) event_loop_scheme" where
  "EventLoop_handleRead L = L\<lparr>el_wakeups := 0\<rparr>"

text \<open>The critical section of \<open>queueInLoop\<close>, and the condition after it.\<close>

definition EventLoop_push ::
  "'g \<Rightarrow> ('g, 'p, 'm) event_loop_scheme \<Rightarrow> ('g, 'p, 'm) event_loop_scheme" where
  "EventLoop_push f L = L\<lparr>el_pendingFunctors := el_pendingFunctors L @ [f]\<rparr>"

definition EventLoop_must_wake :: "int \<Rightarrow> ('g, 'p, 'm) event_loop_scheme \<Rightarrow> bool" where
  "EventLoop_must_wake tid L \<longleftrightarrow> \<not> EventLoop_isInLoopThread tid L \<or> el_callingPendingFunctors L"

definition EventLoop_queueInLoop ::
  "int \<Rightarrow> 'g \<Rightarrow> ('g, 'p, 'm) event_loop_scheme \<Rightarrow> ('g, 'p, 'm) event_loop_scheme" where
  "EventLoop_queueInLoop tid f L =
     (let L' = EventLoop_push f L
      in if EventLoop_must_wake tid L' then EventLoop_wakeup L' else L')"

definition EventLoop_queueSize :: "('g, 'p, 'm) event_loop_scheme \<Rightarrow> nat" where
  "EventLoop_queueSize L = length (el_pendingFunctors L)"

definition EventLoop_runInLoop ::
  "('g \<Rightarrow> ('f, ('g, 'p, 'm) event_loop_scheme) chan_step) \<Rightarrow> int \<Rightarrow> 'g \<Rightarrow>
   ('f, ('g, 'p, 'm) event_loop_scheme) chan_step" where
  "EventLoop_runInLoop run tid f s =
     (if EventLoop_isInLoopThread tid (snd s) then run f s
      else Inr (fst s, EventLoop_queueInLoop tid f (snd s)))"

definition EventLoop_quit ::
  "int \<Rightarrow> ('g, 'p, 'm) event_loop_scheme \<Rightarrow> ('g, 'p, 'm) event_loop_scheme" where
  "EventLoop_quit tid L =
     (let L' = L\<lparr>el_quit := True\<rparr>
      in if \<not> EventLoop_isInLoopThread tid L' then EventLoop_wakeup L' else L')"

section \<open>Timers\<close>

text \<open>\<open>now\<close> is what \<open>Timestamp::now()\<close> returns, \<open>q\<close> the timer queue of the loop.\<close>

definition EventLoop_runAt ::
  "((nat \<Rightarrow> timer option) \<Rightarrow> nat option) \<Rightarrow> int \<Rightarrow> timestamp \<Rightarrow> nat \<Rightarrow> timer_queue \<Rightarrow>
   (timer_id \<times> timer_queue) result" where
  "EventLoop_runAt alloc tid time cb q = TimerQueue_addTimer alloc tid cb time 0 q"

definition EventLoop_runAfter ::
  "(rat \<Rightarrow> double) \<Rightarrow> ((nat \<Rightarrow> timer option) \<Rightarrow> nat option) \<Rightarrow> int \<Rightarrow> double \<Rightarrow> nat \<Rightarrow>
   timer_queue \<Rightarrow> (timer_id \<times> timer_queue) result" where
  "EventLoop_runAfter rnd alloc tid delay cb q =
     (if addTime_fits rnd (tq_clock q) delay
      then let time = addTime rnd (tq_clock q) delay in EventLoop_runAt alloc tid time cb q
      else Inl Undefined_behaviour)"

definition EventLoop_runEvery ::
  "(rat \<Rightarrow> double) \<Rightarrow> ((nat \<Rightarrow> timer option) \<Rightarrow> nat option) \<Rightarrow> int \<Rightarrow> double \<Rightarrow> nat \<Rightarrow>
   timer_queue \<Rightarrow> (timer_id \<times> timer_queue) result" where
  "EventLoop_runEvery rnd alloc tid interval cb q =
     (if addTime_fits rnd (tq_clock q) interval
      then let time = addTime rnd (tq_clock q) interval in TimerQueue_addTimer alloc tid cb time interval q
      else Inl Undefined_behaviour)"

definition EventLoop_cancel :: "int \<Rightarrow> timer_id \<Rightarrow> timer_queue \<Rightarrow> timer_queue result" where
  "EventLoop_cancel tid timer q = TimerQueue_cancel tid timer q"

section \<open>The loop\<close>

text \<open>One entry of \<open>activeChannels_\<close>.\<close>

definition EventLoop_dispatch ::
  "(nat \<Rightarrow> ('g, 'p, 'm) event_loop_scheme \<Rightarrow> bool) \<Rightarrow>
   ('f call \<Rightarrow> ('f, ('g, 'p, 'm) event_loop_scheme) chan_step) \<Rightarrow>
   'f channels \<times> ('g, 'p, 'm) event_loop_scheme \<Rightarrow> nat \<Rightarrow>
   ('f channels \<times> ('g, 'p, 'm) event_loop_scheme) result" where
  "EventLoop_dispatch lock invoke s p =
     (case s of (h, L) \<Rightarrow>
        Channel_handleEvent lock invoke p (el_pollReturnTime L)
          (h, L\<lparr>el_currentActiveChannel := Some p\<rparr>))"

definition EventLoop_doPendingFunctors ::
  "('g \<Rightarrow> ('f, ('g, 'p, 'm) event_loop_scheme) chan_step) \<Rightarrow>
   ('f, ('g, 'p, 'm) event_loop_scheme) chan_step" where
  "EventLoop_doPendingFunctors run s =
     (case s of (h, L) \<Rightarrow>
        let functors = el_pendingFunctors L in
        andThen (foldR (\<lambda>s f. run f s)
                   (h, L\<lparr>el_callingPendingFunctors := True, el_pendingFunctors := []\<rparr>) functors)
          (\<lambda>(h', L'). Inr (h', L'\<lparr>el_callingPendingFunctors := False\<rparr>)))"

text \<open>\<open>poll\<close> is the call of \<open>poller_->poll\<close>: the time it returns, and the channels it made active.
  Other threads act while it waits, so it may change the whole state.\<close>

definition EventLoop_iterate ::
  "(nat \<Rightarrow> ('g, 'p, 'm) event_loop_scheme \<Rightarrow> bool) \<Rightarrow>
   ('f call \<Rightarrow> ('f, ('g, 'p, 'm) event_loop_scheme) chan_step) \<Rightarrow>
   ('g \<Rightarrow> ('f, ('g, 'p, 'm) event_loop_scheme) chan_step) \<Rightarrow>
   ('f channels \<times> ('g, 'p, 'm) event_loop_scheme \<Rightarrow>
     (timestamp \<times> nat list \<times> 'f channels \<times> ('g, 'p, 'm) event_loop_scheme) result) \<Rightarrow>
   ('f, ('g, 'p, 'm) event_loop_scheme) chan_step" where
  "EventLoop_iterate lock invoke run poll s =
     (case s of (h, L) \<Rightarrow>
        andThen (poll (h, L\<lparr>el_activeChannels := []\<rparr>)) (\<lambda>(time, active, h1, L1).
        let L2 = L1\<lparr>el_activeChannels := active, el_pollReturnTime := time,
                    el_iteration := el_iteration L1 + 1, el_eventHandling := True\<rparr> in
        andThen (foldR (EventLoop_dispatch lock invoke) (h1, L2) active) (\<lambda>(h3, L3).
        EventLoop_doPendingFunctors run
          (h3, L3\<lparr>el_currentActiveChannel := None, el_eventHandling := False\<rparr>))))"

text \<open>One entry of \<open>polls\<close> per turn of \<open>while (!quit_)\<close>; the code stops where the list ends, which
  is a loop that is still polling.\<close>

fun EventLoop_while ::
  "(nat \<Rightarrow> ('g, 'p, 'm) event_loop_scheme \<Rightarrow> bool) \<Rightarrow>
   ('f call \<Rightarrow> ('f, ('g, 'p, 'm) event_loop_scheme) chan_step) \<Rightarrow>
   ('g \<Rightarrow> ('f, ('g, 'p, 'm) event_loop_scheme) chan_step) \<Rightarrow>
   ('f channels \<times> ('g, 'p, 'm) event_loop_scheme \<Rightarrow>
     (timestamp \<times> nat list \<times> 'f channels \<times> ('g, 'p, 'm) event_loop_scheme) result) list \<Rightarrow>
   ('f, ('g, 'p, 'm) event_loop_scheme) chan_step" where
  "EventLoop_while lock invoke run [] s = Inr s"
| "EventLoop_while lock invoke run (poll # polls) s =
     (if el_quit (snd s) then Inr s
      else andThen (EventLoop_iterate lock invoke run poll s) (EventLoop_while lock invoke run polls))"

definition EventLoop_enter ::
  "int \<Rightarrow> ('g, 'p, 'm) event_loop_scheme \<Rightarrow> ('g, 'p, 'm) event_loop_scheme result" where
  "EventLoop_enter tid L =
     cassert (\<not> el_looping L) (
     EventLoop_assertInLoopThread tid L (
     Inr (L\<lparr>el_looping := True, el_quit := False\<rparr>)))"

definition EventLoop_leave ::
  "('g, 'p, 'm) event_loop_scheme \<Rightarrow> ('g, 'p, 'm) event_loop_scheme" where
  "EventLoop_leave L = L\<lparr>el_looping := False\<rparr>"

definition EventLoop_loop ::
  "(nat \<Rightarrow> ('g, 'p, 'm) event_loop_scheme \<Rightarrow> bool) \<Rightarrow>
   ('f call \<Rightarrow> ('f, ('g, 'p, 'm) event_loop_scheme) chan_step) \<Rightarrow>
   ('g \<Rightarrow> ('f, ('g, 'p, 'm) event_loop_scheme) chan_step) \<Rightarrow> int \<Rightarrow>
   ('f channels \<times> ('g, 'p, 'm) event_loop_scheme \<Rightarrow>
     (timestamp \<times> nat list \<times> 'f channels \<times> ('g, 'p, 'm) event_loop_scheme) result) list \<Rightarrow>
   ('f, ('g, 'p, 'm) event_loop_scheme) chan_step" where
  "EventLoop_loop lock invoke run tid polls s =
     (case s of (h, L) \<Rightarrow>
        andThen (EventLoop_enter tid L) (\<lambda>L.
        andThen (EventLoop_while lock invoke run polls (h, L)) (\<lambda>(h, L).
        Inr (h, if el_quit L then EventLoop_leave L else L))))"

section \<open>A loop is a poller to its channels\<close>

text \<open>In the loop's own thread and outside event handling, the calls of a loop keep the contract of
  the poller it owns. While events are handled \<open>removeChannel\<close> refuses a channel that is still to
  be dispatched.\<close>

definition loop_rep ::
  "('f channels \<Rightarrow> 'p \<Rightarrow> watch \<Rightarrow> bool) \<Rightarrow> nat \<Rightarrow> int \<Rightarrow> 'f channels \<Rightarrow>
   ('g, 'p, 'm) event_loop_scheme \<Rightarrow> watch \<Rightarrow> bool" where
  "loop_rep rep self tid h L W \<longleftrightarrow> rep h (el_poller L) W \<and> el_threadId L = tid \<and>
     \<not> el_eventHandling L \<and> (\<forall>p c. h p = Some c \<longrightarrow> ch_loop c = self)"

lemma index_only_loop:
  assumes "index_only W p h h'" and "\<forall>q c. h q = Some c \<longrightarrow> ch_loop c = self"
  shows "\<forall>q c. h' q = Some c \<longrightarrow> ch_loop c = self"
proof (intro allI impI)
  fix q c assume q: "h' q = Some c"
  from assms(1) have "case h q of None \<Rightarrow> h' q = None
      | Some c \<Rightarrow> \<exists>i. h' q = Some (c\<lparr>ch_index := i\<rparr>) \<and>
          (q \<noteq> p \<and> map_option fst (W (ch_fd c)) \<noteq> Some q \<longrightarrow> i = ch_index c)"
    unfolding index_only_def by (rule spec)
  then show "ch_loop c = self" using q assms(2) by (cases "h q") auto
qed

locale loop_poller = poller rep update remove reuse fallible
  for rep :: "'f channels \<Rightarrow> 'p \<Rightarrow> watch \<Rightarrow> bool" and update remove reuse fallible +
  fixes self :: nat and tid :: int
begin

lemma EventLoop_updateChannel_ok:
  assumes "loop_rep rep self tid h L W" and "h p = Some c" and "may_update W p c"
  shows "fallible \<and> EventLoop_updateChannel update self tid p (h, L) = Inl Log_fatal \<or>
    (\<exists>h' L'. EventLoop_updateChannel update self tid p (h, L) = Inr (h', L') \<and>
       loop_rep rep self tid h' L' (W(ch_fd c \<mapsto> (p, ch_events c))) \<and> index_only W p h h')"
proof -
  have in_loop: "EventLoop_updateChannel update self tid p (h, L) =
      andThen (update p (h, el_poller L)) (\<lambda>(h', P). Inr (h', L\<lparr>el_poller := P\<rparr>))"
    using assms(1,2) by (simp add: EventLoop_updateChannel_def loop_rep_def EventLoop_assertInLoopThread_def
        EventLoop_isInLoopThread_def)
  have "rep h (el_poller L) W" using assms(1) by (simp add: loop_rep_def)
  from update_ok [OF this assms(2,3)] show ?thesis
  proof (elim disjE exE conjE)
    fix h' P'
    assume r: "update p (h, el_poller L) = Inr (h', P')" "rep h' P' (W(ch_fd c \<mapsto> (p, ch_events c)))"
      "index_only W p h h'"
    then show ?thesis
      using assms(1) index_only_loop [OF r(3), of self] by (simp add: in_loop loop_rep_def)
  qed (simp add: in_loop)
qed

lemma EventLoop_removeChannel_ok:
  assumes "loop_rep rep self tid h L W" and "h p = Some c" and "may_remove W p c"
  shows "\<exists>h' L'. EventLoop_removeChannel remove self tid p (h, L) = Inr (h', L') \<and>
       loop_rep rep self tid h' L' (W(ch_fd c := None)) \<and> index_only W p h h' \<and>
       (reuse \<longrightarrow> (\<exists>c'. h' p = Some c' \<and> ch_index c' = -1))"
proof -
  have in_loop: "EventLoop_removeChannel remove self tid p (h, L) =
      andThen (remove p (h, el_poller L)) (\<lambda>(h', P). Inr (h', L\<lparr>el_poller := P\<rparr>))"
    using assms(1,2) by (simp add: EventLoop_removeChannel_def loop_rep_def EventLoop_assertInLoopThread_def
        EventLoop_isInLoopThread_def)
  have "rep h (el_poller L) W" using assms(1) by (simp add: loop_rep_def)
  from remove_ok [OF this assms(2,3)] obtain h' P' where r:
    "remove p (h, el_poller L) = Inr (h', P')" "rep h' P' (W(ch_fd c := None))" "index_only W p h h'"
    "reuse \<longrightarrow> (\<exists>c'. h' p = Some c' \<and> ch_index c' = -1)" by blast
  then show ?thesis
    using assms(1) index_only_loop [OF r(3), of self] by (simp add: in_loop loop_rep_def)
qed

lemma loop_rep_set_events:
  assumes "loop_rep rep self tid h L W" and "h p = Some c"
  shows "loop_rep rep self tid (h(p \<mapsto> c\<lparr>ch_events := ev, ch_addedToLoop := b\<rparr>)) L W"
  using assms by (auto simp: loop_rep_def rep_set_events)

end

text \<open>Another thread is stopped before it reaches the poller.\<close>

lemma other_thread:
  assumes rep: "loop_rep rep self tid h L W" and c: "h p = Some c" and "tid' \<noteq> tid" and "op_channel op = p"
    and "is_Remove op \<longrightarrow> ch_events c = 0"
  shows "chan_exec (EventLoop_updateChannel up self tid') (EventLoop_removeChannel rm self tid') (h, L) op = Inl Log_fatal"
proof (cases "is_Remove op")
  case True
  then show ?thesis
    using assms
    by (simp add: chan_exec_remove [where h = h and op = op and p = p, OF c] EventLoop_removeChannel_def loop_rep_def EventLoop_assertInLoopThread_def EventLoop_isInLoopThread_def)
next
  case False
  then show ?thesis
    using assms
    by (simp add: chan_exec_update [where h = h and op = op and p = p, OF c] EventLoop_updateChannel_def loop_rep_def EventLoop_assertInLoopThread_def EventLoop_isInLoopThread_def)
qed

sublocale loop_poller \<subseteq> loop: poller "loop_rep rep self tid" "EventLoop_updateChannel update self tid"
    "EventLoop_removeChannel remove self tid" reuse fallible
  by unfold_locales
    (use EventLoop_updateChannel_ok EventLoop_removeChannel_ok loop_rep_set_events in blast)+

context loop_poller
begin

lemmas loop_is_poller = loop.poller_axioms

end

interpretation poll_loop: loop_poller "poll_rep tid" "PollPoller_updateChannel tid"
    "PollPoller_removeChannel tid" False False self tid for self tid
  by unfold_locales

interpretation epoll_loop: loop_poller "epoll_rep (\<lambda>k. k) tid" "EPollPoller_updateChannel list_ctl tid"
    "EPollPoller_removeChannel list_ctl tid" True True self tid for self tid
  by unfold_locales

text \<open>
  Any sequence of operations on the channels of a loop, within the contract and from the loop's
  own thread, leaves the epoll instance watching exactly the registered channels for the events
  they ask for, or the process stopped because the kernel refused a registration. The same call
  from another thread stops the process before it touches the poller.
\<close>

theorem EventLoop_watches_interests:
  fixes L :: "('g, 'k epoll_poller) event_loop"
  assumes K: "epoll_instance ctl wait interest" and loop: "L = EventLoop_new tid ep"
    and new: "EPollPoller_new tid epollfd k = Inr ep" "interest k = Map.empty"
    and start: "unregistered h E" and owned: "\<forall>p c. h p = Some c \<longrightarrow> ch_loop c = self"
    and script: "script_allowed True ops E"
    and run: "foldR (chan_exec (EventLoop_updateChannel (EPollPoller_updateChannel ctl tid) self tid)
                (EventLoop_removeChannel (EPollPoller_removeChannel ctl tid) self tid))
                (h, L) ops \<noteq> Inl Log_fatal"
  defines "R \<equiv> script_result True ops E"
  shows "\<exists>h' L'.
    foldR (chan_exec (EventLoop_updateChannel (EPollPoller_updateChannel ctl tid) self tid)
        (EventLoop_removeChannel (EPollPoller_removeChannel ctl tid) self tid))
        (h, L) ops = Inr (h', L') \<and>
    (\<forall>fd p ev. interest (ep_kernel (el_poller L')) fd = Some (ev, p) \<longrightarrow> R p = Some (fd, ev, Registered)) \<and>
    (\<forall>fd p ev. R p = Some (fd, ev, Registered) \<and> ev \<noteq> 0 \<longrightarrow>
       interest (ep_kernel (el_poller L')) fd = Some (ev, p)) \<and>
    (\<forall>p fd ev life. R p = Some (fd, ev, life) \<longrightarrow>
       EventLoop_hasChannel (Poller_hasChannel tid) self tid p (h', L') = Inr (life = Registered)) \<and>
    (\<forall>tid' op p c. tid' \<noteq> tid \<and> h' p = Some c \<and> op_channel op = p \<and> (is_Remove op \<longrightarrow> ch_events c = 0) \<longrightarrow>
       chan_exec (EventLoop_updateChannel (EPollPoller_updateChannel ctl tid) self tid')
         (EventLoop_removeChannel (EPollPoller_removeChannel ctl tid) self tid') (h', L') op = Inl Log_fatal)"
proof -
  have lp: "loop_poller (epoll_rep interest tid) (EPollPoller_updateChannel ctl tid)
      (EPollPoller_removeChannel ctl tid) True True"
    using EPollPoller_is_poller [OF K] by (rule loop_poller.intro)
  have rep0: "loop_rep (epoll_rep interest tid) self tid h L Map.empty"
    using EPollPoller_new_rep [where interest = interest and h = h, OF new] owned
    by (simp add: loop loop_rep_def EventLoop_new_def)
  obtain h' L' W where r: "foldR (chan_exec (EventLoop_updateChannel (EPollPoller_updateChannel ctl tid) self tid)
        (EventLoop_removeChannel (EPollPoller_removeChannel ctl tid) self tid))
        (h, L) ops = Inr (h', L')"
      and rep: "loop_rep (epoll_rep interest tid) self tid h' L' W" and rel: "stands_for h' W R"
    using poller.script_refines [OF loop_poller.loop_is_poller [OF lp] rep0 unregistered_stands_for [OF start] script]
      run unfolding R_def by blast
  note W = stands_for_watch [OF rel]
  have ep: "epoll_rep interest tid h' (el_poller L') W" using rep by (simp add: loop_rep_def)
  note listed = epoll_rep_listed [OF ep] and watched = epoll_rep_watched [OF ep]
  have has: "EventLoop_hasChannel (Poller_hasChannel tid) self tid p (h', L') = Inr (life = Registered)"
    if "R p = Some (fd, ev, life)" for p fd ev life
    using epoll_rep_has [OF ep rel that] rep
    by (auto simp: EventLoop_hasChannel_def loop_rep_def EventLoop_assertInLoopThread_def
        EventLoop_isInLoopThread_def)
  have other: "chan_exec (EventLoop_updateChannel (EPollPoller_updateChannel ctl tid) self tid')
         (EventLoop_removeChannel (EPollPoller_removeChannel ctl tid) self tid') (h', L') op = Inl Log_fatal"
    if "tid' \<noteq> tid \<and> h' p = Some c \<and> op_channel op = p \<and> (is_Remove op \<longrightarrow> ch_events c = 0)" for tid' op p c
    by (rule other_thread [OF rep]) (use that in auto)
  show ?thesis
    by (rule exI [of _ h'], rule exI [of _ L'])
      (use r W other in \<open>blast dest: listed watched has\<close>)
qed

lemma EventLoop_watches_interests_witness:
  "\<exists>h' L'. foldR (chan_exec (EventLoop_updateChannel (EPollPoller_updateChannel list_ctl 9) 0 9)
        (EventLoop_removeChannel (EPollPoller_removeChannel list_ctl 9) 0 9))
      ([1 \<mapsto> Channel_new 0 5, 2 \<mapsto> Channel_new 0 6],
       EventLoop_new 9 \<lparr>po_channels = [], po_owner = 9, ep_kernel = Map.empty, ep_events_size = 16\<rparr>)
      [Enable_reading 1, Enable_writing 2, Disable_all 2, Remove 2] = Inr (h', L') \<and>
    ep_kernel (el_poller L') 5 = Some (kReadEvent, 1) \<and> ep_kernel (el_poller L') 6 = None"
proof -
  define h :: "'a channels" where "h = [1 \<mapsto> Channel_new 0 5, 2 \<mapsto> Channel_new 0 6]"
  define ep :: "(int \<Rightarrow> epoll_event option) epoll_poller" where
    "ep = \<lparr>po_channels = [], po_owner = 9, ep_kernel = Map.empty, ep_events_size = 16\<rparr>"
  define L :: "('b, (int \<Rightarrow> epoll_event option) epoll_poller) event_loop" where "L = EventLoop_new 9 ep"
  define E :: chan_table where "E = [1 \<mapsto> (5, 0, Fresh), 2 \<mapsto> (6, 0, Fresh)]"
  define ops where "ops = [Enable_reading 1, Enable_writing 2, Disable_all 2, Remove 2]"
  have new: "EPollPoller_new 9 3 Map.empty = Inr ep"
    by (simp add: EPollPoller_new_def ep_def kInitEventListSize_def)
  have start: "unregistered h E"
    by (auto simp: unregistered_def h_def E_def split: if_splits)
  have script: "script_allowed True ops E"
    by (simp add: ops_def E_def op_allowed_def op_result_def is_Remove_def fd_free_def)
  have final: "script_result True ops E 1 = Some (5, kReadEvent, Registered)"
    "script_result True ops E 2 = Some (6, 0, Fresh)"
    by (simp_all add: script_result_def ops_def E_def op_result_def is_Remove_def)
  have owned: "\<forall>p c. h p = Some c \<longrightarrow> ch_loop c = 0" by (auto simp: h_def Channel_new_def)
  have run: "foldR (chan_exec (EventLoop_updateChannel (EPollPoller_updateChannel list_ctl 9) 0 9)
        (EventLoop_removeChannel (EPollPoller_removeChannel list_ctl 9) 0 9)) (h, L) ops \<noteq> Inl Log_fatal"
    by (simp add: ops_def h_def ep_def L_def epoll_eval EventLoop_updateChannel_def EventLoop_removeChannel_def
        EventLoop_assertInLoopThread_def EventLoop_isInLoopThread_def EventLoop_new_def)
  obtain h' L' where r: "foldR (chan_exec (EventLoop_updateChannel (EPollPoller_updateChannel list_ctl 9) 0 9)
        (EventLoop_removeChannel (EPollPoller_removeChannel list_ctl 9) 0 9)) (h, L) ops = Inr (h', L')"
    and out: "\<forall>fd p ev. ep_kernel (el_poller L') fd = Some (ev, p) \<longrightarrow>
       script_result True ops E p = Some (fd, ev, Registered)"
    and into: "\<forall>fd p ev. script_result True ops E p = Some (fd, ev, Registered) \<and> ev \<noteq> 0 \<longrightarrow>
       ep_kernel (el_poller L') fd = Some (ev, p)"
    using EventLoop_watches_interests [OF interest_list.epoll_instance_axioms [of "[]"] L_def new refl start
        owned script run] by blast
  have "script_result True ops E p \<noteq> Some (6, ev, Registered)" for p ev
    by (auto simp: script_result_def ops_def E_def op_result_def is_Remove_def)
  then have "ep_kernel (el_poller L') 6 \<noteq> Some (ev, p)" for ev p using out by blast
  then have "ep_kernel (el_poller L') 6 = None" by (cases "ep_kernel (el_poller L') 6") auto
  moreover have "ep_kernel (el_poller L') 5 = Some (kReadEvent, 1)"
    using into final by (simp add: kReadEvent_def poll_bits)
  ultimately show ?thesis
    using r unfolding h_def [symmetric] ep_def [symmetric] L_def [symmetric] ops_def [symmetric] by blast
qed

end
