(* ===== verification/Loop_Protocol.thy ===== *)
theory Loop_Protocol
  imports Event_Loop "HOL-Library.Sublist"
begin

text \<open>
  \<open>src/muduo/net/EventLoop.cpp\<close>, threads: the pieces of \<open>queueInLoop\<close>, \<open>quit\<close> and \<open>loop\<close> that
  other threads can see, in any interleaving.

  A thread inside \<open>queueInLoop\<close> or \<open>quit\<close> that has done its write and still has to call \<open>wakeup\<close> is
  in \<open>lr_waking\<close>; \<open>lr_pc\<close> is where the loop's own thread is. Callbacks and functors are code of the
  loop's thread that may call \<open>queueInLoop\<close> and \<open>quit\<close> any number of times while they run.
\<close>

section \<open>States and steps\<close>

datatype 'g loop_pc =
    Outside               \<comment> \<open>before or after \<open>loop()\<close>\<close>
  | Testing               \<comment> \<open>before \<open>while (!quit_)\<close>\<close>
  | Polling               \<comment> \<open>in \<open>poller_->poll\<close>\<close>
  | Handling "bool list"  \<comment> \<open>the active channels left; \<open>True\<close> is the wake-up channel\<close>
  | Swapping              \<comment> \<open>in \<open>doPendingFunctors\<close>, before the critical section\<close>
  | Running "'g list"     \<comment> \<open>the functors left\<close>

record ('g, 'p) loop_run =
  lr_loop :: "('g, 'p) event_loop"
  lr_pc :: "'g loop_pc"
  lr_waking :: "int set"
  lr_early :: bool        \<comment> \<open>the loop's thread queued a functor outside \<open>loop()\<close>, still pending\<close>
  lr_queued :: "'g list"  \<comment> \<open>every functor queued so far\<close>
  lr_ran :: "'g list"     \<comment> \<open>every functor begun so far\<close>

text \<open>What can happen: calls by a thread, and moves of the loop's thread.\<close>

datatype 'g loop_event =
    Queue_functor int 'g | Request_quit int | Write_wakeup int
  | Enter_loop | Test_quit | Poll_returns timestamp "bool list" | Handle_event | End_handling
  | Swap_functors | Run_functor | End_functors

fun own_event :: "'g loop_event \<Rightarrow> bool" where
  "own_event (Queue_functor t f) = False"
| "own_event (Request_quit t) = False"
| "own_event (Write_wakeup t) = False"
| "own_event _ = True"

text \<open>The loop's thread runs code of the user.\<close>

fun user_code :: "'g loop_pc \<Rightarrow> bool" where
  "user_code Outside = True"
| "user_code (Handling es) = True"
| "user_code (Running fs) = True"
| "user_code _ = False"

definition may_call :: "int \<Rightarrow> ('g, 'p) loop_run \<Rightarrow> bool" where
  "may_call t s \<longleftrightarrow> t \<notin> lr_waking s \<and> (EventLoop_isInLoopThread t (lr_loop s) \<longrightarrow> user_code (lr_pc s))"

definition lr_owner :: "('g, 'p) loop_run \<Rightarrow> int" where
  "lr_owner s = el_threadId (lr_loop s)"

fun loop_next :: "'g loop_event \<Rightarrow> ('g, 'p) loop_run \<Rightarrow> ('g, 'p) loop_run option" where
  "loop_next (Queue_functor t f) s =
     (if may_call t s then
        let L = EventLoop_push f (lr_loop s)
        in Some (s\<lparr>lr_loop := L,
                   lr_waking := (if EventLoop_must_wake t L then insert t (lr_waking s) else lr_waking s),
                   lr_early := (lr_early s \<or> t = lr_owner s \<and> lr_pc s = Outside),
                   lr_queued := lr_queued s @ [f]\<rparr>)
      else None)"
| "loop_next (Request_quit t) s =
     (if may_call t s then
        let L = (lr_loop s)\<lparr>el_quit := True\<rparr>
        in Some (s\<lparr>lr_loop := L,
                   lr_waking := (if \<not> EventLoop_isInLoopThread t L then insert t (lr_waking s) else lr_waking s)\<rparr>)
      else None)"
| "loop_next (Write_wakeup t) s =
     (if t \<in> lr_waking s then
        Some (s\<lparr>lr_loop := EventLoop_wakeup (lr_loop s), lr_waking := lr_waking s - {t}\<rparr>)
      else None)"
| "loop_next e s =
     (if lr_owner s \<in> lr_waking s then None
      else case (e, lr_pc s) of
        (Enter_loop, Outside) \<Rightarrow>
          (case EventLoop_enter (lr_owner s) (lr_loop s) of
             Inl err \<Rightarrow> None
           | Inr L \<Rightarrow> Some (s\<lparr>lr_loop := L, lr_pc := Testing\<rparr>))
      | (Test_quit, Testing) \<Rightarrow>
          if el_quit (lr_loop s) then Some (s\<lparr>lr_loop := EventLoop_leave (lr_loop s), lr_pc := Outside\<rparr>)
          else Some (s\<lparr>lr_loop := (lr_loop s)\<lparr>el_activeChannels := []\<rparr>, lr_pc := Polling\<rparr>)
      | (Poll_returns time es, Polling) \<Rightarrow>
          Some (s\<lparr>lr_loop := (lr_loop s)\<lparr>el_pollReturnTime := time,
                    el_iteration := el_iteration (lr_loop s) + 1, el_eventHandling := True\<rparr>,
                  lr_pc := Handling es\<rparr>)
      | (Handle_event, Handling (w # es)) \<Rightarrow>
          Some (s\<lparr>lr_loop := (if w then EventLoop_handleRead (lr_loop s) else lr_loop s),
                  lr_pc := Handling es\<rparr>)
      | (End_handling, Handling []) \<Rightarrow>
          Some (s\<lparr>lr_loop := (lr_loop s)\<lparr>el_eventHandling := False, el_callingPendingFunctors := True\<rparr>,
                  lr_pc := Swapping\<rparr>)
      | (Swap_functors, Swapping) \<Rightarrow>
          Some (s\<lparr>lr_loop := (lr_loop s)\<lparr>el_pendingFunctors := []\<rparr>,
                  lr_pc := Running (el_pendingFunctors (lr_loop s)), lr_early := False\<rparr>)
      | (Run_functor, Running (f # fs)) \<Rightarrow>
          Some (s\<lparr>lr_pc := Running fs, lr_ran := lr_ran s @ [f]\<rparr>)
      | (End_functors, Running []) \<Rightarrow>
          Some (s\<lparr>lr_loop := (lr_loop s)\<lparr>el_callingPendingFunctors := False\<rparr>, lr_pc := Testing\<rparr>)
      | _ \<Rightarrow> None)"

fun loop_steps :: "'g loop_event list \<Rightarrow> ('g, 'p) loop_run \<Rightarrow> ('g, 'p) loop_run option" where
  "loop_steps [] s = Some s"
| "loop_steps (e # es) s = (case loop_next e s of None \<Rightarrow> None | Some s' \<Rightarrow> loop_steps es s')"

definition loop_start :: "int \<Rightarrow> 'p \<Rightarrow> ('g, 'p) loop_run" where
  "loop_start tid P = \<lparr>lr_loop = EventLoop_new tid P, lr_pc = Outside, lr_waking = {},
     lr_early = False, lr_queued = [], lr_ran = []\<rparr>"

section \<open>The invariant\<close>

fun batch :: "'g loop_pc \<Rightarrow> 'g list" where
  "batch (Running fs) = fs"
| "batch _ = []"

text \<open>The phases in which a functor that waits must have a wake-up on its way.\<close>

fun needs_wakeup :: "'g loop_pc \<Rightarrow> bool" where
  "needs_wakeup (Handling es) = False"
| "needs_wakeup Swapping = False"
| "needs_wakeup _ = True"

definition wakeup_due :: "('g, 'p) loop_run \<Rightarrow> bool" where
  "wakeup_due s \<longleftrightarrow> 0 < el_wakeups (lr_loop s) \<or> lr_waking s \<noteq> {}"

definition loop_inv :: "('g, 'p) loop_run \<Rightarrow> bool" where
  "loop_inv s \<longleftrightarrow>
     (el_looping (lr_loop s) \<longleftrightarrow> lr_pc s \<noteq> Outside) \<and>
     (el_callingPendingFunctors (lr_loop s) \<longleftrightarrow> lr_pc s = Swapping \<or> (\<exists>fs. lr_pc s = Running fs)) \<and>
     (el_eventHandling (lr_loop s) \<longleftrightarrow> (\<exists>es. lr_pc s = Handling es)) \<and>
     (lr_owner s \<in> lr_waking s \<longrightarrow> (\<exists>fs. lr_pc s = Running fs)) \<and>
     lr_ran s @ batch (lr_pc s) @ el_pendingFunctors (lr_loop s) = lr_queued s \<and>
     (needs_wakeup (lr_pc s) \<and> el_pendingFunctors (lr_loop s) \<noteq> [] \<longrightarrow> wakeup_due s \<or> lr_early s) \<and>
     (lr_pc s = Polling \<and> el_quit (lr_loop s) \<longrightarrow> wakeup_due s) \<and>
     (lr_early s \<longrightarrow> el_pendingFunctors (lr_loop s) \<noteq> [])"

lemma loop_inv_start: "loop_inv (loop_start tid P)"
  by (simp add: loop_inv_def loop_start_def EventLoop_new_def wakeup_due_def)

lemma eventfd_max_pos: "0 < eventfd_max"
  by (simp add: eventfd_max_def)

lemma wakeup_fields [simp]:
  "el_pendingFunctors (EventLoop_wakeup L) = el_pendingFunctors L"
  "el_quit (EventLoop_wakeup L) = el_quit L" "el_looping (EventLoop_wakeup L) = el_looping L"
  "el_callingPendingFunctors (EventLoop_wakeup L) = el_callingPendingFunctors L"
  "el_eventHandling (EventLoop_wakeup L) = el_eventHandling L"
  "el_threadId (EventLoop_wakeup L) = el_threadId L"
  "0 < el_wakeups (EventLoop_wakeup L)"
  using eventfd_max_pos by (auto simp: EventLoop_wakeup_def)

lemmas loop_defs = loop_inv_def lr_owner_def wakeup_due_def EventLoop_push_def EventLoop_must_wake_def
  EventLoop_isInLoopThread_def EventLoop_handleRead_def EventLoop_leave_def EventLoop_enter_def
  EventLoop_assertInLoopThread_def may_call_def cassert_def


text \<open>What a step must show, as a function of where it leads.\<close>

definition keeps_loop_inv :: "int \<Rightarrow> ('g, 'p) loop_run option \<Rightarrow> bool" where
  "keeps_loop_inv tid r \<longleftrightarrow> (case r of None \<Rightarrow> True | Some s' \<Rightarrow> loop_inv s' \<and> lr_owner s' = tid)"

lemma Queue_functor_inv:
  assumes "loop_inv s"
  shows "keeps_loop_inv (lr_owner s) (loop_next (Queue_functor t f) s)"
proof (cases "t = lr_owner s")
  case True
  then show ?thesis using assms
    by (cases "lr_pc s") (simp_all add: keeps_loop_inv_def loop_defs Let_def)
next
  case False
  then show ?thesis using assms
    by (cases "lr_pc s") (simp_all add: keeps_loop_inv_def loop_defs Let_def)
qed

lemma Request_quit_inv:
  assumes "loop_inv s"
  shows "keeps_loop_inv (lr_owner s) (loop_next (Request_quit t) s)"
proof (cases "t = lr_owner s")
  case True
  then show ?thesis using assms
    by (cases "lr_pc s") (simp_all add: keeps_loop_inv_def loop_defs Let_def)
next
  case False
  then show ?thesis using assms
    by (cases "lr_pc s") (simp_all add: keeps_loop_inv_def loop_defs Let_def)
qed

lemma Write_wakeup_inv:
  assumes "loop_inv s"
  shows "keeps_loop_inv (lr_owner s) (loop_next (Write_wakeup t) s)"
  using assms
  by (cases "lr_pc s") (simp_all add: keeps_loop_inv_def loop_defs)

lemma own_event_inv:
  assumes "loop_inv s" and "own_event e"
  shows "keeps_loop_inv (lr_owner s) (loop_next e s)"
proof (cases "lr_owner s \<in> lr_waking s")
  case True
  then show ?thesis using assms(2) by (cases e) (simp_all add: keeps_loop_inv_def)
next
  case False
  show ?thesis
  proof (cases "lr_pc s")
    case (Handling es)
    then show ?thesis using assms False
      by (cases e; cases es) (simp_all add: keeps_loop_inv_def loop_defs)
  next
    case (Running fs)
    then show ?thesis using assms False
      by (cases e; cases fs) (simp_all add: keeps_loop_inv_def loop_defs)
  qed (use assms False in \<open>cases e; simp add: keeps_loop_inv_def loop_defs\<close>)+
qed

lemma loop_next_inv:
  assumes "loop_inv s" and "loop_next e s = Some s'"
  shows "loop_inv s' \<and> lr_owner s' = lr_owner s"
proof -
  have "keeps_loop_inv (lr_owner s) (loop_next e s)"
    using Queue_functor_inv [OF assms(1)] Request_quit_inv [OF assms(1)] Write_wakeup_inv [OF assms(1)]
      own_event_inv [OF assms(1), of e]
    by (cases "own_event e") (auto elim: own_event.elims)
  then show ?thesis using assms(2) by (simp add: keeps_loop_inv_def)
qed

lemma loop_steps_append:
  "loop_steps (es @ es') s = (case loop_steps es s of None \<Rightarrow> None | Some s' \<Rightarrow> loop_steps es' s')"
  by (induction es arbitrary: s) (auto split: option.splits)

lemma loop_steps_inv:
  "loop_steps es s = Some s' \<Longrightarrow> loop_inv s \<Longrightarrow> loop_inv s' \<and> lr_owner s' = lr_owner s"
proof (induction es arbitrary: s)
  case (Cons e es)
  then obtain s1 where "loop_next e s = Some s1" "loop_steps es s1 = Some s'"
    by (auto split: option.splits)
  then show ?case using Cons loop_next_inv by metis
qed simp

lemma loop_reachable_inv:
  "loop_steps es (loop_start tid P) = Some s \<Longrightarrow> loop_inv s \<and> lr_owner s = tid"
  using loop_steps_inv [OF _ loop_inv_start] by (fastforce simp: loop_start_def lr_owner_def EventLoop_new_def)

section \<open>Properties\<close>

text \<open>
  C3: no lost wake-up. In every interleaving of any threads with the loop, whenever the loop's
  thread waits in poll while a functor is pending or \<open>quit\<close> was called, the wake-up descriptor is
  readable, or another thread is about to write it. The one exception is a functor that the loop's
  own thread queued while it was not inside \<open>loop()\<close>.
\<close>

theorem EventLoop_no_lost_wakeup:
  assumes "loop_steps es (loop_start tid P) = Some s" and "lr_pc s = Polling"
    and "el_quit (lr_loop s) \<or> el_pendingFunctors (lr_loop s) \<noteq> [] \<and> \<not> lr_early s"
  shows "0 < el_wakeups (lr_loop s) \<or> (\<exists>t \<in> lr_waking s. t \<noteq> tid)"
proof -
  have inv: "loop_inv s" "lr_owner s = tid" using loop_reachable_inv [OF assms(1)] by auto
  then have "0 < el_wakeups (lr_loop s) \<or> lr_waking s \<noteq> {}" and "tid \<notin> lr_waking s"
    using assms(2,3) by (auto simp: loop_inv_def wakeup_due_def)
  then show ?thesis by (metis ex_in_conv)
qed

text \<open>
  C14: functors run in the order they were queued, each once: in every interleaving, those begun,
  those of the batch being run and those pending are together exactly the functors queued so far,
  in this order.
\<close>

theorem EventLoop_functors_in_order:
  assumes "loop_steps es (loop_start tid P) = Some s"
  shows "lr_ran s @ batch (lr_pc s) @ el_pendingFunctors (lr_loop s) = lr_queued s"
  using loop_reachable_inv [OF assms] by (simp add: loop_inv_def)

text \<open>Whatever the steps, what was begun or is in the batch stays so.\<close>

definition begun :: "('g, 'p) loop_run \<Rightarrow> 'g list" where
  "begun s = lr_ran s @ batch (lr_pc s)"

definition turned :: "'g list \<Rightarrow> ('g, 'p) loop_run \<Rightarrow> bool" where
  "turned Q s \<longleftrightarrow> (case lr_pc s of Handling es \<Rightarrow> True | Swapping \<Rightarrow> True | _ \<Rightarrow> prefix Q (begun s))"

definition turning :: "'g list \<Rightarrow> bool \<Rightarrow> ('g, 'p) loop_run \<Rightarrow> bool" where
  "turning Q polled s \<longleftrightarrow> loop_inv s \<and> prefix Q (lr_queued s) \<and>
     (if polled then turned Q s else lr_pc s = Polling)"

fun is_poll :: "'g loop_event \<Rightarrow> bool" where
  "is_poll (Poll_returns time es) = True"
| "is_poll _ = False"

lemma turning_calls:
  assumes "turning Q polled s" and "\<not> own_event e" and "loop_next e s = Some s'"
  shows "turning Q polled s'"
proof -
  have "loop_inv s'" using assms loop_next_inv by (auto simp: turning_def)
  moreover have "prefix Q (lr_queued s')" "lr_pc s' = lr_pc s" "begun s' = begun s"
    using assms by (cases e; auto simp: turning_def begun_def Let_def split: if_splits)+
  ultimately show ?thesis using assms(1)
    by (cases polled) (simp_all add: turning_def turned_def split: loop_pc.splits)
qed

lemma turning_own:
  assumes "turning Q polled s" and "own_event e" and "loop_next e s = Some s'"
  shows "turning Q (polled \<or> is_poll e) s'"
proof -
  have inv: "loop_inv s" "loop_inv s'" using assms loop_next_inv by (auto simp: turning_def)
  have Q: "prefix Q (lr_queued s')" "lr_queued s' = lr_queued s"
    using assms by (cases e; auto simp: turning_def split: if_splits loop_pc.splits list.splits sum.splits)+
  have all: "begun s' @ el_pendingFunctors (lr_loop s') = lr_queued s'"
    using inv(2) by (simp add: loop_inv_def begun_def)
  show ?thesis
  proof (cases "lr_pc s")
    case Swapping
    then have "begun s' = lr_queued s'"
      using assms(2,3) all by (cases e) (auto simp: begun_def split: if_splits)
    then show ?thesis
      using assms(1) Swapping inv Q assms(2,3) by (cases e) (auto simp: turning_def turned_def split: if_splits)
  next
    case (Running fs)
    then have "lr_pc s' = Testing \<or> (\<exists>gs. lr_pc s' = Running gs)" "begun s' = begun s" "\<not> is_poll e"
      using assms(2,3) by (cases e; cases fs; auto simp: begun_def split: if_splits)+
    then show ?thesis
      using assms(1) Running inv Q by (auto simp: turning_def turned_def)
  next
    case (Handling es)
    then show ?thesis
      using assms inv Q by (cases e; cases es) (auto simp: turning_def turned_def split: if_splits)
  next
    case Outside
    then show ?thesis
      using assms inv Q by (cases e) (auto simp: turning_def turned_def begun_def split: if_splits sum.splits)
  next
    case Testing
    then show ?thesis
      using assms inv Q by (cases e) (auto simp: turning_def turned_def begun_def split: if_splits)
  next
    case Polling
    then show ?thesis
      using assms inv Q by (cases e) (auto simp: turning_def turned_def begun_def split: if_splits)
  qed
qed

lemma not_own_not_poll: "\<not> own_event e \<Longrightarrow> \<not> is_poll e"
  by (cases e) auto

lemma turning_steps:
  "turning Q polled s \<Longrightarrow> loop_steps es s = Some s' \<Longrightarrow> turning Q (polled \<or> list_ex is_poll es) s'"
proof (induction es arbitrary: polled s)
  case (Cons e es)
  then obtain s1 where s1: "loop_next e s = Some s1" "loop_steps es s1 = Some s'"
    by (auto split: option.splits)
  have "turning Q (polled \<or> is_poll e) s1"
    using turning_calls [OF Cons.prems(1) _ s1(1)] turning_own [OF Cons.prems(1) _ s1(1)] not_own_not_poll [of e]
    by (cases "own_event e") auto
  from Cons.IH [OF this s1(2)] show ?case by (simp add: disj_assoc)
qed simp

text \<open>
  One turn of the loop runs everything that was queued before it. Between a moment at which the
  loop's thread waits in poll and the next one (or the return from \<open>loop()\<close>), in every interleaving,
  each functor queued before the first moment was begun.
\<close>

theorem EventLoop_turn_runs_queued:
  assumes "loop_steps es (loop_start tid P) = Some s" and "lr_pc s = Polling"
    and "loop_steps es' s = Some s'" and "list_ex is_poll es'"
    and "lr_pc s' = Polling \<or> lr_pc s' = Outside"
  shows "prefix (lr_queued s) (lr_ran s')"
proof -
  have "turning (lr_queued s) False s"
    using loop_reachable_inv [OF assms(1)] assms(2) by (simp add: turning_def)
  from turning_steps [OF this assms(3)] assms(4) have "turning (lr_queued s) True s'" by simp
  then show ?thesis
    using assms(5) by (auto simp: turning_def turned_def begun_def)
qed

section \<open>Quitting\<close>

text \<open>The moves the loop's thread has left once \<open>quit_\<close> is set.\<close>

definition moves_left :: "('g, 'p) loop_run \<Rightarrow> nat" where
  "moves_left s = (let n = length (el_pendingFunctors (lr_loop s)) in
     case lr_pc s of Outside \<Rightarrow> 0 | Testing \<Rightarrow> 1 | Running fs \<Rightarrow> 2 + length fs | Swapping \<Rightarrow> 3 + n
     | Handling es \<Rightarrow> 4 + length es + n | Polling \<Rightarrow> 5 + n)"

text \<open>What an event adds: a queued functor is one more to run, an active channel one more to handle.\<close>

fun brings :: "'g loop_event \<Rightarrow> nat" where
  "brings (Queue_functor t f) = 1"
| "brings (Poll_returns time es) = length es"
| "brings _ = 0"

lemma quit_step:
  assumes "loop_next e s = Some s'" and "el_quit (lr_loop s)" and "e \<noteq> Enter_loop"
  shows "el_quit (lr_loop s') \<and>
    moves_left s' + (if own_event e then 1 else 0) \<le> moves_left s + brings e"
proof (cases "own_event e")
  case False
  then show ?thesis
    using assms by (cases e; cases "lr_pc s") (auto simp: moves_left_def EventLoop_push_def Let_def split: if_splits)
next
  case True
  show ?thesis
  proof (cases "lr_pc s")
    case (Handling es)
    then show ?thesis
      using assms True by (cases e; cases es) (auto simp: moves_left_def EventLoop_handleRead_def Let_def split: if_splits)
  next
    case (Running fs)
    then show ?thesis
      using assms True by (cases e; cases fs) (auto simp: moves_left_def Let_def split: if_splits)
  qed (use assms True in \<open>cases e; auto simp: moves_left_def EventLoop_leave_def Let_def split: if_splits\<close>)+
qed

lemma loop_can_move:
  assumes "loop_inv s" and "lr_pc s \<noteq> Outside"
  shows "\<exists>e s'. loop_next e s = Some s' \<and> (own_event e \<or> e = Write_wakeup (lr_owner s))"
proof (cases "lr_owner s \<in> lr_waking s")
  case True
  then show ?thesis by (intro exI [of _ "Write_wakeup (lr_owner s)"]) simp
next
  case False
  show ?thesis
  proof (cases "lr_pc s")
    case Outside
    then show ?thesis using assms(2) by simp
  next
    case Testing
    then show ?thesis using False by (intro exI [of _ Test_quit]) simp
  next
    case Polling
    then show ?thesis using False by (intro exI [of _ "Poll_returns 0 []"]) simp
  next
    case (Handling es)
    then show ?thesis using False
      by (cases es) (intro exI [of _ End_handling], simp, intro exI [of _ Handle_event], simp)
  next
    case Swapping
    then show ?thesis using False by (intro exI [of _ Swap_functors]) simp
  next
    case (Running fs)
    then show ?thesis using False
      by (cases fs) (intro exI [of _ End_functors], simp, intro exI [of _ Run_functor], simp)
  qed
qed

text \<open>
  C20: \<open>quit\<close> ends the loop. Once \<open>quit_\<close> is set while the loop runs, it stays set until the next
  \<open>loop()\<close>, the loop's thread makes only as many moves as it has work at hand (the active channels
  of one poll, the functors pending and those still queued), and until it has left \<open>loop()\<close> it
  always has a next move.
\<close>

theorem EventLoop_quit_ends_loop:
  assumes "loop_steps es (loop_start tid P) = Some s" and "el_quit (lr_loop s)"
    and "loop_steps es' s = Some s'" and "Enter_loop \<notin> set es'"
  shows "el_quit (lr_loop s') \<and>
    length (filter own_event es') + moves_left s' \<le> moves_left s + sum_list (map brings es') \<and>
    (lr_pc s' \<noteq> Outside \<longrightarrow> (\<exists>e s''. loop_next e s' = Some s'' \<and> (own_event e \<or> e = Write_wakeup tid)))"
proof -
  have "el_quit (lr_loop s') \<and>
      length (filter own_event es') + moves_left s' \<le> moves_left s + sum_list (map brings es')"
    using assms(2-4)
  proof (induction es' arbitrary: s)
    case (Cons e es')
    then obtain s1 where s1: "loop_next e s = Some s1" "loop_steps es' s1 = Some s'"
      by (auto split: option.splits)
    from quit_step [OF s1(1) Cons.prems(1)] Cons.prems(3) Cons.IH [of s1] s1(2) show ?case
      by (auto split: if_splits)
  qed simp
  moreover have "loop_inv s'" "lr_owner s' = tid"
    using loop_steps_inv [OF assms(3)] loop_reachable_inv [OF assms(1)] by auto
  ultimately show ?thesis using loop_can_move [of s'] by auto
qed

text \<open>
  Calls made before \<open>loop()\<close> do not count. A \<open>quit\<close> from another thread that comes before the
  loop's thread has entered \<open>loop()\<close> is undone by it, and the loop goes on waiting with nothing that
  will wake it; a functor that the loop's own thread queues before \<open>loop()\<close> waits in the same way
  until something else ends the poll.
\<close>

theorem EventLoop_calls_before_loop:
  assumes "t \<noteq> tid"
  shows "(\<exists>s. loop_steps [Request_quit t, Write_wakeup t, Enter_loop, Test_quit, Poll_returns now [True],
        Handle_event, End_handling, Swap_functors, End_functors, Test_quit] (loop_start tid P) = Some s \<and>
      lr_pc s = Polling \<and> \<not> el_quit (lr_loop s) \<and> \<not> wakeup_due s) \<and>
    (\<exists>s. loop_steps [Queue_functor tid f, Enter_loop, Test_quit] (loop_start tid P) = Some s \<and>
      lr_pc s = Polling \<and> el_pendingFunctors (lr_loop s) = [f] \<and> \<not> wakeup_due s)"
  using assms
  by (simp add: loop_start_def EventLoop_new_def loop_defs lr_owner_def EventLoop_wakeup_def Let_def)

section \<open>Functors that queue functors\<close>

lemma queueInLoop_fold:
  assumes "el_callingPendingFunctors L"
  shows "el_callingPendingFunctors (fold (EventLoop_queueInLoop tid) fs L) \<and>
    el_pendingFunctors (fold (EventLoop_queueInLoop tid) fs L) = el_pendingFunctors L @ fs \<and>
    (fs \<noteq> [] \<or> 0 < el_wakeups L \<longrightarrow> 0 < el_wakeups (fold (EventLoop_queueInLoop tid) fs L))"
  using assms
proof (induction fs arbitrary: L)
  case (Cons f fs)
  define L1 where "L1 = EventLoop_queueInLoop tid f L"
  have "el_callingPendingFunctors L1" "el_pendingFunctors L1 = el_pendingFunctors L @ [f]" "0 < el_wakeups L1"
    using Cons.prems by (simp_all add: L1_def EventLoop_queueInLoop_def EventLoop_must_wake_def EventLoop_push_def)
  then show ?case using Cons.IH [of L1] by (simp add: L1_def)
qed simp

text \<open>
  A functor that queues functors does not keep \<open>doPendingFunctors\<close> busy: one call runs exactly
  the functors pending when it began, those they queue (from the loop's thread) are left pending in
  the order they were queued, and the wake-up descriptor is readable then, so the next poll returns
  at once.
\<close>

theorem EventLoop_functors_queue_functors:
  fixes run :: "'g \<Rightarrow> ('f, ('g, 'p, 'm) event_loop_scheme) chan_step"
  assumes "\<And>f s. run f s = Inr (fst s, fold (EventLoop_queueInLoop tid) (spawn f) (snd s))"
  shows "\<exists>L'. EventLoop_doPendingFunctors run (h, L) = Inr (h, L') \<and>
    el_pendingFunctors L' = concat (map spawn (el_pendingFunctors L)) \<and>
    \<not> el_callingPendingFunctors L' \<and>
    (el_pendingFunctors L' \<noteq> [] \<longrightarrow> 0 < el_wakeups L')"
proof -
  have "\<exists>L'. foldR (\<lambda>s f. run f s) (h, L) fs = Inr (h, L') \<and> el_callingPendingFunctors L' \<and>
      el_pendingFunctors L' = el_pendingFunctors L @ concat (map spawn fs) \<and>
      (concat (map spawn fs) \<noteq> [] \<or> 0 < el_wakeups L \<longrightarrow> 0 < el_wakeups L')"
    if "el_callingPendingFunctors L" for fs and L :: "('g, 'p, 'm) event_loop_scheme"
    using that
  proof (induction fs arbitrary: L)
    case (Cons f fs)
    define L1 where "L1 = fold (EventLoop_queueInLoop tid) (spawn f) L"
    have L1: "el_callingPendingFunctors L1" "el_pendingFunctors L1 = el_pendingFunctors L @ spawn f"
      "spawn f \<noteq> [] \<or> 0 < el_wakeups L \<longrightarrow> 0 < el_wakeups L1"
      using queueInLoop_fold [OF Cons.prems, of tid "spawn f"] by (simp_all add: L1_def)
    have run: "run f (h, L) = Inr (h, L1)" by (simp add: assms L1_def)
    from Cons.IH [OF L1(1)] obtain L' where L':
      "foldR (\<lambda>s f. run f s) (h, L1) fs = Inr (h, L')" "el_callingPendingFunctors L'"
      "el_pendingFunctors L' = el_pendingFunctors L1 @ concat (map spawn fs)"
      "concat (map spawn fs) \<noteq> [] \<or> 0 < el_wakeups L1 \<longrightarrow> 0 < el_wakeups L'"
      by (elim exE conjE)
    have "foldR (\<lambda>s f. run f s) (h, L) (f # fs) = Inr (h, L')" by (simp add: run L'(1))
    moreover have "el_pendingFunctors L' = el_pendingFunctors L @ concat (map spawn (f # fs))"
      by (simp add: L'(3) L1(2))
    moreover have "concat (map spawn (f # fs)) \<noteq> [] \<or> 0 < el_wakeups L \<longrightarrow> 0 < el_wakeups L'"
      using L1(3) L'(4) by simp blast
    ultimately show ?case using L'(2) by (intro exI [of _ L'] conjI)
  qed simp
  from this [of "L\<lparr>el_callingPendingFunctors := True, el_pendingFunctors := []\<rparr>" "el_pendingFunctors L"]
  obtain L' where L': "foldR (\<lambda>s f. run f s)
      (h, L\<lparr>el_callingPendingFunctors := True, el_pendingFunctors := []\<rparr>) (el_pendingFunctors L) = Inr (h, L')"
    "el_pendingFunctors L' = concat (map spawn (el_pendingFunctors L))"
    "concat (map spawn (el_pendingFunctors L)) \<noteq> [] \<longrightarrow> 0 < el_wakeups L'"
    by simp (elim exE conjE, simp)
  then have "EventLoop_doPendingFunctors run (h, L) = Inr (h, L'\<lparr>el_callingPendingFunctors := False\<rparr>)"
    by (simp add: EventLoop_doPendingFunctors_def Let_def)
  then show ?thesis
    using L'(2,3) by (intro exI [of _ "L'\<lparr>el_callingPendingFunctors := False\<rparr>"]) simp
qed

section \<open>An example\<close>

text \<open>Thread 2 queues a functor while thread 1 polls.\<close>

definition demo_trace :: "nat loop_event list" where
  "demo_trace = [Enter_loop, Test_quit, Queue_functor 2 7]"

definition demo_turn :: "nat loop_event list" where
  "demo_turn = [Write_wakeup 2, Request_quit 3, Poll_returns 0 [True], Handle_event, End_handling,
     Swap_functors, Run_functor, End_functors, Test_quit]"

definition demo_state :: "(nat, unit) loop_run" where
  "demo_state = \<lparr>lr_loop = (EventLoop_new 1 ())\<lparr>el_looping := True, el_pendingFunctors := [7]\<rparr>,
     lr_pc = Polling, lr_waking = {2}, lr_early = False, lr_queued = [7], lr_ran = []\<rparr>"

lemma demo_reaches: "loop_steps demo_trace (loop_start 1 ()) = Some demo_state"
  by (simp add: demo_trace_def demo_state_def loop_start_def EventLoop_new_def loop_defs lr_owner_def Let_def)

lemma demo_turns:
  "loop_steps demo_turn demo_state = Some (demo_state\<lparr>lr_loop := (EventLoop_new 1 ())\<lparr>el_quit := True,
     el_iteration := 1\<rparr>, lr_pc := Outside, lr_waking := {3}, lr_ran := [7]\<rparr>)"
  by (simp add: demo_turn_def demo_state_def EventLoop_new_def loop_defs lr_owner_def EventLoop_wakeup_def
      eventfd_max_def Let_def)

lemma EventLoop_no_lost_wakeup_witness:
  "lr_pc demo_state = Polling \<and> el_pendingFunctors (lr_loop demo_state) = [7] \<and>
   (0 < el_wakeups (lr_loop demo_state) \<or> (\<exists>t \<in> lr_waking demo_state. t \<noteq> 1))"
  using EventLoop_no_lost_wakeup [OF demo_reaches] by (simp add: demo_state_def EventLoop_new_def)

lemma EventLoop_functors_in_order_witness:
  "lr_ran demo_state @ batch (lr_pc demo_state) @ el_pendingFunctors (lr_loop demo_state) = [7]"
  using EventLoop_functors_in_order [OF demo_reaches] by (simp add: demo_state_def)

lemma EventLoop_turn_runs_queued_witness:
  "\<exists>s'. loop_steps demo_turn demo_state = Some s' \<and> prefix [7] (lr_ran s')"
  using EventLoop_turn_runs_queued [OF demo_reaches _ demo_turns] demo_turns
  by (simp add: demo_state_def demo_turn_def)

lemma EventLoop_quit_ends_loop_witness:
  "\<exists>s s'. loop_steps (demo_trace @ [Request_quit 3]) (loop_start 1 ()) = Some s \<and>
     loop_steps [Write_wakeup 3, Poll_returns 0 [True]] s = Some s' \<and> el_quit (lr_loop s') \<and>
     1 + moves_left s' \<le> moves_left s + 1"
proof -
  define s where "s = demo_state\<lparr>lr_loop := (lr_loop demo_state)\<lparr>el_quit := True\<rparr>, lr_waking := {2, 3}\<rparr>"
  have s: "loop_steps (demo_trace @ [Request_quit 3]) (loop_start 1 ()) = Some s"
    by (simp add: loop_steps_append demo_reaches s_def) (simp add: demo_state_def loop_defs EventLoop_new_def insert_commute)
  obtain s' where s': "loop_steps [Write_wakeup 3, Poll_returns 0 [True]] s = Some s'"
    by (simp add: s_def demo_state_def loop_defs EventLoop_new_def)
  show ?thesis
    using EventLoop_quit_ends_loop [OF s _ s'] s s' by (auto simp: s_def)
qed

lemma EventLoop_calls_before_loop_witness:
  "\<exists>s. loop_steps [Request_quit 2, Write_wakeup 2, Enter_loop, Test_quit, Poll_returns 0 [True],
        Handle_event, End_handling, Swap_functors, End_functors, Test_quit]
      (loop_start 1 () :: (nat, unit) loop_run) = Some s \<and> lr_pc s = Polling \<and> \<not> el_quit (lr_loop s)"
proof -
  have "(2 :: int) \<noteq> 1" by simp
  from EventLoop_calls_before_loop [OF this, of 0 "()" "0 :: nat"] show ?thesis by blast
qed

lemma EventLoop_functors_queue_functors_witness:
  "\<exists>L'. EventLoop_doPendingFunctors (\<lambda>f s. Inr (fst s, fold (EventLoop_queueInLoop 1) [f + 1] (snd s)))
      (Map.empty :: nat channels, (EventLoop_new 1 ())\<lparr>el_pendingFunctors := [3, 4 :: nat]\<rparr>) = Inr (Map.empty, L') \<and>
    el_pendingFunctors L' = [4, 5] \<and> 0 < el_wakeups L'"
proof -
  define run :: "nat \<Rightarrow> (nat, (nat, unit) event_loop) chan_step" where
    "run = (\<lambda>f s. Inr (fst s, fold (EventLoop_queueInLoop 1) [f + 1] (snd s)))"
  have "run f s = Inr (fst s, fold (EventLoop_queueInLoop 1) ((\<lambda>f. [f + 1]) f) (snd s))" for f s
    by (simp add: run_def)
  from EventLoop_functors_queue_functors [where run = run and h = Map.empty and
      L = "(EventLoop_new 1 ())\<lparr>el_pendingFunctors := [3, 4 :: nat]\<rparr>", OF this]
  show ?thesis unfolding run_def by (auto simp: EventLoop_new_def)
qed

end
