(* ===== verification/String_Piece.thy ===== *)
theory String_Piece
  imports Std_Map "HOL-Library.Sublist"
begin

text \<open>
  \<open>src/muduo/base/StringPiece.h\<close>: a pointer and an \<open>int\<close> length into bytes owned by someone else.

  A pointer is an object (its bytes) and an offset into it, which pointer arithmetic may move out of
  the object; reading outside is undefined. \<open>piece_ok\<close> says that a piece lies inside its object.
\<close>

section \<open>The class\<close>

record string_piece =
  sp_object :: "char list"
  sp_offset :: int
  sp_length :: int

text \<open>The \<open>n\<close> bytes at offset \<open>i\<close> of an object.\<close>

definition mem_range :: "char list \<Rightarrow> int \<Rightarrow> nat \<Rightarrow> char list result" where
  "mem_range d i n =
     (if 0 \<le> i \<and> i + int n \<le> int (length d) then Inr (take n (drop (nat i) d))
      else Inl Undefined_behaviour)"

text \<open>\<open>strlen\<close> of the string at the beginning of an object.\<close>

definition c_strlen :: "char list \<Rightarrow> nat result" where
  "c_strlen d = (let n = std_find (CHR 0x00) d
                 in if n < length d then Inr n else Inl Undefined_behaviour)"

definition StringPiece_new :: string_piece where
  "StringPiece_new = \<lparr>sp_object = [], sp_offset = 0, sp_length = 0\<rparr>"

definition StringPiece_of_cstr :: "char list \<Rightarrow> string_piece result" where
  "StringPiece_of_cstr d = andThen (c_strlen d) (\<lambda>n.
     Inr \<lparr>sp_object = d, sp_offset = 0, sp_length = int32_of (int n)\<rparr>)"

text \<open>The bytes of a \<open>std::string\<close> are followed by a NUL.\<close>

definition StringPiece_of_string :: "char list \<Rightarrow> string_piece" where
  "StringPiece_of_string str =
     \<lparr>sp_object = str @ [CHR 0x00], sp_offset = 0, sp_length = int32_of (int (length str))\<rparr>"

definition StringPiece_of_range :: "char list \<Rightarrow> int \<Rightarrow> int \<Rightarrow> string_piece" where
  "StringPiece_of_range d offset len = \<lparr>sp_object = d, sp_offset = offset, sp_length = len\<rparr>"

definition StringPiece_empty :: "string_piece \<Rightarrow> bool" where
  "StringPiece_empty p \<longleftrightarrow> sp_length p = 0"

definition StringPiece_clear :: "string_piece \<Rightarrow> string_piece" where
  "StringPiece_clear p = \<lparr>sp_object = [], sp_offset = 0, sp_length = 0\<rparr>"

definition StringPiece_set :: "char list \<Rightarrow> int \<Rightarrow> int \<Rightarrow> string_piece \<Rightarrow> string_piece" where
  "StringPiece_set d offset len p = p\<lparr>sp_object := d, sp_offset := offset, sp_length := len\<rparr>"

definition StringPiece_at :: "string_piece \<Rightarrow> int \<Rightarrow> char result" where
  "StringPiece_at p i = andThen (mem_range (sp_object p) (sp_offset p + i) 1) (\<lambda>bs. Inr (hd bs))"

definition StringPiece_remove_prefix :: "int \<Rightarrow> string_piece \<Rightarrow> string_piece" where
  "StringPiece_remove_prefix n p = p\<lparr>sp_offset := sp_offset p + n, sp_length := int32_of (sp_length p - n)\<rparr>"

definition StringPiece_remove_suffix :: "int \<Rightarrow> string_piece \<Rightarrow> string_piece" where
  "StringPiece_remove_suffix n p = p\<lparr>sp_length := int32_of (sp_length p - n)\<rparr>"

text \<open>The first \<open>n\<close> bytes of a piece; a negative \<open>int\<close> becomes a huge \<open>size_t\<close>.\<close>

definition piece_bytes :: "string_piece \<Rightarrow> int \<Rightarrow> char list result" where
  "piece_bytes p n = mem_range (sp_object p) (sp_offset p) (size_of_int n)"

text \<open>\<open>string(data(), size())\<close>, and \<open>target->assign(ptr_, length_)\<close>: more than \<open>max_size()\<close> is a
  \<open>std::length_error\<close>.\<close>

definition StringPiece_as_string :: "string_piece \<Rightarrow> char list result" where
  "StringPiece_as_string p =
     (if max_size < size_of_int (sp_length p) then Inl Length_error else piece_bytes p (sp_length p))"

definition StringPiece_CopyToString :: "string_piece \<Rightarrow> char list \<Rightarrow> char list result" where
  "StringPiece_CopyToString p target = StringPiece_as_string p"

section \<open>Comparisons\<close>

text \<open>\<open>memcmp\<close> compares bytes as unsigned values; the standard fixes the sign of its result only, and the
  model takes -1, 0 or 1 (so does \<open>compare\<close>, which returns it).\<close>

fun memcmp_sign :: "char list \<Rightarrow> char list \<Rightarrow> int" where
  "memcmp_sign (x # xs) (y # ys) = (if x < y then -1 else if y < x then 1 else memcmp_sign xs ys)"
| "memcmp_sign _ _ = 0"

definition c_memcmp :: "string_piece \<Rightarrow> string_piece \<Rightarrow> int \<Rightarrow> int result" where
  "c_memcmp p q n = andThen (piece_bytes p n) (\<lambda>xs. andThen (piece_bytes q n) (\<lambda>ys.
     Inr (memcmp_sign xs ys)))"

definition StringPiece_eq :: "string_piece \<Rightarrow> string_piece \<Rightarrow> bool result" where
  "StringPiece_eq p x =
     (if sp_length p = sp_length x then andThen (c_memcmp p x (sp_length p)) (\<lambda>r. Inr (r = 0))
      else Inr False)"

definition StringPiece_neq :: "string_piece \<Rightarrow> string_piece \<Rightarrow> bool result" where
  "StringPiece_neq p x = andThen (StringPiece_eq p x) (\<lambda>b. Inr (\<not> b))"

text \<open>The macro \<open>STRINGPIECE_BINARY_PREDICATE(cmp, auxcmp)\<close>.\<close>

definition StringPiece_binary_predicate ::
  "(int \<Rightarrow> int \<Rightarrow> bool) \<Rightarrow> (int \<Rightarrow> int \<Rightarrow> bool) \<Rightarrow> string_piece \<Rightarrow> string_piece \<Rightarrow> bool result" where
  "StringPiece_binary_predicate cmp auxcmp p x =
     andThen (c_memcmp p x (if sp_length p < sp_length x then sp_length p else sp_length x)) (\<lambda>r.
     Inr (auxcmp r 0 \<or> r = 0 \<and> cmp (sp_length p) (sp_length x)))"

definition StringPiece_lt :: "string_piece \<Rightarrow> string_piece \<Rightarrow> bool result" where
  "StringPiece_lt = StringPiece_binary_predicate (<) (<)"

definition StringPiece_le :: "string_piece \<Rightarrow> string_piece \<Rightarrow> bool result" where
  "StringPiece_le = StringPiece_binary_predicate (\<le>) (<)"

definition StringPiece_gt :: "string_piece \<Rightarrow> string_piece \<Rightarrow> bool result" where
  "StringPiece_gt = StringPiece_binary_predicate (>) (>)"

definition StringPiece_ge :: "string_piece \<Rightarrow> string_piece \<Rightarrow> bool result" where
  "StringPiece_ge = StringPiece_binary_predicate (\<ge>) (>)"

definition StringPiece_compare :: "string_piece \<Rightarrow> string_piece \<Rightarrow> int result" where
  "StringPiece_compare p x =
     andThen (c_memcmp p x (if sp_length p < sp_length x then sp_length p else sp_length x)) (\<lambda>r.
     Inr (if r = 0 then
            (if sp_length p < sp_length x then -1 else if sp_length p > sp_length x then 1 else r)
          else r))"

definition StringPiece_starts_with :: "string_piece \<Rightarrow> string_piece \<Rightarrow> bool result" where
  "StringPiece_starts_with p x =
     (if sp_length x \<le> sp_length p then andThen (c_memcmp p x (sp_length x)) (\<lambda>r. Inr (r = 0))
      else Inr False)"

section \<open>What a piece stands for\<close>

definition piece_ok :: "string_piece \<Rightarrow> bool" where
  "piece_ok p \<longleftrightarrow> 0 \<le> sp_offset p \<and> 0 \<le> sp_length p \<and> sp_length p < 2 ^ 31 \<and>
     sp_offset p + sp_length p \<le> int (length (sp_object p))"

definition piece_string :: "string_piece \<Rightarrow> char list" where
  "piece_string p = take (nat (sp_length p)) (drop (nat (sp_offset p)) (sp_object p))"

lemma piece_ok_length:
  assumes "piece_ok p"
  shows "length (piece_string p) = nat (sp_length p)"
proof -
  have "nat (sp_offset p) + nat (sp_length p) \<le> length (sp_object p)"
    using assms unfolding piece_ok_def by linarith
  then show ?thesis by (simp add: piece_string_def)
qed

lemma piece_bytes_prefix:
  assumes "piece_ok p" and "0 \<le> n" and "n \<le> sp_length p"
  shows "piece_bytes p n = Inr (take (nat n) (piece_string p))"
proof -
  have "size_of_int n = nat n" using assms by (simp add: piece_ok_def)
  moreover have "min (nat n) (nat (sp_length p)) = nat n" using assms by simp
  ultimately show ?thesis
    using assms by (simp add: piece_bytes_def mem_range_def piece_string_def piece_ok_def)
qed

lemma piece_of_string:
  assumes "length str < 2 ^ 31"
  shows "piece_ok (StringPiece_of_string str)" and "piece_string (StringPiece_of_string str) = str"
  using assms by (simp_all add: StringPiece_of_string_def piece_ok_def piece_string_def)

lemma StringPiece_as_string_ok:
  assumes "piece_ok p"
  shows "StringPiece_as_string p = Inr (piece_string p)"
proof -
  have "sp_length p < 2 ^ 31" using assms by (simp add: piece_ok_def)
  then have "nat (sp_length p) < 2 ^ 31" by simp
  then have "size_of_int (sp_length p) \<le> max_size" using assms by (simp add: piece_ok_def max_size_def)
  then show ?thesis
    using piece_bytes_prefix [OF assms, of "sp_length p"] assms piece_ok_length [OF assms]
    by (simp add: StringPiece_as_string_def piece_ok_def)
qed

lemma remove_prefix_ok:
  assumes "piece_ok p" and "0 \<le> n" and "n \<le> sp_length p"
  shows "piece_ok (StringPiece_remove_prefix n p) \<and>
    piece_string (StringPiece_remove_prefix n p) = drop (nat n) (piece_string p)"
  using assms
  by (simp add: piece_ok_def piece_string_def StringPiece_remove_prefix_def drop_take nat_add_distrib
      nat_diff_distrib add.commute)

lemma remove_suffix_ok:
  assumes "piece_ok p" and "0 \<le> n" and "n \<le> sp_length p"
  shows "piece_ok (StringPiece_remove_suffix n p) \<and>
    piece_string (StringPiece_remove_suffix n p) = take (nat (sp_length p - n)) (piece_string p)"
  using assms
  by (simp add: piece_ok_def piece_string_def StringPiece_remove_suffix_def min_def)

lemma memcmp_sign_append:
  "length xs = length ys \<Longrightarrow> memcmp_sign (xs @ us) (ys @ vs) =
     (if memcmp_sign xs ys = 0 then memcmp_sign us vs else memcmp_sign xs ys)"
  by (induction xs ys rule: list_induct2) auto

lemma memcmp_sign_values:
  "memcmp_sign xs ys = -1 \<or> memcmp_sign xs ys = 0 \<or> memcmp_sign xs ys = 1"
  by (induction xs ys rule: memcmp_sign.induct) auto

lemma memcmp_sign_eq: "length xs = length ys \<Longrightarrow> memcmp_sign xs ys = 0 \<longleftrightarrow> xs = ys"
  by (induction xs ys rule: list_induct2) auto

text \<open>Lexicographic order, decided on the common length first.\<close>

lemma lexicographic:
  fixes xs ys :: "char list"
  defines "n \<equiv> min (length xs) (length ys)"
  shows "xs < ys \<longleftrightarrow> memcmp_sign (take n xs) (take n ys) < 0 \<or>
    memcmp_sign (take n xs) (take n ys) = 0 \<and> length xs < length ys"
  unfolding n_def
proof (induction xs arbitrary: ys)
  case Nil
  then show ?case by (cases ys) simp_all
next
  case (Cons x xs)
  then show ?case by (cases ys) (auto simp: not_less_iff_gr_or_eq)
qed

lemma memcmp_swap: "memcmp_sign ys xs = - memcmp_sign xs ys"
  by (induction xs ys rule: memcmp_sign.induct) auto

lemma c_memcmp_ok:
  assumes "piece_ok p" and "piece_ok x" and "0 \<le> n" and "n \<le> sp_length p" and "n \<le> sp_length x"
  shows "c_memcmp p x n =
    Inr (memcmp_sign (take (nat n) (piece_string p)) (take (nat n) (piece_string x)))"
  using piece_bytes_prefix [OF assms(1,3,4)] piece_bytes_prefix [OF assms(2,3,5)]
  by (simp add: c_memcmp_def)

lemma c_memcmp_common:
  assumes "piece_ok p" and "piece_ok x"
  defines "n \<equiv> min (length (piece_string p)) (length (piece_string x))"
  shows "c_memcmp p x (if sp_length p < sp_length x then sp_length p else sp_length x) =
    Inr (memcmp_sign (take n (piece_string p)) (take n (piece_string x)))"
proof -
  have "0 \<le> sp_length p" "0 \<le> sp_length x" using assms(1,2) by (simp_all add: piece_ok_def)
  moreover from this have "nat (if sp_length p < sp_length x then sp_length p else sp_length x) = n"
    unfolding n_def piece_ok_length [OF assms(1)] piece_ok_length [OF assms(2)]
    by (cases "sp_length p < sp_length x") (simp_all add: min_absorb1 min_absorb2 nat_mono)
  ultimately show ?thesis using c_memcmp_ok [OF assms(1,2)] by simp
qed

text \<open>
  C33: on pieces that lie inside their objects the comparison operators are the lexicographic order
  of the byte strings they stand for, \<open>==\<close> is their equality, \<open>compare\<close> has the sign of the order,
  \<open>starts_with\<close> is the prefix relation, and none of them reads outside the objects.
\<close>

theorem StringPiece_order:
  assumes "piece_ok p" and "piece_ok x"
  defines "a \<equiv> piece_string p" and "b \<equiv> piece_string x"
  shows "StringPiece_eq p x = Inr (a = b) \<and> StringPiece_neq p x = Inr (a \<noteq> b) \<and>
    StringPiece_lt p x = Inr (a < b) \<and> StringPiece_le p x = Inr (a \<le> b) \<and>
    StringPiece_gt p x = Inr (a > b) \<and> StringPiece_ge p x = Inr (a \<ge> b) \<and>
    StringPiece_compare p x = Inr (if a < b then -1 else if a = b then 0 else 1) \<and>
    StringPiece_starts_with p x = Inr (prefix b a)"
proof -
  define n where "n = min (length a) (length b)"
  define r where "r = memcmp_sign (take n a) (take n b)"
  have pos: "0 \<le> sp_length p" "0 \<le> sp_length x" using assms(1,2) by (simp_all add: piece_ok_def)
  then have len: "sp_length p = int (length a)" "sp_length x = int (length b)"
    using piece_ok_length [OF assms(1)] piece_ok_length [OF assms(2)] by (simp_all add: a_def b_def)
  have cmp: "c_memcmp p x (if sp_length p < sp_length x then sp_length p else sp_length x) = Inr r"
    using c_memcmp_common [OF assms(1,2)] by (simp add: r_def n_def a_def b_def)
  have eq: "StringPiece_eq p x = Inr (a = b)"
    using c_memcmp_ok [OF assms(1,2) pos(1) order_refl] len memcmp_sign_eq [of a b]
    by (auto simp: StringPiece_eq_def a_def [symmetric] b_def [symmetric])
  have lt: "a < b \<longleftrightarrow> r < 0 \<or> r = 0 \<and> length a < length b"
    using lexicographic [of a b] by (simp add: r_def n_def)
  have gt: "b < a \<longleftrightarrow> r > 0 \<or> r = 0 \<and> length b < length a"
    using lexicographic [of b a] memcmp_swap [of "take n a" "take n b"]
    by (simp add: r_def n_def min.commute)
  have same: "a = b \<longleftrightarrow> r = 0 \<and> length a = length b"
    using lt gt by (metis less_irrefl linorder_less_linear)
  have start: "StringPiece_starts_with p x = Inr (prefix b a)"
  proof (cases "length b \<le> length a")
    case True
    have "c_memcmp p x (sp_length x) = Inr (memcmp_sign (take (length b) a) b)"
      using c_memcmp_ok [OF assms(1,2) pos(2)] True len by (simp add: a_def [symmetric] b_def [symmetric])
    moreover have "memcmp_sign (take (length b) a) b = 0 \<longleftrightarrow> prefix b a"
      using True memcmp_sign_eq [of "take (length b) a" b] append_take_drop_id [of "length b" a]
      by (auto simp: prefix_def simp del: append_take_drop_id) (metis)
    ultimately show ?thesis using True len by (simp add: StringPiece_starts_with_def)
  next
    case False
    then show ?thesis using len by (auto simp: StringPiece_starts_with_def dest: prefix_length_le)
  qed
  have pred: "StringPiece_binary_predicate c aux p x = Inr (aux r 0 \<or> r = 0 \<and> c (int (length a)) (int (length b)))"
    for c aux by (simp add: StringPiece_binary_predicate_def cmp) (simp add: len)
  have r: "r = -1 \<or> r = 0 \<or> r = 1" unfolding r_def by (rule memcmp_sign_values)
  have "StringPiece_compare p x = Inr (if r = 0 then if length a < length b then -1 else
      if length b < length a then 1 else r else r)"
    by (simp add: StringPiece_compare_def cmp) (simp add: len)
  then have "StringPiece_compare p x = Inr (if a < b then -1 else if a = b then 0 else 1)"
    unfolding lt same using r by auto
  moreover have "StringPiece_lt p x = Inr (a < b)" by (simp add: StringPiece_lt_def pred lt)
  moreover have "StringPiece_gt p x = Inr (a > b)" by (simp add: StringPiece_gt_def pred gt)
  moreover have "StringPiece_le p x = Inr (a \<le> b)"
    unfolding le_less lt same StringPiece_le_def pred by auto
  moreover have "StringPiece_ge p x = Inr (a \<ge> b)"
    unfolding le_less gt StringPiece_ge_def pred using same by auto
  ultimately show ?thesis
    using eq start by (simp add: StringPiece_neq_def)
qed

lemma StringPiece_order_witness:
  "StringPiece_lt (StringPiece_of_string ''GET'') (StringPiece_of_string ''GETS'') = Inr True \<and>
   StringPiece_starts_with (StringPiece_of_string ''GETS'') (StringPiece_of_string ''GET'') = Inr True \<and>
   StringPiece_compare (StringPiece_of_string ''b'') (StringPiece_of_string ''abc'') = Inr 1"
  using StringPiece_order [OF piece_of_string(1) piece_of_string(1), of "''GET''" "''GETS''"]
    StringPiece_order [OF piece_of_string(1) piece_of_string(1), of "''GETS''" "''GET''"]
    StringPiece_order [OF piece_of_string(1) piece_of_string(1), of "''b''" "''abc''"]
  by (simp add: piece_of_string less_char_def)

end
