(* ===== verification/Tcp_Connection.thy ===== *)
theory Tcp_Connection
  imports Errno Buffer Poller Timestamp String_Piece
begin

text \<open>
  \<open>src/muduo/net/TcpConnection.h\<close>, \<open>TcpConnection.cpp\<close>: one connection.

  The record holds the members, the functors the connection has queued in its loop
  (\<open>tc_pending\<close>, \<open>tc_delayed\<close>), and what an observer sees: the bytes the kernel took
  (\<open>tc_wire\<close>), the first \<open>shutdown(SHUT_WR)\<close> (\<open>tc_fin\<close>), the calls of the user's callbacks
  (\<open>tc_log\<close>), the operations on the channel (\<open>tc_chan_ops\<close>), the bytes that \<open>sendInLoop\<close> took
  charge of (\<open>tc_accepted\<close>) and the writes that failed (\<open>tc_failures\<close>).

  \<open>kern\<close> answers \<open>write(2)\<close>: \<open>kern direct i len\<close> is the answer to the \<open>i\<close>-th call, with \<open>len\<close>
  bytes offered, from \<open>sendInLoop\<close> (\<open>direct\<close>) or from \<open>handleWrite\<close>. \<open>user\<close> is the code behind the
  callbacks: the calls it makes on the connection, which may depend on the whole state.
\<close>

section \<open>The object\<close>

datatype conn_state = kDisconnected | kConnecting | kConnected | kDisconnecting

datatype conn_handler = HandleRead | HandleWrite | HandleClose | HandleError

datatype conn_task =
    Send_task "char list" | Shutdown_task | Force_close_task | Start_read_task | Stop_read_task
  | Write_complete_task | High_water_task nat

datatype conn_event =
    Connection_event bool    \<comment> \<open>\<open>connectionCallback_\<close>, with what \<open>connected()\<close> says then\<close>
  | Message_event timestamp
  | Write_complete_event
  | High_water_event nat
  | Close_event              \<comment> \<open>\<open>closeCallback_\<close>, of the server or the client\<close>

record tcp_connection =
  tc_owner :: int
  tc_name :: string
  tc_state :: conn_state
  tc_reading :: bool
  tc_channel :: "conn_handler channel"
  tc_writeCompleteCallback :: bool
  tc_highWaterMarkCallback :: bool
  tc_highWaterMark :: nat
  tc_input :: buffer
  tc_output :: buffer
  tc_pending :: "conn_task list"
  tc_delayed :: nat                       \<comment> \<open>timers of \<open>forceCloseWithDelay\<close>\<close>
  tc_writes :: nat
  tc_wire :: "char list"
  tc_fin :: "(conn_state \<times> char list \<times> char list) option"
    \<comment> \<open>state, \<open>tc_wire\<close> and \<open>tc_accepted\<close> at the first \<open>shutdown(SHUT_WR)\<close>\<close>
  tc_chan_ops :: "chan_op list"
  tc_log :: "conn_event list"
  tc_accepted :: "char list"
  tc_failures :: "(bool \<times> int) list"       \<comment> \<open>the writes that failed: whether from \<open>sendInLoop\<close>, \<open>errno\<close>\<close>

datatype write_result = Wrote nat | Write_failed int

type_synonym kernel_write = "bool \<Rightarrow> nat \<Rightarrow> nat \<Rightarrow> write_result"

definition TcpConnection_new :: "int \<Rightarrow> nat \<Rightarrow> string \<Rightarrow> int \<Rightarrow> bool \<Rightarrow> bool \<Rightarrow> tcp_connection" where
  "TcpConnection_new tid loop name sockfd wcb hcb =
     \<lparr>tc_owner = tid, tc_name = name, tc_state = kConnecting, tc_reading = True,
      tc_channel = Channel_setErrorCallback HandleError (Channel_setCloseCallback HandleClose
        (Channel_setWriteCallback HandleWrite (Channel_setReadCallback HandleRead
          (Channel_new loop sockfd)))),
      tc_writeCompleteCallback = wcb, tc_highWaterMarkCallback = hcb,
      tc_highWaterMark = 64 * 1024 * 1024, tc_input = Buffer_new kInitialSize,
      tc_output = Buffer_new kInitialSize, tc_pending = [], tc_delayed = 0, tc_writes = 0,
      tc_wire = [], tc_fin = None, tc_chan_ops = [], tc_log = [], tc_accepted = [], tc_failures = []\<rparr>"

text \<open>The destructor.\<close>

definition TcpConnection_delete :: "tcp_connection \<Rightarrow> unit result" where
  "TcpConnection_delete c = cassert (tc_state c = kDisconnected) (Inr ())"

definition TcpConnection_connected :: "tcp_connection \<Rightarrow> bool" where
  "TcpConnection_connected c \<longleftrightarrow> tc_state c = kConnected"

definition TcpConnection_disconnected :: "tcp_connection \<Rightarrow> bool" where
  "TcpConnection_disconnected c \<longleftrightarrow> tc_state c = kDisconnected"

definition TcpConnection_stateToString :: "tcp_connection \<Rightarrow> string" where
  "TcpConnection_stateToString c =
     (case tc_state c of kDisconnected \<Rightarrow> ''kDisconnected'' | kConnecting \<Rightarrow> ''kConnecting''
      | kConnected \<Rightarrow> ''kConnected'' | kDisconnecting \<Rightarrow> ''kDisconnecting'')"

definition TcpConnection_setHighWaterMarkCallback :: "nat \<Rightarrow> tcp_connection \<Rightarrow> tcp_connection" where
  "TcpConnection_setHighWaterMarkCallback mark c =
     c\<lparr>tc_highWaterMarkCallback := True, tc_highWaterMark := mark\<rparr>"

definition defaultMessageCallback :: "buffer \<Rightarrow> buffer" where
  "defaultMessageCallback buf = Buffer_retrieveAll buf"

section \<open>The channel and the loop\<close>

definition conn_in_thread :: "int \<Rightarrow> tcp_connection \<Rightarrow> 'a result \<Rightarrow> 'a result" where
  "conn_in_thread tid c m = (if tid = tc_owner c then m else Inl Log_fatal)"

text \<open>An operation on the channel of the connection, as in \<open>Channel\<close>: it changes the events and goes
  to the loop. Here it is recorded; \<open>chan_op 0\<close> is the connection's own channel.\<close>

definition conn_channel :: "chan_op \<Rightarrow> tcp_connection \<Rightarrow> tcp_connection result" where
  "conn_channel op c =
     cassert (is_Remove op \<longrightarrow> Channel_isNoneEvent (tc_channel c)) (
     Inr (c\<lparr>tc_channel := (tc_channel c)\<lparr>ch_events := op_events op (ch_events (tc_channel c)),
                                        ch_addedToLoop := \<not> is_Remove op\<rparr>,
            tc_chan_ops := tc_chan_ops c @ [op]\<rparr>))"

definition conn_isWriting :: "tcp_connection \<Rightarrow> bool" where
  "conn_isWriting c \<longleftrightarrow> Channel_isWriting (tc_channel c)"

definition conn_isReading :: "tcp_connection \<Rightarrow> bool" where
  "conn_isReading c \<longleftrightarrow> Channel_isReading (tc_channel c)"

definition conn_queue :: "conn_task \<Rightarrow> tcp_connection \<Rightarrow> tcp_connection" where
  "conn_queue task c = c\<lparr>tc_pending := tc_pending c @ [task]\<rparr>"

section \<open>Sending\<close>

text \<open>\<open>sockets::write\<close>: what the kernel took goes on the wire.\<close>

definition conn_write ::
  "kernel_write \<Rightarrow> bool \<Rightarrow> char list \<Rightarrow> tcp_connection \<Rightarrow> write_result \<times> tcp_connection" where
  "conn_write kern direct bytes c =
     (let r = kern direct (tc_writes c) (length bytes);
          c' = c\<lparr>tc_writes := Suc (tc_writes c)\<rparr>
      in (r, case r of Wrote n \<Rightarrow> c'\<lparr>tc_wire := tc_wire c' @ take n bytes\<rparr>
             | Write_failed e \<Rightarrow> c'\<lparr>tc_failures := tc_failures c' @ [(direct, e)]\<rparr>))"

text \<open>The first half of \<open>sendInLoop(const void* data, size_t len)\<close>: \<open>nwrote\<close>, \<open>remaining\<close>,
  \<open>faultError\<close>. The data are the \<open>len\<close> bytes at offset \<open>off\<close> of the object \<open>mem\<close>.\<close>

definition sendInLoop_direct ::
  "kernel_write \<Rightarrow> char list \<Rightarrow> int \<Rightarrow> nat \<Rightarrow> tcp_connection \<Rightarrow>
   (int \<times> int \<times> bool \<times> tcp_connection) result" where
  "sendInLoop_direct kern mem off len c =
     (if \<not> conn_isWriting c \<and> Buffer_readableBytes (tc_output c) = 0 then
        andThen (mem_range mem off len) (\<lambda>bytes.
        case conn_write kern True bytes c of
          (Wrote n, c1) \<Rightarrow>
            let remaining = int len - int n
            in Inr (int n, remaining, False,
                    if remaining = 0 \<and> tc_writeCompleteCallback c1 then conn_queue Write_complete_task c1 else c1)
        | (Write_failed e, c1) \<Rightarrow>
            Inr (-1, int len, e \<noteq> EWOULDBLOCK \<and> (e = EPIPE \<or> e = ECONNRESET), c1))
      else Inr (0, int len, False, c))"

text \<open>The second half appends what is left, from \<open>data + nwrote\<close>.\<close>

definition sendInLoop_highWater :: "nat \<Rightarrow> nat \<Rightarrow> tcp_connection \<Rightarrow> tcp_connection" where
  "sendInLoop_highWater oldLen newLen c =
     (if tc_highWaterMark c \<le> newLen \<and> oldLen < tc_highWaterMark c \<and> tc_highWaterMarkCallback c
      then conn_queue (High_water_task newLen) c else c)"

definition sendInLoop_append :: "char list \<Rightarrow> tcp_connection \<Rightarrow> tcp_connection result" where
  "sendInLoop_append bytes c =
     andThen (Buffer_append (tc_output c) bytes (length bytes)) (\<lambda>buf.
     let c' = c\<lparr>tc_output := buf\<rparr>
     in if conn_isWriting c' then Inr c' else conn_channel (Enable_writing 0) c')"

definition sendInLoop_queue ::
  "char list \<Rightarrow> int \<Rightarrow> int \<Rightarrow> int \<Rightarrow> tcp_connection \<Rightarrow> tcp_connection result" where
  "sendInLoop_queue mem off nwrote remaining c =
     (let oldLen = Buffer_readableBytes (tc_output c);
          c' = sendInLoop_highWater oldLen (size64 (oldLen + size_of_int remaining)) c
      in andThen (mem_range mem (off + nwrote) (size_of_int remaining)) (\<lambda>bytes.
         sendInLoop_append bytes c'))"

definition TcpConnection_sendInLoop ::
  "kernel_write \<Rightarrow> int \<Rightarrow> char list \<Rightarrow> int \<Rightarrow> nat \<Rightarrow> tcp_connection \<Rightarrow> tcp_connection result" where
  "TcpConnection_sendInLoop kern tid mem off len c = conn_in_thread tid c (
     if tc_state c = kDisconnected then Inr c
     else andThen (sendInLoop_direct kern mem off len c) (\<lambda>(nwrote, remaining, faultError, c1).
       cassert (size_of_int remaining \<le> len) (
       if faultError then Inr c1
       else
         let c2 = c1\<lparr>tc_accepted := tc_accepted c1 @ take len (drop (nat off) mem)\<rparr>
         in if 0 < remaining then sendInLoop_queue mem off nwrote remaining c2 else Inr c2)))"

definition TcpConnection_sendInLoop_piece ::
  "kernel_write \<Rightarrow> int \<Rightarrow> string_piece \<Rightarrow> tcp_connection \<Rightarrow> tcp_connection result" where
  "TcpConnection_sendInLoop_piece kern tid message c =
     TcpConnection_sendInLoop kern tid (sp_object message) (sp_offset message)
       (size_of_int (sp_length message)) c"

definition TcpConnection_send_piece ::
  "kernel_write \<Rightarrow> int \<Rightarrow> string_piece \<Rightarrow> tcp_connection \<Rightarrow> tcp_connection result" where
  "TcpConnection_send_piece kern tid message c =
     (if tc_state c = kConnected then
        if tid = tc_owner c then TcpConnection_sendInLoop_piece kern tid message c
        else andThen (StringPiece_as_string message) (\<lambda>str. Inr (conn_queue (Send_task str) c))
      else Inr c)"

definition TcpConnection_send_raw ::
  "kernel_write \<Rightarrow> int \<Rightarrow> char list \<Rightarrow> int \<Rightarrow> tcp_connection \<Rightarrow> tcp_connection result" where
  "TcpConnection_send_raw kern tid data len c =
     TcpConnection_send_piece kern tid (StringPiece_of_range data 0 len) c"

definition TcpConnection_send_buffer ::
  "kernel_write \<Rightarrow> int \<Rightarrow> buffer \<Rightarrow> tcp_connection \<Rightarrow> (buffer \<times> tcp_connection) result" where
  "TcpConnection_send_buffer kern tid buf c =
     (if tc_state c = kConnected then
        if tid = tc_owner c then
          andThen (TcpConnection_sendInLoop kern tid (bufdata buf) (int (Buffer_peek buf))
                     (Buffer_readableBytes buf) c) (\<lambda>c'.
          Inr (Buffer_retrieveAll buf, c'))
        else andThen (Buffer_retrieveAllAsString buf) (\<lambda>(str, buf').
          Inr (buf', conn_queue (Send_task str) c))
      else Inr (buf, c))"

section \<open>Closing and pausing\<close>

definition conn_shutdownWrite :: "tcp_connection \<Rightarrow> tcp_connection" where
  "conn_shutdownWrite c =
     (case tc_fin c of None \<Rightarrow> c\<lparr>tc_fin := Some (tc_state c, tc_wire c, tc_accepted c)\<rparr> | Some f \<Rightarrow> c)"

definition TcpConnection_shutdownInLoop :: "int \<Rightarrow> tcp_connection \<Rightarrow> tcp_connection result" where
  "TcpConnection_shutdownInLoop tid c = conn_in_thread tid c (
     if \<not> conn_isWriting c then Inr (conn_shutdownWrite c) else Inr c)"

definition TcpConnection_shutdown :: "int \<Rightarrow> tcp_connection \<Rightarrow> tcp_connection result" where
  "TcpConnection_shutdown tid c =
     (if tc_state c = kConnected then
        let c1 = c\<lparr>tc_state := kDisconnecting\<rparr>
        in if tid = tc_owner c1 then TcpConnection_shutdownInLoop tid c1
           else Inr (conn_queue Shutdown_task c1)
      else Inr c)"

definition TcpConnection_forceClose :: "tcp_connection \<Rightarrow> tcp_connection" where
  "TcpConnection_forceClose c =
     (if tc_state c = kConnected \<or> tc_state c = kDisconnecting
      then conn_queue Force_close_task (c\<lparr>tc_state := kDisconnecting\<rparr>) else c)"

definition TcpConnection_forceCloseWithDelay :: "tcp_connection \<Rightarrow> tcp_connection" where
  "TcpConnection_forceCloseWithDelay c =
     (if tc_state c = kConnected \<or> tc_state c = kDisconnecting
      then c\<lparr>tc_state := kDisconnecting, tc_delayed := Suc (tc_delayed c)\<rparr> else c)"

definition TcpConnection_startReadInLoop :: "int \<Rightarrow> tcp_connection \<Rightarrow> tcp_connection result" where
  "TcpConnection_startReadInLoop tid c = conn_in_thread tid c (
     if \<not> tc_reading c \<or> \<not> conn_isReading c then
       andThen (conn_channel (Enable_reading 0) c) (\<lambda>c'. Inr (c'\<lparr>tc_reading := True\<rparr>))
     else Inr c)"

definition TcpConnection_stopReadInLoop :: "int \<Rightarrow> tcp_connection \<Rightarrow> tcp_connection result" where
  "TcpConnection_stopReadInLoop tid c = conn_in_thread tid c (
     if tc_reading c \<or> conn_isReading c then
       andThen (conn_channel (Disable_reading 0) c) (\<lambda>c'. Inr (c'\<lparr>tc_reading := False\<rparr>))
     else Inr c)"

definition TcpConnection_startRead :: "int \<Rightarrow> tcp_connection \<Rightarrow> tcp_connection result" where
  "TcpConnection_startRead tid c =
     (if tid = tc_owner c then TcpConnection_startReadInLoop tid c
      else Inr (conn_queue Start_read_task c))"

definition TcpConnection_stopRead :: "int \<Rightarrow> tcp_connection \<Rightarrow> tcp_connection result" where
  "TcpConnection_stopRead tid c =
     (if tid = tc_owner c then TcpConnection_stopReadInLoop tid c
      else Inr (conn_queue Stop_read_task c))"

section \<open>Calls of the user\<close>

datatype conn_command =
    Do_send string_piece
  | Do_send_buffer buffer
  | Do_echo                       \<comment> \<open>\<open>conn->send(conn->inputBuffer())\<close>\<close>
  | Do_retrieve nat               \<comment> \<open>the message callback consumes input, at most so much\<close>
  | Do_shutdown | Do_force_close | Do_force_close_later
  | Do_start_read | Do_stop_read
  | Do_set_high_water nat

fun conn_exec :: "kernel_write \<Rightarrow> int \<Rightarrow> tcp_connection \<Rightarrow> conn_command \<Rightarrow> tcp_connection result" where
  "conn_exec kern tid c (Do_send message) = TcpConnection_send_piece kern tid message c"
| "conn_exec kern tid c (Do_send_buffer buf) =
     andThen (TcpConnection_send_buffer kern tid buf c) (\<lambda>(buf', c'). Inr c')"
| "conn_exec kern tid c Do_echo =
     andThen (TcpConnection_send_buffer kern tid (tc_input c) c) (\<lambda>(buf', c'). Inr (c'\<lparr>tc_input := buf'\<rparr>))"
| "conn_exec kern tid c (Do_retrieve n) =
     andThen (Buffer_retrieve (tc_input c) (min n (Buffer_readableBytes (tc_input c)))) (\<lambda>buf. Inr (c\<lparr>tc_input := buf\<rparr>))"
| "conn_exec kern tid c Do_shutdown = TcpConnection_shutdown tid c"
| "conn_exec kern tid c Do_force_close = Inr (TcpConnection_forceClose c)"
| "conn_exec kern tid c Do_force_close_later = Inr (TcpConnection_forceCloseWithDelay c)"
| "conn_exec kern tid c Do_start_read = TcpConnection_startRead tid c"
| "conn_exec kern tid c Do_stop_read = TcpConnection_stopRead tid c"
| "conn_exec kern tid c (Do_set_high_water n) = Inr (TcpConnection_setHighWaterMarkCallback n c)"

type_synonym conn_user = "conn_event \<Rightarrow> tcp_connection \<Rightarrow> conn_command list"

text \<open>A callback of the user: it is logged, and its calls are made in the loop's thread.\<close>

definition conn_callback ::
  "kernel_write \<Rightarrow> conn_user \<Rightarrow> conn_event \<Rightarrow> tcp_connection \<Rightarrow> tcp_connection result" where
  "conn_callback kern user ev c =
     (let c1 = c\<lparr>tc_log := tc_log c @ [ev]\<rparr>
      in foldR (conn_exec kern (tc_owner c1)) c1 (user ev c1))"

section \<open>Life and events\<close>

definition TcpConnection_connectEstablished ::
  "kernel_write \<Rightarrow> conn_user \<Rightarrow> int \<Rightarrow> tcp_connection \<Rightarrow> tcp_connection result" where
  "TcpConnection_connectEstablished kern user tid c = conn_in_thread tid c (
     cassert (tc_state c = kConnecting) (
     andThen (conn_channel (Enable_reading 0)
                (c\<lparr>tc_state := kConnected, tc_channel := Channel_tie 0 (tc_channel c)\<rparr>))
       (conn_callback kern user (Connection_event True))))"

definition TcpConnection_connectDestroyed ::
  "kernel_write \<Rightarrow> conn_user \<Rightarrow> int \<Rightarrow> tcp_connection \<Rightarrow> tcp_connection result" where
  "TcpConnection_connectDestroyed kern user tid c = conn_in_thread tid c (
     andThen
       (if tc_state c = kConnected then
          andThen (conn_channel (Disable_all 0) (c\<lparr>tc_state := kDisconnected\<rparr>))
            (conn_callback kern user (Connection_event False))
        else Inr c)
       (conn_channel (Remove 0)))"

definition TcpConnection_handleClose ::
  "kernel_write \<Rightarrow> conn_user \<Rightarrow> int \<Rightarrow> tcp_connection \<Rightarrow> tcp_connection result" where
  "TcpConnection_handleClose kern user tid c = conn_in_thread tid c (
     cassert (tc_state c = kConnected \<or> tc_state c = kDisconnecting) (
     andThen (conn_channel (Disable_all 0) (c\<lparr>tc_state := kDisconnected\<rparr>)) (\<lambda>c1.
     andThen (conn_callback kern user (Connection_event False) c1)
       (conn_callback kern user Close_event))))"

text \<open>\<open>handleError\<close> only logs.\<close>

definition TcpConnection_handleError :: "tcp_connection \<Rightarrow> tcp_connection result" where
  "TcpConnection_handleError c = Inr c"

definition TcpConnection_handleRead ::
  "kernel_write \<Rightarrow> conn_user \<Rightarrow> int \<Rightarrow> read_result \<Rightarrow> timestamp \<Rightarrow> tcp_connection \<Rightarrow> tcp_connection result" where
  "TcpConnection_handleRead kern user tid rd receiveTime c = conn_in_thread tid c (
     andThen (Buffer_readFd (tc_input c) rd) (\<lambda>(n, savedErrno, input).
     let c1 = c\<lparr>tc_input := input\<rparr>
     in if 0 < n then conn_callback kern user (Message_event receiveTime) c1
        else if n = 0 then TcpConnection_handleClose kern user tid c1
        else TcpConnection_handleError c1))"

text \<open>\<open>size_t n\<close> holds the result of \<open>write\<close>, which is an \<open>ssize_t\<close>.\<close>

definition TcpConnection_handleWrite ::
  "kernel_write \<Rightarrow> int \<Rightarrow> tcp_connection \<Rightarrow> tcp_connection result" where
  "TcpConnection_handleWrite kern tid c = conn_in_thread tid c (
     if conn_isWriting c then
       case conn_write kern False (Buffer_content (tc_output c)) c of (r, c1) \<Rightarrow>
         let n = size_of_int (case r of Wrote n \<Rightarrow> int n | Write_failed e \<Rightarrow> -1)
         in if 0 < n then
              andThen (Buffer_retrieve (tc_output c1) n) (\<lambda>output.
              let c2 = c1\<lparr>tc_output := output\<rparr>
              in if Buffer_readableBytes output = 0 then
                   andThen (conn_channel (Disable_writing 0) c2) (\<lambda>c3.
                   let c4 = (if tc_writeCompleteCallback c3 then conn_queue Write_complete_task c3 else c3)
                   in if tc_state c4 = kDisconnecting then TcpConnection_shutdownInLoop tid c4 else Inr c4)
                 else Inr c2)
            else Inr c1
     else Inr c)"

definition TcpConnection_forceCloseInLoop ::
  "kernel_write \<Rightarrow> conn_user \<Rightarrow> int \<Rightarrow> tcp_connection \<Rightarrow> tcp_connection result" where
  "TcpConnection_forceCloseInLoop kern user tid c = conn_in_thread tid c (
     if tc_state c = kConnected \<or> tc_state c = kDisconnecting
     then TcpConnection_handleClose kern user tid c else Inr c)"

section \<open>Running a connection\<close>

text \<open>The loop runs a functor of the connection.\<close>

fun conn_run_task :: "kernel_write \<Rightarrow> conn_user \<Rightarrow> tcp_connection \<Rightarrow> conn_task \<Rightarrow> tcp_connection result" where
  "conn_run_task kern user c (Send_task str) =
     TcpConnection_sendInLoop_piece kern (tc_owner c) (StringPiece_of_string str) c"
| "conn_run_task kern user c Shutdown_task = TcpConnection_shutdownInLoop (tc_owner c) c"
| "conn_run_task kern user c Force_close_task = TcpConnection_forceCloseInLoop kern user (tc_owner c) c"
| "conn_run_task kern user c Start_read_task = TcpConnection_startReadInLoop (tc_owner c) c"
| "conn_run_task kern user c Stop_read_task = TcpConnection_stopReadInLoop (tc_owner c) c"
| "conn_run_task kern user c Write_complete_task = conn_callback kern user Write_complete_event c"
| "conn_run_task kern user c (High_water_task n) = conn_callback kern user (High_water_event n) c"

text \<open>The handlers of the channel, by the calls that \<open>Channel_handleEvent_dispatch\<close> proves.\<close>

fun conn_invoke ::
  "kernel_write \<Rightarrow> conn_user \<Rightarrow> read_result \<Rightarrow> tcp_connection \<Rightarrow> conn_handler call \<Rightarrow> tcp_connection result" where
  "conn_invoke kern user rd c (Read_call f t) = TcpConnection_handleRead kern user (tc_owner c) rd t c"
| "conn_invoke kern user rd c (Event_call HandleClose) = TcpConnection_handleClose kern user (tc_owner c) c"
| "conn_invoke kern user rd c (Event_call HandleWrite) = TcpConnection_handleWrite kern (tc_owner c) c"
| "conn_invoke kern user rd c (Event_call _) = TcpConnection_handleError c"

datatype conn_op =
    Establish
  | Occurs "32 word" read_result timestamp   \<comment> \<open>an event on the channel, with what a read would return\<close>
  | Run_task                                 \<comment> \<open>the loop runs the next functor of the connection\<close>
  | Delay_over                               \<comment> \<open>a timer of \<open>forceCloseWithDelay\<close>\<close>
  | Call int conn_command                    \<comment> \<open>a call from any thread\<close>
  | Destroy

fun conn_step :: "kernel_write \<Rightarrow> conn_user \<Rightarrow> tcp_connection \<Rightarrow> conn_op \<Rightarrow> tcp_connection result" where
  "conn_step kern user c Establish = TcpConnection_connectEstablished kern user (tc_owner c) c"
| "conn_step kern user c (Occurs revents rd t) =
     (let ch = Channel_set_revents revents (tc_channel c)
      in foldR (conn_invoke kern user rd) (c\<lparr>tc_channel := ch\<rparr>) (Channel_dispatch ch t))"
| "conn_step kern user c Run_task =
     (case tc_pending c of [] \<Rightarrow> Inr c
      | task # tasks \<Rightarrow> conn_run_task kern user (c\<lparr>tc_pending := tasks\<rparr>) task)"
| "conn_step kern user c Delay_over =
     (if tc_delayed c = 0 then Inr c
      else Inr (TcpConnection_forceClose (c\<lparr>tc_delayed := tc_delayed c - 1\<rparr>)))"
| "conn_step kern user c (Call tid cmd) = conn_exec kern tid c cmd"
| "conn_step kern user c Destroy = TcpConnection_connectDestroyed kern user (tc_owner c) c"

end
