(* ===== verification/Conn_Invariant.thy ===== *)
theory Conn_Invariant
  imports Tcp_Connection
begin

text \<open>
  The invariant of a connection (\<open>Tcp_Connection\<close>), and that every operation within the contract
  keeps it: no assertion fails, and a call can only run out of the size a vector can have.
\<close>

section \<open>Buffers\<close>

lemma Buffer_append_done:
  assumes "Buffer_inv b" and "len \<le> length mem" and "len \<le> max_size"
  shows "done_unless R (\<lambda>b'. Buffer_inv b' \<and> Buffer_content b' = Buffer_content b @ take len mem)
    (Buffer_append b mem len)"
  using Buffer_append_total [OF assms] by auto

lemma Buffer_content_le_max: "Buffer_inv b \<Longrightarrow> length (Buffer_content b) \<le> max_size"
  by (auto simp: Buffer_content_length Buffer_inv_wf dest!: Buffer_inv_wf simp: Buffer_wf_def)

section \<open>The invariant\<close>

text \<open>The operations on the channel so far are a script within the contract of the pollers.\<close>

definition conn_table :: "int \<Rightarrow> chan_table" where
  "conn_table fd = [0 \<mapsto> (fd, 0, Fresh)]"

definition conn_life :: "bool \<Rightarrow> tcp_connection \<Rightarrow> chan_life" where
  "conn_life reuse c =
     (if tc_chan_ops c = [] then Fresh else if ch_addedToLoop (tc_channel c) then Registered
      else if reuse then Fresh else Removed)"

definition chan_script :: "tcp_connection \<Rightarrow> bool" where
  "chan_script c \<longleftrightarrow> 0 \<le> ch_fd (tc_channel c) \<and> interest_word (ch_events (tc_channel c)) \<and>
     (ch_addedToLoop (tc_channel c) \<longrightarrow> tc_chan_ops c \<noteq> []) \<and>
     (\<forall>reuse. script_allowed reuse (tc_chan_ops c) (conn_table (ch_fd (tc_channel c))) \<and>
        script_result reuse (tc_chan_ops c) (conn_table (ch_fd (tc_channel c))) =
          [0 \<mapsto> (ch_fd (tc_channel c), ch_events (tc_channel c), conn_life reuse c)])"

definition handlers_set :: "conn_handler channel \<Rightarrow> bool" where
  "handlers_set ch \<longleftrightarrow> ch_readCallback ch = Some HandleRead \<and> ch_writeCallback ch = Some HandleWrite \<and>
     ch_closeCallback ch = Some HandleClose \<and> ch_errorCallback ch = Some HandleError"

definition task_ok :: "conn_task \<Rightarrow> bool" where
  "task_ok task \<longleftrightarrow> (case task of Send_task str \<Rightarrow> length str < 2 ^ 31
     | Start_read_task \<Rightarrow> False | Stop_read_task \<Rightarrow> False | _ \<Rightarrow> True)"

definition conn_live :: "tcp_connection \<Rightarrow> bool" where
  "conn_live c \<longleftrightarrow> tc_state c = kConnected \<or> tc_state c = kDisconnecting"

lemma conn_live_up: "conn_live c \<Longrightarrow> tc_state c \<noteq> kDisconnected" "conn_live c \<Longrightarrow> tc_state c \<noteq> kConnecting"
  by (auto simp: conn_live_def)

text \<open>At the end of the stream everything the connection took charge of was on the wire.\<close>

definition fin_ok :: "(conn_state \<times> char list \<times> char list) option \<Rightarrow> bool" where
  "fin_ok fin \<longleftrightarrow> (case fin of None \<Rightarrow> True | Some (st, w, a) \<Rightarrow> st = kDisconnected \<or> w = a)"

text \<open>A failed write that the code handles as the end of the peer; it takes any other failure wrongly
  (\<open>Conn_Errors\<close>), and from then on the bytes are not in order.\<close>

definition mishandled :: "bool \<times> int \<Rightarrow> bool" where
  "mishandled f \<longleftrightarrow> \<not> (fst f \<and> (snd f = EPIPE \<or> snd f = ECONNRESET))"

abbreviation conn_refused :: "tcp_connection \<Rightarrow> bool" where
  "conn_refused c \<equiv> list_ex mishandled (tc_failures c)"

lemma conn_refused_iff:
  "conn_refused c \<longleftrightarrow> \<not> (\<forall>direct e. (direct, e) \<in> set (tc_failures c) \<longrightarrow> direct \<and> (e = EPIPE \<or> e = ECONNRESET))"
  by (fastforce simp: list_ex_iff mishandled_def)

definition conn_sound :: "tcp_connection \<Rightarrow> bool" where
  "conn_sound c \<longleftrightarrow>
     Buffer_inv (tc_input c) \<and> Buffer_inv (tc_output c) \<and>
     handlers_set (tc_channel c) \<and> chan_script c \<and>
     (tc_state c = kConnecting \<longrightarrow> tc_chan_ops c = [] \<and> ch_events (tc_channel c) = 0 \<and> tc_pending c = [] \<and>
        tc_delayed c = 0 \<and> tc_fin c = None \<and> tc_accepted c = [] \<and> Buffer_content (tc_output c) = []) \<and>
     (conn_live c \<longrightarrow> ch_addedToLoop (tc_channel c) \<and>
        (conn_isWriting c \<longleftrightarrow> Buffer_content (tc_output c) \<noteq> [])) \<and>
     (tc_state c = kDisconnected \<longrightarrow> ch_events (tc_channel c) = 0) \<and>
     (\<not> conn_refused c \<longrightarrow> tc_wire c @ Buffer_content (tc_output c) = tc_accepted c \<and> fin_ok (tc_fin c)) \<and>
     list_all task_ok (tc_pending c)"

text \<open>The same with the bytes in order, whatever failed before.\<close>

definition conn_inv :: "tcp_connection \<Rightarrow> bool" where
  "conn_inv c \<longleftrightarrow> conn_sound c \<and>
     tc_wire c @ Buffer_content (tc_output c) = tc_accepted c \<and> fin_ok (tc_fin c)"

lemma conn_sound_inv: "conn_sound c \<Longrightarrow> \<not> conn_refused c \<Longrightarrow> conn_inv c"
  by (simp add: conn_inv_def conn_sound_def)

text \<open>What an operation that is no event leaves alone, and how the state may move.\<close>

definition conn_frame :: "tcp_connection \<Rightarrow> tcp_connection \<Rightarrow> bool" where
  "conn_frame c c' \<longleftrightarrow> tc_owner c' = tc_owner c \<and> ch_fd (tc_channel c') = ch_fd (tc_channel c) \<and>
     tc_name c' = tc_name c \<and> tc_log c' = tc_log c \<and>
     (ch_addedToLoop (tc_channel c) \<longrightarrow> ch_addedToLoop (tc_channel c')) \<and>
     (tc_state c = kDisconnected \<longrightarrow> ch_addedToLoop (tc_channel c') = ch_addedToLoop (tc_channel c)) \<and>
     (tc_state c' = tc_state c \<or> tc_state c = kConnected \<and> tc_state c' = kDisconnecting)"

lemma conn_frame_refl: "conn_frame c c"
  by (simp add: conn_frame_def)

lemma conn_frame_trans: "conn_frame c c1 \<Longrightarrow> conn_frame c1 c2 \<Longrightarrow> conn_frame c c2"
  by (auto simp: conn_frame_def)

definition keeps_conn :: "bool \<Rightarrow> tcp_connection \<Rightarrow> tcp_connection result \<Rightarrow> bool" where
  "keeps_conn R c r \<longleftrightarrow> done_unless R (\<lambda>c'. conn_sound c' \<and> conn_frame c c') r"

text \<open>\<open>write(2)\<close> never takes more than it was offered; it refuses when it fails in a way that the code
  mishandles. With \<open>kernel_ok\<close> it never refuses.\<close>

definition kernel_lawful :: "kernel_write \<Rightarrow> bool" where
  "kernel_lawful kern \<longleftrightarrow> (\<forall>direct i len n. kern direct i len = Wrote n \<longrightarrow> n \<le> len)"

definition refuses :: "kernel_write \<Rightarrow> bool" where
  "refuses kern \<longleftrightarrow> (\<exists>direct i len e. kern direct i len = Write_failed e \<and> mishandled (direct, e))"

definition kernel_ok :: "kernel_write \<Rightarrow> bool" where
  "kernel_ok kern \<longleftrightarrow> (\<forall>direct i len. case kern direct i len of
     Wrote n \<Rightarrow> n \<le> len | Write_failed e \<Rightarrow> direct \<and> (e = EPIPE \<or> e = ECONNRESET))"

lemma kernel_lawfulD: "kernel_lawful kern \<Longrightarrow> kern direct i len = Wrote n \<Longrightarrow> n \<le> len"
  unfolding kernel_lawful_def by blast

lemma kernel_ok_iff: "kernel_ok kern \<longleftrightarrow> kernel_lawful kern \<and> \<not> refuses kern"
proof -
  have "kernel_ok kern \<longleftrightarrow> (\<forall>direct i len. (\<forall>n. kern direct i len = Wrote n \<longrightarrow> n \<le> len) \<and>
      (\<forall>e. kern direct i len = Write_failed e \<longrightarrow> \<not> mishandled (direct, e)))"
    unfolding kernel_ok_def mishandled_def by (intro arg_cong [where f = All] ext) (simp split: write_result.split)
  then show ?thesis unfolding kernel_lawful_def refuses_def by blast
qed

section \<open>Channel operations\<close>

lemma Channel_isWriting_op:
  "Channel_isWriting (ch\<lparr>ch_events := op_events (Enable_writing p) ev, ch_addedToLoop := b\<rparr>)"
  "\<not> Channel_isWriting (ch\<lparr>ch_events := op_events (Disable_writing p) ev, ch_addedToLoop := b\<rparr>)"
  "\<not> Channel_isWriting (ch\<lparr>ch_events := op_events (Disable_all p) ev, ch_addedToLoop := b\<rparr>)"
  by (simp_all add: Channel_isWriting_def)

lemma Channel_isWriting_read_op:
  "Channel_isWriting (ch\<lparr>ch_events := op_events (Enable_reading p) ev, ch_addedToLoop := b\<rparr>) \<longleftrightarrow>
     ev AND kWriteEvent \<noteq> 0"
  "Channel_isWriting (ch\<lparr>ch_events := op_events (Disable_reading p) ev, ch_addedToLoop := b\<rparr>) \<longleftrightarrow>
     ev AND kWriteEvent \<noteq> 0"
  by (simp_all add: Channel_isWriting_def)

lemma script_snoc:
  "script_allowed reuse (ops @ [op]) E \<longleftrightarrow>
     script_allowed reuse ops E \<and> op_allowed op (script_result reuse ops E)"
  "script_result reuse (ops @ [op]) E = op_result reuse op (script_result reuse ops E)"
  by (induction ops arbitrary: E) (simp_all add: script_result_def)

lemma chan_script_update:
  assumes "chan_script c" and "op_channel op = 0" and "\<not> is_Remove op"
    and "ch_addedToLoop (tc_channel c) \<or> tc_chan_ops c = [] \<and> op_events op (ch_events (tc_channel c)) \<noteq> 0"
    and "tc_channel c' = (tc_channel c)\<lparr>ch_events := op_events op (ch_events (tc_channel c)), ch_addedToLoop := True\<rparr>"
    and "tc_chan_ops c' = tc_chan_ops c @ [op]"
  shows "chan_script c'"
proof -
  let ?ch = "tc_channel c" let ?E = "conn_table (ch_fd ?ch)"
  have R: "script_result reuse (tc_chan_ops c) ?E = [0 \<mapsto> (ch_fd ?ch, ch_events ?ch, conn_life reuse c)]"
    "script_allowed reuse (tc_chan_ops c) ?E" for reuse
    using assms(1) by (auto simp: chan_script_def)
  have "op_allowed op [0 \<mapsto> (ch_fd ?ch, ch_events ?ch, conn_life reuse c)]" for reuse
    using assms(1-4) by (auto simp: op_allowed_def conn_life_def fd_free_def chan_script_def)
  moreover have "op_result reuse op [0 \<mapsto> (ch_fd ?ch, ch_events ?ch, conn_life reuse c)] =
      [0 \<mapsto> (ch_fd ?ch, op_events op (ch_events ?ch), Registered)]" for reuse
    using assms(2,3) by (simp add: op_result_def)
  ultimately show ?thesis
    using assms R interest_word_op [of "ch_events ?ch" op]
    by (simp add: chan_script_def script_snoc conn_life_def)
qed

lemma chan_script_remove:
  assumes "chan_script c" and "ch_addedToLoop (tc_channel c)" and "ch_events (tc_channel c) = 0"
    and "tc_channel c' = (tc_channel c)\<lparr>ch_events := 0, ch_addedToLoop := False\<rparr>"
    and "tc_chan_ops c' = tc_chan_ops c @ [Remove 0]"
  shows "chan_script c'"
proof -
  let ?ch = "tc_channel c" let ?E = "conn_table (ch_fd ?ch)"
  have R: "script_result reuse (tc_chan_ops c) ?E = [0 \<mapsto> (ch_fd ?ch, 0, Registered)]"
    "script_allowed reuse (tc_chan_ops c) ?E" for reuse
    using assms(1-3) by (auto simp: chan_script_def conn_life_def)
  have "op_allowed (Remove 0) [0 \<mapsto> (ch_fd ?ch, 0, Registered)]"
    by (simp add: op_allowed_def is_Remove_def)
  moreover have "op_result reuse (Remove 0) [0 \<mapsto> (ch_fd ?ch, 0, Registered)] =
      [0 \<mapsto> (ch_fd ?ch, 0, if reuse then Fresh else Removed)]" for reuse
    by (simp add: op_result_def is_Remove_def)
  ultimately show ?thesis
    using assms R by (simp add: chan_script_def script_snoc conn_life_def)
qed

lemma chan_script_same:
  "chan_script c \<Longrightarrow> tc_channel c' = tc_channel c \<Longrightarrow> tc_chan_ops c' = tc_chan_ops c \<Longrightarrow> chan_script c'"
  by (simp add: chan_script_def conn_life_def)

lemma handlers_set_update [simp]:
  "handlers_set (ch\<lparr>ch_events := ev, ch_addedToLoop := b\<rparr>) = handlers_set ch"
  by (simp add: handlers_set_def)

section \<open>Sending\<close>

lemma conn_sound_output: "conn_sound c \<Longrightarrow> Buffer_readableBytes (tc_output c) = length (Buffer_content (tc_output c))"
  by (auto simp: conn_sound_def Buffer_readableBytes_eq)

lemma keeps_connI: "conn_sound c' \<Longrightarrow> conn_frame c c' \<Longrightarrow> keeps_conn R c (Inr c')"
  by (simp add: keeps_conn_def)

lemma conn_sound_queue:
  "conn_sound c \<Longrightarrow> task_ok task \<Longrightarrow> tc_state c \<noteq> kConnecting \<Longrightarrow> conn_sound (conn_queue task c)"
  by (simp add: conn_sound_def conn_queue_def conn_live_def conn_isWriting_def chan_script_def conn_life_def)

lemma conn_frame_queue [simp]: "conn_frame c (conn_queue task c)"
  by (simp add: conn_frame_def conn_queue_def)

lemma highWater_fields:
  "tc_output (sendInLoop_highWater old newLen c) = tc_output c"
  "tc_accepted (sendInLoop_highWater old newLen c) = tc_accepted c"
  "conn_live (sendInLoop_highWater old newLen c) \<longleftrightarrow> conn_live c"
  "conn_frame d (sendInLoop_highWater old newLen c) \<longleftrightarrow> conn_frame d c"
  "tc_failures (sendInLoop_highWater old newLen c) = tc_failures c"
  "sendInLoop_highWater old newLen (c\<lparr>tc_accepted := a\<rparr>) = (sendInLoop_highWater old newLen c)\<lparr>tc_accepted := a\<rparr>"
  by (simp_all add: sendInLoop_highWater_def conn_queue_def conn_live_def conn_frame_def)

lemma highWater_inv:
  "conn_sound c \<Longrightarrow> conn_live c \<Longrightarrow> conn_sound (sendInLoop_highWater old newLen c)"
  by (auto simp: sendInLoop_highWater_def task_ok_def conn_live_def intro!: conn_sound_queue)

text \<open>Appending what is left to the output buffer.\<close>

lemma sendInLoop_append_keeps:
  assumes inv: "conn_sound c" and live: "conn_live c" and rest: "rest \<noteq> []" "length rest \<le> max_size"
    and acc: "acc = rest \<or> conn_refused c"
  shows "keeps_conn R c (sendInLoop_append rest (c\<lparr>tc_accepted := tc_accepted c @ acc\<rparr>))"
  unfolding keeps_conn_def sendInLoop_append_def
proof (rule done_unless_andThen [OF Buffer_append_done])
  show "Buffer_inv (tc_output (c\<lparr>tc_accepted := tc_accepted c @ acc\<rparr>))"
    using inv by (simp add: conn_sound_def)
  fix buf
  assume out: "Buffer_inv buf \<and> Buffer_content buf =
      Buffer_content (tc_output (c\<lparr>tc_accepted := tc_accepted c @ acc\<rparr>)) @ take (length rest) rest"
  have stream: "\<not> conn_refused c \<longrightarrow> tc_wire c @ Buffer_content (tc_output c) @ rest = tc_accepted c @ acc"
    using inv acc by (auto simp: conn_sound_def)
  define e where "e = c\<lparr>tc_accepted := tc_accepted c @ acc, tc_output := buf\<rparr>"
  have "done_unless R (\<lambda>c'. conn_sound c' \<and> conn_frame c c')
    (if conn_isWriting e then Inr e else conn_channel (Enable_writing 0) e)"
  proof (cases "conn_isWriting e")
    case True
    then have "conn_sound e"
      using inv live out rest(1) stream by (cases "tc_state c")
        (simp_all add: e_def conn_sound_def conn_live_def conn_isWriting_def chan_script_def conn_life_def)
    moreover have "conn_frame c e" by (simp add: e_def conn_frame_def)
    ultimately show ?thesis using True by simp
  next
    case False
    define f where "f = e\<lparr>tc_channel := (tc_channel e)\<lparr>ch_events := op_events (Enable_writing 0) (ch_events (tc_channel e)),
        ch_addedToLoop := True\<rparr>, tc_chan_ops := tc_chan_ops e @ [Enable_writing 0]\<rparr>"
    have f: "conn_channel (Enable_writing 0) e = Inr f"
      by (simp add: conn_channel_def is_Remove_def f_def)
    have "chan_script f"
      by (rule chan_script_update [where c = c and op = "Enable_writing 0"])
        (use inv live in \<open>auto simp: f_def e_def conn_sound_def is_Remove_def\<close>)
    then have "conn_sound f"
      using inv live out rest(1) stream
      by (cases "tc_state c") (simp_all add: conn_sound_def f_def e_def conn_live_def conn_isWriting_def
          Channel_isWriting_op del: op_events.simps)
    moreover have "conn_frame c f" using conn_live_up [OF live] by (simp add: f_def e_def conn_frame_def)
    ultimately show ?thesis using False f by simp
  qed
  then show "done_unless R (\<lambda>c'. conn_sound c' \<and> conn_frame c c')
     (let c' = c\<lparr>tc_accepted := tc_accepted c @ acc\<rparr>\<lparr>tc_output := buf\<rparr>
      in if conn_isWriting c' then Inr c' else conn_channel (Enable_writing 0) c')"
    by (simp only: e_def Let_def)
qed (simp, rule rest(2))

lemma keeps_conn_frame:
  "keeps_conn R d r \<Longrightarrow> conn_frame c d \<Longrightarrow> keeps_conn R c r"
  unfolding keeps_conn_def by (elim done_unless_mono) (auto intro: conn_frame_trans)

lemma sendInLoop_queue_keeps:
  assumes inv: "conn_sound c" and live: "conn_live c" and rest: "rest \<noteq> []" "length rest \<le> max_size"
    and acc: "acc = rest \<or> conn_refused c" and mem: "mem_range mem (off + nwrote) (length rest) = Inr rest"
  shows "keeps_conn R c (sendInLoop_queue mem off nwrote (int (length rest)) (c\<lparr>tc_accepted := tc_accepted c @ acc\<rparr>))"
proof -
  have len: "size_of_int (int (length rest)) = length rest"
    using rest(2) by (simp add: max_size_def)
  define old where "old = Buffer_readableBytes (tc_output c)"
  define d where "d = sendInLoop_highWater old (size64 (old + length rest)) c"
  have "sendInLoop_queue mem off nwrote (int (length rest)) (c\<lparr>tc_accepted := tc_accepted c @ acc\<rparr>) =
      sendInLoop_append rest (d\<lparr>tc_accepted := tc_accepted d @ acc\<rparr>)"
    by (simp add: sendInLoop_queue_def len mem d_def old_def highWater_fields Let_def)
  moreover have "keeps_conn R d (sendInLoop_append rest (d\<lparr>tc_accepted := tc_accepted d @ acc\<rparr>))"
    by (rule sendInLoop_append_keeps [OF _ _ rest])
      (use inv live acc in \<open>simp_all add: d_def highWater_inv highWater_fields\<close>)
  moreover have "conn_frame c d" by (simp add: d_def highWater_fields conn_frame_refl)
  ultimately show ?thesis using keeps_conn_frame by simp
qed

text \<open>The bytes of the message.\<close>

lemma mem_range_ok:
  "0 \<le> off \<Longrightarrow> off + int len \<le> int (length mem) \<Longrightarrow>
   mem_range mem off len = Inr (take len (drop (nat off) mem)) \<and> length (take len (drop (nat off) mem)) = len"
  by (simp add: mem_range_def)

lemma mem_range_rest:
  assumes "0 \<le> off" and "off + int len \<le> int (length mem)" and "n \<le> len"
  shows "mem_range mem (off + int n) (len - n) = Inr (drop n (take len (drop (nat off) mem)))"
proof -
  have "nat (off + int n) = n + nat off" using assms(1) by simp
  then show ?thesis using assms by (simp add: mem_range_def drop_take)
qed

text \<open>The direct write of a send fails in a way that the code mishandles.\<close>

definition send_refused :: "kernel_write \<Rightarrow> tcp_connection \<Rightarrow> nat \<Rightarrow> bool" where
  "send_refused kern c len \<longleftrightarrow> Buffer_readableBytes (tc_output c) = 0 \<and>
     (\<exists>e. kern True (tc_writes c) len = Write_failed e \<and> mishandled (True, e))"

lemma send_refused_refuses: "send_refused kern c len \<Longrightarrow> refuses kern"
  by (auto simp: send_refused_def refuses_def)

lemma mem_range_length: "mem_range mem off len = Inr bytes \<Longrightarrow> length bytes = len"
  by (auto simp: mem_range_def split: if_splits)

lemma sendInLoop_keeps:
  assumes inv: "conn_sound c" and kern: "kernel_lawful kern" and tid: "tid = tc_owner c"
    and R: "send_refused kern c len \<Longrightarrow> R"
    and st: "tc_state c \<noteq> kConnecting"
    and mem: "0 \<le> off" "off + int len \<le> int (length mem)" and len: "len \<le> max_size"
  shows "keeps_conn R c (TcpConnection_sendInLoop kern tid mem off len c)"
proof (cases "tc_state c = kDisconnected")
  case True
  then show ?thesis using inv tid by (simp add: TcpConnection_sendInLoop_def conn_in_thread_def keeps_connI conn_frame_refl)
next
  case False
  then have live: "conn_live c" using st by (cases "tc_state c") (simp_all add: conn_live_def)
  define bytes where "bytes = take len (drop (nat off) mem)"
  have bytes: "mem_range mem off len = Inr bytes" "length bytes = len"
    using mem_range_ok [OF mem] by (simp_all add: bytes_def)
  have len64: "size_of_int (int k) = k" if "k \<le> len" for k
    using that len by (simp add: max_size_def)
  define tail where "tail = (\<lambda>(nwrote, remaining, faultError, c1). cassert (size_of_int remaining \<le> len) (
       if faultError then Inr c1
       else let c2 = c1\<lparr>tc_accepted := tc_accepted c1 @ bytes\<rparr>
         in if 0 < remaining then sendInLoop_queue mem off nwrote remaining c2 else Inr c2))"
  have send: "TcpConnection_sendInLoop kern tid mem off len c = andThen (sendInLoop_direct kern mem off len c) tail"
    unfolding TcpConnection_sendInLoop_def conn_in_thread_def tail_def bytes_def using False tid by simp
  have after: "keeps_conn R c (tail (int n, int (len - n), False, d))"
    if n: "n \<le> len" and d: "conn_sound (d\<lparr>tc_accepted := tc_accepted d @ take n bytes\<rparr>)"
      "conn_live d" "conn_frame c d" for n d
  proof (cases "n = len")
    case True
    then have "take n bytes = bytes" using bytes(2) by simp
    then show ?thesis
      using True d len64 [of 0] by (simp add: tail_def keeps_connI conn_frame_def)
  next
    case False
    define e where "e = d\<lparr>tc_accepted := tc_accepted d @ take n bytes\<rparr>"
    define rest where "rest = drop n bytes"
    have rest: "rest \<noteq> []" "length rest = len - n" "length rest \<le> max_size"
      using False n bytes(2) len by (simp_all add: rest_def)
    have range: "mem_range mem (off + int n) (length rest) = Inr rest"
      using mem_range_rest [OF mem n] rest(2) by (simp add: rest_def bytes_def)
    have "keeps_conn R e (sendInLoop_queue mem off (int n) (int (length rest)) (e\<lparr>tc_accepted := tc_accepted e @ rest\<rparr>))"
      by (rule sendInLoop_queue_keeps [OF _ _ rest(1,3) _ range])
        (use d in \<open>simp_all add: e_def conn_live_def\<close>)
    moreover have "e\<lparr>tc_accepted := tc_accepted e @ rest\<rparr> = d\<lparr>tc_accepted := tc_accepted d @ bytes\<rparr>"
      by (simp add: e_def rest_def)
    ultimately have "keeps_conn R e (tail (int n, int (len - n), False, d))"
      using False n rest(2) len64 [of "len - n"] by (simp add: tail_def)
    moreover have "conn_frame c e" using d(3) by (simp add: e_def conn_frame_def)
    ultimately show ?thesis by (rule keeps_conn_frame)
  qed
  show ?thesis
  proof (cases "conn_isWriting c")
    case True
    have "sendInLoop_direct kern mem off len c = Inr (int 0, int (len - 0), False, c)"
      using True by (simp add: sendInLoop_direct_def)
    moreover have "conn_sound (c\<lparr>tc_accepted := tc_accepted c @ take 0 bytes\<rparr>)" using inv by simp
    ultimately show ?thesis using after [of 0 c] live by (simp add: send conn_frame_refl)
  next
    case idle: False
    have empty: "Buffer_content (tc_output c) = []"
      using inv live idle by (simp add: conn_sound_def)
    then have "Buffer_readableBytes (tc_output c) = 0" using conn_sound_output [OF inv] by simp
    then have direct: "sendInLoop_direct kern mem off len c =
        (case conn_write kern True bytes c of
          (Wrote n, c1) \<Rightarrow> Inr (int n, int len - int n, False,
             if int len - int n = 0 \<and> tc_writeCompleteCallback c1 then conn_queue Write_complete_task c1 else c1)
        | (Write_failed e, c1) \<Rightarrow> Inr (-1, int len, e \<noteq> EWOULDBLOCK \<and> (e = EPIPE \<or> e = ECONNRESET), c1))"
      using idle bytes(1) by (simp add: sendInLoop_direct_def Let_def split: prod.splits write_result.splits)
    show ?thesis
    proof (cases "kern True (tc_writes c) len")
      case (Wrote n)
      have n: "n \<le> len" by (rule kernel_lawfulD [OF kern Wrote])
      define c1 where "c1 = c\<lparr>tc_writes := Suc (tc_writes c), tc_wire := tc_wire c @ take n bytes\<rparr>"
      define d where "d = (if int len - int n = 0 \<and> tc_writeCompleteCallback c1 then conn_queue Write_complete_task c1 else c1)"
      have c1: "conn_sound (c1\<lparr>tc_accepted := tc_accepted c1 @ take n bytes\<rparr>)"
        using inv empty live st
        by (cases "tc_state c")
          (simp_all add: c1_def conn_sound_def conn_live_def conn_isWriting_def chan_script_def conn_life_def)
      have "conn_sound (d\<lparr>tc_accepted := tc_accepted d @ take n bytes\<rparr>)"
      proof (cases "int len - int n = 0 \<and> tc_writeCompleteCallback c1")
        case True
        then have "d\<lparr>tc_accepted := tc_accepted d @ take n bytes\<rparr> =
            conn_queue Write_complete_task (c1\<lparr>tc_accepted := tc_accepted c1 @ take n bytes\<rparr>)"
          by (simp add: d_def conn_queue_def)
        then show ?thesis using conn_sound_queue [OF c1] st by (simp add: task_ok_def c1_def)
      next
        case False
        then show ?thesis using c1 by (auto simp: d_def)
      qed
      moreover have "conn_live d" "conn_frame c d"
        using live by (auto simp: d_def c1_def conn_queue_def conn_live_def conn_frame_def)
      moreover have "sendInLoop_direct kern mem off len c = Inr (int n, int (len - n), False, d)"
        using Wrote n bytes(2) by (simp add: direct conn_write_def Let_def c1_def d_def)
      ultimately show ?thesis using after [OF n] by (simp add: send)
    next
      case (Write_failed err)
      define c1 where "c1 = c\<lparr>tc_writes := Suc (tc_writes c), tc_failures := tc_failures c @ [(True, err)]\<rparr>"
      have dr: "sendInLoop_direct kern mem off len c = Inr (-1, int len, \<not> mishandled (True, err), c1)"
        using Write_failed bytes(2)
        by (auto simp: direct conn_write_def c1_def mishandled_def EPIPE_def ECONNRESET_def EWOULDBLOCK_def)
      have c1: "conn_sound c1" "conn_live c1" "conn_frame c c1"
        using inv live empty by (cases "tc_state c", simp_all add: c1_def conn_sound_def conn_live_def conn_isWriting_def
            chan_script_def conn_life_def conn_frame_def)
      show ?thesis
      proof (cases "mishandled (True, err)")
        case False
        then show ?thesis
          using c1 len64 [of len] by (simp add: send dr tail_def keeps_connI)
      next
        case True
        then have r: R and ref: "conn_refused c1"
          using Write_failed \<open>Buffer_readableBytes (tc_output c) = 0\<close> by (auto intro!: R simp: send_refused_def c1_def)
        show ?thesis
        proof (cases "len = 0")
          case True
          then show ?thesis
            unfolding send dr using c1 \<open>mishandled (True, err)\<close> bytes(2)
            by (simp add: tail_def keeps_connI)
        next
          case False
          show ?thesis
          proof (cases "mem_range mem (off + -1) len")
            case (Inl e)
            then have "e = Undefined_behaviour" by (simp add: mem_range_def split: if_splits)
            then show ?thesis
              using Inl r True False len64 [of len]
              by (simp add: send dr tail_def sendInLoop_queue_def Let_def keeps_conn_def)
          next
            case (Inr shifted)
            then have sh: "length shifted = len" by (rule mem_range_length)
            have "keeps_conn R c1 (sendInLoop_queue mem off (-1) (int (length shifted))
                (c1\<lparr>tc_accepted := tc_accepted c1 @ bytes\<rparr>))"
              by (rule sendInLoop_queue_keeps [OF c1(1,2)]) (use sh len False ref Inr in auto)
            then show ?thesis
              using keeps_conn_frame [OF _ c1(3)] True False len64 [of len] sh by (simp add: send dr tail_def)
          qed
        qed
      qed
    qed
  qed
qed

section \<open>Calls of the user\<close>

text \<open>The contract of a call, in the loop's thread or another, in a state of the connection: pieces
  and buffers are well formed, the input buffer belongs to the loop's thread, and reading is started
  and stopped there, while the connection is up.\<close>

fun conn_allowed :: "bool \<Rightarrow> conn_state \<Rightarrow> conn_command \<Rightarrow> bool" where
  "conn_allowed in_loop st (Do_send message) \<longleftrightarrow> piece_ok message"
| "conn_allowed in_loop st (Do_send_buffer buf) \<longleftrightarrow> Buffer_inv buf \<and> length (Buffer_content buf) < 2 ^ 31"
| "conn_allowed in_loop st Do_echo \<longleftrightarrow> in_loop"
| "conn_allowed in_loop st (Do_retrieve n) \<longleftrightarrow> in_loop"
| "conn_allowed in_loop st Do_start_read \<longleftrightarrow> in_loop \<and> (st = kConnected \<or> st = kDisconnecting)"
| "conn_allowed in_loop st Do_stop_read \<longleftrightarrow> in_loop \<and> (st = kConnected \<or> st = kDisconnecting)"
| "conn_allowed in_loop st cmd \<longleftrightarrow> True"

definition user_ok :: "conn_user \<Rightarrow> bool" where
  "user_ok user \<longleftrightarrow> (\<forall>ev c. \<forall>cmd \<in> set (user ev c). conn_allowed True (tc_state c) cmd)"

lemma send_piece_keeps:
  assumes inv: "conn_sound c" and kern: "kernel_lawful kern" and tid: "tid = tc_owner c"
    and R: "send_refused kern c (nat (sp_length m)) \<Longrightarrow> R"
    and st: "tc_state c \<noteq> kConnecting" and p: "piece_ok m"
  shows "keeps_conn R c (TcpConnection_sendInLoop_piece kern tid m c)"
proof -
  have p': "0 \<le> sp_length m" "sp_length m < 2 ^ 31" "0 \<le> sp_offset m"
    "sp_offset m + sp_length m \<le> int (length (sp_object m))"
    using p by (simp_all add: piece_ok_def)
  then have len: "size_of_int (sp_length m) = nat (sp_length m)" by simp
  have "nat (sp_length m) < 2 ^ 31" using p' by simp
  then show ?thesis
    unfolding TcpConnection_sendInLoop_piece_def len
    using p' by (intro sendInLoop_keeps [OF inv kern tid R st]) (simp_all add: max_size_def)
qed

lemma send_buffer_range:
  assumes "Buffer_inv b"
  shows "int (Buffer_peek b) + int (Buffer_readableBytes b) \<le> int (length (bufdata b))"
    and "Buffer_readableBytes b \<le> max_size"
    and "take (Buffer_readableBytes b) (drop (Buffer_peek b) (bufdata b)) = Buffer_content b"
proof -
  have wf: "Buffer_wf b" using assms by auto
  note ix = Buffer_wf_indices [OF wf]
  have r: "Buffer_readableBytes b = writerIndex b - readerIndex b"
    by (simp add: Buffer_readableBytes_eq [OF wf] Buffer_content_length [OF wf])
  show "int (Buffer_peek b) + int (Buffer_readableBytes b) \<le> int (length (bufdata b))"
    using ix by (simp add: r Buffer_peek_def)
  show "Buffer_readableBytes b \<le> max_size"
    using ix wf by (simp add: r Buffer_wf_def)
  show "take (Buffer_readableBytes b) (drop (Buffer_peek b) (bufdata b)) = Buffer_content b"
    by (simp add: r Buffer_peek_def Buffer_content_def)
qed

lemma send_buffer_keeps:
  assumes inv: "conn_sound c" and kern: "kernel_lawful kern" and b: "Buffer_inv b"
    and len: "tid \<noteq> tc_owner c \<longrightarrow> length (Buffer_content b) < 2 ^ 31"
  shows "done_unless (refuses kern) (\<lambda>(b', c'). Buffer_inv b' \<and> conn_sound c' \<and> conn_frame c c')
    (TcpConnection_send_buffer kern tid b c)"
proof (cases "tc_state c = kConnected")
  case False
  then show ?thesis using inv b by (simp add: TcpConnection_send_buffer_def conn_frame_refl)
next
  case up: True
  show ?thesis
  proof (cases "tid = tc_owner c")
    case True
    have "keeps_conn (refuses kern) c (TcpConnection_sendInLoop kern tid (bufdata b) (int (Buffer_peek b)) (Buffer_readableBytes b) c)"
      by (rule sendInLoop_keeps [OF inv kern True send_refused_refuses _ _ send_buffer_range(1,2) [OF b]]) (simp_all add: up)
    moreover have "Buffer_inv (Buffer_retrieveAll b)"
      using b Buffer_retrieveAll_ok [of b] by (simp add: Buffer_inv_def Buffer_retrieveAll_def)
    ultimately show ?thesis
      using up True by (auto simp: TcpConnection_send_buffer_def keeps_conn_def elim!: done_unless_andThen)
  next
    case False
    have wf: "Buffer_wf b" using b by auto
    obtain b' where b': "Buffer_retrieveAsString b (length (Buffer_content b)) = Inr (Buffer_content b, b')" "Buffer_inv b'"
      using Buffer_retrieveAsString_ok [OF b order_refl] by auto
    then have "Buffer_retrieveAllAsString b = Inr (Buffer_content b, b')"
      by (simp add: Buffer_retrieveAllAsString_def Buffer_readableBytes_eq [OF wf])
    then show ?thesis
      using up False b'(2) len conn_sound_queue [OF inv, of "Send_task (Buffer_content b)"]
      by (simp add: TcpConnection_send_buffer_def task_ok_def)
  qed
qed

lemma shutdownInLoop_keeps:
  assumes inv: "conn_sound c" and tid: "tid = tc_owner c" and st: "tc_state c \<noteq> kConnecting"
  shows "keeps_conn R c (TcpConnection_shutdownInLoop tid c)"
proof (cases "conn_isWriting c")
  case True
  then show ?thesis
    using inv tid by (simp add: TcpConnection_shutdownInLoop_def conn_in_thread_def keeps_connI conn_frame_refl)
next
  case False
  have "tc_state c \<noteq> kDisconnected \<Longrightarrow> \<not> conn_refused c \<Longrightarrow> tc_wire c = tc_accepted c"
    using inv False st by (cases "tc_state c") (auto simp: conn_sound_def conn_live_def)
  then have "conn_sound (conn_shutdownWrite c)"
    using inv st by (auto simp: fin_ok_def conn_sound_def conn_shutdownWrite_def conn_live_def conn_isWriting_def
        chan_script_def conn_life_def split: option.splits)
  moreover have "conn_frame c (conn_shutdownWrite c)"
    by (simp add: conn_frame_def conn_shutdownWrite_def split: option.splits)
  ultimately show ?thesis
    using tid False by (simp add: TcpConnection_shutdownInLoop_def conn_in_thread_def keeps_connI)
qed

lemma conn_sound_disconnecting:
  "conn_sound c \<Longrightarrow> conn_live c \<Longrightarrow> conn_sound (c\<lparr>tc_state := kDisconnecting\<rparr>)"
  by (auto simp: conn_sound_def conn_live_def conn_isWriting_def chan_script_def conn_life_def)

lemma read_op_keeps:
  assumes inv: "conn_sound c" and live: "conn_live c"
    and op: "op = Enable_reading 0 \<or> op = Disable_reading 0"
  shows "keeps_conn R c (andThen (conn_channel op c) (\<lambda>c'. Inr (c'\<lparr>tc_reading := b\<rparr>)))"
proof -
  define d where "d = c\<lparr>tc_channel := (tc_channel c)\<lparr>ch_events := op_events op (ch_events (tc_channel c)),
      ch_addedToLoop := True\<rparr>, tc_chan_ops := tc_chan_ops c @ [op], tc_reading := b\<rparr>"
  have no_remove: "\<not> is_Remove op" "op_channel op = 0" using op by (auto simp: is_Remove_def)
  have w: "Channel_isWriting (tc_channel d) = Channel_isWriting (tc_channel c)"
    using op by (auto simp: d_def Channel_isWriting_read_op simp del: op_events.simps) (simp_all add: Channel_isWriting_def)
  have "chan_script d"
    by (rule chan_script_update [where c = c and op = op])
      (use inv live no_remove in \<open>auto simp: d_def conn_sound_def\<close>)
  then have "conn_sound d"
    using inv live w by (cases "tc_state c") (simp_all add: conn_sound_def d_def conn_live_def conn_isWriting_def)
  moreover have "conn_frame c d" using conn_live_up [OF live] by (simp add: d_def conn_frame_def)
  ultimately show ?thesis
    using no_remove by (simp add: conn_channel_def d_def keeps_connI)
qed

lemma conn_sound_input: "conn_sound c \<Longrightarrow> Buffer_inv b \<Longrightarrow> conn_sound (c\<lparr>tc_input := b\<rparr>)"
  by (simp add: conn_sound_def conn_live_def conn_isWriting_def chan_script_def conn_life_def)

lemma conn_exec_keeps:
  assumes inv: "conn_sound c" and kern: "kernel_lawful kern"
    and allowed: "conn_allowed (tid = tc_owner c) (tc_state c) cmd"
  shows "keeps_conn (refuses kern) c (conn_exec kern tid c cmd)"
proof (cases cmd)
  case (Do_send m)
  then have m: "piece_ok m" using allowed by simp
  show ?thesis
  proof (cases "tc_state c = kConnected \<and> tid \<noteq> tc_owner c")
    case True
    have "sp_length m < 2 ^ 31" using m by (simp add: piece_ok_def)
    then have "length (piece_string m) < 2 ^ 31"
      using piece_ok_length [OF m] by simp
    then show ?thesis
      using True Do_send conn_sound_queue [OF inv, of "Send_task (piece_string m)"]
      by (simp add: TcpConnection_send_piece_def StringPiece_as_string_ok [OF m] task_ok_def keeps_connI)
  next
    case False
    then show ?thesis
      using Do_send inv send_piece_keeps [OF inv kern _ send_refused_refuses _ m]
      by (auto simp: TcpConnection_send_piece_def keeps_connI conn_frame_refl)
  qed
next
  case (Do_send_buffer b)
  then show ?thesis
    using send_buffer_keeps [OF inv kern, of b tid] allowed
    by (auto simp: keeps_conn_def elim!: done_unless_andThen)
next
  case Do_echo
  have "Buffer_inv (tc_input c)" using inv by (simp add: conn_sound_def)
  then have "done_unless (refuses kern) (\<lambda>(b', c'). Buffer_inv b' \<and> conn_sound c' \<and> conn_frame c c')
      (TcpConnection_send_buffer kern tid (tc_input c) c)"
    using send_buffer_keeps [OF inv kern] allowed Do_echo by simp
  then show ?thesis
    unfolding Do_echo conn_exec.simps keeps_conn_def
  proof (rule done_unless_andThen)
    fix x assume x: "case x of (b', c') \<Rightarrow> Buffer_inv b' \<and> conn_sound c' \<and> conn_frame c c'"
    obtain b' c' where "x = (b', c')" by (cases x)
    then show "done_unless (refuses kern) (\<lambda>c'. conn_sound c' \<and> conn_frame c c') (case x of (buf', c') \<Rightarrow> Inr (c'\<lparr>tc_input := buf'\<rparr>))"
      using x by (simp add: conn_sound_input conn_frame_def)
  qed
next
  case (Do_retrieve n)
  have b: "Buffer_inv (tc_input c)" using inv by (simp add: conn_sound_def)
  then have "min n (Buffer_readableBytes (tc_input c)) \<le> length (Buffer_content (tc_input c))"
    by (simp add: Buffer_readableBytes_eq Buffer_inv_wf)
  from Buffer_retrieve_ok [OF b this] obtain b' where
    "Buffer_retrieve (tc_input c) (min n (Buffer_readableBytes (tc_input c))) = Inr b'" "Buffer_inv b'" by blast
  moreover from this have "conn_sound (c\<lparr>tc_input := b'\<rparr>)"
    using inv by (simp add: conn_sound_def conn_live_def conn_isWriting_def chan_script_def conn_life_def)
  moreover have "conn_frame c (c\<lparr>tc_input := b'\<rparr>)" by (simp add: conn_frame_def)
  ultimately show ?thesis using Do_retrieve by (simp add: keeps_connI)
next
  case Do_shutdown
  show ?thesis
  proof (cases "tc_state c = kConnected")
    case True
    define d where "d = c\<lparr>tc_state := kDisconnecting\<rparr>"
    have d: "conn_sound d" "conn_frame c d" "tc_owner d = tc_owner c" "tc_state d = kDisconnecting"
      using True conn_sound_disconnecting [OF inv] by (simp_all add: d_def conn_live_def conn_frame_def)
    then show ?thesis
      using True Do_shutdown keeps_conn_frame [OF shutdownInLoop_keeps [OF d(1)] d(2)]
        conn_sound_queue [OF d(1), of Shutdown_task]
        conn_frame_trans [OF d(2) conn_frame_queue]
      by (auto simp: TcpConnection_shutdown_def d_def [symmetric] Let_def task_ok_def intro: keeps_connI)
  next
    case False
    then show ?thesis using Do_shutdown inv by (simp add: TcpConnection_shutdown_def keeps_connI conn_frame_refl)
  qed
next
  case Do_force_close
  show ?thesis
  proof (cases "conn_live c")
    case True
    from conn_sound_disconnecting [OF inv True] have "conn_sound (conn_queue Force_close_task (c\<lparr>tc_state := kDisconnecting\<rparr>))"
      by (rule conn_sound_queue) (simp_all add: task_ok_def)
    moreover have "conn_frame c (conn_queue Force_close_task (c\<lparr>tc_state := kDisconnecting\<rparr>))"
      using True by (auto simp: conn_frame_def conn_queue_def conn_live_def)
    ultimately show ?thesis
      using Do_force_close True by (simp add: TcpConnection_forceClose_def conn_live_def keeps_connI)
  next
    case False
    then show ?thesis
      using Do_force_close inv by (simp add: TcpConnection_forceClose_def conn_live_def keeps_connI conn_frame_refl)
  qed
next
  case Do_force_close_later
  show ?thesis
  proof (cases "conn_live c")
    case True
    from conn_sound_disconnecting [OF inv True]
    have "conn_sound (c\<lparr>tc_state := kDisconnecting, tc_delayed := Suc (tc_delayed c)\<rparr>)"
      by (simp add: conn_sound_def conn_live_def conn_isWriting_def chan_script_def conn_life_def)
    moreover have "conn_frame c (c\<lparr>tc_state := kDisconnecting, tc_delayed := Suc (tc_delayed c)\<rparr>)"
      using True by (auto simp: conn_frame_def conn_live_def)
    ultimately show ?thesis
      using Do_force_close_later True by (simp add: TcpConnection_forceCloseWithDelay_def conn_live_def keeps_connI)
  next
    case False
    then show ?thesis
      using Do_force_close_later inv
      by (simp add: TcpConnection_forceCloseWithDelay_def conn_live_def keeps_connI conn_frame_refl)
  qed
next
  case Do_start_read
  then have "tid = tc_owner c" "conn_live c" using allowed by (auto simp: conn_live_def)
  then show ?thesis
    using Do_start_read read_op_keeps [OF inv, of "Enable_reading 0" _ True] inv
    by (simp add: TcpConnection_startRead_def TcpConnection_startReadInLoop_def conn_in_thread_def keeps_connI
        conn_frame_refl)
next
  case Do_stop_read
  then have "tid = tc_owner c" "conn_live c" using allowed by (auto simp: conn_live_def)
  then show ?thesis
    using Do_stop_read read_op_keeps [OF inv, of "Disable_reading 0" _ False] inv
    by (simp add: TcpConnection_stopRead_def TcpConnection_stopReadInLoop_def conn_in_thread_def keeps_connI
        conn_frame_refl)
next
  case (Do_set_high_water n)
  have "conn_sound (TcpConnection_setHighWaterMarkCallback n c)" "conn_frame c (TcpConnection_setHighWaterMarkCallback n c)"
    using inv by (simp_all add: TcpConnection_setHighWaterMarkCallback_def conn_sound_def conn_frame_def conn_live_def
        conn_isWriting_def chan_script_def conn_life_def)
  then show ?thesis using Do_set_high_water by (simp add: keeps_connI)
qed

section \<open>Callbacks\<close>

lemma conn_allowed_mono:
  "conn_allowed b st cmd \<Longrightarrow> st' = st \<or> st = kConnected \<and> st' = kDisconnecting \<Longrightarrow> conn_allowed b st' cmd"
  by (cases cmd) auto

lemma conn_sound_log: "conn_sound (c\<lparr>tc_log := l\<rparr>) \<longleftrightarrow> conn_sound c"
  by (simp add: conn_sound_def conn_live_def conn_isWriting_def chan_script_def conn_life_def)

lemma conn_callback_keeps:
  assumes inv: "conn_sound c" and kern: "kernel_lawful kern" and user: "user_ok user"
  shows "keeps_conn (refuses kern) (c\<lparr>tc_log := tc_log c @ [ev]\<rparr>) (conn_callback kern user ev c)"
proof -
  define d where "d = c\<lparr>tc_log := tc_log c @ [ev]\<rparr>"
  have "done_unless (refuses kern) (\<lambda>c'. conn_sound c' \<and> conn_frame d c') (foldR (conn_exec kern (tc_owner d)) d (user ev d))"
  proof (rule done_unless_foldR)
    show "conn_sound d \<and> conn_frame d d" using inv by (simp add: d_def conn_sound_log conn_frame_refl)
    fix x cmd assume x: "conn_sound x \<and> conn_frame d x" and cmd: "cmd \<in> set (user ev d)"
    have "conn_allowed True (tc_state d) cmd" using user cmd by (simp add: user_ok_def)
    then have "conn_allowed (tc_owner d = tc_owner x) (tc_state x) cmd"
      using x conn_allowed_mono [of True "tc_state d" cmd "tc_state x"] by (auto simp: conn_frame_def)
    from conn_exec_keeps [OF _ kern this] x
    have "keeps_conn (refuses kern) x (conn_exec kern (tc_owner d) x cmd)" by simp
    then show "done_unless (refuses kern) (\<lambda>c'. conn_sound c' \<and> conn_frame d c') (conn_exec kern (tc_owner d) x cmd)"
      using x keeps_conn_frame [of _ x _ d] by (simp add: keeps_conn_def)
  qed
  then show ?thesis by (simp add: keeps_conn_def conn_callback_def d_def Let_def)
qed

section \<open>The order of the callbacks\<close>

fun while_up :: "conn_event \<Rightarrow> bool" where
  "while_up (Connection_event b) = False"
| "while_up Close_event = False"
| "while_up _ = True"

fun when_down :: "conn_event \<Rightarrow> bool" where
  "when_down Write_complete_event = True"
| "when_down (High_water_event n) = True"
| "when_down _ = False"

text \<open>Nothing before the connection is up; then up, with messages and the two notices of the output;
  once down, only the close callback, at most once and first, and late notices.\<close>

definition log_ok :: "conn_state \<Rightarrow> conn_event list \<Rightarrow> bool" where
  "log_ok st evs \<longleftrightarrow>
     (case st of
        kConnecting \<Rightarrow> evs = []
      | kDisconnected \<Rightarrow> \<exists>up late. list_all while_up up \<and> list_all when_down late \<and>
          (evs = Connection_event True # up @ Connection_event False # late \<or>
           evs = Connection_event True # up @ Connection_event False # Close_event # late)
      | _ \<Rightarrow> \<exists>up. list_all while_up up \<and> evs = Connection_event True # up)"

lemma log_ok_move:
  "log_ok (tc_state c) evs \<Longrightarrow> conn_frame c c' \<Longrightarrow> log_ok (tc_state c') evs"
  by (auto simp: conn_frame_def log_ok_def)

lemma log_ok_downI:
  "list_all while_up up \<Longrightarrow> list_all when_down late \<Longrightarrow>
   evs = Connection_event True # up @ Connection_event False # late \<or>
   evs = Connection_event True # up @ Connection_event False # Close_event # late \<Longrightarrow>
   log_ok kDisconnected evs"
  unfolding log_ok_def conn_state.case by blast

lemma log_ok_when_down:
  assumes "log_ok st evs" and "when_down ev" and "st \<noteq> kConnecting"
  shows "log_ok st (evs @ [ev])"
proof (cases "st = kDisconnected")
  case True
  then obtain up late where up: "list_all while_up up" "list_all when_down late"
    "evs = Connection_event True # up @ Connection_event False # late \<or>
     evs = Connection_event True # up @ Connection_event False # Close_event # late"
    using assms(1) by (auto simp: log_ok_def)
  then show ?thesis
    unfolding True using assms(2) by (intro log_ok_downI [of up "late @ [ev]"]) auto
next
  case False
  have "while_up ev" using assms(2) by (cases ev) auto
  then show ?thesis using assms False by (cases st) (auto simp: log_ok_def)
qed

lemma log_ok_down:
  assumes "log_ok st evs" and "st = kConnected \<or> st = kDisconnecting"
  shows "log_ok kDisconnected (evs @ [Connection_event False])"
    and "log_ok kDisconnected (evs @ [Connection_event False, Close_event])"
proof -
  obtain up where "list_all while_up up" "evs = Connection_event True # up"
    using assms by (auto simp: log_ok_def)
  then show "log_ok kDisconnected (evs @ [Connection_event False])"
    and "log_ok kDisconnected (evs @ [Connection_event False, Close_event])"
    by (auto intro!: log_ok_downI [of up "[]"])
qed

section \<open>Events\<close>

definition conn_good :: "tcp_connection \<Rightarrow> bool" where
  "conn_good c \<longleftrightarrow> conn_sound c \<and> log_ok (tc_state c) (tc_log c)"

definition same_conn :: "tcp_connection \<Rightarrow> tcp_connection \<Rightarrow> bool" where
  "same_conn c c' \<longleftrightarrow> tc_owner c' = tc_owner c \<and> ch_fd (tc_channel c') = ch_fd (tc_channel c) \<and> tc_name c' = tc_name c"

text \<open>How a connection moves on, short of being destroyed: it goes down only with the close callback.\<close>

definition conn_moves :: "tcp_connection \<Rightarrow> tcp_connection \<Rightarrow> bool" where
  "conn_moves c c' \<longleftrightarrow> same_conn c c' \<and> (\<exists>evs. tc_log c' = tc_log c @ evs) \<and>
     (ch_addedToLoop (tc_channel c) \<longrightarrow> ch_addedToLoop (tc_channel c')) \<and>
     (tc_state c = kDisconnected \<longrightarrow> tc_state c' = kDisconnected \<and>
        ch_addedToLoop (tc_channel c') = ch_addedToLoop (tc_channel c)) \<and>
     (tc_state c' = kDisconnected \<longrightarrow> tc_state c = kDisconnected \<or> Close_event \<in> set (tc_log c'))"

lemma conn_moves_refl: "conn_moves c c"
  by (simp add: conn_moves_def same_conn_def)

lemma conn_moves_trans: "conn_moves c c1 \<Longrightarrow> conn_moves c1 c2 \<Longrightarrow> conn_moves c c2"
  unfolding conn_moves_def same_conn_def by auto

lemma conn_moves_frame: "conn_frame c c' \<Longrightarrow> conn_moves c c'"
  by (auto simp: conn_frame_def conn_moves_def same_conn_def)

definition keeps_good :: "bool \<Rightarrow> tcp_connection \<Rightarrow> tcp_connection result \<Rightarrow> bool" where
  "keeps_good R c r \<longleftrightarrow> done_unless R (\<lambda>c'. conn_good c' \<and> conn_moves c c') r"

lemma keeps_good_frame: "conn_good c \<Longrightarrow> keeps_conn R c r \<Longrightarrow> keeps_good R c r"
  unfolding keeps_good_def keeps_conn_def
  by (elim done_unless_mono) (auto simp: conn_good_def conn_frame_def dest: log_ok_move intro: conn_moves_frame)

lemma keeps_good_weaken: "keeps_good R c r \<Longrightarrow> (R \<Longrightarrow> R') \<Longrightarrow> keeps_good R' c r"
  unfolding keeps_good_def by (rule done_unless_weaken)

lemma keeps_good_move: "keeps_good R x r \<Longrightarrow> conn_moves c x \<Longrightarrow> keeps_good R c r"
  unfolding keeps_good_def by (elim done_unless_mono) (auto intro: conn_moves_trans)

lemma keeps_good_andThen:
  assumes "keeps_good R c m" and "\<And>x. conn_good x \<Longrightarrow> conn_moves c x \<Longrightarrow> keeps_good R x (f x)"
  shows "keeps_good R c (andThen m f)"
  unfolding keeps_good_def
proof (rule done_unless_andThen [OF assms(1) [unfolded keeps_good_def]])
  fix x assume "conn_good x \<and> conn_moves c x"
  then have "keeps_good R c (f x)" using assms(2) [of x] keeps_good_move by blast
  then show "done_unless R (\<lambda>c'. conn_good c' \<and> conn_moves c c') (f x)" by (simp add: keeps_good_def)
qed

lemma callback_good:
  assumes "conn_sound c" and "kernel_lawful kern" and "user_ok user" and "log_ok (tc_state c) (tc_log c @ [ev])"
  shows "keeps_good (refuses kern) c (conn_callback kern user ev c)"
proof -
  have "keeps_good (refuses kern) (c\<lparr>tc_log := tc_log c @ [ev]\<rparr>) (conn_callback kern user ev c)"
    by (rule keeps_good_frame [OF _ conn_callback_keeps [OF assms(1-3)]])
      (use assms in \<open>simp add: conn_good_def conn_sound_log\<close>)
  moreover have "conn_moves c (c\<lparr>tc_log := tc_log c @ [ev]\<rparr>)" by (simp add: conn_moves_def same_conn_def)
  ultimately show ?thesis by (rule keeps_good_move)
qed

lemma disable_all_inv:
  assumes inv: "conn_sound c" and live: "conn_live c"
  shows "\<exists>d. conn_channel (Disable_all 0) (c\<lparr>tc_state := kDisconnected\<rparr>) = Inr d \<and> conn_sound d \<and>
    tc_state d = kDisconnected \<and> same_conn c d \<and> tc_log d = tc_log c \<and>
    ch_addedToLoop (tc_channel d)"
proof -
  define d where "d = c\<lparr>tc_state := kDisconnected, tc_channel := (tc_channel c)\<lparr>ch_events := 0,
      ch_addedToLoop := True\<rparr>, tc_chan_ops := tc_chan_ops c @ [Disable_all 0]\<rparr>"
  have "chan_script d"
    by (rule chan_script_update [where c = c and op = "Disable_all 0"])
      (use inv live in \<open>auto simp: d_def conn_sound_def is_Remove_def\<close>)
  then have "conn_sound d"
    using inv live by (simp add: conn_sound_def d_def conn_live_def)
  then show ?thesis by (simp add: conn_channel_def is_Remove_def d_def same_conn_def)
qed

lemma handleClose_good:
  assumes good: "conn_good c" and kern: "kernel_lawful kern" and user: "user_ok user" and live: "conn_live c"
  shows "keeps_good (refuses kern) c (TcpConnection_handleClose kern user (tc_owner c) c)"
proof -
  have inv: "conn_sound c" and evs: "log_ok (tc_state c) (tc_log c)" using good by (simp_all add: conn_good_def)
  obtain d where d: "conn_channel (Disable_all 0) (c\<lparr>tc_state := kDisconnected\<rparr>) = Inr d" "conn_sound d"
    "tc_state d = kDisconnected" "same_conn c d" "tc_log d = tc_log c" "ch_addedToLoop (tc_channel d)"
    using disable_all_inv [OF inv live] by blast
  define d1 where "d1 = d\<lparr>tc_log := tc_log d @ [Connection_event False]\<rparr>"
  have "keeps_conn (refuses kern) d1 (conn_callback kern user (Connection_event False) d)"
    using conn_callback_keeps [OF d(2) kern user] by (simp add: d1_def)
  then have "done_unless (refuses kern) (\<lambda>c'. conn_good c' \<and> conn_moves c c')
     (andThen (conn_callback kern user (Connection_event False) d) (conn_callback kern user Close_event))"
    unfolding keeps_conn_def
  proof (rule done_unless_andThen)
    fix x assume x: "conn_sound x \<and> conn_frame d1 x"
    then have x': "tc_state x = kDisconnected" "tc_log x = tc_log c @ [Connection_event False]"
      "same_conn c x" "ch_addedToLoop (tc_channel x)"
      using d by (auto simp: conn_frame_def same_conn_def d1_def)
    have close: "log_ok kDisconnected (tc_log x @ [Close_event])"
      using log_ok_down(2) [OF evs] live x' by (simp add: conn_live_def)
    have "keeps_conn (refuses kern) (x\<lparr>tc_log := tc_log x @ [Close_event]\<rparr>) (conn_callback kern user Close_event x)"
      by (rule conn_callback_keeps [OF _ kern user]) (use x in simp)
    then show "done_unless (refuses kern) (\<lambda>c'. conn_good c' \<and> conn_moves c c') (conn_callback kern user Close_event x)"
      unfolding keeps_conn_def
      by (rule done_unless_mono)
        (use close x' conn_live_up [OF live] in \<open>auto simp: conn_good_def conn_frame_def conn_moves_def same_conn_def\<close>)
  qed
  then show ?thesis
    using live d(1) by (auto simp: TcpConnection_handleClose_def conn_in_thread_def keeps_good_def conn_live_def)
qed

text \<open>Destroying.\<close>

definition keeps_id :: "bool \<Rightarrow> tcp_connection \<Rightarrow> tcp_connection result \<Rightarrow> bool" where
  "keeps_id R c r \<longleftrightarrow> done_unless R (\<lambda>c'. conn_good c' \<and> same_conn c c') r"

lemma keeps_good_id: "keeps_good R c r \<Longrightarrow> keeps_id R c r"
  unfolding keeps_good_def keeps_id_def by (elim done_unless_mono) (simp add: conn_moves_def)

lemma connectDestroyed_good:
  assumes good: "conn_good c" and kern: "kernel_lawful kern" and user: "user_ok user"
    and st: "tc_state c = kConnected \<or> tc_state c = kDisconnected" and added: "ch_addedToLoop (tc_channel c)"
  shows "keeps_id (refuses kern) c (TcpConnection_connectDestroyed kern user (tc_owner c) c)"
proof -
  have inv: "conn_sound c" and evs: "log_ok (tc_state c) (tc_log c)" using good by (simp_all add: conn_good_def)
  have remove: "keeps_id (refuses kern) c (conn_channel (Remove 0) x)"
    if x: "conn_good x" "tc_state x = kDisconnected" "ch_addedToLoop (tc_channel x)" "same_conn c x" for x
  proof -
    define y where "y = x\<lparr>tc_channel := (tc_channel x)\<lparr>ch_events := 0, ch_addedToLoop := False\<rparr>,
      tc_chan_ops := tc_chan_ops x @ [Remove 0]\<rparr>"
    have ev: "ch_events (tc_channel x) = 0" using x by (simp add: conn_good_def conn_sound_def)
    have "chan_script y"
      by (rule chan_script_remove [where c = x]) (use x ev in \<open>simp_all add: y_def conn_good_def conn_sound_def\<close>)
    then have "conn_good y"
      using x by (simp add: conn_good_def conn_sound_def y_def conn_live_def)
    then show ?thesis
      using ev x(4) by (simp add: conn_channel_def is_Remove_def Channel_isNoneEvent_def y_def keeps_id_def same_conn_def)
  qed
  show ?thesis
  proof (cases "tc_state c = kConnected")
    case False
    then show ?thesis
      using st remove [OF good] added by (simp add: TcpConnection_connectDestroyed_def conn_in_thread_def same_conn_def)
  next
    case True
    then obtain d where d: "conn_channel (Disable_all 0) (c\<lparr>tc_state := kDisconnected\<rparr>) = Inr d" "conn_sound d"
      "tc_state d = kDisconnected" "same_conn c d" "tc_log d = tc_log c" "ch_addedToLoop (tc_channel d)"
      using disable_all_inv [OF inv] by (auto simp: conn_live_def)
    define d1 where "d1 = d\<lparr>tc_log := tc_log d @ [Connection_event False]\<rparr>"
    have "keeps_conn (refuses kern) d1 (conn_callback kern user (Connection_event False) d)"
      using conn_callback_keeps [OF d(2) kern user] by (simp add: d1_def)
    then have "done_unless (refuses kern) (\<lambda>c'. conn_good c' \<and> same_conn c c')
       (andThen (conn_callback kern user (Connection_event False) d) (conn_channel (Remove 0)))"
      unfolding keeps_conn_def
    proof (rule done_unless_andThen)
      fix x assume x: "conn_sound x \<and> conn_frame d1 x"
      then have x': "tc_state x = kDisconnected" "tc_log x = tc_log c @ [Connection_event False]"
        "same_conn c x" "ch_addedToLoop (tc_channel x)"
        using d by (auto simp: conn_frame_def same_conn_def d1_def)
      have "conn_good x"
        using x x' log_ok_down(1) [OF evs] True by (simp add: conn_good_def)
      from remove [OF this x'(1,4,3)]
      show "done_unless (refuses kern) (\<lambda>c'. conn_good c' \<and> same_conn c c') (conn_channel (Remove 0) x)"
        by (simp add: keeps_id_def same_conn_def)
    qed
    then show ?thesis
      using True d(1) by (simp add: TcpConnection_connectDestroyed_def conn_in_thread_def keeps_id_def same_conn_def)
  qed
qed

lemma connectEstablished_up:
  assumes good: "conn_good c" and kern: "kernel_lawful kern" and user: "user_ok user"
    and st: "tc_state c = kConnecting"
  shows "done_unless (refuses kern) (\<lambda>c'. conn_good c' \<and> conn_moves c c' \<and> conn_live c')
    (TcpConnection_connectEstablished kern user (tc_owner c) c)"
proof -
  have inv: "conn_sound c" and none: "tc_log c = []" using good st by (simp_all add: conn_good_def log_ok_def)
  define b where "b = c\<lparr>tc_state := kConnected, tc_channel := Channel_tie 0 (tc_channel c)\<rparr>"
  define d where "d = b\<lparr>tc_channel := (tc_channel b)\<lparr>ch_events := op_events (Enable_reading 0) (ch_events (tc_channel b)),
      ch_addedToLoop := True\<rparr>, tc_chan_ops := tc_chan_ops b @ [Enable_reading 0]\<rparr>"
  have idle: "tc_chan_ops c = []" "ch_events (tc_channel c) = 0" "Buffer_content (tc_output c) = []"
    using inv st by (auto simp: conn_sound_def)
  have "chan_script b"
    using inv by (simp add: conn_sound_def chan_script_def b_def Channel_tie_def conn_life_def)
  then have "chan_script d"
    by (rule chan_script_update [where op = "Enable_reading 0"])
      (use idle in \<open>simp_all add: d_def b_def Channel_tie_def is_Remove_def\<close>)
  moreover have "\<not> Channel_isWriting (tc_channel d)"
    using idle by (simp add: d_def b_def Channel_isWriting_def Channel_tie_def read_write_disjoint)
  ultimately have d: "conn_sound d"
    using inv idle by (simp add: conn_sound_def d_def b_def conn_live_def conn_isWriting_def Channel_tie_def
        handlers_set_def)
  define d1 where "d1 = d\<lparr>tc_log := tc_log d @ [Connection_event True]\<rparr>"
  have d1: "log_ok (tc_state d1) (tc_log d1)" "conn_moves c d1" "tc_state d1 = kConnected"
    using none idle st by (simp_all add: d1_def d_def b_def log_ok_def conn_moves_def same_conn_def Channel_tie_def)
  have "keeps_conn (refuses kern) d1 (conn_callback kern user (Connection_event True) d)"
    unfolding d1_def by (rule conn_callback_keeps [OF d kern user])
  then have "done_unless (refuses kern) (\<lambda>c'. conn_good c' \<and> conn_moves c c' \<and> conn_live c')
      (conn_callback kern user (Connection_event True) d)"
    unfolding keeps_conn_def
  proof (rule done_unless_mono)
    fix c' assume c': "conn_sound c' \<and> conn_frame d1 c'"
    then have "log_ok (tc_state c') (tc_log d1)" "tc_log c' = tc_log d1"
      using log_ok_move [OF d1(1)] by (blast, simp add: conn_frame_def)
    then have "conn_good c'" using c' by (simp add: conn_good_def)
    moreover have "conn_moves c c'" using c' conn_moves_trans [OF d1(2) conn_moves_frame] by blast
    moreover have "conn_live c'" using c' d1(3) by (auto simp: conn_frame_def conn_live_def)
    ultimately show "conn_good c' \<and> conn_moves c c' \<and> conn_live c'" by blast
  qed
  moreover have "TcpConnection_connectEstablished kern user (tc_owner c) c =
      conn_callback kern user (Connection_event True) d"
    using st by (simp add: TcpConnection_connectEstablished_def conn_in_thread_def conn_channel_def is_Remove_def
        d_def b_def)
  ultimately show ?thesis by simp
qed

lemma connectEstablished_good:
  assumes "conn_good c" and "kernel_lawful kern" and "user_ok user" and "tc_state c = kConnecting"
  shows "keeps_good (refuses kern) c (TcpConnection_connectEstablished kern user (tc_owner c) c)"
  using connectEstablished_up [OF assms] unfolding keeps_good_def by (rule done_unless_mono) simp

lemma handleRead_good:
  assumes good: "conn_good c" and kern: "kernel_lawful kern" and user: "user_ok user" and live: "conn_live c"
    and rd: "case rd of Read_bytes xs \<Rightarrow> length xs \<le> Buffer_readv_capacity (tc_input c) | Read_failed e \<Rightarrow> True"
  shows "keeps_good (refuses kern) c (TcpConnection_handleRead kern user (tc_owner c) rd t c)"
proof (cases rd)
  case (Read_failed e)
  then show ?thesis
    using good by (simp add: TcpConnection_handleRead_def conn_in_thread_def TcpConnection_handleError_def keeps_good_def conn_moves_refl)
next
  case (Read_bytes xs)
  have "Buffer_inv (tc_input c)" using good by (simp add: conn_good_def conn_sound_def)
  from Buffer_readFd_total [OF this] rd Read_bytes consider "Buffer_readFd (tc_input c) rd = Inl Length_error"
    | b where "Buffer_readFd (tc_input c) rd = Inr (int (length xs), None, b)" "Buffer_inv b" by auto
  then show ?thesis
  proof cases
    case 1
    then show ?thesis by (simp add: TcpConnection_handleRead_def conn_in_thread_def keeps_good_def same_conn_def)
  next
    case 2
    define d where "d = c\<lparr>tc_input := b\<rparr>"
    have d: "conn_live d" "conn_moves c d" "tc_owner d = tc_owner c" "tc_state d = tc_state c" "tc_log d = tc_log c"
      using live by (simp_all add: d_def conn_live_def same_conn_def conn_moves_def)
    have good': "conn_good d"
      using good 2(2) by (simp add: d_def conn_good_def conn_sound_input)
    have "log_ok (tc_state d) (tc_log d @ [Message_event t])"
      using d(4,5) live good by (auto simp: conn_good_def log_ok_def conn_live_def)
    then have "keeps_good (refuses kern) d (conn_callback kern user (Message_event t) d)"
      using callback_good [OF _ kern user] good' by (simp add: conn_good_def)
    moreover have "keeps_good (refuses kern) d (TcpConnection_handleClose kern user (tc_owner d) d)"
      by (rule handleClose_good [OF good' kern user d(1)])
    ultimately show ?thesis
      using 2(1) d(3) keeps_good_move [OF _ d(2)]
      by (simp add: TcpConnection_handleRead_def conn_in_thread_def d_def [symmetric])
  qed
qed

lemma handleWrite_keeps:
  assumes inv: "conn_sound c" and kern: "kernel_lawful kern"
  shows "keeps_conn (refuses kern) c (TcpConnection_handleWrite kern (tc_owner c) c)"
proof (cases "conn_isWriting c")
  case False
  then show ?thesis
    using inv by (simp add: TcpConnection_handleWrite_def conn_in_thread_def keeps_connI conn_frame_refl)
next
  case True
  have events: "ch_events (tc_channel c) \<noteq> 0" using True by (auto simp: conn_isWriting_def Channel_isWriting_def)
  then have live: "conn_live c" using inv by (cases "tc_state c") (auto simp: conn_sound_def conn_live_def)
  let ?out = "Buffer_content (tc_output c)"
  have out: "?out \<noteq> []" "Buffer_inv (tc_output c)" using inv live True by (auto simp: conn_sound_def)
  show ?thesis
  proof (cases "kern False (tc_writes c) (length ?out)")
    case (Write_failed e)
    have "Buffer_retrieve (tc_output c) (size_of_int (-1)) = Inl Assert_failed"
      using Buffer_content_le_max [OF out(2)]
      by (simp add: Buffer_retrieve_def Buffer_readableBytes_eq Buffer_inv_wf [OF out(2)] max_size_def size_of_int_def)
    then have "TcpConnection_handleWrite kern (tc_owner c) c = Inl Assert_failed"
      using True Write_failed
      by (simp add: TcpConnection_handleWrite_def conn_in_thread_def conn_write_def Let_def size_of_int_def)
    moreover have "refuses kern" using Write_failed by (auto simp: refuses_def mishandled_def)
    ultimately show ?thesis by (simp add: keeps_conn_def)
  next
    case (Wrote n)
    have n: "n \<le> length ?out" by (rule kernel_lawfulD [OF kern Wrote])
    have "length ?out \<le> max_size"
      by (rule Buffer_content_le_max [OF out(2)])
    then have n64: "size_of_int (int n) = n" using n by (simp add: max_size_def)
    define c1 where "c1 = c\<lparr>tc_writes := Suc (tc_writes c), tc_wire := tc_wire c @ take n ?out\<rparr>"
    have wr: "conn_write kern False ?out c = (Wrote n, c1)"
      using Wrote by (simp add: conn_write_def c1_def Let_def)
    show ?thesis
    proof (cases "n = 0")
      case True
      then have "conn_sound c1"
        using inv by (simp add: c1_def conn_sound_def conn_live_def conn_isWriting_def chan_script_def conn_life_def)
      then show ?thesis
        using wr True \<open>conn_isWriting c\<close>
        by (simp add: TcpConnection_handleWrite_def conn_in_thread_def keeps_connI conn_frame_def same_conn_def c1_def)
    next
      case False
      obtain b where b: "Buffer_retrieve (tc_output c) n = Inr b" "Buffer_inv b" "Buffer_content b = drop n ?out"
        using Buffer_retrieve_ok [OF out(2) n] by blast
      have empty: "Buffer_readableBytes b = 0 \<longleftrightarrow> n = length ?out"
        using b n by (auto simp: Buffer_readableBytes_eq Buffer_inv_wf)
      define c2 where "c2 = c1\<lparr>tc_output := b\<rparr>"
      have wire: "\<not> conn_refused c2 \<Longrightarrow> tc_wire c2 @ Buffer_content (tc_output c2) = tc_accepted c2"
        using inv b(3) by (simp add: c2_def c1_def conn_sound_def)
      have run: "TcpConnection_handleWrite kern (tc_owner c) c =
          (if n = length ?out then
             andThen (conn_channel (Disable_writing 0) c2) (\<lambda>c3.
               let c4 = (if tc_writeCompleteCallback c3 then conn_queue Write_complete_task c3 else c3)
               in if tc_state c4 = kDisconnecting then TcpConnection_shutdownInLoop (tc_owner c) c4 else Inr c4)
           else Inr c2)"
        using wr b(1) True False n64 empty
        by (simp add: TcpConnection_handleWrite_def conn_in_thread_def Let_def c2_def c1_def)
      show ?thesis
      proof (cases "n = length ?out")
        case partial: False
        have "conn_sound c2"
          using inv live wire b partial n True by (simp add: conn_sound_def c2_def c1_def conn_live_def conn_isWriting_def
              chan_script_def conn_life_def) auto
        then show ?thesis
          using run partial by (simp add: keeps_connI conn_frame_def same_conn_def c2_def c1_def)
      next
        case done_all: True
        define c3 where "c3 = c2\<lparr>tc_channel := (tc_channel c2)\<lparr>ch_events := op_events (Disable_writing 0) (ch_events (tc_channel c2)),
          ch_addedToLoop := True\<rparr>, tc_chan_ops := tc_chan_ops c2 @ [Disable_writing 0]\<rparr>"
        have "chan_script c3"
          by (rule chan_script_update [where c = c and op = "Disable_writing 0"])
            (use inv live in \<open>auto simp: c3_def c2_def c1_def conn_sound_def is_Remove_def\<close>)
        then have c3: "conn_sound c3"
          using inv live wire b done_all by (cases "tc_state c") (simp_all add: conn_sound_def c3_def c2_def c1_def conn_live_def
              conn_isWriting_def Channel_isWriting_op del: op_events.simps)
        have frame3: "conn_frame c c3" and st3: "tc_state c3 = tc_state c" "tc_owner c3 = tc_owner c"
          using conn_live_up [OF live] by (simp_all add: conn_frame_def same_conn_def c3_def c2_def c1_def)
        define c4 where "c4 = (if tc_writeCompleteCallback c3 then conn_queue Write_complete_task c3 else c3)"
        have up: "tc_state c3 \<noteq> kConnecting" using live st3 by (auto simp: conn_live_def)
        have c4: "conn_sound c4" "conn_frame c c4" "tc_state c4 = tc_state c" "tc_owner c4 = tc_owner c"
          using conn_sound_queue [OF c3 _ up, of Write_complete_task] c3 st3 frame3
            conn_frame_trans [OF frame3 conn_frame_queue]
          by (auto simp: c4_def task_ok_def conn_queue_def)
        have "keeps_conn (refuses kern) c4 (if tc_state c4 = kDisconnecting then TcpConnection_shutdownInLoop (tc_owner c) c4 else Inr c4)"
          using shutdownInLoop_keeps [OF c4(1)] c4 by (simp add: keeps_connI conn_frame_refl)
        moreover have "TcpConnection_handleWrite kern (tc_owner c) c =
            (if tc_state c4 = kDisconnecting then TcpConnection_shutdownInLoop (tc_owner c) c4 else Inr c4)"
          unfolding run c4_def using done_all
          by (simp add: conn_channel_def is_Remove_def c3_def [symmetric] Let_def del: op_events.simps)
        ultimately show ?thesis using keeps_conn_frame c4(2) by simp
      qed
    qed
  qed
qed

lemma forceCloseInLoop_good:
  assumes "conn_good c" and "kernel_lawful kern" and "user_ok user"
  shows "keeps_good (refuses kern) c (TcpConnection_forceCloseInLoop kern user (tc_owner c) c)"
  using handleClose_good [OF assms] assms(1)
  by (auto simp: TcpConnection_forceCloseInLoop_def conn_in_thread_def conn_live_def keeps_good_def conn_moves_refl)

lemma conn_run_task_good:
  assumes good: "conn_good c" and kern: "kernel_lawful kern" and user: "user_ok user"
    and task: "task_ok task" and st: "tc_state c \<noteq> kConnecting"
  shows "keeps_good (refuses kern) c (conn_run_task kern user c task)"
proof (cases task)
  case (Send_task str)
  then have "length str < 2 ^ 31" using task by (simp add: task_ok_def)
  from send_piece_keeps [OF _ kern refl send_refused_refuses st piece_of_string(1) [OF this]] good
  show ?thesis using Send_task keeps_good_frame [OF good] by (simp add: conn_good_def)
next
  case Shutdown_task
  then show ?thesis
    using keeps_good_frame [OF good shutdownInLoop_keeps [OF _ refl st]] good by (simp add: conn_good_def)
next
  case Force_close_task
  then show ?thesis using forceCloseInLoop_good [OF good kern user] by simp
next
  case Start_read_task
  then show ?thesis using task by (simp add: task_ok_def)
next
  case Stop_read_task
  then show ?thesis using task by (simp add: task_ok_def)
next
  case Write_complete_task
  then show ?thesis
    using callback_good [OF _ kern user] good log_ok_when_down [OF _ _ st] by (simp add: conn_good_def)
next
  case (High_water_task n)
  then show ?thesis
    using callback_good [OF _ kern user] good log_ok_when_down [OF _ _ st] by (simp add: conn_good_def)
qed

end
