(* ===== verification/Conn_Properties.thy ===== *)
theory Conn_Properties
  imports Conn_Invariant Event_Loop
begin

text \<open>
  A whole life of a connection (\<open>Tcp_Connection\<close>): any sequence of events, functors, timers and calls
  within the contract, and what the connection promises over it.
\<close>

section \<open>Events of the channel\<close>

lemma conn_good_revents:
  "conn_good (c\<lparr>tc_channel := Channel_set_revents revents (tc_channel c)\<rparr>) \<longleftrightarrow> conn_good c"
  by (simp add: conn_good_def conn_sound_def conn_live_def conn_isWriting_def Channel_isWriting_def
      chan_script_def conn_life_def Channel_set_revents_def handlers_set_def)

lemma conn_dispatch:
  assumes "handlers_set ch"
  shows "Channel_dispatch ch t =
    (if Channel_hup (ch_revents ch) then [Event_call HandleClose] else []) @
    (if ch_revents ch AND (POLLERR OR POLLNVAL) \<noteq> 0 then [Event_call HandleError] else []) @
    (if ch_revents ch AND (POLLIN OR POLLPRI OR POLLRDHUP) \<noteq> 0 then [Read_call HandleRead t] else []) @
    (if ch_revents ch AND POLLOUT \<noteq> 0 then [Event_call HandleWrite] else [])"
  using assms by (simp add: Channel_dispatch_def handlers_set_def Let_def)

text \<open>A hang-up comes alone or with \<open>POLLIN\<close>: nothing else asks for a read then. A read returns at
  most what \<open>readv\<close> was offered.\<close>

definition read_fits :: "read_result \<Rightarrow> tcp_connection \<Rightarrow> bool" where
  "read_fits rd c \<longleftrightarrow>
     (case rd of Read_bytes xs \<Rightarrow> length xs \<le> Buffer_readv_capacity (tc_input c) | Read_failed e \<Rightarrow> True)"

lemma read_fits_channel [simp]: "read_fits rd (c\<lparr>tc_channel := ch\<rparr>) = read_fits rd c"
  by (simp add: read_fits_def split: read_result.split)

lemma keeps_good_refl: "conn_good c \<Longrightarrow> keeps_good R c (Inr c)"
  by (simp add: keeps_good_def conn_moves_refl)

lemma dispatch_good:
  assumes good: "conn_good c" and kern: "kernel_lawful kern" and user: "user_ok user"
    and live: "conn_live c" and rd: "read_fits rd c"
    and hup: "Channel_hup (ch_revents (tc_channel c)) \<Longrightarrow>
      ch_revents (tc_channel c) AND (POLLIN OR POLLPRI OR POLLRDHUP) = 0"
  shows "keeps_good (refuses kern) c (foldR (conn_invoke kern user rd) c (Channel_dispatch (tc_channel c) t))"
proof -
  let ?ev = "ch_revents (tc_channel c)"
  have handlers: "handlers_set (tc_channel c)" using good by (simp add: conn_good_def conn_sound_def)
  define rest where "rest = (if ?ev AND POLLOUT \<noteq> 0 then [Event_call HandleWrite] else [] :: conn_handler call list)"
  have wr: "keeps_good (refuses kern) x (foldR (conn_invoke kern user rd) x rest)" if "conn_good x" for x
    using that keeps_good_frame [OF that handleWrite_keeps [OF _ kern]]
    by (auto simp: rest_def keeps_good_refl conn_good_def)
  show ?thesis
  proof (cases "Channel_hup ?ev")
    case True
    then have no_read: "?ev AND (POLLIN OR POLLPRI OR POLLRDHUP) = 0" by (rule hup)
    have "keeps_good (refuses kern) c (andThen (TcpConnection_handleClose kern user (tc_owner c) c)
        (\<lambda>x. foldR (conn_invoke kern user rd) x rest))"
      by (rule keeps_good_andThen [OF handleClose_good [OF good kern user live] wr])
    then show ?thesis
      unfolding conn_dispatch [OF handlers] rest_def [symmetric] using True no_read
      by (simp add: TcpConnection_handleError_def)
  next
    case False
    show ?thesis
    proof (cases "?ev AND (POLLIN OR POLLPRI OR POLLRDHUP) = 0")
      case True
      then show ?thesis
        unfolding conn_dispatch [OF handlers] rest_def [symmetric] using False wr [OF good]
        by (simp add: TcpConnection_handleError_def)
    next
      case reading: False
      have "keeps_good (refuses kern) c (andThen (TcpConnection_handleRead kern user (tc_owner c) rd t c)
          (\<lambda>x. foldR (conn_invoke kern user rd) x rest))"
        by (rule keeps_good_andThen [OF handleRead_good [OF good kern user live] wr])
          (use rd in \<open>simp_all add: read_fits_def\<close>)
      then show ?thesis
        unfolding conn_dispatch [OF handlers] rest_def [symmetric] using False reading
        by (simp add: TcpConnection_handleError_def)
    qed
  qed
qed

section \<open>A whole life\<close>

definition conn_op_allowed :: "tcp_connection \<Rightarrow> conn_op \<Rightarrow> bool" where
  "conn_op_allowed c op \<longleftrightarrow>
     (case op of
        Establish \<Rightarrow> tc_state c = kConnecting
      | Occurs revents rd t \<Rightarrow> ch_events (tc_channel c) \<noteq> 0 \<and> read_fits rd c \<and>
          (Channel_hup revents \<longrightarrow> revents AND (POLLIN OR POLLPRI OR POLLRDHUP) = 0)
      | Call tid cmd \<Rightarrow> conn_allowed (tid = tc_owner c) (tc_state c) cmd
      | Destroy \<Rightarrow> ch_addedToLoop (tc_channel c) \<and> (tc_state c = kConnected \<or> tc_state c = kDisconnected)
      | _ \<Rightarrow> True)"

fun conn_run_allowed :: "kernel_write \<Rightarrow> conn_user \<Rightarrow> tcp_connection \<Rightarrow> conn_op list \<Rightarrow> bool" where
  "conn_run_allowed kern user c [] \<longleftrightarrow> True"
| "conn_run_allowed kern user c (op # ops) \<longleftrightarrow> conn_op_allowed c op \<and>
     (case conn_step kern user c op of Inl e \<Rightarrow> True | Inr c' \<Rightarrow> conn_run_allowed kern user c' ops)"

lemma conn_good_events: "conn_good c \<Longrightarrow> ch_events (tc_channel c) \<noteq> 0 \<Longrightarrow> conn_live c"
  by (cases "tc_state c") (simp_all add: conn_good_def conn_sound_def conn_live_def)

lemma conn_step_moves:
  assumes good: "conn_good c" and kern: "kernel_lawful kern" and user: "user_ok user"
    and allowed: "conn_op_allowed c op" and "op \<noteq> Destroy"
  shows "keeps_good (refuses kern) c (conn_step kern user c op)"
proof (cases op)
  case Establish
  then show ?thesis
    using connectEstablished_good [OF good kern user] allowed by (simp add: conn_op_allowed_def)
next
  case (Occurs revents rd t)
  define d where "d = c\<lparr>tc_channel := Channel_set_revents revents (tc_channel c)\<rparr>"
  have d1: "conn_good d" unfolding d_def conn_good_revents by (rule good)
  have d: "conn_live d" "read_fits rd d" "conn_moves c d" "ch_revents (tc_channel d) = revents"
    using conn_good_events [OF good] allowed Occurs
    by (simp_all add: d_def conn_op_allowed_def conn_live_def Channel_set_revents_def conn_moves_def same_conn_def)
  have "keeps_good (refuses kern) d (foldR (conn_invoke kern user rd) d (Channel_dispatch (tc_channel d) t))"
    by (rule dispatch_good [OF d1 kern user d(1,2)]) (use allowed Occurs d(4) in \<open>simp add: conn_op_allowed_def\<close>)
  moreover have "tc_channel d = Channel_set_revents revents (tc_channel c)" by (simp add: d_def)
  ultimately show ?thesis using Occurs keeps_good_move [OF _ d(3), of "refuses kern"] by (simp add: d_def [symmetric] Let_def)
next
  case Run_task
  show ?thesis
  proof (cases "tc_pending c")
    case Nil
    then show ?thesis using Run_task good by (simp add: keeps_good_refl)
  next
    case (Cons task tasks)
    define d where "d = c\<lparr>tc_pending := tasks\<rparr>"
    have st: "tc_state c \<noteq> kConnecting" using good Cons by (auto simp: conn_good_def conn_sound_def)
    have "conn_good d"
      using good Cons st by (simp add: d_def conn_good_def conn_sound_def conn_live_def conn_isWriting_def
          chan_script_def conn_life_def)
    moreover have "task_ok task" using good Cons by (simp add: conn_good_def conn_sound_def)
    ultimately have "keeps_good (refuses kern) d (conn_run_task kern user d task)"
      using conn_run_task_good [OF _ kern user] st by (simp add: d_def)
    moreover have "conn_moves c d" by (simp add: d_def conn_moves_def same_conn_def)
    ultimately show ?thesis using Run_task Cons keeps_good_move by (simp add: d_def [symmetric])
  qed
next
  case Delay_over
  show ?thesis
  proof (cases "tc_delayed c")
    case 0
    then show ?thesis using Delay_over good by (simp add: keeps_good_refl)
  next
    case (Suc n)
    define d where "d = c\<lparr>tc_delayed := n\<rparr>"
    have st: "tc_state c \<noteq> kConnecting" using good Suc by (auto simp: conn_good_def conn_sound_def)
    have d: "conn_good d"
      using good Suc st by (simp add: d_def conn_good_def conn_sound_def conn_live_def conn_isWriting_def
          chan_script_def conn_life_def)
    then have "keeps_good (refuses kern) d (conn_exec kern (tc_owner d) d Do_force_close)"
      by (intro keeps_good_frame conn_exec_keeps [OF _ kern]) (simp_all add: conn_good_def)
    moreover have "conn_moves c d" by (simp add: d_def conn_moves_def same_conn_def)
    ultimately show ?thesis
      using Delay_over Suc keeps_good_move by (simp add: d_def [symmetric])
  qed
next
  case (Call tid cmd)
  then show ?thesis
    using keeps_good_frame [OF good conn_exec_keeps [OF _ kern]] good allowed
    by (simp add: conn_op_allowed_def conn_good_def)
qed (use assms in simp)

lemma conn_step_good:
  assumes good: "conn_good c" and kern: "kernel_lawful kern" and user: "user_ok user"
    and allowed: "conn_op_allowed c op"
  shows "keeps_id (refuses kern) c (conn_step kern user c op)"
proof (cases "op = Destroy")
  case True
  then show ?thesis
    using connectDestroyed_good [OF good kern user] allowed by (simp add: conn_op_allowed_def)
qed (use conn_step_moves [OF assms] keeps_good_id in blast)

lemma conn_run_good:
  assumes "conn_good c" and "kernel_lawful kern" and "user_ok user" and "conn_run_allowed kern user c ops"
  shows "keeps_id (refuses kern) c (foldR (conn_step kern user) c ops)"
  using assms(1,4)
proof (induction ops arbitrary: c)
  case Nil
  then show ?case by (simp add: keeps_id_def same_conn_def)
next
  case (Cons op ops)
  have "conn_op_allowed c op" using Cons.prems(2) by simp
  from conn_step_good [OF Cons.prems(1) assms(2,3) this] show ?case
  proof (cases "conn_step kern user c op")
    case (Inr c')
    then have "conn_good c'" "same_conn c c'" "conn_run_allowed kern user c' ops"
      using conn_step_good [OF Cons.prems(1) assms(2,3) \<open>conn_op_allowed c op\<close>] Cons.prems(2)
      by (simp_all add: keeps_id_def same_conn_def)
    then show ?thesis using Cons.IH [of c'] Inr by (simp add: keeps_id_def same_conn_def)
  qed (simp add: keeps_id_def same_conn_def)
qed

lemma TcpConnection_new_good:
  assumes "0 \<le> fd"
  shows "conn_good (TcpConnection_new tid loop name fd wcb hcb)"
  using assms
  by (simp add: conn_good_def conn_sound_def TcpConnection_new_def Channel_new_def handlers_set_def
      Channel_setReadCallback_def Channel_setWriteCallback_def Channel_setCloseCallback_def
      Channel_setErrorCallback_def conn_live_def conn_isWriting_def Channel_isWriting_def chan_script_def
      conn_life_def script_result_def conn_table_def fin_ok_def log_ok_def kInitialSize_def max_size_def
      kCheapPrepend_def)

lemma conn_fd_new: "ch_fd (tc_channel (TcpConnection_new tid loop name fd wcb hcb)) = fd"
  by (simp add: TcpConnection_new_def Channel_new_def Channel_setReadCallback_def Channel_setWriteCallback_def
      Channel_setCloseCallback_def Channel_setErrorCallback_def)

lemma conn_life_good:
  assumes "0 \<le> fd" and "kernel_lawful kern" and "user_ok user"
    and "conn_run_allowed kern user (TcpConnection_new tid loop name fd wcb hcb) ops"
  shows "done_unless (refuses kern) conn_good (foldR (conn_step kern user) (TcpConnection_new tid loop name fd wcb hcb) ops)"
  using conn_run_good [OF TcpConnection_new_good [OF assms(1)] assms(2-4)]
  unfolding keeps_id_def by (rule done_unless_mono) simp


section \<open>What a send takes\<close>

lemma append_accepted:
  "sendInLoop_append bytes c = Inr c' \<Longrightarrow> tc_accepted c' = tc_accepted c \<and> tc_failures c' = tc_failures c"
  by (auto simp: sendInLoop_append_def conn_channel_def cassert_def andThen_eq_Inr Let_def split: if_splits)

lemma queue_accepted:
  "sendInLoop_queue mem off nwrote remaining c = Inr c' \<Longrightarrow>
     tc_accepted c' = tc_accepted c \<and> tc_failures c' = tc_failures c"
  by (auto simp: sendInLoop_queue_def highWater_fields andThen_eq_Inr Let_def dest!: append_accepted simp: sendInLoop_highWater_def conn_queue_def)

text \<open>The peer is gone when the direct write says so.\<close>

definition peer_gone :: "kernel_write \<Rightarrow> tcp_connection \<Rightarrow> nat \<Rightarrow> int \<Rightarrow> bool" where
  "peer_gone kern c len e \<longleftrightarrow> Buffer_readableBytes (tc_output c) = 0 \<and>
     kern True (tc_writes c) len = Write_failed e \<and> (e = EPIPE \<or> e = ECONNRESET)"

text \<open>What a send does to the connection: the bytes are taken, or the write is counted and noted.\<close>

definition send_outcome :: "kernel_write \<Rightarrow> char list \<Rightarrow> tcp_connection \<Rightarrow> tcp_connection \<Rightarrow> bool" where
  "send_outcome kern bytes c c' \<longleftrightarrow>
     tc_accepted c' = tc_accepted c @ bytes \<and> tc_failures c' = tc_failures c \<or>
     (\<exists>e. peer_gone kern c (length bytes) e \<and>
        c' = c\<lparr>tc_writes := Suc (tc_writes c), tc_failures := tc_failures c @ [(True, e)]\<rparr>)"

lemma sendInLoop_direct_result:
  assumes run: "sendInLoop_direct kern mem off len c = Inr (nwrote, remaining, faultError, c1)"
    and mem: "0 \<le> off" "off + int len \<le> int (length mem)" and handled: "\<not> send_refused kern c len"
  shows "tc_accepted c1 = tc_accepted c"
    and "if faultError then \<exists>e. peer_gone kern c len e \<and>
           c1 = c\<lparr>tc_writes := Suc (tc_writes c), tc_failures := tc_failures c @ [(True, e)]\<rparr>
         else tc_failures c1 = tc_failures c"
proof -
  have bytes: "mem_range mem off len = Inr (take len (drop (nat off) mem))" "length (take len (drop (nat off) mem)) = len"
    using mem_range_ok [OF mem] by simp_all
  have "tc_accepted c1 = tc_accepted c \<and>
      (if faultError then \<exists>e. peer_gone kern c len e \<and>
         c1 = c\<lparr>tc_writes := Suc (tc_writes c), tc_failures := tc_failures c @ [(True, e)]\<rparr>
       else tc_failures c1 = tc_failures c)"
  proof (cases "\<not> conn_isWriting c \<and> Buffer_readableBytes (tc_output c) = 0")
    case False
    then show ?thesis using run by (auto simp: sendInLoop_direct_def)
  next
    case True
    show ?thesis
    proof (cases "kern True (tc_writes c) len")
      case (Wrote n)
      then show ?thesis
        using run True bytes
        by (auto simp: sendInLoop_direct_def conn_write_def conn_queue_def Let_def)
    next
      case (Write_failed e)
      then have e: "e = EPIPE \<or> e = ECONNRESET"
        using True handled by (auto simp: send_refused_def mishandled_def)
      then show ?thesis
        using run True bytes Write_failed
        by (auto simp: sendInLoop_direct_def conn_write_def Let_def peer_gone_def EWOULDBLOCK_def EPIPE_def ECONNRESET_def)
    qed
  qed
  then show "tc_accepted c1 = tc_accepted c"
    and "if faultError then \<exists>e. peer_gone kern c len e \<and>
           c1 = c\<lparr>tc_writes := Suc (tc_writes c), tc_failures := tc_failures c @ [(True, e)]\<rparr>
         else tc_failures c1 = tc_failures c" by blast+
qed

lemma sendInLoop_outcome:
  assumes run: "TcpConnection_sendInLoop kern (tc_owner c) mem off len c = Inr c'"
    and st: "tc_state c \<noteq> kDisconnected" and mem: "0 \<le> off" "off + int len \<le> int (length mem)"
    and handled: "\<not> send_refused kern c len"
  shows "send_outcome kern (take len (drop (nat off) mem)) c c'"
proof -
  have len: "length (take len (drop (nat off) mem)) = len" using mem_range_ok [OF mem] by simp
  obtain nwrote remaining faultError c1
    where direct: "sendInLoop_direct kern mem off len c = Inr (nwrote, remaining, faultError, c1)"
      and rest: "if faultError then c' = c1
       else let c2 = c1\<lparr>tc_accepted := tc_accepted c1 @ take len (drop (nat off) mem)\<rparr>
         in (if 0 < remaining then sendInLoop_queue mem off nwrote remaining c2 else Inr c2) = Inr c'"
    using run st
    by (auto simp: TcpConnection_sendInLoop_def conn_in_thread_def cassert_def andThen_eq_Inr Let_def split: if_splits)
  note D = sendInLoop_direct_result [OF direct mem handled]
  show ?thesis
  proof (cases faultError)
    case True
    then show ?thesis unfolding send_outcome_def len using D(2) rest by simp
  next
    case False
    define bytes where "bytes = take len (drop (nat off) mem)"
    define c2 where "c2 = c1\<lparr>tc_accepted := tc_accepted c1 @ bytes\<rparr>"
    have "(if 0 < remaining then sendInLoop_queue mem off nwrote remaining c2 else Inr c2) = Inr c'"
      using rest False by (simp add: c2_def bytes_def Let_def split: if_splits)
    then have "tc_accepted c' = tc_accepted c2 \<and> tc_failures c' = tc_failures c2"
      using queue_accepted [of mem off nwrote remaining c2 c'] by (simp split: if_splits)
    then have "tc_accepted c' = tc_accepted c @ bytes \<and> tc_failures c' = tc_failures c"
      using D False by (simp add: c2_def)
    then show ?thesis unfolding send_outcome_def bytes_def by blast
  qed
qed

text \<open>
  C10: what \<open>send\<close> takes. While the connection is up, a send from the loop's thread takes exactly the
  bytes of the message, behind everything taken before, or finds the peer gone (\<open>EPIPE\<close>,
  \<open>ECONNRESET\<close>) and changes nothing but the account of the writes. From another thread the message is
  copied, and the functor that is queued does the same with the copy whenever the loop runs it. The
  only failure is an output buffer that cannot grow. This is for every kernel that takes no more than
  it is offered, and a message whose own direct write, if it is made, does not fail in another way:
  what \<open>EWOULDBLOCK\<close> or any other error there leads to is \<open>TcpConnection_failing_writes\<close>.
\<close>

theorem TcpConnection_send_takes_message:
  assumes inv: "conn_sound c" and up: "tc_state c = kConnected" and kern: "kernel_lawful kern" and m: "piece_ok m"
  shows "(\<not> send_refused kern c (length (piece_string m)) \<longrightarrow>
      done_with (\<lambda>c'. conn_sound c' \<and> send_outcome kern (piece_string m) c c')
        (TcpConnection_send_piece kern (tc_owner c) m c)) \<and>
    (\<forall>tid. tid \<noteq> tc_owner c \<longrightarrow>
      TcpConnection_send_piece kern tid m c = Inr (conn_queue (Send_task (piece_string m)) c)) \<and>
    (\<forall>d user. conn_sound d \<and> conn_live d \<and> \<not> send_refused kern d (length (piece_string m)) \<longrightarrow>
      done_with (\<lambda>d'. conn_sound d' \<and> send_outcome kern (piece_string m) d d')
        (conn_run_task kern user d (Send_task (piece_string m))))"
proof -
  have takes: "done_with (\<lambda>d'. conn_sound d' \<and> send_outcome kern (piece_string p) d d')
      (TcpConnection_sendInLoop_piece kern (tc_owner d) p d)"
    if p: "piece_ok p" and d: "conn_sound d" "conn_live d" "\<not> send_refused kern d (length (piece_string p))" for p d
  proof -
    have p': "0 \<le> sp_length p" "0 \<le> sp_offset p" "sp_offset p + sp_length p \<le> int (length (sp_object p))"
      "sp_length p < 2 ^ 31"
      using p by (simp_all add: piece_ok_def)
    have len: "size_of_int (sp_length p) = nat (sp_length p)" using p' by simp
    have range: "sp_offset p + int (nat (sp_length p)) \<le> int (length (sp_object p))" using p' by simp
    have st: "tc_state d \<noteq> kConnecting" "tc_state d \<noteq> kDisconnected" using d(2) by (auto simp: conn_live_def)
    have str: "piece_string p = take (nat (sp_length p)) (drop (nat (sp_offset p)) (sp_object p))"
      "length (piece_string p) = nat (sp_length p)"
      using piece_ok_length [OF p] by (simp_all add: piece_string_def)
    then have handled: "\<not> send_refused kern d (nat (sp_length p))" using d(3) by simp
    have "keeps_conn False d (TcpConnection_sendInLoop_piece kern (tc_owner d) p d)"
      by (rule send_piece_keeps [OF d(1) kern refl _ st(1) p]) (use handled in simp)
    then show ?thesis
      using sendInLoop_outcome [OF _ st(2) p'(2) range handled] str
      by (cases "TcpConnection_sendInLoop_piece kern (tc_owner d) p d")
        (auto simp: keeps_conn_def TcpConnection_sendInLoop_piece_def len)
  qed
  have str: "length (piece_string m) < 2 ^ 31"
    unfolding piece_ok_length [OF m] using m by (simp add: piece_ok_def nat_less_iff)
  have live: "conn_live c" using up by (simp add: conn_live_def)
  show ?thesis
    using takes [OF m inv live] takes [OF piece_of_string(1) [OF str]] up m
    by (simp add: TcpConnection_send_piece_def StringPiece_as_string_ok piece_of_string(2) [OF str])
qed


text \<open>A connection to try things on: the kernel takes everything at once, the user only listens.\<close>

definition all_at_once :: kernel_write where
  "all_at_once direct i len = Wrote len"

definition listener :: conn_user where
  "listener ev c = []"

lemma listener_ok: "kernel_lawful all_at_once" "user_ok listener"
  by (simp_all add: kernel_lawful_def all_at_once_def user_ok_def listener_def)

lemma all_at_once_never: "\<not> refuses all_at_once"
  by (simp add: refuses_def all_at_once_def)

lemma readable_new: "Buffer_readableBytes (Buffer_new kInitialSize) = 0"
  by (simp add: Buffer_readableBytes_def Buffer_new_def kCheapPrepend_def)

lemmas conn_eval = conn_step.simps conn_exec.simps TcpConnection_new_def TcpConnection_connectEstablished_def
  conn_in_thread_def conn_callback_def conn_channel_def is_Remove_def Channel_tie_def Channel_new_def
  TcpConnection_send_piece_def TcpConnection_sendInLoop_piece_def TcpConnection_sendInLoop_def sendInLoop_direct_def
  conn_isWriting_def Channel_isWriting_def conn_write_def mem_range_def StringPiece_of_string_def conn_queue_def
  TcpConnection_shutdown_def TcpConnection_shutdownInLoop_def conn_shutdownWrite_def TcpConnection_handleClose_def
  TcpConnection_forceClose_def TcpConnection_forceCloseInLoop_def Channel_setReadCallback_def
  Channel_setWriteCallback_def Channel_setCloseCallback_def Channel_setErrorCallback_def
  all_at_once_def listener_def readable_new read_write_disjoint Let_def

lemma TcpConnection_send_takes_message_witness:
  "\<exists>c c'. foldR (conn_step all_at_once listener) (TcpConnection_new 1 0 ''c'' 5 True False) [Establish] = Inr c \<and>
     TcpConnection_send_piece all_at_once 1 (StringPiece_of_string ''hello'') c = Inr c' \<and>
     tc_accepted c' = ''hello'' \<and> tc_wire c' = ''hello''"
proof -
  define c where "c = (case conn_step all_at_once listener (TcpConnection_new 1 0 ''c'' 5 True False) Establish of
     Inr c \<Rightarrow> c | Inl e \<Rightarrow> undefined)"
  have run: "conn_step all_at_once listener (TcpConnection_new 1 0 ''c'' 5 True False) Establish = Inr c"
    by (simp add: c_def conn_eval)
  have "conn_run_allowed all_at_once listener (TcpConnection_new 1 0 ''c'' 5 True False) [Establish]"
    by (simp add: conn_op_allowed_def TcpConnection_new_def split: sum.split)
  from conn_life_good [OF _ listener_ok this] have inv: "conn_sound c"
    using run by (simp add: conn_good_def)
  have fields: "tc_state c = kConnected" "tc_owner c = 1" "tc_accepted c = []" "tc_writes c = 0"
    "\<not> conn_isWriting c" "Buffer_readableBytes (tc_output c) = 0" "tc_wire c = []"
    by (simp_all add: c_def conn_eval)
  have m: "piece_ok (StringPiece_of_string ''hello'')" "piece_string (StringPiece_of_string ''hello'') = ''hello''"
    by (simp_all add: piece_of_string)
  have no: "\<not> peer_gone all_at_once c n e" "\<not> send_refused all_at_once c n" for n e
    by (simp_all add: peer_gone_def send_refused_def all_at_once_def)
  have "done_with (\<lambda>c'. tc_accepted c' = ''hello'')
      (TcpConnection_send_piece all_at_once 1 (StringPiece_of_string ''hello'') c)"
    using TcpConnection_send_takes_message [OF inv fields(1) listener_ok(1) m(1)] no(2)
    by (elim conjE, unfold m(2) fields(2)) (drule mp, simp, erule done_unless_mono, simp add: send_outcome_def no(1) fields(3))
  moreover have "\<exists>c'. TcpConnection_send_piece all_at_once 1 (StringPiece_of_string ''hello'') c = Inr c' \<and>
      tc_wire c' = ''hello''"
    using fields by (simp add: TcpConnection_send_piece_def TcpConnection_sendInLoop_piece_def
        TcpConnection_sendInLoop_def conn_in_thread_def sendInLoop_direct_def conn_write_def mem_range_def
        StringPiece_of_string_def all_at_once_def Let_def conn_queue_def)
  ultimately show ?thesis using run by auto
qed

section \<open>Promises over a whole life\<close>






section \<open>Draining the output\<close>

fun conn_drain :: "kernel_write \<Rightarrow> nat \<Rightarrow> tcp_connection \<Rightarrow> tcp_connection result" where
  "conn_drain kern 0 c = Inr c"
| "conn_drain kern (Suc k) c = andThen (TcpConnection_handleWrite kern (tc_owner c) c) (conn_drain kern k)"

text \<open>What one write event does when the kernel takes something.\<close>

lemma handleWrite_progress:
  assumes inv: "conn_sound c" and kern: "kernel_lawful kern" and writing: "conn_isWriting c" and live: "conn_live c"
    and n: "kern False (tc_writes c) (length (Buffer_content (tc_output c))) = Wrote n" "0 < n"
  shows "\<exists>c'. TcpConnection_handleWrite kern (tc_owner c) c = Inr c' \<and> conn_sound c' \<and> conn_frame c c' \<and>
    tc_accepted c' = tc_accepted c \<and>
    tc_wire c' @ Buffer_content (tc_output c') = tc_wire c @ Buffer_content (tc_output c) \<and>
    length (Buffer_content (tc_output c')) = length (Buffer_content (tc_output c)) - n \<and>
    tc_state c' = tc_state c \<and>
    (Buffer_content (tc_output c') = [] \<and> tc_state c = kDisconnecting \<longrightarrow> tc_fin c' \<noteq> None)"
proof -
  let ?out = "Buffer_content (tc_output c)"
  have le: "n \<le> length ?out" by (rule kernel_lawfulD [OF kern n(1)])
  have out: "Buffer_inv (tc_output c)" using inv by (simp add: conn_sound_def)
  have n64: "size_of_int (int n) = n" using Buffer_content_le_max [OF out] le by (simp add: max_size_def)
  obtain b where b: "Buffer_retrieve (tc_output c) n = Inr b" "Buffer_inv b" "Buffer_content b = drop n ?out"
    using Buffer_retrieve_ok [OF out le] by blast
  have empty: "Buffer_readableBytes b = length ?out - n"
    using b by (simp add: Buffer_readableBytes_eq Buffer_inv_wf)
  have "\<exists>c'. TcpConnection_handleWrite kern (tc_owner c) c = Inr c' \<and> tc_accepted c' = tc_accepted c \<and>
      tc_output c' = b \<and> tc_wire c' = tc_wire c @ take n ?out \<and> tc_state c' = tc_state c \<and>
      (n = length ?out \<and> tc_state c = kDisconnecting \<longrightarrow> tc_fin c' \<noteq> None)"
    using writing n b(1) n64 le
    by (auto simp: TcpConnection_handleWrite_def conn_in_thread_def conn_write_def Let_def empty conn_channel_def
        is_Remove_def conn_queue_def TcpConnection_shutdownInLoop_def conn_isWriting_def Channel_isWriting_op
        conn_shutdownWrite_def simp del: op_events.simps split: option.splits)
  then obtain c' where "TcpConnection_handleWrite kern (tc_owner c) c = Inr c'" "tc_accepted c' = tc_accepted c"
      "tc_output c' = b" "tc_wire c' = tc_wire c @ take n ?out" "tc_state c' = tc_state c"
      "n = length ?out \<and> tc_state c = kDisconnecting \<longrightarrow> tc_fin c' \<noteq> None" by blast
  moreover from this handleWrite_keeps [OF inv kern] have "conn_sound c'" "conn_frame c c'"
    by (simp_all add: keeps_conn_def)
  ultimately show ?thesis using b(3) le by auto
qed

lemma drain_empty:
  assumes "conn_sound c" and "conn_live c" and "Buffer_content (tc_output c) = []"
  shows "conn_drain kern k c = Inr c"
proof -
  have "\<not> conn_isWriting c" using assms by (simp add: conn_sound_def)
  then have "TcpConnection_handleWrite kern (tc_owner c) c = Inr c"
    by (simp add: TcpConnection_handleWrite_def conn_in_thread_def)
  then show ?thesis by (induction k) simp_all
qed

lemma drain_all:
  assumes "conn_sound c" and kern: "kernel_ok kern" and "conn_live c"
    and room: "\<And>i len. 0 < len \<Longrightarrow> kern False i len \<noteq> Wrote 0"
    and "length (Buffer_content (tc_output c)) \<le> k"
  shows "\<exists>c'. conn_drain kern k c = Inr c' \<and> conn_sound c' \<and> tc_accepted c' = tc_accepted c \<and>
    tc_wire c' = tc_wire c @ Buffer_content (tc_output c) \<and>
    Buffer_content (tc_output c') = [] \<and> tc_state c' = tc_state c \<and>
    (tc_state c = kDisconnecting \<and> Buffer_content (tc_output c) \<noteq> [] \<longrightarrow> tc_fin c' \<noteq> None)"
  using assms(1,3,5)
proof (induction k arbitrary: c)
  case (Suc k)
  show ?case
  proof (cases "Buffer_content (tc_output c) = []")
    case True
    then show ?thesis using drain_empty [OF Suc.prems(1,2) True, of kern "Suc k"] Suc.prems(1) by simp
  next
    case False
    then have writing: "conn_isWriting c" using Suc.prems by (simp add: conn_sound_def)
    have lawful: "kernel_lawful kern" "\<not> refuses kern" using kern by (simp_all add: kernel_ok_iff)
    obtain n where n: "kern False (tc_writes c) (length (Buffer_content (tc_output c))) = Wrote n"
      using lawful(2) by (cases "kern False (tc_writes c) (length (Buffer_content (tc_output c)))")
        (auto simp: refuses_def mishandled_def)
    then have pos: "0 < n" using room [of "length (Buffer_content (tc_output c))"] False by (cases n) auto
    from handleWrite_progress [OF Suc.prems(1) lawful(1) writing Suc.prems(2) n pos] obtain d where
      d: "TcpConnection_handleWrite kern (tc_owner c) c = Inr d" "conn_sound d" "tc_accepted d = tc_accepted c"
        "tc_wire d @ Buffer_content (tc_output d) = tc_wire c @ Buffer_content (tc_output c)"
        "length (Buffer_content (tc_output d)) = length (Buffer_content (tc_output c)) - n"
        "tc_state d = tc_state c"
        "Buffer_content (tc_output d) = [] \<and> tc_state c = kDisconnecting \<longrightarrow> tc_fin d \<noteq> None"
      by blast
    have up: "conn_live d" using Suc.prems(2) d(6) by (simp add: conn_live_def)
    show ?thesis
    proof (cases "Buffer_content (tc_output d) = []")
      case True
      then show ?thesis using d drain_empty [OF d(2) up True, of kern k] by simp
    next
      case rest: False
      have "length (Buffer_content (tc_output d)) \<le> k" using d(5) pos Suc.prems(3) by simp
      from Suc.IH [OF d(2) up this] rest d show ?thesis by auto
    qed
  qed
qed simp

text \<open>
  C15: what was taken gets out. While the connection is up, if every write event finds room for at
  least one byte, as many write events as there are bytes in the output buffer put all of them on
  the wire; then the channel no longer waits for writability, and a connection that is being shut
  down has sent its end of stream after the last byte, without anything having failed.
\<close>

theorem TcpConnection_output_drains:
  assumes inv: "conn_inv c" and kern: "kernel_ok kern" and live: "tc_state c = kConnected \<or> tc_state c = kDisconnecting"
    and room: "\<And>i len. 0 < len \<Longrightarrow> kern False i len \<noteq> Wrote 0"
    and k: "Buffer_readableBytes (tc_output c) \<le> k"
  shows "\<exists>c'. conn_drain kern k c = Inr c' \<and> tc_wire c' = tc_accepted c \<and>
    Buffer_readableBytes (tc_output c') = 0 \<and> \<not> conn_isWriting c' \<and> tc_state c' = tc_state c \<and>
    (tc_state c = kDisconnecting \<and> Buffer_readableBytes (tc_output c) \<noteq> 0 \<longrightarrow> tc_fin c' \<noteq> None)"
proof -
  have sound: "conn_sound c" and stream: "tc_wire c @ Buffer_content (tc_output c) = tc_accepted c"
    using inv by (simp_all add: conn_inv_def)
  have "conn_live c" "length (Buffer_content (tc_output c)) \<le> k"
    using live k by (simp_all add: conn_live_def conn_sound_output [OF sound])
  from drain_all [OF sound kern this(1) room this(2)] obtain c' where c': "conn_drain kern k c = Inr c'" "conn_sound c'"
    "tc_wire c' = tc_accepted c" "Buffer_content (tc_output c') = []" "tc_state c' = tc_state c"
    "tc_state c = kDisconnecting \<and> Buffer_content (tc_output c) \<noteq> [] \<longrightarrow> tc_fin c' \<noteq> None"
    unfolding stream by blast
  moreover have "\<not> conn_isWriting c'" using c' live by (auto simp: conn_sound_def conn_live_def)
  ultimately show ?thesis using sound by (auto simp: conn_sound_output)
qed

text \<open>A connection shutting down with three bytes to go, and a kernel that takes one or two at a time.\<close>

definition slowly :: kernel_write where
  "slowly direct i len = Wrote (min len (Suc (i mod 2)))"

definition conn_closing :: tcp_connection where
  "conn_closing = (TcpConnection_new 1 0 ''c'' 5 False False)\<lparr>tc_state := kDisconnecting,
     tc_channel := (tc_channel (TcpConnection_new 1 0 ''c'' 5 False False))
        \<lparr>ch_events := kReadEvent OR kWriteEvent, ch_addedToLoop := True\<rparr>,
     tc_chan_ops := [Enable_reading 0, Enable_writing 0],
     tc_output := \<lparr>bufdata = replicate 8 CHR 0x00 @ ''abc'', readerIndex = 8, writerIndex = 11\<rparr>,
     tc_accepted := ''abc''\<rparr>"

lemma conn_closing_inv: "conn_inv conn_closing"
  using interest_word_op [OF interest_word_op [OF interest_word_zero], of "Enable_writing 0" "Enable_reading 0"]
  by (simp add: Buffer_new_def conn_inv_def conn_sound_def conn_closing_def TcpConnection_new_def Channel_new_def handlers_set_def
      Channel_setReadCallback_def Channel_setWriteCallback_def Channel_setCloseCallback_def
      Channel_setErrorCallback_def conn_live_def conn_isWriting_def Channel_isWriting_def chan_script_def
      conn_life_def script_result_def conn_table_def fin_ok_def kInitialSize_def max_size_def
      kCheapPrepend_def op_allowed_def op_result_def is_Remove_def fd_free_def read_write_disjoint
      Buffer_inv_def Buffer_wf_def Buffer_content_def)

lemma TcpConnection_output_drains_witness:
  "\<exists>c'. conn_drain slowly 3 conn_closing = Inr c' \<and> tc_wire c' = ''abc'' \<and> tc_fin c' \<noteq> None"
proof -
  have "kernel_ok slowly" by (simp add: kernel_ok_def slowly_def)
  moreover have "tc_state conn_closing = kConnected \<or> tc_state conn_closing = kDisconnecting"
    by (simp add: conn_closing_def)
  moreover have "slowly False i len \<noteq> Wrote 0" if "0 < len" for i len
    using that by (simp add: slowly_def)
  moreover have "Buffer_readableBytes (tc_output conn_closing) = 3"
    by (simp add: conn_closing_def Buffer_readableBytes_def)
  moreover have "tc_accepted conn_closing = ''abc''" "tc_state conn_closing = kDisconnecting"
    by (simp_all add: conn_closing_def)
  ultimately show ?thesis
    using TcpConnection_output_drains [OF conn_closing_inv, of slowly 3] by auto
qed


section \<open>The channel\<close>

text \<open>
  C13: the connection keeps to the contract of the loop. The operations a connection makes on its
  channel over any life within the contract (\<open>conn_run_allowed\<close>, \<open>user_ok\<close>; a connection is destroyed
  only when it is up or down, not half closed), made through its loop in the loop's thread, never fail
  unless the kernel refuses the descriptor (\<open>epoll_ctl\<close>), and at the end the epoll instance watches the
  connection's descriptor for exactly the events of the channel when it is registered and asks for
  some, and does not report the descriptor to anybody once the connection is removed. Writes may fail
  in any way in that life, as long as the kernel takes no more than it is offered.
\<close>

theorem TcpConnection_channel_watched:
  fixes L :: "('g, 'k epoll_poller) event_loop" and h :: "'f channels"
  assumes fd: "0 \<le> fd" and kern: "kernel_lawful kern" and user: "user_ok user"
    and allowed: "conn_run_allowed kern user (TcpConnection_new tid self name fd wcb hcb) ops"
    and life: "foldR (conn_step kern user) (TcpConnection_new tid self name fd wcb hcb) ops = Inr c"
    and h: "h = [0 \<mapsto> Channel_new self fd]"
    and K: "epoll_instance ctl wait interest" and loop: "L = EventLoop_new tid ep"
    and new: "EPollPoller_new tid epollfd k = Inr ep" "interest k = Map.empty"
    and run: "foldR (chan_exec (EventLoop_updateChannel (EPollPoller_updateChannel ctl tid) self tid)
                (EventLoop_removeChannel (EPollPoller_removeChannel ctl tid) self tid))
                (h, L) (tc_chan_ops c) \<noteq> Inl Log_fatal"
  shows "\<exists>h' L'.
    foldR (chan_exec (EventLoop_updateChannel (EPollPoller_updateChannel ctl tid) self tid)
        (EventLoop_removeChannel (EPollPoller_removeChannel ctl tid) self tid))
        (h, L) (tc_chan_ops c) = Inr (h', L') \<and>
    (ch_addedToLoop (tc_channel c) \<and> ch_events (tc_channel c) \<noteq> 0 \<longrightarrow>
       interest (ep_kernel (el_poller L')) fd = Some (ch_events (tc_channel c), 0)) \<and>
    (\<forall>p ev. interest (ep_kernel (el_poller L')) fd = Some (ev, p) \<longrightarrow>
       ch_addedToLoop (tc_channel c) \<and> ev = ch_events (tc_channel c) \<and> p = 0)"
proof -
  let ?E = "conn_table fd"
  have "conn_good c" "ch_fd (tc_channel c) = fd"
    using conn_run_good [OF TcpConnection_new_good [OF fd] kern user allowed] life
    by (simp_all add: keeps_id_def same_conn_def conn_fd_new)
  then have script: "script_allowed True (tc_chan_ops c) ?E"
    and result: "script_result True (tc_chan_ops c) ?E = [0 \<mapsto> (fd, ch_events (tc_channel c), conn_life True c)]"
    and added: "ch_addedToLoop (tc_channel c) \<longrightarrow> tc_chan_ops c \<noteq> []"
    by (simp_all add: conn_good_def conn_sound_def chan_script_def)
  have lp: "loop_poller (epoll_rep interest tid) (EPollPoller_updateChannel ctl tid)
      (EPollPoller_removeChannel ctl tid) True True"
    using EPollPoller_is_poller [OF K] by (rule loop_poller.intro)
  have rep0: "loop_rep (epoll_rep interest tid) self tid h L Map.empty"
    using EPollPoller_new_rep [where interest = interest and h = h, OF new]
    by (simp add: h loop loop_rep_def EventLoop_new_def Channel_new_def)
  have start: "unregistered h ?E"
    by (simp add: h unregistered_def conn_table_def Channel_new_def)
  obtain h' L' W where r: "foldR (chan_exec (EventLoop_updateChannel (EPollPoller_updateChannel ctl tid) self tid)
        (EventLoop_removeChannel (EPollPoller_removeChannel ctl tid) self tid))
        (h, L) (tc_chan_ops c) = Inr (h', L')"
      and rep: "loop_rep (epoll_rep interest tid) self tid h' L' W"
      and rel: "stands_for h' W (script_result True (tc_chan_ops c) ?E)"
    using poller.script_refines [OF loop_poller.loop_is_poller [OF lp] rep0 unregistered_stands_for [OF start] script]
      run by blast
  note W = stands_for_watch [OF rel, unfolded result]
  have ep: "epoll_rep interest tid h' (el_poller L') W" using rep by (simp add: loop_rep_def)
  have into: "interest (ep_kernel (el_poller L')) fd = Some (ch_events (tc_channel c), 0)"
    if "ch_addedToLoop (tc_channel c)" "ch_events (tc_channel c) \<noteq> 0"
    using epoll_rep_watched [OF ep, of fd 0 "ch_events (tc_channel c)"] W that added
    by (auto simp: conn_life_def)
  have out: "ch_addedToLoop (tc_channel c) \<and> ev = ch_events (tc_channel c) \<and> p = 0"
    if "interest (ep_kernel (el_poller L')) fd = Some (ev, p)" for p ev
    using epoll_rep_listed [OF ep that] W by (auto simp: conn_life_def split: if_splits)
  show ?thesis using r into out by blast
qed


lemma TcpConnection_channel_watched_witness:
  "\<exists>c h' L'. foldR (conn_step all_at_once listener) (TcpConnection_new 9 0 ''c'' 5 False False) [Establish] = Inr c \<and>
     foldR (chan_exec (EventLoop_updateChannel (EPollPoller_updateChannel list_ctl 9) 0 9)
        (EventLoop_removeChannel (EPollPoller_removeChannel list_ctl 9) 0 9))
      ([0 \<mapsto> Channel_new 0 5],
       EventLoop_new 9 \<lparr>po_channels = [], po_owner = 9, ep_kernel = Map.empty, ep_events_size = 16\<rparr>)
      (tc_chan_ops c) = Inr (h', L') \<and>
    ep_kernel (el_poller L') 5 = Some (kReadEvent, 0)"
proof -
  define h :: "'a channels" where "h = [0 \<mapsto> Channel_new 0 5]"
  define ep :: "(int \<Rightarrow> epoll_event option) epoll_poller" where
    "ep = \<lparr>po_channels = [], po_owner = 9, ep_kernel = Map.empty, ep_events_size = 16\<rparr>"
  define L :: "('b, (int \<Rightarrow> epoll_event option) epoll_poller) event_loop" where "L = EventLoop_new 9 ep"
  have new: "EPollPoller_new 9 3 Map.empty = Inr ep"
    by (simp add: EPollPoller_new_def ep_def kInitEventListSize_def)
  have allowed: "conn_run_allowed all_at_once listener (TcpConnection_new 9 0 ''c'' 5 False False) [Establish]"
    by (simp add: conn_op_allowed_def TcpConnection_new_def split: sum.split)
  obtain c where life: "foldR (conn_step all_at_once listener) (TcpConnection_new 9 0 ''c'' 5 False False) [Establish] = Inr c"
    and c: "tc_chan_ops c = [Enable_reading 0]" "ch_events (tc_channel c) = kReadEvent" "ch_addedToLoop (tc_channel c)"
    by (simp add: conn_eval)
  have run: "foldR (chan_exec (EventLoop_updateChannel (EPollPoller_updateChannel list_ctl 9) 0 9)
        (EventLoop_removeChannel (EPollPoller_removeChannel list_ctl 9) 0 9)) (h, L) (tc_chan_ops c) \<noteq> Inl Log_fatal"
    by (simp add: c h_def ep_def L_def epoll_eval EventLoop_updateChannel_def EventLoop_removeChannel_def
        EventLoop_assertInLoopThread_def EventLoop_isInLoopThread_def EventLoop_new_def)
  obtain h' L' where "foldR (chan_exec (EventLoop_updateChannel (EPollPoller_updateChannel list_ctl 9) 0 9)
        (EventLoop_removeChannel (EPollPoller_removeChannel list_ctl 9) 0 9)) (h, L) (tc_chan_ops c) = Inr (h', L')"
    "ch_addedToLoop (tc_channel c) \<and> ch_events (tc_channel c) \<noteq> 0 \<longrightarrow>
       ep_kernel (el_poller L') 5 = Some (ch_events (tc_channel c), 0)"
    using TcpConnection_channel_watched [OF _ listener_ok allowed life h_def
        interest_list.epoll_instance_axioms [of "[]"] L_def new refl run] by auto
  then show ?thesis
    using life c unfolding h_def [symmetric] ep_def [symmetric] L_def [symmetric]
    by (auto simp: kReadEvent_def poll_bits)
qed

end
