(* ===== verification/Conn_Errors.thy ===== *)
theory Conn_Errors
  imports Conn_Properties
begin

text \<open>
  What a connection (\<open>Tcp_Connection\<close>) does outside the contract of \<open>Conn_Properties\<close>: a write fails, a
  half-closed connection is destroyed.
\<close>

section \<open>What goes wrong\<close>

lemma direct_failed:
  assumes inv: "conn_inv c" and idle: "\<not> conn_isWriting c" and live: "tc_state c = kConnected \<or> tc_state c = kDisconnecting"
    and mem: "0 \<le> off" "off + int len \<le> int (length mem)"
    and k: "kern True (tc_writes c) len = Write_failed e" and e: "e \<noteq> EPIPE" "e \<noteq> ECONNRESET"
  shows "sendInLoop_direct kern mem off len c = Inr (-1, int len, False,
    c\<lparr>tc_writes := Suc (tc_writes c), tc_failures := tc_failures c @ [(True, e)]\<rparr>)"
proof -
  have sound: "conn_sound c" using inv by (simp add: conn_inv_def)
  have "Buffer_content (tc_output c) = []"
    using inv live idle by (auto simp: conn_inv_def conn_sound_def conn_live_def)
  then have "Buffer_readableBytes (tc_output c) = 0" using conn_sound_output [OF sound] by simp
  then show ?thesis
    using idle k e mem_range_ok [OF mem] by (simp add: sendInLoop_direct_def conn_write_def)
qed

text \<open>
  C34: failing writes are handled wrongly. When the direct write of a send fails with an error other
  than \<open>EPIPE\<close> or \<open>ECONNRESET\<close> (\<open>EWOULDBLOCK\<close>: the socket is full), \<open>nwrote\<close> is still -1 and the
  output buffer gets the bytes from one before the message to one before its last byte; for a message
  that is at the start of its object, as a \<open>std::string\<close> is, the read is out of bounds. When a write
  from the output buffer fails, \<open>n\<close> is the largest \<open>size_t\<close> and the assertion of \<open>Buffer::retrieve\<close>
  fails.
\<close>

theorem TcpConnection_failing_writes:
  assumes inv: "conn_inv c" and live: "tc_state c = kConnected \<or> tc_state c = kDisconnecting"
    and e: "e \<noteq> EPIPE" "e \<noteq> ECONNRESET"
  shows "(\<not> conn_isWriting c \<and> 0 < len \<and> 1 \<le> off \<and> off + int len \<le> int (length mem) \<and>
        Buffer_fits (tc_output c) len \<and> kern True (tc_writes c) len = Write_failed e \<longrightarrow>
        (\<exists>c'. TcpConnection_sendInLoop kern (tc_owner c) mem off len c = Inr c' \<and>
           Buffer_content (tc_output c') = take len (drop (nat off - 1) mem) \<and>
           tc_accepted c' = tc_accepted c @ take len (drop (nat off) mem))) \<and>
    (\<not> conn_isWriting c \<and> 0 < length str \<and> length str < 2 ^ 31 \<and>
        kern True (tc_writes c) (length str) = Write_failed e \<longrightarrow>
        TcpConnection_sendInLoop_piece kern (tc_owner c) (StringPiece_of_string str) c = Inl Undefined_behaviour) \<and>
    (conn_isWriting c \<and> kern False (tc_writes c) (Buffer_readableBytes (tc_output c)) = Write_failed e' \<longrightarrow>
        TcpConnection_handleWrite kern (tc_owner c) c = Inl Assert_failed)"
proof (intro conjI impI; elim conjE)
  assume idle: "\<not> conn_isWriting c" and len: "0 < len" "Buffer_fits (tc_output c) len"
    and off: "1 \<le> off" "off + int len \<le> int (length mem)" and k: "kern True (tc_writes c) len = Write_failed e"
  have out: "Buffer_inv (tc_output c)" "Buffer_content (tc_output c) = []"
    using inv live idle by (auto simp: conn_inv_def conn_sound_def conn_live_def)
  have small: "len \<le> max_size" by (rule Buffer_fits_small [OF len(2)])
  have direct: "sendInLoop_direct kern mem off len c = Inr (-1, int len, False,
    c\<lparr>tc_writes := Suc (tc_writes c), tc_failures := tc_failures c @ [(True, e)]\<rparr>)"
    by (rule direct_failed [where kern = kern and off = off and mem = mem and len = len, OF inv idle live _ off(2) k e])
      (use off in simp)
  define c2 where "c2 = c\<lparr>tc_writes := Suc (tc_writes c), tc_failures := tc_failures c @ [(True, e)],
    tc_accepted := tc_accepted c @ take len (drop (nat off) mem)\<rparr>"
  define bytes where "bytes = take len (drop (nat off - 1) mem)"
  have "nat (off + -1) = nat off - 1" using off(1) by simp
  then have range: "mem_range mem (off + -1) len = Inr bytes" "length bytes = len"
    using mem_range_ok [of "off + -1" len mem] off by (simp_all add: bytes_def)
  obtain d where d: "sendInLoop_highWater (Buffer_readableBytes (tc_output c2)) (size64 (Buffer_readableBytes (tc_output c2) + len)) c2 = d"
    "tc_output d = tc_output c" "tc_accepted d = tc_accepted c2"
    by (simp add: highWater_fields c2_def)
  obtain b where b: "Buffer_append (tc_output c) bytes len = Inr b" "Buffer_content b = bytes"
    using Buffer_append_ok [OF out(1) _ len(2), of bytes] range(2) out(2) by auto
  have "\<exists>c'. sendInLoop_append bytes d = Inr c' \<and> tc_output c' = b \<and> tc_accepted c' = tc_accepted c2"
    using b(1) d range(2) by (simp add: sendInLoop_append_def conn_channel_def is_Remove_def Let_def)
  then obtain c' where c': "sendInLoop_queue mem off (-1) (int len) c2 = Inr c'" "tc_output c' = b"
    "tc_accepted c' = tc_accepted c2"
    using range(1) d(1) small by (auto simp: sendInLoop_queue_def Let_def max_size_def)
  have "TcpConnection_sendInLoop kern (tc_owner c) mem off len c = Inr c'"
    using live direct c'(1) len(1) small
    by (auto simp: TcpConnection_sendInLoop_def conn_in_thread_def c2_def max_size_def)
  then show "\<exists>c'. TcpConnection_sendInLoop kern (tc_owner c) mem off len c = Inr c' \<and>
      Buffer_content (tc_output c') = take len (drop (nat off - 1) mem) \<and>
      tc_accepted c' = tc_accepted c @ take len (drop (nat off) mem)"
    using c' b(2) by (simp add: bytes_def c2_def)
next
  assume idle: "\<not> conn_isWriting c" and str: "0 < length str" "length str < 2 ^ 31"
    and k: "kern True (tc_writes c) (length str) = Write_failed e"
  let ?m = "StringPiece_of_string str"
  have m: "sp_offset ?m = 0" "size_of_int (sp_length ?m) = length str" "length str \<le> length (sp_object ?m)"
    using str by (simp_all add: StringPiece_of_string_def)
  have direct: "sendInLoop_direct kern (sp_object ?m) 0 (length str) c =
      Inr (-1, int (length str), False,
        c\<lparr>tc_writes := Suc (tc_writes c), tc_failures := tc_failures c @ [(True, e)]\<rparr>)"
    by (rule direct_failed [where kern = kern and len = "length str", OF inv idle live _ _ k e]) (use m(3) in simp_all)
  show "TcpConnection_sendInLoop_piece kern (tc_owner c) ?m c = Inl Undefined_behaviour"
    using live direct str m
    by (auto simp: TcpConnection_sendInLoop_piece_def TcpConnection_sendInLoop_def conn_in_thread_def
        sendInLoop_queue_def Let_def mem_range_def)
next
  assume writing: "conn_isWriting c"
    and k: "kern False (tc_writes c) (Buffer_readableBytes (tc_output c)) = Write_failed e'"
  have sound: "conn_sound c" and out: "Buffer_inv (tc_output c)" using inv by (simp_all add: conn_inv_def conn_sound_def)
  have "Buffer_retrieve (tc_output c) (size_of_int (-1)) = Inl Assert_failed"
    using Buffer_content_le_max [OF out]
    by (simp add: Buffer_retrieve_def Buffer_readableBytes_eq Buffer_inv_wf [OF out] max_size_def size_of_int_def)
  then show "TcpConnection_handleWrite kern (tc_owner c) c = Inl Assert_failed"
    using writing k conn_sound_output [OF sound]
    by (simp add: TcpConnection_handleWrite_def conn_in_thread_def conn_write_def Let_def size_of_int_def)
qed

lemma TcpConnection_failing_writes_witness:
  "\<exists>c c'. foldR (conn_step (\<lambda>direct i len. Write_failed EWOULDBLOCK) listener)
       (TcpConnection_new 1 0 ''c'' 5 True False) [Establish] = Inr c \<and>
     TcpConnection_sendInLoop (\<lambda>direct i len. Write_failed EWOULDBLOCK) 1 ''xhello'' 1 5 c = Inr c' \<and>
     Buffer_content (tc_output c') = ''xhell'' \<and> tc_accepted c' = ''hello'' \<and>
     TcpConnection_sendInLoop_piece (\<lambda>direct i len. Write_failed EWOULDBLOCK) 1 (StringPiece_of_string ''hello'') c =
       Inl Undefined_behaviour \<and>
     TcpConnection_handleWrite (\<lambda>direct i len. Write_failed EWOULDBLOCK) 1 conn_closing = Inl Assert_failed"
proof -
  define full :: kernel_write where "full = (\<lambda>direct i len. Write_failed EWOULDBLOCK)"
  define c where "c = (case conn_step all_at_once listener (TcpConnection_new 1 0 ''c'' 5 True False) Establish of
     Inr c \<Rightarrow> c | Inl e \<Rightarrow> undefined)"
  have run: "conn_step full listener (TcpConnection_new 1 0 ''c'' 5 True False) Establish = Inr c"
    and run1: "conn_step all_at_once listener (TcpConnection_new 1 0 ''c'' 5 True False) Establish = Inr c"
    by (simp_all add: c_def conn_eval)
  have "conn_run_allowed all_at_once listener (TcpConnection_new 1 0 ''c'' 5 True False) [Establish]"
    by (simp add: conn_op_allowed_def TcpConnection_new_def split: sum.split)
  from conn_life_good [OF _ listener_ok this] have "conn_sound c"
    using run1 by (simp add: conn_good_def)
  then have inv: "conn_inv c"
    by (rule conn_sound_inv) (simp add: c_def conn_eval)
  have up: "tc_state c = kConnected \<or> tc_state c = kDisconnecting"
    and fields: "tc_owner c = 1" "tc_accepted c = []" "\<not> conn_isWriting c" "tc_output c = Buffer_new kInitialSize"
    by (simp_all add: c_def conn_eval)
  have no: "EWOULDBLOCK \<noteq> EPIPE" "EWOULDBLOCK \<noteq> ECONNRESET"
    by (simp_all add: EWOULDBLOCK_def EPIPE_def ECONNRESET_def)
  have fits: "Buffer_fits (Buffer_new kInitialSize) 5"
    by (simp add: Buffer_fits_def Buffer_content_def Buffer_new_def kCheapPrepend_def max_size_def)
  have down: "tc_state conn_closing = kConnected \<or> tc_state conn_closing = kDisconnecting"
    and closing: "conn_isWriting conn_closing" "tc_owner conn_closing = 1"
    by (simp_all add: conn_closing_def TcpConnection_new_def conn_isWriting_def Channel_isWriting_def
        read_write_disjoint bit.conj_disj_distrib2)
  have w: "full direct i len = Write_failed EWOULDBLOCK" for direct i len by (simp add: full_def)
  obtain c' where c': "TcpConnection_sendInLoop full 1 ''xhello'' 1 5 c = Inr c'"
    "Buffer_content (tc_output c') = ''xhell''" "tc_accepted c' = ''hello''"
    using TcpConnection_failing_writes [OF inv up no, of 5 1 "''xhello''" full "[]"] fields fits w by auto
  moreover have "TcpConnection_sendInLoop_piece full 1 (StringPiece_of_string ''hello'') c = Inl Undefined_behaviour"
    using TcpConnection_failing_writes [OF inv up no, of 5 1 "''xhello''" full "''hello''"] fields w by simp
  moreover have "TcpConnection_handleWrite full 1 conn_closing = Inl Assert_failed"
    using TcpConnection_failing_writes [OF conn_closing_inv down no, of 5 1 "''xhello''" full "''hello''" EWOULDBLOCK]
      closing w by simp
  ultimately show ?thesis using run unfolding full_def [symmetric] by auto
qed

text \<open>
  What \<open>connectDestroyed\<close> stops. \<open>~TcpServer\<close> and \<open>~TcpClient\<close> hand every connection to
  \<open>connectDestroyed\<close>, which disables the channel only in state \<open>kConnected\<close>: a connection that is
  being shut down and still waits for the peer (or any connection whose reading was started again
  after it went down) fails the assertion of \<open>Channel::remove\<close>; with no event asked for it is removed.
\<close>

theorem TcpConnection_destroyed_half_closed:
  assumes "tc_state c \<noteq> kConnected" and "Channel_isNoneEvent (tc_channel c) \<longleftrightarrow> quiet"
  shows "TcpConnection_connectDestroyed kern user (tc_owner c) c =
    (if quiet then Inr (c\<lparr>tc_channel := (tc_channel c)\<lparr>ch_addedToLoop := False\<rparr>,
                          tc_chan_ops := tc_chan_ops c @ [Remove 0]\<rparr>)
     else Inl Assert_failed)"
proof -
  have "(tc_channel c)\<lparr>ch_events := ch_events (tc_channel c), ch_addedToLoop := False\<rparr> =
      (tc_channel c)\<lparr>ch_addedToLoop := False\<rparr>" by (cases "tc_channel c") simp
  then show ?thesis
    using assms by (simp add: TcpConnection_connectDestroyed_def conn_in_thread_def conn_channel_def is_Remove_def
        cassert_def)
qed

lemma TcpConnection_destroyed_half_closed_witness:
  "\<exists>c. foldR (conn_step all_at_once listener) (TcpConnection_new 1 0 ''c'' 5 True False)
       [Establish, Call 1 Do_shutdown] = Inr c \<and>
     TcpConnection_connectDestroyed all_at_once listener 1 c = Inl Assert_failed"
proof -
  obtain c where c: "foldR (conn_step all_at_once listener) (TcpConnection_new 1 0 ''c'' 5 True False)
       [Establish, Call 1 Do_shutdown] = Inr c" "tc_state c = kDisconnecting" "tc_owner c = 1"
       "ch_events (tc_channel c) = kReadEvent"
    by (simp add: conn_eval)
  have "\<not> Channel_isNoneEvent (tc_channel c)"
    using c(4) by (simp add: Channel_isNoneEvent_def kReadEvent_def poll_bits)
  then show ?thesis
    using c TcpConnection_destroyed_half_closed [of c False all_at_once listener] by auto
qed

end
