(* ===== verification/Connector.thy ===== *)
theory Connector
  imports Poller Errno
begin

text \<open>
  \<open>src/muduo/net/Connector.h\<close>, \<open>Connector.cpp\<close>: connecting to a server, with retries.

  \<open>net\<close> is the system: \<open>net i\<close> is the descriptor that the \<open>i\<close>-th \<open>socket(2)\<close> returns and the \<open>errno\<close>
  of the \<open>connect(2)\<close> on it (0 when it succeeds at once). The record holds the members, the functors
  queued in the loop, the delays of the pending timers, and in \<open>cn_log\<close> what happens to sockets and
  when a retry is scheduled. The new-connection callback gets the socket: \<open>Given\<close>; what it does comes
  as later calls.
\<close>

section \<open>The object\<close>

datatype connector_state = Connector_kDisconnected | Connector_kConnecting | Connector_kConnected

datatype connector_handler = Connector_on_write | Connector_on_error

datatype connector_task = Start_in_loop | Stop_in_loop | Reset_channel

datatype connector_event = Opened int | Closed int | Given int | Retry_in int | Restarted

record connector =
  cn_owner :: int
  cn_loop :: nat
  cn_connect :: bool
  cn_state :: connector_state
  cn_channel :: "connector_handler channel option"
  cn_retryDelayMs :: int
  cn_pending :: "connector_task list"
  cn_timers :: "int list"
  cn_attempts :: nat
  cn_log :: "connector_event list"

definition kMaxRetryDelayMs :: int where "kMaxRetryDelayMs = 30 * 1000"
definition kInitRetryDelayMs :: int where "kInitRetryDelayMs = 500"

definition Connector_new :: "int \<Rightarrow> nat \<Rightarrow> connector" where
  "Connector_new tid loop =
     \<lparr>cn_owner = tid, cn_loop = loop, cn_connect = False, cn_state = Connector_kDisconnected,
      cn_channel = None, cn_retryDelayMs = kInitRetryDelayMs, cn_pending = [], cn_timers = [],
      cn_attempts = 0, cn_log = []\<rparr>"

definition Connector_delete :: "connector \<Rightarrow> unit result" where
  "Connector_delete c = cassert (cn_channel c = None) (Inr ())"

definition connector_in_thread :: "int \<Rightarrow> connector \<Rightarrow> 'a result \<Rightarrow> 'a result" where
  "connector_in_thread tid c m = (if tid = cn_owner c then m else Inl Log_fatal)"

definition connector_note :: "connector_event \<Rightarrow> connector \<Rightarrow> connector" where
  "connector_note ev c = c\<lparr>cn_log := cn_log c @ [ev]\<rparr>"

section \<open>Connecting\<close>

definition Connector_retry :: "int \<Rightarrow> connector \<Rightarrow> connector" where
  "Connector_retry sockfd c =
     (let c1 = (connector_note (Closed sockfd) c)\<lparr>cn_state := Connector_kDisconnected\<rparr>
      in if cn_connect c1 then
           (connector_note (Retry_in (cn_retryDelayMs c1)) c1)
             \<lparr>cn_timers := cn_timers c1 @ [cn_retryDelayMs c1],
              cn_retryDelayMs := min (cn_retryDelayMs c1 * 2) kMaxRetryDelayMs\<rparr>
         else c1)"

definition Connector_connecting :: "int \<Rightarrow> connector \<Rightarrow> connector result" where
  "Connector_connecting sockfd c =
     (let c1 = c\<lparr>cn_state := Connector_kConnecting\<rparr>
      in cassert (cn_channel c1 = None) (
         let ch = Channel_setErrorCallback Connector_on_error
                    (Channel_setWriteCallback Connector_on_write (Channel_new (cn_loop c1) sockfd));
             ch1 = ch\<lparr>ch_events := op_events (Enable_writing 0) (ch_events ch), ch_addedToLoop := True\<rparr>
         in Inr (c1\<lparr>cn_channel := Some ch1\<rparr>)))"

definition Connector_connect :: "(nat \<Rightarrow> int \<times> int) \<Rightarrow> connector \<Rightarrow> connector result" where
  "Connector_connect net c =
     (case net (cn_attempts c) of (sockfd, savedErrno) \<Rightarrow>
        let c1 = c\<lparr>cn_attempts := Suc (cn_attempts c)\<rparr>
        in if sockfd < 0 then Inl Log_fatal
           else
             let c2 = connector_note (Opened sockfd) c1
             in if savedErrno \<in> {0, EINPROGRESS, EINTR, EISCONN} then Connector_connecting sockfd c2
                else if savedErrno \<in> {EAGAIN, EADDRINUSE, EADDRNOTAVAIL, ECONNREFUSED, ENETUNREACH}
                then Inr (Connector_retry sockfd c2)
                else if savedErrno \<in> {EACCES, EPERM, EAFNOSUPPORT, EALREADY, EBADF, EFAULT, ENOTSOCK}
                then Inr (connector_note (Closed sockfd) c2)
                else Inr (connector_note (Closed sockfd) c2))"

definition Connector_startInLoop :: "(nat \<Rightarrow> int \<times> int) \<Rightarrow> int \<Rightarrow> connector \<Rightarrow> connector result" where
  "Connector_startInLoop net tid c = connector_in_thread tid c (
     cassert (cn_state c = Connector_kDisconnected) (
     if cn_connect c then Connector_connect net c else Inr c))"

definition Connector_start :: "(nat \<Rightarrow> int \<times> int) \<Rightarrow> int \<Rightarrow> connector \<Rightarrow> connector result" where
  "Connector_start net tid c =
     (let c1 = c\<lparr>cn_connect := True\<rparr>
      in if tid = cn_owner c1 then Connector_startInLoop net tid c1
         else Inr (c1\<lparr>cn_pending := cn_pending c1 @ [Start_in_loop]\<rparr>))"

definition Connector_restart :: "(nat \<Rightarrow> int \<times> int) \<Rightarrow> int \<Rightarrow> connector \<Rightarrow> connector result" where
  "Connector_restart net tid c = connector_in_thread tid c (
     Connector_startInLoop net tid
       ((connector_note Restarted c)
          \<lparr>cn_state := Connector_kDisconnected, cn_retryDelayMs := kInitRetryDelayMs, cn_connect := True\<rparr>))"

definition Connector_stop :: "connector \<Rightarrow> connector" where
  "Connector_stop c = c\<lparr>cn_connect := False, cn_pending := cn_pending c @ [Stop_in_loop]\<rparr>"

section \<open>The channel\<close>

definition Connector_removeAndResetChannel :: "connector \<Rightarrow> (int \<times> connector) result" where
  "Connector_removeAndResetChannel c =
     (case cn_channel c of
        None \<Rightarrow> Inl Undefined_behaviour
      | Some ch \<Rightarrow>
          let ch1 = ch\<lparr>ch_events := 0, ch_addedToLoop := True\<rparr>
          in cassert (Channel_isNoneEvent ch1) (
             Inr (ch_fd ch1, c\<lparr>cn_channel := Some (ch1\<lparr>ch_addedToLoop := False\<rparr>),
                              cn_pending := cn_pending c @ [Reset_channel]\<rparr>)))"

definition Connector_resetChannel :: "connector \<Rightarrow> connector" where
  "Connector_resetChannel c = c\<lparr>cn_channel := None\<rparr>"

definition Connector_stopInLoop :: "int \<Rightarrow> connector \<Rightarrow> connector result" where
  "Connector_stopInLoop tid c = connector_in_thread tid c (
     if cn_state c = Connector_kConnecting then
       andThen (Connector_removeAndResetChannel (c\<lparr>cn_state := Connector_kDisconnected\<rparr>))
         (\<lambda>(sockfd, c1). Inr (Connector_retry sockfd c1))
     else Inr c)"

text \<open>\<open>err\<close> is what \<open>getSocketError\<close> returns, \<open>self\<close> what \<open>isSelfConnect\<close> does.\<close>

definition Connector_handleWrite :: "int \<Rightarrow> bool \<Rightarrow> connector \<Rightarrow> connector result" where
  "Connector_handleWrite err self c =
     (if cn_state c = Connector_kConnecting then
        andThen (Connector_removeAndResetChannel c) (\<lambda>(sockfd, c1).
        if err \<noteq> 0 then Inr (Connector_retry sockfd c1)
        else if self then Inr (Connector_retry sockfd c1)
        else
          let c2 = c1\<lparr>cn_state := Connector_kConnected\<rparr>
          in if cn_connect c2 then Inr (connector_note (Given sockfd) c2)
             else Inr (connector_note (Closed sockfd) c2))
      else cassert (cn_state c = Connector_kDisconnected) (Inr c))"

definition Connector_handleError :: "connector \<Rightarrow> connector result" where
  "Connector_handleError c =
     (if cn_state c = Connector_kConnecting then
        andThen (Connector_removeAndResetChannel c) (\<lambda>(sockfd, c1). Inr (Connector_retry sockfd c1))
      else Inr c)"

section \<open>Running a connector\<close>

fun connector_run_task :: "(nat \<Rightarrow> int \<times> int) \<Rightarrow> connector \<Rightarrow> connector_task \<Rightarrow> connector result" where
  "connector_run_task net c Start_in_loop = Connector_startInLoop net (cn_owner c) c"
| "connector_run_task net c Stop_in_loop = Connector_stopInLoop (cn_owner c) c"
| "connector_run_task net c Reset_channel = Inr (Connector_resetChannel c)"

fun connector_invoke :: "int \<Rightarrow> bool \<Rightarrow> connector \<Rightarrow> connector_handler call \<Rightarrow> connector result" where
  "connector_invoke err self c (Event_call Connector_on_write) = Connector_handleWrite err self c"
| "connector_invoke err self c (Event_call Connector_on_error) = Connector_handleError c"
| "connector_invoke err self c (Read_call f t) = Inl Undefined_behaviour"

datatype connector_op =
    Start int | Restart int | Stop
  | Run_next                         \<comment> \<open>the loop runs the next functor of the connector\<close>
  | Timer_fires                      \<comment> \<open>the oldest timer\<close>
  | Channel_event "32 word" int bool \<comment> \<open>the events, and what \<open>getSocketError\<close> and \<open>isSelfConnect\<close> say\<close>

fun connector_step :: "(nat \<Rightarrow> int \<times> int) \<Rightarrow> connector \<Rightarrow> connector_op \<Rightarrow> connector result" where
  "connector_step net c (Start tid) = Connector_start net tid c"
| "connector_step net c (Restart tid) = Connector_restart net tid c"
| "connector_step net c Stop = Inr (Connector_stop c)"
| "connector_step net c Run_next =
     (case cn_pending c of [] \<Rightarrow> Inr c
      | task # tasks \<Rightarrow> connector_run_task net (c\<lparr>cn_pending := tasks\<rparr>) task)"
| "connector_step net c Timer_fires =
     (case cn_timers c of [] \<Rightarrow> Inr c
      | t # ts \<Rightarrow> Connector_startInLoop net (cn_owner c) (c\<lparr>cn_timers := ts\<rparr>))"
| "connector_step net c (Channel_event revents err self) =
     (case cn_channel c of
        None \<Rightarrow> Inr c
      | Some ch \<Rightarrow>
          let ch1 = Channel_set_revents revents ch
          in foldR (connector_invoke err self) (c\<lparr>cn_channel := Some ch1\<rparr>) (Channel_dispatch ch1 0))"

section \<open>The contract and the invariant\<close>

text \<open>
  \<open>start\<close> is for a connector at rest, \<open>restart\<close> for one that handed over a connection. A channel that
  is no longer registered gets no event. A functor queued before a timer was scheduled, or in the
  same turn of the loop, runs before the timer fires, half a second later at least.
\<close>

definition connector_allowed :: "connector \<Rightarrow> connector_op \<Rightarrow> bool" where
  "connector_allowed c op \<longleftrightarrow>
     (case op of
        Start tid \<Rightarrow> cn_state c = Connector_kDisconnected \<and> cn_timers c = [] \<and>
          Reset_channel \<notin> set (cn_pending c) \<and> Start_in_loop \<notin> set (cn_pending c)
      | Restart tid \<Rightarrow> tid = cn_owner c \<and> cn_state c = Connector_kConnected \<and>
          Reset_channel \<notin> set (cn_pending c)
      | Timer_fires \<Rightarrow> Reset_channel \<notin> set (cn_pending c)
      | Channel_event revents err self \<Rightarrow>
          (case cn_channel c of None \<Rightarrow> True | Some ch \<Rightarrow> ch_addedToLoop ch)
      | _ \<Rightarrow> True)"

fun connector_run_allowed :: "(nat \<Rightarrow> int \<times> int) \<Rightarrow> connector \<Rightarrow> connector_op list \<Rightarrow> bool" where
  "connector_run_allowed net c [] \<longleftrightarrow> True"
| "connector_run_allowed net c (op # ops) \<longleftrightarrow> connector_allowed c op \<and>
     (case connector_step net c op of Inl e \<Rightarrow> True | Inr c' \<Rightarrow> connector_run_allowed net c' ops)"

text \<open>The sockets the connector holds, if it never closes or gives away one it does not hold.\<close>

fun sockets_held :: "connector_event list \<Rightarrow> int list \<Rightarrow> int list option" where
  "sockets_held [] held = Some held"
| "sockets_held (Opened fd # evs) held = sockets_held evs (fd # held)"
| "sockets_held (Closed fd # evs) held =
     (if fd \<in> set held then sockets_held evs (remove1 fd held) else None)"
| "sockets_held (Given fd # evs) held =
     (if fd \<in> set held then sockets_held evs (remove1 fd held) else None)"
| "sockets_held (_ # evs) held = sockets_held evs held"

lemma sockets_held_append:
  "sockets_held (evs @ evs') held =
     (case sockets_held evs held of None \<Rightarrow> None | Some held' \<Rightarrow> sockets_held evs' held')"
  by (induction evs held rule: sockets_held.induct) simp_all

text \<open>The delays of the retries since the last restart.\<close>

fun retry_delays :: "connector_event list \<Rightarrow> int list \<Rightarrow> int list" where
  "retry_delays [] ds = ds"
| "retry_delays (Retry_in d # evs) ds = retry_delays evs (ds @ [d])"
| "retry_delays (Restarted # evs) ds = retry_delays evs []"
| "retry_delays (_ # evs) ds = retry_delays evs ds"

lemma retry_delays_append: "retry_delays (evs @ evs') ds = retry_delays evs' (retry_delays evs ds)"
  by (induction evs ds rule: retry_delays.induct) simp_all

definition backoff :: "nat \<Rightarrow> int" where
  "backoff k = min (500 * 2 ^ k) 30000"

lemma backoff_step: "min (backoff k * 2) kMaxRetryDelayMs = backoff (Suc k)"
  by (simp add: backoff_def kMaxRetryDelayMs_def min_def)

lemma backoff_0: "backoff 0 = kInitRetryDelayMs"
  by (simp add: backoff_def kInitRetryDelayMs_def)

lemma backoff_bounds: "500 \<le> backoff k" "backoff k \<le> 30000"
  using one_le_power [of "2::int" k] by (simp_all add: backoff_def min_def)

definition delays_ok :: "connector \<Rightarrow> bool" where
  "delays_ok c \<longleftrightarrow> (\<exists>n. retry_delays (cn_log c) [] = map backoff [0..<n] \<and> cn_retryDelayMs c = backoff n) \<and>
     (\<forall>d. Retry_in d \<in> set (cn_log c) \<longrightarrow> 500 \<le> d \<and> d \<le> 30000)"

definition connector_channel :: "connector_handler channel \<Rightarrow> bool" where
  "connector_channel ch \<longleftrightarrow> ch_readCallback ch = None \<and> ch_closeCallback ch = None \<and>
     ch_writeCallback ch = Some Connector_on_write \<and> ch_errorCallback ch = Some Connector_on_error"

definition connector_inv :: "connector \<Rightarrow> bool" where
  "connector_inv c \<longleftrightarrow>
     (case cn_channel c of
        None \<Rightarrow> cn_state c \<noteq> Connector_kConnecting \<and> Reset_channel \<notin> set (cn_pending c)
      | Some ch \<Rightarrow> connector_channel ch \<and>
          (if cn_state c = Connector_kConnecting
           then ch_addedToLoop ch \<and> Reset_channel \<notin> set (cn_pending c)
           else \<not> ch_addedToLoop ch \<and> Reset_channel \<in> set (cn_pending c))) \<and>
     count_list (cn_pending c) Reset_channel \<le> 1 \<and>
     count_list (cn_pending c) Start_in_loop \<le> 1 \<and>
     (Start_in_loop \<in> set (cn_pending c) \<longrightarrow>
        cn_state c = Connector_kDisconnected \<and> cn_timers c = [] \<and> Reset_channel \<notin> set (cn_pending c)) \<and>
     length (cn_timers c) \<le> 1 \<and>
     (cn_timers c \<noteq> [] \<longrightarrow> cn_state c = Connector_kDisconnected) \<and>
     sockets_held (cn_log c) [] =
       Some (if cn_state c = Connector_kConnecting
             then (case cn_channel c of None \<Rightarrow> [] | Some ch \<Rightarrow> [ch_fd ch]) else []) \<and>
     delays_ok c"


section \<open>Every operation keeps the invariant\<close>

lemma delays_ok_fields [simp]:
  "delays_ok (c\<lparr>cn_state := st\<rparr>) = delays_ok c" "delays_ok (c\<lparr>cn_pending := tasks\<rparr>) = delays_ok c"
  "delays_ok (c\<lparr>cn_channel := ch\<rparr>) = delays_ok c" "delays_ok (c\<lparr>cn_attempts := n\<rparr>) = delays_ok c"
  "delays_ok (c\<lparr>cn_timers := ts\<rparr>) = delays_ok c" "delays_ok (c\<lparr>cn_connect := b\<rparr>) = delays_ok c"
  by (simp_all add: delays_ok_def)

lemma delays_ok_sockets [simp]:
  "delays_ok c \<Longrightarrow> delays_ok (connector_note (Opened fd) c)"
  "delays_ok c \<Longrightarrow> delays_ok (connector_note (Closed fd) c)"
  "delays_ok c \<Longrightarrow> delays_ok (connector_note (Given fd) c)"
  by (auto simp: delays_ok_def connector_note_def retry_delays_append)

lemma delays_ok_retry:
  assumes "delays_ok c" and "cn_log c' = cn_log c @ [Retry_in (cn_retryDelayMs c)]"
    and "cn_retryDelayMs c' = min (cn_retryDelayMs c * 2) kMaxRetryDelayMs"
  shows "delays_ok c'"
proof -
  obtain n where n: "retry_delays (cn_log c) [] = map backoff [0..<n]" "cn_retryDelayMs c = backoff n"
    using assms(1) by (auto simp: delays_ok_def)
  then have "retry_delays (cn_log c') [] = map backoff [0..<Suc n] \<and> cn_retryDelayMs c' = backoff (Suc n)"
    using assms(2,3) by (simp add: retry_delays_append backoff_step)
  then have "\<exists>n. retry_delays (cn_log c') [] = map backoff [0..<n] \<and> cn_retryDelayMs c' = backoff n" by (rule exI)
  moreover have "500 \<le> cn_retryDelayMs c \<and> cn_retryDelayMs c \<le> 30000" using backoff_bounds [of n] by (simp add: n(2))
  ultimately show ?thesis using assms(1,2) by (auto simp: delays_ok_def)
qed

text \<open>No attempt is under way: the channel is gone, or is about to be reset.\<close>

definition connector_idle :: "connector \<Rightarrow> bool" where
  "connector_idle c \<longleftrightarrow>
     (case cn_channel c of
        None \<Rightarrow> Reset_channel \<notin> set (cn_pending c)
      | Some ch \<Rightarrow> connector_channel ch \<and> \<not> ch_addedToLoop ch \<and> Reset_channel \<in> set (cn_pending c)) \<and>
     count_list (cn_pending c) Reset_channel \<le> 1 \<and> Start_in_loop \<notin> set (cn_pending c) \<and> cn_timers c = [] \<and>
     delays_ok c"

lemma count_list_none [simp]: "x \<notin> set xs \<Longrightarrow> count_list xs x = 0"
  by (simp add: count_list_0_iff)

lemma retry_inv:
  assumes idle: "connector_idle c" and held: "sockets_held (cn_log c) [] = Some [sockfd]"
  shows "connector_inv (Connector_retry sockfd c)"
proof -
  define c1 where "c1 = (connector_note (Closed sockfd) c)\<lparr>cn_state := Connector_kDisconnected\<rparr>"
  have "delays_ok c" using idle by (simp only: connector_idle_def)
  then have d1: "delays_ok c1" by (simp add: c1_def)
  show ?thesis
  proof (cases "cn_connect c")
    case True
    define c2 where "c2 = (connector_note (Retry_in (cn_retryDelayMs c1)) c1)
        \<lparr>cn_timers := cn_timers c1 @ [cn_retryDelayMs c1], cn_retryDelayMs := min (cn_retryDelayMs c1 * 2) kMaxRetryDelayMs\<rparr>"
    have "delays_ok c2" by (rule delays_ok_retry [OF d1]) (simp_all add: c2_def connector_note_def)
    moreover have "Connector_retry sockfd c = c2"
      using True by (simp add: Connector_retry_def c2_def c1_def connector_note_def)
    ultimately show ?thesis
      using idle held by (simp add: connector_inv_def connector_idle_def c2_def c1_def connector_note_def
          sockets_held_append split: option.splits)
  next
    case False
    then have "Connector_retry sockfd c = c1" by (simp add: Connector_retry_def c1_def connector_note_def)
    then show ?thesis
      using idle held d1 by (simp add: connector_inv_def connector_idle_def c1_def connector_note_def
          sockets_held_append split: option.splits)
  qed
qed

lemma connector_inv_held:
  "connector_inv c \<Longrightarrow> cn_state c \<noteq> Connector_kConnecting \<Longrightarrow> sockets_held (cn_log c) [] = Some []"
  by (simp add: connector_inv_def)

lemma connect_inv:
  assumes inv: "connector_inv c" and st: "cn_state c = Connector_kDisconnected" and none: "cn_channel c = None"
    and quiet: "cn_timers c = []" "Start_in_loop \<notin> set (cn_pending c)" and fd: "0 \<le> fst (net (cn_attempts c))"
  shows "\<exists>c'. Connector_connect net c = Inr c' \<and> connector_inv c'"
proof -
  obtain sockfd e where net: "net (cn_attempts c) = (sockfd, e)" by (cases "net (cn_attempts c)")
  define c2 where "c2 = connector_note (Opened sockfd) (c\<lparr>cn_attempts := Suc (cn_attempts c)\<rparr>)"
  have "delays_ok c" using inv by (simp only: connector_inv_def)
  then have d2: "delays_ok c2" by (simp add: c2_def)
  have held: "sockets_held (cn_log c2) [] = Some [sockfd]"
    using connector_inv_held [OF inv] st by (simp add: c2_def connector_note_def sockets_held_append)
  have idle: "connector_idle c2"
    using inv none quiet d2 by (simp add: connector_idle_def connector_inv_def c2_def connector_note_def)
  have "\<exists>c'. Connector_connecting sockfd c2 = Inr c' \<and> connector_inv c'"
    using none idle held d2 by (simp add: Connector_connecting_def c2_def connector_note_def connector_inv_def connector_idle_def
        connector_channel_def Channel_new_def Channel_setErrorCallback_def Channel_setWriteCallback_def delays_ok_def)
  moreover have "connector_inv (Connector_retry sockfd c2)" by (rule retry_inv [OF idle held])
  moreover have "connector_inv (connector_note (Closed sockfd) c2)"
  proof -
    have "delays_ok (connector_note (Closed sockfd) c2)" using d2 by simp
    then show ?thesis
      using none idle connector_inv_held [OF inv] st
      by (simp add: connector_inv_def connector_idle_def c2_def connector_note_def sockets_held_append)
  qed
  ultimately show ?thesis
    using fd net by (auto simp: Connector_connect_def Let_def c2_def)
qed

lemma startInLoop_inv:
  assumes inv: "connector_inv c" and st: "cn_state c = Connector_kDisconnected"
    and quiet: "cn_timers c = []" "Start_in_loop \<notin> set (cn_pending c)" "Reset_channel \<notin> set (cn_pending c)"
    and fd: "\<And>i. 0 \<le> fst (net i)"
  shows "\<exists>c'. Connector_startInLoop net (cn_owner c) c = Inr c' \<and> connector_inv c'"
proof (cases "cn_connect c")
  case True
  have "cn_channel c = None" using inv st quiet(3) by (auto simp: connector_inv_def split: option.splits)
  from connect_inv [OF inv st this quiet(1,2) fd] show ?thesis
    using True st by (simp add: Connector_startInLoop_def connector_in_thread_def)
next
  case False
  then show ?thesis using inv st by (simp add: Connector_startInLoop_def connector_in_thread_def)
qed

text \<open>The end of an attempt.\<close>

lemma removeAndResetChannel_idle:
  assumes inv: "connector_inv c" and st: "cn_state c = Connector_kConnecting"
  shows "\<exists>sockfd c1. Connector_removeAndResetChannel (c\<lparr>cn_state := st'\<rparr>) = Inr (sockfd, c1) \<and> connector_idle c1 \<and>
    sockets_held (cn_log c1) [] = Some [sockfd] \<and> cn_state c1 = st' \<and> cn_connect c1 = cn_connect c \<and>
    cn_owner c1 = cn_owner c \<and> cn_log c1 = cn_log c"
proof -
  obtain ch where ch: "cn_channel c = Some ch" using inv st by (auto simp: connector_inv_def split: option.splits)
  then show ?thesis
    using inv st by (auto simp: Connector_removeAndResetChannel_def connector_inv_def connector_idle_def
        Channel_isNoneEvent_def connector_channel_def delays_ok_def)
qed


definition connector_ok :: "connector \<Rightarrow> connector result \<Rightarrow> bool" where
  "connector_ok c r \<longleftrightarrow> (\<exists>c'. r = Inr c' \<and> connector_inv c')"

lemma connector_okI: "connector_inv c' \<Longrightarrow> connector_ok c (Inr c')"
  by (simp add: connector_ok_def)

lemma end_attempt_retry:
  assumes inv: "connector_inv c" and st: "cn_state c = Connector_kConnecting"
  shows "connector_ok c (andThen (Connector_removeAndResetChannel (c\<lparr>cn_state := st'\<rparr>))
    (\<lambda>(sockfd, c1). Inr (Connector_retry sockfd c1)))"
  using removeAndResetChannel_idle [OF inv st, of st'] retry_inv by (auto simp: connector_ok_def)

lemma stopInLoop_ok:
  assumes "connector_inv c"
  shows "connector_ok c (Connector_stopInLoop (cn_owner c) c)"
  using end_attempt_retry [OF assms, of Connector_kDisconnected] assms
  by (auto simp: Connector_stopInLoop_def connector_in_thread_def connector_okI)

lemma handleError_ok:
  assumes "connector_inv c"
  shows "connector_ok c (Connector_handleError c)"
proof (cases "cn_state c = Connector_kConnecting")
  case True
  then have same: "c\<lparr>cn_state := Connector_kConnecting\<rparr> = c" by (cases c) simp
  then show ?thesis
    using end_attempt_retry [OF assms True, of Connector_kConnecting] True
    by (simp add: Connector_handleError_def same)
next
  case False
  then show ?thesis using assms by (simp add: Connector_handleError_def connector_okI)
qed

lemma handleWrite_ok:
  assumes inv: "connector_inv c" and st: "cn_state c \<noteq> Connector_kConnected"
  shows "connector_ok c (Connector_handleWrite err self c)"
proof (cases "cn_state c = Connector_kConnecting")
  case False
  then have "cn_state c = Connector_kDisconnected" using st by (cases "cn_state c") simp_all
  then show ?thesis using inv by (simp add: Connector_handleWrite_def connector_okI)
next
  case True
  obtain sockfd c1 where c1: "Connector_removeAndResetChannel c = Inr (sockfd, c1)" "connector_idle c1"
    "sockets_held (cn_log c1) [] = Some [sockfd]"
    using removeAndResetChannel_idle [OF inv True, of "cn_state c"] by auto
  have idle: "delays_ok c1" using c1(2) by (simp only: connector_idle_def)
  have "connector_inv (connector_note ev (c1\<lparr>cn_state := Connector_kConnected\<rparr>))"
    if "ev = Given sockfd \<or> ev = Closed sockfd" for ev
  proof -
    have "delays_ok (connector_note ev (c1\<lparr>cn_state := Connector_kConnected\<rparr>))" using that idle by auto
    moreover have "sockets_held (cn_log c1 @ [ev]) [] = Some []"
      using that c1(3) by (auto simp: sockets_held_append)
    ultimately show ?thesis
      using c1(2) by (simp add: connector_inv_def connector_idle_def connector_note_def split: option.splits)
  qed
  then show ?thesis
    using True c1(1) retry_inv [OF c1(2,3)]
    by (simp add: Connector_handleWrite_def Let_def connector_ok_def)
qed

lemma connector_dispatch:
  assumes "connector_channel ch"
  shows "Channel_dispatch ch t =
    (if ch_revents ch AND (POLLERR OR POLLNVAL) \<noteq> 0 then [Event_call Connector_on_error] else []) @
    (if ch_revents ch AND POLLOUT \<noteq> 0 then [Event_call Connector_on_write] else [])"
  using assms by (simp add: Channel_dispatch_def connector_channel_def Let_def)

lemma handleError_state:
  assumes "connector_inv c" and "cn_state c = Connector_kConnecting" and "Connector_handleError c = Inr c'"
  shows "cn_state c' = Connector_kDisconnected"
  using assms by (auto simp: Connector_handleError_def Connector_retry_def connector_note_def Let_def andThen_eq_Inr)

lemma event_ok:
  assumes inv: "connector_inv c" and ch: "cn_channel c = Some ch" "ch_addedToLoop ch"
  shows "connector_ok c (connector_step net c (Channel_event revents err self))"
proof -
  have st: "cn_state c = Connector_kConnecting" using inv ch by (simp add: connector_inv_def split: if_splits)
  define d where "d = c\<lparr>cn_channel := Some (Channel_set_revents revents ch)\<rparr>"
  have d: "connector_inv d" "cn_state d = Connector_kConnecting"
    using inv ch st by (simp_all add: d_def connector_inv_def connector_channel_def Channel_set_revents_def)
  have handlers: "connector_channel (Channel_set_revents revents ch)"
    using inv ch by (simp add: connector_inv_def connector_channel_def Channel_set_revents_def)
  obtain e where e: "Connector_handleError d = Inr e" "connector_inv e" "cn_state e = Connector_kDisconnected"
    using handleError_ok [OF d(1)] handleError_state [OF d] by (auto simp: connector_ok_def)
  obtain w where w: "Connector_handleWrite err self d = Inr w" "connector_inv w"
    using handleWrite_ok [OF d(1), of err self] d(2) by (auto simp: connector_ok_def)
  obtain w' where w': "Connector_handleWrite err self e = Inr w'" "connector_inv w'"
    using handleWrite_ok [OF e(2), of err self] e(3) by (auto simp: connector_ok_def)
  show ?thesis
    using ch(1) d(1) e w w' by (simp add: d_def [symmetric] connector_dispatch [OF handlers] connector_ok_def Let_def)
qed

lemma connector_inv_fields:
  "connector_inv c \<Longrightarrow> connector_inv (c\<lparr>cn_connect := b\<rparr>)"
  "connector_inv c \<Longrightarrow> connector_inv (c\<lparr>cn_timers := drop 1 (cn_timers c)\<rparr>)"
  "connector_inv c \<Longrightarrow> connector_inv (c\<lparr>cn_pending := cn_pending c @ [Stop_in_loop]\<rparr>)"
  by (auto simp: connector_inv_def split: option.splits)

lemma connector_step_ok:
  assumes inv: "connector_inv c" and fd: "\<And>i. 0 \<le> fst (net i)" and allowed: "connector_allowed c op"
  shows "connector_ok c (connector_step net c op)"
proof (cases op)
  case (Start tid)
  note a = allowed [unfolded connector_allowed_def Start connector_op.case]
  show ?thesis
  proof (cases "tid = cn_owner c")
    case True
    then show ?thesis
      using startInLoop_inv [OF connector_inv_fields(1) [OF inv], of True net] fd a Start
      by (simp add: Connector_start_def connector_ok_def)
  next
    case False
    have "connector_inv (c\<lparr>cn_connect := True, cn_pending := cn_pending c @ [Start_in_loop]\<rparr>)"
      using inv a by (simp add: connector_inv_def split: option.splits)
    then show ?thesis using Start False by (simp add: Connector_start_def connector_ok_def)
  qed
next
  case (Restart tid)
  note a = allowed [unfolded connector_allowed_def Restart connector_op.case]
  define d where "d = (connector_note Restarted c)
          \<lparr>cn_state := Connector_kDisconnected, cn_retryDelayMs := kInitRetryDelayMs, cn_connect := True\<rparr>"
  have "delays_ok c" using inv by (simp only: connector_inv_def)
  then have "delays_ok d"
    unfolding delays_ok_def
    by (intro conjI exI [of _ 0]) (auto simp: d_def connector_note_def retry_delays_append backoff_0)
  then have "connector_inv d"
    using inv a connector_inv_held [OF inv]
    by (auto simp: connector_inv_def d_def connector_note_def sockets_held_append split: option.splits)
  moreover have "cn_timers d = []" "Start_in_loop \<notin> set (cn_pending d)" "Reset_channel \<notin> set (cn_pending d)"
    "cn_state d = Connector_kDisconnected"
    using inv a by (auto simp: d_def connector_note_def connector_inv_def)
  ultimately have "connector_ok c (Connector_startInLoop net (cn_owner d) d)"
    using startInLoop_inv [of d net] fd by (simp add: connector_ok_def)
  moreover have "cn_owner d = cn_owner c" by (simp add: d_def connector_note_def)
  ultimately show ?thesis
    using Restart a by (simp add: Connector_restart_def connector_in_thread_def d_def [symmetric])
next
  case Stop
  have "connector_inv (Connector_stop c)"
    using connector_inv_fields(3) [OF connector_inv_fields(1) [OF inv, of False]]
    by (simp add: Connector_stop_def)
  then show ?thesis using Stop by (simp add: connector_ok_def)
next
  case Run_next
  show ?thesis
  proof (cases "cn_pending c")
    case Nil
    then show ?thesis using inv Run_next by (simp add: connector_ok_def)
  next
    case (Cons task tasks)
    define d where "d = c\<lparr>cn_pending := tasks\<rparr>"
    show ?thesis
    proof (cases task)
      case Start_in_loop
      then have "connector_inv d" "cn_state d = Connector_kDisconnected" "cn_timers d = []"
        "Start_in_loop \<notin> set (cn_pending d)" "Reset_channel \<notin> set (cn_pending d)"
        using inv Cons by (auto simp: connector_inv_def d_def count_list_0_iff split: option.splits)
      from startInLoop_inv [where net = net, OF this fd] show ?thesis
        using Run_next Cons Start_in_loop by (simp add: connector_ok_def d_def)
    next
      case Stop_in_loop
      then have "connector_inv d"
        using inv Cons by (auto simp: connector_inv_def d_def split: option.splits)
      from stopInLoop_ok [OF this] show ?thesis
        using Run_next Cons Stop_in_loop by (simp add: connector_ok_def d_def)
    next
      case Reset_channel
      then have "connector_inv (d\<lparr>cn_channel := None\<rparr>)"
        using inv Cons by (auto simp: connector_inv_def d_def count_list_0_iff split: option.splits if_splits)
      then show ?thesis
        using Run_next Cons Reset_channel by (simp add: connector_ok_def d_def Connector_resetChannel_def)
    qed
  qed
next
  case Timer_fires
  note a = allowed [unfolded connector_allowed_def Timer_fires connector_op.case]
  show ?thesis
  proof (cases "cn_timers c")
    case Nil
    then show ?thesis using inv Timer_fires by (simp add: connector_ok_def)
  next
    case (Cons t ts)
    define d where "d = c\<lparr>cn_timers := ts\<rparr>"
    have "connector_inv d" using connector_inv_fields(2) [OF inv] Cons by (simp add: d_def)
    moreover have "cn_state d = Connector_kDisconnected" "cn_timers d = []" "Start_in_loop \<notin> set (cn_pending d)"
      "Reset_channel \<notin> set (cn_pending d)"
      using inv Cons a by (auto simp: connector_inv_def d_def)
    ultimately show ?thesis
      using startInLoop_inv [of d net] fd Timer_fires Cons by (simp add: connector_ok_def d_def)
  qed
next
  case (Channel_event revents err self)
  then show ?thesis
    using event_ok [OF inv] allowed inv
    by (cases "cn_channel c") (simp_all add: connector_allowed_def connector_ok_def)
qed

lemma Connector_new_inv: "connector_inv (Connector_new tid loop)"
proof -
  have "delays_ok (Connector_new tid loop)"
    unfolding delays_ok_def by (intro conjI exI [of _ 0]) (simp_all add: Connector_new_def backoff_0)
  then show ?thesis by (simp add: connector_inv_def Connector_new_def)
qed

lemma connector_run_ok:
  assumes "connector_inv c" and fd: "\<And>i. 0 \<le> fst (net i)" and "connector_run_allowed net c ops"
  shows "\<exists>c'. foldR (connector_step net) c ops = Inr c' \<and> connector_inv c'"
  using assms(1,3)
proof (induction ops arbitrary: c)
  case (Cons op ops)
  obtain d where "connector_step net c op = Inr d" "connector_inv d"
    using connector_step_ok [where net = net, OF Cons.prems(1) fd] Cons.prems(2) by (auto simp: connector_ok_def)
  then show ?case using Cons by simp
qed simp


section \<open>Promises\<close>

text \<open>
  C12: a connector within the contract. Whatever the system answers and whenever \<open>stop\<close> is called, no
  assertion fails; the connector closes or hands over every socket it opens exactly once and holds
  one only while an attempt is under way, in its channel; there is at most one retry timer, and none
  beside an attempt or a connection; and the delays of the retries since the last restart are 500 ms
  doubled each time up to 30 s.
\<close>

theorem Connector_keeps_its_sockets:
  assumes "\<And>i. 0 \<le> fst (net i)" and "connector_run_allowed net (Connector_new tid loop) ops"
  shows "\<exists>c. foldR (connector_step net) (Connector_new tid loop) ops = Inr c \<and>
    sockets_held (cn_log c) [] =
      Some (if cn_state c = Connector_kConnecting
            then (case cn_channel c of None \<Rightarrow> [] | Some ch \<Rightarrow> [ch_fd ch]) else []) \<and>
    (cn_state c = Connector_kConnecting \<longrightarrow> (\<exists>ch. cn_channel c = Some ch \<and> ch_addedToLoop ch)) \<and>
    length (cn_timers c) \<le> 1 \<and> (cn_timers c \<noteq> [] \<longrightarrow> cn_state c = Connector_kDisconnected) \<and>
    (\<exists>n. retry_delays (cn_log c) [] = map (\<lambda>k. min (kInitRetryDelayMs * 2 ^ k) kMaxRetryDelayMs) [0..<n]) \<and>
    (cn_state c \<noteq> Connector_kConnecting \<and> cn_pending c = [] \<longrightarrow> Connector_delete c = Inr ())"
proof -
  obtain c where c: "foldR (connector_step net) (Connector_new tid loop) ops = Inr c" "connector_inv c"
    using connector_run_ok [OF Connector_new_inv assms] by blast
  have "backoff = (\<lambda>k. min (kInitRetryDelayMs * 2 ^ k) kMaxRetryDelayMs)"
    by (rule ext) (simp add: backoff_def kInitRetryDelayMs_def kMaxRetryDelayMs_def)
  then have "\<exists>n. retry_delays (cn_log c) [] = map (\<lambda>k. min (kInitRetryDelayMs * 2 ^ k) kMaxRetryDelayMs) [0..<n]"
    using c(2) by (auto simp: connector_inv_def delays_ok_def)
  moreover have "cn_state c = Connector_kConnecting \<Longrightarrow> \<exists>ch. cn_channel c = Some ch \<and> ch_addedToLoop ch"
    using c(2) by (simp add: connector_inv_def split: option.splits if_splits)
  moreover have "cn_state c \<noteq> Connector_kConnecting \<Longrightarrow> cn_pending c = [] \<Longrightarrow> Connector_delete c = Inr ()"
    using c(2) by (simp add: connector_inv_def Connector_delete_def split: option.splits)
  ultimately show ?thesis using c by (auto simp: connector_inv_def)
qed

lemmas connector_eval = Connector_new_def Connector_start_def Connector_startInLoop_def connector_in_thread_def
  Connector_connect_def connector_note_def Connector_connecting_def Connector_retry_def Connector_stop_def
  Connector_stopInLoop_def Connector_removeAndResetChannel_def Connector_resetChannel_def Connector_handleWrite_def
  Connector_handleError_def Connector_restart_def Channel_isNoneEvent_def Channel_set_revents_def Channel_dispatch_def
  Channel_new_def Channel_setErrorCallback_def Channel_setWriteCallback_def Channel_hup_def poll_bits
  kInitRetryDelayMs_def kMaxRetryDelayMs_def ECONNREFUSED_def EINPROGRESS_def EINTR_def EISCONN_def EAGAIN_def
  EADDRINUSE_def EADDRNOTAVAIL_def ENETUNREACH_def Let_def

text \<open>Two refusals, then a connection in progress that succeeds.\<close>

definition third_time :: "nat \<Rightarrow> int \<times> int" where
  "third_time i = (3 + int i, if i < 2 then ECONNREFUSED else EINPROGRESS)"

lemma Connector_keeps_its_sockets_witness:
  "\<exists>c. foldR (connector_step third_time) (Connector_new 1 0)
      [Start 2, Run_next, Timer_fires, Timer_fires, Channel_event POLLOUT 0 False, Run_next] = Inr c \<and>
    cn_log c = [Opened 3, Closed 3, Retry_in 500, Opened 4, Closed 4, Retry_in 1000, Opened 5, Given 5] \<and>
    Connector_delete c = Inr ()"
proof -
  define ops where "ops = [Start 2, Run_next, Timer_fires, Timer_fires, Channel_event POLLOUT 0 False, Run_next]"
  have "connector_run_allowed third_time (Connector_new 1 0) ops"
    by (simp add: ops_def connector_allowed_def connector_eval third_time_def)
  moreover have "0 \<le> fst (third_time i)" for i by (simp add: third_time_def)
  ultimately obtain c where "foldR (connector_step third_time) (Connector_new 1 0) ops = Inr c"
    "cn_state c \<noteq> Connector_kConnecting \<and> cn_pending c = [] \<longrightarrow> Connector_delete c = Inr ()"
    using Connector_keeps_its_sockets [of third_time 1 0 ops] by blast
  moreover from this have "cn_state c = Connector_kConnected" "cn_pending c = []"
    "cn_log c = [Opened 3, Closed 3, Retry_in 500, Opened 4, Closed 4, Retry_in 1000, Opened 5, Given 5]"
    by (auto simp: ops_def connector_eval third_time_def)
  ultimately show ?thesis by (auto simp: ops_def)
qed


text \<open>After \<open>stop\<close>: only closing.\<close>

definition starts :: "connector_op \<Rightarrow> bool" where
  "starts op \<longleftrightarrow> (case op of Start tid \<Rightarrow> True | Restart tid \<Rightarrow> True | _ \<Rightarrow> False)"

definition only_closes :: "connector \<Rightarrow> connector \<Rightarrow> bool" where
  "only_closes c c' \<longleftrightarrow> \<not> cn_connect c' \<and> (\<exists>fds. cn_log c' = cn_log c @ map Closed fds)"

lemma only_closes_refl: "\<not> cn_connect c \<Longrightarrow> only_closes c c"
  by (simp add: only_closes_def)

lemma only_closes_trans: "only_closes c c1 \<Longrightarrow> only_closes c1 c2 \<Longrightarrow> only_closes c c2"
  unfolding only_closes_def by (auto simp flip: map_append)

lemma only_closes_retry: "\<not> cn_connect c \<Longrightarrow> only_closes c (Connector_retry fd c)"
  by (auto simp: only_closes_def Connector_retry_def connector_note_def Let_def intro: exI [of _ "[fd]"])

lemma remove_keeps_log:
  assumes "Connector_removeAndResetChannel c = Inr (fd, c1)"
  shows "cn_connect c1 = cn_connect c \<and> cn_log c1 = cn_log c \<and> cn_state c1 = cn_state c \<and>
    set (cn_pending c) \<subseteq> set (cn_pending c1)"
  using assms by (auto simp: Connector_removeAndResetChannel_def Let_def Channel_isNoneEvent_def split: option.splits)

lemma retry_state: "cn_state (Connector_retry fd c) = Connector_kDisconnected"
  by (simp add: Connector_retry_def connector_note_def Let_def)

lemma handlers_only_close:
  assumes "\<not> cn_connect c"
  shows "Connector_handleError c = Inr c' \<Longrightarrow> only_closes c c' \<and> (cn_state c' = Connector_kConnecting \<longrightarrow> c' = c)"
    and "Connector_handleWrite err self c = Inr c' \<Longrightarrow> only_closes c c' \<and> (cn_state c' = Connector_kConnecting \<longrightarrow> c' = c)"
    and "Connector_stopInLoop tid c = Inr c' \<Longrightarrow> only_closes c c' \<and> cn_state c' \<noteq> Connector_kConnecting"
proof -
  have end_attempt: "only_closes c (Connector_retry fd c1)"
    if "Connector_removeAndResetChannel (c\<lparr>cn_state := st\<rparr>) = Inr (fd, c1)" for fd c1 st
    using remove_keeps_log [OF that] only_closes_retry [of c1 fd] assms by (simp add: only_closes_def)
  have end_attempt': "only_closes c (Connector_retry fd c1)" "\<not> cn_connect c1" "cn_log c1 = cn_log c"
    if "Connector_removeAndResetChannel c = Inr (fd, c1)" for fd c1
    using remove_keeps_log [OF that] only_closes_retry [of c1 fd] assms by (simp_all add: only_closes_def)
  show "Connector_handleError c = Inr c' \<Longrightarrow> only_closes c c' \<and> (cn_state c' = Connector_kConnecting \<longrightarrow> c' = c)"
    using end_attempt' assms
    by (auto simp: Connector_handleError_def andThen_eq_Inr retry_state only_closes_refl split: if_splits)
  show "Connector_handleWrite err self c = Inr c' \<Longrightarrow> only_closes c c' \<and> (cn_state c' = Connector_kConnecting \<longrightarrow> c' = c)"
    using end_attempt' assms
    by (auto simp: Connector_handleWrite_def andThen_eq_Inr retry_state only_closes_refl Let_def connector_note_def
        cassert_def only_closes_def intro: exI [of _ "[x]" for x] split: if_splits)
  show "Connector_stopInLoop tid c = Inr c' \<Longrightarrow> only_closes c c' \<and> cn_state c' \<noteq> Connector_kConnecting"
    using end_attempt assms
    by (auto simp: Connector_stopInLoop_def connector_in_thread_def andThen_eq_Inr retry_state only_closes_refl
        split: if_splits)
qed


text \<open>Stopped, or about to be.\<close>

definition stopping :: "connector \<Rightarrow> bool" where
  "stopping c \<longleftrightarrow> \<not> cn_connect c \<and> (cn_state c = Connector_kConnecting \<longrightarrow> Stop_in_loop \<in> set (cn_pending c))"

lemma invoke_only_closes:
  assumes "connector_invoke err self c call = Inr c'" and "\<not> cn_connect c"
  shows "only_closes c c' \<and> (cn_state c' = Connector_kConnecting \<longrightarrow> c' = c)"
proof (cases call)
  case (Event_call f)
  then show ?thesis using assms handlers_only_close(1,2) [OF assms(2)] by (cases f) auto
qed (use assms in simp)

lemma stopping_step:
  assumes stop: "stopping c" and step: "connector_step net c op = Inr c'" and "\<not> starts op"
  shows "stopping c' \<and> only_closes c c'"
proof (cases op)
  case Stop
  then show ?thesis using step stop by (auto simp: Connector_stop_def stopping_def only_closes_def)
next
  case Run_next
  show ?thesis
  proof (cases "cn_pending c")
    case Nil
    then show ?thesis using Run_next step stop by (simp add: stopping_def only_closes_def)
  next
    case (Cons task tasks)
    define d where "d = c\<lparr>cn_pending := tasks\<rparr>"
    have d: "\<not> cn_connect d" "cn_log d = cn_log c" "cn_state d = cn_state c" using stop by (simp_all add: d_def stopping_def)
    have run: "connector_run_task net d task = Inr c'" using step Run_next Cons by (simp add: d_def)
    show ?thesis
    proof (cases task)
      case Start_in_loop
      then have "c' = d" using run d by (auto simp: Connector_startInLoop_def connector_in_thread_def cassert_def split: if_splits)
      then show ?thesis using stop Cons Start_in_loop d by (auto simp: stopping_def only_closes_def d_def)
    next
      case Stop_in_loop
      then have "only_closes d c' \<and> cn_state c' \<noteq> Connector_kConnecting"
        using run handlers_only_close(3) [OF d(1)] by auto
      then show ?thesis using d by (simp add: stopping_def only_closes_def)
    next
      case Reset_channel
      then have "c' = d\<lparr>cn_channel := None\<rparr>" using run by (simp add: Connector_resetChannel_def)
      then show ?thesis using stop Cons Reset_channel d by (auto simp: stopping_def only_closes_def d_def)
    qed
  qed
next
  case Timer_fires
  show ?thesis
  proof (cases "cn_timers c")
    case (Cons t ts)
    then have "c' = c\<lparr>cn_timers := ts\<rparr>"
      using Timer_fires step stop
      by (auto simp: Connector_startInLoop_def connector_in_thread_def cassert_def stopping_def split: if_splits)
    then show ?thesis using stop by (simp add: stopping_def only_closes_def)
  qed (use Timer_fires step stop in \<open>simp add: stopping_def only_closes_def\<close>)
next
  case (Channel_event revents err self)
  show ?thesis
  proof (cases "cn_channel c")
    case (Some ch)
    define d where "d = c\<lparr>cn_channel := Some (Channel_set_revents revents ch)\<rparr>"
    have "foldR (connector_invoke err self) d (Channel_dispatch (Channel_set_revents revents ch) 0) = Inr c'"
      using step Channel_event Some by (simp add: d_def Let_def)
    then have "only_closes d c' \<and> (cn_state c' = Connector_kConnecting \<longrightarrow> c' = d)"
    proof (rule foldR_invariant)
      show "only_closes d d \<and> (cn_state d = Connector_kConnecting \<longrightarrow> d = d)"
        using stop by (simp add: only_closes_def d_def stopping_def)
    next
      fix b call b'
      assume b: "only_closes d b \<and> (cn_state b = Connector_kConnecting \<longrightarrow> b = d)"
        and "connector_invoke err self b call = Inr b'"
      with invoke_only_closes [of err self b call b'] have "only_closes b b' \<and> (cn_state b' = Connector_kConnecting \<longrightarrow> b' = b)"
        by (simp add: only_closes_def)
      then show "only_closes d b' \<and> (cn_state b' = Connector_kConnecting \<longrightarrow> b' = d)"
        using b only_closes_trans by blast
    qed
    moreover have "stopping d" "cn_log d = cn_log c" using stop by (simp_all add: d_def stopping_def)
    ultimately show ?thesis by (auto simp: stopping_def only_closes_def)
  qed (use Channel_event step stop in \<open>simp add: stopping_def only_closes_def\<close>)
qed (use assms in \<open>simp_all add: starts_def\<close>)

lemma stopping_run:
  assumes "stopping c" and "foldR (connector_step net) c ops = Inr c'" and "\<forall>op \<in> set ops. \<not> starts op"
  shows "stopping c' \<and> only_closes c c'"
  using assms
proof (induction ops arbitrary: c)
  case Nil
  then show ?case by (simp add: only_closes_refl stopping_def)
next
  case (Cons op ops)
  then obtain d where d: "connector_step net c op = Inr d" "foldR (connector_step net) d ops = Inr c'"
    by (auto simp: andThen_eq_Inr)
  then have "stopping d \<and> only_closes c d" using stopping_step [OF Cons.prems(1)] Cons.prems(3) by simp
  then show ?case using Cons.IH [of d] d Cons.prems(3) only_closes_trans by auto
qed

lemma connector_run_allowed_append:
  "connector_run_allowed net c (ops @ ops') \<longleftrightarrow> connector_run_allowed net c ops \<and>
     (case foldR (connector_step net) c ops of Inl e \<Rightarrow> True | Inr c' \<Rightarrow> connector_run_allowed net c' ops')"
  by (induction ops arbitrary: c) (auto split: sum.splits)

text \<open>
  C17: \<open>stop\<close> is final until the next start. After \<open>stop\<close>, whatever was under way (an attempt, a retry
  timer, a functor of another thread), the connector only closes sockets: it opens none, hands none
  over and schedules no retry; and once the functors in the queue have run it holds no socket.
\<close>

theorem Connector_stop_is_final:
  assumes "\<And>i. 0 \<le> fst (net i)" and "connector_run_allowed net (Connector_new tid loop) (ops @ Stop # ops')"
    and "\<forall>op \<in> set ops'. \<not> starts op"
  shows "\<exists>c c'. foldR (connector_step net) (Connector_new tid loop) ops = Inr c \<and>
    foldR (connector_step net) (Connector_new tid loop) (ops @ Stop # ops') = Inr c' \<and>
    (\<exists>fds. cn_log c' = cn_log c @ map Closed fds) \<and>
    (cn_pending c' = [] \<longrightarrow> cn_state c' \<noteq> Connector_kConnecting \<and> sockets_held (cn_log c') [] = Some [])"
proof -
  have allowed: "connector_run_allowed net (Connector_new tid loop) ops"
    using assms(2) by (simp add: connector_run_allowed_append)
  obtain c where c: "foldR (connector_step net) (Connector_new tid loop) ops = Inr c" "connector_inv c"
    using connector_run_ok [OF Connector_new_inv assms(1) allowed] by blast
  obtain c' where c': "foldR (connector_step net) (Connector_new tid loop) (ops @ Stop # ops') = Inr c'" "connector_inv c'"
    using connector_run_ok [OF Connector_new_inv assms(1,2)] by blast
  have "foldR (connector_step net) (Connector_stop c) ops' = Inr c'" using c(1) c'(1) by simp
  moreover have "stopping (Connector_stop c)" by (simp add: stopping_def Connector_stop_def)
  ultimately have quiet: "stopping c'" "only_closes (Connector_stop c) c'" using stopping_run assms(3) by blast+
  have "\<exists>fds. cn_log c' = cn_log c @ map Closed fds"
    using quiet(2) by (simp add: only_closes_def Connector_stop_def)
  moreover have "cn_state c' \<noteq> Connector_kConnecting" if "cn_pending c' = []"
    using quiet(1) that by (auto simp: stopping_def)
  ultimately show ?thesis using c c' connector_inv_held by blast
qed

lemma Connector_stop_is_final_witness:
  "\<exists>c'. foldR (connector_step (\<lambda>i. (3, EINPROGRESS))) (Connector_new 1 0)
      [Start 1, Stop, Channel_event POLLOUT 0 False, Run_next, Run_next] = Inr c' \<and>
    cn_log c' = [Opened 3, Closed 3] \<and> cn_state c' \<noteq> Connector_kConnecting"
proof -
  have "connector_run_allowed (\<lambda>i. (3, EINPROGRESS)) (Connector_new 1 0)
      ([Start 1] @ Stop # [Channel_event POLLOUT 0 False, Run_next, Run_next])"
    by (simp add: connector_allowed_def connector_eval)
  moreover have "0 \<le> fst ((\<lambda>i. (3, EINPROGRESS)) i :: int \<times> int)" for i :: nat by simp
  moreover have "\<forall>op \<in> set [Channel_event POLLOUT 0 False, Run_next, Run_next]. \<not> starts op"
    by (simp add: starts_def)
  ultimately obtain c c' where
    c: "foldR (connector_step (\<lambda>i. (3, EINPROGRESS))) (Connector_new 1 0)
       ([Start 1] @ Stop # [Channel_event POLLOUT 0 False, Run_next, Run_next]) = Inr c'"
    "cn_pending c' = [] \<longrightarrow> cn_state c' \<noteq> Connector_kConnecting"
    using Connector_stop_is_final [of "\<lambda>i. (3, EINPROGRESS)" 1 0 "[Start 1]"] by blast
  moreover have "cn_log c' = [Opened 3, Closed 3] \<and> cn_pending c' = []"
    using c(1) by (auto simp: connector_eval)
  ultimately show ?thesis using c by auto
qed

text \<open>
  Starting at the wrong time stops the process. \<open>start\<close> on a connector that is connecting, or whose
  connection was handed over (\<open>TcpClient::connect\<close> after a first connection), fails an assertion.
  A \<open>stop\<close> followed by a \<open>start\<close> does too: while a retry timer is pending, the timers of the old and the
  new attempt both start one; while connecting, in the same turn of the loop, the new attempt finds
  the channel of the old one.
\<close>

theorem Connector_start_aborts:
  assumes inv: "connector_inv c" and fd: "\<And>i. 0 \<le> fst (net i)" and slow: "\<And>i. snd (net i) = EINPROGRESS"
    and quiet: "cn_pending c = []"
  shows "(cn_state c \<noteq> Connector_kDisconnected \<longrightarrow> Connector_start net (cn_owner c) c = Inl Assert_failed) \<and>
    (cn_timers c \<noteq> [] \<longrightarrow>
       foldR (connector_step net) c [Stop, Start (cn_owner c), Run_next, Run_next, Timer_fires, Timer_fires] = Inl Assert_failed) \<and>
    (\<forall>tid. cn_state c = Connector_kConnecting \<and> tid \<noteq> cn_owner c \<longrightarrow>
       foldR (connector_step net) c [Stop, Start tid, Run_next, Run_next] = Inl Assert_failed)"
proof (intro conjI impI allI; (elim conjE)?)
  show "Connector_start net (cn_owner c) c = Inl Assert_failed" if "cn_state c \<noteq> Connector_kDisconnected"
    using that by (simp add: Connector_start_def Connector_startInLoop_def connector_in_thread_def)
next
  assume "cn_timers c \<noteq> []"
  then obtain t where t: "cn_timers c = [t]" "cn_state c = Connector_kDisconnected" "cn_channel c = None"
    using inv quiet by (cases "cn_timers c") (auto simp: connector_inv_def split: option.splits)
  obtain f0 f1 where net: "net (cn_attempts c) = (f0, EINPROGRESS)" "0 \<le> f0"
    "net (Suc (cn_attempts c)) = (f1, EINPROGRESS)" "0 \<le> f1"
    using fd slow by (metis prod.collapse)
  show "foldR (connector_step net) c [Stop, Start (cn_owner c), Run_next, Run_next, Timer_fires, Timer_fires] = Inl Assert_failed"
    using t net quiet by (simp add: connector_eval)
next
  fix tid assume st: "cn_state c = Connector_kConnecting" and tid: "tid \<noteq> cn_owner c"
  then obtain ch where ch: "cn_channel c = Some ch" using inv by (auto simp: connector_inv_def split: option.splits)
  obtain f0 where net: "net (cn_attempts c) = (f0, EINPROGRESS)" "0 \<le> f0"
    using fd slow by (metis prod.collapse)
  show "foldR (connector_step net) c [Stop, Start tid, Run_next, Run_next] = Inl Assert_failed"
    using st ch net quiet tid by (simp add: connector_eval)
qed

lemma Connector_start_aborts_witness:
  "\<exists>c. foldR (connector_step (\<lambda>i. (3, EINPROGRESS))) (Connector_new 1 0) [Start 1] = Inr c \<and>
    Connector_start (\<lambda>i. (3, EINPROGRESS)) 1 c = Inl Assert_failed \<and>
    foldR (connector_step (\<lambda>i. (3, EINPROGRESS))) c [Stop, Start 2, Run_next, Run_next] = Inl Assert_failed"
proof -
  define net :: "nat \<Rightarrow> int \<times> int" where "net = (\<lambda>i. (3, EINPROGRESS))"
  have fd: "0 \<le> fst (net i)" and slow: "snd (net i) = EINPROGRESS" for i by (simp_all add: net_def)
  have "connector_run_allowed net (Connector_new 1 0) [Start 1]"
    by (simp add: connector_allowed_def connector_eval net_def)
  from connector_run_ok [OF Connector_new_inv fd this] obtain c where
    c: "foldR (connector_step net) (Connector_new 1 0) [Start 1] = Inr c" "connector_inv c" by blast
  have st: "cn_state c = Connector_kConnecting" "cn_pending c = []" "cn_owner c = 1"
    using c(1) by (auto simp: connector_eval net_def)
  show ?thesis
    using Connector_start_aborts [OF c(2) fd slow st(2)] c(1) st unfolding net_def [symmetric] by auto
qed

end
