(* ===== verification/Thread_Pool.thy ===== *)
theory Thread_Pool
  imports Decimal
begin

text \<open>
  \<open>src/muduo/net/EventLoopThreadPool.h\<close>, \<open>EventLoopThreadPool.cpp\<close>: the loops of a server, and
  \<open>EventLoopThread.h\<close>, \<open>EventLoopThread.cpp\<close>: one thread with its loop.

  A loop is named by the id of its thread. \<open>spawn i\<close> is the thread that \<open>startLoop\<close> of the \<open>i\<close>-th
  \<open>EventLoopThread\<close> gives; \<open>tp_inits\<close> records the loops the initial callback was called with.
\<close>

section \<open>The pool\<close>

record thread_pool =
  tp_baseLoop :: int
  tp_name :: string
  tp_started :: bool
  tp_numThreads :: int
  tp_next :: int
  tp_threads :: "string list"
  tp_loops :: "int list"
  tp_inits :: "int list"

definition EventLoopThreadPool_new :: "int \<Rightarrow> string \<Rightarrow> thread_pool" where
  "EventLoopThreadPool_new base name =
     \<lparr>tp_baseLoop = base, tp_name = name, tp_started = False, tp_numThreads = 0, tp_next = 0,
      tp_threads = [], tp_loops = [], tp_inits = []\<rparr>"

definition EventLoopThreadPool_setThreadNum :: "int \<Rightarrow> thread_pool \<Rightarrow> thread_pool" where
  "EventLoopThreadPool_setThreadNum n pool = pool\<lparr>tp_numThreads := n\<rparr>"

definition pool_in_thread :: "int \<Rightarrow> thread_pool \<Rightarrow> 'a result \<Rightarrow> 'a result" where
  "pool_in_thread tid pool m = (if tid = tp_baseLoop pool then m else Inl Log_fatal)"

text \<open>The body of the loop in \<open>start\<close>; \<open>cb\<close> tells whether there is an initial callback.\<close>

definition EventLoopThreadPool_add :: "(nat \<Rightarrow> int) \<Rightarrow> bool \<Rightarrow> nat \<Rightarrow> thread_pool \<Rightarrow> thread_pool" where
  "EventLoopThreadPool_add spawn cb i pool =
     (let buf = snprintf (length (tp_name pool) + 32) (tp_name pool @ decimal (int i))
      in pool\<lparr>tp_threads := tp_threads pool @ [buf], tp_loops := tp_loops pool @ [spawn i],
              tp_inits := tp_inits pool @ (if cb then [spawn i] else [])\<rparr>)"

definition EventLoopThreadPool_start :: "(nat \<Rightarrow> int) \<Rightarrow> bool \<Rightarrow> int \<Rightarrow> thread_pool \<Rightarrow> thread_pool result" where
  "EventLoopThreadPool_start spawn cb tid pool =
     cassert (\<not> tp_started pool) (pool_in_thread tid pool (
     let pool1 = fold (EventLoopThreadPool_add spawn cb) [0..<nat (tp_numThreads pool)] (pool\<lparr>tp_started := True\<rparr>)
     in Inr (if tp_numThreads pool1 = 0 \<and> cb then pool1\<lparr>tp_inits := tp_inits pool1 @ [tp_baseLoop pool1]\<rparr>
             else pool1)))"

text \<open>An index out of the vector is undefined.\<close>

definition EventLoopThreadPool_getNextLoop :: "int \<Rightarrow> thread_pool \<Rightarrow> (int \<times> thread_pool) result" where
  "EventLoopThreadPool_getNextLoop tid pool = pool_in_thread tid pool (
     cassert (tp_started pool) (
     if tp_loops pool = [] then Inr (tp_baseLoop pool, pool)
     else if tp_next pool < 0 \<or> int (length (tp_loops pool)) \<le> tp_next pool then Inl Undefined_behaviour
     else
       let loop = tp_loops pool ! nat (tp_next pool);
           pool1 = pool\<lparr>tp_next := tp_next pool + 1\<rparr>;
           pool2 = (if length (tp_loops pool1) \<le> size_of_int (tp_next pool1) then pool1\<lparr>tp_next := 0\<rparr> else pool1)
       in Inr (loop, pool2)))"

definition EventLoopThreadPool_getLoopForHash :: "int \<Rightarrow> nat \<Rightarrow> thread_pool \<Rightarrow> int result" where
  "EventLoopThreadPool_getLoopForHash tid hashCode pool = pool_in_thread tid pool (
     Inr (if tp_loops pool = [] then tp_baseLoop pool
          else tp_loops pool ! (hashCode mod length (tp_loops pool))))"

definition EventLoopThreadPool_getAllLoops :: "int \<Rightarrow> thread_pool \<Rightarrow> int list result" where
  "EventLoopThreadPool_getAllLoops tid pool = pool_in_thread tid pool (
     cassert (tp_started pool) (
     Inr (if tp_loops pool = [] then [tp_baseLoop pool] else tp_loops pool)))"

section \<open>Round robin\<close>

fun next_loops :: "int \<Rightarrow> nat \<Rightarrow> thread_pool \<Rightarrow> (int list \<times> thread_pool) result" where
  "next_loops tid 0 pool = Inr ([], pool)"
| "next_loops tid (Suc k) pool =
     andThen (EventLoopThreadPool_getNextLoop tid pool) (\<lambda>(loop, pool1).
     andThen (next_loops tid k pool1) (\<lambda>(loops, pool2). Inr (loop # loops, pool2)))"

lemma start_loops:
  "fold (EventLoopThreadPool_add spawn cb) is pool =
     pool\<lparr>tp_threads := tp_threads pool @ map (\<lambda>i. snprintf (length (tp_name pool) + 32) (tp_name pool @ decimal (int i))) is,
          tp_loops := tp_loops pool @ map spawn is,
          tp_inits := tp_inits pool @ (if cb then map spawn is else [])\<rparr>"
proof (induction "is" arbitrary: pool)
  case (Cons i "is")
  show ?case unfolding fold.simps comp_apply Cons.IH by (simp add: EventLoopThreadPool_add_def Let_def)
qed simp

text \<open>The pool is serving: \<open>tp_next\<close> is the index of the loop to give next.\<close>

definition pool_serving :: "nat \<Rightarrow> thread_pool \<Rightarrow> bool" where
  "pool_serving k pool \<longleftrightarrow> tp_started pool \<and> length (tp_loops pool) < 2 ^ 31 \<and>
     tp_next pool = (if tp_loops pool = [] then 0 else int (k mod length (tp_loops pool)))"

definition pool_loops :: "thread_pool \<Rightarrow> int list" where
  "pool_loops pool = (if tp_loops pool = [] then [tp_baseLoop pool] else tp_loops pool)"

lemma getNextLoop_serving:
  assumes "pool_serving k pool"
  shows "\<exists>pool'. EventLoopThreadPool_getNextLoop (tp_baseLoop pool) pool =
      Inr (pool_loops pool ! (k mod length (pool_loops pool)), pool') \<and>
    pool_serving (Suc k) pool' \<and> pool_loops pool' = pool_loops pool \<and> tp_baseLoop pool' = tp_baseLoop pool"
proof (cases "tp_loops pool = []")
  case True
  then show ?thesis
    using assms by (simp add: EventLoopThreadPool_getNextLoop_def pool_in_thread_def pool_serving_def pool_loops_def)
next
  case False
  define n where "n = length (tp_loops pool)"
  define i where "i = k mod n"
  have i: "i < n" "n < 2 ^ 31" "tp_next pool = int i" "tp_started pool"
    using assms False by (simp_all add: pool_serving_def n_def i_def)
  have suc: "Suc k mod n = (if Suc i = n then 0 else Suc i)" by (simp add: mod_Suc i_def)
  have size: "size_of_int (int i + 1) = Suc i" using i by (simp add: nat_add_distrib)
  have "EventLoopThreadPool_getNextLoop (tp_baseLoop pool) pool =
      Inr (tp_loops pool ! i, pool\<lparr>tp_next := int (Suc k mod n)\<rparr>)"
    using i False size by (simp add: EventLoopThreadPool_getNextLoop_def pool_in_thread_def Let_def suc n_def [symmetric])
  then show ?thesis
    using i False by (simp add: pool_serving_def pool_loops_def n_def [symmetric] i_def [symmetric])
qed

lemma next_loops_serving:
  assumes "pool_serving k pool"
  shows "\<exists>pool'. next_loops (tp_baseLoop pool) m pool =
      Inr (map (\<lambda>i. pool_loops pool ! (i mod length (pool_loops pool))) [k..<k + m], pool') \<and>
    pool_serving (k + m) pool' \<and> pool_loops pool' = pool_loops pool \<and> tp_baseLoop pool' = tp_baseLoop pool"
  using assms
proof (induction m arbitrary: k pool)
  case (Suc m)
  obtain p where p: "EventLoopThreadPool_getNextLoop (tp_baseLoop pool) pool =
      Inr (pool_loops pool ! (k mod length (pool_loops pool)), p)"
    "pool_serving (Suc k) p" "pool_loops p = pool_loops pool" "tp_baseLoop p = tp_baseLoop pool"
    using getNextLoop_serving [OF Suc.prems] by blast
  have "[k..<k + Suc m] = k # [Suc k..<Suc k + m]" by (simp add: upt_rec)
  then show ?case using Suc.IH [OF p(2)] p by auto
qed simp

lemma start_serving:
  assumes "tp_started pool = False" and "tp_next pool = 0" and "tp_loops pool = []" and "0 \<le> tp_numThreads pool"
    and "tp_numThreads pool < 2 ^ 31"
  shows "\<exists>pool'. EventLoopThreadPool_start spawn cb (tp_baseLoop pool) pool = Inr pool' \<and> pool_serving 0 pool' \<and>
    tp_loops pool' = map spawn [0..<nat (tp_numThreads pool)] \<and> tp_baseLoop pool' = tp_baseLoop pool \<and>
    tp_threads pool' = tp_threads pool @ map (\<lambda>i. snprintf (length (tp_name pool) + 32) (tp_name pool @ decimal (int i)))
      [0..<nat (tp_numThreads pool)] \<and>
    tp_inits pool' = tp_inits pool @ (if cb then pool_loops pool' else [])"
  using assms
  by (auto simp: EventLoopThreadPool_start_def pool_in_thread_def start_loops pool_serving_def pool_loops_def Let_def)


text \<open>
  C35: round robin. After \<open>start\<close>, with any number of threads, the loops handed out by successive
  \<open>getNextLoop\<close> calls are the loops of the threads in turn, from the first (the base loop when there
  are no threads); \<open>getLoopForHash\<close> gives equal hashes the same one of them; the initial callback ran
  once in each; every thread has a name of its own, the pool's name with its number, never truncated.
\<close>

theorem EventLoopThreadPool_round_robin:
  fixes base n :: int and spawn :: "nat \<Rightarrow> int"
  assumes n: "0 \<le> n" "n < 2 ^ 31"
  defines "loops \<equiv> (if n = 0 then [base] else map spawn [0..<nat n])"
  shows "\<exists>pool pool'.
    EventLoopThreadPool_start spawn cb base (EventLoopThreadPool_setThreadNum n (EventLoopThreadPool_new base name)) = Inr pool \<and>
    next_loops base m pool = Inr (map (\<lambda>i. loops ! (i mod length loops)) [0..<m], pool') \<and>
    (\<forall>hashCode. EventLoopThreadPool_getLoopForHash base hashCode pool' = Inr (loops ! (hashCode mod length loops))) \<and>
    EventLoopThreadPool_getAllLoops base pool' = Inr loops \<and>
    tp_inits pool = (if cb then loops else []) \<and>
    tp_threads pool = map (\<lambda>i. name @ decimal (int i)) [0..<nat n] \<and> distinct (tp_threads pool)"
proof -
  let ?new = "EventLoopThreadPool_setThreadNum n (EventLoopThreadPool_new base name)"
  obtain pool where pool: "EventLoopThreadPool_start spawn cb base ?new = Inr pool" "pool_serving 0 pool"
    "tp_loops pool = map spawn [0..<nat n]" "tp_baseLoop pool = base"
    "tp_threads pool = map (\<lambda>i. snprintf (length name + 32) (name @ decimal (int i))) [0..<nat n]"
    "tp_inits pool = (if cb then pool_loops pool else [])"
    using start_serving [of ?new spawn cb] n
    by (auto simp: EventLoopThreadPool_setThreadNum_def EventLoopThreadPool_new_def)
  have loops: "pool_loops pool = loops" using pool n by (simp add: pool_loops_def loops_def)
  obtain pool' where pool': "next_loops base m pool = Inr (map (\<lambda>i. loops ! (i mod length loops)) [0..<m], pool')"
    "pool_serving m pool'" "pool_loops pool' = loops" "tp_baseLoop pool' = base"
    using next_loops_serving [OF pool(2), of m] pool(4) loops by auto
  have "length (decimal (int i)) \<le> 31" if "i < nat n" for i
  proof -
    have "int i < 10 ^ 10" using that n by (simp add: zless_nat_eq_int_zless)
    then have "i < 10 ^ 10" by simp
    then show ?thesis using length_dec_digits [of i 10] by (simp add: decimal_def)
  qed
  then have names: "tp_threads pool = map (\<lambda>i. name @ decimal (int i)) [0..<nat n]"
    by (auto simp: pool(5) snprintf_def)
  moreover have "distinct (tp_threads pool)"
    by (simp add: names distinct_map inj_on_def decimal_def)
  moreover have "EventLoopThreadPool_getLoopForHash base hashCode pool' = Inr (loops ! (hashCode mod length loops))" for hashCode
    using pool' by (auto simp: EventLoopThreadPool_getLoopForHash_def pool_in_thread_def pool_loops_def split: if_splits)
  moreover have "EventLoopThreadPool_getAllLoops base pool' = Inr loops"
    using pool' by (auto simp: EventLoopThreadPool_getAllLoops_def pool_in_thread_def pool_loops_def pool_serving_def split: if_splits)
  ultimately show ?thesis using pool pool'(1) loops by blast
qed


lemma EventLoopThreadPool_round_robin_witness:
  "\<exists>pool pool'.
    EventLoopThreadPool_start (\<lambda>i. 20 + int i) True 7
      (EventLoopThreadPool_setThreadNum 3 (EventLoopThreadPool_new 7 ''io'')) = Inr pool \<and>
    next_loops 7 5 pool = Inr ([20, 21, 22, 20, 21], pool') \<and> tp_threads pool = [''io0'', ''io1'', ''io2'']"
proof -
  obtain pool pool' where "EventLoopThreadPool_start (\<lambda>i. 20 + int i) True 7
      (EventLoopThreadPool_setThreadNum 3 (EventLoopThreadPool_new 7 ''io'')) = Inr pool"
    "next_loops 7 5 pool = Inr (map (\<lambda>i. map (\<lambda>i. 20 + int i) [0..<3] ! (i mod 3)) [0..<5], pool')"
    "tp_threads pool = map (\<lambda>i. ''io'' @ decimal (int i)) [0..<3]"
    using EventLoopThreadPool_round_robin [of 3 "\<lambda>i. 20 + int i" True 7 "''io''" 5] by auto
  moreover have "digit_char 0 = CHR ''0''" "digit_char 1 = CHR ''1''" "digit_char (Suc (Suc 0)) = CHR ''2''" by code_simp+
  ultimately show ?thesis
    by (auto simp: upt_rec decimal_def dec_digits.simps intro!: exI [of _ pool])
qed

end
