(* ===== verification/Acceptor.thy ===== *)
theory Acceptor
  imports Poller Errno
begin

text \<open>
  \<open>src/muduo/net/Acceptor.h\<close>, \<open>Acceptor.cpp\<close>: accepting connections, with \<open>Socket.cpp\<close> and the
  part of \<open>SocketsOps.cpp\<close> below it. What the system answers is a parameter: \<open>accept_result\<close> for
  \<open>accept4\<close>, the descriptor that \<open>open\<close> of the null device returns, and whether \<open>bind\<close> and \<open>listen\<close> succeed.
  \<open>errno\<close> is not changed by logging a line.
\<close>

datatype accept_result = Accepted int | Accept_failed int

text \<open>The descriptor (-1 for an error) and \<open>errno\<close>.\<close>

definition sockets_accept :: "accept_result \<Rightarrow> (int \<times> int) result" where
  "sockets_accept r =
     (case r of
        Accepted connfd \<Rightarrow> Inr (connfd, 0)
      | Accept_failed savedErrno \<Rightarrow>
          if savedErrno \<in> {EAGAIN, ECONNABORTED, EINTR, EPROTO, EPERM, EMFILE} then Inr (-1, savedErrno)
          else if savedErrno \<in> {EBADF, EFAULT, EINVAL, ENFILE, ENOBUFS, ENOMEM, ENOTSOCK, EOPNOTSUPP}
          then Inl Log_fatal
          else Inl Log_fatal)"

definition sockets_createNonblockingOrDie :: "int \<Rightarrow> int result" where
  "sockets_createNonblockingOrDie sockfd = (if sockfd < 0 then Inl Log_fatal else Inr sockfd)"

definition sockets_bindOrDie :: "int \<Rightarrow> unit result" where
  "sockets_bindOrDie ret = (if ret < 0 then Inl Log_fatal else Inr ())"

definition sockets_listenOrDie :: "int \<Rightarrow> unit result" where
  "sockets_listenOrDie ret = (if ret < 0 then Inl Log_fatal else Inr ())"

record acceptor =
  ac_owner :: int
  ac_fd :: int
  ac_channel :: "unit channel"
  ac_callback :: bool         \<comment> \<open>whether \<open>newConnectionCallback_\<close> is set\<close>
  ac_listenning :: bool
  ac_idleFd :: int
  ac_closed :: "int list"     \<comment> \<open>the descriptors it has closed\<close>

text \<open>\<open>sockfd\<close>, \<open>bound\<close> and \<open>idle\<close> are what \<open>socket\<close>, \<open>bind\<close> and \<open>open\<close> return.\<close>

definition Acceptor_new :: "int \<Rightarrow> nat \<Rightarrow> int \<Rightarrow> int \<Rightarrow> int \<Rightarrow> acceptor result" where
  "Acceptor_new tid loop sockfd bound idle =
     andThen (sockets_createNonblockingOrDie sockfd) (\<lambda>fd.
     cassert (0 \<le> idle) (
     andThen (sockets_bindOrDie bound) (\<lambda>_.
     Inr \<lparr>ac_owner = tid, ac_fd = fd, ac_channel = Channel_setReadCallback () (Channel_new loop fd),
          ac_callback = False, ac_listenning = False, ac_idleFd = idle, ac_closed = []\<rparr>)))"

definition Acceptor_delete :: "acceptor \<Rightarrow> acceptor result" where
  "Acceptor_delete a =
     (let ch = (ac_channel a)\<lparr>ch_events := 0, ch_addedToLoop := True\<rparr>
      in cassert (Channel_isNoneEvent ch) (
         Inr (a\<lparr>ac_channel := ch\<lparr>ch_addedToLoop := False\<rparr>, ac_closed := ac_closed a @ [ac_idleFd a, ac_fd a]\<rparr>)))"

definition Acceptor_listen :: "int \<Rightarrow> int \<Rightarrow> acceptor \<Rightarrow> acceptor result" where
  "Acceptor_listen tid ret a =
     (if tid \<noteq> ac_owner a then Inl Log_fatal
      else
        let a1 = a\<lparr>ac_listenning := True\<rparr>
        in andThen (sockets_listenOrDie ret) (\<lambda>_.
           Inr (a1\<lparr>ac_channel := (ac_channel a1)
                     \<lparr>ch_events := op_events (Enable_reading 0) (ch_events (ac_channel a1)), ch_addedToLoop := True\<rparr>\<rparr>)))"

text \<open>\<open>r\<close> is the answer to the first accept, \<open>r2\<close> to the one with the spare descriptor, \<open>idle\<close> what \<open>open\<close>
  returns at the end. The result has the descriptor that goes to the callback.\<close>

definition Acceptor_handleRead ::
  "int \<Rightarrow> accept_result \<Rightarrow> accept_result \<Rightarrow> int \<Rightarrow> acceptor \<Rightarrow> (int option \<times> acceptor) result" where
  "Acceptor_handleRead tid r r2 idle a =
     (if tid \<noteq> ac_owner a then Inl Log_fatal
      else
        andThen (sockets_accept r) (\<lambda>(connfd, errno).
        if 0 \<le> connfd then
          if ac_callback a then Inr (Some connfd, a)
          else Inr (None, a\<lparr>ac_closed := ac_closed a @ [connfd]\<rparr>)
        else if errno = EMFILE then
          let a1 = a\<lparr>ac_closed := ac_closed a @ [ac_idleFd a]\<rparr>;
              a2 = a1\<lparr>ac_idleFd := (case r2 of Accepted fd \<Rightarrow> fd | Accept_failed e \<Rightarrow> -1)\<rparr>;
              a3 = a2\<lparr>ac_closed := ac_closed a2 @ [ac_idleFd a2]\<rparr>
          in Inr (None, a3\<lparr>ac_idleFd := idle\<rparr>)
        else Inr (None, a)))"

section \<open>Facts\<close>

definition accept_survives :: "accept_result \<Rightarrow> bool" where
  "accept_survives r \<longleftrightarrow> (case r of Accepted fd \<Rightarrow> 0 \<le> fd
     | Accept_failed e \<Rightarrow> e \<in> {EAGAIN, ECONNABORTED, EINTR, EPROTO, EPERM, EMFILE})"

lemma Acceptor_handleRead_survives:
  assumes "accept_survives r" and "tid = ac_owner a" and "ac_callback a"
  shows "\<exists>a'. Acceptor_handleRead tid r r2 idle a =
      Inr (case r of Accepted fd \<Rightarrow> Some fd | Accept_failed e \<Rightarrow> None, a') \<and>
    ac_owner a' = ac_owner a \<and> ac_callback a' \<and> ac_listenning a' = ac_listenning a \<and> ac_channel a' = ac_channel a"
  using assms by (cases r) (auto simp: Acceptor_handleRead_def sockets_accept_def accept_survives_def Let_def)

end
