(* ===== verification/Tcp_Server.thy ===== *)
theory Tcp_Server
  imports Conn_Properties Thread_Pool Acceptor Std_Map
begin

text \<open>
  \<open>src/muduo/net/TcpServer.h\<close>, \<open>TcpServer.cpp\<close>: a server with its acceptor, its loops and its
  connections.

  A loop is named by the id of its thread, which is also its address. The objects behind the
  \<open>TcpConnectionPtr\<close>s are in the store \<open>sv_objects\<close>, under the number of the connection. \<open>sv_queue\<close> has the
  functors that the server has queued in the loops, in the order they were queued; each loop runs
  its own first. \<open>kern p\<close> and \<open>user p\<close> are the kernel's answers and the user's code for connection \<open>p\<close>.
\<close>

section \<open>The object\<close>

datatype server_task = Establish_conn nat | Remove_conn nat | Destroy_conn nat

record tcp_server =
  sv_owner :: int
  sv_ipPort :: string
  sv_name :: string
  sv_acceptor :: acceptor
  sv_pool :: thread_pool
  sv_writeComplete :: bool       \<comment> \<open>whether \<open>writeCompleteCallback_\<close> is set\<close>
  sv_started :: int
  sv_nextConnId :: int
  sv_connections :: "(string \<times> nat) list"
  sv_objects :: "nat \<Rightarrow> tcp_connection option"
  sv_created :: nat
  sv_queue :: "(int \<times> server_task) list"

definition TcpServer_new :: "int \<Rightarrow> string \<Rightarrow> string \<Rightarrow> bool \<Rightarrow> int \<Rightarrow> int \<Rightarrow> int \<Rightarrow> tcp_server result" where
  "TcpServer_new tid ipPort name wcb sockfd bound idle =
     andThen (Acceptor_new tid (nat tid) sockfd bound idle) (\<lambda>a.
     Inr \<lparr>sv_owner = tid, sv_ipPort = ipPort, sv_name = name, sv_acceptor = a\<lparr>ac_callback := True\<rparr>,
          sv_pool = EventLoopThreadPool_new tid name, sv_writeComplete = wcb, sv_started = 0,
          sv_nextConnId = 1, sv_connections = [], sv_objects = Map.empty, sv_created = 0, sv_queue = []\<rparr>)"

definition TcpServer_setThreadNum :: "int \<Rightarrow> tcp_server \<Rightarrow> tcp_server result" where
  "TcpServer_setThreadNum numThreads sv =
     cassert (0 \<le> numThreads) (
     Inr (sv\<lparr>sv_pool := EventLoopThreadPool_setThreadNum numThreads (sv_pool sv)\<rparr>))"

text \<open>\<open>listened\<close> is what \<open>listen(2)\<close> returns. The pool has checked the thread, so \<open>listen\<close> runs at once.\<close>

definition TcpServer_start :: "(nat \<Rightarrow> int) \<Rightarrow> bool \<Rightarrow> int \<Rightarrow> int \<Rightarrow> tcp_server \<Rightarrow> tcp_server result" where
  "TcpServer_start spawn cb listened tid sv =
     (if sv_started sv = 0 then
        let sv1 = sv\<lparr>sv_started := 1\<rparr>
        in andThen (EventLoopThreadPool_start spawn cb tid (sv_pool sv1)) (\<lambda>pool.
           cassert (\<not> ac_listenning (sv_acceptor sv1)) (
           andThen (Acceptor_listen tid listened (sv_acceptor sv1)) (\<lambda>a.
           Inr (sv1\<lparr>sv_pool := pool, sv_acceptor := a\<rparr>))))
      else Inr (sv\<lparr>sv_started := 1\<rparr>))"

definition server_queue :: "int \<Rightarrow> server_task \<Rightarrow> tcp_server \<Rightarrow> tcp_server" where
  "server_queue loop task sv = sv\<lparr>sv_queue := sv_queue sv @ [(loop, task)]\<rparr>"

section \<open>Removing connections\<close>

definition TcpServer_removeConnectionInLoop :: "int \<Rightarrow> nat \<Rightarrow> tcp_server \<Rightarrow> tcp_server result" where
  "TcpServer_removeConnectionInLoop tid p sv =
     (if tid \<noteq> sv_owner sv then Inl Log_fatal
      else deref (sv_objects sv) p (\<lambda>conn.
        let n = (case map_find (sv_connections sv) (tc_name conn) of None \<Rightarrow> 0 | Some q \<Rightarrow> (1::nat));
            sv1 = sv\<lparr>sv_connections := map_erase (tc_name conn) (sv_connections sv)\<rparr>
        in cassert (n = 1) (Inr (server_queue (tc_owner conn) (Destroy_conn p) sv1))))"

definition TcpServer_removeConnection :: "int \<Rightarrow> nat \<Rightarrow> tcp_server \<Rightarrow> tcp_server result" where
  "TcpServer_removeConnection tid p sv =
     (if tid = sv_owner sv then TcpServer_removeConnectionInLoop tid p sv
      else Inr (server_queue (sv_owner sv) (Remove_conn p) sv))"

text \<open>The close callback of the connections is \<open>removeConnection\<close>, called in the thread of the
  connection's loop as the last thing that \<open>handleClose\<close> does; the user has no part in it.\<close>

definition server_user :: "conn_user \<Rightarrow> conn_user" where
  "server_user user ev c = (case ev of Close_event \<Rightarrow> [] | _ \<Rightarrow> user ev c)"

definition close_reported :: "tcp_connection \<Rightarrow> tcp_connection \<Rightarrow> bool" where
  "close_reported c c' \<longleftrightarrow> Close_event \<in> set (tc_log c') \<and> Close_event \<notin> set (tc_log c)"

definition server_on_conn ::
  "nat \<Rightarrow> (tcp_connection \<Rightarrow> tcp_connection result) \<Rightarrow> tcp_server \<Rightarrow> tcp_server result" where
  "server_on_conn p f sv = deref (sv_objects sv) p (\<lambda>c.
     andThen (f c) (\<lambda>c'.
     let sv1 = sv\<lparr>sv_objects := (sv_objects sv)(p \<mapsto> c')\<rparr>
     in if close_reported c c' then TcpServer_removeConnection (tc_owner c') p sv1 else Inr sv1))"

section \<open>New connections\<close>

definition TcpServer_connName :: "tcp_server \<Rightarrow> string" where
  "TcpServer_connName sv =
     sv_name sv @ snprintf 64 (''-'' @ sv_ipPort sv @ ''#'' @ decimal (sv_nextConnId sv))"

text \<open>\<open>nextConnId_\<close> is an \<open>int\<close>: its overflow is undefined.\<close>

definition TcpServer_newConnection ::
  "(nat \<Rightarrow> kernel_write) \<Rightarrow> (nat \<Rightarrow> conn_user) \<Rightarrow> int \<Rightarrow> int \<Rightarrow> tcp_server \<Rightarrow> tcp_server result" where
  "TcpServer_newConnection kern user tid sockfd sv =
     (if tid \<noteq> sv_owner sv then Inl Log_fatal
      else andThen (EventLoopThreadPool_getNextLoop tid (sv_pool sv)) (\<lambda>(ioLoop, pool).
        let connName = TcpServer_connName sv;
            p = sv_created sv;
            sv1 = sv\<lparr>sv_pool := pool, sv_nextConnId := sv_nextConnId sv + 1, sv_created := Suc p,
                     sv_objects := (sv_objects sv)
                       (p \<mapsto> TcpConnection_new ioLoop (nat ioLoop) connName sockfd (sv_writeComplete sv) False),
                     sv_connections := map_put connName p (sv_connections sv)\<rparr>
        in if sv_nextConnId sv = 2 ^ 31 - 1 then Inl Undefined_behaviour
           else if ioLoop = tid then
             server_on_conn p (TcpConnection_connectEstablished (kern p) (server_user (user p)) tid) sv1
           else Inr (server_queue ioLoop (Establish_conn p) sv1)))"

section \<open>The end\<close>

definition TcpServer_destroy_one ::
  "(nat \<Rightarrow> kernel_write) \<Rightarrow> (nat \<Rightarrow> conn_user) \<Rightarrow> int \<Rightarrow> tcp_server \<Rightarrow> string \<times> nat \<Rightarrow> tcp_server result" where
  "TcpServer_destroy_one kern user tid sv item =
     deref (sv_objects sv) (snd item) (\<lambda>conn.
     if tc_owner conn = tid then
       andThen (TcpConnection_connectDestroyed (kern (snd item)) (server_user (user (snd item))) tid conn) (\<lambda>conn'.
       Inr (sv\<lparr>sv_objects := (sv_objects sv)(snd item \<mapsto> conn')\<rparr>))
     else Inr (server_queue (tc_owner conn) (Destroy_conn (snd item)) sv))"

definition TcpServer_delete ::
  "(nat \<Rightarrow> kernel_write) \<Rightarrow> (nat \<Rightarrow> conn_user) \<Rightarrow> int \<Rightarrow> tcp_server \<Rightarrow> tcp_server result" where
  "TcpServer_delete kern user tid sv =
     (if tid \<noteq> sv_owner sv then Inl Log_fatal
      else foldR (TcpServer_destroy_one kern user tid) sv (sv_connections sv))"

section \<open>Running a server\<close>

text \<open>The first functor of a loop.\<close>

fun take_task :: "int \<Rightarrow> (int \<times> server_task) list \<Rightarrow> (server_task \<times> (int \<times> server_task) list) option" where
  "take_task tid [] = None"
| "take_task tid ((loop, task) # rest) =
     (if loop = tid then Some (task, rest)
      else map_option (\<lambda>(task', rest'). (task', (loop, task) # rest')) (take_task tid rest))"

fun server_run_task ::
  "(nat \<Rightarrow> kernel_write) \<Rightarrow> (nat \<Rightarrow> conn_user) \<Rightarrow> int \<Rightarrow> tcp_server \<Rightarrow> server_task \<Rightarrow> tcp_server result" where
  "server_run_task kern user tid sv (Establish_conn p) =
     server_on_conn p (TcpConnection_connectEstablished (kern p) (server_user (user p)) tid) sv"
| "server_run_task kern user tid sv (Remove_conn p) = TcpServer_removeConnectionInLoop tid p sv"
| "server_run_task kern user tid sv (Destroy_conn p) =
     server_on_conn p (TcpConnection_connectDestroyed (kern p) (server_user (user p)) tid) sv"

datatype server_op =
    Incoming accept_result accept_result int   \<comment> \<open>the listening socket is readable\<close>
  | On_conn nat conn_op                        \<comment> \<open>an event, a functor, a timer or a call of one connection\<close>
  | Run_functor int                            \<comment> \<open>the loop of this thread runs the next functor of the server\<close>

fun server_step ::
  "(nat \<Rightarrow> kernel_write) \<Rightarrow> (nat \<Rightarrow> conn_user) \<Rightarrow> tcp_server \<Rightarrow> server_op \<Rightarrow> tcp_server result" where
  "server_step kern user sv (Incoming r r2 idle) =
     andThen (Acceptor_handleRead (sv_owner sv) r r2 idle (sv_acceptor sv)) (\<lambda>(connfd, a).
     let sv1 = sv\<lparr>sv_acceptor := a\<rparr>
     in case connfd of None \<Rightarrow> Inr sv1
        | Some fd \<Rightarrow> TcpServer_newConnection kern user (sv_owner sv) fd sv1)"
| "server_step kern user sv (On_conn p op) =
     server_on_conn p (\<lambda>c. conn_step (kern p) (server_user (user p)) c op) sv"
| "server_step kern user sv (Run_functor tid) =
     (case take_task tid (sv_queue sv) of
        None \<Rightarrow> Inr sv
      | Some (task, rest) \<Rightarrow> server_run_task kern user tid (sv\<lparr>sv_queue := rest\<rparr>) task)"

end
