(* ===== verification/Server_Invariant.thy ===== *)
theory Server_Invariant
  imports Tcp_Server
begin

text \<open>
  The life of the connections of a server (\<open>Tcp_Server\<close>): each is in one of five phases, told by its
  state, the functors queued for it and the map, and every step keeps this so.
\<close>

section \<open>Phases\<close>

lemma server_user_ok: "user_ok user \<Longrightarrow> user_ok (server_user user)"
  by (simp add: user_ok_def server_user_def split: conn_event.split)

fun task_conn :: "server_task \<Rightarrow> nat" where
  "task_conn (Establish_conn p) = p"
| "task_conn (Remove_conn p) = p"
| "task_conn (Destroy_conn p) = p"

definition tasks_of :: "nat \<Rightarrow> (int \<times> server_task) list \<Rightarrow> (int \<times> server_task) list" where
  "tasks_of p q = filter (\<lambda>(t, k). task_conn k = p) q"

lemma tasks_of_append [simp]: "tasks_of p (q @ q') = tasks_of p q @ tasks_of p q'"
  by (simp add: tasks_of_def)

lemma tasks_of_Nil [simp]: "tasks_of p [] = []"
  by (simp add: tasks_of_def)

lemma tasks_of_Cons: "tasks_of p ((t, k) # q) = (if task_conn k = p then (t, k) # tasks_of p q else tasks_of p q)"
  by (simp add: tasks_of_def)

definition conn_down :: "tcp_connection \<Rightarrow> bool" where
  "conn_down c \<longleftrightarrow> tc_state c = kDisconnected \<and> Close_event \<in> set (tc_log c)"

text \<open>Waiting for its loop; up; down and reported to the server's loop; removed from the map; destroyed.\<close>

definition conn_phase :: "int \<Rightarrow> bool \<Rightarrow> (int \<times> server_task) list \<Rightarrow> nat \<Rightarrow> tcp_connection \<Rightarrow> bool" where
  "conn_phase owner mapped tasks p c \<longleftrightarrow>
     tasks = [(tc_owner c, Establish_conn p)] \<and> tc_state c = kConnecting \<and> mapped \<or>
     tasks = [] \<and> conn_live c \<and> mapped \<or>
     tasks = [(owner, Remove_conn p)] \<and> conn_down c \<and> ch_addedToLoop (tc_channel c) \<and> mapped \<or>
     tasks = [(tc_owner c, Destroy_conn p)] \<and> conn_down c \<and> ch_addedToLoop (tc_channel c) \<and> \<not> mapped \<or>
     tasks = [] \<and> conn_down c \<and> \<not> ch_addedToLoop (tc_channel c) \<and> \<not> mapped"

definition conn_name :: "tcp_server \<Rightarrow> nat \<Rightarrow> string" where
  "conn_name sv p = sv_name sv @ ''-'' @ sv_ipPort sv @ ''#'' @ decimal (int p + 1)"

definition conns_inv :: "int list \<Rightarrow> tcp_server \<Rightarrow> bool" where
  "conns_inv loops sv \<longleftrightarrow>
     map_wf (sv_connections sv) \<and>
     (\<forall>p. sv_objects sv p = None \<longleftrightarrow> sv_created sv \<le> p) \<and>
     (\<forall>nm p. map_find (sv_connections sv) nm = Some p \<longrightarrow> (\<exists>c. sv_objects sv p = Some c \<and> tc_name c = nm)) \<and>
     (\<forall>(t, k) \<in> set (sv_queue sv). task_conn k < sv_created sv) \<and>
     (\<forall>p c. sv_objects sv p = Some c \<longrightarrow> conn_good c \<and> tc_name c = conn_name sv p \<and>
        tc_owner c = loops ! (p mod length loops) \<and>
        conn_phase (sv_owner sv) (map_find (sv_connections sv) (tc_name c) = Some p) (tasks_of p (sv_queue sv)) p c)"

definition server_inv :: "int list \<Rightarrow> tcp_server \<Rightarrow> bool" where
  "server_inv loops sv \<longleftrightarrow> conns_inv loops sv \<and>
     pool_serving (sv_created sv) (sv_pool sv) \<and> pool_loops (sv_pool sv) = loops \<and>
     tp_baseLoop (sv_pool sv) = sv_owner sv \<and> ac_owner (sv_acceptor sv) = sv_owner sv \<and>
     ac_callback (sv_acceptor sv) \<and> sv_nextConnId sv = int (sv_created sv) + 1 \<and>
     sv_nextConnId sv < 2 ^ 31 \<and> length (sv_ipPort sv) \<le> 51"

text \<open>What the steps of the connections leave alone.\<close>

definition server_rest :: "tcp_server \<Rightarrow> thread_pool \<times> acceptor \<times> int \<times> nat \<times> int \<times> string \<times> string" where
  "server_rest sv = (sv_pool sv, sv_acceptor sv, sv_nextConnId sv, sv_created sv, sv_owner sv, sv_ipPort sv, sv_name sv)"

lemma server_inv_rest:
  "server_inv loops sv \<Longrightarrow> conns_inv loops sv' \<Longrightarrow> server_rest sv' = server_rest sv \<Longrightarrow> server_inv loops sv'"
  by (simp add: server_inv_def server_rest_def)

lemma conn_name_inject: "conn_name sv p = conn_name sv r \<longleftrightarrow> p = r"
  by (auto simp: conn_name_def decimal_def nat_add_distrib)

lemma conns_invD:
  assumes "conns_inv loops sv" and "sv_objects sv p = Some c"
  shows "conn_good c" and "tc_name c = conn_name sv p" and "tc_owner c = loops ! (p mod length loops)"
    and "conn_phase (sv_owner sv) (map_find (sv_connections sv) (tc_name c) = Some p) (tasks_of p (sv_queue sv)) p c"
    and "p < sv_created sv" and "map_wf (sv_connections sv)"
proof -
  have "\<not> sv_created sv \<le> p" using assms by (auto simp: conns_inv_def dest: spec [of _ p])
  then show "p < sv_created sv" by simp
  show "conn_good c" and "tc_name c = conn_name sv p" and "tc_owner c = loops ! (p mod length loops)"
    and "conn_phase (sv_owner sv) (map_find (sv_connections sv) (tc_name c) = Some p) (tasks_of p (sv_queue sv)) p c"
    and "map_wf (sv_connections sv)"
    using assms unfolding conns_inv_def by blast+
qed

lemma conns_inv_find:
  assumes "conns_inv loops sv" and "sv_objects sv p = Some c"
  shows "map_find (sv_connections sv) (tc_name c) = None \<or> map_find (sv_connections sv) (tc_name c) = Some p"
proof (cases "map_find (sv_connections sv) (tc_name c)")
  case (Some q)
  then obtain d where d: "sv_objects sv q = Some d" "tc_name d = tc_name c"
    using assms(1) unfolding conns_inv_def by blast
  then have "q = p"
    using conns_invD(2) [OF assms(1) d(1)] conns_invD(2) [OF assms] by (simp add: conn_name_inject)
  then show ?thesis using Some by simp
qed simp

text \<open>A step of one connection.\<close>

lemma conns_inv_update:
  assumes inv: "conns_inv loops sv" and c: "sv_objects sv p = Some c" and c': "conn_good c'" "same_conn c c'"
    and sv': "sv' = sv\<lparr>sv_objects := (sv_objects sv)(p \<mapsto> c'), sv_queue := q, sv_connections := m\<rparr>"
    and q: "\<And>r. r \<noteq> p \<Longrightarrow> tasks_of r q = tasks_of r (sv_queue sv)" "\<forall>(t, k) \<in> set q. task_conn k < sv_created sv"
    and m: "map_wf m" "\<And>nm. nm \<noteq> tc_name c \<Longrightarrow> map_find m nm = map_find (sv_connections sv) nm"
      "map_find m (tc_name c) = None \<or> map_find m (tc_name c) = Some p"
    and phase: "conn_phase (sv_owner sv) (map_find m (tc_name c) = Some p) (tasks_of p q) p c'"
  shows "conns_inv loops sv'"
proof -
  note D = conns_invD [OF inv]
  have name: "tc_name c' = tc_name c" "tc_owner c' = tc_owner c" using c'(2) by (simp_all add: same_conn_def)
  have other: "tc_name d \<noteq> tc_name c" if "sv_objects sv r = Some d" "r \<noteq> p" for r d
    using D(2) [OF that(1)] D(2) [OF c] that(2) by (simp add: conn_name_inject)
  have found: "\<exists>d. sv_objects sv' r = Some d \<and> tc_name d = nm" if "map_find m nm = Some r" for nm r
  proof (cases "nm = tc_name c")
    case True
    then have "r = p" using m(3) that by auto
    then show ?thesis using True name by (simp add: sv')
  next
    case False
    then have "map_find (sv_connections sv) nm = Some r" using m(2) that by simp
    then obtain d where "sv_objects sv r = Some d" "tc_name d = nm" using inv unfolding conns_inv_def by blast
    then show ?thesis using False c by (cases "r = p") (auto simp: sv')
  qed
  have each: "conn_good d \<and> tc_name d = conn_name sv r \<and> tc_owner d = loops ! (r mod length loops) \<and>
      conn_phase (sv_owner sv) (map_find m (tc_name d) = Some r) (tasks_of r q) r d"
    if "sv_objects sv' r = Some d" for r d
  proof (cases "r = p")
    case True
    then have "d = c'" using that by (simp add: sv')
    then show ?thesis using True c' name phase D(2,3) [OF c] by simp
  next
    case False
    then have d: "sv_objects sv r = Some d" using that by (simp add: sv')
    then show ?thesis using False D [OF d] other [OF d False] m(2) q(1) by simp
  qed
  have "\<forall>r. sv_objects sv' r = None \<longleftrightarrow> sv_created sv \<le> r"
    using inv D(5) [OF c] by (auto simp: sv' conns_inv_def)
  moreover have e: "sv_connections sv' = m" "sv_queue sv' = q" "sv_owner sv' = sv_owner sv"
    "sv_created sv' = sv_created sv" "conn_name sv' = conn_name sv"
    by (simp_all add: sv' conn_name_def fun_eq_iff)
  ultimately show ?thesis
    unfolding conns_inv_def e using m(1) q(2) found each by blast
qed

section \<open>Steps\<close>

lemma take_task_SomeD:
  assumes "take_task tid q = Some (task, rest)"
  shows "(tid, task) \<in> set q" and "set rest \<subseteq> set q"
    and "r \<noteq> task_conn task \<Longrightarrow> tasks_of r rest = tasks_of r q"
    and "\<exists>xs ys. tasks_of (task_conn task) q = xs @ (tid, task) # ys \<and> tasks_of (task_conn task) rest = xs @ ys"
proof -
  have "\<exists>xs ys. q = xs @ (tid, task) # ys \<and> rest = xs @ ys"
    using assms
  proof (induction tid q arbitrary: rest rule: take_task.induct)
    case (2 tid loop k q)
    show ?case
    proof (cases "loop = tid")
      case True
      then show ?thesis using "2.prems" by (intro exI [of _ "[]"] exI [of _ rest]) simp
    next
      case False
      then obtain rest' where "take_task tid q = Some (task, rest')" "rest = (loop, k) # rest'"
        using "2.prems" by (auto split: prod.splits)
      with "2.IH" [OF False] obtain xs ys where "q = xs @ (tid, task) # ys" "rest' = xs @ ys" by blast
      then show ?thesis using \<open>rest = _\<close> by (intro exI [of _ "(loop, k) # xs"] exI [of _ ys]) simp
    qed
  qed simp
  then obtain xs ys where q: "q = xs @ (tid, task) # ys" "rest = xs @ ys" by blast
  show "(tid, task) \<in> set q" "set rest \<subseteq> set q" using q by auto
  show "r \<noteq> task_conn task \<Longrightarrow> tasks_of r rest = tasks_of r q" by (simp add: q tasks_of_Cons)
  show "\<exists>xs ys. tasks_of (task_conn task) q = xs @ (tid, task) # ys \<and> tasks_of (task_conn task) rest = xs @ ys"
    using q by (auto simp: tasks_of_Cons)
qed


lemma log_ok_close:
  assumes "log_ok st evs" and "Close_event \<in> set evs"
  shows "st = kDisconnected"
proof (rule ccontr)
  assume "st \<noteq> kDisconnected"
  then consider "evs = []" | up where "list_all while_up up" "evs = Connection_event True # up"
    using assms(1) by (cases st) (auto simp: log_ok_def)
  then show False using assms(2) by cases (auto simp: list_all_iff dest: bspec [where x = Close_event])
qed

text \<open>What a step of a connection, short of destroying it, may lead to.\<close>

lemma moves_not_reported:
  assumes good: "conn_good c" "conn_good c'" "conn_moves c c'" and "\<not> close_reported c c'"
  shows "conn_down c \<Longrightarrow> conn_down c'" and "conn_live c \<Longrightarrow> conn_live c'"
proof -
  have log: "\<exists>evs. tc_log c' = tc_log c @ evs" and down: "tc_state c = kDisconnected \<Longrightarrow> tc_state c' = kDisconnected"
    using good(3) by (auto simp: conn_moves_def)
  show "conn_down c \<Longrightarrow> conn_down c'" using log down by (auto simp: conn_down_def)
  assume live: "conn_live c"
  have ok: "log_ok (tc_state c) (tc_log c)" using good(1) by (simp add: conn_good_def)
  have l: "tc_state c \<noteq> kDisconnected" "tc_log c \<noteq> []" "Close_event \<notin> set (tc_log c)"
    using live ok log_ok_close [OF ok] by (auto simp: conn_live_def log_ok_def)
  then have "tc_state c' \<noteq> kDisconnected"
    using good(3) assms(4) by (auto simp: conn_moves_def close_reported_def)
  moreover have "tc_state c' \<noteq> kConnecting" using good(2) log l(2) by (auto simp: conn_good_def log_ok_def)
  ultimately show "conn_live c'" by (cases "tc_state c'") (simp_all add: conn_live_def)
qed

lemma moves_reported:
  assumes good: "conn_good c" "conn_good c'" "conn_moves c c'" and "close_reported c c'"
  shows "conn_down c'" and "\<not> conn_down c"
proof -
  have "Close_event \<in> set (tc_log c')" "Close_event \<notin> set (tc_log c)" using assms(4) by (simp_all add: close_reported_def)
  moreover from this(1) good(2) have "tc_state c' = kDisconnected"
    using log_ok_close [of "tc_state c'" "tc_log c'"] by (simp add: conn_good_def)
  ultimately show "conn_down c'" "\<not> conn_down c" by (simp_all add: conn_down_def)
qed

text \<open>A connection that its loop has not established yet has nothing to do.\<close>

lemma conn_step_waiting:
  assumes good: "conn_good c" and st: "tc_state c = kConnecting" and kern: "kernel_lawful kern"
    and allowed: "conn_op_allowed c op" "op \<noteq> Establish" "op \<noteq> Destroy"
  shows "done_unless (refuses kern) (\<lambda>c'. tc_state c' = kConnecting) (conn_step kern user c op)"
proof (cases op)
  case (Call tid cmd)
  then have "keeps_conn (refuses kern) c (conn_exec kern tid c cmd)"
    using conn_exec_keeps [OF _ kern] good allowed by (simp add: conn_good_def conn_op_allowed_def)
  then show ?thesis
    using Call st unfolding keeps_conn_def conn_step.simps
    by (simp only: Call conn_step.simps) (erule done_unless_mono, simp add: conn_frame_def)
qed (use assms in \<open>simp_all add: conn_good_def conn_sound_def conn_op_allowed_def\<close>)

lemma conn_live_added: "conn_good c \<Longrightarrow> conn_live c \<Longrightarrow> ch_addedToLoop (tc_channel c)"
  by (simp add: conn_good_def conn_sound_def)

text \<open>The close callback: the server forgets the connection, now or when its loop gets to it.\<close>

lemma close_inv:
  assumes inv: "conns_inv loops sv" and c: "sv_objects sv p = Some c" "conn_live c"
    and c': "conn_good c'" "conn_moves c c'" "close_reported c c'"
  shows "\<exists>sv'. TcpServer_removeConnection (tc_owner c') p (sv\<lparr>sv_objects := (sv_objects sv)(p \<mapsto> c')\<rparr>) = Inr sv' \<and>
    conns_inv loops sv' \<and> server_rest sv' = server_rest sv"
proof -
  note D = conns_invD [OF inv c(1)]
  have phase: "tasks_of p (sv_queue sv) = []" "map_find (sv_connections sv) (tc_name c) = Some p"
    using D(4) c(2) by (auto simp: conn_phase_def conn_live_def conn_down_def)
  have same: "same_conn c c'" "tc_name c' = tc_name c" "tc_owner c' = tc_owner c"
    using c'(2) by (auto simp: conn_moves_def same_conn_def)
  have down: "conn_down c'" by (rule moves_reported(1) [OF D(1) c'])
  have added: "ch_addedToLoop (tc_channel c')"
    using conn_live_added [OF D(1) c(2)] c'(2) by (simp add: conn_moves_def)
  have known: "\<forall>(t, k) \<in> set (sv_queue sv). task_conn k < sv_created sv" using inv unfolding conns_inv_def by (elim conjE)
  show ?thesis
  proof (cases "tc_owner c' = sv_owner sv")
    case False
    define sv' where "sv' = sv\<lparr>sv_objects := (sv_objects sv)(p \<mapsto> c'),
      sv_queue := sv_queue sv @ [(sv_owner sv, Remove_conn p)], sv_connections := sv_connections sv\<rparr>"
    have "conns_inv loops sv'"
    proof (rule conns_inv_update [OF inv c(1) c'(1) same(1) sv'_def])
      show "conn_phase (sv_owner sv) (map_find (sv_connections sv) (tc_name c) = Some p)
          (tasks_of p (sv_queue sv @ [(sv_owner sv, Remove_conn p)])) p c'"
        using phase down added by (simp add: conn_phase_def tasks_of_Cons)
    qed (use known D(5,6) phase in \<open>auto simp: tasks_of_Cons\<close>)
    moreover have "TcpServer_removeConnection (tc_owner c') p (sv\<lparr>sv_objects := (sv_objects sv)(p \<mapsto> c')\<rparr>) = Inr sv'"
      using False by (simp add: TcpServer_removeConnection_def server_queue_def sv'_def)
    ultimately show ?thesis by (simp add: sv'_def server_rest_def)
  next
    case True
    define sv' where "sv' = sv\<lparr>sv_objects := (sv_objects sv)(p \<mapsto> c'),
      sv_queue := sv_queue sv @ [(tc_owner c', Destroy_conn p)],
      sv_connections := map_erase (tc_name c') (sv_connections sv)\<rparr>"
    have "conns_inv loops sv'"
    proof (rule conns_inv_update [OF inv c(1) c'(1) same(1) sv'_def])
      show "conn_phase (sv_owner sv) (map_find (map_erase (tc_name c') (sv_connections sv)) (tc_name c) = Some p)
          (tasks_of p (sv_queue sv @ [(tc_owner c', Destroy_conn p)])) p c'"
        using phase down added D(6) same by (simp add: conn_phase_def tasks_of_Cons)
    qed (use known D(5,6) phase same in \<open>auto simp: tasks_of_Cons\<close>)
    moreover have "TcpServer_removeConnection (tc_owner c') p (sv\<lparr>sv_objects := (sv_objects sv)(p \<mapsto> c')\<rparr>) = Inr sv'"
      using True phase same
      by (simp add: TcpServer_removeConnection_def TcpServer_removeConnectionInLoop_def server_queue_def sv'_def Let_def)
    ultimately show ?thesis by (simp add: sv'_def server_rest_def)
  qed
qed


text \<open>A step of a connection that is up or coming up.\<close>

definition keeps_conns :: "bool \<Rightarrow> int list \<Rightarrow> tcp_server \<Rightarrow> tcp_server result \<Rightarrow> bool" where
  "keeps_conns R loops sv r \<longleftrightarrow> done_unless R (\<lambda>sv'. conns_inv loops sv' \<and> server_rest sv' = server_rest sv) r"

lemma keeps_conns_weaken: "keeps_conns R loops sv r \<Longrightarrow> (R \<Longrightarrow> R') \<Longrightarrow> keeps_conns R' loops sv r"
  unfolding keeps_conns_def by (rule done_unless_weaken)

text \<open>The kernel refuses a write on one of the connections.\<close>

definition refuses_some :: "(nat \<Rightarrow> kernel_write) \<Rightarrow> bool" where
  "refuses_some kern \<longleftrightarrow> (\<exists>p. refuses (kern p))"

lemma refuses_someI: "refuses (kern p) \<Longrightarrow> refuses_some kern"
  by (auto simp: refuses_some_def)

lemma on_conn_inv:
  assumes inv: "conns_inv loops sv" and c: "sv_objects sv p = Some c"
    and step: "done_unless R (\<lambda>c'. conn_good c' \<and> conn_moves c c' \<and> (tc_state c = kConnecting \<longrightarrow> tc_state c' = kConnecting)) (f c)"
  shows "keeps_conns R loops sv (server_on_conn p f sv)"
proof (cases "f c")
  case (Inl e)
  then show ?thesis using step c by (simp add: server_on_conn_def keeps_conns_def)
next
  case (Inr c')
  have c': "conn_good c'" "conn_moves c c'" "tc_state c = kConnecting \<Longrightarrow> tc_state c' = kConnecting"
    using step Inr by simp_all
  note D = conns_invD [OF inv c]
  have known: "\<forall>(t, k) \<in> set (sv_queue sv). task_conn k < sv_created sv" using inv unfolding conns_inv_def by (elim conjE)
  show ?thesis
  proof (cases "close_reported c c'")
    case True
    have "conn_live c"
      using moves_reported [OF D(1) c'(1,2) True] c'(3) D(4)
      by (cases "tc_state c") (auto simp: conn_live_def conn_down_def conn_phase_def)
    from close_inv [OF inv c this c'(1,2) True] show ?thesis
      using c Inr True by (auto simp: server_on_conn_def keeps_conns_def)
  next
    case False
    define sv' where "sv' = sv\<lparr>sv_objects := (sv_objects sv)(p \<mapsto> c'), sv_queue := sv_queue sv, sv_connections := sv_connections sv\<rparr>"
    have same: "same_conn c c'" "tc_owner c' = tc_owner c" using c'(2) by (auto simp: conn_moves_def same_conn_def)
    have kept: "conn_down c \<Longrightarrow> conn_down c'" "conn_live c \<Longrightarrow> conn_live c'"
      "tc_state c = kConnecting \<Longrightarrow> tc_state c' = kConnecting"
      "conn_down c \<Longrightarrow> ch_addedToLoop (tc_channel c') = ch_addedToLoop (tc_channel c)"
      using moves_not_reported [OF D(1) c'(1,2) False] c'(2,3) by (simp_all add: conn_moves_def conn_down_def)
    have phase: "conn_phase (sv_owner sv) (map_find (sv_connections sv) (tc_name c) = Some p) (tasks_of p (sv_queue sv)) p c'"
      using D(4) [unfolded conn_phase_def]
      by (elim disjE conjE) (simp_all add: conn_phase_def same(2) kept)
    have "conns_inv loops sv'"
      by (rule conns_inv_update [OF inv c c'(1) same(1) sv'_def])
        (use known D(6) phase conns_inv_find [OF inv c] in auto)
    then show ?thesis
      using c Inr False by (simp add: server_on_conn_def keeps_conns_def sv'_def server_rest_def)
  qed
qed

lemma on_conn_op_inv:
  assumes inv: "conns_inv loops sv" and c: "sv_objects sv p = Some c"
    and ok: "kernel_lawful kern" "user_ok user" and allowed: "conn_op_allowed c op" "op \<noteq> Establish" "op \<noteq> Destroy"
  shows "keeps_conns (refuses kern) loops sv (server_on_conn p (\<lambda>c. conn_step kern user c op) sv)"
proof (rule on_conn_inv [OF inv c])
  note D = conns_invD [OF inv c]
  have "keeps_good (refuses kern) c (conn_step kern user c op)" by (rule conn_step_moves [OF D(1) ok allowed(1,3)])
  moreover have "tc_state c = kConnecting \<Longrightarrow> done_unless (refuses kern) (\<lambda>c'. tc_state c' = kConnecting) (conn_step kern user c op)"
    by (rule conn_step_waiting [OF D(1) _ ok(1) allowed])
  ultimately show "done_unless (refuses kern) (\<lambda>c'. conn_good c' \<and> conn_moves c c' \<and>
      (tc_state c = kConnecting \<longrightarrow> tc_state c' = kConnecting)) (conn_step kern user c op)"
    by (cases "conn_step kern user c op") (auto simp: keeps_good_def)
qed


text \<open>The functors.\<close>

lemma remove_inv:
  assumes inv: "conns_inv loops sv" and task: "take_task (sv_owner sv) (sv_queue sv) = Some (Remove_conn p, rest)"
  shows "keeps_conns R loops sv (TcpServer_removeConnectionInLoop (sv_owner sv) p (sv\<lparr>sv_queue := rest\<rparr>))"
proof -
  note T = take_task_SomeD [OF task]
  have known: "\<forall>(t, k) \<in> set (sv_queue sv). task_conn k < sv_created sv" using inv unfolding conns_inv_def by (elim conjE)
  then have "p < sv_created sv" using T(1) by auto
  then obtain c where c: "sv_objects sv p = Some c" using inv by (cases "sv_objects sv p") (auto simp: conns_inv_def)
  note D = conns_invD [OF inv c]
  have tasks: "tasks_of p (sv_queue sv) = [(sv_owner sv, Remove_conn p)]" "tasks_of p rest = []"
    and phase: "conn_down c" "ch_addedToLoop (tc_channel c)" "map_find (sv_connections sv) (tc_name c) = Some p"
    using D(4) T(4) by (auto simp: conn_phase_def Cons_eq_append_conv append_eq_Cons_conv)
  define sv' where "sv' = sv\<lparr>sv_objects := (sv_objects sv)(p \<mapsto> c), sv_queue := rest @ [(tc_owner c, Destroy_conn p)],
    sv_connections := map_erase (tc_name c) (sv_connections sv)\<rparr>"
  have "conns_inv loops sv'"
  proof (rule conns_inv_update [OF inv c D(1) _ sv'_def])
    show "conn_phase (sv_owner sv) (map_find (map_erase (tc_name c) (sv_connections sv)) (tc_name c) = Some p)
        (tasks_of p (rest @ [(tc_owner c, Destroy_conn p)])) p c"
      using tasks phase D(6) by (simp add: conn_phase_def tasks_of_Cons)
  qed (use known T(2,3) D(5,6) in \<open>auto simp: tasks_of_Cons same_conn_def\<close>)
  moreover have "TcpServer_removeConnectionInLoop (sv_owner sv) p (sv\<lparr>sv_queue := rest\<rparr>) = Inr sv'"
    using c phase by (simp add: TcpServer_removeConnectionInLoop_def server_queue_def sv'_def Let_def fun_upd_idem)
  ultimately show ?thesis by (simp add: keeps_conns_def sv'_def server_rest_def)
qed

lemma remove_task_owner:
  assumes inv: "conns_inv loops sv" and task: "take_task tid (sv_queue sv) = Some (Remove_conn p, rest)"
  shows "tid = sv_owner sv"
proof -
  note T = take_task_SomeD [OF task]
  have "\<forall>(t, k) \<in> set (sv_queue sv). task_conn k < sv_created sv" using inv unfolding conns_inv_def by (elim conjE)
  then have "p < sv_created sv" using T(1) by auto
  then obtain c where c: "sv_objects sv p = Some c" using inv by (cases "sv_objects sv p") (auto simp: conns_inv_def)
  then show ?thesis
    using conns_invD(4) [OF inv c] T(4) by (auto simp: conn_phase_def Cons_eq_append_conv append_eq_Cons_conv)
qed

lemma conn_down_log:
  assumes "conn_good c" and "conn_down c"
  shows "Connection_event False \<in> set (tc_log c)"
proof -
  have "log_ok kDisconnected (tc_log c)" using assms by (simp add: conn_good_def conn_down_def)
  then show ?thesis by (auto simp: log_ok_def)
qed

lemma establish_inv:
  assumes inv: "conns_inv loops sv" and ok: "kernel_lawful kern" "user_ok user"
    and c: "sv_objects sv p = Some c" "tc_state c = kConnecting"
    and rest: "tasks_of p rest = []" "\<And>r. r \<noteq> p \<Longrightarrow> tasks_of r rest = tasks_of r (sv_queue sv)"
      "set rest \<subseteq> set (sv_queue sv)"
  shows "keeps_conns (refuses kern) loops sv
    (server_on_conn p (TcpConnection_connectEstablished kern user (tc_owner c)) (sv\<lparr>sv_queue := rest\<rparr>))"
proof -
  note D = conns_invD [OF inv c(1)]
  have known: "\<forall>(t, k) \<in> set (sv_queue sv). task_conn k < sv_created sv" using inv unfolding conns_inv_def by (elim conjE)
  have mapped: "map_find (sv_connections sv) (tc_name c) = Some p"
    using D(4) c(2) by (auto simp: conn_phase_def conn_live_def conn_down_def)
  from connectEstablished_up [OF D(1) ok c(2)] show ?thesis
  proof (cases "TcpConnection_connectEstablished kern user (tc_owner c) c")
    case (Inr c')
    with connectEstablished_up [OF D(1) ok c(2)]
    have c': "conn_good c'" "conn_moves c c'" "conn_live c'" by simp_all
    define sv' where "sv' = sv\<lparr>sv_objects := (sv_objects sv)(p \<mapsto> c'), sv_queue := rest, sv_connections := sv_connections sv\<rparr>"
    have "conns_inv loops sv'"
      by (rule conns_inv_update [OF inv c(1) c'(1) _ sv'_def])
        (use c' mapped known rest D(6) in \<open>auto simp: conn_moves_def conn_phase_def\<close>)
    moreover have "\<not> close_reported c c'"
      using c' log_ok_close [of "tc_state c'" "tc_log c'"]
      by (auto simp: close_reported_def conn_good_def conn_live_def)
    moreover have "sv\<lparr>sv_queue := rest, sv_objects := (sv_objects sv)(p \<mapsto> c')\<rparr> = sv'" by (simp add: sv'_def)
    moreover have "server_rest sv' = server_rest sv" by (simp add: sv'_def server_rest_def)
    ultimately show ?thesis
      using c Inr by (simp add: server_on_conn_def keeps_conns_def)
  qed (use c in \<open>simp add: server_on_conn_def keeps_conns_def\<close>)
qed

lemma establish_task_inv:
  assumes inv: "conns_inv loops sv" and ok: "kernel_lawful kern" "user_ok user"
    and task: "take_task tid (sv_queue sv) = Some (Establish_conn p, rest)"
  shows "keeps_conns (refuses kern) loops sv (server_on_conn p (TcpConnection_connectEstablished kern user tid) (sv\<lparr>sv_queue := rest\<rparr>))"
proof -
  note T = take_task_SomeD [OF task]
  have known: "\<forall>(t, k) \<in> set (sv_queue sv). task_conn k < sv_created sv" using inv unfolding conns_inv_def by (elim conjE)
  then have "p < sv_created sv" using T(1) by auto
  then obtain c where c: "sv_objects sv p = Some c" using inv by (cases "sv_objects sv p") (auto simp: conns_inv_def)
  have "tid = tc_owner c" "tasks_of p rest = []" "tc_state c = kConnecting"
    using conns_invD(4) [OF inv c] T(4) by (auto simp: conn_phase_def Cons_eq_append_conv append_eq_Cons_conv)
  then show ?thesis using establish_inv [OF inv ok c] T(2,3) by simp
qed

text \<open>A connection that is down is destroyed.\<close>

lemma destroy_down:
  assumes good: "conn_good c" and ok: "kernel_lawful kern" "user_ok user"
    and down: "conn_down c" and added: "ch_addedToLoop (tc_channel c)"
  obtains c' where "TcpConnection_connectDestroyed kern user (tc_owner c) c = Inr c'" and "conn_good c'"
    and "same_conn c c'" and "conn_down c'" and "\<not> ch_addedToLoop (tc_channel c')" and "\<not> close_reported c c'"
proof -
  have st: "tc_state c = kDisconnected" using down by (simp add: conn_down_def)
  have none: "ch_events (tc_channel c) = 0" using good st by (simp add: conn_good_def conn_sound_def)
  obtain c' where run: "TcpConnection_connectDestroyed kern user (tc_owner c) c = Inr c'"
    and c': "tc_state c' = kDisconnected" "tc_log c' = tc_log c" "\<not> ch_addedToLoop (tc_channel c')"
    using st none by (auto simp: TcpConnection_connectDestroyed_def conn_in_thread_def conn_channel_def is_Remove_def
        Channel_isNoneEvent_def)
  moreover have "conn_good c'" "same_conn c c'"
    using connectDestroyed_good [OF good ok _ added] st run by (simp_all add: keeps_id_def)
  ultimately show ?thesis using that down by (simp add: conn_down_def close_reported_def)
qed

lemma destroy_inv:
  assumes inv: "conns_inv loops sv"
    and task: "take_task tid (sv_queue sv) = Some (Destroy_conn p, rest)" and ok: "kernel_lawful kern" "user_ok user"
  shows "keeps_conns (refuses kern) loops sv (server_on_conn p (TcpConnection_connectDestroyed kern user tid) (sv\<lparr>sv_queue := rest\<rparr>))"
proof -
  note T = take_task_SomeD [OF task]
  have known: "\<forall>(t, k) \<in> set (sv_queue sv). task_conn k < sv_created sv" using inv unfolding conns_inv_def by (elim conjE)
  then have "p < sv_created sv" using T(1) by auto
  then obtain c where c: "sv_objects sv p = Some c" using inv by (cases "sv_objects sv p") (auto simp: conns_inv_def)
  note D = conns_invD [OF inv c]
  have tasks: "tid = tc_owner c" "tasks_of p rest = []"
    and phase: "conn_down c" "ch_addedToLoop (tc_channel c)" "map_find (sv_connections sv) (tc_name c) \<noteq> Some p"
    using D(4) T(4) by (auto simp: conn_phase_def Cons_eq_append_conv append_eq_Cons_conv)
  obtain c' where run: "TcpConnection_connectDestroyed kern user (tc_owner c) c = Inr c'"
    and good: "conn_good c'" "same_conn c c'"
    and c': "conn_down c'" "\<not> ch_addedToLoop (tc_channel c')" "\<not> close_reported c c'"
    by (rule destroy_down [OF D(1) ok phase(1,2)])
  define sv' where "sv' = sv\<lparr>sv_objects := (sv_objects sv)(p \<mapsto> c'), sv_queue := rest, sv_connections := sv_connections sv\<rparr>"
  have "conns_inv loops sv'"
    by (rule conns_inv_update [OF inv c good sv'_def])
      (use c' tasks phase known T(2,3) D(6) conns_inv_find [OF inv c] in \<open>auto simp: conn_phase_def conn_down_def\<close>)
  moreover have "sv\<lparr>sv_queue := rest, sv_objects := (sv_objects sv)(p \<mapsto> c')\<rparr> = sv'" by (simp add: sv'_def)
  moreover have "server_rest sv' = server_rest sv" by (simp add: sv'_def server_rest_def)
  ultimately show ?thesis
    using c tasks(1) run c'(3) by (simp add: server_on_conn_def keeps_conns_def)
qed


section \<open>Accepting\<close>

lemma connName_ok:
  assumes "server_inv loops sv"
  shows "TcpServer_connName sv = conn_name sv (sv_created sv)"
proof -
  have "int (sv_created sv) + 1 < 10 ^ 10" using assms by (simp add: server_inv_def)
  then have "sv_created sv + 1 < 10 ^ 10" by simp
  then have "length (dec_digits (sv_created sv + 1)) \<le> 10" by (rule length_dec_digits) simp
  then have "length (''-'' @ sv_ipPort sv @ ''#'' @ decimal (sv_nextConnId sv)) \<le> 63"
    using assms by (simp add: server_inv_def decimal_def nat_add_distrib)
  then show ?thesis
    using assms by (simp add: TcpServer_connName_def conn_name_def snprintf_def server_inv_def)
qed

text \<open>A new connection, waiting for its loop.\<close>

lemma conns_inv_new:
  assumes ci: "conns_inv loops sv" and p: "p = sv_created sv"
    and c: "conn_good c" "tc_name c = conn_name sv p" "tc_owner c = loops ! (p mod length loops)" "tc_state c = kConnecting"
    and sv': "sv_objects sv' = (sv_objects sv)(p \<mapsto> c)" "sv_connections sv' = map_put (tc_name c) p (sv_connections sv)"
      "sv_created sv' = Suc p" "sv_queue sv' = sv_queue sv @ [(tc_owner c, Establish_conn p)]"
      "sv_owner sv' = sv_owner sv" "conn_name sv' = conn_name sv"
  shows "conns_inv loops sv'"
proof -
  have fresh: "sv_objects sv p = None" using ci p by (simp add: conns_inv_def)
  have known: "\<forall>(t, k) \<in> set (sv_queue sv). task_conn k < p" using ci p unfolding conns_inv_def by blast
  then have none: "tasks_of p (sv_queue sv) = []" by (auto simp: tasks_of_def filter_empty_conv)
  have found: "\<exists>d. sv_objects sv' r = Some d \<and> tc_name d = nm" if "map_find (sv_connections sv') nm = Some r" for nm r
  proof (cases "nm = tc_name c")
    case True
    then show ?thesis using that by (simp add: sv')
  next
    case False
    then have "map_find (sv_connections sv) nm = Some r" using that by (simp add: sv')
    then obtain d where "sv_objects sv r = Some d" "tc_name d = nm" using ci unfolding conns_inv_def by blast
    then show ?thesis using fresh by (cases "r = p") (simp_all add: sv')
  qed
  have each: "conn_good d \<and> tc_name d = conn_name sv' r \<and> tc_owner d = loops ! (r mod length loops) \<and>
      conn_phase (sv_owner sv') (map_find (sv_connections sv') (tc_name d) = Some r) (tasks_of r (sv_queue sv')) r d"
    if "sv_objects sv' r = Some d" for r d
  proof (cases "r = p")
    case True
    then show ?thesis using that c none by (simp add: sv' conn_phase_def tasks_of_Cons)
  next
    case False
    then have old: "sv_objects sv r = Some d" using that by (simp add: sv')
    note D = conns_invD [OF ci old]
    have "tc_name d \<noteq> tc_name c" using D(2) c(2) False by (simp add: conn_name_inject)
    then show ?thesis using D False by (simp add: sv' tasks_of_Cons)
  qed
  have "\<forall>r. sv_objects sv' r = None \<longleftrightarrow> sv_created sv' \<le> r"
    using ci p by (auto simp: sv' conns_inv_def)
  moreover have "map_wf (sv_connections sv')" using ci by (simp add: sv' conns_inv_def)
  moreover have "\<forall>(t, k) \<in> set (sv_queue sv'). task_conn k < sv_created sv'" using known by (auto simp: sv')
  ultimately show ?thesis unfolding conns_inv_def using found each by blast
qed

definition same_server :: "tcp_server \<Rightarrow> tcp_server \<Rightarrow> bool" where
  "same_server sv sv' \<longleftrightarrow> sv_name sv' = sv_name sv \<and> sv_ipPort sv' = sv_ipPort sv \<and> sv_created sv \<le> sv_created sv'"

lemma newConnection_inv:
  assumes inv: "server_inv loops sv" and ok: "\<And>p. kernel_lawful (kern p)" "\<And>p. user_ok (user p)"
    and fd: "0 \<le> sockfd" and room: "sv_nextConnId sv < 2 ^ 31 - 1"
  shows "done_unless (refuses_some kern) (\<lambda>sv'. server_inv loops sv' \<and> same_server sv sv' \<and> sv_created sv' = Suc (sv_created sv))
    (TcpServer_newConnection kern user (sv_owner sv) sockfd sv)"
proof -
  let ?p = "sv_created sv"
  have ci: "conns_inv loops sv" using inv by (simp add: server_inv_def)
  obtain pool where pool: "EventLoopThreadPool_getNextLoop (sv_owner sv) (sv_pool sv) =
      Inr (loops ! (?p mod length loops), pool)"
    "pool_serving (Suc ?p) pool" "pool_loops pool = loops" "tp_baseLoop pool = sv_owner sv"
    using getNextLoop_serving [of ?p "sv_pool sv"] inv by (auto simp: server_inv_def)
  define ioLoop where "ioLoop = loops ! (?p mod length loops)"
  define c where "c = TcpConnection_new ioLoop (nat ioLoop) (TcpServer_connName sv) sockfd (sv_writeComplete sv) False"
  have c: "conn_good c" "tc_name c = conn_name sv ?p" "tc_owner c = ioLoop" "tc_state c = kConnecting"
    using TcpConnection_new_good [OF fd] connName_ok [OF inv] by (simp_all add: c_def TcpConnection_new_def)
  define sv1 where "sv1 = sv\<lparr>sv_pool := pool, sv_nextConnId := sv_nextConnId sv + 1, sv_created := Suc ?p,
      sv_objects := (sv_objects sv)(?p \<mapsto> c), sv_connections := map_put (tc_name c) ?p (sv_connections sv)\<rparr>"
  define sv2 where "sv2 = server_queue ioLoop (Establish_conn ?p) sv1"
  have conns: "conns_inv loops sv2"
    by (rule conns_inv_new [OF ci refl c(1,2) _ c(4)])
      (use c(3) in \<open>simp_all add: sv2_def sv1_def server_queue_def ioLoop_def conn_name_def fun_eq_iff\<close>)
  have queued: "server_inv loops sv2"
    using conns inv pool room by (simp add: server_inv_def sv2_def sv1_def server_queue_def)
  have run: "TcpServer_newConnection kern user (sv_owner sv) sockfd sv =
      (if ioLoop = sv_owner sv then
         server_on_conn ?p (TcpConnection_connectEstablished (kern ?p) (server_user (user ?p)) (sv_owner sv)) sv1
       else Inr sv2)"
    using pool room by (simp add: TcpServer_newConnection_def ioLoop_def [symmetric] c_def sv1_def sv2_def Let_def
        TcpConnection_new_def)
  show ?thesis
  proof (cases "ioLoop = sv_owner sv")
    case False
    then show ?thesis using run queued by (simp add: sv2_def sv1_def server_queue_def same_server_def)
  next
    case True
    have "tasks_of ?p (sv_queue sv2) = [(ioLoop, Establish_conn ?p)]"
      using conns_invD(4) [OF conns, of ?p c] c(4)
      by (auto simp: sv2_def sv1_def server_queue_def conn_phase_def conn_live_def conn_down_def c(3))
    then have rest: "tasks_of ?p (sv_queue sv) = []" by (simp add: sv2_def sv1_def server_queue_def tasks_of_Cons)
    have "keeps_conns (refuses (kern ?p)) loops sv2 (server_on_conn ?p
        (TcpConnection_connectEstablished (kern ?p) (server_user (user ?p)) (tc_owner c)) (sv2\<lparr>sv_queue := sv_queue sv\<rparr>))"
      by (rule establish_inv [OF conns ok(1) server_user_ok [OF ok(2)] _ c(4) rest])
        (auto simp: sv2_def sv1_def server_queue_def tasks_of_Cons)
    moreover have "sv2\<lparr>sv_queue := sv_queue sv\<rparr> = sv1" by (simp add: sv2_def sv1_def server_queue_def)
    ultimately have kept: "keeps_conns (refuses_some kern) loops sv2 (TcpServer_newConnection kern user (sv_owner sv) sockfd sv)"
      using run True c(3) keeps_conns_weaken [OF _ refuses_someI] by simp
    show ?thesis
      by (rule done_unless_mono [OF kept [unfolded keeps_conns_def]])
        (use server_inv_rest [OF queued] in \<open>auto simp: server_rest_def sv2_def sv1_def server_queue_def same_server_def\<close>)
  qed
qed

end
