(* ===== verification/Server_Properties.thy ===== *)
theory Server_Properties
  imports Server_Invariant
begin

text \<open>
  What \<open>TcpServer\<close> promises over a whole run: any interleaving of new connections, of events, timers and
  calls on the connections, and of the loops running the server's functors.
\<close>

section \<open>Runs\<close>

text \<open>The contract: \<open>accept\<close> may fail in the ways that the code calls expected, and ids do not run out.\<close>

definition server_op_allowed :: "tcp_server \<Rightarrow> server_op \<Rightarrow> bool" where
  "server_op_allowed sv op \<longleftrightarrow>
     (case op of
        Incoming r r2 idle \<Rightarrow> accept_survives r \<and> sv_nextConnId sv < 2 ^ 31 - 1
      | On_conn p cop \<Rightarrow> cop \<noteq> Establish \<and> cop \<noteq> Destroy \<and>
          (case sv_objects sv p of None \<Rightarrow> False | Some c \<Rightarrow> conn_op_allowed c cop)
      | Run_functor tid \<Rightarrow> True)"

fun server_run_allowed ::
  "(nat \<Rightarrow> kernel_write) \<Rightarrow> (nat \<Rightarrow> conn_user) \<Rightarrow> tcp_server \<Rightarrow> server_op list \<Rightarrow> bool" where
  "server_run_allowed kern user sv [] \<longleftrightarrow> True"
| "server_run_allowed kern user sv (op # ops) \<longleftrightarrow> server_op_allowed sv op \<and>
     (case server_step kern user sv op of Inl e \<Rightarrow> True | Inr sv' \<Rightarrow> server_run_allowed kern user sv' ops)"

definition server_kept :: "bool \<Rightarrow> int list \<Rightarrow> tcp_server \<Rightarrow> tcp_server result \<Rightarrow> bool" where
  "server_kept R loops sv r \<longleftrightarrow> done_unless R (\<lambda>sv'. server_inv loops sv' \<and> same_server sv sv') r"

lemma keeps_conns_kept:
  assumes "server_inv loops sv" and "keeps_conns R loops sv r"
  shows "server_kept R loops sv r"
  unfolding server_kept_def
  by (rule done_unless_mono [OF assms(2) [unfolded keeps_conns_def]])
    (use server_inv_rest [OF assms(1)] in \<open>auto simp: server_rest_def same_server_def\<close>)

lemma conns_inv_acceptor [simp]: "conns_inv loops (sv\<lparr>sv_acceptor := a\<rparr>) \<longleftrightarrow> conns_inv loops sv"
proof -
  have "conn_name (sv\<lparr>sv_acceptor := a\<rparr>) = conn_name sv" by (simp add: conn_name_def fun_eq_iff)
  then show ?thesis by (simp add: conns_inv_def)
qed

lemma functor_kept:
  assumes inv: "server_inv loops sv" and ok: "\<And>p. kernel_lawful (kern p)" "\<And>p. user_ok (user p)"
  shows "server_kept (refuses_some kern) loops sv (server_step kern user sv (Run_functor tid))"
proof (cases "take_task tid (sv_queue sv)")
  case None
  then show ?thesis using inv by (simp add: server_kept_def same_server_def)
next
  case (Some tr)
  then obtain task rest where t: "take_task tid (sv_queue sv) = Some (task, rest)" by (cases tr) simp
  have ci: "conns_inv loops sv" using inv by (simp add: server_inv_def)
  have "keeps_conns (refuses_some kern) loops sv (server_run_task kern user tid (sv\<lparr>sv_queue := rest\<rparr>) task)"
  proof (cases task)
    case (Establish_conn p)
    have "keeps_conns (refuses_some kern) loops sv
        (server_on_conn p (TcpConnection_connectEstablished (kern p) (server_user (user p)) tid) (sv\<lparr>sv_queue := rest\<rparr>))"
      by (rule keeps_conns_weaken [OF establish_task_inv [OF ci ok(1) server_user_ok [OF ok(2)]] refuses_someI])
        (use t Establish_conn in simp)
    then show ?thesis using Establish_conn by simp
  next
    case (Remove_conn p)
    then have "tid = sv_owner sv" using remove_task_owner [OF ci] t by simp
    then show ?thesis using remove_inv [OF ci] t Remove_conn by simp
  next
    case (Destroy_conn p)
    have "keeps_conns (refuses_some kern) loops sv
        (server_on_conn p (TcpConnection_connectDestroyed (kern p) (server_user (user p)) tid) (sv\<lparr>sv_queue := rest\<rparr>))"
      by (rule keeps_conns_weaken [OF destroy_inv [OF ci _ ok(1) server_user_ok [OF ok(2)]] refuses_someI])
        (use t Destroy_conn in simp)
    then show ?thesis using Destroy_conn by simp
  qed
  then show ?thesis using t keeps_conns_kept [OF inv] by simp
qed

lemma server_step_kept:
  assumes inv: "server_inv loops sv" and ok: "\<And>p. kernel_lawful (kern p)" "\<And>p. user_ok (user p)"
    and allowed: "server_op_allowed sv op"
  shows "server_kept (refuses_some kern) loops sv (server_step kern user sv op)"
proof (cases op)
  case (Incoming r r2 idle)
  then have r: "accept_survives r" "sv_nextConnId sv < 2 ^ 31 - 1" using allowed by (simp_all add: server_op_allowed_def)
  obtain a where a: "Acceptor_handleRead (sv_owner sv) r r2 idle (sv_acceptor sv) =
      Inr (case r of Accepted fd \<Rightarrow> Some fd | Accept_failed e \<Rightarrow> None, a)"
    "ac_owner a = ac_owner (sv_acceptor sv)" "ac_callback a"
    using Acceptor_handleRead_survives [OF r(1), of "sv_owner sv" "sv_acceptor sv"] inv by (auto simp: server_inv_def)
  have inv': "server_inv loops (sv\<lparr>sv_acceptor := a\<rparr>)"
    using inv a(2,3) by (simp add: server_inv_def conns_inv_acceptor)
  show ?thesis
  proof (cases r)
    case (Accepted fd)
    then have fd: "0 \<le> fd" using r(1) by (simp add: accept_survives_def)
    have "done_unless (refuses_some kern) (\<lambda>sv'. server_inv loops sv' \<and> same_server (sv\<lparr>sv_acceptor := a\<rparr>) sv')
        (TcpServer_newConnection kern user (sv_owner (sv\<lparr>sv_acceptor := a\<rparr>)) fd (sv\<lparr>sv_acceptor := a\<rparr>))"
      by (rule done_unless_mono [OF newConnection_inv [OF inv' ok fd]])
        (use r(2) in \<open>auto simp: same_server_def\<close>)
    then show ?thesis using Incoming Accepted a(1) by (simp add: server_kept_def same_server_def)
  next
    case (Accept_failed e)
    then show ?thesis using Incoming a(1) inv' by (simp add: server_kept_def same_server_def)
  qed
next
  case (On_conn p cop)
  then obtain c where c: "sv_objects sv p = Some c" "conn_op_allowed c cop" "cop \<noteq> Establish" "cop \<noteq> Destroy"
    using allowed by (auto simp: server_op_allowed_def split: option.splits)
  have "conns_inv loops sv" using inv by (simp add: server_inv_def)
  from keeps_conns_weaken [OF on_conn_op_inv [OF this c(1) ok(1) server_user_ok [OF ok(2)] c(2-4)] refuses_someI]
  have "keeps_conns (refuses_some kern) loops sv
      (server_on_conn p (\<lambda>c. conn_step (kern p) (server_user (user p)) c cop) sv)" .
  then show ?thesis using On_conn keeps_conns_kept [OF inv] by simp
next
  case (Run_functor tid)
  then show ?thesis using functor_kept [OF inv ok] by simp
qed

lemma server_run_kept:
  assumes "server_inv loops sv" and ok: "\<And>p. kernel_lawful (kern p)" "\<And>p. user_ok (user p)"
    and "server_run_allowed kern user sv ops"
  shows "server_kept (refuses_some kern) loops sv (foldR (server_step kern user) sv ops)"
  using assms(1,4)
proof (induction ops arbitrary: sv)
  case (Cons op ops)
  have step: "server_kept (refuses_some kern) loops sv (server_step kern user sv op)"
    using server_step_kept [OF Cons.prems(1) ok] Cons.prems(2) by simp
  show ?case
    unfolding server_kept_def foldR.simps
  proof (rule done_unless_andThen [OF step [unfolded server_kept_def]])
    fix sv' assume run: "server_step kern user sv op = Inr sv'" and sv': "server_inv loops sv' \<and> same_server sv sv'"
    then have "server_kept (refuses_some kern) loops sv' (foldR (server_step kern user) sv' ops)"
      using Cons.IH [of sv'] Cons.prems(2) by simp
    then show "done_unless (refuses_some kern) (\<lambda>sv'. server_inv loops sv' \<and> same_server sv sv') (foldR (server_step kern user) sv' ops)"
      unfolding server_kept_def by (rule done_unless_mono) (use sv' in \<open>auto simp: same_server_def\<close>)
  qed
qed (simp add: server_kept_def same_server_def)

lemma server_starts:
  assumes new: "TcpServer_new tid ipPort name wcb sockfd bound idle = Inr sv1"
    and threads: "TcpServer_setThreadNum n sv1 = Inr sv2" and start: "TcpServer_start spawn cb listened tid sv2 = Inr sv"
    and n: "n < 2 ^ 31" and len: "length ipPort \<le> 51"
  shows "server_inv (if n = 0 then [tid] else map spawn [0..<nat n]) sv" and "sv_name sv = name" and "sv_ipPort sv = ipPort"
    and "sv_created sv = 0"
proof -
  have sv1: "sv_owner sv1 = tid" "sv_ipPort sv1 = ipPort" "sv_name sv1 = name" "sv_started sv1 = 0" "sv_nextConnId sv1 = 1"
    "sv_connections sv1 = []" "sv_objects sv1 = Map.empty" "sv_created sv1 = 0" "sv_queue sv1 = []"
    "ac_owner (sv_acceptor sv1) = tid" "ac_callback (sv_acceptor sv1)" "sv_pool sv1 = EventLoopThreadPool_new tid name"
    using new by (auto simp: TcpServer_new_def Acceptor_new_def andThen_eq_Inr cassert_def split: if_splits)
  have sv2: "sv2 = sv1\<lparr>sv_pool := EventLoopThreadPool_setThreadNum n (sv_pool sv1)\<rparr>" and n0: "0 \<le> n"
    using threads by (auto simp: TcpServer_setThreadNum_def cassert_def split: if_splits)
  let ?pool = "EventLoopThreadPool_setThreadNum n (EventLoopThreadPool_new tid name)"
  obtain pool where pool: "EventLoopThreadPool_start spawn cb tid ?pool = Inr pool" "pool_serving 0 pool"
    "tp_loops pool = map spawn [0..<nat n]" "tp_baseLoop pool = tid"
    using start_serving [of ?pool spawn cb] n n0
    by (auto simp: EventLoopThreadPool_setThreadNum_def EventLoopThreadPool_new_def)
  obtain a where sv: "sv = sv2\<lparr>sv_started := 1, sv_pool := pool, sv_acceptor := a\<rparr>"
    and a: "ac_owner a = tid" "ac_callback a"
    using start pool(1) sv1 unfolding sv2
    by (auto simp: TcpServer_start_def andThen_eq_Inr cassert_def Acceptor_listen_def Let_def split: if_splits)
  have "conns_inv loops sv" for loops
    by (simp add: sv sv2 sv1 conns_inv_def map_wf_def)
  moreover have "pool_loops pool = (if n = 0 then [tid] else map spawn [0..<nat n])"
    using pool n0 by (simp add: pool_loops_def)
  ultimately show "server_inv (if n = 0 then [tid] else map spawn [0..<nat n]) sv"
    using pool a sv1 len by (simp add: server_inv_def sv sv2)
  show "sv_name sv = name" "sv_ipPort sv = ipPort" "sv_created sv = 0" using sv1 by (simp_all add: sv sv2)
qed

section \<open>Connections of a server\<close>



end
