(* ===== verification/Tcp_Client.thy ===== *)
theory Tcp_Client
  imports Connector Server_Invariant
begin

text \<open>
  \<open>src/muduo/net/TcpClient.h\<close>, \<open>TcpClient.cpp\<close>: a client with its connector and its connection.

  The record holds the members; the objects behind the \<open>TcpConnectionPtr\<close>s are in the store
  \<open>cl_objects\<close>, under the number of the connection, and \<open>cl_queue\<close> has the functors that the client has
  queued in its loop. A connection outlives its client: \<open>cl_deleted\<close> says that \<open>~TcpClient\<close> has run,
  \<open>cl_detached\<close> whose close callback is \<open>detail::removeConnection\<close> since then, and \<open>cl_kept\<close> whether the
  timer of \<open>~TcpClient\<close> still holds the connector.

  \<open>net\<close> is the system for the connector, \<open>addr fd\<close> the text of the address at the other end of a
  socket, \<open>kern p\<close> and \<open>user p\<close> the kernel's answers and the user's code for connection \<open>p\<close>.
\<close>

section \<open>The object\<close>

datatype client_task = Detach_conn nat | Destroy_closed nat

record tcp_client =
  cl_owner :: int
  cl_connector :: connector
  cl_name :: string
  cl_retry :: bool
  cl_connect :: bool
  cl_nextConnId :: int
  cl_connection :: "nat option"
  cl_objects :: "nat \<Rightarrow> tcp_connection option"
  cl_created :: nat
  cl_queue :: "client_task list"
  cl_deleted :: bool
  cl_detached :: "nat list"
  cl_kept :: bool

definition TcpClient_new :: "int \<Rightarrow> string \<Rightarrow> tcp_client" where
  "TcpClient_new tid name =
     \<lparr>cl_owner = tid, cl_connector = Connector_new tid (nat tid), cl_name = name, cl_retry = False,
      cl_connect = True, cl_nextConnId = 1, cl_connection = None, cl_objects = Map.empty, cl_created = 0,
      cl_queue = [], cl_deleted = False, cl_detached = [], cl_kept = False\<rparr>"

definition TcpClient_enableRetry :: "tcp_client \<Rightarrow> tcp_client" where
  "TcpClient_enableRetry cl = cl\<lparr>cl_retry := True\<rparr>"

definition client_queue :: "client_task \<Rightarrow> tcp_client \<Rightarrow> tcp_client" where
  "client_queue task cl = cl\<lparr>cl_queue := cl_queue cl @ [task]\<rparr>"

section \<open>Calls of the user, from any thread\<close>

definition TcpClient_connect :: "(nat \<Rightarrow> int \<times> int) \<Rightarrow> int \<Rightarrow> tcp_client \<Rightarrow> tcp_client result" where
  "TcpClient_connect net tid cl =
     andThen (Connector_start net tid (cl_connector cl)) (\<lambda>c.
     Inr (cl\<lparr>cl_connect := True, cl_connector := c\<rparr>))"

definition TcpClient_disconnect :: "int \<Rightarrow> tcp_client \<Rightarrow> tcp_client result" where
  "TcpClient_disconnect tid cl =
     (let cl1 = cl\<lparr>cl_connect := False\<rparr>
      in case cl_connection cl1 of
           None \<Rightarrow> Inr cl1
         | Some p \<Rightarrow> deref (cl_objects cl1) p (\<lambda>conn.
             andThen (TcpConnection_shutdown tid conn) (\<lambda>conn'.
             Inr (cl1\<lparr>cl_objects := (cl_objects cl1)(p \<mapsto> conn')\<rparr>))))"

definition TcpClient_stop :: "tcp_client \<Rightarrow> tcp_client" where
  "TcpClient_stop cl = cl\<lparr>cl_connect := False, cl_connector := Connector_stop (cl_connector cl)\<rparr>"

section \<open>The end of a connection\<close>

definition client_detail_removeConnection :: "nat \<Rightarrow> tcp_client \<Rightarrow> tcp_client" where
  "client_detail_removeConnection p cl = client_queue (Destroy_closed p) cl"

definition TcpClient_removeConnection ::
  "(nat \<Rightarrow> int \<times> int) \<Rightarrow> int \<Rightarrow> nat \<Rightarrow> tcp_client \<Rightarrow> tcp_client result" where
  "TcpClient_removeConnection net tid p cl =
     (if tid \<noteq> cl_owner cl then Inl Log_fatal
      else deref (cl_objects cl) p (\<lambda>conn.
        cassert (tc_owner conn = cl_owner cl) (
        cassert (cl_connection cl = Some p) (
        let cl1 = client_queue (Destroy_closed p) (cl\<lparr>cl_connection := None\<rparr>)
        in if cl_retry cl1 \<and> cl_connect cl1 then
             andThen (Connector_restart net tid (cl_connector cl1)) (\<lambda>c. Inr (cl1\<lparr>cl_connector := c\<rparr>))
           else Inr cl1))))"

text \<open>The close callback of a connection. \<open>TcpClient::removeConnection\<close> is bound to the bare address of
  the client.\<close>

definition client_close_callback ::
  "(nat \<Rightarrow> int \<times> int) \<Rightarrow> int \<Rightarrow> nat \<Rightarrow> tcp_client \<Rightarrow> tcp_client result" where
  "client_close_callback net tid p cl =
     (if p \<in> set (cl_detached cl) then Inr (client_detail_removeConnection p cl)
      else if cl_deleted cl then Inl Undefined_behaviour
      else TcpClient_removeConnection net tid p cl)"

text \<open>\<open>server_user\<close> leaves the close callback out of the user's code, and \<open>close_reported\<close> tells that it was
  called, as for a server.\<close>

definition client_on_conn ::
  "(nat \<Rightarrow> int \<times> int) \<Rightarrow> nat \<Rightarrow> (tcp_connection \<Rightarrow> tcp_connection result) \<Rightarrow> tcp_client \<Rightarrow> tcp_client result" where
  "client_on_conn net p f cl = deref (cl_objects cl) p (\<lambda>c.
     andThen (f c) (\<lambda>c'.
     let cl1 = cl\<lparr>cl_objects := (cl_objects cl)(p \<mapsto> c')\<rparr>
     in if close_reported c c' then client_close_callback net (tc_owner c') p cl1 else Inr cl1))"

section \<open>A new connection\<close>

definition TcpClient_connName :: "string \<Rightarrow> tcp_client \<Rightarrow> string" where
  "TcpClient_connName peer cl =
     cl_name cl @ snprintf 32 ('':'' @ peer @ ''#'' @ decimal (cl_nextConnId cl))"

text \<open>\<open>nextConnId_\<close> is an \<open>int\<close>: its overflow is undefined. No write-complete callback is set.\<close>

definition TcpClient_newConnection ::
  "(nat \<Rightarrow> int \<times> int) \<Rightarrow> (int \<Rightarrow> string) \<Rightarrow> (nat \<Rightarrow> kernel_write) \<Rightarrow> (nat \<Rightarrow> conn_user) \<Rightarrow> int \<Rightarrow> int \<Rightarrow>
   tcp_client \<Rightarrow> tcp_client result" where
  "TcpClient_newConnection net addr kern user tid sockfd cl =
     (if tid \<noteq> cl_owner cl then Inl Log_fatal
      else if cl_nextConnId cl = 2 ^ 31 - 1 then Inl Undefined_behaviour
      else
        let connName = TcpClient_connName (addr sockfd) cl;
            p = cl_created cl;
            conn = TcpConnection_new (cl_owner cl) (nat (cl_owner cl)) connName sockfd False False;
            cl1 = cl\<lparr>cl_nextConnId := cl_nextConnId cl + 1, cl_created := Suc p,
                     cl_objects := (cl_objects cl)(p \<mapsto> conn), cl_connection := Some p\<rparr>
        in client_on_conn net p (TcpConnection_connectEstablished (kern p) (server_user (user p)) tid) cl1)"

text \<open>The connector calls it as the last thing of \<open>Connector::handleWrite\<close>.\<close>

definition connector_gave :: "connector \<Rightarrow> connector \<Rightarrow> int option" where
  "connector_gave c c' =
     (if length (cn_log c) < length (cn_log c')
      then (case last (cn_log c') of Given fd \<Rightarrow> Some fd | _ \<Rightarrow> None) else None)"

section \<open>The end of the client\<close>

text \<open>The connector goes with the last of its owners: the client, the timer of \<open>~TcpClient\<close>, and its own
  retry timers.\<close>

definition client_release :: "tcp_client \<Rightarrow> tcp_client result" where
  "client_release cl =
     (if cl_deleted cl \<and> \<not> cl_kept cl \<and> cn_timers (cl_connector cl) = []
      then andThen (Connector_delete (cl_connector cl)) (\<lambda>u. Inr cl) else Inr cl)"

text \<open>\<open>unique\<close>: nobody else holds the connection.\<close>

definition TcpClient_delete :: "int \<Rightarrow> bool \<Rightarrow> tcp_client \<Rightarrow> tcp_client result" where
  "TcpClient_delete tid unique cl =
     (case cl_connection cl of
        Some p \<Rightarrow> deref (cl_objects cl) p (\<lambda>conn.
          cassert (cl_owner cl = tc_owner conn) (
          let cl1 = (if tid = cl_owner cl then cl\<lparr>cl_detached := p # cl_detached cl\<rparr>
                     else client_queue (Detach_conn p) cl);
              conn1 = (if unique then TcpConnection_forceClose conn else conn)
          in client_release (cl1\<lparr>cl_objects := (cl_objects cl1)(p \<mapsto> conn1), cl_connection := None,
                                 cl_deleted := True\<rparr>)))
      | None \<Rightarrow>
          client_release (cl\<lparr>cl_connector := Connector_stop (cl_connector cl), cl_kept := True, cl_deleted := True\<rparr>))"

section \<open>Running a client\<close>

fun client_run_task ::
  "(nat \<Rightarrow> int \<times> int) \<Rightarrow> (nat \<Rightarrow> kernel_write) \<Rightarrow> (nat \<Rightarrow> conn_user) \<Rightarrow> tcp_client \<Rightarrow> client_task \<Rightarrow>
   tcp_client result" where
  "client_run_task net kern user cl (Detach_conn p) = Inr (cl\<lparr>cl_detached := p # cl_detached cl\<rparr>)"
| "client_run_task net kern user cl (Destroy_closed p) =
     client_on_conn net p (TcpConnection_connectDestroyed (kern p) (server_user (user p)) (cl_owner cl)) cl"

datatype client_op =
    Client_connect int | Client_disconnect int | Client_stop | Client_enable_retry
  | Client_delete int bool
  | On_connector connector_op              \<comment> \<open>a functor, a timer or an event of the connector\<close>
  | On_client_conn nat conn_op             \<comment> \<open>an event, a functor, a timer or a call of a connection\<close>
  | Client_functor                         \<comment> \<open>the loop runs the next functor of the client\<close>
  | Keeper_over                            \<comment> \<open>the timer of \<open>~TcpClient\<close>\<close>

fun client_step ::
  "(nat \<Rightarrow> int \<times> int) \<Rightarrow> (int \<Rightarrow> string) \<Rightarrow> (nat \<Rightarrow> kernel_write) \<Rightarrow> (nat \<Rightarrow> conn_user) \<Rightarrow> tcp_client \<Rightarrow>
   client_op \<Rightarrow> tcp_client result" where
  "client_step net addr kern user cl (Client_connect tid) = TcpClient_connect net tid cl"
| "client_step net addr kern user cl (Client_disconnect tid) = TcpClient_disconnect tid cl"
| "client_step net addr kern user cl Client_stop = Inr (TcpClient_stop cl)"
| "client_step net addr kern user cl Client_enable_retry = Inr (TcpClient_enableRetry cl)"
| "client_step net addr kern user cl (Client_delete tid unique) = TcpClient_delete tid unique cl"
| "client_step net addr kern user cl (On_connector op) =
     andThen (connector_step net (cl_connector cl) op) (\<lambda>c.
     let cl1 = cl\<lparr>cl_connector := c\<rparr>
     in case connector_gave (cl_connector cl) c of
          None \<Rightarrow> client_release cl1
        | Some fd \<Rightarrow>
            if cl_deleted cl1 then Inl Undefined_behaviour
            else TcpClient_newConnection net addr kern user (cl_owner cl1) fd cl1)"
| "client_step net addr kern user cl (On_client_conn p op) =
     client_on_conn net p (\<lambda>c. conn_step (kern p) (server_user (user p)) c op) cl"
| "client_step net addr kern user cl Client_functor =
     (case cl_queue cl of [] \<Rightarrow> Inr cl
      | task # tasks \<Rightarrow> client_run_task net kern user (cl\<lparr>cl_queue := tasks\<rparr>) task)"
| "client_step net addr kern user cl Keeper_over = client_release (cl\<lparr>cl_kept := False\<rparr>)"

end
