(* ===== verification/Client_Invariant.thy ===== *)
theory Client_Invariant
  imports Tcp_Client
begin

text \<open>
  The invariant of a client (\<open>Tcp_Client\<close>), and that every step within the contract keeps it: at most one
  connection is up, it is \<open>connection_\<close> (or the one that the deleted client left behind), and every other
  one is down and about to be destroyed, or destroyed.
\<close>

section \<open>What the connector does in the loop\<close>

definition loop_op :: "connector_op \<Rightarrow> bool" where
  "loop_op op \<longleftrightarrow> (case op of Start tid \<Rightarrow> False | Restart tid \<Rightarrow> False | Stop \<Rightarrow> False | _ \<Rightarrow> True)"

text \<open>The socket of an attempt is valid, the owner stays, and the last thing \<open>handleWrite\<close> does is to hand
  the socket over.\<close>

definition channel_fd_ok :: "connector \<Rightarrow> bool" where
  "channel_fd_ok c \<longleftrightarrow> (\<forall>ch. cn_channel c = Some ch \<longrightarrow> 0 \<le> ch_fd ch)"

lemma channel_fd_ok_fields [simp]:
  "channel_fd_ok (c\<lparr>cn_log := l\<rparr>) = channel_fd_ok c" "channel_fd_ok (c\<lparr>cn_state := st\<rparr>) = channel_fd_ok c"
  "channel_fd_ok (connector_note ev c) = channel_fd_ok c"
  by (simp_all add: channel_fd_ok_def connector_note_def)

definition connector_goes :: "connector \<Rightarrow> connector \<Rightarrow> bool" where
  "connector_goes c c' \<longleftrightarrow> cn_owner c' = cn_owner c \<and> (\<exists>evs. cn_log c' = cn_log c @ evs) \<and>
     (cn_log c' = cn_log c \<longrightarrow> cn_state c' = cn_state c) \<and> (channel_fd_ok c \<longrightarrow> channel_fd_ok c') \<and>
     (\<forall>fd. connector_gave c c' = Some fd \<longrightarrow> cn_state c' = Connector_kConnected \<and> (channel_fd_ok c \<longrightarrow> 0 \<le> fd))"

lemma goes_refl: "connector_goes c c"
  by (simp add: connector_goes_def connector_gave_def)

lemma goes_trans:
  assumes "connector_goes c c1" and "connector_goes c1 c2"
  shows "connector_goes c c2"
proof -
  obtain evs where evs: "cn_log c1 = cn_log c @ evs" using assms(1) by (auto simp: connector_goes_def)
  obtain evs' where evs': "cn_log c2 = cn_log c1 @ evs'" using assms(2) by (auto simp: connector_goes_def)
  have "cn_state c2 = Connector_kConnected \<and> (channel_fd_ok c \<longrightarrow> 0 \<le> fd)" if gave: "connector_gave c c2 = Some fd" for fd
  proof (cases "evs' = []")
    case True
    then have "connector_gave c c1 = Some fd" using gave evs evs' by (simp add: connector_gave_def split: if_splits)
    then show ?thesis using assms True evs' by (simp add: connector_goes_def)
  next
    case False
    then have "connector_gave c1 c2 = Some fd" using gave evs evs' by (simp add: connector_gave_def split: if_splits)
    then show ?thesis using assms by (simp add: connector_goes_def)
  qed
  then show ?thesis using assms evs evs' by (auto simp: connector_goes_def)
qed

lemma goes_note [simp]:
  "connector_goes c (c\<lparr>cn_pending := q\<rparr>)" "connector_goes c (c\<lparr>cn_timers := ts\<rparr>)"
  "connector_goes c (c\<lparr>cn_channel := None\<rparr>)"
  by (simp_all add: connector_goes_def connector_gave_def channel_fd_ok_def)

lemma retry_goes: "connector_goes c (Connector_retry fd c)"
  by (simp add: Connector_retry_def connector_goes_def connector_gave_def channel_fd_ok_def connector_note_def Let_def)

lemma connecting_goes:
  assumes "Connector_connecting fd (connector_note (Opened fd) c) = Inr c'" and "0 \<le> fd"
  shows "connector_goes c c'"
  using assms
  by (simp add: Connector_connecting_def connector_goes_def connector_gave_def channel_fd_ok_def connector_note_def
      Let_def Channel_new_def Channel_setErrorCallback_def Channel_setWriteCallback_def cassert_def split: if_splits)
    auto

lemma opened_goes: "connector_goes c (connector_note (Opened fd) (c\<lparr>cn_attempts := n\<rparr>))"
  by (simp add: connector_goes_def connector_gave_def channel_fd_ok_def connector_note_def)

lemma closed_goes: "connector_goes c (connector_note (Closed fd) c)"
  by (simp add: connector_goes_def connector_gave_def channel_fd_ok_def connector_note_def)


lemma attempts_go: "connector_goes c (c\<lparr>cn_attempts := n\<rparr>)"
  by (simp add: connector_goes_def connector_gave_def channel_fd_ok_def)

lemma connect_goes:
  assumes "Connector_connect net c = Inr c'"
  shows "connector_goes c c'"
proof -
  obtain fd e where net: "net (cn_attempts c) = (fd, e)" by (cases "net (cn_attempts c)")
  define d where "d = c\<lparr>cn_attempts := Suc (cn_attempts c)\<rparr>"
  have d: "connector_goes c d" unfolding d_def by (rule attempts_go)
  have o1: "connector_goes d (connector_note (Opened fd) d)" unfolding d_def
    by (simp add: connector_goes_def connector_gave_def channel_fd_ok_def connector_note_def)
  have "0 \<le> fd \<and> Connector_connecting fd (connector_note (Opened fd) d) = Inr c' \<or>
      c' = Connector_retry fd (connector_note (Opened fd) d) \<or>
      c' = connector_note (Closed fd) (connector_note (Opened fd) d)"
    using assms net by (auto simp: Connector_connect_def Let_def d_def split: if_splits)
  then have "connector_goes d c'"
    using connecting_goes goes_trans [OF o1 retry_goes] goes_trans [OF o1 closed_goes] by blast
  then show ?thesis by (rule goes_trans [OF d])
qed

lemma startInLoop_goes: "Connector_startInLoop net tid c = Inr c' \<Longrightarrow> connector_goes c c'"
  using connect_goes goes_refl
  by (auto simp: Connector_startInLoop_def connector_in_thread_def cassert_def split: if_splits)

text \<open>The end of an attempt: the socket comes out of the channel.\<close>

lemma remove_goes:
  assumes "Connector_removeAndResetChannel c = Inr (fd, c1)"
  shows "connector_goes c c1" and "channel_fd_ok c \<Longrightarrow> 0 \<le> fd"
  using assms
  by (auto simp: Connector_removeAndResetChannel_def Let_def cassert_def connector_goes_def connector_gave_def
      channel_fd_ok_def split: option.splits if_splits)

lemma stopInLoop_goes:
  assumes "Connector_stopInLoop tid c = Inr c'"
  shows "connector_goes c c'"
proof (cases "cn_state c = Connector_kConnecting")
  case True
  then obtain fd c1 where r: "Connector_removeAndResetChannel (c\<lparr>cn_state := Connector_kDisconnected\<rparr>) = Inr (fd, c1)"
      and c': "c' = Connector_retry fd c1"
    using assms by (auto simp: Connector_stopInLoop_def connector_in_thread_def andThen_eq_Inr split: if_splits)
  have "connector_goes c1 c'" unfolding c' by (rule retry_goes)
  moreover have "cn_log c1 = cn_log c" "cn_owner c1 = cn_owner c" "channel_fd_ok c \<Longrightarrow> channel_fd_ok c1"
    using remove_goes(1) [OF r] r
    by (auto simp: Connector_removeAndResetChannel_def Let_def cassert_def channel_fd_ok_def split: option.splits if_splits)
  moreover have "cn_log c' \<noteq> cn_log c1" by (simp add: c' Connector_retry_def connector_note_def Let_def)
  ultimately show ?thesis by (simp add: connector_goes_def connector_gave_def)
next
  case False
  then show ?thesis
    using assms by (simp add: Connector_stopInLoop_def connector_in_thread_def goes_refl split: if_splits)
qed

lemma handleError_goes: "Connector_handleError c = Inr c' \<Longrightarrow> connector_goes c c'"
  using goes_trans [OF remove_goes(1) retry_goes]
  by (auto simp: Connector_handleError_def andThen_eq_Inr goes_refl split: if_splits)

lemma handleWrite_goes:
  assumes "Connector_handleWrite err self c = Inr c'"
  shows "connector_goes c c'"
proof (cases "cn_state c = Connector_kConnecting")
  case True
  then obtain fd c1 where r: "Connector_removeAndResetChannel c = Inr (fd, c1)"
    and c': "c' = Connector_retry fd c1 \<or>
      c' = connector_note (Given fd) (c1\<lparr>cn_state := Connector_kConnected\<rparr>) \<or>
      c' = connector_note (Closed fd) (c1\<lparr>cn_state := Connector_kConnected\<rparr>)"
    using assms by (auto simp: Connector_handleWrite_def andThen_eq_Inr Let_def split: if_splits)
  note g = remove_goes [OF r]
  have "cn_log c1 = cn_log c" "cn_owner c1 = cn_owner c"
    using r by (auto simp: Connector_removeAndResetChannel_def Let_def cassert_def split: option.splits if_splits)
  then have "connector_goes c (connector_note ev (c1\<lparr>cn_state := Connector_kConnected\<rparr>))"
    if "ev = Given fd \<or> ev = Closed fd" for ev
  proof -
    have "channel_fd_ok c \<Longrightarrow> channel_fd_ok c1" using g(1) by (simp add: connector_goes_def)
    with that g(2) \<open>cn_log c1 = cn_log c\<close> \<open>cn_owner c1 = cn_owner c\<close> show ?thesis
      by (elim disjE) (simp_all add: connector_goes_def connector_gave_def connector_note_def)
  qed
  then show ?thesis using c' goes_trans [OF g(1) retry_goes] by blast
next
  case False
  then show ?thesis using assms by (auto simp: Connector_handleWrite_def goes_refl cassert_def split: if_splits)
qed

lemma invoke_goes: "connector_invoke err self c call = Inr c' \<Longrightarrow> connector_goes c c'"
  using handleError_goes handleWrite_goes
  by (cases "(err, self, c, call)" rule: connector_invoke.cases) auto

lemma step_goes:
  assumes step: "connector_step net c op = Inr c'" and "loop_op op"
  shows "connector_goes c c'"
proof (cases op)
  case Run_next
  show ?thesis
  proof (cases "cn_pending c")
    case (Cons task tasks)
    then have "connector_run_task net (c\<lparr>cn_pending := tasks\<rparr>) task = Inr c'" using step Run_next by simp
    then have "connector_goes (c\<lparr>cn_pending := tasks\<rparr>) c'"
      using startInLoop_goes stopInLoop_goes by (cases task) (auto simp: Connector_resetChannel_def)
    then show ?thesis using goes_trans goes_note(1) by blast
  qed (use step Run_next in \<open>simp add: goes_refl\<close>)
next
  case Timer_fires
  show ?thesis
  proof (cases "cn_timers c")
    case (Cons t ts)
    then have "connector_goes (c\<lparr>cn_timers := ts\<rparr>) c'" using step Timer_fires startInLoop_goes by simp
    then show ?thesis using goes_trans goes_note(2) by blast
  qed (use step Timer_fires in \<open>simp add: goes_refl\<close>)
next
  case (Channel_event revents err self)
  show ?thesis
  proof (cases "cn_channel c")
    case (Some ch)
    define d where "d = c\<lparr>cn_channel := Some (Channel_set_revents revents ch)\<rparr>"
    have "foldR (connector_invoke err self) d (Channel_dispatch (Channel_set_revents revents ch) 0) = Inr c'"
      using step Channel_event Some by (simp add: d_def Let_def)
    moreover have "connector_goes c d"
      using Some by (simp add: d_def connector_goes_def connector_gave_def channel_fd_ok_def Channel_set_revents_def)
    ultimately show ?thesis
      by (rule foldR_invariant) (use goes_trans invoke_goes in blast)
  qed (use step Channel_event in \<open>simp add: goes_refl\<close>)
qed (use assms in \<open>simp_all add: loop_op_def\<close>)


text \<open>Once it handed a connection over it only cleans up.\<close>

lemma connected_step:
  assumes inv: "connector_inv c" and st: "cn_state c = Connector_kConnected"
    and step: "connector_step net c op = Inr c'" "connector_allowed c op" "loop_op op"
  shows "cn_state c' = Connector_kConnected \<and> cn_log c' = cn_log c"
proof (cases op)
  case Run_next
  show ?thesis
  proof (cases "cn_pending c")
    case (Cons task tasks)
    then show ?thesis
      using step Run_next st inv
      by (cases task) (auto simp: Connector_stopInLoop_def connector_in_thread_def Connector_resetChannel_def connector_inv_def)
  qed (use step Run_next st in simp)
next
  case Timer_fires
  moreover have "cn_timers c = []" using inv st by (auto simp: connector_inv_def)
  ultimately show ?thesis using step st by simp
next
  case (Channel_event revents err self)
  moreover have "cn_channel c = None"
    using inv st step(2) Channel_event by (auto simp: connector_inv_def connector_allowed_def split: option.splits)
  ultimately show ?thesis using step st by simp
qed (use step in \<open>simp_all add: loop_op_def\<close>)

section \<open>The invariant\<close>

text \<open>Up and known; or down, and to be destroyed as long as it is registered.\<close>

definition client_phase :: "tcp_client \<Rightarrow> nat \<Rightarrow> tcp_connection \<Rightarrow> bool" where
  "client_phase cl p c \<longleftrightarrow>
     conn_live c \<and> (cl_connection cl = Some p \<or> p \<in> set (cl_detached cl)) \<and> Destroy_closed p \<notin> set (cl_queue cl) \<or>
     conn_down c \<and> cl_connection cl \<noteq> Some p \<and>
       count_list (cl_queue cl) (Destroy_closed p) = (if ch_addedToLoop (tc_channel c) then 1 else 0)"

definition client_conn_name :: "(int \<Rightarrow> string) \<Rightarrow> tcp_client \<Rightarrow> nat \<Rightarrow> tcp_connection \<Rightarrow> string" where
  "client_conn_name addr cl p c =
     cl_name cl @ snprintf 32 ('':'' @ addr (ch_fd (tc_channel c)) @ ''#'' @ decimal (int p + 1))"

definition client_conns :: "(int \<Rightarrow> string) \<Rightarrow> tcp_client \<Rightarrow> bool" where
  "client_conns addr cl \<longleftrightarrow>
     (\<forall>p. cl_objects cl p = None \<longleftrightarrow> cl_created cl \<le> p) \<and>
     (\<forall>p c. cl_objects cl p = Some c \<longrightarrow> conn_good c \<and> tc_owner c = cl_owner cl \<and>
        tc_name c = client_conn_name addr cl p c \<and> client_phase cl p c) \<and>
     (\<forall>task \<in> set (cl_queue cl). \<exists>p < cl_created cl. task = Destroy_closed p) \<and>
     (\<forall>p. cl_connection cl = Some p \<longrightarrow> p < cl_created cl) \<and>
     cl_nextConnId cl = int (cl_created cl) + 1 \<and> cl_nextConnId cl < 2 ^ 31"

text \<open>The connector of a deleted client: stopped as long as the timer keeps it, then at rest.\<close>

definition connector_over :: "bool \<Rightarrow> connector \<Rightarrow> bool" where
  "connector_over kept c \<longleftrightarrow>
     (if kept then stopping c
      else cn_pending c = [] \<and> cn_channel c = None \<and> (cn_connect c \<longrightarrow> cn_timers c = []))"

definition client_links :: "tcp_client \<Rightarrow> bool" where
  "client_links cl \<longleftrightarrow>
     connector_inv (cl_connector cl) \<and> cn_owner (cl_connector cl) = cl_owner cl \<and> channel_fd_ok (cl_connector cl) \<and>
     (cl_connection cl \<noteq> None \<longrightarrow> cn_state (cl_connector cl) = Connector_kConnected) \<and>
     length (cl_detached cl) \<le> 1 \<and>
     (if cl_deleted cl then cl_connection cl = None \<and> connector_over (cl_kept cl) (cl_connector cl)
      else cl_detached cl = [] \<and> \<not> cl_kept cl)"

definition client_inv :: "(int \<Rightarrow> string) \<Rightarrow> tcp_client \<Rightarrow> bool" where
  "client_inv addr cl \<longleftrightarrow> client_conns addr cl \<and> client_links cl"

definition keeps_client :: "bool \<Rightarrow> (int \<Rightarrow> string) \<Rightarrow> tcp_client \<Rightarrow> tcp_client result \<Rightarrow> bool" where
  "keeps_client R addr cl r \<longleftrightarrow> done_unless R (\<lambda>cl'. client_inv addr cl' \<and>
     cl_owner cl' = cl_owner cl \<and> cl_name cl' = cl_name cl) r"

lemma client_connsD:
  assumes "client_conns addr cl" and "cl_objects cl p = Some c"
  shows "conn_good c" and "tc_owner c = cl_owner cl" and "client_phase cl p c" and "p < cl_created cl"
    and "tc_name c = client_conn_name addr cl p c"
proof -
  have "\<not> cl_created cl \<le> p" using assms by (auto simp: client_conns_def dest: spec [of _ p])
  then show "p < cl_created cl" by simp
  show "conn_good c" "tc_owner c = cl_owner cl" "client_phase cl p c" "tc_name c = client_conn_name addr cl p c"
    using assms unfolding client_conns_def by blast+
qed

text \<open>The connections do not look at the connector and the flags.\<close>

lemma client_conns_fields [simp]:
  "client_conns addr (cl\<lparr>cl_connector := c\<rparr>) = client_conns addr cl"
  "client_conns addr (cl\<lparr>cl_connect := b\<rparr>) = client_conns addr cl"
  "client_conns addr (cl\<lparr>cl_retry := b\<rparr>) = client_conns addr cl"
  "client_conns addr (cl\<lparr>cl_deleted := b\<rparr>) = client_conns addr cl"
  "client_conns addr (cl\<lparr>cl_kept := b\<rparr>) = client_conns addr cl"
  by (simp_all add: client_conns_def client_phase_def client_conn_name_def)

lemma client_links_fields [simp]:
  "client_links (cl\<lparr>cl_objects := m\<rparr>) = client_links cl"
  "client_links (cl\<lparr>cl_connect := b\<rparr>) = client_links cl"
  "client_links (cl\<lparr>cl_retry := b\<rparr>) = client_links cl"
  "client_links (cl\<lparr>cl_queue := q\<rparr>) = client_links cl"
  by (simp_all add: client_links_def)

text \<open>A step of one connection.\<close>

lemma client_conns_update:
  assumes inv: "client_conns addr cl" and c: "cl_objects cl p = Some c" "conn_good c'" "same_conn c c'"
    and cl': "cl_objects cl' = (cl_objects cl)(p \<mapsto> c')" "cl_owner cl' = cl_owner cl" "cl_name cl' = cl_name cl"
      "cl_created cl' = cl_created cl" "cl_nextConnId cl' = cl_nextConnId cl"
    and phases: "client_phase cl' p c'"
      "\<And>r d. r \<noteq> p \<Longrightarrow> cl_objects cl r = Some d \<Longrightarrow> client_phase cl r d \<Longrightarrow> client_phase cl' r d"
    and rest: "\<forall>task \<in> set (cl_queue cl'). \<exists>p < cl_created cl. task = Destroy_closed p"
      "\<forall>p. cl_connection cl' = Some p \<longrightarrow> p < cl_created cl"
  shows "client_conns addr cl'"
proof -
  note D = client_connsD [OF inv]
  have "conn_good d \<and> tc_owner d = cl_owner cl' \<and> tc_name d = client_conn_name addr cl' r d \<and> client_phase cl' r d"
    if "cl_objects cl' r = Some d" for r d
  proof (cases "r = p")
    case True
    then have "d = c'" using that cl' by simp
    then show ?thesis
      using True c D(2,5) [OF c(1)] phases(1) cl' by (simp add: same_conn_def client_conn_name_def)
  next
    case False
    then have "cl_objects cl r = Some d" using that cl' by simp
    then show ?thesis using False D phases(2) cl' by (simp add: client_conn_name_def)
  qed
  moreover have "cl_objects cl' r = None \<longleftrightarrow> cl_created cl \<le> r" for r
    using inv D(4) [OF c(1)] by (auto simp: client_conns_def cl'(1))
  ultimately show ?thesis using inv rest unfolding client_conns_def cl'(4,5) by blast
qed

end
