(* ===== verification/Client_Steps.thy ===== *)
theory Client_Steps
  imports Client_Invariant
begin

text \<open>
  Steps of the connections of a client keep \<open>client_inv\<close>: an event or a call, the close callback with its
  restart of the connector, a new connection, and a functor of the client.
\<close>

lemma client_phase_others:
  assumes "client_phase cl r d" and "r \<noteq> p" and "cl_detached cl' = cl_detached cl"
    and "cl_connection cl' = cl_connection cl \<or> cl_connection cl = Some p \<and> cl_connection cl' = None"
    and "cl_queue cl' = cl_queue cl \<or> cl_queue cl' = cl_queue cl @ [Destroy_closed p] \<or>
      cl_queue cl = Destroy_closed p # cl_queue cl'"
  shows "client_phase cl' r d"
  using assms(5)
proof (elim disjE)
  assume "cl_queue cl = Destroy_closed p # cl_queue cl'"
  then show ?thesis using assms(1-4) by (auto simp: client_phase_def)
qed (use assms(1-4) in \<open>auto simp: client_phase_def\<close>)

lemma restart_ok:
  assumes inv: "connector_inv c" and fd: "\<And>i. 0 \<le> fst (net i)" and st: "cn_state c = Connector_kConnected"
    and quiet: "Reset_channel \<notin> set (cn_pending c)" and fds: "channel_fd_ok c"
  shows "\<exists>c'. Connector_restart net (cn_owner c) c = Inr c' \<and> connector_inv c' \<and> cn_owner c' = cn_owner c \<and> channel_fd_ok c'"
proof -
  have "connector_allowed c (Restart (cn_owner c))" using st quiet by (simp add: connector_allowed_def)
  from connector_step_ok [where net = net, OF inv fd this]
  obtain c' where c': "Connector_restart net (cn_owner c) c = Inr c'" "connector_inv c'" by (auto simp: connector_ok_def)
  define d where "d = (connector_note Restarted c)
      \<lparr>cn_state := Connector_kDisconnected, cn_retryDelayMs := kInitRetryDelayMs, cn_connect := True\<rparr>"
  have "Connector_startInLoop net (cn_owner c) d = Inr c'"
    using c'(1) by (simp add: Connector_restart_def connector_in_thread_def d_def)
  then have "connector_goes d c'" by (rule startInLoop_goes)
  then have "cn_owner c' = cn_owner d" "channel_fd_ok d \<Longrightarrow> channel_fd_ok c'" unfolding connector_goes_def by blast+
  moreover have "cn_owner d = cn_owner c" "channel_fd_ok d"
    using fds by (simp_all add: d_def connector_note_def channel_fd_ok_def)
  ultimately have "cn_owner c' = cn_owner c" "channel_fd_ok c'" by simp_all
  then show ?thesis using c' by blast
qed

text \<open>The close callback.\<close>

lemma client_closed:
  assumes inv: "client_inv addr cl" and c: "cl_objects cl p = Some c" "conn_live c"
    and c': "conn_good c'" "conn_moves c c'" "close_reported c c'"
    and fd: "\<And>i. 0 \<le> fst (net i)" and quiet: "Reset_channel \<notin> set (cn_pending (cl_connector cl))"
  shows "keeps_client R addr cl (client_close_callback net (tc_owner c') p (cl\<lparr>cl_objects := (cl_objects cl)(p \<mapsto> c')\<rparr>))"
proof -
  have conns: "client_conns addr cl" and links: "client_links cl" using inv by (simp_all add: client_inv_def)
  note D = client_connsD [OF conns c(1)]
  have same: "same_conn c c'" "tc_owner c' = cl_owner cl" using c'(2) D(2) by (auto simp: conn_moves_def same_conn_def)
  have down: "conn_down c'" "\<not> conn_down c" using moves_reported [OF D(1) c'] by blast+
  have added: "ch_addedToLoop (tc_channel c')" using conn_live_added [OF D(1) c(2)] c'(2) by (simp add: conn_moves_def)
  have phase: "cl_connection cl = Some p \<or> p \<in> set (cl_detached cl)" "Destroy_closed p \<notin> set (cl_queue cl)"
    using D(3) down(2) by (auto simp: client_phase_def)
  have known: "\<forall>task \<in> set (cl_queue cl). \<exists>p < cl_created cl. task = Destroy_closed p"
    using conns by (simp add: client_conns_def)
  define cl1 where "cl1 = cl\<lparr>cl_objects := (cl_objects cl)(p \<mapsto> c'), cl_connection := None,
    cl_queue := cl_queue cl @ [Destroy_closed p]\<rparr>"
  show ?thesis
  proof (cases "p \<in> set (cl_detached cl)")
    case True
    then have none: "cl_connection cl = None" "cl_deleted cl" using links by (auto simp: client_links_def split: if_splits)
    then have "cl\<lparr>cl_objects := (cl_objects cl)(p \<mapsto> c'), cl_queue := cl_queue cl @ [Destroy_closed p]\<rparr> = cl1"
      by (cases cl) (simp add: cl1_def)
    moreover have "client_conns addr cl1"
      by (rule client_conns_update [OF conns c(1) c'(1) same(1)])
        (use known D(4) phase down added none client_phase_others [of cl _ _ p cl1] in
          \<open>auto simp: cl1_def client_phase_def\<close>)
    moreover have "client_links cl1" using links none by (simp add: cl1_def client_links_def)
    ultimately show ?thesis
      using True by (simp add: client_close_callback_def client_detail_removeConnection_def client_queue_def
          keeps_client_def client_inv_def) (simp add: cl1_def)
  next
    case False
    then have conn: "cl_connection cl = Some p" "\<not> cl_deleted cl" "cl_detached cl = []"
      "cn_state (cl_connector cl) = Connector_kConnected"
      using phase links by (auto simp: client_links_def split: if_splits)
    have ci: "client_conns addr cl1"
      by (rule client_conns_update [OF conns c(1) c'(1) same(1)])
        (use known phase down added conn D(4) client_phase_others [of cl _ _ p cl1] in
          \<open>auto simp: cl1_def client_phase_def\<close>)
    have li: "client_links cl1" using links conn by (simp add: cl1_def client_links_def)
    obtain k where k: "Connector_restart net (cl_owner cl) (cl_connector cl) = Inr k" "connector_inv k"
      "cn_owner k = cl_owner cl" "channel_fd_ok k"
      using restart_ok [where net = net and c = "cl_connector cl", OF _ fd conn(4) quiet] links
      by (auto simp: client_links_def)
    have "client_conns addr (cl1\<lparr>cl_connector := k\<rparr>)" using ci by simp
    moreover have "client_links (cl1\<lparr>cl_connector := k\<rparr>)"
      using li k conn by (simp add: client_links_def cl1_def)
    ultimately have "keeps_client R addr cl (if cl_retry cl \<and> cl_connect cl then Inr (cl1\<lparr>cl_connector := k\<rparr>) else Inr cl1)"
      using ci li by (simp add: keeps_client_def client_inv_def) (simp add: cl1_def)
    then show ?thesis
      using False conn same k(1)
      by (cases "cl_retry cl \<and> cl_connect cl")
        (auto simp: client_close_callback_def TcpClient_removeConnection_def client_queue_def Let_def cl1_def)
  qed
qed

lemma on_client_conn:
  assumes inv: "client_inv addr cl" and c: "cl_objects cl p = Some c"
    and step: "keeps_good R c (f c)"
    and fd: "\<And>i. 0 \<le> fst (net i)"
    and quiet: "\<And>c'. f c = Inr c' \<Longrightarrow> close_reported c c' \<Longrightarrow> Reset_channel \<notin> set (cn_pending (cl_connector cl))"
  shows "keeps_client R addr cl (client_on_conn net p f cl)"
proof (cases "f c")
  case (Inl e)
  then show ?thesis using step c by (simp add: client_on_conn_def keeps_client_def keeps_good_def)
next
  case (Inr c')
  have c': "conn_good c'" "conn_moves c c'" using step Inr by (simp_all add: keeps_good_def)
  have conns: "client_conns addr cl" and links: "client_links cl" using inv by (simp_all add: client_inv_def)
  note D = client_connsD [OF conns c]
  have phase: "conn_live c \<or> conn_down c" using D(3) by (auto simp: client_phase_def)
  show ?thesis
  proof (cases "close_reported c c'")
    case True
    then have "conn_live c" using phase moves_reported [OF D(1) c'] by blast
    from client_closed [where net = net, OF inv c this c' True fd quiet [OF Inr True]] show ?thesis
      using c Inr True by (simp add: client_on_conn_def)
  next
    case False
    define cl1 where "cl1 = cl\<lparr>cl_objects := (cl_objects cl)(p \<mapsto> c')\<rparr>"
    have kept: "conn_down c \<Longrightarrow> conn_down c'" "conn_live c \<Longrightarrow> conn_live c'"
      "conn_down c \<Longrightarrow> ch_addedToLoop (tc_channel c') = ch_addedToLoop (tc_channel c)"
      using moves_not_reported [OF D(1) c' False] c'(2) by (simp_all add: conn_moves_def conn_down_def)
    have p': "client_phase cl1 p c'" using D(3) kept by (auto simp: client_phase_def cl1_def)
    have "client_conns addr cl1"
      by (rule client_conns_update [OF conns c c'(1)])
        (use conns p' c'(2) in \<open>auto simp: cl1_def client_conns_def conn_moves_def client_phase_def\<close>)
    moreover have "client_links cl1" using links by (simp add: cl1_def)
    ultimately show ?thesis
      using c Inr False by (simp add: client_on_conn_def keeps_client_def client_inv_def cl1_def)
  qed
qed


text \<open>A new connection.\<close>

lemma client_newConnection_inv:
  assumes conns: "client_conns addr cl" and links: "client_links cl"
    and none: "cl_connection cl = None" "\<not> cl_deleted cl" "cn_state (cl_connector cl) = Connector_kConnected"
    and fd: "0 \<le> sockfd" and id: "cl_nextConnId cl < 2 ^ 31 - 1"
    and ok: "\<And>p. kernel_lawful (kern p)" "\<And>p. user_ok (user p)"
  shows "keeps_client (refuses_some kern) addr cl (TcpClient_newConnection net addr kern user (cl_owner cl) sockfd cl)"
proof -
  define p where "p = cl_created cl"
  define c where "c = TcpConnection_new (cl_owner cl) (nat (cl_owner cl)) (TcpClient_connName (addr sockfd) cl) sockfd False False"
  have c: "conn_good c" "tc_state c = kConnecting" "tc_owner c = cl_owner cl" "ch_fd (tc_channel c) = sockfd"
    "tc_name c = TcpClient_connName (addr sockfd) cl"
    using TcpConnection_new_good [OF fd] conn_fd_new by (simp_all add: c_def) (simp_all add: TcpConnection_new_def)
  define cl1 where "cl1 = cl\<lparr>cl_nextConnId := cl_nextConnId cl + 1, cl_created := Suc p,
    cl_objects := (cl_objects cl)(p \<mapsto> c), cl_connection := Some p\<rparr>"
  have run: "TcpClient_newConnection net addr kern user (cl_owner cl) sockfd cl =
      client_on_conn net p (TcpConnection_connectEstablished (kern p) (server_user (user p)) (cl_owner cl)) cl1"
    using id by (simp add: TcpClient_newConnection_def cl1_def c_def p_def Let_def)
  have up: "done_unless (refuses_some kern) (\<lambda>c'. conn_good c' \<and> conn_moves c c' \<and> conn_live c')
      (TcpConnection_connectEstablished (kern p) (server_user (user p)) (cl_owner cl) c)"
    using done_unless_weaken [OF connectEstablished_up [OF c(1) ok(1) server_user_ok [OF ok(2)] c(2)] refuses_someI] c(3)
    by simp
  show ?thesis
  proof (cases "TcpConnection_connectEstablished (kern p) (server_user (user p)) (cl_owner cl) c")
    case (Inl e)
    then show ?thesis unfolding run using up by (simp add: client_on_conn_def cl1_def keeps_client_def)
  next
    case (Inr c')
    then have c': "conn_good c'" "conn_moves c c'" "conn_live c'" using up by simp_all
    have "\<not> close_reported c c'"
      using c' log_ok_close [of "tc_state c'" "tc_log c'"] by (auto simp: close_reported_def conn_good_def conn_live_def)
    define cl2 where "cl2 = cl1\<lparr>cl_objects := (cl_objects cl1)(p \<mapsto> c')\<rparr>"
    have detached: "cl_detached cl = []" using links none(2) by (simp add: client_links_def)
    have known: "\<forall>task \<in> set (cl_queue cl). \<exists>q < p. task = Destroy_closed q"
      using conns by (simp add: client_conns_def p_def)
    have each: "conn_good d \<and> tc_owner d = cl_owner cl2 \<and> tc_name d = client_conn_name addr cl2 r d \<and> client_phase cl2 r d"
      if "cl_objects cl2 r = Some d" for r d
    proof (cases "r = p")
      case True
      then have d: "d = c'" using that by (simp add: cl2_def)
      have "tc_owner c' = cl_owner cl" "tc_name c' = TcpClient_connName (addr sockfd) cl" "ch_fd (tc_channel c') = sockfd"
        using c c'(2) by (simp_all add: conn_moves_def same_conn_def)
      moreover have "cl_nextConnId cl = int p + 1" using conns by (simp add: client_conns_def p_def)
      moreover have "client_phase cl2 p c'" using c'(3) known by (auto simp: client_phase_def cl2_def cl1_def)
      ultimately show ?thesis
        using True d c'(1) by (simp add: cl2_def cl1_def client_conn_name_def TcpClient_connName_def)
    next
      case False
      then have "cl_objects cl r = Some d" using that by (simp add: cl2_def cl1_def)
      note D = client_connsD [OF conns this]
      have "client_phase cl2 r d"
        using D(3) False none(1) detached by (auto simp: client_phase_def cl2_def cl1_def)
      then show ?thesis using D by (simp add: cl2_def cl1_def client_conn_name_def)
    qed
    moreover have "cl_objects cl2 r = None \<longleftrightarrow> cl_created cl2 \<le> r" for r
      using conns by (auto simp: client_conns_def cl2_def cl1_def p_def)
    moreover have "\<forall>task \<in> set (cl_queue cl2). \<exists>q < cl_created cl2. task = Destroy_closed q"
      using known by (auto simp: cl2_def cl1_def)
    moreover have "\<forall>q. cl_connection cl2 = Some q \<longrightarrow> q < cl_created cl2" by (simp add: cl2_def cl1_def)
    moreover have "cl_nextConnId cl2 = int (cl_created cl2) + 1 \<and> cl_nextConnId cl2 < 2 ^ 31"
      using conns id by (simp add: client_conns_def cl2_def cl1_def p_def)
    ultimately have "client_conns addr cl2" unfolding client_conns_def by blast
    moreover have "client_links cl2" using links none by (simp add: cl2_def cl1_def client_links_def)
    moreover have "client_on_conn net p (TcpConnection_connectEstablished (kern p) (server_user (user p)) (cl_owner cl)) cl1 = Inr cl2"
      using Inr \<open>\<not> close_reported c c'\<close> by (simp add: client_on_conn_def cl1_def cl2_def)
    ultimately show ?thesis unfolding run by (simp add: keeps_client_def client_inv_def) (simp add: cl2_def cl1_def)
  qed
qed

text \<open>A functor: a connection that is down is destroyed.\<close>

lemma client_functor_inv:
  assumes inv: "client_inv addr cl" and queue: "cl_queue cl = task # tasks"
    and ok: "\<And>p. kernel_lawful (kern p)" "\<And>p. user_ok (user p)"
  shows "keeps_client (refuses_some kern) addr cl (client_run_task net kern user (cl\<lparr>cl_queue := tasks\<rparr>) task)"
proof -
  have conns: "client_conns addr cl" and links: "client_links cl" using inv by (simp_all add: client_inv_def)
  have known: "\<forall>task \<in> set (cl_queue cl). \<exists>p < cl_created cl. task = Destroy_closed p"
    using conns by (simp add: client_conns_def)
  then obtain p where p: "task = Destroy_closed p" "p < cl_created cl" using queue by auto
  then obtain c where c: "cl_objects cl p = Some c"
    using conns by (cases "cl_objects cl p") (auto simp: client_conns_def)
  note D = client_connsD [OF conns c]
  have down: "conn_down c" "ch_addedToLoop (tc_channel c)" "Destroy_closed p \<notin> set tasks" "cl_connection cl \<noteq> Some p"
    using D(3) queue p by (auto simp: client_phase_def count_list_0_iff split: if_splits)
  obtain c' where c': "TcpConnection_connectDestroyed (kern p) (server_user (user p)) (tc_owner c) c = Inr c'" "conn_good c'"
    "same_conn c c'" "conn_down c'" "\<not> ch_addedToLoop (tc_channel c')" "\<not> close_reported c c'"
    by (rule destroy_down [OF D(1) ok(1) server_user_ok [OF ok(2)] down(1,2)])
  define cl1 where "cl1 = cl\<lparr>cl_objects := (cl_objects cl)(p \<mapsto> c'), cl_queue := tasks\<rparr>"
  have "client_conns addr cl1"
  proof (rule client_conns_update [OF conns c c'(2,3)])
    show "client_phase cl1 p c'" using c' down by (simp add: cl1_def client_phase_def)
    show "client_phase cl1 r d" if "r \<noteq> p" "cl_objects cl r = Some d" "client_phase cl r d" for r d
      by (rule client_phase_others [OF that(3,1)]) (use queue p in \<open>simp_all add: cl1_def\<close>)
  qed (use known queue conns in \<open>auto simp: cl1_def client_conns_def\<close>)
  moreover have "client_links cl1" using links by (simp add: cl1_def)
  moreover have "client_run_task net kern user (cl\<lparr>cl_queue := tasks\<rparr>) task = Inr cl1"
    using p c D(2) c' by (simp add: client_on_conn_def cl1_def)
  ultimately show ?thesis by (simp add: keeps_client_def client_inv_def) (simp add: cl1_def)
qed

end
