(* ===== verification/Client_Properties.thy ===== *)
theory Client_Properties
  imports Client_Steps
begin

text \<open>
  What \<open>TcpClient\<close> promises over a whole run: any interleaving of its calls, of the functors, timers and
  events of its connector and of its connections, and of its end.
\<close>

section \<open>The contract\<close>

text \<open>
  \<open>connect\<close> is for a connector at rest. In the loop, the functor that resets the connector's channel was
  queued in the turn that made the connection, so it runs before any event of the connection. The
  client is deleted in its loop, once what its connector queued there has run; its timer fires a second
  later, when the functors have run.
\<close>

definition client_op_allowed :: "tcp_client \<Rightarrow> client_op \<Rightarrow> bool" where
  "client_op_allowed cl op \<longleftrightarrow>
     (case op of
        Client_connect tid \<Rightarrow> \<not> cl_deleted cl \<and> connector_allowed (cl_connector cl) (Start tid)
      | Client_delete tid unique \<Rightarrow> \<not> cl_deleted cl \<and> tid = cl_owner cl \<and>
          (cl_connection cl \<noteq> None \<longrightarrow> cn_pending (cl_connector cl) = [])
      | On_connector cop \<Rightarrow> loop_op cop \<and> connector_allowed (cl_connector cl) cop \<and> cl_nextConnId cl < 2 ^ 31 - 1
      | On_client_conn p cop \<Rightarrow>
          (case cl_objects cl p of None \<Rightarrow> False | Some c \<Rightarrow> conn_op_allowed c cop) \<and> cop \<noteq> Establish \<and> cop \<noteq> Destroy \<and>
          ((case cop of Call tid cmd \<Rightarrow> True | _ \<Rightarrow> False) \<or> Reset_channel \<notin> set (cn_pending (cl_connector cl)))
      | Client_functor \<Rightarrow> True
      | Keeper_over \<Rightarrow> cl_deleted cl \<and> cl_kept cl \<and> cn_pending (cl_connector cl) = []
      | _ \<Rightarrow> \<not> cl_deleted cl)"

fun client_run_allowed ::
  "(nat \<Rightarrow> int \<times> int) \<Rightarrow> (int \<Rightarrow> string) \<Rightarrow> (nat \<Rightarrow> kernel_write) \<Rightarrow> (nat \<Rightarrow> conn_user) \<Rightarrow> tcp_client \<Rightarrow>
   client_op list \<Rightarrow> bool" where
  "client_run_allowed net addr kern user cl [] \<longleftrightarrow> True"
| "client_run_allowed net addr kern user cl (op # ops) \<longleftrightarrow> client_op_allowed cl op \<and>
     (case client_step net addr kern user cl op of Inl e \<Rightarrow> True
      | Inr cl' \<Rightarrow> client_run_allowed net addr kern user cl' ops)"

section \<open>Every step keeps the invariant\<close>

lemma over_channel:
  assumes "connector_inv c" and "cn_pending c = []" and "cn_state c \<noteq> Connector_kConnecting"
  shows "cn_channel c = None"
  using assms by (simp add: connector_inv_def split: option.splits)

lemma release_inv:
  assumes "client_inv addr cl"
  shows "keeps_client R addr cl (client_release cl)"
proof (cases "cl_deleted cl \<and> \<not> cl_kept cl \<and> cn_timers (cl_connector cl) = []")
  case True
  then have "cn_channel (cl_connector cl) = None"
    using assms by (simp add: client_inv_def client_links_def connector_over_def)
  then show ?thesis using True assms by (simp add: client_release_def keeps_client_def Connector_delete_def)
qed (use assms in \<open>auto simp: client_release_def keeps_client_def\<close>)

lemma keeps_client_from:
  assumes "keeps_client R addr cl1 r" and "cl_owner cl1 = cl_owner cl" and "cl_name cl1 = cl_name cl"
  shows "keeps_client R addr cl r"
  using assms by (simp add: keeps_client_def)

text \<open>A connector whose client is gone opens and hands over nothing.\<close>

lemma over_step:
  assumes inv: "connector_inv c" and over: "connector_over kept c"
    and step: "connector_step net c op = Inr c'" "loop_op op"
  shows "connector_over kept c' \<and> connector_gave c c' = None"
proof (cases kept)
  case True
  have "\<not> starts op" using step(2) by (cases op) (simp_all add: loop_op_def starts_def)
  then have c': "stopping c'" "only_closes c c'"
    using stopping_step [OF _ step(1)] over True by (simp_all add: connector_over_def)
  then obtain fds where fds: "cn_log c' = cn_log c @ map Closed fds" by (auto simp: only_closes_def)
  then have "connector_gave c c' = None" by (simp add: connector_gave_def last_map)
  then show ?thesis using c' True by (simp add: connector_over_def)
next
  case False
  then have c: "cn_pending c = []" "cn_channel c = None" "cn_connect c \<longrightarrow> cn_timers c = []"
    using over by (simp_all add: connector_over_def)
  have "c' = c \<or> c' = c\<lparr>cn_timers := tl (cn_timers c)\<rparr>"
  proof (cases op)
    case Timer_fires
    then show ?thesis
      using step c by (cases "cn_timers c")
        (auto simp: Connector_startInLoop_def connector_in_thread_def cassert_def split: if_splits)
  qed (use step c in \<open>simp_all add: loop_op_def\<close>)
  then show ?thesis using c False by (auto simp: connector_over_def connector_gave_def)
qed

lemma connector_step_inv:
  assumes inv: "client_inv addr cl" and fd: "\<And>i. 0 \<le> fst (net i)"
    and ok: "\<And>p. kernel_lawful (kern p)" "\<And>p. user_ok (user p)" and allowed: "client_op_allowed cl (On_connector op)"
  shows "keeps_client (refuses_some kern) addr cl (client_step net addr kern user cl (On_connector op))"
proof -
  have conns: "client_conns addr cl" and links: "client_links cl" using inv by (simp_all add: client_inv_def)
  have a: "loop_op op" "connector_allowed (cl_connector cl) op" "cl_nextConnId cl < 2 ^ 31 - 1"
    using allowed by (simp_all add: client_op_allowed_def)
  have ci: "connector_inv (cl_connector cl)" using links by (simp add: client_links_def)
  obtain c where c: "connector_step net (cl_connector cl) op = Inr c" "connector_inv c"
    using connector_step_ok [where net = net, OF ci fd a(2)] by (auto simp: connector_ok_def)
  note goes = step_goes [OF c(1) a(1), unfolded connector_goes_def]
  define cl1 where "cl1 = cl\<lparr>cl_connector := c\<rparr>"
  have c1: "client_conns addr cl1" using conns by (simp add: cl1_def)
  have l1: "client_links cl1"
    using links goes c(2) connected_step [OF ci _ c(1) a(2,1)] over_step [OF ci _ c(1) a(1)]
    by (simp add: client_links_def cl1_def split: if_splits)
  show ?thesis
  proof (cases "connector_gave (cl_connector cl) c")
    case None
    have "keeps_client (refuses_some kern) addr cl1 (client_release cl1)" by (rule release_inv) (use c1 l1 in \<open>simp add: client_inv_def\<close>)
    then show ?thesis using None c(1) by (simp add: keeps_client_def cl1_def)
  next
    case (Some sockfd)
    have "cn_state (cl_connector cl) \<noteq> Connector_kConnected"
      using connected_step [OF ci _ c(1) a(2,1)] Some by (auto simp: connector_gave_def)
    then have none: "cl_connection cl1 = None" using links by (auto simp: client_links_def cl1_def)
    have live: "\<not> cl_deleted cl1" using over_step [OF ci _ c(1) a(1)] Some links by (auto simp: client_links_def cl1_def)
    have "cn_state (cl_connector cl1) = Connector_kConnected" "0 \<le> sockfd" "cl_nextConnId cl1 < 2 ^ 31 - 1"
      using goes Some links a(3) by (simp_all add: client_links_def cl1_def)
    from client_newConnection_inv [where kern = kern and user = user and net = net, OF c1 l1 none live this ok]
    have "keeps_client (refuses_some kern) addr cl1 (TcpClient_newConnection net addr kern user (cl_owner cl1) sockfd cl1)" by simp
    then show ?thesis using Some c(1) live by (simp add: keeps_client_def cl1_def)
  qed
qed

lemma client_connect_inv:
  assumes inv: "client_inv addr cl" and fd: "\<And>i. 0 \<le> fst (net i)" and allowed: "client_op_allowed cl (Client_connect tid)"
  shows "keeps_client R addr cl (TcpClient_connect net tid cl)"
proof -
  have a: "\<not> cl_deleted cl" "connector_allowed (cl_connector cl) (Start tid)"
    using allowed by (simp_all add: client_op_allowed_def)
  have links: "client_links cl" using inv by (simp add: client_inv_def)
  then have ci: "connector_inv (cl_connector cl)" by (simp add: client_links_def)
  obtain c where c: "Connector_start net tid (cl_connector cl) = Inr c" "connector_inv c"
    using connector_step_ok [where net = net, OF ci fd a(2)] by (auto simp: connector_ok_def)
  have none: "cl_connection cl = None" using a links by (auto simp: client_links_def connector_allowed_def)
  define d where "d = (cl_connector cl)\<lparr>cn_connect := True\<rparr>"
  have d: "cn_owner d = cn_owner (cl_connector cl)" "channel_fd_ok d"
    using links by (simp_all add: d_def client_links_def channel_fd_ok_def)
  have "cn_owner c = cn_owner d \<and> channel_fd_ok c"
  proof (cases "tid = cn_owner d")
    case True
    then have "connector_goes d c"
      using c(1) startInLoop_goes by (simp add: Connector_start_def d_def [symmetric] Let_def)
    then show ?thesis using d(2) by (simp add: connector_goes_def)
  next
    case False
    then have "c = d\<lparr>cn_pending := cn_pending d @ [Start_in_loop]\<rparr>"
      using c(1) by (simp add: Connector_start_def d_def [symmetric] Let_def)
    then show ?thesis using d(2) by (simp add: channel_fd_ok_def)
  qed
  then show ?thesis
    using c links none a d inv by (simp add: TcpClient_connect_def keeps_client_def client_inv_def client_links_def)
qed


text \<open>A call on the connection.\<close>

lemma client_call_inv:
  assumes inv: "client_inv addr cl" and c: "cl_objects cl p = Some c"
    and call: "keeps_conn R c (Inr c')" and cl1: "cl1 = cl\<lparr>cl_objects := (cl_objects cl)(p \<mapsto> c')\<rparr>"
  shows "client_inv addr cl1" and "conn_live c \<Longrightarrow> conn_live c'"
proof -
  have conns: "client_conns addr cl" using inv by (simp add: client_inv_def)
  note D = client_connsD [OF conns c]
  have c': "keeps_good R c (Inr c')" using keeps_good_frame [OF D(1) call] .
  have frame: "conn_frame c c'" using call by (simp add: keeps_conn_def)
  then have quiet: "\<not> close_reported c c'" by (simp add: conn_frame_def close_reported_def)
  have "keeps_client R addr cl (client_on_conn (\<lambda>i. (0, 0)) p (\<lambda>c. Inr c') cl)"
    by (rule on_client_conn [OF inv c c']) (use quiet in simp_all)
  then show "client_inv addr cl1" using c quiet by (simp add: client_on_conn_def keeps_client_def cl1)
  show "conn_live c \<Longrightarrow> conn_live c'" using frame by (auto simp: conn_frame_def conn_live_def)
qed

lemma client_disconnect_inv:
  assumes inv: "client_inv addr cl"
  shows "keeps_client R addr cl (TcpClient_disconnect tid cl)"
proof -
  define cl0 where "cl0 = cl\<lparr>cl_connect := False\<rparr>"
  have inv0: "client_inv addr cl0" using inv by (simp add: cl0_def client_inv_def)
  show ?thesis
  proof (cases "cl_connection cl")
    case None
    then show ?thesis using inv0 by (simp add: TcpClient_disconnect_def keeps_client_def cl0_def)
  next
    case (Some p)
    then obtain c where c: "cl_objects cl p = Some c"
      using inv by (cases "cl_objects cl p") (auto simp: client_inv_def client_conns_def)
    have "conn_sound c" using client_connsD(1) c inv by (auto simp: client_inv_def conn_good_def)
    from conn_exec_keeps [OF this, of all_at_once tid Do_shutdown] listener_ok(1)
    have k: "keeps_conn R c (TcpConnection_shutdown tid c)" using all_at_once_never
      unfolding keeps_conn_def by (auto intro: done_unless_weaken)
    show ?thesis
    proof (cases "TcpConnection_shutdown tid c")
      case (Inl e)
      then show ?thesis using k Some c by (simp add: TcpClient_disconnect_def keeps_client_def keeps_conn_def)
    next
      case (Inr c')
      have "client_inv addr (cl0\<lparr>cl_objects := (cl_objects cl0)(p \<mapsto> c')\<rparr>)"
        by (rule client_call_inv(1) [OF inv0 _ _ refl]) (use c k Inr in \<open>simp_all add: cl0_def\<close>)
      then show ?thesis using Some c Inr by (simp add: TcpClient_disconnect_def keeps_client_def cl0_def)
    qed
  qed
qed

lemma client_stop_inv:
  assumes inv: "client_inv addr cl"
  shows "cl_connection cl = None \<Longrightarrow>
      client_inv addr (cl\<lparr>cl_connector := Connector_stop (cl_connector cl), cl_kept := True, cl_deleted := True\<rparr>)"
    and "\<not> cl_deleted cl \<Longrightarrow> client_inv addr (TcpClient_stop cl)"
proof -
  have links: "client_links cl" using inv by (simp add: client_inv_def)
  then have "connector_inv (Connector_stop (cl_connector cl))"
    using connector_inv_fields(3) [OF connector_inv_fields(1), of "cl_connector cl" False]
    by (simp add: client_links_def Connector_stop_def)
  moreover have "channel_fd_ok (Connector_stop (cl_connector cl))" "cn_owner (Connector_stop (cl_connector cl)) = cl_owner cl"
    "cn_state (Connector_stop (cl_connector cl)) = cn_state (cl_connector cl)" "stopping (Connector_stop (cl_connector cl))"
    using links by (simp_all add: Connector_stop_def client_links_def channel_fd_ok_def stopping_def)
  ultimately show "cl_connection cl = None \<Longrightarrow>
      client_inv addr (cl\<lparr>cl_connector := Connector_stop (cl_connector cl), cl_kept := True, cl_deleted := True\<rparr>)"
    and "\<not> cl_deleted cl \<Longrightarrow> client_inv addr (TcpClient_stop cl)"
    using inv links by (simp_all add: TcpClient_stop_def client_inv_def client_links_def connector_over_def)
qed

lemma client_conns_left:
  assumes conns: "client_conns addr cl"
    and same: "cl_objects cl' = cl_objects cl" "cl_owner cl' = cl_owner cl" "cl_name cl' = cl_name cl"
      "cl_created cl' = cl_created cl" "cl_nextConnId cl' = cl_nextConnId cl" "cl_queue cl' = cl_queue cl"
      "cl_connection cl' = None"
    and phases: "\<And>r d. client_phase cl r d \<Longrightarrow> client_phase cl' r d"
  shows "client_conns addr cl'"
proof -
  have "client_conn_name addr cl' = client_conn_name addr cl" by (simp add: client_conn_name_def same fun_eq_iff)
  then show ?thesis using conns phases unfolding client_conns_def same by simp
qed

lemma client_delete_inv:
  assumes inv: "client_inv addr cl" and allowed: "client_op_allowed cl (Client_delete tid unique)"
  shows "keeps_client R addr cl (TcpClient_delete tid unique cl)"
proof (cases "cl_connection cl")
  case None
  from client_stop_inv(1) [OF inv None] have
    "client_inv addr (cl\<lparr>cl_connector := Connector_stop (cl_connector cl), cl_kept := True, cl_deleted := True\<rparr>)" by simp
  then show ?thesis
    using release_inv [of addr "cl\<lparr>cl_connector := Connector_stop (cl_connector cl), cl_kept := True, cl_deleted := True\<rparr>"] None
    by (simp add: TcpClient_delete_def keeps_client_def)
next
  case (Some p)
  have a: "\<not> cl_deleted cl" "tid = cl_owner cl" "cn_pending (cl_connector cl) = []"
    using allowed Some by (simp_all add: client_op_allowed_def)
  have links: "client_links cl" and conns: "client_conns addr cl" using inv by (simp_all add: client_inv_def)
  have st: "cn_state (cl_connector cl) = Connector_kConnected" "connector_inv (cl_connector cl)" "cl_detached cl = []"
    using links Some a by (auto simp: client_links_def)
  then have rest: "cn_channel (cl_connector cl) = None" "cn_timers (cl_connector cl) = []"
    using over_channel [OF st(2) a(3)] by (auto simp: connector_inv_def)
  obtain c where c: "cl_objects cl p = Some c"
    using inv Some by (cases "cl_objects cl p") (auto simp: client_inv_def client_conns_def)
  define c' where "c' = (if unique then TcpConnection_forceClose c else c)"
  have "conn_sound c" using client_connsD(1) [OF conns c] by (simp add: conn_good_def)
  then have "keeps_conn R c (Inr c')"
    using conn_exec_keeps [of c all_at_once "tc_owner c" Do_force_close] listener_ok(1) conn_frame_refl all_at_once_never
    by (auto simp: c'_def keeps_conn_def)
  from client_call_inv(1) [OF inv c this refl]
  have k: "client_conns addr (cl\<lparr>cl_objects := (cl_objects cl)(p \<mapsto> c')\<rparr>)" by (simp add: client_inv_def)
  define cl1 where "cl1 = cl\<lparr>cl_detached := [p], cl_objects := (cl_objects cl)(p \<mapsto> c'), cl_connection := None, cl_deleted := True\<rparr>"
  have moved: "client_phase (cl\<lparr>cl_objects := m\<rparr>) r d \<Longrightarrow> client_phase cl1 r d" for m r d
    using Some st(3) by (auto simp: client_phase_def cl1_def)
  have "client_conns addr cl1"
    by (rule client_conns_left [OF k]) (use moved in \<open>simp_all add: cl1_def\<close>)
  moreover have "client_links cl1" using links a st rest by (simp add: cl1_def client_links_def connector_over_def)
  ultimately have "keeps_client R addr cl1 (client_release cl1)" by (intro release_inv) (simp add: client_inv_def)
  moreover have "TcpClient_delete tid unique cl = client_release cl1"
    using Some c a client_connsD(2) [OF conns c] st(3) by (simp add: TcpClient_delete_def cl1_def c'_def Let_def)
  ultimately show ?thesis by (simp add: keeps_client_def cl1_def)
qed

lemma keeper_inv:
  assumes inv: "client_inv addr cl" and allowed: "client_op_allowed cl Keeper_over"
  shows "keeps_client R addr cl (client_release (cl\<lparr>cl_kept := False\<rparr>))"
proof -
  have a: "cl_deleted cl" "cl_kept cl" "cn_pending (cl_connector cl) = []"
    using allowed by (simp_all add: client_op_allowed_def)
  then have s: "stopping (cl_connector cl)" using inv by (simp add: client_inv_def client_links_def connector_over_def)
  then have "cn_state (cl_connector cl) \<noteq> Connector_kConnecting" using a by (auto simp: stopping_def)
  then have "cn_channel (cl_connector cl) = None"
    using over_channel [OF _ a(3)] inv by (simp add: client_inv_def client_links_def)
  then have "client_inv addr (cl\<lparr>cl_kept := False\<rparr>)"
    using inv a s by (simp add: client_inv_def client_links_def connector_over_def stopping_def)
  from release_inv [OF this] show ?thesis by (simp add: keeps_client_def)
qed

lemma client_step_inv:
  assumes inv: "client_inv addr cl" and fd: "\<And>i. 0 \<le> fst (net i)"
    and ok: "\<And>p. kernel_lawful (kern p)" "\<And>p. user_ok (user p)" and allowed: "client_op_allowed cl op"
  shows "keeps_client (refuses_some kern) addr cl (client_step net addr kern user cl op)"
proof (cases op)
  case (Client_connect tid)
  then show ?thesis using client_connect_inv [where net = net, OF inv fd] allowed by simp
next
  case (Client_disconnect tid)
  then show ?thesis using client_disconnect_inv [OF inv] by simp
next
  case Client_stop
  then show ?thesis using client_stop_inv(2) [OF inv] allowed
    by (simp add: keeps_client_def client_op_allowed_def) (simp add: TcpClient_stop_def)
next
  case Client_enable_retry
  then show ?thesis using inv by (simp add: keeps_client_def TcpClient_enableRetry_def client_inv_def)
next
  case (Client_delete tid unique)
  then show ?thesis using client_delete_inv [OF inv] allowed by simp
next
  case (On_connector cop)
  then show ?thesis
    using connector_step_inv [where net = net and kern = kern and user = user, OF inv fd ok] allowed by simp
next
  case (On_client_conn p cop)
  then obtain c where c: "cl_objects cl p = Some c" "conn_op_allowed c cop" "cop \<noteq> Establish" "cop \<noteq> Destroy"
    and quiet: "(case cop of Call tid cmd \<Rightarrow> True | _ \<Rightarrow> False) \<or> Reset_channel \<notin> set (cn_pending (cl_connector cl))"
    using allowed by (auto simp: client_op_allowed_def split: option.splits)
  have good: "conn_good c" using client_connsD(1) c(1) inv by (auto simp: client_inv_def)
  have "keeps_good (refuses_some kern) c (conn_step (kern p) (server_user (user p)) c cop)"
    by (rule keeps_good_weaken [OF conn_step_moves [OF good ok(1) server_user_ok [OF ok(2)] c(2,4)] refuses_someI])
  moreover have "Reset_channel \<notin> set (cn_pending (cl_connector cl))"
    if r: "conn_step (kern p) (server_user (user p)) c cop = Inr c'" "close_reported c c'" for c'
  proof (rule ccontr)
    assume "\<not> ?thesis"
    then obtain tid cmd where op: "cop = Call tid cmd" using quiet by (cases cop) auto
    then have "keeps_conn (refuses (kern p)) c (conn_exec (kern p) tid c cmd)"
      using conn_exec_keeps [OF _ ok(1)] good c(2) by (simp add: conn_good_def conn_op_allowed_def)
    then show False using r op by (simp add: keeps_conn_def conn_frame_def close_reported_def)
  qed
  ultimately show ?thesis
    using on_client_conn [where net = net and f = "\<lambda>c. conn_step (kern p) (server_user (user p)) c cop", OF inv c(1) _ fd]
      On_client_conn by simp
next
  case Client_functor
  show ?thesis
  proof (cases "cl_queue cl")
    case (Cons task tasks)
    then show ?thesis
      using client_functor_inv [where net = net and kern = kern and user = user, OF inv Cons ok] Client_functor by simp
  qed (use inv Client_functor in \<open>simp add: keeps_client_def\<close>)
next
  case Keeper_over
  then show ?thesis using keeper_inv [OF inv] allowed by simp
qed

lemma client_run_inv:
  assumes "client_inv addr cl" and fd: "\<And>i. 0 \<le> fst (net i)"
    and ok: "\<And>p. kernel_lawful (kern p)" "\<And>p. user_ok (user p)" and "client_run_allowed net addr kern user cl ops"
  shows "keeps_client (refuses_some kern) addr cl (foldR (client_step net addr kern user) cl ops)"
  using assms(1,5)
proof (induction ops arbitrary: cl)
  case (Cons op ops)
  have step: "keeps_client (refuses_some kern) addr cl (client_step net addr kern user cl op)"
    using client_step_inv [where net = net and kern = kern and user = user, OF Cons.prems(1) fd ok] Cons.prems(2) by simp
  then show ?case
  proof (cases "client_step net addr kern user cl op")
    case (Inr cl')
    then have "client_inv addr cl'" "cl_owner cl' = cl_owner cl" "cl_name cl' = cl_name cl"
      using step by (simp_all add: keeps_client_def)
    moreover have "client_run_allowed net addr kern user cl' ops" using Cons.prems(2) Inr by simp
    ultimately show ?thesis using Cons.IH [of cl'] Inr by (simp add: keeps_client_def)
  qed (simp add: keeps_client_def)
qed (simp add: keeps_client_def)

lemma TcpClient_new_inv: "client_inv addr (TcpClient_new tid name)"
  using Connector_new_inv [of tid "nat tid"]
  by (simp add: client_inv_def client_conns_def client_links_def TcpClient_new_def)
    (simp add: Connector_new_def channel_fd_ok_def)


section \<open>One connection at a time\<close>


text \<open>Refused, connected, closed, connected again, deleted.\<close>

definition second_time :: "nat \<Rightarrow> int \<times> int" where
  "second_time i = (3 + int i, if i < 1 then ECONNREFUSED else EINPROGRESS)"


end
