(* ===== verification/Client_Retry.thy ===== *)
theory Client_Retry
  imports Client_Properties
begin

text \<open>
  Reconnecting: a client with \<open>enableRetry\<close> does not give up. And two ways to misuse a client.
\<close>

section \<open>The connector keeps trying\<close>

definition trying :: "connector \<Rightarrow> bool" where
  "trying c \<longleftrightarrow> cn_state c = Connector_kConnecting \<or> cn_timers c \<noteq> [] \<or> Start_in_loop \<in> set (cn_pending c)"

definition keeps_trying :: "connector \<Rightarrow> bool" where
  "keeps_trying c \<longleftrightarrow> cn_connect c \<and> trying c"

text \<open>The last \<open>connect(2)\<close> failed in a way that is neither taken as under way nor retried
  (\<open>EACCES\<close>, \<open>EPERM\<close>, \<open>ETIMEDOUT\<close>, \<open>EHOSTUNREACH\<close>, ...): \<open>Connector::connect\<close> closes the socket, and that is all.\<close>

definition connector_gave_up :: "(nat \<Rightarrow> int \<times> int) \<Rightarrow> connector \<Rightarrow> bool" where
  "connector_gave_up net c \<longleftrightarrow> 0 < cn_attempts c \<and> snd (net (cn_attempts c - 1)) \<notin>
     {0, EINPROGRESS, EINTR, EISCONN, EAGAIN, EADDRINUSE, EADDRNOTAVAIL, ECONNREFUSED, ENETUNREACH}"

definition on_the_way :: "(nat \<Rightarrow> int \<times> int) \<Rightarrow> connector \<Rightarrow> bool" where
  "on_the_way net c \<longleftrightarrow> keeps_trying c \<or> connector_gave_up net c"

lemma retry_trying: "cn_connect c \<Longrightarrow> keeps_trying (Connector_retry fd c)"
  by (simp add: Connector_retry_def connector_note_def keeps_trying_def trying_def Let_def)

lemma connect_trying:
  assumes run: "Connector_connect net c = Inr c'" and c: "cn_connect c"
  shows "on_the_way net c'"
proof -
  obtain fd e where e: "net (cn_attempts c) = (fd, e)" by (cases "net (cn_attempts c)")
  then have fd: "\<not> fd < 0" using run by (auto simp: Connector_connect_def Let_def)
  define d where "d = connector_note (Opened fd) (c\<lparr>cn_attempts := Suc (cn_attempts c)\<rparr>)"
  have d: "cn_connect d" "cn_attempts d = Suc (cn_attempts c)" using c by (simp_all add: d_def connector_note_def)
  consider (ok) "e \<in> {0, EINPROGRESS, EINTR, EISCONN}"
    | (again) "e \<notin> {0, EINPROGRESS, EINTR, EISCONN}" "e \<in> {EAGAIN, EADDRINUSE, EADDRNOTAVAIL, ECONNREFUSED, ENETUNREACH}"
    | (over) "e \<notin> {0, EINPROGRESS, EINTR, EISCONN}" "e \<notin> {EAGAIN, EADDRINUSE, EADDRNOTAVAIL, ECONNREFUSED, ENETUNREACH}"
    by blast
  then show ?thesis
  proof cases
    case ok
    then have "Connector_connecting fd d = Inr c'"
      using run e fd by (simp add: Connector_connect_def d_def [symmetric] Let_def)
    then show ?thesis
      using d by (auto simp: Connector_connecting_def cassert_def Let_def on_the_way_def keeps_trying_def trying_def
          split: if_splits)
  next
    case again
    then have "c' = Connector_retry fd d"
      using run e fd by (simp add: Connector_connect_def d_def [symmetric] Let_def del: insert_iff)
    then show ?thesis using retry_trying d by (simp add: on_the_way_def)
  next
    case over
    then have "c' = connector_note (Closed fd) d"
      using run e fd by (simp add: Connector_connect_def d_def [symmetric] Let_def del: insert_iff)
    then have "cn_attempts c' = Suc (cn_attempts c)" using d by (simp add: connector_note_def)
    then show ?thesis using e over by (simp add: on_the_way_def connector_gave_up_def)
  qed
qed

lemma startInLoop_trying:
  assumes "Connector_startInLoop net tid c = Inr c'" and "cn_connect c"
  shows "on_the_way net c'"
  using assms connect_trying
  by (auto simp: Connector_startInLoop_def connector_in_thread_def cassert_def split: if_splits)

lemma end_attempt_trying:
  assumes "Connector_removeAndResetChannel (c\<lparr>cn_state := st\<rparr>) = Inr (fd, c1)" and "cn_connect c"
  shows "cn_connect c1" and "keeps_trying (Connector_retry fd c1)"
proof -
  show "cn_connect c1" using remove_keeps_log [OF assms(1)] assms(2) by simp
  then show "keeps_trying (Connector_retry fd c1)" by (rule retry_trying)
qed

lemma handlers_trying:
  assumes "keeps_trying c" and "cn_state c \<noteq> Connector_kConnected"
  shows "Connector_stopInLoop tid c = Inr c' \<Longrightarrow> keeps_trying c'"
    and "Connector_handleError c = Inr c' \<Longrightarrow> keeps_trying c'"
    and "Connector_handleWrite err self c = Inr c' \<Longrightarrow> keeps_trying c' \<or> connector_gave c c' \<noteq> None"
proof -
  have c: "cn_connect c" using assms(1) by (simp add: keeps_trying_def)
  have same: "c\<lparr>cn_state := cn_state c\<rparr> = c" by simp
  note e = end_attempt_trying [where c = c, OF _ c]
  note e' = e [where st = "cn_state c", unfolded same]
  show "Connector_stopInLoop tid c = Inr c' \<Longrightarrow> keeps_trying c'"
    using e(2) assms(1) by (auto simp: Connector_stopInLoop_def connector_in_thread_def andThen_eq_Inr split: if_splits)
  show "Connector_handleError c = Inr c' \<Longrightarrow> keeps_trying c'"
    using e'(2) assms(1) by (auto simp: Connector_handleError_def andThen_eq_Inr split: if_splits)
  assume run: "Connector_handleWrite err self c = Inr c'"
  show "keeps_trying c' \<or> connector_gave c c' \<noteq> None"
  proof (cases "cn_state c = Connector_kConnecting")
    case True
    then obtain fd c1 where r: "Connector_removeAndResetChannel c = Inr (fd, c1)"
      and c': "c' = Connector_retry fd c1 \<or> cn_connect c1 \<and> c' = connector_note (Given fd) (c1\<lparr>cn_state := Connector_kConnected\<rparr>)"
      using run e'(1) by (auto simp: Connector_handleWrite_def andThen_eq_Inr Let_def split: if_splits)
    have "cn_log c1 = cn_log c" using remove_keeps_log [OF r] by simp
    then show ?thesis using c' e'(2) [OF r] by (auto simp: connector_gave_def connector_note_def)
  next
    case False
    then show ?thesis using run assms(1) by (auto simp: Connector_handleWrite_def cassert_def split: if_splits)
  qed
qed

lemma connector_step_trying:
  assumes inv: "connector_inv c" and c: "keeps_trying c" "cn_state c \<noteq> Connector_kConnected"
    and step: "connector_step net c op = Inr c'" "connector_allowed c op" "loop_op op"
  shows "on_the_way net c' \<or> connector_gave c c' \<noteq> None"
proof (cases op)
  case Run_next
  show ?thesis
  proof (cases "cn_pending c")
    case (Cons task tasks)
    have run: "connector_run_task net (c\<lparr>cn_pending := tasks\<rparr>) task = Inr c'" using step Run_next Cons by simp
    show ?thesis
    proof (cases task)
      case Start_in_loop
      then show ?thesis using run startInLoop_trying c(1) by (simp add: keeps_trying_def)
    next
      case Stop_in_loop
      then have "keeps_trying (c\<lparr>cn_pending := tasks\<rparr>)" using c(1) Cons by (simp add: keeps_trying_def trying_def)
      then show ?thesis using run handlers_trying(1) c(2) Stop_in_loop by (simp add: on_the_way_def)
    next
      case Reset_channel
      then show ?thesis using run c(1) Cons by (auto simp: Connector_resetChannel_def on_the_way_def keeps_trying_def trying_def)
    qed
  qed (use step Run_next c in \<open>simp add: on_the_way_def\<close>)
next
  case Timer_fires
  show ?thesis
  proof (cases "cn_timers c")
    case (Cons t ts)
    then show ?thesis using step Timer_fires startInLoop_trying c(1) by (simp add: keeps_trying_def)
  qed (use step Timer_fires c in \<open>simp add: on_the_way_def\<close>)
next
  case (Channel_event revents err self)
  show ?thesis
  proof (cases "cn_channel c")
    case (Some ch)
    then have ch: "ch_addedToLoop ch" using step(2) Channel_event by (simp add: connector_allowed_def)
    have st: "cn_state c = Connector_kConnecting" "connector_channel ch"
      using inv Some ch by (simp_all add: connector_inv_def split: if_splits)
    define d where "d = c\<lparr>cn_channel := Some (Channel_set_revents revents ch)\<rparr>"
    have d: "keeps_trying d" "cn_state d = Connector_kConnecting" "connector_inv d" "cn_log d = cn_log c"
      using c inv Some ch st by (simp_all add: d_def keeps_trying_def trying_def connector_inv_def connector_channel_def
          Channel_set_revents_def)
    have handlers: "connector_channel (Channel_set_revents revents ch)"
      using st(2) by (simp add: connector_channel_def Channel_set_revents_def)
    have "ch_revents (Channel_set_revents revents ch) = revents" by (simp add: Channel_set_revents_def)
    moreover have "foldR (connector_invoke err self) d (Channel_dispatch (Channel_set_revents revents ch) 0) = Inr c'"
      using step Channel_event Some by (simp add: d_def Let_def)
    ultimately have run: "foldR (connector_invoke err self) d
        ((if revents AND (POLLERR OR POLLNVAL) \<noteq> 0 then [Event_call Connector_on_error] else []) @
         (if revents AND POLLOUT \<noteq> 0 then [Event_call Connector_on_write] else [])) = Inr c'"
      by (simp only: connector_dispatch [OF handlers])
    have gave: "connector_gave c c' = connector_gave d c'" by (simp add: connector_gave_def d(4))
    show ?thesis
    proof (cases "revents AND (POLLERR OR POLLNVAL) = 0")
      case True
      then have "c' = d \<or> Connector_handleWrite err self d = Inr c'"
        using run by (simp split: if_splits)
      then show ?thesis using handlers_trying(3) [OF d(1)] d(1,2) gave by (auto simp: on_the_way_def)
    next
      case False
      then obtain e where e: "Connector_handleError d = Inr e" and rest: "c' = e \<or> Connector_handleWrite err self e = Inr c'"
        using run by (auto simp: andThen_eq_Inr split: if_splits)
      have "cn_state e = Connector_kDisconnected" by (rule handleError_state [OF d(3,2) e])
      then have "c' = e" using rest by (auto simp: Connector_handleWrite_def)
      then show ?thesis using handlers_trying(2) [OF d(1) _ e] d(2) by (simp add: on_the_way_def)
    qed
  qed (use step Channel_event c in \<open>simp add: on_the_way_def\<close>)
qed (use step in \<open>simp_all add: loop_op_def\<close>)


text \<open>A step makes an attempt, with its outcome, or none.\<close>

lemma handlers_attempts:
  "Connector_removeAndResetChannel c = Inr (fd, c1) \<Longrightarrow> cn_attempts c1 = cn_attempts c"
  "Connector_stopInLoop tid c = Inr c' \<Longrightarrow> cn_attempts c' = cn_attempts c"
  "Connector_handleError c = Inr c' \<Longrightarrow> cn_attempts c' = cn_attempts c"
  "Connector_handleWrite err self c = Inr c' \<Longrightarrow> cn_attempts c' = cn_attempts c"
proof -
  have remove: "cn_attempts d' = cn_attempts d" if "Connector_removeAndResetChannel d = Inr (fd, d')" for d d' fd
    using that by (auto simp: Connector_removeAndResetChannel_def Let_def cassert_def split: option.splits if_splits)
  have retry: "cn_attempts (Connector_retry fd d) = cn_attempts d" for fd d
    by (simp add: Connector_retry_def connector_note_def Let_def)
  show "Connector_removeAndResetChannel c = Inr (fd, c1) \<Longrightarrow> cn_attempts c1 = cn_attempts c" by (rule remove)
  show "Connector_stopInLoop tid c = Inr c' \<Longrightarrow> cn_attempts c' = cn_attempts c"
    by (auto simp: Connector_stopInLoop_def connector_in_thread_def andThen_eq_Inr retry dest!: remove split: if_splits)
  show "Connector_handleError c = Inr c' \<Longrightarrow> cn_attempts c' = cn_attempts c"
    by (auto simp: Connector_handleError_def andThen_eq_Inr retry dest!: remove split: if_splits)
  show "Connector_handleWrite err self c = Inr c' \<Longrightarrow> cn_attempts c' = cn_attempts c"
    by (auto simp: Connector_handleWrite_def andThen_eq_Inr retry Let_def cassert_def connector_note_def
        dest!: remove split: if_splits)
qed

lemma startInLoop_attempts:
  "Connector_startInLoop net tid c = Inr c' \<Longrightarrow> on_the_way net c' \<or> cn_attempts c' = cn_attempts c"
  using connect_trying
  by (auto simp: Connector_startInLoop_def connector_in_thread_def cassert_def split: if_splits)

lemma connector_step_attempts:
  assumes step: "connector_step net c op = Inr c'" and op: "loop_op op"
  shows "on_the_way net c' \<or> cn_attempts c' = cn_attempts c"
proof (cases op)
  case Run_next
  show ?thesis
  proof (cases "cn_pending c")
    case (Cons task tasks)
    then have "connector_run_task net (c\<lparr>cn_pending := tasks\<rparr>) task = Inr c'" using step Run_next by simp
    then show ?thesis
      using startInLoop_attempts handlers_attempts(2)
      by (cases task) (fastforce simp: Connector_resetChannel_def)+
  qed (use step Run_next in simp)
next
  case Timer_fires
  then show ?thesis using step startInLoop_attempts by (cases "cn_timers c") fastforce+
next
  case (Channel_event revents err self)
  show ?thesis
  proof (cases "cn_channel c")
    case (Some ch)
    have one: "connector_invoke err self d call = Inr d' \<Longrightarrow> cn_attempts d' = cn_attempts d" for d call d'
      using handlers_attempts(3,4) by (cases "(err, self, d, call)" rule: connector_invoke.cases) auto
    have "foldR (connector_invoke err self) (c\<lparr>cn_channel := Some (Channel_set_revents revents ch)\<rparr>)
        (Channel_dispatch (Channel_set_revents revents ch) 0) = Inr c'"
      using step Channel_event Some by (simp add: Let_def)
    then have "cn_attempts c' = cn_attempts c" by (rule foldR_invariant) (use one in auto)
    then show ?thesis by simp
  qed (use step Channel_event in simp)
qed (use op in \<open>simp_all add: loop_op_def\<close>)

lemma connector_step_on_the_way:
  assumes inv: "connector_inv c" and c: "on_the_way net c"
    and step: "connector_step net c op = Inr c'" "connector_allowed c op" "loop_op op"
  shows "on_the_way net c' \<or> connector_gave c c' \<noteq> None"
proof (cases "keeps_trying c")
  case True
  then have "cn_state c \<noteq> Connector_kConnected"
    using inv by (auto simp: keeps_trying_def trying_def connector_inv_def)
  then show ?thesis using connector_step_trying [OF inv True _ step] by simp
next
  case False
  then show ?thesis
    using c connector_step_attempts [OF step(1,3)] by (auto simp: on_the_way_def connector_gave_up_def)
qed


section \<open>The client keeps its promise\<close>

text \<open>What the user asked for, and that it is under way.\<close>

definition client_wanted :: "(nat \<Rightarrow> int \<times> int) \<Rightarrow> tcp_client \<Rightarrow> bool" where
  "client_wanted net cl \<longleftrightarrow> cl_retry cl \<and> cl_connect cl \<and> \<not> cl_deleted cl \<and>
     (cl_connection cl \<noteq> None \<or> on_the_way net (cl_connector cl))"

definition gives_up :: "client_op \<Rightarrow> bool" where
  "gives_up op \<longleftrightarrow> (case op of Client_disconnect tid \<Rightarrow> True | Client_stop \<Rightarrow> True | Client_delete tid u \<Rightarrow> True | _ \<Rightarrow> False)"

definition same_wishes :: "tcp_client \<Rightarrow> tcp_client \<Rightarrow> bool" where
  "same_wishes cl cl' \<longleftrightarrow> cl_retry cl' = cl_retry cl \<and> cl_connect cl' = cl_connect cl \<and> cl_deleted cl' = cl_deleted cl"

lemma close_callback_result:
  assumes "client_close_callback net tid p cl = Inr cl'"
  shows "same_wishes cl cl' \<and>
    (cl_connection cl' = cl_connection cl \<and> cl_connector cl' = cl_connector cl \<or>
     (if cl_retry cl \<and> cl_connect cl then Connector_restart net tid (cl_connector cl) = Inr (cl_connector cl')
      else cl_connector cl' = cl_connector cl))"
  using assms
  by (auto simp: client_close_callback_def client_detail_removeConnection_def TcpClient_removeConnection_def
      client_queue_def same_wishes_def Let_def result_simps split: if_splits option.splits)

lemma on_conn_result:
  assumes "client_on_conn net p f cl = Inr cl'"
  shows "same_wishes cl cl' \<and>
    (cl_connection cl' = cl_connection cl \<and> cl_connector cl' = cl_connector cl \<or>
     (if cl_retry cl \<and> cl_connect cl
      then \<exists>tid. Connector_restart net tid (cl_connector cl) = Inr (cl_connector cl')
      else cl_connector cl' = cl_connector cl))"
proof -
  obtain c c' where c: "cl_objects cl p = Some c" "f c = Inr c'"
    using assms by (auto simp: client_on_conn_def result_simps deref_eq_Inr)
  define cl1 where "cl1 = cl\<lparr>cl_objects := (cl_objects cl)(p \<mapsto> c')\<rparr>"
  have "cl' = cl1 \<or> client_close_callback net (tc_owner c') p cl1 = Inr cl'"
    using assms c by (simp add: client_on_conn_def cl1_def Let_def split: if_splits)
  then show ?thesis
    using close_callback_result [of net "tc_owner c'" p cl1 cl']
    by (auto simp: cl1_def same_wishes_def split: if_splits)
qed

lemma restart_trying: "Connector_restart net tid c = Inr c' \<Longrightarrow> on_the_way net c'"
  by (rule startInLoop_trying [where tid = tid])
    (auto simp: Connector_restart_def connector_in_thread_def connector_note_def split: if_splits)

lemma on_conn_wanted:
  assumes "client_on_conn net p f cl = Inr cl'" and "client_wanted net cl"
  shows "client_wanted net cl'"
proof -
  have w: "cl_retry cl" "cl_connect cl" "\<not> cl_deleted cl" using assms(2) by (simp_all add: client_wanted_def)
  note r = on_conn_result [OF assms(1)]
  then have "cl_connection cl' = cl_connection cl \<and> cl_connector cl' = cl_connector cl \<or> on_the_way net (cl_connector cl')"
    using restart_trying w by auto
  then show ?thesis using r assms(2) by (auto simp: client_wanted_def same_wishes_def)
qed

lemma release_result: "client_release cl = Inr cl' \<Longrightarrow> cl' = cl"
  by (auto simp: client_release_def result_simps split: if_splits)

lemma connect_wanted:
  assumes step: "TcpClient_connect net tid cl = Inr cl'" and cl: "cl_retry cl" "\<not> cl_deleted cl"
  shows "client_wanted net cl'"
proof -
  obtain c where c: "Connector_start net tid (cl_connector cl) = Inr c" and cl': "cl' = cl\<lparr>cl_connect := True, cl_connector := c\<rparr>"
    using step by (auto simp: TcpClient_connect_def result_simps)
  have "on_the_way net c"
  proof (cases "tid = cn_owner (cl_connector cl)")
    case True
    then have "Connector_startInLoop net tid ((cl_connector cl)\<lparr>cn_connect := True\<rparr>) = Inr c"
      using c by (simp add: Connector_start_def Let_def)
    then show ?thesis by (rule startInLoop_trying) simp
  next
    case False
    then show ?thesis using c by (auto simp: Connector_start_def Let_def on_the_way_def keeps_trying_def trying_def)
  qed
  then show ?thesis using cl cl' by (simp add: client_wanted_def)
qed

lemma wanted_step:
  assumes inv: "client_inv addr cl"
    and wanted: "client_wanted net cl" and step: "client_step net addr kern user cl op = Inr cl'"
    and op: "client_op_allowed cl op" "\<not> gives_up op"
  shows "client_wanted net cl'"
proof (cases op)
  case (Client_connect tid)
  then have "TcpClient_connect net tid cl = Inr cl'" using step by simp
  then show ?thesis by (rule connect_wanted) (use wanted in \<open>simp_all add: client_wanted_def\<close>)
next
  case (On_connector cop)
  have a: "loop_op cop" "connector_allowed (cl_connector cl) cop"
    using op On_connector by (simp_all add: client_op_allowed_def)
  have ci: "connector_inv (cl_connector cl)" using inv by (simp add: client_inv_def client_links_def)
  obtain c where c: "connector_step net (cl_connector cl) cop = Inr c"
    using step On_connector by (auto simp: andThen_eq_Inr)
  have rest: "connector_gave (cl_connector cl) c = None \<Longrightarrow> client_release (cl\<lparr>cl_connector := c\<rparr>) = Inr cl'"
    "connector_gave (cl_connector cl) c = Some fd \<Longrightarrow>
      TcpClient_newConnection net addr kern user (cl_owner cl) fd (cl\<lparr>cl_connector := c\<rparr>) = Inr cl'" for fd
    using step On_connector c by (auto simp: Let_def split: if_splits)
  show ?thesis
  proof (cases "connector_gave (cl_connector cl) c")
    case None
    then have cl': "cl' = cl\<lparr>cl_connector := c\<rparr>" using rest release_result by simp
    have "on_the_way net c" if "cl_connection cl = None"
    proof -
      have "on_the_way net (cl_connector cl)" using wanted that by (simp add: client_wanted_def)
      then show ?thesis using connector_step_on_the_way [OF ci _ c a(2,1)] None by simp
    qed
    then show ?thesis using wanted cl' by (auto simp: client_wanted_def)
  next
    case (Some fd)
    define cl1 where "cl1 = cl\<lparr>cl_connector := c, cl_nextConnId := cl_nextConnId cl + 1, cl_created := Suc (cl_created cl),
      cl_objects := (cl_objects cl)(cl_created cl \<mapsto> TcpConnection_new (cl_owner cl) (nat (cl_owner cl))
        (TcpClient_connName (addr fd) (cl\<lparr>cl_connector := c\<rparr>)) fd False False), cl_connection := Some (cl_created cl)\<rparr>"
    have "client_on_conn net (cl_created cl) (TcpConnection_connectEstablished (kern (cl_created cl))
        (server_user (user (cl_created cl))) (cl_owner cl)) cl1 = Inr cl'"
      using rest Some by (simp add: TcpClient_newConnection_def Let_def cl1_def split: if_splits)
    then show ?thesis by (rule on_conn_wanted) (use wanted in \<open>simp add: client_wanted_def cl1_def\<close>)
  qed
next
  case (On_client_conn p cop)
  then show ?thesis using on_conn_wanted [OF _ wanted] step by simp
next
  case Client_functor
  show ?thesis
  proof (cases "cl_queue cl")
    case (Cons task tasks)
    have w: "client_wanted net (cl\<lparr>cl_queue := tasks\<rparr>)" using wanted by (simp add: client_wanted_def)
    show ?thesis
    proof (cases task)
      case (Destroy_closed p)
      then show ?thesis using on_conn_wanted [OF _ w] step Client_functor Cons by simp
    next
      case (Detach_conn p)
      then show ?thesis using step Client_functor Cons w by (auto simp: client_wanted_def)
    qed
  qed (use step Client_functor wanted in simp)
qed (use step wanted op in \<open>auto simp: gives_up_def client_op_allowed_def TcpClient_enableRetry_def client_wanted_def\<close>)

text \<open>\<open>retry_\<close> stays set.\<close>

lemma retry_step:
  assumes step: "client_step net addr kern user cl op = Inr cl'" and "cl_retry cl \<or> op = Client_enable_retry"
  shows "cl_retry cl'"
proof -
  have r: "cl_retry cl'" if "client_on_conn net p f cl0 = Inr cl'" "cl_retry cl0" for p f cl0
    using on_conn_result [OF that(1)] that(2) by (simp add: same_wishes_def)
  have rel: "cl_retry cl'" if "client_release cl0 = Inr cl'" "cl_retry cl0" for cl0
    using release_result that by blast
  show ?thesis
  proof (cases op)
    case (Client_delete tid unique)
    then show ?thesis
      using step assms(2) by (auto simp: TcpClient_delete_def client_queue_def Let_def result_simps deref_eq_Inr cassert_def
          split: option.splits if_splits dest!: release_result)
  next
    case (Client_disconnect tid)
    then show ?thesis
      using step assms(2) by (auto simp: TcpClient_disconnect_def Let_def result_simps deref_eq_Inr split: option.splits)
  next
    case (On_connector cop)
    then show ?thesis
      using step assms(2) by (auto simp: result_simps Let_def TcpClient_newConnection_def split: option.splits if_splits
          intro: rel r)
  next
    case Client_functor
    then show ?thesis
    proof (cases "cl_queue cl")
      case (Cons task tasks)
      then show ?thesis
        using step assms(2) Client_functor r [of _ _ "cl\<lparr>cl_queue := tasks\<rparr>"] by (cases task) auto
    qed (use step assms(2) in simp)
  next
    case (On_client_conn p cop)
    then show ?thesis using step assms(2) r [of p] by simp
  next
    case Keeper_over
    then show ?thesis using step assms(2) rel [of "cl\<lparr>cl_kept := False\<rparr>"] by simp
  next
    case (Client_connect tid)
    then show ?thesis using step assms(2) by (auto simp: TcpClient_connect_def result_simps)
  qed (use step assms(2) in \<open>auto simp: TcpClient_stop_def TcpClient_enableRetry_def\<close>)
qed

lemma retry_run:
  assumes "foldR (client_step net addr kern user) cl ops = Inr cl'" and "cl_retry cl \<or> Client_enable_retry \<in> set ops"
  shows "cl_retry cl'"
  using assms
proof (induction ops arbitrary: cl)
  case (Cons op ops)
  then obtain cl1 where cl1: "client_step net addr kern user cl op = Inr cl1"
    "foldR (client_step net addr kern user) cl1 ops = Inr cl'" by (auto simp: andThen_eq_Inr)
  then show ?case using Cons.IH [OF cl1(2)] Cons.prems(2) retry_step [OF cl1(1)] by auto
qed simp


lemma client_run_allowed_append:
  "client_run_allowed net addr kern user cl (ops @ ops') \<longleftrightarrow> client_run_allowed net addr kern user cl ops \<and>
     (case foldR (client_step net addr kern user) cl ops of Inl e \<Rightarrow> True
      | Inr cl' \<Rightarrow> client_run_allowed net addr kern user cl' ops')"
  by (induction ops arbitrary: cl) (auto split: sum.splits)

lemma wanted_run:
  assumes "client_inv addr cl" and fd: "\<And>i. 0 \<le> fst (net i)" and ok: "\<And>p. kernel_lawful (kern p)" "\<And>p. user_ok (user p)"
    and "client_wanted net cl" and "client_run_allowed net addr kern user cl ops" and "\<forall>op \<in> set ops. \<not> gives_up op"
    and "foldR (client_step net addr kern user) cl ops = Inr cl'"
  shows "client_wanted net cl'"
  using assms(1,5-8)
proof (induction ops arbitrary: cl)
  case (Cons op ops)
  obtain cl1 where cl1: "client_step net addr kern user cl op = Inr cl1"
    "foldR (client_step net addr kern user) cl1 ops = Inr cl'" using Cons.prems(5) by (auto simp: andThen_eq_Inr)
  have a: "client_op_allowed cl op" "client_run_allowed net addr kern user cl1 ops" using Cons.prems(3) cl1 by simp_all
  have "client_inv addr cl1"
    using client_step_inv [where net = net and kern = kern and user = user, OF Cons.prems(1) fd ok a(1)] cl1(1)
    by (simp add: keeps_client_def)
  moreover have "client_wanted net cl1"
    using wanted_step [OF Cons.prems(1) Cons.prems(2) cl1(1) a(1)] Cons.prems(4) by simp
  ultimately show ?case using Cons.IH [of cl1] a(2) cl1(2) Cons.prems(4) by simp
qed simp


lemma second_time_retried:
  "snd (second_time i) \<in> {0, EINPROGRESS, EINTR, EISCONN, EAGAIN, EADDRINUSE, EADDRNOTAVAIL, ECONNREFUSED, ENETUNREACH}"
  by (simp add: second_time_def)


section \<open>Misuse\<close>

text \<open>
  Two calls that the contract excludes. A connector that handed over a connection stays in \<open>kConnected\<close>
  when that connection is gone, so a second \<open>connect\<close> on a client that does not retry fails an assertion.
  And \<open>~TcpClient\<close> in a thread other than the loop's only queues the change of the close callback: a
  connection that the peer closes before the loop gets there calls the deleted client.
\<close>

theorem TcpClient_misuse:
  assumes fd: "\<And>i. 0 \<le> fst (net i)" and ok: "\<And>p. kernel_lawful (kern p)" "\<And>p. user_ok (user p)"
    and allowed: "client_run_allowed net addr kern user (TcpClient_new tid name) ops"
    and run: "foldR (client_step net addr kern user) (TcpClient_new tid name) ops = Inr cl"
    and st: "cn_state (cl_connector cl) = Connector_kConnected" and quiet: "cn_pending (cl_connector cl) = []"
  shows "client_step net addr kern user cl (Client_connect tid) = Inl Assert_failed"
    and "\<lbrakk>t \<noteq> tid; TcpClient_delete t unique cl = Inr cl1; cl_connection cl = Some p; cl_objects cl1 p = Some c;
      conn_step (kern p) (server_user (user p)) c op = Inr c'; close_reported c c'\<rbrakk> \<Longrightarrow>
      client_step net addr kern user cl1 (On_client_conn p op) = Inl Undefined_behaviour"
proof -
  have "keeps_client (refuses_some kern) addr (TcpClient_new tid name) (foldR (client_step net addr kern user) (TcpClient_new tid name) ops)"
    by (rule client_run_inv [OF TcpClient_new_inv fd ok allowed])
  then have inv: "client_links cl" and owner: "cl_owner cl = tid"
    using run by (simp_all add: keeps_client_def client_inv_def TcpClient_new_def)
  then show "client_step net addr kern user cl (Client_connect tid) = Inl Assert_failed"
    using st by (simp add: TcpClient_connect_def Connector_start_def Connector_startInLoop_def connector_in_thread_def
        client_links_def)
  assume a: "t \<noteq> tid" "TcpClient_delete t unique cl = Inr cl1" "cl_connection cl = Some p" "cl_objects cl1 p = Some c"
    and step: "conn_step (kern p) (server_user (user p)) c op = Inr c'" "close_reported c c'"
  have "cl_deleted cl1 \<and> cl_detached cl1 = cl_detached cl"
    using a(1-3) owner by (simp add: TcpClient_delete_def client_queue_def Let_def result_simps)
      (elim exE conjE, drule release_result, simp)
  moreover have "cl_detached cl = []" using inv a(3) by (auto simp: client_links_def split: if_splits)
  ultimately have "cl_deleted cl1 \<and> cl_detached cl1 = []" by simp
  then show "client_step net addr kern user cl1 (On_client_conn p op) = Inl Undefined_behaviour"
    using a(4) step by (simp add: client_on_conn_def client_close_callback_def)
qed

end
