(* ===== verification/Double.thy ===== *)
theory Double
  imports Timestamp "HOL-Library.Log_Nat"
begin

text \<open>
  Floating point as the sources use it. A \<open>double\<close> is the rational it stands for; \<open>double_of\<close> rounds to
  the nearest number with 53 significant bits, ties to even, which is what a conversion from \<open>int64_t\<close>,
  a product and a quotient give (IEEE 754 in the default rounding mode; the numbers here are far from
  the limits of the exponent). \<open>print_fixed k\<close> is \<open>%.kf\<close>, the exact value rounded to \<open>k\<close> decimals.
\<close>

section \<open>Rounding\<close>

definition round_half_even :: "rat \<Rightarrow> int" where
  "round_half_even x =
     (let f = \<lfloor>x\<rfloor>; d = x - of_int f
      in if d < 1 / 2 then f else if 1 / 2 < d then f + 1 else if even f then f else f + 1)"

text \<open>The exponent: the greatest power of two that is not above a positive number.\<close>

definition binade :: "rat \<Rightarrow> int" where
  "binade x =
     (case quotient_of x of (a, b) \<Rightarrow>
        let e = int (floorlog 2 (nat a)) - int (floorlog 2 (nat b))
        in if 2 powi e \<le> x then e else e - 1)"

definition round_bits :: "rat \<Rightarrow> double" where
  "round_bits x = (let u = 2 powi (binade x - 52) in of_int (round_half_even (x / u)) * u)"

definition double_of :: "rat \<Rightarrow> double" where
  "double_of x = (if x = 0 then 0 else if x < 0 then - round_bits (- x) else round_bits x)"

lemma double_of_pos: "0 < x \<Longrightarrow> double_of x = round_bits x"
  by (simp add: double_of_def)

lemma round_half_even_le: "round_half_even x \<le> \<lfloor>x\<rfloor> + 1" and floor_le_round_half_even: "\<lfloor>x\<rfloor> \<le> round_half_even x"
  by (simp_all add: round_half_even_def Let_def)

lemma round_half_even_mono: "x \<le> y \<Longrightarrow> round_half_even x \<le> round_half_even y"
proof (cases "\<lfloor>x\<rfloor> = \<lfloor>y\<rfloor>")
  case True
  assume "x \<le> y"
  then have "x - of_int \<lfloor>y\<rfloor> \<le> y - of_int \<lfloor>y\<rfloor>" by simp
  then show ?thesis by (simp add: round_half_even_def Let_def True)
next
  case False
  assume "x \<le> y"
  then have "\<lfloor>x\<rfloor> + 1 \<le> \<lfloor>y\<rfloor>" using False floor_mono [of x y] by simp
  then show ?thesis using round_half_even_le [of x] floor_le_round_half_even [of y] by linarith
qed

lemma round_half_even_int [simp]: "round_half_even (of_int k) = k"
  by (simp add: round_half_even_def)

lemma round_half_even_eqI:
  assumes "\<bar>x - of_int q\<bar> \<le> 1 / 2" and "\<bar>x - of_int q\<bar> = 1 / 2 \<Longrightarrow> even q"
  shows "round_half_even x = q"
proof -
  consider "x = of_int q - 1 / 2" | "of_int q - 1 / 2 < x" "x < of_int q" | "of_int q \<le> x" "x < of_int q + 1 / 2"
    | "x = of_int q + 1 / 2"
    using assms(1) unfolding abs_le_iff by linarith
  then show ?thesis
  proof cases
    case 1
    then have "\<lfloor>x\<rfloor> = q - 1" by (simp add: floor_eq_iff)
    then show ?thesis using 1 assms(2) by (simp add: round_half_even_def)
  next
    case 2
    then have "\<lfloor>x\<rfloor> = q - 1" by (simp add: floor_eq_iff)
    then show ?thesis using 2 by (simp add: round_half_even_def)
  next
    case 3
    then have "\<lfloor>x\<rfloor> = q" by (simp add: floor_eq_iff)
    then show ?thesis using 3 by (simp add: round_half_even_def)
  next
    case 4
    then have "\<lfloor>x\<rfloor> = q" by (simp add: floor_eq_iff)
    then show ?thesis using 4 assms(2) by (simp add: round_half_even_def)
  qed
qed

lemma floorlog_bounds_rat:
  assumes "0 < a"
  shows "2 powi (int (floorlog 2 (nat a)) - 1) \<le> (of_int a :: rat)" and "(of_int a :: rat) < 2 powi int (floorlog 2 (nat a))"
proof -
  have b: "2 ^ (floorlog 2 (nat a) - 1) \<le> nat a" "nat a < 2 ^ floorlog 2 (nat a)"
    using floorlog_bounds [of "nat a" 2] assms by simp_all
  have pos: "0 < floorlog 2 (nat a)" using assms by (simp add: floorlog_def)
  have "(of_nat (2 ^ (floorlog 2 (nat a) - 1)) :: rat) \<le> of_nat (nat a)" using b(1) by (simp only: of_nat_le_iff)
  then show "2 powi (int (floorlog 2 (nat a)) - 1) \<le> (of_int a :: rat)"
    using pos assms by (simp add: power_int_def nat_diff_distrib)
  have "(of_nat (nat a) :: rat) < of_nat (2 ^ floorlog 2 (nat a))" using b(2) by (simp only: of_nat_less_iff)
  then show "(of_int a :: rat) < 2 powi int (floorlog 2 (nat a))" using assms by (simp add: power_int_def)
qed

lemma binade_bounds:
  assumes "0 < x"
  shows "2 powi binade x \<le> x" and "x < 2 powi (binade x + 1)"
proof -
  obtain a b where q: "quotient_of x = (a, b)" by (cases "quotient_of x")
  have x: "x = of_int a / of_int b" and b: "0 < b" using quotient_of_div [OF q] quotient_of_denom_pos [OF q] by simp_all
  then have a: "0 < a" using assms by (simp add: zero_less_divide_iff)
  define la where "la = int (floorlog 2 (nat a))"
  define lb where "lb = int (floorlog 2 (nat b))"
  have A: "2 powi (la - 1) \<le> (of_int a :: rat)" "(of_int a :: rat) < 2 powi la"
    unfolding la_def by (rule floorlog_bounds_rat [OF a])+
  have B: "2 powi (lb - 1) \<le> (of_int b :: rat)" "(of_int b :: rat) < 2 powi lb"
    unfolding lb_def by (rule floorlog_bounds_rat [OF b])+
  have pos: "(0::rat) < 2 powi k" for k by simp
  have "2 powi (la - lb - 1) * of_int b \<le> (2::rat) powi (la - lb - 1) * 2 powi lb" using B(2) pos by (intro mult_left_mono) auto
  also have "\<dots> = 2 powi (la - 1)" by (simp add: power_int_add [symmetric])
  also have "\<dots> \<le> of_int a" by (rule A(1))
  finally have low: "2 powi (la - lb - 1) \<le> x" using b by (simp add: x pos_le_divide_eq)
  have "of_int a < (2::rat) powi la" by (rule A(2))
  also have "\<dots> = 2 powi (la - lb + 1) * 2 powi (lb - 1)" by (simp add: power_int_add [symmetric])
  also have "\<dots> \<le> 2 powi (la - lb + 1) * of_int b" using B(1) pos by (intro mult_left_mono) auto
  finally have high: "x < 2 powi (la - lb + 1)" using b by (simp add: x pos_divide_less_eq)
  show "2 powi binade x \<le> x" "x < 2 powi (binade x + 1)"
    using low high by (auto simp: binade_def q la_def [symmetric] lb_def [symmetric] Let_def)
qed

lemma powi_2_le: "m \<le> n \<Longrightarrow> (2::rat) powi m \<le> 2 powi n"
  by (rule power_int_increasing) simp_all

lemma powi_2_less_imp: "(2::rat) powi m < 2 powi n \<Longrightarrow> m < n"
  using powi_2_le [of n m] by linarith

lemma binade_eqI:
  assumes "2 powi e \<le> x" and "x < 2 powi (e + 1)"
  shows "binade x = e"
proof -
  have "(0::rat) < 2 powi e" by simp
  then have x: "0 < x" using assms(1) by linarith
  have "(2::rat) powi e < 2 powi (binade x + 1)" "(2::rat) powi binade x < 2 powi (e + 1)"
    using binade_bounds [OF x] assms by linarith+
  then have "e < binade x + 1" "binade x < e + 1" by (simp_all only: powi_2_less_imp)
  then show ?thesis by simp
qed

lemma binade_mono:
  assumes "0 < x" and "x \<le> y"
  shows "binade x \<le> binade y"
proof -
  have "(2::rat) powi binade x < 2 powi (binade y + 1)"
    using binade_bounds(1) [of x] binade_bounds(2) [of y] assms by linarith
  then show ?thesis using powi_2_less_imp by fastforce
qed

lemma round_bits_bounds:
  assumes "0 < x"
  shows "2 powi binade x \<le> round_bits x" and "round_bits x \<le> 2 powi (binade x + 1)"
proof -
  define u :: rat where "u = 2 powi (binade x - 52)"
  have u: "0 < u" by (simp add: u_def)
  have e: "2 powi binade x = of_int (2 ^ 52) * u" "2 powi (binade x + 1) = of_int (2 ^ 53) * u"
    by (simp_all add: u_def power_int_diff power_int_add)
  have "of_int (2 ^ 52) \<le> x / u" "x / u \<le> of_int (2 ^ 53)"
    using binade_bounds [OF assms] u unfolding e by (simp_all add: pos_le_divide_eq pos_divide_le_eq)
  then have "2 ^ 52 \<le> round_half_even (x / u)" "round_half_even (x / u) \<le> 2 ^ 53"
    using round_half_even_mono round_half_even_int by metis+
  then have "of_int (2 ^ 52) * u \<le> of_int (round_half_even (x / u)) * u"
    "of_int (round_half_even (x / u)) * u \<le> of_int (2 ^ 53) * u"
    using u by (simp_all only: mult_right_mono of_int_le_iff less_imp_le)
  then show "2 powi binade x \<le> round_bits x" "round_bits x \<le> 2 powi (binade x + 1)"
    unfolding e by (simp_all add: round_bits_def Let_def u_def)
qed

lemma round_bits_mono:
  assumes "0 < x" and "x \<le> y"
  shows "round_bits x \<le> round_bits y"
proof (cases "binade x = binade y")
  case True
  have "x / 2 powi (binade y - 52) \<le> y / 2 powi (binade y - 52)" using assms by (simp add: divide_right_mono)
  then show ?thesis
    unfolding round_bits_def Let_def True by (intro mult_right_mono) (simp_all add: round_half_even_mono)
next
  case False
  then have "(2::rat) powi (binade x + 1) \<le> 2 powi binade y"
    using binade_mono [OF assms] by (intro powi_2_le) simp
  then show ?thesis using round_bits_bounds(2) [of x] round_bits_bounds(1) [of y] assms by linarith
qed

lemma round_bits_nonneg: "0 < x \<Longrightarrow> 0 < round_bits x"
proof -
  assume "0 < x"
  then have "2 powi binade x \<le> round_bits x" by (rule round_bits_bounds)
  moreover have "(0::rat) < 2 powi binade x" by simp
  ultimately show ?thesis by linarith
qed

lemma double_of_mono: "x \<le> y \<Longrightarrow> double_of x \<le> double_of y"
proof -
  assume le: "x \<le> y"
  consider "0 < x" | "y < 0" | "x \<le> 0" "0 \<le> y" by linarith
  then show ?thesis
  proof cases
    case 1
    then show ?thesis using le round_bits_mono [of x y] by (simp add: double_of_def)
  next
    case 2
    then show ?thesis using le round_bits_mono [of "- y" "- x"] by (simp add: double_of_def)
  next
    case 3
    then have "double_of x \<le> 0" "0 \<le> double_of y"
      using round_bits_nonneg [of "- x"] round_bits_nonneg [of y] by (auto simp: double_of_def)
    then show ?thesis by linarith
  qed
qed

text \<open>The rounding that \<open>Timestamp\<close> leaves open may be this one.\<close>

lemma rounding_double_of: "rounding double_of"
  by (simp add: rounding_def mono_def double_of_mono) (simp add: double_of_def)

text \<open>What has 53 bits is not changed; the rounding of a given number.\<close>

lemma double_of_eqI:
  assumes "2 powi e \<le> x" and "x < 2 powi (e + 1)"
  shows "double_of x = of_int (round_half_even (x / 2 powi (e - 52))) * 2 powi (e - 52)"
proof -
  have "(0::rat) < 2 powi e" by simp
  then have "0 < x" using assms by linarith
  then show ?thesis by (simp add: double_of_def round_bits_def Let_def binade_eqI [OF assms])
qed

lemma double_of_int:
  assumes "0 \<le> s" and "s < 2 ^ 53"
  shows "double_of (of_int s) = of_int s"
proof (cases "s = 0")
  case False
  define e where "e = binade (of_int s)"
  have s: "(0::rat) < of_int s" using assms False by simp
  have "(2::rat) powi e < 2 powi 53"
  proof -
    have "2 powi e \<le> (of_int s :: rat)" using binade_bounds(1) [OF s] by (simp add: e_def)
    also have "(of_int s :: rat) < of_int (2 ^ 53)" using assms(2) by (simp only: of_int_less_iff)
    finally show ?thesis by simp
  qed
  then have "e \<le> 52" using powi_2_less_imp by fastforce
  then have "(2::rat) powi (52 - e) = of_int (2 ^ nat (52 - e))" by (simp add: power_int_def)
  moreover have "(of_int s :: rat) / 2 powi (e - 52) = of_int s * 2 powi (52 - e)"
    using power_int_minus [of "2::rat" "52 - e"] by (simp add: divide_inverse)
  ultimately have "(of_int s :: rat) / 2 powi (e - 52) = of_int (s * 2 ^ nat (52 - e))" by simp
  then have "double_of (of_int s) = (of_int s / 2 powi (e - 52)) * 2 powi (e - 52)"
    using double_of_eqI [OF binade_bounds [OF s]] unfolding e_def [symmetric] by (simp only: round_half_even_int)
  then show ?thesis by simp
qed (simp add: double_of_def)

section \<open>Printing\<close>

definition print_digits :: "nat \<Rightarrow> nat \<Rightarrow> char list" where
  "print_digits k q =
     dec_digits (q div 10 ^ k) @ (if k = 0 then [] else CHR ''.'' # pad_left (CHR ''0'') k (dec_digits (q mod 10 ^ k)))"

definition print_fixed :: "nat \<Rightarrow> double \<Rightarrow> char list" where
  "print_fixed k x =
     (if x < 0 then CHR ''-'' # print_digits k (nat (round_half_even (- x * 10 ^ k)))
      else print_digits k (nat (round_half_even (x * 10 ^ k))))"

lemma length_print_digits:
  assumes "q < 10 ^ (k + j)" and "0 < j"
  shows "length (print_digits k q) \<le> k + j + (if k = 0 then 0 else 1)"
proof -
  have "q div 10 ^ k < 10 ^ j" using assms(1) by (simp add: less_mult_imp_div_less power_add mult.commute)
  then have "length (dec_digits (q div 10 ^ k)) \<le> j" using assms(2) by (rule length_dec_digits)
  moreover have "length (pad_left (CHR ''0'') k (dec_digits (q mod 10 ^ k))) = k" if "0 < k"
    using length_dec_digits [of "q mod 10 ^ k" k] that by (simp add: pad_left_def)
  ultimately show ?thesis by (cases "k = 0") (simp_all add: print_digits_def)
qed

text \<open>The error of one rounding.\<close>

lemma round_half_even_error: "\<bar>of_int (round_half_even x) - x\<bar> \<le> 1 / 2"
proof -
  have "of_int \<lfloor>x\<rfloor> \<le> x" "x < of_int \<lfloor>x\<rfloor> + 1" by linarith+
  then show ?thesis by (auto simp: round_half_even_def Let_def abs_le_iff)
qed

lemma double_of_error:
  assumes "0 < x"
  shows "\<bar>double_of x - x\<bar> \<le> x / 2 ^ 53"
proof -
  define u :: rat where "u = 2 powi (binade x - 52)"
  have u: "0 < u" and e: "2 powi binade x = 2 ^ 52 * u" by (simp_all add: u_def power_int_diff)
  have "\<bar>of_int (round_half_even (x / u)) - x / u\<bar> * u \<le> 1 / 2 * u"
    using round_half_even_error u by (intro mult_right_mono) auto
  moreover have "\<bar>of_int (round_half_even (x / u)) - x / u\<bar> * u = \<bar>of_int (round_half_even (x / u)) * u - x\<bar>"
    using u abs_mult [of "of_int (round_half_even (x / u)) - x / u" u] by (simp add: algebra_simps)
  moreover have "2 ^ 52 * u \<le> x" using binade_bounds(1) [OF assms] e by simp
  ultimately show ?thesis
    using assms by (simp add: double_of_def round_bits_def Let_def u_def [symmetric])
qed

lemma double_of_nonneg: "0 \<le> x \<Longrightarrow> 0 \<le> double_of x"
  using double_of_mono [of 0 x] by (simp add: double_of_def)

text \<open>Scaling by a power of two is exact.\<close>

lemma binade_scale: "0 < x \<Longrightarrow> binade (2 powi j * x) = j + binade x"
proof -
  assume "0 < x"
  note b = binade_bounds [OF this]
  show ?thesis
  proof (rule binade_eqI)
    show "2 powi (j + binade x) \<le> 2 powi j * x" using b(1) by (simp add: power_int_add)
    have "2 powi j * x < 2 powi j * 2 powi (binade x + 1)" using b(2) by (intro mult_strict_left_mono) simp_all
    then show "2 powi j * x < 2 powi (j + binade x + 1)" by (simp add: power_int_add [symmetric] add.assoc)
  qed
qed

lemma double_of_scale:
  assumes "0 \<le> x"
  shows "double_of (2 powi j * x) = 2 powi j * double_of x"
proof (cases "x = 0")
  case False
  then have x: "0 < x" using assms by simp
  have p: "(0::rat) < 2 powi j" by simp
  have "2 powi (j + binade x - 52) = 2 powi j * (2::rat) powi (binade x - 52)"
    by (simp add: power_int_add [symmetric] algebra_simps)
  then have "round_bits (2 powi j * x) = 2 powi j * round_bits x"
    using p by (simp add: round_bits_def binade_scale [OF x] Let_def)
  moreover have "0 < 2 powi j * x" using x p by simp
  ultimately show ?thesis using double_of_pos [OF x] double_of_pos [of "2 powi j * x"] by simp
qed (simp add: double_of_def)

lemma double_of_idem:
  assumes "0 \<le> x"
  shows "double_of (double_of x) = double_of x"
proof (cases "x = 0")
  case False
  then have x: "0 < x" using assms by simp
  define u :: rat where "u = 2 powi (binade x - 52)"
  define m where "m = round_half_even (x / u)"
  have d: "double_of x = u * of_int m" using x by (simp add: double_of_def round_bits_def Let_def u_def m_def)
  have u: "0 < u" and e: "2 powi (binade x + 1) = of_int (2 ^ 53) * u"
    by (simp_all add: u_def power_int_diff power_int_add)
  have "x / u \<le> of_int (2 ^ 53)"
    using binade_bounds(2) [OF x] u unfolding e by (simp add: pos_divide_le_eq)
  moreover have "of_int 0 \<le> x / u" using x u by simp
  ultimately have "0 \<le> m" "m \<le> 2 ^ 53"
    unfolding m_def using round_half_even_mono round_half_even_int by metis+
  moreover have "double_of (of_int (2 ^ 53)) = of_int (2 ^ 53)"
    using double_of_scale [of 1 53] double_of_int [of 1] by simp
  ultimately have "double_of (of_int m) = of_int m"
    using double_of_int [of m] by (cases "m = 2 ^ 53") simp_all
  then show ?thesis
    using double_of_scale [of "of_int m" "binade x - 52"] \<open>0 \<le> m\<close> by (simp add: d u_def [symmetric])
qed (simp add: double_of_def)

text \<open>A scaled number: \<open>s\<close> as a \<open>double\<close>, divided by a unit, times a power of ten, as an integer.\<close>

definition scaled :: "nat \<Rightarrow> rat \<Rightarrow> int \<Rightarrow> int" where
  "scaled k u s = round_half_even (double_of (double_of (of_int s) / u) * 10 ^ k)"

lemma print_fixed_scaled:
  "0 \<le> s \<Longrightarrow> 0 < u \<Longrightarrow> print_fixed k (double_of (double_of (of_int s) / u)) = print_digits k (nat (scaled k u s))"
  using double_of_nonneg [of "double_of (of_int s) / u"] double_of_nonneg [of "of_int s"]
  by (simp add: print_fixed_def scaled_def)

lemma scaled_mono:
  assumes "s \<le> t" and "0 < u"
  shows "scaled k u s \<le> scaled k u t"
  unfolding scaled_def
  by (intro round_half_even_mono mult_right_mono double_of_mono divide_right_mono)
    (use assms in simp_all)

lemma two_errors:
  fixes a b y :: rat
  assumes "\<bar>b - a\<bar> \<le> a / 2 ^ 53" and "b \<le> 2 * a" and "\<bar>y - b\<bar> \<le> b / 2 ^ 53"
  shows "\<bar>y - a\<bar> \<le> a / 2 ^ 51"
proof -
  have p: "(2::rat) ^ 53 = 9007199254740992" "(2::rat) ^ 51 = 2251799813685248" by simp_all
  show ?thesis using assms unfolding p by linarith
qed

lemma scaled_error:
  assumes "0 < s" and u: "0 < u"
  shows "\<bar>of_int (scaled k u s) - of_int s / u * 10 ^ k\<bar> \<le> 1 / 2 + of_int s / u * 10 ^ k / 2 ^ 51"
proof -
  define x where "x = (of_int s :: rat)"
  define n where "n = double_of x"
  define y where "y = double_of (n / u)"
  have x: "0 < x" using assms by (simp add: x_def)
  have n: "\<bar>n - x\<bar> \<le> x / 2 ^ 53" unfolding n_def by (rule double_of_error [OF x])
  then have "n - x \<le> x / 2 ^ 53" "x - n \<le> x / 2 ^ 53" by (simp_all only: abs_le_iff minus_diff_eq)
  moreover have "x / 2 ^ 53 \<le> x / 2" using x by simp
  ultimately have "0 < n" "n \<le> 2 * x" using x by linarith+
  then have y: "\<bar>y - n / u\<bar> \<le> n / u / 2 ^ 53" unfolding y_def using u by (intro double_of_error) simp
  have "\<bar>n / u - x / u\<bar> \<le> x / u / 2 ^ 53"
  proof -
    have "\<bar>n / u - x / u\<bar> = \<bar>n - x\<bar> / u" using u by (simp add: diff_divide_distrib [symmetric])
    also have "\<dots> \<le> x / 2 ^ 53 / u" using n u by (intro divide_right_mono) simp_all
    finally show ?thesis by simp
  qed
  moreover have "n / u \<le> 2 * (x / u)" using divide_right_mono [OF \<open>n \<le> 2 * x\<close>, of u] u by simp
  ultimately have "\<bar>y - x / u\<bar> \<le> x / u / 2 ^ 51"
    using y two_errors by blast
  then have "\<bar>y - x / u\<bar> * 10 ^ k \<le> x / u / 2 ^ 51 * 10 ^ k" by (intro mult_right_mono) simp_all
  then have "\<bar>y * 10 ^ k - x / u * 10 ^ k\<bar> \<le> x / u * 10 ^ k / 2 ^ 51"
    using abs_mult [of "y - x / u" "10 ^ k"] by (simp add: left_diff_distrib)
  moreover have "\<bar>of_int (scaled k u s) - y * 10 ^ k\<bar> \<le> 1 / 2"
    unfolding scaled_def y_def n_def x_def by (rule round_half_even_error)
  ultimately show ?thesis unfolding x_def by linarith
qed

lemma round_half_even_below:
  assumes "x < of_int q + 1 / 2"
  shows "round_half_even x \<le> q"
proof -
  have "of_int (round_half_even x) < (of_int (q + 1) :: rat)"
    using assms round_half_even_error [of x] unfolding abs_le_iff by simp
  then show ?thesis by simp
qed

text \<open>Below the threshold that the code computes, the value printed stays below it.\<close>

lemma scaled_below:
  assumes "0 \<le> s" and less: "double_of (of_int s) < double_of (2 powi j * double_of c)"
    and "0 \<le> c" and c: "c * 10 ^ k \<le> of_int q + 1 / 2"
  shows "scaled k (2 powi j) s \<le> q"
proof -
  define w where "w = double_of (of_int s) / 2 powi j"
  have p: "(0::rat) < 2 powi j" by simp
  have w: "w = 2 powi (- j) * double_of (of_int s)" by (simp add: w_def power_int_minus field_simps)
  have s: "(0::rat) \<le> of_int s" using assms(1) by simp
  have exact: "double_of w = w"
    unfolding w using double_of_scale [OF double_of_nonneg [OF s]] double_of_idem [OF s] by simp
  have "double_of (2 powi j * double_of c) = 2 powi j * double_of c"
    using double_of_scale [OF double_of_nonneg] double_of_idem assms(3) by simp
  then have "w < double_of c" using less p by (simp add: w_def pos_divide_less_eq mult.commute)
  then have "w < c" using double_of_mono [of c w] exact by (simp add: not_le [symmetric]) (metis not_le)
  then have "w * 10 ^ k < c * 10 ^ k" by simp
  then show ?thesis
    unfolding scaled_def w_def [symmetric] exact using c by (intro round_half_even_below) linarith
qed

end
