(* ===== verification/Log_Format.thy ===== *)
theory Log_Format
  imports Double
begin

text \<open>
  \<open>src/muduo/base/LogStream.cpp\<close>: the conversions of numbers to text that the log uses instead of
  \<open>printf\<close>, and \<open>formatSI\<close>, \<open>formatIEC\<close>. \<open>convert\<close> is the template at any integer type: the values of every
  type are integers, and neither the division nor the remainder by 10 leaves the type.
\<close>

section \<open>Integers\<close>

definition digits :: string where
  "digits = ''9876543210123456789''"

definition zero_index :: nat where
  "zero_index = 9"

definition digitsHex :: string where
  "digitsHex = ''0123456789ABCDEF''"

function convert_loop :: "int \<Rightarrow> char list \<Rightarrow> char list" where
  "convert_loop i p =
     (let lsd = i smod 10;
          i' = i sdiv 10;
          p' = p @ [digits ! nat (int zero_index + lsd)]
      in if i' \<noteq> 0 then convert_loop i' p' else p')"
  by pat_completeness auto
termination
proof (relation "measure (\<lambda>(i, p). nat \<bar>i\<bar>)")
  fix i lsd i' :: int and p p' :: "char list"
  assume i': "i' = i sdiv 10" "i' \<noteq> 0"
  then have "i \<noteq> 0" by auto
  have "\<bar>i sdiv 10\<bar> = \<bar>i\<bar> div 10"
    by (auto simp: signed_divide_int_def abs_mult abs_sgn_eq)
  then have "\<bar>i'\<bar> < \<bar>i\<bar>" using \<open>i \<noteq> 0\<close> i' by simp
  then show "((i', p'), i, p) \<in> measure (\<lambda>(i, p). nat \<bar>i\<bar>)" by simp
qed simp

declare convert_loop.simps [simp del]

text \<open>The characters, which the code terminates with a null character; it returns their number.\<close>

definition convert :: "int \<Rightarrow> char list" where
  "convert value =
     (let p = convert_loop value [];
          p1 = (if value < 0 then p @ [CHR ''-''] else p)
      in rev p1)"

fun convertHex_loop :: "nat \<Rightarrow> char list \<Rightarrow> char list" where
  "convertHex_loop i p =
     (let lsd = i mod 16;
          i' = i div 16;
          p' = p @ [digitsHex ! lsd]
      in if i' \<noteq> 0 then convertHex_loop i' p' else p')"

declare convertHex_loop.simps [simp del]

definition convertHex :: "nat \<Rightarrow> char list" where
  "convertHex value = rev (convertHex_loop value [])"

text \<open>What \<open>printf\<close> writes, and reading hexadecimal digits.\<close>

lemma digits_nth: "d < 10 \<Longrightarrow> digits ! (9 + d) = digit_char d" and digits_nth': "d < 10 \<Longrightarrow> digits ! (9 - d) = digit_char d"
proof -
  have "\<forall>d \<in> set [0..<10]. digits ! (9 + d) = digit_char d \<and> digits ! (9 - d) = digit_char d" by code_simp
  then show "d < 10 \<Longrightarrow> digits ! (9 + d) = digit_char d" "d < 10 \<Longrightarrow> digits ! (9 - d) = digit_char d"
    by auto
qed

lemma convert_loop_nat: "convert_loop (int n) p = p @ rev (dec_digits n)"
proof (induction n arbitrary: p rule: dec_digits.induct)
  case (1 n)
  have "int n smod 10 = int (n mod 10)" "int n sdiv 10 = int (n div 10)"
    by (simp_all add: sdiv_nonneg smod_nonneg zmod_int zdiv_int)
  moreover have "nat (int zero_index + int (n mod 10)) = 9 + n mod 10" by (simp add: zero_index_def nat_add_distrib)
  ultimately show ?case
    using 1 by (subst convert_loop.simps, subst dec_digits.simps) (auto simp: digits_nth Let_def)
qed

lemma convert_loop_neg: "convert_loop (- int n) p = p @ rev (dec_digits n)"
proof (induction n arbitrary: p rule: dec_digits.induct)
  case (1 n)
  have "(- int n) sdiv 10 = - int (n div 10)"
    by (cases "n = 0") (simp_all add: signed_divide_int_def zdiv_int)
  moreover have "(- int n) smod 10 = - int (n mod 10)"
    by (cases "n = 0") (simp_all add: signed_modulo_int_def zmod_int)
  moreover have "nat (int zero_index - int (n mod 10)) = 9 - n mod 10" by (simp add: zero_index_def nat_diff_distrib')
  ultimately show ?case
    using 1 by (subst convert_loop.simps, subst dec_digits.simps) (auto simp: digits_nth' Let_def)
qed

lemma convert_decimal: "convert i = decimal i"
  using convert_loop_nat [of "nat i" "[]"] convert_loop_neg [of "nat (- i)" "[]"]
  by (cases "i < 0") (simp_all add: convert_def decimal_def Let_def)

fun hex_digits :: "nat \<Rightarrow> char list" where
  "hex_digits n = (if n < 16 then [digitsHex ! n] else hex_digits (n div 16) @ [digitsHex ! (n mod 16)])"

declare hex_digits.simps [simp del]

definition hex_value :: "char list \<Rightarrow> nat" where
  "hex_value s = foldl (\<lambda>n c. 16 * n + std_find c digitsHex) 0 s"

lemma digitsHex_find: "d < 16 \<Longrightarrow> std_find (digitsHex ! d) digitsHex = d"
proof -
  have "\<forall>d \<in> set [0..<16]. std_find (digitsHex ! d) digitsHex = d" by code_simp
  then show "d < 16 \<Longrightarrow> std_find (digitsHex ! d) digitsHex = d" by auto
qed

lemma convertHex_loop_digits: "convertHex_loop n p = p @ rev (hex_digits n)"
proof (induction n arbitrary: p rule: hex_digits.induct)
  case (1 n)
  show ?case
    using 1 by (subst convertHex_loop.simps, subst hex_digits.simps) (auto simp: Let_def)
qed

lemma convertHex_digits: "convertHex n = hex_digits n"
  by (simp add: convertHex_def convertHex_loop_digits)

lemma hex_digits_shape:
  "set (hex_digits n) \<subseteq> set digitsHex \<and> hex_digits n \<noteq> [] \<and> (n \<noteq> 0 \<longrightarrow> hd (hex_digits n) \<noteq> CHR ''0'')"
proof (induction n rule: hex_digits.induct)
  case (1 n)
  have digit: "digitsHex ! d \<in> set digitsHex" if "d < 16" for d
    using that by (intro nth_mem) (simp add: digitsHex_def)
  have nonzero: "\<forall>d \<in> set [1..<16]. digitsHex ! d \<noteq> CHR ''0''" by code_simp
  show ?case
  proof (cases "n < 16")
    case True
    then show ?thesis using digit [of n] nonzero by (subst (1 2 3) hex_digits.simps) auto
  next
    case False
    then show ?thesis using 1 digit [of "n mod 16"] by (subst (1 2 3) hex_digits.simps) auto
  qed
qed

lemma hex_value_digits: "hex_value (hex_digits n) = n"
proof (induction n rule: hex_digits.induct)
  case (1 n)
  then show ?case by (subst hex_digits.simps) (auto simp: hex_value_def digitsHex_find)
qed

lemma length_hex_digits: "n < 16 ^ k \<Longrightarrow> 0 < k \<Longrightarrow> length (hex_digits n) \<le> k"
proof (induction n arbitrary: k rule: hex_digits.induct)
  case (1 n)
  show ?case
  proof (cases "n < 16")
    case True
    then show ?thesis using "1.prems" by (subst hex_digits.simps) simp
  next
    case False
    then obtain j where k: "k = Suc j" "0 < j"
      using "1.prems" by (cases k; cases "k - 1") auto
    then have "n div 16 < 16 ^ j" using "1.prems" by (simp add: less_mult_imp_div_less mult.commute)
    then show ?thesis using "1.IH" [OF False, of j] False k by (subst hex_digits.simps) simp
  qed
qed

section \<open>Sizes\<close>

text \<open>The literals \<open>1e3\<close> to \<open>1e18\<close> are exact.\<close>

definition formatSI :: "int \<Rightarrow> string" where
  "formatSI s =
     (let n = double_of (of_int s) in snprintf 64
       (if s < 1000 then decimal s
        else if s < 9995 then print_fixed 2 (double_of (n / 10 ^ 3)) @ ''K''
        else if s < 99950 then print_fixed 1 (double_of (n / 10 ^ 3)) @ ''K''
        else if s < 999500 then print_fixed 0 (double_of (n / 10 ^ 3)) @ ''K''
        else if s < 9995000 then print_fixed 2 (double_of (n / 10 ^ 6)) @ ''M''
        else if s < 99950000 then print_fixed 1 (double_of (n / 10 ^ 6)) @ ''M''
        else if s < 999500000 then print_fixed 0 (double_of (n / 10 ^ 6)) @ ''M''
        else if s < 9995000000 then print_fixed 2 (double_of (n / 10 ^ 9)) @ ''G''
        else if s < 99950000000 then print_fixed 1 (double_of (n / 10 ^ 9)) @ ''G''
        else if s < 999500000000 then print_fixed 0 (double_of (n / 10 ^ 9)) @ ''G''
        else if s < 9995000000000 then print_fixed 2 (double_of (n / 10 ^ 12)) @ ''T''
        else if s < 99950000000000 then print_fixed 1 (double_of (n / 10 ^ 12)) @ ''T''
        else if s < 999500000000000 then print_fixed 0 (double_of (n / 10 ^ 12)) @ ''T''
        else if s < 9995000000000000 then print_fixed 2 (double_of (n / 10 ^ 15)) @ ''P''
        else if s < 99950000000000000 then print_fixed 1 (double_of (n / 10 ^ 15)) @ ''P''
        else if s < 999500000000000000 then print_fixed 0 (double_of (n / 10 ^ 15)) @ ''P''
        else print_fixed 2 (double_of (n / 10 ^ 18)) @ ''E''))"

definition formatIEC :: "int \<Rightarrow> string" where
  "formatIEC s =
     (let n = double_of (of_int s);
          Ki = 1024; Mi = double_of (Ki * 1024); Gi = double_of (Mi * 1024);
          Ti = double_of (Gi * 1024); Pi = double_of (Ti * 1024); Ei = double_of (Pi * 1024);
          below = (\<lambda>unit literal. n < double_of (unit * double_of literal))
      in snprintf 64
       (if n < Ki then decimal s
        else if below Ki (9995 / 1000) then print_fixed 2 (double_of (n / Ki)) @ ''Ki''
        else if below Ki (9995 / 100) then print_fixed 1 (double_of (n / Ki)) @ ''Ki''
        else if below Ki (10235 / 10) then print_fixed 0 (double_of (n / Ki)) @ ''Ki''
        else if below Mi (9995 / 1000) then print_fixed 2 (double_of (n / Mi)) @ ''Mi''
        else if below Mi (9995 / 100) then print_fixed 1 (double_of (n / Mi)) @ ''Mi''
        else if below Mi (10235 / 10) then print_fixed 0 (double_of (n / Mi)) @ ''Mi''
        else if below Gi (9995 / 1000) then print_fixed 2 (double_of (n / Gi)) @ ''Gi''
        else if below Gi (9995 / 100) then print_fixed 1 (double_of (n / Gi)) @ ''Gi''
        else if below Gi (10235 / 10) then print_fixed 0 (double_of (n / Gi)) @ ''Gi''
        else if below Ti (9995 / 1000) then print_fixed 2 (double_of (n / Ti)) @ ''Ti''
        else if below Ti (9995 / 100) then print_fixed 1 (double_of (n / Ti)) @ ''Ti''
        else if below Ti (10235 / 10) then print_fixed 0 (double_of (n / Ti)) @ ''Ti''
        else if below Pi (9995 / 1000) then print_fixed 2 (double_of (n / Pi)) @ ''Pi''
        else if below Pi (9995 / 100) then print_fixed 1 (double_of (n / Pi)) @ ''Pi''
        else if below Pi (10235 / 10) then print_fixed 0 (double_of (n / Pi)) @ ''Pi''
        else if below Ei (9995 / 1000) then print_fixed 2 (double_of (n / Ei)) @ ''Ei''
        else print_fixed 1 (double_of (n / Ei)) @ ''Ei''))"

end
