(* ===== verification/Log_SI.thy ===== *)
theory Log_SI
  imports Log_Format
begin

text \<open>
  What \<open>formatSI\<close> and \<open>formatIEC\<close> (\<open>Log_Format\<close>) print: three digits, one character for the unit, and
  where the rounding of a \<open>double\<close> lets a fourth digit through.
\<close>

section \<open>Single values\<close>

definition rounds_to :: "rat \<Rightarrow> int \<Rightarrow> bool" where
  "rounds_to x q \<longleftrightarrow> \<bar>x - of_int q\<bar> \<le> 1 / 2 \<and> (\<bar>x - of_int q\<bar> = 1 / 2 \<longrightarrow> even q)"

lemma scaled_at:
  fixes s :: int and u :: rat
  assumes "2 powi e \<le> (of_int s :: rat)" and "(of_int s :: rat) < 2 powi (e + 1)"
    and "rounds_to (of_int s / 2 powi (e - 52)) m"
    and "2 powi f \<le> of_int m * 2 powi (e - 52) / u" and "of_int m * 2 powi (e - 52) / u < 2 powi (f + 1)"
    and "rounds_to (of_int m * 2 powi (e - 52) / u / 2 powi (f - 52)) r"
    and "rounds_to (of_int r * 2 powi (f - 52) * 10 ^ k) q"
  shows "scaled k u s = q"
proof -
  have r: "round_half_even x = n" if "rounds_to x n" for x n
    using that by (intro round_half_even_eqI) (simp_all add: rounds_to_def)
  show ?thesis
    unfolding scaled_def double_of_eqI [OF assms(1,2)] r [OF assms(3)] double_of_eqI [OF assms(4,5)] r [OF assms(6)]
      r [OF assms(7)] ..
qed

lemma scaled_9994999999999999: "scaled 2 (10 ^ 15) 9994999999999999 = 999"
  by (rule scaled_at [where e = 53 and m = 4997500000000000 and f = 3 and r = 5626684784446013])
    (simp_all add: rounds_to_def)

lemma scaled_99949999999999991: "scaled 1 (10 ^ 15) 99949999999999991 = 999"
  by (rule scaled_at [where e = 56 and m = 6246874999999999 and f = 6 and r = 7033355980557516])
    (simp_all add: rounds_to_def)

lemma scaled_99949999999999992: "scaled 1 (10 ^ 15) 99949999999999992 = 1000"
  by (rule scaled_at [where e = 56 and m = 6246875000000000 and f = 6 and r = 7033355980557517])
    (simp_all add: rounds_to_def)

lemma scaled_999499999999999935: "scaled 0 (10 ^ 15) 999499999999999935 = 999"
  by (rule scaled_at [where e = 59 and m = 7808593749999999 and f = 9 and r = 8791694975696895])
    (simp_all add: rounds_to_def)

lemma scaled_999499999999999936: "scaled 0 (10 ^ 15) 999499999999999936 = 1000"
  by (rule scaled_at [where e = 59 and m = 7808593750000000 and f = 9 and r = 8791694975696896])
    (simp_all add: rounds_to_def)


section \<open>The branches\<close>

text \<open>From 99.95 to 1000 tenths, hundredths or units: three digits, or the fourth.\<close>

lemma si_branch:
  fixes s lo hi :: int and u :: rat
  assumes s: "lo \<le> s" "s \<le> hi" and u: "0 < u"
    and low: "9995 * u \<le> 100 * 10 ^ k * of_int lo" and high: "10 ^ k * of_int hi \<le> 9996 / 10 * u"
  shows "100 \<le> scaled k u s" and "scaled k u s \<le> 1000"
    and "\<bar>of_int (scaled k u s) / 10 ^ k * u - of_int s\<bar> \<le> 501 / 1000 * (u / 10 ^ k)"
    and "10 ^ 12 * 10 ^ k * of_int hi \<le> 999499999999999 * u \<Longrightarrow> scaled k u s \<le> 999"
proof -
  define x where "x = of_int s / u * 10 ^ k"
  have lo: "9995 / 100 \<le> of_int lo / u * 10 ^ k" using low u by (simp add: field_simps)
  have hi: "of_int hi / u * 10 ^ k \<le> 9996 / 10" using high u by (simp add: field_simps)
  have le: "of_int lo / u * 10 ^ k \<le> x" "x \<le> of_int hi / u * 10 ^ k"
    unfolding x_def using s u by (simp_all add: divide_right_mono)
  then have x: "9995 / 100 \<le> x" "x \<le> 9996 / 10" using lo hi by linarith+
  then have "0 < of_int s / u * 10 ^ k" unfolding x_def by linarith
  then have "0 < s" using u by (simp add: zero_less_mult_iff zero_less_divide_iff)
  from scaled_error [OF this u, of k] have "\<bar>of_int (scaled k u s) - x\<bar> \<le> 1 / 2 + x / 2251799813685248"
    by (simp add: x_def)
  then have e: "of_int (scaled k u s) \<le> x + (1 / 2 + x / 2251799813685248)"
    "x - (1 / 2 + x / 2251799813685248) \<le> of_int (scaled k u s)"
    unfolding abs_le_iff by linarith+
  have "of_int 99 < (of_int (scaled k u s) :: rat)" using e(2) x by simp
  then show "100 \<le> scaled k u s" by simp
  have "(of_int (scaled k u s) :: rat) < of_int 1001" using e(1) x by simp
  then show "scaled k u s \<le> 1000" by simp
  have "\<bar>of_int (scaled k u s) - x\<bar> \<le> 501 / 1000" using e x unfolding abs_le_iff by simp
  then have "\<bar>of_int (scaled k u s) - x\<bar> * (u / 10 ^ k) \<le> 501 / 1000 * (u / 10 ^ k)"
    using u by (intro mult_right_mono) simp_all
  moreover have "\<bar>of_int (scaled k u s) - x\<bar> * (u / 10 ^ k) = \<bar>(of_int (scaled k u s) - x) * (u / 10 ^ k)\<bar>"
    using u by (simp add: abs_mult)
  moreover have "(of_int (scaled k u s) - x) * (u / 10 ^ k) = of_int (scaled k u s) / 10 ^ k * u - of_int s"
    using u by (simp add: x_def field_simps)
  ultimately show "\<bar>of_int (scaled k u s) / 10 ^ k * u - of_int s\<bar> \<le> 501 / 1000 * (u / 10 ^ k)"
    by (simp only:)
  assume "10 ^ 12 * 10 ^ k * of_int hi \<le> 999499999999999 * u"
  then have "of_int hi / u * 10 ^ k \<le> 999499999999999 / 10 ^ 12" using u by (simp add: field_simps)
  then have "(of_int (scaled k u s) :: rat) < of_int 1000" using e(1) le(2) by simp
  then show "scaled k u s \<le> 999" by simp
qed

definition si_printed :: "int \<Rightarrow> nat \<Rightarrow> nat \<Rightarrow> char \<Rightarrow> nat \<Rightarrow> bool" where
  "si_printed s k j c q \<longleftrightarrow> k \<le> 2 \<and> (j, c) \<in> {(3, CHR ''K''), (6, CHR ''M''), (9, CHR ''G''), (12, CHR ''T''), (15, CHR ''P''), (18, CHR ''E'')} \<and>
     formatSI s = print_digits k q @ [c] \<and> 100 \<le> q \<and> q \<le> 1000 \<and>
     \<bar>of_nat q / 10 ^ k * 10 ^ j - (of_int s :: rat)\<bar> \<le> 501 / 1000 * (10 ^ j / 10 ^ k)"

lemma si_printedI:
  fixes s lo hi :: int
  assumes s: "lo \<le> s" "s \<le> hi" "0 \<le> lo"
    and low: "9995 * 10 ^ j \<le> 100 * 10 ^ k * lo" and high: "10 * 10 ^ k * hi \<le> 9996 * 10 ^ j"
    and k: "k \<le> 2" "(j, c) \<in> {(3, CHR ''K''), (6, CHR ''M''), (9, CHR ''G''), (12, CHR ''T''), (15, CHR ''P''), (18, CHR ''E'')}"
    and branch: "formatSI s = snprintf 64 (print_fixed k (double_of (double_of (of_int s) / 10 ^ j)) @ [c])"
  shows "si_printed s k j c (nat (scaled k (10 ^ j) s))"
    and "10 ^ 12 * 10 ^ k * hi \<le> 999499999999999 * 10 ^ j \<Longrightarrow> scaled k (10 ^ j) s \<le> 999"
proof -
  have "(of_int (9995 * 10 ^ j) :: rat) \<le> of_int (100 * 10 ^ k * lo)" "(of_int (10 * 10 ^ k * hi) :: rat) \<le> of_int (9996 * 10 ^ j)"
    using low high by (simp_all only: of_int_le_iff)
  then have B: "9995 * 10 ^ j \<le> 100 * 10 ^ k * (of_int lo :: rat)" "10 ^ k * (of_int hi :: rat) \<le> 9996 / 10 * 10 ^ j"
    by (simp_all add: ac_simps)
  note b = si_branch [OF s(1,2) _ B, simplified]
  have q: "100 \<le> nat (scaled k (10 ^ j) s)" "nat (scaled k (10 ^ j) s) \<le> 1000"
    "int (nat (scaled k (10 ^ j) s)) = scaled k (10 ^ j) s"
    using b(1,2) by linarith+
  have "nat (scaled k (10 ^ j) s) \<le> 1000" by (rule q)
  moreover have "10000 \<le> (10::nat) ^ (k + 4)" using power_increasing [of 4 "k + 4" "10::nat"] by simp
  ultimately have "nat (scaled k (10 ^ j) s) < 10 ^ (k + 4)" by linarith
  then have "length (print_digits k (nat (scaled k (10 ^ j) s))) \<le> k + 4 + (if k = 0 then 0 else 1)"
    by (rule length_print_digits) simp
  then have "length (print_digits k (nat (scaled k (10 ^ j) s)) @ [c]) \<le> 63" using k(1) by (simp split: if_splits)
  then have "formatSI s = print_digits k (nat (scaled k (10 ^ j) s)) @ [c]"
    unfolding branch print_fixed_scaled [OF order_trans [OF s(3,1)], of "10 ^ j", simplified] by (simp add: snprintf_def)
  then show "si_printed s k j c (nat (scaled k (10 ^ j) s))"
    using b(3) k q by (simp add: si_printed_def)
  assume "10 ^ 12 * 10 ^ k * hi \<le> 999499999999999 * 10 ^ j"
  then have "(of_int (10 ^ 12 * 10 ^ k * hi) :: rat) \<le> of_int (999499999999999 * 10 ^ j)" by (simp only: of_int_le_iff)
  then show "scaled k (10 ^ j) s \<le> 999"
    by (intro si_branch(4) [OF s(1,2) _ B]) simp_all
qed

text \<open>Every number from 1000 on is in one of the branches; only two of them print a fourth digit.\<close>

definition si_table :: "(int \<times> int \<times> nat \<times> nat \<times> char) list" where
  "si_table =
    [(1000, 9995, 2, 3, CHR ''K''),
     (9995, 99950, 1, 3, CHR ''K''),
     (99950, 999500, 0, 3, CHR ''K''),
     (999500, 9995000, 2, 6, CHR ''M''),
     (9995000, 99950000, 1, 6, CHR ''M''),
     (99950000, 999500000, 0, 6, CHR ''M''),
     (999500000, 9995000000, 2, 9, CHR ''G''),
     (9995000000, 99950000000, 1, 9, CHR ''G''),
     (99950000000, 999500000000, 0, 9, CHR ''G''),
     (999500000000, 9995000000000, 2, 12, CHR ''T''),
     (9995000000000, 99950000000000, 1, 12, CHR ''T''),
     (99950000000000, 999500000000000, 0, 12, CHR ''T''),
     (999500000000000, 9995000000000000, 2, 15, CHR ''P''),
     (9995000000000000, 99950000000000000, 1, 15, CHR ''P''),
     (99950000000000000, 999500000000000000, 0, 15, CHR ''P''),
     (999500000000000000, 9223372036854775808, 2, 18, CHR ''E'')]"

fun chained :: "int \<Rightarrow> (int \<times> int \<times> 'a) list \<Rightarrow> bool" where
  "chained a [] \<longleftrightarrow> True"
| "chained a ((lo, hi, x) # rows) \<longleftrightarrow> lo = a \<and> chained hi rows"

lemma in_some_row:
  "chained a rows \<Longrightarrow> rows \<noteq> [] \<Longrightarrow> a \<le> s \<Longrightarrow> s < fst (snd (last rows)) \<Longrightarrow> \<exists>(lo, hi, x) \<in> set rows. lo \<le> s \<and> s < hi"
proof (induction rows arbitrary: a)
  case (Cons row rows)
  obtain lo hi x where row: "row = (lo, hi, x)" by (cases row)
  show ?case
  proof (cases "s < hi")
    case False
    then have "rows \<noteq> []" using Cons.prems(4) row by auto
    then have "\<exists>(lo, hi, x) \<in> set rows. lo \<le> s \<and> s < hi"
      using Cons.IH [of hi] Cons.prems False row by simp
    then show ?thesis by auto
  qed (use Cons.prems row in auto)
qed simp

definition fourth_digit :: "int \<Rightarrow> bool" where
  "fourth_digit s \<longleftrightarrow> 99949999999999992 \<le> s \<and> s < 99950000000000000 \<or> 999499999999999936 \<le> s \<and> s < 999500000000000000"

definition si_correct :: "int \<Rightarrow> bool" where
  "si_correct s \<longleftrightarrow> (\<exists>k j c q. si_printed s k j c q \<and> (q = 1000 \<longleftrightarrow> fourth_digit s) \<and>
     (q = 1000 \<longrightarrow> k = (if s < 99950000000000000 then 1 else 0)))"

lemma si_correctI:
  assumes "si_printed s k j c (nat (scaled k (10 ^ j) s))" and "scaled k (10 ^ j) s \<le> 999" and "\<not> fourth_digit s"
  shows "si_correct s"
proof -
  have "nat (scaled k (10 ^ j) s) \<noteq> 1000" using assms(2) by simp
  then show ?thesis using assms(1,3) unfolding si_correct_def by blast
qed

lemma si_plain_branch:
  assumes "(lo, hi, k, j, c) \<in> set si_table" and "j \<noteq> 15" and "lo \<le> s" and "s < hi"
  shows "si_correct s"
proof -
  have "9995 * 10 ^ j \<le> 100 * 10 ^ k * lo \<and> 10 ^ 12 * 10 ^ k * (hi - 1) \<le> 999499999999999 * 10 ^ j \<and>
      10 * 10 ^ k * (hi - 1) \<le> 9996 * 10 ^ j \<and> 0 \<le> lo \<and> k \<le> 2 \<and>
      (j, c) \<in> {(3, CHR ''K''), (6, CHR ''M''), (9, CHR ''G''), (12, CHR ''T''), (15, CHR ''P''), (18, CHR ''E'')}"
    using assms(1,2) by (auto simp: si_table_def)
  moreover have "formatSI s = snprintf 64 (print_fixed k (double_of (double_of (of_int s) / 10 ^ j)) @ [c])"
    using assms by (auto simp: si_table_def formatSI_def)
  moreover have "\<not> fourth_digit s"
    using assms by (auto simp: si_table_def fourth_digit_def)
  ultimately show ?thesis
    using si_correctI [OF si_printedI [of lo s "hi - 1" j k c]] assms(3,4) by simp
qed

lemma si_P_branch:
  assumes "s < 999500000000000000" and "999500000000000 \<le> s"
  shows "si_correct s"
proof -
  let ?q = "\<lambda>k. scaled k (10 ^ 15) s"
  have P: "(15, CHR ''P'') \<in> {(3::nat, CHR ''K''), (6, CHR ''M''), (9, CHR ''G''), (12, CHR ''T''), (15, CHR ''P''), (18, CHR ''E'')}"
    by simp
  consider "s < 9995000000000000" | "9995000000000000 \<le> s" "s < 99950000000000000" | "99950000000000000 \<le> s"
    by linarith
  then show ?thesis
  proof cases
    case 1
    have "si_printed s 2 15 (CHR ''P'') (nat (?q 2))"
      by (rule si_printedI [where lo = 999500000000000 and hi = 9994999999999999]) (use 1 assms P in \<open>simp_all add: formatSI_def\<close>)
    moreover have "?q 2 \<le> 999" using scaled_mono [of s 9994999999999999 "10 ^ 15" 2] 1 unfolding scaled_9994999999999999 by simp
    ultimately show ?thesis by (rule si_correctI) (use 1 in \<open>simp add: fourth_digit_def\<close>)
  next
    case 2
    have printed: "si_printed s 1 15 (CHR ''P'') (nat (?q 1))"
      by (rule si_printedI [where lo = 9995000000000000 and hi = 99949999999999999]) (use 2 P in \<open>simp_all add: formatSI_def\<close>)
    show ?thesis
    proof (cases "99949999999999992 \<le> s")
      case True
      have "1000 \<le> ?q 1" using scaled_mono [of 99949999999999992 s "10 ^ 15" 1] True unfolding scaled_99949999999999992 by simp
      moreover have "nat (?q 1) \<le> 1000" using printed by (simp add: si_printed_def)
      ultimately have "nat (?q 1) = 1000" by linarith
      then show ?thesis using printed True 2 unfolding si_correct_def fourth_digit_def by (intro exI) auto
    next
      case False
      have "?q 1 \<le> 999" using scaled_mono [of s 99949999999999991 "10 ^ 15" 1] False unfolding scaled_99949999999999991 by simp
      with printed show ?thesis by (rule si_correctI) (use False 2 in \<open>simp add: fourth_digit_def\<close>)
    qed
  next
    case 3
    have printed: "si_printed s 0 15 (CHR ''P'') (nat (?q 0))"
      by (rule si_printedI [where lo = 99950000000000000 and hi = 999499999999999999]) (use 3 assms P in \<open>simp_all add: formatSI_def\<close>)
    show ?thesis
    proof (cases "999499999999999936 \<le> s")
      case True
      have "1000 \<le> ?q 0" using scaled_mono [of 999499999999999936 s "10 ^ 15" 0] True unfolding scaled_999499999999999936 by simp
      moreover have "nat (?q 0) \<le> 1000" using printed by (simp add: si_printed_def)
      ultimately have "nat (?q 0) = 1000" by linarith
      then show ?thesis using printed True assms unfolding si_correct_def fourth_digit_def by (intro exI) auto
    next
      case False
      have "?q 0 \<le> 999" using scaled_mono [of s 999499999999999935 "10 ^ 15" 0] False unfolding scaled_999499999999999935 by simp
      with printed show ?thesis by (rule si_correctI) (use False 3 in \<open>simp add: fourth_digit_def\<close>)
    qed
  qed
qed

lemma formatSI_correct:
  assumes "1000 \<le> s" and "s < 2 ^ 63"
  shows "si_correct s"
proof -
  have "\<exists>(lo, hi, x) \<in> set si_table. lo \<le> s \<and> s < hi"
    by (rule in_some_row [of 1000]) (use assms in \<open>simp_all add: si_table_def\<close>)
  then obtain lo hi k j c where row: "(lo, hi, k, j, c) \<in> set si_table" "lo \<le> s" "s < hi" by (auto split: prod.splits)
  show ?thesis
  proof (cases "j = 15")
    case True
    then have "999500000000000 \<le> s" "s < 999500000000000000" using row by (auto simp: si_table_def)
    then show ?thesis using si_P_branch by simp
  qed (use si_plain_branch [OF row(1) _ row(2,3)] in blast)
qed

section \<open>Binary units\<close>

lemma iec_units:
  "double_of (1024 * 1024) = 2 ^ 20" "double_of (2 ^ 20 * 1024) = 2 ^ 30" "double_of (2 ^ 30 * 1024) = 2 ^ 40"
  "double_of (2 ^ 40 * 1024) = 2 ^ 50" "double_of (2 ^ 50 * 1024) = 2 ^ 60"
proof -
  have p: "double_of (2 ^ n) = 2 ^ n" for n :: nat
    using double_of_scale [of 1 "int n"] double_of_int [of 1] by simp
  show "double_of (1024 * 1024) = 2 ^ 20" "double_of (2 ^ 20 * 1024) = 2 ^ 30" "double_of (2 ^ 30 * 1024) = 2 ^ 40"
    "double_of (2 ^ 40 * 1024) = 2 ^ 50" "double_of (2 ^ 50 * 1024) = 2 ^ 60"
    using p [of 20] p [of 30] p [of 40] p [of 50] p [of 60] by simp_all
qed

lemma iec_length:
  assumes "0 \<le> s" and "double_of (of_int s) < double_of (2 ^ n * double_of c)"
    and "0 \<le> c" and "c * 10 ^ k \<le> of_int q + 1 / 2" and "q < 10 ^ m" and "k < m"
  shows "length (snprintf 64 (print_fixed k (double_of (double_of (of_int s) / 2 ^ n)) @ u)) \<le> m + (if k = 0 then 0 else 1) + length u"
proof -
  have "scaled k (2 powi int n) s \<le> q"
    by (rule scaled_below [where c = c]) (use assms in simp_all)
  then have "nat (scaled k (2 ^ n) s) < 10 ^ m" using assms(5) by (simp add: nat_less_iff)
  then have "length (print_digits k (nat (scaled k (2 ^ n) s))) \<le> k + (m - k) + (if k = 0 then 0 else 1)"
    using assms(6) by (intro length_print_digits) simp_all
  then show ?thesis
    using assms(1,6) print_fixed_scaled [of s "2 ^ n" k] by (simp add: snprintf_def)
qed

lemma formatIEC_length:
  assumes "0 \<le> s" and "s < 2 ^ 63"
  shows "length (formatIEC s) \<le> 6"
proof -
  have len: "length (snprintf 64 (print_fixed k (double_of (double_of (of_int s) / 2 ^ n)) @ u)) \<le> 6"
    if "double_of (of_int s) < double_of (2 ^ n * double_of c)"
      and "(k, c) \<in> {(2, 9995 / 1000), (1, 9995 / 100), (0, 10235 / 10)}" "length u = 2" for k n c u
    using iec_length [OF assms(1) that(1), of 2 999 3 u] iec_length [OF assms(1) that(1), of 1 999 3 u]
      iec_length [OF assms(1) that(1), of 0 1023 4 u] that(2,3)
    by auto
  have "length (snprintf 64 (decimal s)) \<le> 6" if "double_of (of_int s) < 1024"
  proof -
    have "\<not> 1024 \<le> s"
    proof
      assume "1024 \<le> s"
      then have "double_of (of_int 1024) \<le> double_of (of_int s)" by (intro double_of_mono) simp
      then show False using that double_of_int [of 1024] by simp
    qed
    then have "nat s < 10 ^ 4" using assms(1) by simp
    then show ?thesis using length_dec_digits [of "nat s" 4] assms(1) by (simp add: decimal_def snprintf_def)
  qed
  moreover have "double_of (of_int s) < double_of (2 ^ 60 * double_of (9995 / 1000))"
  proof -
    have "(of_int s :: rat) \<le> of_int (2 ^ 63)" using assms(2) by (simp only: of_int_le_iff)
    then have "double_of (of_int s) \<le> double_of (of_int (2 ^ 63))" by (rule double_of_mono)
    also have "\<dots> = 2 ^ 63" using double_of_scale [of 1 63] double_of_int [of 1] by simp
    also have "(2::rat) ^ 63 < 2 ^ 60 * 9" by simp
    also have "\<dots> = 2 ^ 60 * double_of 9" using double_of_int [of 9] by simp
    also have "\<dots> \<le> 2 ^ 60 * double_of (9995 / 1000)" by (simp add: double_of_mono)
    also have "\<dots> = double_of (2 ^ 60 * double_of (9995 / 1000))"
      using double_of_scale [of "double_of (9995 / 1000)" 60] double_of_idem [of "9995 / 1000"] double_of_nonneg [of "9995 / 1000"]
      by simp
    finally show ?thesis .
  qed
  ultimately show ?thesis
    unfolding formatIEC_def Let_def iec_units
    using len [of 10] len [of 20] len [of 30] len [of 40] len [of 50] len [of 60]
    by (simp del: double_of_scale)
qed

section \<open>Property\<close>

lemma si_printed_length:
  assumes "si_printed s k j c q"
  shows "length (formatSI s) \<le> 5 \<longleftrightarrow> q < 1000 \<or> k = 0"
proof -
  have q: "k \<le> 2" "100 \<le> q" "q \<le> 1000" and s: "formatSI s = print_digits k q @ [c]" using assms by (simp_all add: si_printed_def)
  show ?thesis
  proof (cases "q = 1000")
    case True
    consider "k = 0" | "k = 1" | "k = 2" using q(1) by linarith
    then show ?thesis
      by cases (simp_all add: s True print_digits_def pad_left_def dec_digits.simps)
  next
    case False
    have "length (print_digits k q) \<le> k + (3 - k) + (if k = 0 then 0 else 1)"
      by (rule length_print_digits) (use False q in simp_all)
    then show ?thesis using q(1) False q(3) by (simp add: s split: if_splits)
  qed
qed

text \<open>
  C36: sizes for people. From 1000 on, \<open>formatSI\<close> prints a number of three significant digits and the
  character of its unit, and the number is within 501 thousandths of its last place of the argument.
  The rounding of the \<open>double\<close> lets a fourth digit through in exactly two ranges, which print as
  100.0P and 1000P; so the promise of at most 5 characters is kept by every other number and broken in the
  first of these ranges. \<open>formatIEC\<close> keeps its promise of at most 6 characters for every number.
\<close>

theorem formatSI_formatIEC:
  fixes s :: int
  assumes "0 \<le> s" and "s < 2 ^ 63"
  shows "(length (formatSI s) \<le> 5 \<longleftrightarrow> \<not> (99949999999999992 \<le> s \<and> s < 99950000000000000)) \<and>
    length (formatIEC s) \<le> 6 \<and>
    (if s < 1000 then formatSI s = decimal s
     else \<exists>k j c q. k \<le> 2 \<and>
       (j, c) \<in> {(3, CHR ''K''), (6, CHR ''M''), (9, CHR ''G''), (12, CHR ''T''), (15, CHR ''P''), (18, CHR ''E'')} \<and>
       formatSI s = print_digits k q @ [c] \<and>
       \<bar>of_nat q / 10 ^ k * 10 ^ j - (of_int s :: rat)\<bar> \<le> 501 / 1000 * (10 ^ j / 10 ^ k) \<and>
       100 \<le> q \<and> q \<le> 1000 \<and>
       (q = 1000 \<longleftrightarrow> 99949999999999992 \<le> s \<and> s < 99950000000000000 \<or> 999499999999999936 \<le> s \<and> s < 999500000000000000))"
proof (cases "s < 1000")
  case True
  have len: "length (decimal s) \<le> 3" using length_dec_digits [of "nat s" 3] True assms by (simp add: decimal_def nat_less_iff)
  then have "formatSI s = decimal s" using True by (simp add: formatSI_def snprintf_def)
  then show ?thesis using len True formatIEC_length [OF assms] by simp
next
  case False
  then obtain k j c q where p: "si_printed s k j c q" "q = 1000 \<longleftrightarrow> fourth_digit s"
      "q = 1000 \<longrightarrow> k = (if s < 99950000000000000 then 1 else 0)"
    using formatSI_correct [of s] assms unfolding si_correct_def by auto
  have "q \<le> 1000" using p(1) by (simp add: si_printed_def)
  then have "length (formatSI s) \<le> 5 \<longleftrightarrow> \<not> (99949999999999992 \<le> s \<and> s < 99950000000000000)"
    unfolding si_printed_length [OF p(1)] using p(2,3) by (auto simp: fourth_digit_def)
  moreover have "\<exists>k j c q. k \<le> 2 \<and>
       (j, c) \<in> {(3, CHR ''K''), (6, CHR ''M''), (9, CHR ''G''), (12, CHR ''T''), (15, CHR ''P''), (18, CHR ''E'')} \<and>
       formatSI s = print_digits k q @ [c] \<and>
       \<bar>of_nat q / 10 ^ k * 10 ^ j - (of_int s :: rat)\<bar> \<le> 501 / 1000 * (10 ^ j / 10 ^ k) \<and>
       100 \<le> q \<and> q \<le> 1000 \<and>
       (q = 1000 \<longleftrightarrow> 99949999999999992 \<le> s \<and> s < 99950000000000000 \<or> 999499999999999936 \<le> s \<and> s < 999500000000000000)"
    using p(1,2) unfolding si_printed_def fourth_digit_def by blast
  ultimately show ?thesis using False formatIEC_length [OF assms] by (simp only: if_False simp_thms)
qed

lemma formatSI_formatIEC_witness:
  "5 < length (formatSI 99949999999999999) \<and> length (formatSI 99950000000000000) \<le> 5 \<and> length (formatIEC 99949999999999999) \<le> 6"
  using formatSI_formatIEC [of 99949999999999999] formatSI_formatIEC [of 99950000000000000] by simp

end
