(* ===== verification/Log_Stream.thy ===== *)
theory Log_Stream
  imports Log_Format String_Piece
begin

text \<open>
  \<open>src/muduo/base/LogStream.h\<close>, \<open>LogStream.cpp\<close>: the stream that a log line is built in, a fixed array
  of characters. The array starts with whatever was in memory; \<open>SIZE\<close> is its length. \<open>cur_\<close> is the
  offset of the next character; moving or writing past the array is undefined. \<open>print_g\<close> is what
  \<open>printf\<close> writes for \<open>%.12g\<close>.
\<close>

section \<open>The buffer\<close>

definition kSmallBuffer :: nat where
  "kSmallBuffer = 4000"

definition kLargeBuffer :: nat where
  "kLargeBuffer = 4000 * 1000"

record fixed_buffer =
  fb_data :: "char list"
  fb_cur :: nat

definition FixedBuffer_new :: "char list \<Rightarrow> fixed_buffer" where
  "FixedBuffer_new data = \<lparr>fb_data = data, fb_cur = 0\<rparr>"

definition FixedBuffer_avail :: "fixed_buffer \<Rightarrow> int" where
  "FixedBuffer_avail b = int (length (fb_data b)) - int (fb_cur b)"

text \<open>Writing characters from offset \<open>pos\<close> on.\<close>

definition FixedBuffer_write :: "nat \<Rightarrow> char list \<Rightarrow> fixed_buffer \<Rightarrow> fixed_buffer result" where
  "FixedBuffer_write pos cs b =
     (if pos + length cs \<le> length (fb_data b) then Inr (b\<lparr>fb_data := std_copy (fb_data b) pos cs\<rparr>)
      else Inl Undefined_behaviour)"

definition FixedBuffer_add :: "nat \<Rightarrow> fixed_buffer \<Rightarrow> fixed_buffer result" where
  "FixedBuffer_add len b =
     (if fb_cur b + len \<le> length (fb_data b) then Inr (b\<lparr>fb_cur := fb_cur b + len\<rparr>) else Inl Undefined_behaviour)"

definition FixedBuffer_append :: "char list \<Rightarrow> int \<Rightarrow> nat \<Rightarrow> fixed_buffer \<Rightarrow> fixed_buffer result" where
  "FixedBuffer_append buf off len b =
     (if len < size_of_int (FixedBuffer_avail b) then
        andThen (mem_range buf off len) (\<lambda>cs.
        andThen (FixedBuffer_write (fb_cur b) cs b) (FixedBuffer_add len))
      else Inr b)"

definition FixedBuffer_length :: "fixed_buffer \<Rightarrow> int" where
  "FixedBuffer_length b = int32_of (int (fb_cur b))"

definition FixedBuffer_reset :: "fixed_buffer \<Rightarrow> fixed_buffer" where
  "FixedBuffer_reset b = b\<lparr>fb_cur := 0\<rparr>"

definition FixedBuffer_bzero :: "fixed_buffer \<Rightarrow> fixed_buffer" where
  "FixedBuffer_bzero b = b\<lparr>fb_data := replicate (length (fb_data b)) (CHR 0x00)\<rparr>"

definition FixedBuffer_debugString :: "fixed_buffer \<Rightarrow> fixed_buffer result" where
  "FixedBuffer_debugString b = FixedBuffer_write (fb_cur b) [CHR 0x00] b"

definition FixedBuffer_toString :: "fixed_buffer \<Rightarrow> char list result" where
  "FixedBuffer_toString b = mem_range (fb_data b) 0 (size_of_int (FixedBuffer_length b))"

definition FixedBuffer_toStringPiece :: "fixed_buffer \<Rightarrow> string_piece" where
  "FixedBuffer_toStringPiece b = StringPiece_of_range (fb_data b) 0 (FixedBuffer_length b)"

section \<open>The stream\<close>

definition kMaxNumericSize :: int where
  "kMaxNumericSize = 32"

definition LogStream_formatInteger :: "int \<Rightarrow> fixed_buffer \<Rightarrow> fixed_buffer result" where
  "LogStream_formatInteger v b =
     (if kMaxNumericSize \<le> FixedBuffer_avail b then
        let s = convert v
        in andThen (FixedBuffer_write (fb_cur b) (s @ [CHR 0x00]) b) (FixedBuffer_add (length s))
      else Inr b)"

definition LogStream_put_bool :: "bool \<Rightarrow> fixed_buffer \<Rightarrow> fixed_buffer result" where
  "LogStream_put_bool v b = FixedBuffer_append ((if v then ''1'' else ''0'') @ [CHR 0x00]) 0 1 b"

definition LogStream_put_pointer :: "nat \<Rightarrow> fixed_buffer \<Rightarrow> fixed_buffer result" where
  "LogStream_put_pointer v b =
     (if kMaxNumericSize \<le> FixedBuffer_avail b then
        let s = convertHex v
        in andThen (FixedBuffer_write (fb_cur b) ''0x'' b) (\<lambda>b1.
           andThen (FixedBuffer_write (fb_cur b + 2) (s @ [CHR 0x00]) b1) (FixedBuffer_add (length s + 2)))
      else Inr b)"

text \<open>\<open>snprintf\<close> writes at most 31 characters and a null, and returns how many there would be.\<close>

definition LogStream_put_double :: "(double \<Rightarrow> char list) \<Rightarrow> double \<Rightarrow> fixed_buffer \<Rightarrow> fixed_buffer result" where
  "LogStream_put_double print_g v b =
     (if kMaxNumericSize \<le> FixedBuffer_avail b then
        let s = print_g v
        in andThen (FixedBuffer_write (fb_cur b) (snprintf 32 s @ [CHR 0x00]) b) (FixedBuffer_add (length s))
      else Inr b)"

definition LogStream_put_char :: "char \<Rightarrow> fixed_buffer \<Rightarrow> fixed_buffer result" where
  "LogStream_put_char v b = FixedBuffer_append [v] 0 1 b"

text \<open>A \<open>const char*\<close>: null, or an object with a string at its beginning.\<close>

definition LogStream_put_cstr :: "char list option \<Rightarrow> fixed_buffer \<Rightarrow> fixed_buffer result" where
  "LogStream_put_cstr str b =
     (case str of
        Some d \<Rightarrow> andThen (c_strlen d) (\<lambda>n. FixedBuffer_append d 0 n b)
      | None \<Rightarrow> FixedBuffer_append (''(null)'' @ [CHR 0x00]) 0 6 b)"

definition LogStream_put_string :: "string \<Rightarrow> fixed_buffer \<Rightarrow> fixed_buffer result" where
  "LogStream_put_string v b = FixedBuffer_append (v @ [CHR 0x00]) 0 (length v) b"

definition LogStream_put_piece :: "string_piece \<Rightarrow> fixed_buffer \<Rightarrow> fixed_buffer result" where
  "LogStream_put_piece v b = FixedBuffer_append (sp_object v) (sp_offset v) (size_of_int (sp_length v)) b"

definition LogStream_put_buffer :: "fixed_buffer \<Rightarrow> fixed_buffer \<Rightarrow> fixed_buffer result" where
  "LogStream_put_buffer v b = LogStream_put_piece (FixedBuffer_toStringPiece v) b"

definition LogStream_append :: "char list \<Rightarrow> int \<Rightarrow> int \<Rightarrow> fixed_buffer \<Rightarrow> fixed_buffer result" where
  "LogStream_append d off len b = FixedBuffer_append d off (size_of_int len) b"

text \<open>\<open>Fmt\<close>: \<open>text\<close> is what \<open>printf\<close> writes for its arguments.\<close>

definition Fmt_new :: "char list \<Rightarrow> (char list \<times> int) result" where
  "Fmt_new text = cassert (length text < 32) (Inr (snprintf 32 text @ [CHR 0x00], int (length text)))"

definition LogStream_put_Fmt :: "char list \<times> int \<Rightarrow> fixed_buffer \<Rightarrow> fixed_buffer result" where
  "LogStream_put_Fmt fmt b = LogStream_append (fst fmt) 0 (snd fmt) b"

datatype log_arg =
    Log_bool bool | Log_integer int | Log_pointer nat | Log_double double | Log_char char
  | Log_cstr "char list option" | Log_string string | Log_piece string_piece | Log_buffer fixed_buffer
  | Log_fmt "char list"

fun LogStream_put :: "(double \<Rightarrow> char list) \<Rightarrow> fixed_buffer \<Rightarrow> log_arg \<Rightarrow> fixed_buffer result" where
  "LogStream_put print_g b (Log_bool v) = LogStream_put_bool v b"
| "LogStream_put print_g b (Log_integer v) = LogStream_formatInteger v b"
| "LogStream_put print_g b (Log_pointer v) = LogStream_put_pointer v b"
| "LogStream_put print_g b (Log_double v) = LogStream_put_double print_g v b"
| "LogStream_put print_g b (Log_char v) = LogStream_put_char v b"
| "LogStream_put print_g b (Log_cstr v) = LogStream_put_cstr v b"
| "LogStream_put print_g b (Log_string v) = LogStream_put_string v b"
| "LogStream_put print_g b (Log_piece v) = LogStream_put_piece v b"
| "LogStream_put print_g b (Log_buffer v) = LogStream_put_buffer v b"
| "LogStream_put print_g b (Log_fmt text) = andThen (Fmt_new text) (\<lambda>fmt. LogStream_put_Fmt fmt b)"

section \<open>What is in the stream\<close>

definition FixedBuffer_wf :: "fixed_buffer \<Rightarrow> bool" where
  "FixedBuffer_wf b \<longleftrightarrow> fb_cur b < length (fb_data b) \<and> length (fb_data b) \<le> kLargeBuffer"

definition FixedBuffer_content :: "fixed_buffer \<Rightarrow> char list" where
  "FixedBuffer_content b = take (fb_cur b) (fb_data b)"

definition log_numeric :: "log_arg \<Rightarrow> bool" where
  "log_numeric arg \<longleftrightarrow> (case arg of Log_integer v \<Rightarrow> True | Log_pointer v \<Rightarrow> True | Log_double v \<Rightarrow> True | _ \<Rightarrow> False)"

fun log_text :: "(double \<Rightarrow> char list) \<Rightarrow> log_arg \<Rightarrow> char list" where
  "log_text print_g (Log_bool v) = (if v then ''1'' else ''0'')"
| "log_text print_g (Log_integer v) = decimal v"
| "log_text print_g (Log_pointer v) = ''0x'' @ hex_digits v"
| "log_text print_g (Log_double v) = print_g v"
| "log_text print_g (Log_char v) = [v]"
| "log_text print_g (Log_cstr v) = (case v of Some d \<Rightarrow> takeWhile (\<lambda>c. c \<noteq> CHR 0x00) d | None \<Rightarrow> ''(null)'')"
| "log_text print_g (Log_string v) = v"
| "log_text print_g (Log_piece v) = piece_string v"
| "log_text print_g (Log_buffer v) = FixedBuffer_content v"
| "log_text print_g (Log_fmt text) = text"

text \<open>The stream as text: an argument is added whole where there is room for it, or not at all.\<close>

definition log_append :: "nat \<Rightarrow> (double \<Rightarrow> char list) \<Rightarrow> log_arg \<Rightarrow> char list \<Rightarrow> char list" where
  "log_append n print_g arg s =
     (if (if log_numeric arg then length s + 32 \<le> n else length s + length (log_text print_g arg) < n)
      then s @ log_text print_g arg else s)"

text \<open>What the arguments are: values of their types, strings that end, doubles that print as documented.\<close>

fun log_arg_ok :: "(double \<Rightarrow> char list) \<Rightarrow> log_arg \<Rightarrow> bool" where
  "log_arg_ok print_g (Log_integer v) \<longleftrightarrow> \<bar>v\<bar> < 2 ^ 64"
| "log_arg_ok print_g (Log_pointer v) \<longleftrightarrow> v < 2 ^ 64"
| "log_arg_ok print_g (Log_double v) \<longleftrightarrow> length (print_g v) \<le> 31"
| "log_arg_ok print_g (Log_cstr (Some d)) \<longleftrightarrow> CHR 0x00 \<in> set d"
| "log_arg_ok print_g (Log_piece v) \<longleftrightarrow> piece_ok v"
| "log_arg_ok print_g (Log_buffer v) \<longleftrightarrow> FixedBuffer_wf v"
| "log_arg_ok print_g (Log_fmt text) \<longleftrightarrow> length text < 32"
| "log_arg_ok print_g arg \<longleftrightarrow> True"

lemma FixedBuffer_add_write:
  assumes "fb_cur b + length cs \<le> length (fb_data b)" and "n \<le> length cs"
  shows "\<exists>b'. andThen (FixedBuffer_write (fb_cur b) cs b) (FixedBuffer_add n) = Inr b' \<and>
    length (fb_data b') = length (fb_data b) \<and> fb_cur b' = fb_cur b + n \<and>
    FixedBuffer_content b' = FixedBuffer_content b @ take n cs"
  using assms by (auto simp: FixedBuffer_write_def FixedBuffer_add_def FixedBuffer_content_def std_copy_def)

lemma FixedBuffer_avail_ok:
  "FixedBuffer_wf b \<Longrightarrow> size_of_int (FixedBuffer_avail b) = length (fb_data b) - fb_cur b"
  by (simp add: FixedBuffer_avail_def FixedBuffer_wf_def kLargeBuffer_def nat_diff_distrib)

definition stream_holds :: "fixed_buffer \<Rightarrow> char list \<Rightarrow> fixed_buffer \<Rightarrow> bool" where
  "stream_holds b s b' \<longleftrightarrow> FixedBuffer_wf b' \<and> length (fb_data b') = length (fb_data b) \<and> FixedBuffer_content b' = s"

lemma FixedBuffer_append_ok:
  assumes wf: "FixedBuffer_wf b" and mem: "mem_range d off len = Inr cs"
  shows "\<exists>b'. FixedBuffer_append d off len b = Inr b' \<and>
    stream_holds b (if fb_cur b + length cs < length (fb_data b) then FixedBuffer_content b @ cs else FixedBuffer_content b) b'"
proof -
  have len: "length cs = len" using mem by (auto simp: mem_range_def split: if_splits)
  show ?thesis
  proof (cases "fb_cur b + len < length (fb_data b)")
    case True
    then obtain b' where "andThen (FixedBuffer_write (fb_cur b) cs b) (FixedBuffer_add len) = Inr b'"
      "length (fb_data b') = length (fb_data b)" "fb_cur b' = fb_cur b + len"
      "FixedBuffer_content b' = FixedBuffer_content b @ cs"
      using FixedBuffer_add_write [of b cs len] len by auto
    moreover have "len < length (fb_data b) - fb_cur b" using True by simp
    ultimately show ?thesis
      using True mem wf by (simp add: FixedBuffer_append_def FixedBuffer_avail_ok stream_holds_def FixedBuffer_wf_def len)
  next
    case False
    then have "\<not> len < length (fb_data b) - fb_cur b" using wf by (simp add: FixedBuffer_wf_def)
    then show ?thesis using wf len False by (simp add: FixedBuffer_append_def FixedBuffer_avail_ok stream_holds_def)
  qed
qed

lemma FixedBuffer_number_ok:
  assumes wf: "FixedBuffer_wf b" and room: "fb_cur b + 32 \<le> length (fb_data b)" and s: "length s \<le> 31"
  shows "\<exists>b'. andThen (FixedBuffer_write (fb_cur b) (s @ [CHR 0x00]) b) (FixedBuffer_add (length s)) = Inr b' \<and>
    stream_holds b (FixedBuffer_content b @ s) b'"
  using FixedBuffer_add_write [of b "s @ [CHR 0x00]" "length s"] assms
  by (auto simp: stream_holds_def FixedBuffer_wf_def)

lemma length_decimal_64: "\<bar>v\<bar> < 2 ^ 64 \<Longrightarrow> length (decimal v) \<le> 21"
proof -
  assume "\<bar>v\<bar> < 2 ^ 64"
  then have "nat v < 10 ^ 20" "nat (- v) < 10 ^ 20" by simp_all
  then have "length (dec_digits (nat v)) \<le> 20" "length (dec_digits (nat (- v))) \<le> 20" using length_dec_digits by simp_all
  then show ?thesis by (simp add: decimal_def)
qed

lemma stream_holds_same: "FixedBuffer_wf b \<Longrightarrow> stream_holds b (FixedBuffer_content b) b"
  by (simp add: stream_holds_def)

lemma avail_numeric: "FixedBuffer_wf b \<Longrightarrow> kMaxNumericSize \<le> FixedBuffer_avail b \<longleftrightarrow> fb_cur b + 32 \<le> length (fb_data b)"
  by (simp add: kMaxNumericSize_def FixedBuffer_avail_def) linarith

lemma FixedBuffer_write_twice:
  assumes "pos + length xs + length ys \<le> length (fb_data b)"
  shows "andThen (FixedBuffer_write pos xs b) (\<lambda>b1. andThen (FixedBuffer_write (pos + length xs) ys b1) f) =
    andThen (FixedBuffer_write pos (xs @ ys) b) f"
proof -
  have "std_copy (std_copy (fb_data b) pos xs) (pos + length xs) ys = std_copy (fb_data b) pos (xs @ ys)"
    using assms by (simp add: std_copy_def ac_simps)
  then show ?thesis using assms by (simp add: FixedBuffer_write_def)
qed

lemma LogStream_put_pointer_ok:
  assumes wf: "FixedBuffer_wf b" and room: "fb_cur b + 32 \<le> length (fb_data b)" and v: "v < 2 ^ 64"
  shows "\<exists>b'. LogStream_put_pointer v b = Inr b' \<and> stream_holds b (FixedBuffer_content b @ ''0x'' @ hex_digits v) b'"
proof -
  have "v < 16 ^ 16" using v by simp
  then have len: "length (hex_digits v) \<le> 16" by (rule length_hex_digits) simp
  have "LogStream_put_pointer v b =
      andThen (FixedBuffer_write (fb_cur b) ((''0x'' @ hex_digits v) @ [CHR 0x00]) b) (FixedBuffer_add (length (''0x'' @ hex_digits v)))"
    using FixedBuffer_write_twice [of "fb_cur b" "''0x''" "hex_digits v @ [CHR 0x00]" b] room len
    by (simp add: LogStream_put_pointer_def convertHex_digits avail_numeric [OF wf] Let_def)
  then show ?thesis
    using FixedBuffer_number_ok [OF wf room, of "''0x'' @ hex_digits v"] len by simp
qed

lemma FixedBuffer_toStringPiece_ok:
  assumes "FixedBuffer_wf b"
  shows "piece_ok (FixedBuffer_toStringPiece b)" and "piece_string (FixedBuffer_toStringPiece b) = FixedBuffer_content b"
    and "FixedBuffer_toString b = Inr (FixedBuffer_content b)"
proof -
  have "FixedBuffer_length b = int (fb_cur b)" using assms by (simp add: FixedBuffer_length_def FixedBuffer_wf_def kLargeBuffer_def)
  then show "piece_ok (FixedBuffer_toStringPiece b)" "piece_string (FixedBuffer_toStringPiece b) = FixedBuffer_content b"
    "FixedBuffer_toString b = Inr (FixedBuffer_content b)"
    using assms by (simp_all add: FixedBuffer_toStringPiece_def StringPiece_of_range_def piece_ok_def piece_string_def
        FixedBuffer_content_def FixedBuffer_wf_def kLargeBuffer_def FixedBuffer_toString_def mem_range_def)
qed

lemma piece_mem_range:
  assumes "piece_ok p"
  shows "mem_range (sp_object p) (sp_offset p) (size_of_int (sp_length p)) = Inr (piece_string p)"
  using assms by (simp add: piece_ok_def mem_range_def piece_string_def)

lemma c_strlen_ok:
  assumes "CHR 0x00 \<in> set d"
  shows "\<exists>n. c_strlen d = Inr n \<and> mem_range d 0 n = Inr (takeWhile (\<lambda>c. c \<noteq> CHR 0x00) d)"
proof -
  have "std_find (CHR 0x00) d = length (takeWhile (\<lambda>c. c \<noteq> CHR 0x00) d)" by (induction d) auto
  moreover have "length (takeWhile (\<lambda>c. c \<noteq> CHR 0x00) d) < length d" using assms by (induction d) auto
  ultimately show ?thesis
    by (auto simp: c_strlen_def mem_range_def Let_def takeWhile_eq_take [symmetric])
qed

text \<open>One argument: the code does what \<open>log_append\<close> says.\<close>

lemma LogStream_put_ok:
  assumes wf: "FixedBuffer_wf b" and ok: "log_arg_ok print_g arg"
  shows "\<exists>b'. LogStream_put print_g b arg = Inr b' \<and>
    stream_holds b (log_append (length (fb_data b)) print_g arg (FixedBuffer_content b)) b'"
proof -
  have cur: "length (FixedBuffer_content b) = fb_cur b" using wf by (simp add: FixedBuffer_content_def FixedBuffer_wf_def)
  note app = FixedBuffer_append_ok [OF wf]
  note rules = log_append_def log_numeric_def cur avail_numeric [OF wf] stream_holds_same [OF wf]
  show ?thesis
  proof (cases arg)
    case (Log_bool v)
    show ?thesis using app [of "''1'' @ [CHR 0x00]" 0 1] app [of "''0'' @ [CHR 0x00]" 0 1]
      by (cases v; cases "Suc (fb_cur b) < length (fb_data b)") (simp_all add: Log_bool LogStream_put_bool_def mem_range_def rules)
  next
    case (Log_integer v)
    then show ?thesis using FixedBuffer_number_ok [OF wf, of "decimal v"] length_decimal_64 [of v] ok
      by (auto simp: LogStream_formatInteger_def convert_decimal rules)
  next
    case (Log_pointer v)
    then show ?thesis using LogStream_put_pointer_ok [OF wf] ok
      by (cases "fb_cur b + 32 \<le> length (fb_data b)") (auto simp: LogStream_put_pointer_def rules)
  next
    case (Log_double v)
    then show ?thesis using FixedBuffer_number_ok [OF wf, of "print_g v"] ok
      by (auto simp: LogStream_put_double_def snprintf_def rules)
  next
    case (Log_char v)
    show ?thesis using app [of "[v]" 0 1] by (simp split del: if_split cong: if_cong add: Log_char LogStream_put_char_def mem_range_def rules)
  next
    case (Log_cstr v)
    show ?thesis
    proof (cases v)
      case None
      show ?thesis using app [of "''(null)'' @ [CHR 0x00]" 0 6]
        by (simp split del: if_split cong: if_cong add: Log_cstr None LogStream_put_cstr_def mem_range_def rules)
    next
      case (Some d)
      then obtain n where "c_strlen d = Inr n" "mem_range d 0 n = Inr (takeWhile (\<lambda>c. c \<noteq> CHR 0x00) d)"
        using c_strlen_ok [of d] ok Log_cstr by auto
      then show ?thesis using app [of d 0 n] by (simp split del: if_split cong: if_cong add: Log_cstr Some LogStream_put_cstr_def rules)
    qed
  next
    case (Log_string v)
    show ?thesis using app [of "v @ [CHR 0x00]" 0 "length v"]
      by (simp split del: if_split cong: if_cong add: Log_string LogStream_put_string_def mem_range_def rules)
  next
    case (Log_piece v)
    then show ?thesis using app [OF piece_mem_range [of v]] ok by (simp split del: if_split cong: if_cong add: LogStream_put_piece_def rules)
  next
    case (Log_buffer v)
    then show ?thesis
      using app [OF piece_mem_range [OF FixedBuffer_toStringPiece_ok(1) [of v]]] FixedBuffer_toStringPiece_ok(2) [of v] ok
      by (simp split del: if_split cong: if_cong add: LogStream_put_buffer_def LogStream_put_piece_def rules)
  next
    case (Log_fmt str)
    then show ?thesis using app [of "str @ [CHR 0x00]" 0 "length str"] ok
      by (simp split del: if_split cong: if_cong add: Fmt_new_def LogStream_put_Fmt_def LogStream_append_def snprintf_def mem_range_def rules)
  qed
qed

lemma LogStream_put_all:
  assumes "FixedBuffer_wf b" and "\<forall>arg \<in> set args. log_arg_ok print_g arg"
  shows "\<exists>b'. foldR (LogStream_put print_g) b args = Inr b' \<and>
    stream_holds b (fold (log_append (length (fb_data b)) print_g) args (FixedBuffer_content b)) b'"
  using assms
proof (induction args arbitrary: b)
  case Nil
  then show ?case by (simp add: stream_holds_def)
next
  case (Cons arg args)
  obtain b1 where b1: "LogStream_put print_g b arg = Inr b1"
    "stream_holds b (log_append (length (fb_data b)) print_g arg (FixedBuffer_content b)) b1"
    using LogStream_put_ok [of b print_g arg] Cons.prems by auto
  then show ?case using Cons.IH [of b1] Cons.prems(2) by (auto simp: stream_holds_def)
qed

text \<open>
  C37: the log stream. Whatever is written to a stream, in whatever memory its array starts, no character
  is written outside the array and the null that \<open>debugString\<close> adds has room; the text is that of the
  arguments in order, each whole or, where it does not fit any more, left out. An integer is the text
  \<open>printf\<close> gives it with \<open>%d\<close>, although the code converts it itself. A pointer is \<open>0x\<close> and upper-case
  hexadecimal digits without leading zeros (\<open>0x0\<close> for the null pointer), which read back as its value; this
  is not what \<open>printf\<close> gives with \<open>%p\<close>.
\<close>

theorem LogStream_text:
  assumes "length data = kSmallBuffer" and "\<forall>arg \<in> set args. log_arg_ok print_g arg"
  shows "\<exists>b b'. foldR (LogStream_put print_g) (FixedBuffer_new data) args = Inr b \<and>
      fb_cur b < length (fb_data b) \<and> length (fb_data b) = kSmallBuffer \<and>
      FixedBuffer_toString b = Inr (fold (log_append kSmallBuffer print_g) args []) \<and>
      FixedBuffer_debugString b = Inr b' \<and> FixedBuffer_toString b' = FixedBuffer_toString b \<and>
      (\<forall>n. \<exists>digits. log_text print_g (Log_pointer n) = ''0x'' @ digits \<and> digits \<noteq> [] \<and>
         set digits \<subseteq> set digitsHex \<and> (n \<noteq> 0 \<longrightarrow> hd digits \<noteq> CHR ''0'') \<and> hex_value digits = n)"
proof -
  have wf: "FixedBuffer_wf (FixedBuffer_new data)" "length (fb_data (FixedBuffer_new data)) = kSmallBuffer"
    "FixedBuffer_content (FixedBuffer_new data) = []"
    using assms(1) by (simp_all add: FixedBuffer_new_def FixedBuffer_wf_def kSmallBuffer_def kLargeBuffer_def FixedBuffer_content_def)
  obtain b where b: "foldR (LogStream_put print_g) (FixedBuffer_new data) args = Inr b"
    "stream_holds (FixedBuffer_new data) (fold (log_append kSmallBuffer print_g) args []) b"
    using LogStream_put_all [OF wf(1) assms(2)] wf(2,3) by auto
  then have w: "FixedBuffer_wf b" by (simp add: stream_holds_def)
  define b' where "b' = b\<lparr>fb_data := std_copy (fb_data b) (fb_cur b) [CHR 0x00]\<rparr>"
  have "FixedBuffer_debugString b = Inr b'" "FixedBuffer_wf b'" "FixedBuffer_content b' = FixedBuffer_content b"
    using w by (auto simp: FixedBuffer_debugString_def FixedBuffer_write_def FixedBuffer_wf_def b'_def FixedBuffer_content_def)
  then show ?thesis
    using b wf FixedBuffer_toStringPiece_ok(3) [OF w] FixedBuffer_toStringPiece_ok(3) [of b'] hex_value_digits hex_digits_shape
    by (intro exI [of _ b] exI [of _ b']) (auto simp: stream_holds_def FixedBuffer_wf_def)
qed

lemma LogStream_text_witness:
  "\<exists>b. foldR (LogStream_put (\<lambda>x. ''1'')) (FixedBuffer_new (replicate kSmallBuffer (CHR ''?'')))
      [Log_string ''x='', Log_integer (- 12), Log_bool True, Log_pointer 255] = Inr b \<and>
     FixedBuffer_toString b = Inr ''x=-1210xFF''"
proof -
  have "decimal (- 12) = ''-12''" "hex_digits 255 = ''FF''" by code_simp+
  then show ?thesis
    using LogStream_text [of "replicate kSmallBuffer (CHR ''?'')"
        "[Log_string ''x='', Log_integer (- 12), Log_bool True, Log_pointer 255]" "\<lambda>x. ''1''"]
    by (auto simp: log_append_def log_numeric_def kSmallBuffer_def)
qed

end
