(* ===== verification/Log_Line.thy ===== *)
theory Log_Line
  imports Log_Stream
begin

text \<open>
  \<open>src/muduo/base/Logging.h\<close>, \<open>Logging.cpp\<close>: one log statement, with \<open>CurrentThread::tid\<close> and
  \<open>cacheTid\<close> of \<open>CurrentThread.h\<close> and \<open>Thread.cpp\<close>.

  The thread-local variables are a record. Parameters are the system: \<open>gmtime\<close> (\<open>gmtime_r\<close>), \<open>gettid\<close> of
  the thread, \<open>strerror\<close> (an object with the string at its beginning), and the contents of memory that a
  new stream starts with. A log line goes to \<open>g_output\<close>; the result says what, and whether \<open>abort\<close> follows.
\<close>

section \<open>Levels, files, time\<close>

datatype log_level = TRACE | DEBUG | INFO | WARN | ERROR | FATAL

fun log_level_number :: "log_level \<Rightarrow> nat" where
  "log_level_number TRACE = 0" | "log_level_number DEBUG = 1" | "log_level_number INFO = 2"
| "log_level_number WARN = 3" | "log_level_number ERROR = 4" | "log_level_number FATAL = 5"

fun LogLevelName :: "log_level \<Rightarrow> string" where
  "LogLevelName TRACE = ''TRACE ''" | "LogLevelName DEBUG = ''DEBUG ''" | "LogLevelName INFO = ''INFO  ''"
| "LogLevelName WARN = ''WARN  ''" | "LogLevelName ERROR = ''ERROR ''" | "LogLevelName FATAL = ''FATAL ''"

text \<open>\<open>getenv\<close> found the variables or not.\<close>

definition initLogLevel :: "bool \<Rightarrow> bool \<Rightarrow> log_level" where
  "initLogLevel trace debug = (if trace then TRACE else if debug then DEBUG else INFO)"

text \<open>The macros: three levels are tested, the others are always logged.\<close>

definition log_enabled :: "log_level \<Rightarrow> log_level \<Rightarrow> bool" where
  "log_enabled g level \<longleftrightarrow>
     (if level \<in> {TRACE, DEBUG, INFO} then log_level_number g \<le> log_level_number level else True)"

text \<open>The offset of the last slash; the constructor from an array knows its length, the other asks \<open>strlen\<close>.\<close>

definition strrchr :: "char \<Rightarrow> char list \<Rightarrow> nat option" where
  "strrchr c s = (let n = std_find c (rev s) in if n < length s then Some (length s - 1 - n) else None)"

definition SourceFile_of_array :: "string \<Rightarrow> string_piece" where
  "SourceFile_of_array arr =
     (let mem = arr @ [CHR 0x00]; size = int32_of (int (length mem) - 1)
      in case strrchr (CHR ''/'') arr of
           None \<Rightarrow> StringPiece_of_range mem 0 size
         | Some slash \<Rightarrow> StringPiece_of_range mem (int slash + 1) (int32_of (size - int32_of (int slash + 1))))"

definition SourceFile_of_cstr :: "string \<Rightarrow> string_piece" where
  "SourceFile_of_cstr filename =
     (let mem = filename @ [CHR 0x00];
          data = (case strrchr (CHR ''/'') filename of None \<Rightarrow> 0 | Some slash \<Rightarrow> int slash + 1)
      in StringPiece_of_range mem data (int32_of (int (length filename) - data)))"

record tm =
  tm_year :: int
  tm_mon :: int
  tm_mday :: int
  tm_hour :: int
  tm_min :: int
  tm_sec :: int

text \<open>What the format string of \<open>formatTime\<close> makes of a \<open>tm\<close>.\<close>

definition time_text :: "tm \<Rightarrow> string" where
  "time_text t = space_padded 4 (tm_year t + 1900) @ zero_padded 2 (tm_mon t + 1) @ zero_padded 2 (tm_mday t) @ '' '' @
     zero_padded 2 (tm_hour t) @ '':'' @ zero_padded 2 (tm_min t) @ '':'' @ space_padded 2 (tm_sec t)"

section \<open>A statement\<close>

record log_thread =
  lt_cachedTid :: int
  lt_tidString :: string
  lt_tidStringLength :: int
  lt_time :: string
  lt_lastSecond :: int

definition log_thread_new :: log_thread where
  "log_thread_new = \<lparr>lt_cachedTid = 0, lt_tidString = [], lt_tidStringLength = 0, lt_time = [], lt_lastSecond = 0\<rparr>"

definition CurrentThread_cacheTid :: "int \<Rightarrow> log_thread \<Rightarrow> log_thread" where
  "CurrentThread_cacheTid gettid th =
     (if lt_cachedTid th = 0 then
        let s = space_padded 5 gettid @ '' ''
        in th\<lparr>lt_cachedTid := gettid, lt_tidString := snprintf 32 s, lt_tidStringLength := int (length s)\<rparr>
      else th)"

definition CurrentThread_tid :: "int \<Rightarrow> log_thread \<Rightarrow> log_thread" where
  "CurrentThread_tid gettid th = (if lt_cachedTid th = 0 then CurrentThread_cacheTid gettid th else th)"

text \<open>The class \<open>T\<close> and its operator.\<close>

definition LogStream_put_T :: "string \<Rightarrow> int \<Rightarrow> fixed_buffer \<Rightarrow> fixed_buffer result" where
  "LogStream_put_T str len b = cassert (int (length str) = len) (LogStream_append (str @ [CHR 0x00]) 0 len b)"

definition Impl_formatTime :: "(int \<Rightarrow> tm) \<Rightarrow> timestamp \<Rightarrow> log_thread \<Rightarrow> fixed_buffer \<Rightarrow> (log_thread \<times> fixed_buffer) result" where
  "Impl_formatTime gmtime time th b =
     (let seconds = time sdiv kMicroSecondsPerSecond;
          microseconds = time smod kMicroSecondsPerSecond
      in andThen
        (if seconds \<noteq> lt_lastSecond th then
           let s = time_text (gmtime seconds)
           in cassert (length s = 17) (Inr (th\<lparr>lt_lastSecond := seconds, lt_time := snprintf 64 s\<rparr>))
         else Inr th)
        (\<lambda>th1.
         andThen (Fmt_new (''.'' @ zero_padded 6 microseconds @ ''Z '')) (\<lambda>us.
         cassert (snd us = 9) (
         andThen (LogStream_put_T (lt_time th1) 17 b) (\<lambda>b1.
         andThen (LogStream_put_T (butlast (fst us)) 9 b1) (\<lambda>b2. Inr (th1, b2)))))))"

record logger =
  lg_stream :: fixed_buffer
  lg_level :: log_level
  lg_line :: int
  lg_basename :: string_piece

definition Impl_new ::
  "(int \<Rightarrow> tm) \<Rightarrow> int \<Rightarrow> (int \<Rightarrow> char list) \<Rightarrow> char list \<Rightarrow> log_level \<Rightarrow> int \<Rightarrow> string_piece \<Rightarrow> int \<Rightarrow> timestamp \<Rightarrow>
   log_thread \<Rightarrow> (logger \<times> log_thread) result" where
  "Impl_new gmtime gettid strerror mem level savedErrno file line now th =
     andThen (Impl_formatTime gmtime now th (FixedBuffer_new mem)) (\<lambda>(th1, b1).
     let th2 = CurrentThread_tid gettid th1
     in andThen (LogStream_put_T (lt_tidString th2) (lt_tidStringLength th2) b1) (\<lambda>b2.
        andThen (LogStream_put_T (LogLevelName level) 6 b2) (\<lambda>b3.
        andThen
          (if savedErrno \<noteq> 0 then
             andThen (LogStream_put_cstr (Some (strerror savedErrno)) b3) (\<lambda>b4.
             andThen (LogStream_put_cstr (Some ('' (errno='' @ [CHR 0x00])) b4) (\<lambda>b5.
             andThen (LogStream_formatInteger savedErrno b5)
               (LogStream_put_cstr (Some ('') '' @ [CHR 0x00])))))
           else Inr b3)
          (\<lambda>b7. Inr (\<lparr>lg_stream = b7, lg_level = level, lg_line = line, lg_basename = file\<rparr>, th2)))))"

text \<open>The four constructors, by the macro that uses each.\<close>

datatype log_site = Log_plain | Log_level log_level | Log_func log_level string | Log_errno bool int

definition Logger_new ::
  "(int \<Rightarrow> tm) \<Rightarrow> int \<Rightarrow> (int \<Rightarrow> char list) \<Rightarrow> char list \<Rightarrow> log_site \<Rightarrow> string_piece \<Rightarrow> int \<Rightarrow> timestamp \<Rightarrow>
   log_thread \<Rightarrow> (logger \<times> log_thread) result" where
  "Logger_new gmtime gettid strerror mem site file line now th =
     (let impl = (\<lambda>level savedErrno. Impl_new gmtime gettid strerror mem level savedErrno file line now th)
      in case site of
           Log_plain \<Rightarrow> impl INFO 0
         | Log_level level \<Rightarrow> impl level 0
         | Log_func level func \<Rightarrow>
             andThen (impl level 0) (\<lambda>(lg, th1).
             andThen (LogStream_put_cstr (Some (func @ [CHR 0x00])) (lg_stream lg)) (\<lambda>b1.
             andThen (LogStream_put_char (CHR '' '') b1) (\<lambda>b2. Inr (lg\<lparr>lg_stream := b2\<rparr>, th1))))
         | Log_errno toAbort errno \<Rightarrow> impl (if toAbort then FATAL else ERROR) errno)"

definition Impl_finish :: "logger \<Rightarrow> logger result" where
  "Impl_finish lg =
     andThen (LogStream_put_cstr (Some ('' - '' @ [CHR 0x00])) (lg_stream lg)) (\<lambda>b1.
     andThen (LogStream_append (sp_object (lg_basename lg)) (sp_offset (lg_basename lg)) (sp_length (lg_basename lg)) b1) (\<lambda>b2.
     andThen (LogStream_put_cstr (Some ('':'' @ [CHR 0x00])) b2) (\<lambda>b3.
     andThen (LogStream_formatInteger (lg_line lg) b3) (\<lambda>b4.
     andThen (LogStream_put_cstr (Some ([CHR 0x0A] @ [CHR 0x00])) b4) (\<lambda>b5. Inr (lg\<lparr>lg_stream := b5\<rparr>))))))"

definition Logger_delete :: "logger \<Rightarrow> (char list \<times> bool) result" where
  "Logger_delete lg =
     andThen (Impl_finish lg) (\<lambda>lg1.
     andThen (FixedBuffer_toString (lg_stream lg1)) (\<lambda>msg. Inr (msg, lg_level lg1 = FATAL)))"

text \<open>A whole statement: \<open>LOG_X << arg << ...;\<close>.\<close>

definition Logger_log ::
  "(int \<Rightarrow> tm) \<Rightarrow> int \<Rightarrow> (int \<Rightarrow> char list) \<Rightarrow> (double \<Rightarrow> char list) \<Rightarrow> char list \<Rightarrow> log_site \<Rightarrow> string_piece \<Rightarrow> int \<Rightarrow>
   timestamp \<Rightarrow> log_arg list \<Rightarrow> log_thread \<Rightarrow> (char list \<times> bool \<times> log_thread) result" where
  "Logger_log gmtime gettid strerror print_g mem site file line now args th =
     andThen (Logger_new gmtime gettid strerror mem site file line now th) (\<lambda>(lg, th1).
     andThen (foldR (LogStream_put print_g) (lg_stream lg) args) (\<lambda>b.
     andThen (Logger_delete (lg\<lparr>lg_stream := b\<rparr>)) (\<lambda>(msg, die). Inr (msg, die, th1))))"

definition CheckNotNull :: "nat \<Rightarrow> nat result" where
  "CheckNotNull ptr = (if ptr = 0 then Inl Log_fatal else Inr ptr)"

section \<open>The text of a line\<close>

fun site_level :: "log_site \<Rightarrow> log_level" where
  "site_level Log_plain = INFO"
| "site_level (Log_level level) = level"
| "site_level (Log_func level func) = level"
| "site_level (Log_errno toAbort errno) = (if toAbort then FATAL else ERROR)"

definition site_args :: "(int \<Rightarrow> char list) \<Rightarrow> log_site \<Rightarrow> log_arg list" where
  "site_args strerror site =
     (case site of
        Log_errno toAbort errno \<Rightarrow>
          if errno \<noteq> 0 then [Log_cstr (Some (strerror errno)), Log_cstr (Some ('' (errno='' @ [CHR 0x00])),
            Log_integer errno, Log_cstr (Some ('') '' @ [CHR 0x00]))] else []
      | Log_func level func \<Rightarrow> [Log_cstr (Some (func @ [CHR 0x00])), Log_char (CHR '' '')]
      | _ \<Rightarrow> [])"

definition head_args :: "(int \<Rightarrow> tm) \<Rightarrow> int \<Rightarrow> timestamp \<Rightarrow> log_level \<Rightarrow> log_arg list" where
  "head_args gmtime gettid now level =
     [Log_string (time_text (gmtime (now sdiv kMicroSecondsPerSecond))),
      Log_string (''.'' @ zero_padded 6 (now smod kMicroSecondsPerSecond) @ ''Z ''),
      Log_string (space_padded 5 gettid @ '' ''), Log_string (LogLevelName level)]"

definition tail_args :: "string_piece \<Rightarrow> int \<Rightarrow> log_arg list" where
  "tail_args file line =
     [Log_cstr (Some ('' - '' @ [CHR 0x00])), Log_piece file, Log_cstr (Some ('':'' @ [CHR 0x00])),
      Log_integer line, Log_cstr (Some ([CHR 0x0A] @ [CHR 0x00]))]"

definition tm_ok :: "tm \<Rightarrow> bool" where
  "tm_ok t \<longleftrightarrow> 0 \<le> tm_year t + 1900 \<and> tm_year t + 1900 < 10 ^ 4 \<and> 0 \<le> tm_mon t \<and> tm_mon t < 12 \<and>
     1 \<le> tm_mday t \<and> tm_mday t \<le> 31 \<and> 0 \<le> tm_hour t \<and> tm_hour t < 24 \<and> 0 \<le> tm_min t \<and> tm_min t < 60 \<and>
     0 \<le> tm_sec t \<and> tm_sec t \<le> 60"

lemma length_zero_padded: "0 \<le> i \<Longrightarrow> nat i < 10 ^ w \<Longrightarrow> 0 < w \<Longrightarrow> length (zero_padded w i) = w"
  using length_dec_digits [of "nat i" w] by (simp add: zero_padded_def pad_left_def)

lemma length_space_padded: "0 \<le> i \<Longrightarrow> nat i < 10 ^ w \<Longrightarrow> 0 < w \<Longrightarrow> length (space_padded w i) = w"
  using length_dec_digits [of "nat i" w] by (simp add: space_padded_def decimal_def pad_left_def)

lemma length_time_text: "tm_ok t \<Longrightarrow> length (time_text t) = 17"
  by (simp add: tm_ok_def time_text_def length_zero_padded length_space_padded nat_less_iff)

lemma length_micro:
  assumes "0 \<le> now"
  shows "length (''.'' @ zero_padded 6 (now smod kMicroSecondsPerSecond) @ ''Z '') = 9"
proof -
  have "now smod kMicroSecondsPerSecond = now mod 1000000" using assms by (simp add: smod_nonneg kMicroSecondsPerSecond_def)
  moreover have "0 \<le> now mod 1000000" "now mod 1000000 < 1000000" by simp_all
  ultimately show ?thesis by (simp add: length_zero_padded nat_less_iff)
qed

text \<open>The thread-local variables: the id and the time of the last second, or not yet.\<close>

definition log_thread_ok :: "(int \<Rightarrow> tm) \<Rightarrow> int \<Rightarrow> log_thread \<Rightarrow> bool" where
  "log_thread_ok gmtime gettid th \<longleftrightarrow>
     (lt_cachedTid th = 0 \<or> lt_cachedTid th = gettid \<and> lt_tidString th = space_padded 5 gettid @ '' '' \<and>
        lt_tidStringLength th = int (length (space_padded 5 gettid @ '' ''))) \<and>
     (lt_lastSecond th = 0 \<or> lt_time th = time_text (gmtime (lt_lastSecond th)))"

lemma put_T_string:
  assumes "length str < 2 ^ 31"
  shows "LogStream_put_T str (int (length str)) b = LogStream_put print_g b (Log_string str)"
  using assms by (simp add: LogStream_put_T_def LogStream_append_def LogStream_put_string_def)

lemma tid_ok:
  assumes "log_thread_ok gmtime gettid th" and "0 < gettid" and "gettid < 2 ^ 31"
  shows "log_thread_ok gmtime gettid (CurrentThread_tid gettid th)"
    and "LogStream_put_T (lt_tidString (CurrentThread_tid gettid th)) (lt_tidStringLength (CurrentThread_tid gettid th)) b =
      LogStream_put print_g b (Log_string (space_padded 5 gettid @ '' ''))"
    and "lt_lastSecond (CurrentThread_tid gettid th) = lt_lastSecond th"
proof -
  have "length (dec_digits (nat gettid)) \<le> 10" by (rule length_dec_digits) (use assms in simp_all)
  then have len: "length (space_padded 5 gettid @ '' '') \<le> 11"
    using assms(2) by (simp add: space_padded_def decimal_def pad_left_def)
  then have tid: "lt_tidString (CurrentThread_tid gettid th) = space_padded 5 gettid @ '' ''"
    "lt_tidStringLength (CurrentThread_tid gettid th) = int (length (space_padded 5 gettid @ '' ''))"
    "lt_cachedTid (CurrentThread_tid gettid th) = gettid" "lt_time (CurrentThread_tid gettid th) = lt_time th"
    "lt_lastSecond (CurrentThread_tid gettid th) = lt_lastSecond th"
    using assms by (auto simp: CurrentThread_tid_def CurrentThread_cacheTid_def log_thread_ok_def snprintf_def Let_def)
  then show "log_thread_ok gmtime gettid (CurrentThread_tid gettid th)" "lt_lastSecond (CurrentThread_tid gettid th) = lt_lastSecond th"
    using assms(1) by (simp_all add: log_thread_ok_def)
  show "LogStream_put_T (lt_tidString (CurrentThread_tid gettid th)) (lt_tidStringLength (CurrentThread_tid gettid th)) b =
      LogStream_put print_g b (Log_string (space_padded 5 gettid @ '' ''))"
    unfolding tid by (rule put_T_string) (use len in simp)
qed

lemma andThen_assoc: "andThen (andThen m f) g = andThen m (\<lambda>x. andThen (f x) g)"
  by (cases m) simp_all

lemma formatTime_ok:
  assumes th: "log_thread_ok gmtime gettid th" and gm: "tm_ok (gmtime (now sdiv kMicroSecondsPerSecond))"
    and now: "10 ^ 6 \<le> now"
  shows "\<exists>th1. log_thread_ok gmtime gettid th1 \<and>
    Impl_formatTime gmtime now th b =
      andThen (foldR (LogStream_put print_g) b
        [Log_string (time_text (gmtime (now sdiv kMicroSecondsPerSecond))),
         Log_string (''.'' @ zero_padded 6 (now smod kMicroSecondsPerSecond) @ ''Z '')]) (\<lambda>b2. Inr (th1, b2))"
proof -
  let ?s = "now sdiv kMicroSecondsPerSecond"
  let ?us = "''.'' @ zero_padded 6 (now smod kMicroSecondsPerSecond) @ ''Z ''"
  have s: "?s \<noteq> 0" using now by (simp add: sdiv_nonneg kMicroSecondsPerSecond_def)
  have t17: "length (time_text (gmtime ?s)) = 17" by (rule length_time_text [OF gm])
  have us9: "length ?us = 9" using now by (intro length_micro) simp
  define th1 where "th1 = (if ?s \<noteq> lt_lastSecond th then th\<lparr>lt_lastSecond := ?s, lt_time := time_text (gmtime ?s)\<rparr> else th)"
  have time: "lt_time th1 = time_text (gmtime ?s)" using th s by (auto simp: th1_def log_thread_ok_def)
  have ok: "log_thread_ok gmtime gettid th1" using th by (simp add: th1_def log_thread_ok_def)
  have "Impl_formatTime gmtime now th b =
      andThen (LogStream_put_T (lt_time th1) 17 b) (\<lambda>b1. andThen (LogStream_put_T ?us 9 b1) (\<lambda>b2. Inr (th1, b2)))"
    using t17 us9 by (simp add: Impl_formatTime_def th1_def Let_def Fmt_new_def snprintf_def butlast_append)
  also have "\<dots> = andThen (LogStream_put print_g b (Log_string (lt_time th1))) (\<lambda>b1.
      andThen (LogStream_put print_g b1 (Log_string ?us)) (\<lambda>b2. Inr (th1, b2)))"
    using put_T_string [of "lt_time th1"] put_T_string [of ?us] t17 us9 time by simp
  finally show ?thesis using ok time by (intro exI [of _ th1]) (simp add: andThen_assoc)
qed

text \<open>A statement is a sequence of insertions into a new stream.\<close>

definition line_args ::
  "(int \<Rightarrow> tm) \<Rightarrow> int \<Rightarrow> (int \<Rightarrow> char list) \<Rightarrow> log_site \<Rightarrow> string_piece \<Rightarrow> int \<Rightarrow> timestamp \<Rightarrow> log_arg list \<Rightarrow> log_arg list" where
  "line_args gmtime gettid strerror site file line now args =
     head_args gmtime gettid now (site_level site) @ site_args strerror site @ args @ tail_args file line"

lemma Impl_new_puts:
  assumes th: "log_thread_ok gmtime gettid th" and gm: "tm_ok (gmtime (now sdiv kMicroSecondsPerSecond))"
    and now: "10 ^ 6 \<le> now" and tid: "0 < gettid" "gettid < 2 ^ 31"
  shows "\<exists>th1. log_thread_ok gmtime gettid th1 \<and> (\<forall>level savedErrno.
    Impl_new gmtime gettid strerror mem level savedErrno file line now th =
      andThen (foldR (LogStream_put print_g) (FixedBuffer_new mem)
        (head_args gmtime gettid now level @ site_args strerror (Log_errno False savedErrno)))
        (\<lambda>b. Inr (\<lparr>lg_stream = b, lg_level = level, lg_line = line, lg_basename = file\<rparr>, th1)))"
proof -
  obtain th0 where th0: "log_thread_ok gmtime gettid th0" "Impl_formatTime gmtime now th (FixedBuffer_new mem) =
      andThen (foldR (LogStream_put print_g) (FixedBuffer_new mem)
        [Log_string (time_text (gmtime (now sdiv kMicroSecondsPerSecond))),
         Log_string (''.'' @ zero_padded 6 (now smod kMicroSecondsPerSecond) @ ''Z '')]) (\<lambda>b2. Inr (th0, b2))"
    using formatTime_ok [OF th gm now] by blast
  define th1 where "th1 = CurrentThread_tid gettid th0"
  have th1: "log_thread_ok gmtime gettid th1"
    "LogStream_put_T (lt_tidString th1) (lt_tidStringLength th1) b = LogStream_put print_g b (Log_string (space_padded 5 gettid @ '' ''))" for b
    unfolding th1_def by (rule tid_ok [OF th0(1) tid])+
  have level: "LogStream_put_T (LogLevelName level) 6 b = LogStream_put print_g b (Log_string (LogLevelName level))" for level b
    using put_T_string [of "LogLevelName level" b print_g] by (cases level) simp_all
  have "Impl_new gmtime gettid strerror mem level savedErrno file line now th =
      andThen (foldR (LogStream_put print_g) (FixedBuffer_new mem)
        (head_args gmtime gettid now level @ site_args strerror (Log_errno False savedErrno)))
        (\<lambda>b. Inr (\<lparr>lg_stream = b, lg_level = level, lg_line = line, lg_basename = file\<rparr>, th1))" for level savedErrno
    unfolding Impl_new_def th0(2)
    by (simp add: andThen_assoc Let_def th1_def [symmetric] th1(2) level head_args_def site_args_def del: LogStream_put.simps)
      (simp add: andThen_assoc)
  then show ?thesis using th1(1) by blast
qed

lemma Logger_log_puts:
  assumes th: "log_thread_ok gmtime gettid th" and gm: "tm_ok (gmtime (now sdiv kMicroSecondsPerSecond))"
    and now: "10 ^ 6 \<le> now" and tid: "0 < gettid" "gettid < 2 ^ 31"
  shows "\<exists>th1. log_thread_ok gmtime gettid th1 \<and>
    Logger_log gmtime gettid strerror print_g mem site file line now args th =
      andThen (foldR (LogStream_put print_g) (FixedBuffer_new mem) (line_args gmtime gettid strerror site file line now args))
        (\<lambda>b. andThen (FixedBuffer_toString b) (\<lambda>msg. Inr (msg, site_level site = FATAL, th1)))"
proof -
  obtain th1 where th1: "log_thread_ok gmtime gettid th1" and new: "\<And>level savedErrno.
      Impl_new gmtime gettid strerror mem level savedErrno file line now th =
      andThen (foldR (LogStream_put print_g) (FixedBuffer_new mem)
        (head_args gmtime gettid now level @ site_args strerror (Log_errno False savedErrno)))
        (\<lambda>b. Inr (\<lparr>lg_stream = b, lg_level = level, lg_line = line, lg_basename = file\<rparr>, th1))"
    using Impl_new_puts [OF th gm now tid] by blast
  have none: "site_args strerror (Log_errno False 0) = []" by (simp add: site_args_def)
  have "Logger_new gmtime gettid strerror mem site file line now th =
      andThen (foldR (LogStream_put print_g) (FixedBuffer_new mem)
        (head_args gmtime gettid now (site_level site) @ site_args strerror site))
        (\<lambda>b. Inr (\<lparr>lg_stream = b, lg_level = site_level site, lg_line = line, lg_basename = file\<rparr>, th1))"
    by (cases site) (simp_all add: Logger_new_def new none Let_def andThen_assoc, simp_all add: site_args_def andThen_assoc)
  moreover have "Logger_delete \<lparr>lg_stream = b, lg_level = level, lg_line = line, lg_basename = file\<rparr> =
      andThen (foldR (LogStream_put print_g) b (tail_args file line))
        (\<lambda>b. andThen (FixedBuffer_toString b) (\<lambda>msg. Inr (msg, level = FATAL)))" for b level
    by (simp add: Logger_delete_def Impl_finish_def tail_args_def andThen_assoc LogStream_put_piece_def LogStream_append_def)
  ultimately show ?thesis
    using th1 by (intro exI [of _ th1]) (simp add: Logger_log_def line_args_def andThen_assoc)
qed

lemma log_append_fits:
  assumes "length s + length (concat (map (log_text print_g) args)) + 32 \<le> n"
  shows "fold (log_append n print_g) args s = s @ concat (map (log_text print_g) args)"
  using assms
proof (induction args arbitrary: s)
  case (Cons arg args)
  then have "log_append n print_g arg s = s @ log_text print_g arg" by (simp add: log_append_def)
  then show ?case using Cons.IH [of "s @ log_text print_g arg"] Cons.prems by simp
qed simp

section \<open>A thread that logs\<close>

record log_statement =
  ls_site :: log_site
  ls_path :: string
  ls_line :: int
  ls_now :: timestamp
  ls_args :: "log_arg list"
  ls_memory :: "char list"

text \<open>The statements of a thread in order; \<open>abort\<close> ends the process after a fatal line.\<close>

fun Logger_run ::
  "(int \<Rightarrow> tm) \<Rightarrow> int \<Rightarrow> (int \<Rightarrow> char list) \<Rightarrow> (double \<Rightarrow> char list) \<Rightarrow> log_statement list \<Rightarrow> log_thread \<Rightarrow> char list list result" where
  "Logger_run gmtime gettid strerror print_g [] th = Inr []"
| "Logger_run gmtime gettid strerror print_g (s # ss) th =
     andThen (Logger_log gmtime gettid strerror print_g (ls_memory s) (ls_site s) (SourceFile_of_array (ls_path s)) (ls_line s)
       (ls_now s) (ls_args s) th) (\<lambda>(msg, die, th1).
     if die then Inr [msg]
     else andThen (Logger_run gmtime gettid strerror print_g ss th1) (\<lambda>msgs. Inr (msg # msgs)))"

fun until_fatal :: "log_statement list \<Rightarrow> log_statement list" where
  "until_fatal [] = []"
| "until_fatal (s # ss) = (if site_level (ls_site s) = FATAL then [s] else s # until_fatal ss)"

text \<open>What a line is to say.\<close>

definition c_string :: "char list \<Rightarrow> char list" where
  "c_string d = takeWhile (\<lambda>c. c \<noteq> CHR 0x00) d"

definition site_text :: "(int \<Rightarrow> char list) \<Rightarrow> log_site \<Rightarrow> string" where
  "site_text strerror site =
     (case site of
        Log_errno toAbort errno \<Rightarrow> if errno \<noteq> 0 then c_string (strerror errno) @ '' (errno='' @ decimal errno @ '') '' else []
      | Log_func level func \<Rightarrow> func @ '' ''
      | _ \<Rightarrow> [])"

definition log_line :: "(int \<Rightarrow> tm) \<Rightarrow> int \<Rightarrow> (int \<Rightarrow> char list) \<Rightarrow> (double \<Rightarrow> char list) \<Rightarrow> log_statement \<Rightarrow> char list" where
  "log_line gmtime gettid strerror print_g s =
     time_text (gmtime (ls_now s div 10 ^ 6)) @ ''.'' @ zero_padded 6 (ls_now s mod 10 ^ 6) @ ''Z '' @
     space_padded 5 gettid @ '' '' @ LogLevelName (site_level (ls_site s)) @ site_text strerror (ls_site s) @
     concat (map (log_text print_g) (ls_args s)) @
     '' - '' @ rev (takeWhile (\<lambda>c. c \<noteq> CHR ''/'') (rev (ls_path s))) @ '':'' @ decimal (ls_line s) @ [CHR 0x0A]"

text \<open>What becomes of it in the stream's array: the texts of which the line is made, each whole or, where it
  does not fit any more, left out (\<open>log_append\<close> of C37).\<close>

definition log_written :: "(int \<Rightarrow> tm) \<Rightarrow> int \<Rightarrow> (int \<Rightarrow> char list) \<Rightarrow> (double \<Rightarrow> char list) \<Rightarrow> log_statement \<Rightarrow> char list" where
  "log_written gmtime gettid strerror print_g s =
     fold (log_append kSmallBuffer print_g)
       (line_args gmtime gettid strerror (ls_site s) (SourceFile_of_array (ls_path s)) (ls_line s) (ls_now s) (ls_args s)) []"

text \<open>A statement: its values are of their types, its strings end, and it is after the first second of 1970.\<close>

definition log_statement_ok ::
  "(int \<Rightarrow> tm) \<Rightarrow> int \<Rightarrow> (int \<Rightarrow> char list) \<Rightarrow> (double \<Rightarrow> char list) \<Rightarrow> log_statement \<Rightarrow> bool" where
  "log_statement_ok gmtime gettid strerror print_g s \<longleftrightarrow>
     10 ^ 6 \<le> ls_now s \<and> tm_ok (gmtime (ls_now s div 10 ^ 6)) \<and> \<bar>ls_line s\<bar> < 2 ^ 31 \<and>
     (\<forall>arg \<in> set (ls_args s). log_arg_ok print_g arg) \<and> length (ls_memory s) = kSmallBuffer \<and>
     (case ls_site s of Log_errno toAbort errno \<Rightarrow> \<bar>errno\<bar> < 2 ^ 31 \<and> CHR 0x00 \<in> set (strerror errno)
      | Log_func level func \<Rightarrow> CHR 0x00 \<notin> set func | _ \<Rightarrow> True) \<and>
     length (ls_path s) < 2 ^ 31 - 1"

lemma SourceFile_base:
  assumes "length path < 2 ^ 31 - 1"
  shows "piece_ok (SourceFile_of_array path)"
    and "piece_string (SourceFile_of_array path) = rev (takeWhile (\<lambda>c. c \<noteq> CHR ''/'') (rev path))"
proof -
  let ?n = "std_find (CHR ''/'') (rev path)"
  have n: "takeWhile (\<lambda>c. c \<noteq> CHR ''/'') (rev path) = take ?n (rev path)"
  proof -
    have "takeWhile (\<lambda>c. c \<noteq> CHR ''/'') xs = take (std_find (CHR ''/'') xs) xs" for xs by (induction xs) auto
    then show ?thesis .
  qed
  have le: "?n \<le> length path" using std_find_le [of "CHR ''/''" "rev path"] by simp
  show "piece_ok (SourceFile_of_array path)"
    "piece_string (SourceFile_of_array path) = rev (takeWhile (\<lambda>c. c \<noteq> CHR ''/'') (rev path))"
    unfolding n using assms le
    by (auto simp: SourceFile_of_array_def strrchr_def Let_def StringPiece_of_range_def piece_ok_def piece_string_def
        rev_take nat_add_distrib nat_diff_distrib)
qed

lemma takeWhile_c_string [simp]:
  "CHR 0x00 \<notin> set func \<Longrightarrow> takeWhile (\<lambda>c. c \<noteq> CHR 0x00) (func @ CHR 0x00 # rest) = func"
  by (induction func) auto

lemma line_args_text:
  assumes "log_statement_ok gmtime gettid strerror print_g s"
  defines "args \<equiv> line_args gmtime gettid strerror (ls_site s) (SourceFile_of_array (ls_path s)) (ls_line s) (ls_now s) (ls_args s)"
  shows "concat (map (log_text print_g) args) = log_line gmtime gettid strerror print_g s"
    and "\<forall>arg \<in> set args. log_arg_ok print_g arg"
proof -
  have s: "log_statement_ok gmtime gettid strerror print_g s" by (rule assms)
  have now: "ls_now s sdiv kMicroSecondsPerSecond = ls_now s div 10 ^ 6" "ls_now s smod kMicroSecondsPerSecond = ls_now s mod 10 ^ 6"
    using s by (simp_all add: log_statement_ok_def sdiv_nonneg smod_nonneg kMicroSecondsPerSecond_def)
  note base = SourceFile_base [of "ls_path s"]
  have ok: "length (ls_path s) < 2 ^ 31 - 1" using s by (simp add: log_statement_ok_def)
  have site: "concat (map (log_text print_g) (site_args strerror (ls_site s))) = site_text strerror (ls_site s)"
    "\<forall>arg \<in> set (site_args strerror (ls_site s)). log_arg_ok print_g arg"
    using s by (auto simp: site_args_def site_text_def log_statement_ok_def c_string_def split: log_site.splits)
  have head: "concat (map (log_text print_g) (head_args gmtime gettid (ls_now s) level)) =
      time_text (gmtime (ls_now s div 10 ^ 6)) @ ''.'' @ zero_padded 6 (ls_now s mod 10 ^ 6) @ ''Z '' @
      space_padded 5 gettid @ '' '' @ LogLevelName level"
    "\<forall>arg \<in> set (head_args gmtime gettid (ls_now s) level). log_arg_ok print_g arg" for level
    unfolding head_args_def now by simp_all
  have tail: "concat (map (log_text print_g) (tail_args (SourceFile_of_array (ls_path s)) (ls_line s))) =
      '' - '' @ rev (takeWhile (\<lambda>c. c \<noteq> CHR ''/'') (rev (ls_path s))) @ '':'' @ decimal (ls_line s) @ [CHR 0x0A]"
    "\<forall>arg \<in> set (tail_args (SourceFile_of_array (ls_path s)) (ls_line s)). log_arg_ok print_g arg"
    using s base [OF ok] by (simp_all add: tail_args_def log_statement_ok_def)
  show "concat (map (log_text print_g) args) = log_line gmtime gettid strerror print_g s"
    unfolding args_def line_args_def log_line_def by (simp only: map_append concat_append site(1) head(1) tail(1) append_assoc)
  show "\<forall>arg \<in> set args. log_arg_ok print_g arg"
    using s site(2) head(2) tail(2) unfolding args_def line_args_def by (auto simp: log_statement_ok_def)
qed

lemma Logger_log_line:
  assumes th: "log_thread_ok gmtime gettid th" and tid: "0 < gettid" "gettid < 2 ^ 31"
    and s: "log_statement_ok gmtime gettid strerror print_g s"
  shows "\<exists>th1. log_thread_ok gmtime gettid th1 \<and>
    Logger_log gmtime gettid strerror print_g (ls_memory s) (ls_site s) (SourceFile_of_array (ls_path s)) (ls_line s) (ls_now s) (ls_args s) th =
      Inr (log_written gmtime gettid strerror print_g s, site_level (ls_site s) = FATAL, th1)"
proof -
  let ?args = "line_args gmtime gettid strerror (ls_site s) (SourceFile_of_array (ls_path s)) (ls_line s) (ls_now s) (ls_args s)"
  let ?b = "FixedBuffer_new (ls_memory s)"
  have now: "10 ^ 6 \<le> ls_now s" and sec: "ls_now s sdiv kMicroSecondsPerSecond = ls_now s div 10 ^ 6"
    and gm: "tm_ok (gmtime (ls_now s div 10 ^ 6))" and mem: "length (ls_memory s) = kSmallBuffer"
    using s by (simp_all add: log_statement_ok_def sdiv_nonneg kMicroSecondsPerSecond_def)
  obtain th1 where th1: "log_thread_ok gmtime gettid th1" and run:
    "Logger_log gmtime gettid strerror print_g (ls_memory s) (ls_site s) (SourceFile_of_array (ls_path s)) (ls_line s) (ls_now s) (ls_args s) th =
      andThen (foldR (LogStream_put print_g) ?b ?args)
        (\<lambda>b. andThen (FixedBuffer_toString b) (\<lambda>msg. Inr (msg, site_level (ls_site s) = FATAL, th1)))"
    using Logger_log_puts [OF th gm [folded sec] now tid] by blast
  have wf: "FixedBuffer_wf ?b" "length (fb_data ?b) = kSmallBuffer" "FixedBuffer_content ?b = []"
    using mem by (simp_all add: FixedBuffer_new_def FixedBuffer_wf_def kSmallBuffer_def kLargeBuffer_def FixedBuffer_content_def)
  obtain b where b: "foldR (LogStream_put print_g) ?b ?args = Inr b"
    "stream_holds ?b (fold (log_append kSmallBuffer print_g) ?args []) b"
    using LogStream_put_all [OF wf(1) line_args_text(2) [OF s]] wf(2,3) by auto
  then show ?thesis
    using FixedBuffer_toStringPiece_ok(3) [of b] th1 run
    by (intro exI [of _ th1]) (simp add: stream_holds_def log_written_def)
qed

lemma log_written_line:
  assumes "log_statement_ok gmtime gettid strerror print_g s"
    and "length (log_line gmtime gettid strerror print_g s) + 32 \<le> kSmallBuffer"
  shows "log_written gmtime gettid strerror print_g s = log_line gmtime gettid strerror print_g s"
  using assms(2) line_args_text(1) [OF assms(1)] log_append_fits [of "[]" print_g _ kSmallBuffer]
  by (simp add: log_written_def)

text \<open>
  C38: log lines. A thread that logs, from its first statement on and with its cached id and second, writes
  for every statement one line. Where the line and the 32 characters that a number may need fit in the
  stream's 4000 bytes, it says all: time to the microsecond in 26 characters, thread, level,
  the error of the last call where the statement asks for it, the text of the arguments, and the last part
  of the file name with the line number. Of a longer line the parts that still fit are written and the others, the file
  name and the newline too, are left out. The process ends after the first fatal line and not before. (A
  statement in the very first second of 1970 would fail an assertion: the cache says that its time is known.)
\<close>

theorem Logger_lines:
  assumes "0 < gettid" and "gettid < 2 ^ 31" and "\<forall>s \<in> set statements. log_statement_ok gmtime gettid strerror print_g s"
  shows "Logger_run gmtime gettid strerror print_g statements log_thread_new =
      Inr (map (log_written gmtime gettid strerror print_g) (until_fatal statements)) \<and>
    (\<forall>s \<in> set statements. length (log_line gmtime gettid strerror print_g s) + 32 \<le> kSmallBuffer \<longrightarrow>
      log_written gmtime gettid strerror print_g s = log_line gmtime gettid strerror print_g s) \<and>
    (\<forall>s site file line now args mem. 0 \<le> now \<and> now < 10 ^ 6 \<longrightarrow>
      Logger_log gmtime gettid strerror print_g mem site file line now args log_thread_new = Inl Assert_failed)"
proof (intro conjI)
  have "Logger_run gmtime gettid strerror print_g statements th =
      Inr (map (log_written gmtime gettid strerror print_g) (until_fatal statements))" if "log_thread_ok gmtime gettid th" for th
    using assms(3) that
  proof (induction statements arbitrary: th)
    case (Cons s ss)
    then obtain th1 where "log_thread_ok gmtime gettid th1"
      "Logger_log gmtime gettid strerror print_g (ls_memory s) (ls_site s) (SourceFile_of_array (ls_path s)) (ls_line s) (ls_now s) (ls_args s) th =
        Inr (log_written gmtime gettid strerror print_g s, site_level (ls_site s) = FATAL, th1)"
      using Logger_log_line [OF Cons.prems(2) assms(1,2), of strerror print_g s] by auto
    then show ?case using Cons.IH [of th1] Cons.prems(1) by simp
  qed simp
  then show "Logger_run gmtime gettid strerror print_g statements log_thread_new =
      Inr (map (log_written gmtime gettid strerror print_g) (until_fatal statements))"
    by (simp add: log_thread_ok_def log_thread_new_def)
  show "\<forall>s \<in> set statements. length (log_line gmtime gettid strerror print_g s) + 32 \<le> kSmallBuffer \<longrightarrow>
      log_written gmtime gettid strerror print_g s = log_line gmtime gettid strerror print_g s"
    using assms(3) log_written_line by blast
  have "Impl_formatTime gmtime now log_thread_new b = Inl Assert_failed" if "0 \<le> now" "now < 10 ^ 6" for now b
    using that length_micro [of now]
    by (simp add: Impl_formatTime_def sdiv_nonneg kMicroSecondsPerSecond_def log_thread_new_def Let_def Fmt_new_def LogStream_put_T_def)
  then show "\<forall>s site file line now args mem. 0 \<le> now \<and> now < 10 ^ 6 \<longrightarrow>
      Logger_log gmtime gettid strerror print_g mem site file line now args log_thread_new = Inl Assert_failed"
    by (auto simp: Logger_log_def Logger_new_def Impl_new_def Let_def split: log_site.split)
qed

lemma Logger_lines_witness:
  "Logger_run (\<lambda>s. \<lparr>tm_year = 124, tm_mon = 0, tm_mday = 2, tm_hour = 3, tm_min = 4, tm_sec = 5\<rparr>) 42 (\<lambda>e. [CHR 0x00]) (\<lambda>x. [])
      [\<lparr>ls_site = Log_plain, ls_path = ''net/a.cc'', ls_line = 7, ls_now = 1704164645000006,
         ls_args = [Log_string ''n='', Log_integer (- 3)], ls_memory = replicate kSmallBuffer (CHR ''?'')\<rparr>] log_thread_new =
    Inr [''20240102 03:04: 5.000006Z    42 INFO  n=-3 - a.cc:7'' @ [CHR 0x0A]]"
proof -
  define gmtime :: "int \<Rightarrow> tm" where "gmtime = (\<lambda>s. \<lparr>tm_year = 124, tm_mon = 0, tm_mday = 2, tm_hour = 3, tm_min = 4, tm_sec = 5\<rparr>)"
  define s where "s = (\<lambda>mem. \<lparr>ls_site = Log_plain, ls_path = ''net/a.cc'', ls_line = 7, ls_now = 1704164645000006,
         ls_args = [Log_string ''n='', Log_integer (- 3)], ls_memory = mem\<rparr>)"
  have line: "log_line gmtime 42 (\<lambda>e. [CHR 0x00]) (\<lambda>x. []) (s mem) = ''20240102 03:04: 5.000006Z    42 INFO  n=-3 - a.cc:7'' @ [CHR 0x0A]" for mem
  proof -
    have "time_text (gmtime 1704164645) = ''20240102 03:04: 5''" "zero_padded 6 6 = ''000006''" "space_padded 5 42 = ''   42''"
      "decimal (- 3) = ''-3''" "decimal 7 = ''7''" "rev (takeWhile (\<lambda>c. c \<noteq> CHR ''/'') (rev ''net/a.cc'')) = ''a.cc''"
      unfolding gmtime_def by code_simp+
    then show ?thesis by (simp add: log_line_def s_def site_text_def)
  qed
  let ?s = "s (replicate kSmallBuffer (CHR ''?''))"
  have "log_statement_ok gmtime 42 (\<lambda>e. [CHR 0x00]) (\<lambda>x. []) ?s"
    unfolding log_statement_ok_def by (simp add: s_def gmtime_def tm_ok_def)
  moreover have "length (log_line gmtime 42 (\<lambda>e. [CHR 0x00]) (\<lambda>x. []) ?s) + 32 \<le> kSmallBuffer"
    unfolding line by (simp add: kSmallBuffer_def)
  moreover have "until_fatal [?s] = [?s]" by (simp add: s_def)
  ultimately have "Logger_run gmtime 42 (\<lambda>e. [CHR 0x00]) (\<lambda>x. []) [?s] log_thread_new =
      Inr [log_line gmtime 42 (\<lambda>e. [CHR 0x00]) (\<lambda>x. []) ?s]"
    using Logger_lines [of 42 "[?s]" gmtime "\<lambda>e. [CHR 0x00]" "\<lambda>x. []"] by (simp del: Logger_run.simps)
  then show ?thesis unfolding line by (simp add: gmtime_def s_def)
qed

end
