(* ===== verification/Date.thy ===== *)
theory Date
  imports Timestamp
begin

text \<open>
  \<open>src/muduo/base/Date.h\<close>, \<open>Date.cpp\<close>: dates as Julian day numbers; division truncates towards zero, as
  in C++. The two conversions are written on unbounded integers, and beside each of them, line by line, the
  condition that no value it computes leaves the 32 bits of an \<open>int\<close>: an \<open>int\<close> that overflows is undefined
  behaviour, which \<open>getJulianDayNumber_checked\<close> and \<open>getYearMonthDay_checked\<close> return. Where the
  condition holds, and C39 says exactly for which dates, the unbounded function is what the code computes.
\<close>

record year_month_day =
  ymd_year :: int
  ymd_month :: int
  ymd_day :: int

type_synonym date = int   \<comment> \<open>\<open>julianDayNumber_\<close>\<close>

definition kDaysPerWeek :: int where
  "kDaysPerWeek = 7"

definition getJulianDayNumber :: "int \<Rightarrow> int \<Rightarrow> int \<Rightarrow> int" where
  "getJulianDayNumber year month day =
     (let a = (14 - month) sdiv 12;
          y = year + 4800 - a;
          m = month + 12 * a - 3
      in day + (153 * m + 2) sdiv 5 + 365 * y + y sdiv 4 - y sdiv 100 + y sdiv 400 - 32045)"

definition getYearMonthDay :: "int \<Rightarrow> year_month_day" where
  "getYearMonthDay julianDayNumber =
     (let a = julianDayNumber + 32044;
          b = (4 * a + 3) sdiv 146097;
          c = a - (b * 146097) sdiv 4;
          d = (4 * c + 3) sdiv 1461;
          e = c - (1461 * d) sdiv 4;
          m = (5 * e + 2) sdiv 153
      in \<lparr>ymd_year = b * 100 + d - 4800 + m sdiv 10,
          ymd_month = m + 3 - 12 * (m sdiv 10),
          ymd_day = e - (153 * m + 2) sdiv 5 + 1\<rparr>)"

section \<open>Thirty-two bits\<close>

definition fits_int :: "int \<Rightarrow> bool" where
  "fits_int v \<longleftrightarrow> - (2 ^ 31) \<le> v \<and> v < 2 ^ 31"

definition getJulianDayNumber_fits :: "int \<Rightarrow> int \<Rightarrow> int \<Rightarrow> bool" where
  "getJulianDayNumber_fits year month day =
     (let a = (14 - month) sdiv 12;
          y = year + 4800 - a;
          m = month + 12 * a - 3;
          s1 = day + (153 * m + 2) sdiv 5;
          s2 = s1 + 365 * y;
          s3 = s2 + y sdiv 4;
          s4 = s3 - y sdiv 100;
          s5 = s4 + y sdiv 400
      in list_all fits_int [year, month, day, 14 - month, year + 4800, y, 12 * a, month + 12 * a, m,
           153 * m, 153 * m + 2, s1, 365 * y, s2, s3, s4, s5, s5 - 32045])"

definition getYearMonthDay_fits :: "int \<Rightarrow> bool" where
  "getYearMonthDay_fits julianDayNumber =
     (let a = julianDayNumber + 32044;
          b = (4 * a + 3) sdiv 146097;
          c = a - (b * 146097) sdiv 4;
          d = (4 * c + 3) sdiv 1461;
          e = c - (1461 * d) sdiv 4;
          m = (5 * e + 2) sdiv 153
      in list_all fits_int [julianDayNumber, a, 4 * a, 4 * a + 3, b * 146097, c, 4 * c, 4 * c + 3,
           1461 * d, e, 5 * e, 5 * e + 2,
           153 * m, 153 * m + 2, e - (153 * m + 2) sdiv 5, e - (153 * m + 2) sdiv 5 + 1,
           m + 3, 12 * (m sdiv 10), m + 3 - 12 * (m sdiv 10),
           b * 100, b * 100 + d, b * 100 + d - 4800, b * 100 + d - 4800 + m sdiv 10])"

definition getJulianDayNumber_checked :: "int \<Rightarrow> int \<Rightarrow> int \<Rightarrow> int result" where
  "getJulianDayNumber_checked year month day =
     (if getJulianDayNumber_fits year month day then Inr (getJulianDayNumber year month day)
      else Inl Undefined_behaviour)"

definition getYearMonthDay_checked :: "int \<Rightarrow> year_month_day result" where
  "getYearMonthDay_checked julianDayNumber =
     (if getYearMonthDay_fits julianDayNumber then Inr (getYearMonthDay julianDayNumber)
      else Inl Undefined_behaviour)"

text \<open>The last day number that \<open>getYearMonthDay\<close> converts: \<open>4 * a + 3\<close> is the largest \<open>int\<close>.\<close>

definition last_date :: int where
  "last_date = 536838867"

section \<open>The class\<close>

definition kJulianDayOf1970_01_01 :: int where
  "kJulianDayOf1970_01_01 = getJulianDayNumber 1970 1 1"

definition Date_default :: date where
  "Date_default = 0"

definition Date_new :: "int \<Rightarrow> int \<Rightarrow> int \<Rightarrow> date" where
  "Date_new y m d = getJulianDayNumber y m d"

definition Date_of_julian :: "int \<Rightarrow> date" where
  "Date_of_julian julianDayNum = julianDayNum"

definition Date_of_tm :: "int \<Rightarrow> int \<Rightarrow> int \<Rightarrow> date" where
  "Date_of_tm tm_year tm_mon tm_mday = getJulianDayNumber (tm_year + 1900) (tm_mon + 1) tm_mday"

definition Date_valid :: "date \<Rightarrow> bool" where
  "Date_valid date \<longleftrightarrow> 0 < date"

definition Date_yearMonthDay :: "date \<Rightarrow> year_month_day" where
  "Date_yearMonthDay date = getYearMonthDay date"

definition Date_year :: "date \<Rightarrow> int" where "Date_year date = ymd_year (Date_yearMonthDay date)"
definition Date_month :: "date \<Rightarrow> int" where "Date_month date = ymd_month (Date_yearMonthDay date)"
definition Date_day :: "date \<Rightarrow> int" where "Date_day date = ymd_day (Date_yearMonthDay date)"

definition Date_weekDay :: "date \<Rightarrow> int" where
  "Date_weekDay date = (date + 1) smod kDaysPerWeek"

definition Date_toIsoString :: "date \<Rightarrow> string" where
  "Date_toIsoString date =
     (let ymd = Date_yearMonthDay date
      in snprintf 32 (zero_padded 4 (ymd_year ymd) @ ''-'' @ zero_padded 2 (ymd_month ymd) @ ''-'' @ zero_padded 2 (ymd_day ymd)))"

definition Date_less :: "date \<Rightarrow> date \<Rightarrow> bool" where "Date_less x y \<longleftrightarrow> x < y"
definition Date_equal :: "date \<Rightarrow> date \<Rightarrow> bool" where "Date_equal x y \<longleftrightarrow> x = y"

section \<open>The calendar\<close>

text \<open>The Gregorian calendar, from its rules: the days of a month, and the day after a day.\<close>

definition leap_year :: "int \<Rightarrow> bool" where
  "leap_year y \<longleftrightarrow> 4 dvd y \<and> (100 dvd y \<longrightarrow> 400 dvd y)"

definition month_days :: "int \<Rightarrow> int \<Rightarrow> int" where
  "month_days y m = (if m = 2 then (if leap_year y then 29 else 28) else if m \<in> {4, 6, 9, 11} then 30 else 31)"

definition date_ok :: "int \<Rightarrow> int \<Rightarrow> int \<Rightarrow> bool" where
  "date_ok y m d \<longleftrightarrow> 1 \<le> m \<and> m \<le> 12 \<and> 1 \<le> d \<and> d \<le> month_days y m"

definition next_day :: "int \<times> int \<times> int \<Rightarrow> int \<times> int \<times> int" where
  "next_day = (\<lambda>(y, m, d).
     if d < month_days y m then (y, m, d + 1) else if m < 12 then (y, m + 1, 1) else (y + 1, 1, 1))"

text \<open>The day number, by floor division; \<open>y + 4800\<close> counts years from a March.\<close>

lemma month_cases: "1 \<le> m \<Longrightarrow> m \<le> 12 \<Longrightarrow> m \<in> {1, 2, 3, 4, 5, 6, 7, 8, 9, 10, 11, 12 :: int}"
  by simp arith

lemma julian_floor:
  assumes "- 4800 < y" and "1 \<le> m" and "m \<le> 12"
  shows "getJulianDayNumber y m d =
    (let y' = y + 4800 - (if m \<le> 2 then 1 else 0); m' = (if m \<le> 2 then m + 9 else m - 3)
     in d + (153 * m' + 2) div 5 + 365 * y' + y' div 4 - y' div 100 + y' div 400 - 32045)"
proof -
  have a: "(14 - m) sdiv 12 = (if m \<le> 2 then 1 else 0)"
    using month_cases [OF assms(2,3)] by (auto simp: sdiv_nonneg)
  have n: "0 \<le> 153 * (m + 12 * (if m \<le> 2 then 1 else 0) - 3) + 2" "0 \<le> y + 4800 - (if m \<le> 2 then 1 else 0)"
    using assms by simp_all
  show ?thesis
    unfolding getJulianDayNumber_def Let_def a using n by (simp add: sdiv_nonneg)
qed

definition leap_days :: "int \<Rightarrow> int" where
  "leap_days y = y div 4 - y div 100 + y div 400"

lemma div_step:
  fixes x k :: int
  assumes "0 < k"
  shows "(x + 1) div k = x div k + (if k dvd x + 1 then 1 else 0)"
proof (cases "k dvd x + 1")
  case True
  then obtain j where j: "x + 1 = k * j" by (rule dvdE)
  have "x div k = j - 1" by (rule int_div_pos_eq [where r = "k - 1"]) (use assms j in \<open>simp_all add: algebra_simps\<close>)
  moreover have "(x + 1) div k = j" using j assms by simp
  ultimately show ?thesis using True by simp
next
  case False
  define r where "r = x mod k"
  have r: "0 \<le> r" "r < k" "x = k * (x div k) + r" using assms by (simp_all add: r_def)
  have "r + 1 \<noteq> k"
  proof
    assume "r + 1 = k"
    then have "x + 1 = k * (x div k + 1)" using r(3) by (simp add: algebra_simps)
    then show False using False by (metis dvd_triv_left)
  qed
  then have "(x + 1) div k = x div k" using r by (intro int_div_pos_eq [where r = "r + 1"]) simp_all
  then show ?thesis using False by simp
qed

lemma leap_days_step: "leap_days (y + 4800) = leap_days (y + 4799) + (if leap_year y then 1 else 0)"
proof -
  have d: "4 dvd y + 4800 \<longleftrightarrow> 4 dvd y" "100 dvd y + 4800 \<longleftrightarrow> 100 dvd y" "400 dvd y + 4800 \<longleftrightarrow> 400 dvd y"
    by (rule dvd_add_left_iff, simp)+
  have c: "400 dvd y \<Longrightarrow> 100 dvd y" "100 dvd y \<Longrightarrow> 4 dvd y"
    using dvd_trans [of 100 400 y] dvd_trans [of 4 100 y] by simp_all
  have e: "y + 4799 + 1 = y + 4800" by simp
  have s: "(y + 4800) div 4 = (y + 4799) div 4 + (if 4 dvd y then 1 else 0)"
    "(y + 4800) div 100 = (y + 4799) div 100 + (if 100 dvd y then 1 else 0)"
    "(y + 4800) div 400 = (y + 4799) div 400 + (if 400 dvd y then 1 else 0)"
    using div_step [of 4 "y + 4799"] div_step [of 100 "y + 4799"] div_step [of 400 "y + 4799"] unfolding e d by simp_all
  show ?thesis unfolding leap_days_def leap_year_def s using c by (auto simp only: split: if_splits)
qed

lemma leap_days_nonneg: "0 \<le> y \<Longrightarrow> 0 \<le> leap_days y"
  unfolding leap_days_def using zdiv_mono2 [of y 4 100] by (simp add: pos_imp_zdiv_nonneg_iff)

lemma leap_year_shift: "leap_year (y + 4800) = leap_year y"
proof -
  have "4 dvd y + 4800 \<longleftrightarrow> 4 dvd y" "100 dvd y + 4800 \<longleftrightarrow> 100 dvd y" "400 dvd y + 4800 \<longleftrightarrow> 400 dvd y"
    by (rule dvd_add_left_iff, simp)+
  then show ?thesis by (simp only: leap_year_def)
qed

lemma julian_march:
  assumes "- 4800 < y" and "1 \<le> m" and "m \<le> 12"
  shows "getJulianDayNumber y m d =
    (if m \<le> 2 then d + (153 * (m + 9) + 2) div 5 + 365 * (y + 4799) + leap_days (y + 4799) - 32045
     else d + (153 * (m - 3) + 2) div 5 + 365 * (y + 4800) + leap_days (y + 4800) - 32045)"
  using julian_floor [OF assms, of d] by (simp add: Let_def leap_days_def add.commute)

lemma julian_next_day:
  assumes y: "- 4800 < y" and ok: "date_ok y m d" and n: "next_day (y, m, d) = (y', m', d')"
  shows "getJulianDayNumber y' m' d' = getJulianDayNumber y m d + 1"
proof -
  have m: "1 \<le> m" "m \<le> 12" and d: "d \<le> month_days y m" using ok by (simp_all add: date_ok_def)
  consider "d < month_days y m" | "d = month_days y m" "m < 12" | "d = month_days y m" "m = 12"
    using m d by linarith
  then show ?thesis
  proof cases
    case 1
    then have "(y', m', d') = (y, m, d + 1)" using n by (simp add: next_day_def)
    then show ?thesis by (simp add: getJulianDayNumber_def Let_def)
  next
    case 2
    then have e: "y' = y" "m' = m + 1" "d' = 1" using n by (simp_all add: next_day_def)
    have "1 \<le> m + 1" "m + 1 \<le> 12" using m 2 by simp_all
    note j = julian_march [OF y this] julian_march [OF y m]
    show ?thesis
      using month_cases [OF m] 2 leap_days_step [of y] unfolding e j
      by (elim insertE emptyE) (simp_all add: month_days_def)
  next
    case 3
    then have e: "y' = y + 1" "m' = 1" "d' = 1" using n by (simp_all add: next_day_def)
    have "- 4800 < y + 1" using y by simp
    then show ?thesis unfolding e using 3 y by (simp add: julian_march month_days_def algebra_simps)
  qed
qed

section \<open>Back\<close>

text \<open>The inverse, one quantity at a time: century, year of the century, month. \<open>n\<close> is the day of a year
  that begins in March.\<close>

lemma year_of_days:
  fixes y n :: int
  assumes y: "0 \<le> y" and n: "0 \<le> n" "n < 365 + (if leap_year (y + 1) then 1 else 0)"
  defines "a \<equiv> 365 * y + leap_days y + n"
  defines "b \<equiv> (4 * a + 3) div 146097"
  defines "c \<equiv> a - (b * 146097) div 4"
  shows "b = y div 100" and "0 \<le> c" and "(4 * c + 3) div 1461 = y mod 100" and "c - (1461 * (y mod 100)) div 4 = n"
proof -
  define q s where "q = y div 100" and "s = y mod 100"
  define q4 r4 where "q4 = q div 4" and "r4 = q mod 4"
  define s4 t4 where "s4 = s div 4" and "t4 = s mod 4"
  have q: "q = 4 * q4 + r4" "0 \<le> r4" "r4 < 4" "0 \<le> q4" "0 \<le> q" and s: "s = 4 * s4 + t4" "0 \<le> t4" "t4 < 4" "0 \<le> s4" "0 \<le> s" "s < 100"
    and yq: "y = 100 * q + s"
    using y by (simp_all add: q_def s_def q4_def r4_def s4_def t4_def pos_imp_zdiv_nonneg_iff)
  have leap: "t4 = 3" "s = 99 \<longrightarrow> r4 = 3" if "leap_year (y + 1)"
  proof -
    have four: "4 dvd y + 1" using that by (simp add: leap_year_def)
    then show "t4 = 3" unfolding yq t4_def by presburger
    show "s = 99 \<longrightarrow> r4 = 3"
    proof
      assume "s = 99"
      then have "y + 1 = 100 * (q + 1)" using yq by simp
      then have "400 dvd 100 * (q + 1)" using that by (simp only: leap_year_def) simp
      then have "4 dvd q + 1" by presburger
      then show "r4 = 3" unfolding r4_def by presburger
    qed
  qed
  have n2: "n \<le> 365" "t4 \<noteq> 3 \<longrightarrow> n \<le> 364" "s = 99 \<and> r4 \<noteq> 3 \<longrightarrow> n \<le> 364" using n leap by (auto split: if_splits)
  have d: "y div 4 = 25 * q + s4" "y div 100 = q" "y div 400 = q4"
  proof -
    show "y div 4 = 25 * q + s4" by (rule int_div_pos_eq [where r = t4]) (use s yq in simp_all)
    show "y div 100 = q" by (simp add: q_def)
    show "y div 400 = q4" by (rule int_div_pos_eq [where r = "100 * r4 + s"]) (use s(5,6) q(1-3) yq in simp_all)
  qed
  define u where "u = 365 * s + s4 + n"
  have a: "a = 36524 * q + q4 + u" unfolding a_def leap_days_def d u_def by (simp add: yq)
  have s4: "4 * s4 = s - t4" using s(1) by simp
  have u: "0 \<le> u" "4 * u + 3 - r4 < 146097"
  proof -
    show "0 \<le> u" using s n(1) by (simp add: u_def)
    show "4 * u + 3 - r4 < 146097"
    proof (cases "s = 99")
      case True
      then have "t4 = 3" by (simp add: t4_def)
      then show ?thesis using True n2 s4 q(2,3) by (cases "r4 = 3") (simp_all add: u_def)
    next
      case False
      then show ?thesis using s(2,3,6) s4 n2(1) q(2) by (simp add: u_def)
    qed
  qed
  have "4 * a + 3 = 146097 * q + (4 * u + 3 - r4)" using q by (simp add: a)
  then have b: "b = q" unfolding b_def by (rule int_div_pos_eq [where r = "4 * u + 3 - r4"]) (use u q(2,3) in simp_all)
  have "(q * 146097) div 4 = 36524 * q + q4" by (rule int_div_pos_eq [where r = r4]) (use q(1-3) in simp_all)
  then have c: "c = u" by (simp add: c_def b a)
  have n3: "4 * n + 3 - t4 < 1461" using n2(1,2) s(2) by (cases "t4 = 3") simp_all
  have "4 * u + 3 = 1461 * s + (4 * n + 3 - t4)" using s4 by (simp add: u_def)
  then have dd: "(4 * c + 3) div 1461 = s" unfolding c by (rule int_div_pos_eq [where r = "4 * n + 3 - t4"]) (use n(1) n3 s(3) in simp_all)
  have "(1461 * s) div 4 = 365 * s + s4" by (rule int_div_pos_eq [where r = t4]) (use s(1-3) in simp_all)
  then show "b = y div 100" "0 \<le> c" "(4 * c + 3) div 1461 = y mod 100" "c - (1461 * (y mod 100)) div 4 = n"
    using b c dd u d(2) by (simp_all add: s_def [symmetric] u_def)
qed

lemma month_of_days:
  fixes m d :: int
  assumes "0 \<le> m" and "m \<le> 11" and "1 \<le> d" and "d \<le> (if m = 11 then 29 else if m \<in> {1, 3, 6, 8} then 30 else 31)"
  defines "n \<equiv> (153 * m + 2) div 5 + d - 1"
  shows "(5 * n + 2) div 153 = m" and "0 \<le> n" and "m = 11 \<longrightarrow> n = d + 336" and "m < 11 \<longrightarrow> n \<le> 336"
proof -
  have "m \<in> {0, 1, 2, 3, 4, 5, 6, 7, 8, 9, 10, 11}" using assms(1,2) by simp arith
  then show "(5 * n + 2) div 153 = m" "0 \<le> n" "m = 11 \<longrightarrow> n = d + 336" "m < 11 \<longrightarrow> n \<le> 336"
    using assms(3,4) unfolding n_def
    by (elim insertE emptyE; simp; presburger)+
qed


lemma march_year:
  assumes y: "- 4800 < y" and ok: "date_ok y m d"
  shows "getYearMonthDay (getJulianDayNumber y m d) = \<lparr>ymd_year = y, ymd_month = m, ymd_day = d\<rparr>"
proof -
  define late where "late \<longleftrightarrow> m \<le> 2"
  define Y where "Y = y + 4800 - (if late then 1 else 0)"
  define M where "M = (if late then m + 9 else m - 3)"
  define n where "n = (153 * M + 2) div 5 + d - 1"
  define a where "a = 365 * Y + leap_days Y + n"
  define b where "b = (4 * a + 3) div 146097"
  define c where "c = a - (b * 146097) div 4"
  have m: "1 \<le> m" "m \<le> 12" and d: "1 \<le> d" "d \<le> month_days y m" using ok by (simp_all add: date_ok_def)
  have Y: "0 \<le> Y" using y by (simp add: Y_def)
  have M: "0 \<le> M" "M \<le> 11" using m by (simp_all add: M_def late_def)
  have leap: "leap_year (Y + 1) \<longleftrightarrow> leap_year y" if late using that leap_year_shift [of y] by (simp add: Y_def add.commute)
  have dM: "d \<le> (if M = 11 then 29 else if M \<in> {1, 3, 6, 8} then 30 else 31)"
    using month_cases [OF m] d(2) by (elim insertE emptyE) (auto simp: M_def late_def month_days_def split: if_splits)
  note month = month_of_days [OF M d(1) dM, folded n_def]
  have feb: "M = 11 \<Longrightarrow> late \<and> m = 2" using m by (auto simp: M_def late_def split: if_splits)
  have n: "n < 365 + (if leap_year (Y + 1) then 1 else 0)"
  proof (cases "M = 11")
    case True
    then show ?thesis using month(3) feb d(2) leap by (auto simp: month_days_def split: if_splits)
  next
    case False
    then show ?thesis using month(4) M by auto
  qed
  note forth = year_of_days [OF Y month(2) n, folded a_def, folded b_def, folded c_def]
  have j: "getJulianDayNumber y m d + 32044 = a"
    using julian_march [OF y m, of d] by (simp add: a_def n_def Y_def M_def late_def add.commute split: if_splits)
  have pos: "0 \<le> a" "0 \<le> b" using Y month(2) by (simp_all add: a_def leap_days_nonneg b_def pos_imp_zdiv_nonneg_iff)
  have ten: "M sdiv 10 = (if late then 1 else 0)"
    using M m by (auto simp: sdiv_nonneg M_def late_def)
  have q: "b * 100 + Y mod 100 = Y" using forth(1) by simp
  have e1: "(4 * a + 3) sdiv 146097 = b" "(b * 146097) sdiv 4 = (b * 146097) div 4" "(153 * M + 2) sdiv 5 = (153 * M + 2) div 5"
    using pos M by (simp_all add: sdiv_nonneg b_def)
  have e2: "(4 * c + 3) sdiv 1461 = Y mod 100" "(1461 * (Y mod 100)) sdiv 4 = (1461 * (Y mod 100)) div 4"
    using forth(2,3) by (simp_all add: sdiv_nonneg)
  have e3: "(5 * n + 2) sdiv 153 = M" using month(1,2) by (simp add: sdiv_nonneg)
  have "getYearMonthDay (getJulianDayNumber y m d) =
    \<lparr>ymd_year = b * 100 + Y mod 100 - 4800 + (if late then 1 else 0), ymd_month = M + 3 - 12 * (if late then 1 else 0),
     ymd_day = n - (153 * M + 2) div 5 + 1\<rparr>"
    unfolding getYearMonthDay_def Let_def j e1(1) e1(2) c_def [symmetric] e2 forth(4) e3 ten e1(3) ..
  then show ?thesis unfolding q by (simp add: Y_def M_def n_def)
qed


lemma next_day_ok:
  "date_ok y m d \<Longrightarrow> next_day (y, m, d) = (y', m', d') \<Longrightarrow> date_ok y' m' d' \<and> y \<le> y'"
  by (auto simp: date_ok_def next_day_def month_days_def split: if_splits)

text \<open>Every day number from the first day of the year -4799 on is the number of a date.\<close>

lemma julian_onto:
  fixes j :: int
  assumes "- 31738 \<le> j"
  shows "\<exists>y m d. - 4800 < y \<and> date_ok y m d \<and> getJulianDayNumber y m d = j"
  using assms
proof (induction j rule: int_ge_induct)
  case base
  have "date_ok (- 4799) 1 1" "getJulianDayNumber (- 4799) 1 1 = - 31738"
    by (simp_all add: date_ok_def month_days_def getJulianDayNumber_def sdiv_nonneg)
  then show ?case by force
next
  case (step j)
  then obtain y m d where ymd: "- 4800 < y" "date_ok y m d" "getJulianDayNumber y m d = j" by blast
  obtain y' m' d' where n: "next_day (y, m, d) = (y', m', d')" by (cases "next_day (y, m, d)")
  have "date_ok y' m' d'" "y \<le> y'" "getJulianDayNumber y' m' d' = j + 1"
    using next_day_ok [OF ymd(2) n] julian_next_day [OF ymd(1,2) n] ymd(3) by simp_all
  then show ?case using ymd(1) by (metis less_le_trans)
qed

lemma mod_seven: "(x + 1) mod 7 = (if x mod 7 = 6 then 0 else x mod 7 + 1)" for x :: int
  by presburger

section \<open>No overflow\<close>

lemma div_around:
  fixes x k :: int
  assumes "0 < k"
  shows "k * (x div k) \<le> x" and "x < k * (x div k) + k"
proof -
  have "k * (x div k) + x mod k = x" "0 \<le> x mod k" "x mod k < k" using assms by simp_all
  then show "k * (x div k) \<le> x" and "x < k * (x div k) + k" by linarith+
qed

lemma getYearMonthDay_no_overflow:
  assumes "0 < date" and "date \<le> last_date"
  shows "getYearMonthDay_fits date" and "ymd_year (getYearMonthDay date) \<le> 2000000"
proof -
  define a where "a = date + 32044"
  have a: "0 \<le> a" "a \<le> 536870911" using assms by (simp_all add: a_def last_date_def)
  define b where "b = (4 * a + 3) div 146097"
  have b: "0 \<le> b" "146097 * b \<le> 4 * a + 3" "4 * a + 3 < 146097 * b + 146097"
    using a div_around [of 146097 "4 * a + 3"] by (simp_all add: b_def pos_imp_zdiv_nonneg_iff)
  define k where "k = (b * 146097) div 4"
  have k: "4 * k \<le> b * 146097" "b * 146097 < 4 * k + 4"
    using div_around [of 4 "b * 146097"] by (simp_all add: k_def)
  define c where "c = a - k"
  have c: "0 \<le> c" "c \<le> 36525" using b k by (simp_all add: c_def)
  define d where "d = (4 * c + 3) div 1461"
  have d: "0 \<le> d" "1461 * d \<le> 4 * c + 3" "4 * c + 3 < 1461 * d + 1461"
    using c div_around [of 1461 "4 * c + 3"] by (simp_all add: d_def pos_imp_zdiv_nonneg_iff)
  define l where "l = (1461 * d) div 4"
  have l: "4 * l \<le> 1461 * d" "1461 * d < 4 * l + 4"
    using div_around [of 4 "1461 * d"] by (simp_all add: l_def)
  define e where "e = c - l"
  have e: "0 \<le> e" "e \<le> 366" using d l by (simp_all add: e_def)
  define m where "m = (5 * e + 2) div 153"
  have m: "0 \<le> m" "153 * m \<le> 5 * e + 2" 
    using e div_around [of 153 "5 * e + 2"] by (simp_all add: m_def pos_imp_zdiv_nonneg_iff)
  define u where "u = (153 * m + 2) div 5"
  have u: "5 * u \<le> 153 * m + 2" "0 \<le> u"
    using div_around [of 5 "153 * m + 2"] m by (simp_all add: u_def pos_imp_zdiv_nonneg_iff)
  define t where "t = m div 10"
  have t: "10 * t \<le> m" "0 \<le> t"
    using div_around [of 10 m] m by (simp_all add: t_def pos_imp_zdiv_nonneg_iff)
  have s1: "(4 * a + 3) sdiv 146097 = b" using a by (simp add: sdiv_nonneg b_def)
  have s2: "(b * 146097) sdiv 4 = k" using b by (simp add: sdiv_nonneg k_def)
  have s3: "(4 * c + 3) sdiv 1461 = d" using c by (simp add: sdiv_nonneg d_def)
  have s4: "(1461 * d) sdiv 4 = l" using d by (simp add: sdiv_nonneg l_def)
  have s5: "(5 * e + 2) sdiv 153 = m" using e by (simp add: sdiv_nonneg m_def)
  have s6: "(153 * m + 2) sdiv 5 = u" "m sdiv 10 = t" using m by (simp_all add: sdiv_nonneg u_def t_def)
  have "fits_int date" using assms by (simp add: fits_int_def last_date_def)
  then show "getYearMonthDay_fits date"
    unfolding getYearMonthDay_fits_def Let_def a_def [symmetric] s1 s2 c_def [symmetric] s3 s4
      e_def [symmetric] s5 s6
    using a b(1,2) c d(1,2) e m u t by (simp add: fits_int_def)
  show "ymd_year (getYearMonthDay date) \<le> 2000000"
    unfolding getYearMonthDay_def Let_def a_def [symmetric] s1 s2 c_def [symmetric] s3 s4
      e_def [symmetric] s5 s6
    using a b c d e m t by simp
qed

lemma getYearMonthDay_fits_iff:
  assumes "0 < date"
  shows "getYearMonthDay_fits date \<longleftrightarrow> date \<le> last_date"
proof
  assume "getYearMonthDay_fits date"
  then have "fits_int (4 * (date + 32044) + 3)" unfolding getYearMonthDay_fits_def Let_def by simp
  then show "date \<le> last_date" by (simp add: fits_int_def last_date_def)
qed (rule getYearMonthDay_no_overflow(1) [OF assms])

lemma getJulianDayNumber_no_overflow:
  assumes "- 4800 < y" and "y \<le> 2000000" and "date_ok y m d"
  shows "getJulianDayNumber_fits y m d"
proof -
  have m: "1 \<le> m" "m \<le> 12" and d: "1 \<le> d" "d \<le> 31"
    using assms(3) by (auto simp: date_ok_def month_days_def split: if_splits)
  define Y where "Y = y + 4800 - (14 - m) sdiv 12"
  define M where "M = m + 12 * ((14 - m) sdiv 12) - 3"
  have a: "(14 - m) sdiv 12 = (if m \<le> 2 then 1 else 0)"
    using month_cases [OF m] by (auto simp: sdiv_nonneg)
  have Y: "0 \<le> Y" "Y \<le> 2004800" and M: "0 \<le> M" "M \<le> 11" using assms m a by (auto simp: Y_def M_def)
  define u where "u = (153 * M + 2) sdiv 5"
  define q1 q2 q3 where "q1 = Y sdiv 4" and "q2 = Y sdiv 100" and "q3 = Y sdiv 400"
  have u: "0 \<le> u" "5 * u \<le> 153 * M + 2"
    using div_around [of 5 "153 * M + 2"] M by (simp_all add: u_def sdiv_nonneg pos_imp_zdiv_nonneg_iff)
  have q: "0 \<le> q1" "4 * q1 \<le> Y" "0 \<le> q2" "100 * q2 \<le> Y" "0 \<le> q3" "400 * q3 \<le> Y"
    using div_around(1) [of 4 Y] div_around(1) [of 100 Y] div_around(1) [of 400 Y] Y
    by (simp_all add: q1_def q2_def q3_def sdiv_nonneg pos_imp_zdiv_nonneg_iff)
  show ?thesis
    unfolding getJulianDayNumber_fits_def Let_def Y_def [symmetric] M_def [symmetric]
      u_def [symmetric] q1_def [symmetric] q2_def [symmetric] q3_def [symmetric]
    using assms(1,2) m d Y M u q a by (simp add: fits_int_def)
qed

text \<open>Both ways, on the integers of the machine.\<close>

lemma calendar_iff:
  assumes "0 < date"
  shows "getYearMonthDay_checked date = Inr \<lparr>ymd_year = y, ymd_month = m, ymd_day = d\<rparr> \<longleftrightarrow>
    date \<le> last_date \<and> - 4800 < y \<and> date_ok y m d \<and> getJulianDayNumber_checked y m d = Inr date"
proof
  assume l: "getYearMonthDay_checked date = Inr \<lparr>ymd_year = y, ymd_month = m, ymd_day = d\<rparr>"
  then have last: "date \<le> last_date" and ymd: "getYearMonthDay date = \<lparr>ymd_year = y, ymd_month = m, ymd_day = d\<rparr>"
    using getYearMonthDay_fits_iff [OF assms] by (simp_all add: getYearMonthDay_checked_def split: if_splits)
  obtain y' m' d' where d': "- 4800 < y'" "date_ok y' m' d'" "getJulianDayNumber y' m' d' = date"
    using julian_onto [of date] assms by auto
  then have e: "y' = y" "m' = m" "d' = d" using march_year [OF d'(1,2)] ymd by simp_all
  have "y \<le> 2000000" using getYearMonthDay_no_overflow(2) [OF assms last] ymd by simp
  then show "date \<le> last_date \<and> - 4800 < y \<and> date_ok y m d \<and> getJulianDayNumber_checked y m d = Inr date"
    using last d' getJulianDayNumber_no_overflow [of y m d] unfolding e by (simp add: getJulianDayNumber_checked_def)
next
  assume "date \<le> last_date \<and> - 4800 < y \<and> date_ok y m d \<and> getJulianDayNumber_checked y m d = Inr date"
  then show "getYearMonthDay_checked date = Inr \<lparr>ymd_year = y, ymd_month = m, ymd_day = d\<rparr>"
    using getYearMonthDay_fits_iff [OF assms] march_year [of y m d]
    by (auto simp: getYearMonthDay_checked_def getJulianDayNumber_checked_def split: if_splits)
qed

lemma date_next:
  assumes "0 < date"
  shows "(Date_year (date + 1), Date_month (date + 1), Date_day (date + 1))
       = next_day (Date_year date, Date_month date, Date_day date)"
proof -
  obtain a b c where abc: "- 4800 < a" "date_ok a b c" "getJulianDayNumber a b c = date"
    using julian_onto [of date] assms by auto
  obtain a' b' c' where n: "next_day (a, b, c) = (a', b', c')" by (cases "next_day (a, b, c)")
  have "- 4800 < a'" "date_ok a' b' c'" "getJulianDayNumber a' b' c' = date + 1"
    using next_day_ok [OF abc(2) n] julian_next_day [OF abc(1,2) n] abc(1,3) by simp_all
  then have "getYearMonthDay (date + 1) = \<lparr>ymd_year = a', ymd_month = b', ymd_day = c'\<rparr>"
    using march_year [of a' b' c'] by simp
  then show ?thesis using march_year [OF abc(1,2)] abc(3) n
    by (simp add: Date_year_def Date_month_def Date_day_def Date_yearMonthDay_def)
qed

text \<open>
  C39: dates, in 32-bit integers. A valid \<open>Date\<close> up to the number 536838867 is a day of the Gregorian
  calendar: its year, month and day are computed without an overflow and are the only ones that name a day
  that exists and whose \<open>Date\<close>, again computed without an overflow, it is; below that number, the next number is
  the day after, and the week days advance by one. For every larger number, an \<open>int\<close> overflows in the
  conversion.
\<close>
theorem Date_calendar:
  assumes "Date_valid date"
  shows "(getYearMonthDay_checked date = Inr \<lparr>ymd_year = y, ymd_month = m, ymd_day = d\<rparr>
      \<longleftrightarrow> date \<le> last_date \<and> - 4800 < y \<and> date_ok y m d \<and> getJulianDayNumber_checked y m d = Inr date)
    \<and> (if date \<le> last_date then getYearMonthDay_checked date = Inr (Date_yearMonthDay date)
       else getYearMonthDay_checked date = Inl Undefined_behaviour)
    \<and> (date < last_date \<longrightarrow>
        getYearMonthDay_checked (date + 1) = Inr (Date_yearMonthDay (date + 1)) \<and>
        (Date_year (date + 1), Date_month (date + 1), Date_day (date + 1))
          = next_day (Date_year date, Date_month date, Date_day date) \<and>
        Date_weekDay (date + 1) = (if Date_weekDay date = 6 then 0 else Date_weekDay date + 1))"
proof -
  have pos: "0 < date" "0 < date + 1" using assms by (simp_all add: Date_valid_def)
  have "Date_weekDay (date + 1) = (if Date_weekDay date = 6 then 0 else Date_weekDay date + 1)"
    using pos mod_seven [of "date + 1"] unfolding Date_weekDay_def kDaysPerWeek_def
    by (simp only: smod_nonneg)
  then show ?thesis
    using calendar_iff [OF pos(1), of y m d] date_next [OF pos(1)]
      getYearMonthDay_fits_iff [OF pos(1)] getYearMonthDay_fits_iff [OF pos(2)]
    by (simp add: getYearMonthDay_checked_def Date_yearMonthDay_def)
qed

text \<open>The epoch, and a \<open>Date\<close> whose conversion overflows.\<close>

theorem Date_calendar_witness:
  "getYearMonthDay_checked kJulianDayOf1970_01_01 = Inr \<lparr>ymd_year = 1970, ymd_month = 1, ymd_day = 1\<rparr>
    \<and> Date_day (kJulianDayOf1970_01_01 + 1) = 2
    \<and> getYearMonthDay_checked (Date_of_julian 600000000) = Inl Undefined_behaviour"
proof -
  have k: "kJulianDayOf1970_01_01 = 2440588"
    by (simp add: kJulianDayOf1970_01_01_def getJulianDayNumber_def sdiv_nonneg)
  have v: "Date_valid kJulianDayOf1970_01_01" "Date_valid (Date_of_julian 600000000)"
    by (simp_all add: k Date_valid_def Date_of_julian_def)
  have "date_ok 1970 1 1" "getJulianDayNumber_checked 1970 1 1 = Inr kJulianDayOf1970_01_01"
    using getJulianDayNumber_no_overflow [of 1970 1 1]
    by (simp_all add: date_ok_def month_days_def getJulianDayNumber_checked_def kJulianDayOf1970_01_01_def)
  then have one: "getYearMonthDay_checked kJulianDayOf1970_01_01 = Inr \<lparr>ymd_year = 1970, ymd_month = 1, ymd_day = 1\<rparr>"
    using Date_calendar [OF v(1), of 1970 1 1] by (simp add: k last_date_def)
  then have "Date_yearMonthDay kJulianDayOf1970_01_01 = \<lparr>ymd_year = 1970, ymd_month = 1, ymd_day = 1\<rparr>"
    by (simp add: getYearMonthDay_checked_def Date_yearMonthDay_def split: if_splits)
  moreover have "(Date_year (kJulianDayOf1970_01_01 + 1), Date_month (kJulianDayOf1970_01_01 + 1), Date_day (kJulianDayOf1970_01_01 + 1))
      = next_day (Date_year kJulianDayOf1970_01_01, Date_month kJulianDayOf1970_01_01, Date_day kJulianDayOf1970_01_01)"
    using Date_calendar [OF v(1)] by (simp add: k last_date_def)
  ultimately have "Date_day (kJulianDayOf1970_01_01 + 1) = 2"
    by (simp add: next_day_def month_days_def Date_year_def Date_month_def Date_day_def)
  moreover have "getYearMonthDay_checked (Date_of_julian 600000000) = Inl Undefined_behaviour"
    using Date_calendar [OF v(2)] by (simp add: Date_of_julian_def last_date_def)
  ultimately show ?thesis using one by blast
qed

end
