(* ===== verification/Monitor.thy ===== *)
theory Monitor
  imports Prelude
begin

text \<open>
  \<open>src/muduo/base/Mutex.h\<close>, \<open>Condition.h\<close>: objects that several threads share under one \<open>MutexLock\<close>, with its
  \<open>Condition\<close>s, as a step relation.

  A thread is the list of the instructions it still has to run. The bodies of the methods are lists of
  instructions in the order of the code; what a class does to its members (\<open>Run\<close>) and asks of them
  (\<open>While_wait\<close>, \<open>Assert_not\<close>, \<open>Notify_all_if\<close>) is named by datatypes of the class and given by two
  functions, \<open>act\<close> and \<open>test\<close>. One step is one call into pthreads or one access to a member, by any thread
  that can run, so that a run is any interleaving. Threads are named by \<open>tid()\<close>, which is never 0.
\<close>

section \<open>Instructions\<close>

datatype ('g, 'a) instr =
    Acquire                 \<comment> \<open>\<open>pthread_mutex_lock\<close>\<close>
  | Assign_holder           \<comment> \<open>\<open>holder_ = CurrentThread::tid()\<close>\<close>
  | Unassign_holder         \<comment> \<open>\<open>holder_ = 0\<close>\<close>
  | Release                 \<comment> \<open>\<open>pthread_mutex_unlock\<close>\<close>
  | Cond_wait nat           \<comment> \<open>\<open>pthread_cond_wait\<close> up to its sleep; \<open>Acquire\<close> is the rest of it\<close>
  | While_wait 'g nat       \<comment> \<open>\<open>while (g) cond.wait();\<close>\<close>
  | Assert_not 'g
  | Run 'a
  | Notify nat              \<comment> \<open>\<open>pthread_cond_signal\<close>\<close>
  | Notify_all_if 'g nat    \<comment> \<open>\<open>if (g) cond.notifyAll();\<close>\<close>

type_synonym ('g, 'a) code = "('g, 'a) instr list"

definition MutexLock_lock :: "('g, 'a) code" where
  "MutexLock_lock = [Acquire, Assign_holder]"

definition MutexLock_unlock :: "('g, 'a) code" where
  "MutexLock_unlock = [Unassign_holder, Release]"

definition MutexLockGuard :: "('g, 'a) code \<Rightarrow> ('g, 'a) code" where
  "MutexLockGuard body = MutexLock_lock @ body @ MutexLock_unlock"

definition UnassignGuard :: "('g, 'a) code \<Rightarrow> ('g, 'a) code" where
  "UnassignGuard body = [Unassign_holder] @ body @ [Assign_holder]"

definition Condition_wait :: "nat \<Rightarrow> ('g, 'a) code" where
  "Condition_wait k = UnassignGuard [Cond_wait k]"

definition Condition_notify :: "nat \<Rightarrow> ('g, 'a) code" where
  "Condition_notify k = [Notify k]"

definition Condition_notifyAll_if :: "'g \<Rightarrow> nat \<Rightarrow> ('g, 'a) code" where
  "Condition_notifyAll_if g k = [Notify_all_if g k]"

lemma Condition_wait_code: "Condition_wait k = [Unassign_holder, Cond_wait k, Assign_holder]"
  by (simp add: Condition_wait_def UnassignGuard_def)

section \<open>Steps\<close>

text \<open>\<open>mo_waits\<close> gives the condition a thread sleeps on; \<open>mo_log\<close> records the actions with their results.\<close>

record ('g, 'a, 'd, 'r) monitor =
  mo_mutex :: "int option"
  mo_holder :: int
  mo_waits :: "int \<Rightarrow> nat option"
  mo_data :: 'd
  mo_code :: "int \<Rightarrow> ('g, 'a) code"
  mo_log :: "(int \<times> 'a \<times> 'r) list"

definition MutexLock_new :: "'d \<Rightarrow> (int \<Rightarrow> ('g, 'a) code) \<Rightarrow> ('g, 'a, 'd, 'r) monitor" where
  "MutexLock_new data code =
     \<lparr>mo_mutex = None, mo_holder = 0, mo_waits = (\<lambda>_. None), mo_data = data, mo_code = code, mo_log = []\<rparr>"

definition MutexLock_isLockedByThisThread :: "int \<Rightarrow> ('g, 'a, 'd, 'r) monitor \<Rightarrow> bool" where
  "MutexLock_isLockedByThisThread tid s \<longleftrightarrow> mo_holder s = tid"

definition goes_on :: "int \<Rightarrow> ('g, 'a) code \<Rightarrow> ('g, 'a, 'd, 'r) monitor \<Rightarrow> ('g, 'a, 'd, 'r) monitor" where
  "goes_on t c s = s\<lparr>mo_code := (mo_code s)(t := c)\<rparr>"

definition woken :: "int set \<Rightarrow> ('g, 'a, 'd, 'r) monitor \<Rightarrow> ('g, 'a, 'd, 'r) monitor" where
  "woken us s = s\<lparr>mo_waits := (\<lambda>u. if u \<in> us then None else mo_waits s u)\<rparr>"

definition waiting_on :: "nat \<Rightarrow> ('g, 'a, 'd, 'r) monitor \<Rightarrow> int set" where
  "waiting_on k s = {u. mo_waits s u = Some k}"

text \<open>The next instruction of thread \<open>t\<close>, which does not sleep. Releasing a mutex the thread does not own is
  undefined, and so is waiting without it. A signal wakes one of the threads that sleep.\<close>

inductive monitor_step ::
  "('g \<Rightarrow> 'd \<Rightarrow> bool) \<Rightarrow> ('a \<Rightarrow> 'd \<Rightarrow> ('d \<times> 'r) result) \<Rightarrow> int \<Rightarrow> ('g, 'a, 'd, 'r) monitor \<Rightarrow>
   ('g, 'a, 'd, 'r) monitor result \<Rightarrow> bool"
  for test act t s where
  acquire: "mo_waits s t = None \<Longrightarrow> mo_code s t = Acquire # c \<Longrightarrow> mo_mutex s = None \<Longrightarrow>
    monitor_step test act t s (Inr (goes_on t c (s\<lparr>mo_mutex := Some t\<rparr>)))"
| assign: "mo_waits s t = None \<Longrightarrow> mo_code s t = Assign_holder # c \<Longrightarrow>
    monitor_step test act t s (Inr (goes_on t c (s\<lparr>mo_holder := t\<rparr>)))"
| unassign: "mo_waits s t = None \<Longrightarrow> mo_code s t = Unassign_holder # c \<Longrightarrow>
    monitor_step test act t s (Inr (goes_on t c (s\<lparr>mo_holder := 0\<rparr>)))"
| release: "mo_waits s t = None \<Longrightarrow> mo_code s t = Release # c \<Longrightarrow> mo_mutex s = Some t \<Longrightarrow>
    monitor_step test act t s (Inr (goes_on t c (s\<lparr>mo_mutex := None\<rparr>)))"
| release_other: "mo_waits s t = None \<Longrightarrow> mo_code s t = Release # c \<Longrightarrow> mo_mutex s \<noteq> Some t \<Longrightarrow>
    monitor_step test act t s (Inl Undefined_behaviour)"
| sleep: "mo_waits s t = None \<Longrightarrow> mo_code s t = Cond_wait k # c \<Longrightarrow> mo_mutex s = Some t \<Longrightarrow>
    monitor_step test act t s
      (Inr (goes_on t (Acquire # c) (s\<lparr>mo_mutex := None, mo_waits := (mo_waits s)(t \<mapsto> k)\<rparr>)))"
| sleep_other: "mo_waits s t = None \<Longrightarrow> mo_code s t = Cond_wait k # c \<Longrightarrow> mo_mutex s \<noteq> Some t \<Longrightarrow>
    monitor_step test act t s (Inl Undefined_behaviour)"
| while: "mo_waits s t = None \<Longrightarrow> mo_code s t = While_wait g k # c \<Longrightarrow>
    monitor_step test act t s
      (Inr (goes_on t (if test g (mo_data s) then Condition_wait k @ While_wait g k # c else c) s))"
| assertion: "mo_waits s t = None \<Longrightarrow> mo_code s t = Assert_not g # c \<Longrightarrow> \<not> test g (mo_data s) \<Longrightarrow>
    monitor_step test act t s (Inr (goes_on t c s))"
| assertion_fails: "mo_waits s t = None \<Longrightarrow> mo_code s t = Assert_not g # c \<Longrightarrow> test g (mo_data s) \<Longrightarrow>
    monitor_step test act t s (Inl Assert_failed)"
| run: "mo_waits s t = None \<Longrightarrow> mo_code s t = Run a # c \<Longrightarrow> act a (mo_data s) = Inr (d, r) \<Longrightarrow>
    monitor_step test act t s (Inr (goes_on t c (s\<lparr>mo_data := d, mo_log := mo_log s @ [(t, a, r)]\<rparr>)))"
| run_fails: "mo_waits s t = None \<Longrightarrow> mo_code s t = Run a # c \<Longrightarrow> act a (mo_data s) = Inl e \<Longrightarrow>
    monitor_step test act t s (Inl e)"
| notify_one: "mo_waits s t = None \<Longrightarrow> mo_code s t = Notify k # c \<Longrightarrow> u \<in> waiting_on k s \<Longrightarrow>
    monitor_step test act t s (Inr (goes_on t c (woken {u} s)))"
| notify_none: "mo_waits s t = None \<Longrightarrow> mo_code s t = Notify k # c \<Longrightarrow> waiting_on k s = {} \<Longrightarrow>
    monitor_step test act t s (Inr (goes_on t c s))"
| notify_all: "mo_waits s t = None \<Longrightarrow> mo_code s t = Notify_all_if g k # c \<Longrightarrow>
    monitor_step test act t s (Inr (goes_on t c (if test g (mo_data s) then woken (waiting_on k s) s else s)))"

text \<open>\<open>pthread_cond_wait\<close> may also return without a signal.\<close>

inductive spurious_wakeup :: "('g, 'a, 'd, 'r) monitor \<Rightarrow> ('g, 'a, 'd, 'r) monitor \<Rightarrow> bool" for s where
  "mo_waits s u = Some k \<Longrightarrow> spurious_wakeup s (woken {u} s)"

inductive monitor_run ::
  "('g \<Rightarrow> 'd \<Rightarrow> bool) \<Rightarrow> ('a \<Rightarrow> 'd \<Rightarrow> ('d \<times> 'r) result) \<Rightarrow> ('g, 'a, 'd, 'r) monitor \<Rightarrow> ('g, 'a, 'd, 'r) monitor \<Rightarrow> bool"
  for test act s0 where
  start: "monitor_run test act s0 s0"
| step: "monitor_run test act s0 s \<Longrightarrow> monitor_step test act t s (Inr s') \<Longrightarrow> monitor_run test act s0 s'"
| wake: "monitor_run test act s0 s \<Longrightarrow> spurious_wakeup s s' \<Longrightarrow> monitor_run test act s0 s'"

text \<open>Nothing happens any more, but for wake-ups without a reason.\<close>

definition monitor_stuck ::
  "('g \<Rightarrow> 'd \<Rightarrow> bool) \<Rightarrow> ('a \<Rightarrow> 'd \<Rightarrow> ('d \<times> 'r) result) \<Rightarrow> ('g, 'a, 'd, 'r) monitor \<Rightarrow> bool" where
  "monitor_stuck test act s \<longleftrightarrow> (\<nexists>t r. monitor_step test act t s r)"

lemmas monitor_moves = goes_on_def woken_def waiting_on_def

lemma goes_on_simps [simp]:
  "mo_mutex (goes_on t c s) = mo_mutex s" "mo_holder (goes_on t c s) = mo_holder s" "mo_waits (goes_on t c s) = mo_waits s"
  "mo_data (goes_on t c s) = mo_data s" "mo_log (goes_on t c s) = mo_log s" "mo_code (goes_on t c s) = (mo_code s)(t := c)"
  by (simp_all add: goes_on_def)

lemma woken_simps [simp]:
  "mo_mutex (woken us s) = mo_mutex s" "mo_holder (woken us s) = mo_holder s" "mo_data (woken us s) = mo_data s"
  "mo_log (woken us s) = mo_log s" "mo_code (woken us s) = mo_code s"
  "mo_waits (woken us s) u = (if u \<in> us then None else mo_waits s u)"
  by (simp_all add: woken_def)

section \<open>Lock discipline\<close>

text \<open>What a thread may do next depends on whether it has the mutex, and whether it has said so. \<open>disciplined\<close>
  checks the code of a thread once and for all, like a type system.\<close>

datatype lock_level = Free | Held | Owned

definition level :: "('g, 'a, 'd, 'r) monitor \<Rightarrow> int \<Rightarrow> lock_level" where
  "level s t = (if mo_mutex s = Some t then if mo_holder s = t then Owned else Held else Free)"

fun disciplined :: "lock_level \<Rightarrow> ('g, 'a) code \<Rightarrow> bool" where
  "disciplined l [] \<longleftrightarrow> l = Free"
| "disciplined l (Acquire # c) \<longleftrightarrow> l = Free \<and> disciplined Held c"
| "disciplined l (Assign_holder # c) \<longleftrightarrow> l = Held \<and> disciplined Owned c"
| "disciplined l (Unassign_holder # c) \<longleftrightarrow> l = Owned \<and> disciplined Held c"
| "disciplined l (Release # c) \<longleftrightarrow> l = Held \<and> disciplined Free c"
| "disciplined l (Cond_wait k # c) \<longleftrightarrow> l = Held \<and> disciplined Held c"
| "disciplined l (_ # c) \<longleftrightarrow> l = Owned \<and> disciplined Owned c"

lemma disciplined_append: "disciplined l c \<Longrightarrow> disciplined Free c' \<Longrightarrow> disciplined l (c @ c')"
  by (induction l c rule: disciplined.induct) auto

lemma disciplined_concat: "(\<forall>c \<in> set cs. disciplined Free c) \<Longrightarrow> disciplined Free (concat cs)"
  by (induction cs) (auto intro: disciplined_append)

definition holder_ok :: "('g, 'a, 'd, 'r) monitor \<Rightarrow> bool" where
  "holder_ok s \<longleftrightarrow> mo_mutex s \<noteq> Some 0 \<and> (mo_holder s = 0 \<or> mo_mutex s = Some (mo_holder s))"

definition thread_ok :: "('g, 'a, 'd, 'r) monitor \<Rightarrow> int \<Rightarrow> bool" where
  "thread_ok s t \<longleftrightarrow> disciplined (level s t) (mo_code s t) \<and>
     (mo_waits s t \<noteq> None \<longrightarrow> level s t = Free \<and> (\<exists>c. mo_code s t = Acquire # c))"

definition lock_ok :: "('g, 'a, 'd, 'r) monitor \<Rightarrow> bool" where
  "lock_ok s \<longleftrightarrow> mo_code s 0 = [] \<and> holder_ok s \<and> (\<forall>t. thread_ok s t)"

lemma lock_ok_new:
  assumes "\<forall>t. disciplined Free (code t)" and "code 0 = []"
  shows "lock_ok (MutexLock_new data code)"
  using assms by (simp add: lock_ok_def thread_ok_def holder_ok_def MutexLock_new_def level_def)

lemma level_eq [simp]:
  "level (goes_on t c s) = level s" "level (woken us s) = level s"
  "level (s\<lparr>mo_data := d, mo_log := l\<rparr>) = level s"
  by (simp_all add: level_def fun_eq_iff)

text \<open>What a step does to the thread that takes it, and to the others.\<close>

lemma step_self:
  assumes "monitor_step test act t s (Inr s')" and "t \<noteq> 0" and "holder_ok s" and "disciplined (level s t) (mo_code s t)"
  shows "thread_ok s' t \<and> holder_ok s'"
  using assms
  by cases (auto simp: thread_ok_def holder_ok_def level_def result_simps Condition_wait_code split: if_splits)

lemma step_others:
  assumes "monitor_step test act t s (Inr s')" and "u \<noteq> t" and "holder_ok s" and "disciplined (level s t) (mo_code s t)"
  shows "mo_code s' u = mo_code s u \<and> level s' u = level s u \<and> (mo_waits s' u = None \<or> mo_waits s' u = mo_waits s u)"
  using assms
  by cases (auto simp: holder_ok_def level_def result_simps split: if_splits)

lemma thread_ok_cong:
  "thread_ok s u \<Longrightarrow> mo_code s' u = mo_code s u \<Longrightarrow> level s' u = level s u \<Longrightarrow>
   mo_waits s' u = None \<or> mo_waits s' u = mo_waits s u \<Longrightarrow> thread_ok s' u"
  by (auto simp: thread_ok_def)

lemma step_not_zero: "lock_ok s \<Longrightarrow> monitor_step test act t s r \<Longrightarrow> t \<noteq> 0"
  by (auto simp: lock_ok_def elim: monitor_step.cases)

lemma lock_okD: "lock_ok s \<Longrightarrow> disciplined (level s t) (mo_code s t)"
  by (simp add: lock_ok_def thread_ok_def)

lemma step_other:
  assumes "lock_ok s" and "monitor_step test act t s (Inr s')" and "u \<noteq> t"
  shows "mo_code s' u = mo_code s u" and "level s' u = level s u" and "mo_waits s' u = None \<or> mo_waits s' u = mo_waits s u"
  using step_others [OF assms(2,3) _ lock_okD [OF assms(1)]] assms(1) by (simp_all add: lock_ok_def)

lemma lock_ok_step:
  assumes ok: "lock_ok s" and st: "monitor_step test act t s (Inr s')"
  shows "lock_ok s'"
proof -
  note t = step_not_zero [OF ok st] and d = lock_okD [OF ok, of t]
  have h: "holder_ok s" and u: "thread_ok s u" for u using ok by (simp_all add: lock_ok_def)
  have "thread_ok s' u" for u
    using step_self [OF st t h d] step_others [OF st _ h d, of u] thread_ok_cong [OF u] by (cases "u = t") blast+
  then show ?thesis
    using step_self [OF st t h d] step_others [OF st _ h d, of 0] t ok by (auto simp: lock_ok_def)
qed

lemma lock_ok_wake: "lock_ok s \<Longrightarrow> spurious_wakeup s s' \<Longrightarrow> lock_ok s'"
  by (auto simp: lock_ok_def holder_ok_def thread_ok_def elim!: spurious_wakeup.cases split: if_splits)

lemma monitor_run_invariant:
  assumes "monitor_run test act s0 s" and "P s0"
    and "\<And>s s' t. P s \<Longrightarrow> monitor_step test act t s (Inr s') \<Longrightarrow> P s'" and "\<And>s s'. P s \<Longrightarrow> spurious_wakeup s s' \<Longrightarrow> P s'"
  shows "P s"
  using assms(1) by induction (blast intro: assms(2-4))+

lemma lock_ok_run: "monitor_run test act s0 s \<Longrightarrow> lock_ok s0 \<Longrightarrow> lock_ok s"
  by (induction rule: monitor_run.induct) (auto intro: lock_ok_step lock_ok_wake)

text \<open>A thread that is awake and not finished can run, or the owner of the mutex can.\<close>

lemma instr_steps:
  assumes "mo_waits s t = None" and "mo_code s t = i # c" and "i = Acquire \<longrightarrow> mo_mutex s = None"
  shows "\<exists>r. monitor_step test act t s r"
proof (cases i)
  case Release
  then show ?thesis using assms by (cases "mo_mutex s = Some t") (auto intro: monitor_step.intros)
next
  case (Cond_wait k)
  then show ?thesis using assms by (cases "mo_mutex s = Some t") (auto intro: monitor_step.intros)
next
  case (Assert_not g)
  then show ?thesis using assms by (cases "test g (mo_data s)") (auto intro: monitor_step.intros)
next
  case (Run a)
  then show ?thesis using assms by (cases "act a (mo_data s)") (auto intro: monitor_step.intros)
next
  case (Notify k)
  then show ?thesis using assms by (cases "waiting_on k s = {}") (auto intro: monitor_step.intros)
qed (use assms in \<open>auto intro: monitor_step.intros\<close>)

lemma lock_progress:
  assumes "lock_ok s" and "mo_waits s t = None" and "mo_code s t \<noteq> []"
  shows "\<exists>u r. monitor_step test act u s r"
proof (cases "mo_mutex s")
  case None
  obtain i c where ic: "mo_code s t = i # c" using assms(3) by (cases "mo_code s t") auto
  then show ?thesis using None instr_steps [OF assms(2) ic] by blast
next
  case (Some u)
  then have l: "level s u \<noteq> Free" by (simp add: level_def)
  have d: "disciplined (level s u) (mo_code s u)" and w: "mo_waits s u = None"
    using assms(1) l by (auto simp: lock_ok_def thread_ok_def)
  obtain i c where ic: "mo_code s u = i # c" using d l by (cases "mo_code s u") auto
  then have "i \<noteq> Acquire" using d l by auto
  then show ?thesis using instr_steps [OF w ic] by blast
qed

lemma stuck_waits:
  assumes "lock_ok s" and "monitor_stuck test act s"
  shows "mo_code s t = [] \<or> mo_waits s t \<noteq> None"
  using lock_progress [OF assms(1), of t] assms(2) by (auto simp: monitor_stuck_def)


text \<open>The calls into pthreads cannot be wrong: only an action of the class or an assertion can fail.\<close>

lemma lock_failures:
  assumes ok: "lock_ok s" and st: "monitor_step test act t s (Inl e)"
  shows "(\<exists>a c. mo_code s t = Run a # c \<and> act a (mo_data s) = Inl e) \<or>
    (\<exists>g c. mo_code s t = Assert_not g # c \<and> test g (mo_data s) \<and> e = Assert_failed)"
  using st lock_okD [OF ok, of t] by cases (auto simp: level_def split: if_splits)

section \<open>What was done\<close>

text \<open>The data is what the logged actions make of the first data, one after the other, with the logged results;
  and each thread has done its actions in the order of its code.\<close>

fun replays :: "('a \<Rightarrow> 'd \<Rightarrow> ('d \<times> 'r) result) \<Rightarrow> 'd \<Rightarrow> (int \<times> 'a \<times> 'r) list \<Rightarrow> 'd \<Rightarrow> bool" where
  "replays act d [] d' \<longleftrightarrow> d' = d"
| "replays act d ((t, a, r) # l) d' \<longleftrightarrow> (\<exists>d1. act a d = Inr (d1, r) \<and> replays act d1 l d')"

lemma replays_append: "replays act d (l @ l') d' \<longleftrightarrow> (\<exists>d1. replays act d l d1 \<and> replays act d1 l' d')"
  by (induction act d l d' rule: replays.induct) auto

lemma replays_run:
  assumes "monitor_run test act s0 s" and "mo_log s0 = []"
  shows "replays act (mo_data s0) (mo_log s) (mo_data s)"
  using assms(1)
proof induction
  case start
  then show ?case using assms(2) by simp
next
  case (step s t s')
  then show ?case by (auto simp: replays_append elim!: monitor_step.cases)
next
  case (wake s s')
  then show ?case by (auto elim!: spurious_wakeup.cases)
qed

fun actions :: "('g, 'a) code \<Rightarrow> 'a list" where
  "actions [] = []"
| "actions (Run a # c) = a # actions c"
| "actions (_ # c) = actions c"

lemma actions_append [simp]: "actions (c @ c') = actions c @ actions c'"
  by (induction c rule: actions.induct) simp_all

definition done_by :: "int \<Rightarrow> (int \<times> 'a \<times> 'r) list \<Rightarrow> 'a list" where
  "done_by t l = map (\<lambda>(u, a, r). a) (filter (\<lambda>(u, a, r). u = t) l)"

lemma program_order:
  assumes "monitor_run test act s0 s" and "mo_log s0 = []"
  shows "done_by t (mo_log s) @ actions (mo_code s t) = actions (mo_code s0 t)"
  using assms(1)
proof induction
  case start
  then show ?case using assms(2) by (simp add: done_by_def)
next
  case (step s u s')
  from step.hyps(2) step.IH show ?case by cases (auto simp: done_by_def Condition_wait_code)
next
  case (wake s s')
  then show ?case by (auto elim!: spurious_wakeup.cases)
qed

end
