(* ===== verification/Conditions.thy ===== *)
theory Conditions
  imports Monitor
begin

text \<open>
  What holds of every class that uses \<open>MutexLock\<close> and \<open>Condition\<close>: its methods end, whatever the schedule,
  unless they wait for something that does not come; and no wake-up is lost.
\<close>

lemma sum_change:
  fixes f f' :: "'a \<Rightarrow> nat"
  assumes "finite T" and "t \<in> T" and "\<And>u. u \<in> T \<Longrightarrow> u \<noteq> t \<Longrightarrow> f u \<le> f' u"
  shows "sum f T + f' t \<le> sum f' T + f t"
  using assms sum_mono [of "T - {t}" f f'] by (simp add: sum.remove [of T t])

section \<open>Ending\<close>

text \<open>Between two notifications a thread runs at most to the end of its code or to its next sleep.\<close>

fun notices :: "('g, 'a) code \<Rightarrow> nat" where
  "notices [] = 0"
| "notices (Notify k # c) = Suc (notices c)"
| "notices (Notify_all_if g k # c) = Suc (notices c)"
| "notices (_ # c) = notices c"

fun distance :: "('g, 'a) code \<Rightarrow> nat" where
  "distance [] = 0"
| "distance (Cond_wait k # c) = 1"
| "distance (While_wait g k # c) = 3 + distance c"
| "distance (_ # c) = Suc (distance c)"

definition steps_left :: "('g, 'a, 'd, 'r) monitor \<Rightarrow> int \<Rightarrow> nat" where
  "steps_left s t = (if mo_waits s t = None then distance (mo_code s t) else 0)"

definition idle_outside :: "int set \<Rightarrow> ('g, 'a, 'd, 'r) monitor \<Rightarrow> bool" where
  "idle_outside T s \<longleftrightarrow> (\<forall>t. t \<notin> T \<longrightarrow> mo_code s t = [])"

definition effort :: "int set \<Rightarrow> ('g, 'a, 'd, 'r) monitor \<Rightarrow> nat \<times> nat" where
  "effort T s = (\<Sum>t\<in>T. notices (mo_code s t), \<Sum>t\<in>T. steps_left s t)"

lemma step_code_others: "monitor_step test act t s (Inr s') \<Longrightarrow> u \<noteq> t \<Longrightarrow> mo_code s' u = mo_code s u"
  by (auto elim!: monitor_step.cases)

lemma step_code_self: "monitor_step test act t s r \<Longrightarrow> mo_code s t \<noteq> []"
  by (auto elim!: monitor_step.cases)

lemma step_effort_self:
  assumes "monitor_step test act t s (Inr s')"
  shows "notices (mo_code s' t) < notices (mo_code s t) \<or>
    notices (mo_code s' t) = notices (mo_code s t) \<and> steps_left s' t < steps_left s t \<and>
    (\<forall>u. u \<noteq> t \<longrightarrow> mo_waits s' u = mo_waits s u)"
  using assms by cases (auto simp: steps_left_def Condition_wait_code)

lemma step_effort:
  assumes T: "finite T" "idle_outside T s" and st: "monitor_step test act t s (Inr s')"
  shows "(effort T s', effort T s) \<in> less_than <*lex*> less_than"
proof -
  have t: "t \<in> T" using step_code_self [OF st] T(2) by (auto simp: idle_outside_def)
  note code = step_code_others [OF st]
  have n: "(\<Sum>u\<in>T. notices (mo_code s' u)) + notices (mo_code s t) \<le> (\<Sum>u\<in>T. notices (mo_code s u)) + notices (mo_code s' t)"
    using sum_change [OF T(1) t, of "\<lambda>u. notices (mo_code s' u)" "\<lambda>u. notices (mo_code s u)"] code by simp
  consider "notices (mo_code s' t) < notices (mo_code s t)"
    | "notices (mo_code s' t) = notices (mo_code s t)" "steps_left s' t < steps_left s t" "\<forall>u. u \<noteq> t \<longrightarrow> mo_waits s' u = mo_waits s u"
    using step_effort_self [OF st] by blast
  then show ?thesis
  proof cases
    case 1
    then show ?thesis using n by (simp add: effort_def)
  next
    case 2
    have "(\<Sum>u\<in>T. steps_left s' u) + steps_left s t \<le> (\<Sum>u\<in>T. steps_left s u) + steps_left s' t"
      by (rule sum_change [OF T(1) t]) (use 2(3) code in \<open>simp add: steps_left_def\<close>)
    then show ?thesis using n 2(1,2) by (auto simp: effort_def)
  qed
qed

lemma idle_outside_step: "idle_outside T s \<Longrightarrow> monitor_step test act t s (Inr s') \<Longrightarrow> idle_outside T s'"
  using step_code_others step_code_self by (metis idle_outside_def)

lemma idle_outside_run: "monitor_run test act s0 s \<Longrightarrow> idle_outside T s0 \<Longrightarrow> idle_outside T s"
proof (induction rule: monitor_run.induct)
  case (wake s s')
  then show ?case by (auto simp: idle_outside_def elim!: spurious_wakeup.cases)
qed (auto intro: idle_outside_step)

text \<open>No schedule goes on for ever.\<close>

lemma monitor_ends:
  assumes "finite T" and "idle_outside T s0"
  shows "wf {(s', s). monitor_run test act s0 s \<and> (\<exists>t. monitor_step test act t s (Inr s'))}"
proof (rule wf_subset)
  show "wf (inv_image (less_than <*lex*> less_than) (effort T))" by (intro wf_inv_image wf_lex_prod wf_less_than)
  show "{(s', s). monitor_run test act s0 s \<and> (\<exists>t. monitor_step test act t s (Inr s'))} \<subseteq>
      inv_image (less_than <*lex*> less_than) (effort T)"
    unfolding inv_image_def using step_effort [OF assms(1) idle_outside_run [OF _ assms(2)]] by fast
qed

section \<open>Schedules\<close>

text \<open>A scheduler that can be run: the threads that exist, and whose turn it is. A signal wakes the first of
  the threads that wait.\<close>

fun exec_instr ::
  "('g \<Rightarrow> 'd \<Rightarrow> bool) \<Rightarrow> ('a \<Rightarrow> 'd \<Rightarrow> ('d \<times> 'r) result) \<Rightarrow> int list \<Rightarrow> int \<Rightarrow> ('g, 'a) code \<Rightarrow> ('g, 'a, 'd, 'r) monitor \<Rightarrow>
   ('g, 'a, 'd, 'r) monitor option" where
  "exec_instr test act ts t [] s = None"
| "exec_instr test act ts t (Acquire # c) s =
     (if mo_mutex s = None then Some (goes_on t c (s\<lparr>mo_mutex := Some t\<rparr>)) else None)"
| "exec_instr test act ts t (Assign_holder # c) s = Some (goes_on t c (s\<lparr>mo_holder := t\<rparr>))"
| "exec_instr test act ts t (Unassign_holder # c) s = Some (goes_on t c (s\<lparr>mo_holder := 0\<rparr>))"
| "exec_instr test act ts t (Release # c) s =
     (if mo_mutex s = Some t then Some (goes_on t c (s\<lparr>mo_mutex := None\<rparr>)) else None)"
| "exec_instr test act ts t (Cond_wait k # c) s =
     (if mo_mutex s = Some t
      then Some (goes_on t (Acquire # c) (s\<lparr>mo_mutex := None, mo_waits := (mo_waits s)(t \<mapsto> k)\<rparr>)) else None)"
| "exec_instr test act ts t (While_wait g k # c) s =
     Some (goes_on t (if test g (mo_data s) then Condition_wait k @ While_wait g k # c else c) s)"
| "exec_instr test act ts t (Assert_not g # c) s = (if test g (mo_data s) then None else Some (goes_on t c s))"
| "exec_instr test act ts t (Run a # c) s =
     (case act a (mo_data s) of
        Inl e \<Rightarrow> None
      | Inr (d, r) \<Rightarrow> Some (goes_on t c (s\<lparr>mo_data := d, mo_log := mo_log s @ [(t, a, r)]\<rparr>)))"
| "exec_instr test act ts t (Notify k # c) s =
     (case filter (\<lambda>u. mo_waits s u = Some k) ts of
        [] \<Rightarrow> Some (goes_on t c s)
      | u # us \<Rightarrow> Some (goes_on t c (woken {u} s)))"
| "exec_instr test act ts t (Notify_all_if g k # c) s =
     Some (goes_on t c (if test g (mo_data s) then woken (set (filter (\<lambda>u. mo_waits s u = Some k) ts)) s else s))"

fun exec_schedule ::
  "('g \<Rightarrow> 'd \<Rightarrow> bool) \<Rightarrow> ('a \<Rightarrow> 'd \<Rightarrow> ('d \<times> 'r) result) \<Rightarrow> int list \<Rightarrow> int list \<Rightarrow> ('g, 'a, 'd, 'r) monitor \<Rightarrow>
   ('g, 'a, 'd, 'r) monitor option" where
  "exec_schedule test act ts [] s = Some s"
| "exec_schedule test act ts (t # turns) s =
     (if mo_waits s t \<noteq> None then None
      else case exec_instr test act ts t (mo_code s t) s of
             None \<Rightarrow> None
           | Some s' \<Rightarrow> exec_schedule test act ts turns s')"

lemma exec_instr_step:
  assumes "exec_instr test act ts t (mo_code s t) s = Some s'" and "mo_waits s t = None" and "\<forall>u. mo_waits s u \<noteq> None \<longrightarrow> u \<in> set ts"
  shows "monitor_step test act t s (Inr s')"
proof (cases "mo_code s t")
  case (Cons i c)
  have all: "set (filter (\<lambda>u. mo_waits s u = Some k) ts) = waiting_on k s" for k
    using assms(3) by (auto simp: waiting_on_def)
  show ?thesis
  proof (cases i)
    case (Notify k)
    then show ?thesis
      using assms(1,2) Cons all [of k]
      by (cases "filter (\<lambda>u. mo_waits s u = Some k) ts") (auto intro: monitor_step.intros)
  next
    case (Notify_all_if g k)
    then show ?thesis
      using assms(1,2) Cons monitor_step.notify_all [of s t g k c test act] unfolding all [of k, symmetric] by simp
  next
    case (While_wait g k)
    then show ?thesis using assms(1,2) Cons monitor_step.while [of s t g k c test act] by simp
  qed (use assms(1,2) Cons in \<open>auto intro: monitor_step.intros split: if_splits sum.splits\<close>)
qed (use assms in simp)

lemma exec_schedule_run:
  assumes "exec_schedule test act ts turns s = Some s'" and "lock_ok s" and "idle_outside (set ts) s"
    and "monitor_run test act s0 s"
  shows "monitor_run test act s0 s'"
  using assms
proof (induction turns arbitrary: s)
  case (Cons t turns)
  obtain s1 where s1: "mo_waits s t = None" "exec_instr test act ts t (mo_code s t) s = Some s1"
    "exec_schedule test act ts turns s1 = Some s'"
    using Cons.prems(1) by (auto split: if_splits option.splits)
  have "\<forall>u. mo_waits s u \<noteq> None \<longrightarrow> u \<in> set ts"
    using Cons.prems(2,3) by (auto simp: lock_ok_def thread_ok_def idle_outside_def) (metis list.distinct(1))
  then have st: "monitor_step test act t s (Inr s1)" using exec_instr_step [OF s1(2,1)] by blast
  show ?case
    using Cons.IH [OF s1(3)] lock_ok_step [OF Cons.prems(2) st] idle_outside_step [OF Cons.prems(3) st]
      monitor_run.step [OF Cons.prems(4) st] by blast
qed simp

lemma exec_schedule_from:
  "exec_schedule test act ts turns s0 = Some s \<Longrightarrow> lock_ok s0 \<Longrightarrow> idle_outside (set ts) s0 \<Longrightarrow> monitor_run test act s0 s"
  using exec_schedule_run monitor_run.start by blast

section \<open>Words\<close>

text \<open>The instructions each thread uses, and the conditions it sleeps on.\<close>

definition vocabulary :: "(int \<Rightarrow> ('g, 'a) instr \<Rightarrow> bool) \<Rightarrow> ('g, 'a, 'd, 'r) monitor \<Rightarrow> bool" where
  "vocabulary V s \<longleftrightarrow> (\<forall>t. \<forall>i \<in> set (mo_code s t). V t i) \<and> (\<forall>t j. mo_waits s t = Some j \<longrightarrow> V t (Cond_wait j))"

lemma vocabulary_step:
  assumes "vocabulary V s" and "\<And>t. V t Acquire" and "\<And>t g j. V t (While_wait g j) \<Longrightarrow> \<forall>i \<in> set (Condition_wait j). V t i"
    and "monitor_step test act t s (Inr s')"
  shows "vocabulary V s'"
proof -
  have V: "\<forall>i \<in> set (mo_code s u). V u i" for u using assms(1) by (simp add: vocabulary_def)
  have "\<forall>i \<in> set (mo_code s' t). V t i"
    using assms(4) V [of t] assms(2,3) by cases auto
  moreover have "mo_waits s' u = Some j \<Longrightarrow> mo_waits s u = Some j \<or> u = t \<and> Cond_wait j \<in> set (mo_code s t)" for u j
    using assms(4) by cases (auto split: if_splits)
  ultimately show ?thesis
    using V step_code_others [OF assms(4)] assms(1) unfolding vocabulary_def by metis
qed

lemma vocabulary_run:
  assumes "monitor_run test act s0 s" and "vocabulary V s0" and "\<And>t. V t Acquire"
    and "\<And>t g j. V t (While_wait g j) \<Longrightarrow> \<forall>i \<in> set (Condition_wait j). V t i"
  shows "vocabulary V s"
  using assms(1)
proof induction
  case (wake s s')
  then show ?case by (auto simp: vocabulary_def elim!: spurious_wakeup.cases split: if_splits)
next
  case (step s t s')
  then show ?case using vocabulary_step [of V s] assms(3,4) by blast
qed (rule assms(2))

section \<open>No lost wake-up\<close>

text \<open>The action the thread comes to next, and the signals it gives before it.\<close>

fun next_action :: "('g, 'a) code \<Rightarrow> 'a option" where
  "next_action [] = None"
| "next_action (Run a # c) = Some a"
| "next_action (_ # c) = next_action c"

fun pending :: "nat \<Rightarrow> ('g, 'a) code \<Rightarrow> nat" where
  "pending k [] = 0"
| "pending k (Run a # c) = 0"
| "pending k (Notify j # c) = (if j = k then 1 else 0) + pending k c"
| "pending k (_ # c) = pending k c"

definition wants :: "('a \<Rightarrow> bool) \<Rightarrow> ('g, 'a) code \<Rightarrow> bool" where
  "wants takes c = (case next_action c of None \<Rightarrow> False | Some a \<Rightarrow> takes a)"

text \<open>The code keeps the contract of condition \<open>k\<close>: who waits for it does so for \<open>guard\<close> and takes one unit
  afterwards, who gives a unit signals, and who waits for another condition owes this one nothing.\<close>

fun serves :: "nat \<Rightarrow> 'g \<Rightarrow> ('a \<Rightarrow> bool) \<Rightarrow> ('a \<Rightarrow> bool) \<Rightarrow> ('g, 'a) code \<Rightarrow> bool" where
  "serves k guard takes gives [] = True"
| "serves k guard takes gives (Run a # c) = ((gives a \<longrightarrow> 1 \<le> pending k c) \<and> serves k guard takes gives c)"
| "serves k guard takes gives (While_wait g j # c) =
     ((if j = k then g = guard \<and> wants takes c else \<not> wants takes c \<and> pending k c = 0) \<and> serves k guard takes gives c)"
| "serves k guard takes gives (Cond_wait j # c) = False"
| "serves k guard takes gives (Notify_all_if g j # c) = False"
| "serves k guard takes gives (_ # c) = serves k guard takes gives c"

text \<open>An assertion of the guard, or an action that takes, comes after a wait for it, with the mutex held all along.\<close>

fun guarded :: "'g \<Rightarrow> ('a \<Rightarrow> bool) \<Rightarrow> bool \<Rightarrow> ('g, 'a) code \<Rightarrow> bool" where
  "guarded guard takes b [] = True"
| "guarded guard takes b (While_wait g k # c) = guarded guard takes (g = guard) c"
| "guarded guard takes b (Assert_not g # c) = ((g = guard \<longrightarrow> b) \<and> guarded guard takes b c)"
| "guarded guard takes b (Run a # c) = ((takes a \<longrightarrow> b) \<and> guarded guard takes False c)"
| "guarded guard takes b (_ # c) = guarded guard takes False c"

lemma guarded_mono: "guarded guard takes b c \<Longrightarrow> b \<longrightarrow> b' \<Longrightarrow> guarded guard takes b' c"
  by (induction guard takes b c arbitrary: b' rule: guarded.induct) auto

text \<open>A thread that is inside \<open>Condition::wait\<close>, before its sleep: the condition, and what comes after.\<close>

fun sleeps_next :: "('g, 'a) code \<Rightarrow> (nat \<times> ('g, 'a) code) option" where
  "sleeps_next (Cond_wait j # c) = Some (j, c)"
| "sleeps_next _ = None"

fun sleep_of :: "('g, 'a) code \<Rightarrow> (nat \<times> ('g, 'a) code) option" where
  "sleep_of (Unassign_holder # c) = sleeps_next c"
| "sleep_of c = sleeps_next c"

definition serving :: "nat \<Rightarrow> 'g \<Rightarrow> ('a \<Rightarrow> bool) \<Rightarrow> ('a \<Rightarrow> bool) \<Rightarrow> ('g, 'a) code \<Rightarrow> bool" where
  "serving k guard takes gives c =
     (case sleep_of c of
        None \<Rightarrow> serves k guard takes gives c
      | Some (j, c') \<Rightarrow> (if j = k then wants takes c' else \<not> wants takes c' \<and> pending k c' = 0) \<and> serves k guard takes gives c')"

lemma sleeps_next_iff: "sleeps_next c = Some (j, c') \<longleftrightarrow> c = Cond_wait j # c'"
  by (cases "(c)" rule: sleeps_next.cases) auto

lemma serves_awake [simp]:
  assumes "serves k guard takes gives c"
  shows "sleeps_next c = None" and "sleep_of c = None"
proof -
  have n: "serves k guard takes gives c \<Longrightarrow> sleeps_next c = None" for c
    by (cases "c" rule: sleeps_next.cases) simp_all
  show "sleeps_next c = None" using n assms .
  show "sleep_of c = None" using assms n by (cases "c" rule: sleep_of.cases) simp_all
qed

lemma wants_simps [simp]:
  "wants takes [] = False" "wants takes (Run a # c) = takes a"
  "wants takes (Acquire # c) = wants takes c" "wants takes (Assign_holder # c) = wants takes c"
  "wants takes (Unassign_holder # c) = wants takes c" "wants takes (Release # c) = wants takes c"
  "wants takes (Cond_wait k # c) = wants takes c" "wants takes (While_wait g k # c) = wants takes c"
  "wants takes (Assert_not g # c) = wants takes c" "wants takes (Notify k # c) = wants takes c"
  "wants takes (Notify_all_if g k # c) = wants takes c"
  by (simp_all add: wants_def)

text \<open>The threads of a condition wait in \<open>while (guard)\<close> and nowhere else.\<close>

fun awaits :: "nat \<Rightarrow> 'g \<Rightarrow> ('g, 'a) code \<Rightarrow> bool" where
  "awaits k guard [] = True"
| "awaits k guard (While_wait g j # c) = ((j = k \<longrightarrow> g = guard) \<and> awaits k guard c)"
| "awaits k guard (Cond_wait j # c) = False"
| "awaits k guard (_ # c) = awaits k guard c"

lemma awaits_awake [simp]:
  assumes "awaits k guard c"
  shows "sleeps_next c = None" and "sleep_of c = None"
proof -
  have n: "awaits k guard c \<Longrightarrow> sleeps_next c = None" for c
    by (cases "c" rule: sleeps_next.cases) simp_all
  show "sleeps_next c = None" using n assms .
  show "sleep_of c = None" using assms n by (cases "c" rule: sleep_of.cases) simp_all
qed

definition awaiting :: "nat \<Rightarrow> 'g \<Rightarrow> ('g, 'a) code \<Rightarrow> bool" where
  "awaiting k guard c = (case sleep_of c of None \<Rightarrow> awaits k guard c | Some (j, c') \<Rightarrow> awaits k guard c')"

lemma step_data:
  assumes "monitor_step test act t s (Inr s')" and "mo_data s' \<noteq> mo_data s"
  shows "\<exists>a c. mo_code s t = Run a # c"
  using assms by cases (auto split: if_splits)

text \<open>Nobody else changes the data while a thread has the mutex.\<close>

lemma data_locked:
  assumes "lock_ok s" and "monitor_step test act t s (Inr s')" and "u \<noteq> t" and "level s u \<noteq> Free"
  shows "mo_data s' = mo_data s"
proof (rule ccontr)
  assume "mo_data s' \<noteq> mo_data s"
  then obtain a c where "mo_code s t = Run a # c" using step_data [OF assms(2)] by blast
  then have "level s t = Owned" using lock_okD [OF assms(1), of t] by simp
  then show False using assms(3,4) by (auto simp: level_def split: if_splits)
qed

lemma sleep_of_level: "lock_ok s \<Longrightarrow> sleep_of (mo_code s u) = Some x \<Longrightarrow> level s u \<noteq> Free"
  using lock_okD [of s u] by (cases "mo_code s u" rule: sleep_of.cases; cases x) (auto simp: sleeps_next_iff)

text \<open>A condition, the test its threads wait for, and the actions that rely on it.\<close>

locale wait_guard =
  fixes test :: "'g \<Rightarrow> 'd \<Rightarrow> bool" and act :: "'a \<Rightarrow> 'd \<Rightarrow> ('d \<times> 'r) result"
    and k :: nat and guard :: 'g and takes :: "'a \<Rightarrow> bool"
begin

text \<open>Who is about to sleep has found the guard true.\<close>

definition wait_ok :: "('g, 'a, 'd, 'r) monitor \<Rightarrow> int \<Rightarrow> bool" where
  "wait_ok s t \<longleftrightarrow> awaiting k guard (mo_code s t) \<and>
     (\<forall>c. sleep_of (mo_code s t) = Some (k, c) \<longrightarrow> test guard (mo_data s))"

lemma wait_self:
  assumes "monitor_step test act t s (Inr s')" and "wait_ok s t"
  shows "wait_ok s' t"
  using assms(1)
proof cases
  case (unassign c)
  then show ?thesis using assms(2) by (cases "sleeps_next c") (auto simp: wait_ok_def awaiting_def sleeps_next_iff)
next
  case (while g j c)
  then show ?thesis using assms(2) by (auto simp: wait_ok_def awaiting_def Condition_wait_code)
qed (use assms(2) in \<open>auto simp: wait_ok_def awaiting_def split: if_splits\<close>)

lemma wait_other:
  assumes "lock_ok s" and "monitor_step test act t s (Inr s')" and "u \<noteq> t" and "wait_ok s u"
  shows "wait_ok s' u"
  using step_other [OF assms(1-3)] data_locked [OF assms(1-3)] sleep_of_level [OF assms(1), of u] assms(4)
  by (auto simp: wait_ok_def)

text \<open>Who has found the guard false and has not let go of the mutex since finds a unit.\<close>

definition unit_there :: "('g, 'a, 'd, 'r) monitor \<Rightarrow> int \<Rightarrow> bool" where
  "unit_there s t \<longleftrightarrow> level s t = Owned \<and> \<not> test guard (mo_data s)"

definition guards_ok :: "('g, 'a, 'd, 'r) monitor \<Rightarrow> bool" where
  "guards_ok s \<longleftrightarrow> (\<forall>t. guarded guard takes (unit_there s t) (mo_code s t))"

lemma guards_step:
  assumes ok: "lock_ok s" "guards_ok s" and st: "monitor_step test act t s (Inr s')"
  shows "guards_ok s'"
  unfolding guards_ok_def
proof
  fix u
  have g: "guarded guard takes (unit_there s v) (mo_code s v)" for v using ok(2) by (simp add: guards_ok_def)
  note d = lock_okD [OF ok(1)]
  show "guarded guard takes (unit_there s' u) (mo_code s' u)"
  proof (cases "u = t")
    case True
    show ?thesis
      using st g [of t] d [of t] unfolding True
      by cases (auto simp: unit_there_def Condition_wait_code intro: guarded_mono split: if_splits)
  next
    case False
    have "unit_there s u \<longrightarrow> mo_data s' = mo_data s"
      using data_locked [OF ok(1) st False] by (auto simp: unit_there_def)
    then have "unit_there s u \<longrightarrow> unit_there s' u" using step_other [OF ok(1) st False] by (simp add: unit_there_def)
    then show ?thesis unfolding step_other(1) [OF ok(1) st False] by (rule guarded_mono [OF g])
  qed
qed

lemma guarded_step:
  assumes "guards_ok s"
  shows "mo_code s t = Assert_not guard # c \<Longrightarrow> \<not> test guard (mo_data s)"
    and "mo_code s t = Run a # c \<Longrightarrow> takes a \<Longrightarrow> \<not> test guard (mo_data s)"
  using assms [unfolded guards_ok_def, rule_format, of t] by (auto simp: unit_there_def)

definition waits_inv :: "('g, 'a, 'd, 'r) monitor \<Rightarrow> bool" where
  "waits_inv s \<longleftrightarrow> lock_ok s \<and> guards_ok s \<and> (\<forall>t. wait_ok s t)"

lemma waits_inv_step:
  assumes "waits_inv s" and "monitor_step test act t s (Inr s')"
  shows "waits_inv s'"
  unfolding waits_inv_def
proof (intro conjI allI)
  have ok: "lock_ok s" "guards_ok s" and w: "wait_ok s v" for v using assms(1) by (simp_all add: waits_inv_def)
  show "lock_ok s'" by (rule lock_ok_step [OF ok(1) assms(2)])
  show "guards_ok s'" by (rule guards_step [OF ok assms(2)])
  show "wait_ok s' u" for u
    using wait_self [OF assms(2) w] wait_other [OF ok(1) assms(2) _ w] by (cases "u = t") simp_all
qed

lemma waits_inv_wake:
  assumes "waits_inv s" and "spurious_wakeup s s'"
  shows "waits_inv s'"
proof -
  obtain u where u: "s' = woken {u} s" using assms(2) by (auto elim: spurious_wakeup.cases)
  have "lock_ok s'" using assms lock_ok_wake by (auto simp: waits_inv_def)
  then show ?thesis using assms(1) by (simp add: u waits_inv_def guards_ok_def unit_there_def wait_ok_def)
qed

lemma waits_inv_new:
  assumes "\<forall>t. disciplined Free (code t) \<and> awaits k guard (code t) \<and> guarded guard takes False (code t)" and "code 0 = []"
  shows "waits_inv (MutexLock_new data code)"
proof -
  have "sleep_of (code t) = None" for t using assms(1) awaits_awake(2) [of k guard "code t"] by simp
  then show ?thesis
    using assms lock_ok_new [of code data]
    by (simp add: waits_inv_def wait_ok_def awaiting_def guards_ok_def unit_there_def level_def MutexLock_new_def)
qed

end

text \<open>A condition that stands for units of something: \<open>avail\<close> counts them, its waiters wait while there is
  none, an action that takes uses one up, an action that gives makes one more.\<close>

locale condition = wait_guard test act k guard takes
  for test :: "'g \<Rightarrow> 'd \<Rightarrow> bool" and act :: "'a \<Rightarrow> 'd \<Rightarrow> ('d \<times> 'r) result"
    and k :: nat and guard :: 'g and takes :: "'a \<Rightarrow> bool" +
  fixes gives :: "'a \<Rightarrow> bool" and avail :: "'d \<Rightarrow> nat"
  assumes guard_iff: "test guard d \<longleftrightarrow> avail d = 0"
    and take_one: "takes a \<Longrightarrow> 0 < avail d \<Longrightarrow> act a d = Inr (d', r) \<Longrightarrow> avail d' < avail d"
    and give_one: "\<not> takes a \<Longrightarrow> act a d = Inr (d', r) \<Longrightarrow> avail d' \<le> avail d + (if gives a then 1 else 0)"
begin

definition claim :: "('g, 'a, 'd, 'r) monitor \<Rightarrow> int \<Rightarrow> nat" where
  "claim s t = (if mo_waits s t = None then (if wants takes (mo_code s t) then 1 else 0) + pending k (mo_code s t) else 0)"

definition sleeper_ok :: "('g, 'a, 'd, 'r) monitor \<Rightarrow> int \<Rightarrow> bool" where
  "sleeper_ok s t \<longleftrightarrow> serving k guard takes gives (mo_code s t) \<and>
     (mo_waits s t = Some k \<longrightarrow> wants takes (mo_code s t))"

definition sleepers_ok :: "('g, 'a, 'd, 'r) monitor \<Rightarrow> bool" where
  "sleepers_ok s \<longleftrightarrow> (\<forall>t. sleeper_ok s t)"

text \<open>While somebody sleeps, every unit has somebody awake who comes for it or is about to signal it.\<close>

definition no_lost_wakeup :: "int set \<Rightarrow> ('g, 'a, 'd, 'r) monitor \<Rightarrow> bool" where
  "no_lost_wakeup T s \<longleftrightarrow> (waiting_on k s \<noteq> {} \<longrightarrow> avail (mo_data s) \<le> (\<Sum>t\<in>T. claim s t))"

lemma sleeper_self:
  assumes "monitor_step test act t s (Inr s')" and "sleeper_ok s t"
  shows "sleeper_ok s' t"
  using assms(1)
proof cases
  case (unassign c)
  then show ?thesis
    using assms(2) by (cases "sleeps_next c") (auto simp: sleeper_ok_def serving_def sleeps_next_iff)
next
  case (while g j c)
  then show ?thesis
    using assms(2) by (auto simp: sleeper_ok_def serving_def Condition_wait_code)
qed (use assms(2) in \<open>auto simp: sleeper_ok_def serving_def split: if_splits\<close>)

lemma sleeper_other:
  assumes "lock_ok s" and "sleeper_ok s u" and "monitor_step test act t s (Inr s')" and "u \<noteq> t"
  shows "sleeper_ok s' u"
  using step_other [OF assms(1,3,4)] assms(2) by (auto simp: sleeper_ok_def)

lemma sleepers_step:
  assumes "lock_ok s" and "sleepers_ok s" and "monitor_step test act t s (Inr s')"
  shows "sleepers_ok s'"
  unfolding sleepers_ok_def
proof
  fix u
  have "sleeper_ok s v" for v using assms(2) by (simp add: sleepers_ok_def)
  then show "sleeper_ok s' u"
    using sleeper_self [OF assms(3)] sleeper_other [OF assms(1) _ assms(3), of u] by (cases "u = t") simp_all
qed

lemma claim_others:
  assumes "lock_ok s" and "monitor_step test act t s (Inr s')" and "u \<noteq> t"
  shows "claim s u \<le> claim s' u"
  using step_other [OF assms] by (auto simp: claim_def)

lemma claim_woken:
  assumes "sleepers_ok s" and "u \<in> waiting_on k s"
  shows "claim s u = 0" and "1 \<le> claim (woken {u} s) u"
  using assms by (auto simp: claim_def sleepers_ok_def sleeper_ok_def waiting_on_def)

text \<open>Either the thread that takes the step leaves enough behind itself, or nobody sleeps, or nothing is there,
  or it has just woken one who comes for it.\<close>

lemma claim_self:
  assumes "sleeper_ok s t" and "monitor_step test act t s (Inr s')" and "waits_inv s"
  shows "waiting_on k s' \<subseteq> waiting_on k s \<and> avail (mo_data s') + claim s t \<le> avail (mo_data s) + claim s' t \<or>
    waiting_on k s' = {} \<or> avail (mo_data s') = 0 \<or>
    (\<exists>u c. u \<in> waiting_on k s \<and> u \<noteq> t \<and> s' = goes_on t c (woken {u} s) \<and> claim s t = Suc (claim s' t))"
  using assms(2)
proof cases
  case (run a c d r)
  have "takes a \<Longrightarrow> avail d < avail (mo_data s)" and "\<not> takes a \<Longrightarrow> avail d \<le> avail (mo_data s) + (if gives a then 1 else 0)"
    using take_one give_one run guarded_step(2) [of s t a c] assms(3) guard_iff [of "mo_data s"]
    by (auto simp: waits_inv_def)
  moreover have "gives a \<longrightarrow> 1 \<le> pending k c" using assms(1) run by (simp add: sleeper_ok_def serving_def)
  ultimately have "avail (mo_data s') + claim s t \<le> avail (mo_data s) + claim s' t"
    using run by (auto simp: claim_def split: if_splits)
  moreover have "waiting_on k s' \<subseteq> waiting_on k s" using run by (auto simp: waiting_on_def)
  ultimately show ?thesis by blast
next
  case (sleep j c)
  have "wait_ok s t" using assms(3) by (simp add: waits_inv_def)
  with sleep have "j = k \<longrightarrow> avail (mo_data s) = 0" using guard_iff [of "mo_data s"] by (auto simp: wait_ok_def)
  with sleep show ?thesis using assms(1) by (cases "j = k") (auto simp: claim_def sleeper_ok_def serving_def waiting_on_def)
next
  case (notify_one j c u)
  then have "u \<noteq> t" by (auto simp: waiting_on_def)
  with notify_one show ?thesis
    by (cases "j = k") (auto simp: claim_def waiting_on_def goes_on_def split: if_splits)
next
  case (notify_none j c)
  then show ?thesis by (cases "j = k") (auto simp: claim_def waiting_on_def)
next
  case (notify_all g j c)
  then show ?thesis using assms(1) by (simp add: sleeper_ok_def serving_def)
next
  case (while g j c)
  then show ?thesis by (auto simp: claim_def waiting_on_def Condition_wait_code)
qed (auto simp: claim_def waiting_on_def)

lemma no_lost_wakeup_step:
  assumes ok: "lock_ok s" "sleepers_ok s" "no_lost_wakeup T s" and g: "waits_inv s" and T: "finite T" "idle_outside T s"
    and st: "monitor_step test act t s (Inr s')"
  shows "no_lost_wakeup T s'"
proof -
  have t: "t \<in> T" using step_code_self [OF st] T(2) by (auto simp: idle_outside_def)
  have others: "claim s u \<le> claim s' u" if "u \<noteq> t" for u using claim_others [OF ok(1) st that] .
  have sum: "(\<Sum>u\<in>T. claim s u) + claim s' t \<le> (\<Sum>u\<in>T. claim s' u) + claim s t"
    by (rule sum_change [OF T(1) t]) (rule others)
  have "sleeper_ok s t" using ok(2) by (simp add: sleepers_ok_def)
  from claim_self [OF this st g] show ?thesis
  proof (elim disjE exE conjE)
    assume "waiting_on k s' \<subseteq> waiting_on k s" "avail (mo_data s') + claim s t \<le> avail (mo_data s) + claim s' t"
    then show ?thesis using ok(3) sum by (auto simp: no_lost_wakeup_def)
  next
    fix u c
    assume u: "u \<in> waiting_on k s" "u \<noteq> t" and s': "s' = goes_on t c (woken {u} s)" and c: "claim s t = Suc (claim s' t)"
    have "mo_code s u \<noteq> []" using u(1) ok(1) by (auto simp: waiting_on_def lock_ok_def thread_ok_def)
    then have uT: "u \<in> T" using T(2) by (auto simp: idle_outside_def)
    have cu: "claim s u = 0" "1 \<le> claim s' u"
      using claim_woken [OF ok(2) u(1)] u(2) by (simp_all add: s' claim_def)
    define T' where "T' = T - {u}"
    have T': "finite T'" "t \<in> T'" using T t u(2) by (auto simp: T'_def)
    have "(\<Sum>v\<in>T'. claim s v) + claim s' t \<le> (\<Sum>v\<in>T'. claim s' v) + claim s t"
      by (rule sum_change [OF T']) (rule others)
    moreover have "(\<Sum>v\<in>T. f v) = f u + (\<Sum>v\<in>T'. f v)" for f :: "int \<Rightarrow> nat"
      unfolding T'_def by (rule sum.remove [OF T(1) uT])
    ultimately have "(\<Sum>v\<in>T. claim s v) \<le> (\<Sum>v\<in>T. claim s' v)" using cu c by simp
    moreover have "mo_data s' = mo_data s" by (simp add: s')
    moreover have "waiting_on k s \<noteq> {}" using u(1) by auto
    ultimately show ?thesis using ok(3) by (auto simp: no_lost_wakeup_def)
  qed (auto simp: no_lost_wakeup_def)
qed

definition condition_inv :: "int set \<Rightarrow> ('g, 'a, 'd, 'r) monitor \<Rightarrow> bool" where
  "condition_inv T s \<longleftrightarrow> waits_inv s \<and> idle_outside T s \<and> sleepers_ok s \<and> no_lost_wakeup T s"

lemma condition_inv_lock: "condition_inv T s \<Longrightarrow> lock_ok s"
  by (simp add: condition_inv_def waits_inv_def)

lemma condition_inv_guards: "condition_inv T s \<Longrightarrow> guards_ok s"
  by (simp add: condition_inv_def waits_inv_def)

lemma condition_inv_step:
  assumes "finite T" and inv: "condition_inv T s" and st: "monitor_step test act t s (Inr s')"
  shows "condition_inv T s'"
proof -
  have ok: "waits_inv s" "idle_outside T s" "sleepers_ok s" "no_lost_wakeup T s" using inv by (simp_all add: condition_inv_def)
  note lock = condition_inv_lock [OF inv]
  show ?thesis
    unfolding condition_inv_def
    using waits_inv_step [OF ok(1) st] idle_outside_step [OF ok(2) st] sleepers_step [OF lock ok(3) st]
      no_lost_wakeup_step [OF lock ok(3,4,1) assms(1) ok(2) st] by simp
qed

lemma condition_inv_wake:
  assumes "finite T" and "condition_inv T s" and "spurious_wakeup s s'"
  shows "condition_inv T s'"
proof -
  obtain u j where u: "mo_waits s u = Some j" "s' = woken {u} s" using assms(3) by (auto elim: spurious_wakeup.cases)
  have "claim s v \<le> claim s' v" for v by (simp add: claim_def u(2))
  then have "(\<Sum>v\<in>T. claim s v) \<le> (\<Sum>v\<in>T. claim s' v)" by (rule sum_mono)
  moreover have "waiting_on k s' \<subseteq> waiting_on k s" by (auto simp: u(2) waiting_on_def split: if_splits)
  ultimately have "no_lost_wakeup T s'" using assms(2) by (auto simp: condition_inv_def no_lost_wakeup_def u(2))
  moreover have "sleepers_ok s'" using assms(2) by (auto simp: condition_inv_def sleepers_ok_def sleeper_ok_def u(2))
  ultimately show ?thesis
    using assms(2) waits_inv_wake [OF _ assms(3)] by (simp add: condition_inv_def idle_outside_def u(2))
qed

lemma condition_inv_run:
  "monitor_run test act s0 s \<Longrightarrow> finite T \<Longrightarrow> condition_inv T s0 \<Longrightarrow> condition_inv T s"
  by (induction rule: monitor_run.induct) (blast intro: condition_inv_step condition_inv_wake)+

lemma serves_awaits: "serves k guard takes gives c \<Longrightarrow> awaits k guard c"
  by (induction c rule: awaits.induct) (auto split: if_splits)

lemma condition_inv_new:
  assumes code: "\<forall>t. disciplined Free (code t) \<and> serves k guard takes gives (code t) \<and> guarded guard takes False (code t)"
    and "code 0 = []" and "\<forall>t. t \<notin> T \<longrightarrow> code t = []"
  shows "condition_inv T (MutexLock_new data code)"
proof -
  have "sleep_of (code t) = None" for t using code serves_awake(2) [of k guard takes gives "code t"] by simp
  moreover have "waits_inv (MutexLock_new data code)" by (rule waits_inv_new) (use assms serves_awaits in auto)
  ultimately show ?thesis
    using assms by (simp add: condition_inv_def idle_outside_def sleepers_ok_def sleeper_ok_def serving_def
        no_lost_wakeup_def MutexLock_new_def waiting_on_def)
qed

text \<open>Where nothing happens any more, who sleeps has nothing to wake up for.\<close>

theorem stuck_sleepers:
  assumes "condition_inv T s" and "monitor_stuck test act s" and "mo_waits s t = Some k"
  shows "avail (mo_data s) = 0"
proof -
  have "claim s u = 0" for u
    using stuck_waits [OF condition_inv_lock [OF assms(1)] assms(2), of u] by (auto simp: claim_def)
  then show ?thesis using assms(1,3) by (auto simp: condition_inv_def no_lost_wakeup_def waiting_on_def)
qed

end

section \<open>Broadcasts\<close>

text \<open>A condition for something that comes once: an action in \<open>opens\<close> makes the guard false, and the signal
  that follows at once wakes everybody, or the only thread in \<open>W\<close> that ever waits.\<close>

fun announces :: "('a \<Rightarrow> bool) \<Rightarrow> (('g, 'a) instr \<Rightarrow> bool) \<Rightarrow> ('g, 'a) code \<Rightarrow> bool" where
  "announces opens signal [] = True"
| "announces opens signal (Run a # c) = ((opens a \<longrightarrow> (\<exists>i c'. c = i # c' \<and> signal i)) \<and> announces opens signal c)"
| "announces opens signal (_ # c) = announces opens signal c"

lemma announces_append:
  "announces opens signal c \<Longrightarrow> announces opens signal c' \<Longrightarrow> announces opens signal (c @ c')"
  by (induction opens signal c rule: announces.induct) auto

definition alone :: "nat \<Rightarrow> int set \<Rightarrow> int \<Rightarrow> ('g, 'a) instr \<Rightarrow> bool" where
  "alone k W t i \<longleftrightarrow> t \<in> W \<or> i \<noteq> Cond_wait k \<and> (\<forall>g. i \<noteq> While_wait g k)"

locale broadcast = wait_guard test act k guard takes
  for test :: "'g \<Rightarrow> 'd \<Rightarrow> bool" and act :: "'a \<Rightarrow> 'd \<Rightarrow> ('d \<times> 'r) result"
    and k :: nat and guard :: 'g and takes :: "'a \<Rightarrow> bool" +
  fixes opens :: "'a \<Rightarrow> bool" and signal :: "('g, 'a) instr \<Rightarrow> bool" and W :: "int set"
  assumes opened: "act a d = Inr (d', r) \<Longrightarrow> test guard d \<Longrightarrow> \<not> test guard d' \<Longrightarrow>
      opens a \<and> (\<forall>g. signal (Notify_all_if g k) \<longrightarrow> test g d')"
    and signals: "signal i \<Longrightarrow> (\<exists>g. i = Notify_all_if g k) \<or> i = Notify k \<and> (\<exists>w. W \<subseteq> {w})"
begin

definition ringing :: "('g, 'a, 'd, 'r) monitor \<Rightarrow> int \<Rightarrow> bool" where
  "ringing s t \<longleftrightarrow> (\<exists>i c. mo_code s t = i # c \<and> signal i \<and> (\<forall>g. i = Notify_all_if g k \<longrightarrow> test g (mo_data s)))"

definition broadcast_inv :: "('g, 'a, 'd, 'r) monitor \<Rightarrow> bool" where
  "broadcast_inv s \<longleftrightarrow> waits_inv s \<and> vocabulary (alone k W) s \<and> (\<forall>t. announces opens signal (mo_code s t)) \<and>
     (waiting_on k s \<noteq> {} \<and> \<not> test guard (mo_data s) \<longrightarrow> (\<exists>t. ringing s t))"

lemma ringing_owner: "lock_ok s \<Longrightarrow> ringing s t \<Longrightarrow> level s t = Owned"
  using lock_okD [of s t] signals by (fastforce simp: ringing_def)

lemma only_owner_moves:
  assumes "lock_ok s" and "level s u = Owned" and "monitor_step test act t s r"
  shows "t = u"
proof (rule ccontr)
  assume "t \<noteq> u"
  then have free: "level s t = Free" "mo_mutex s \<noteq> None" using assms(2) by (auto simp: level_def split: if_splits)
  from assms(3) show False using lock_okD [OF assms(1), of t] free by cases auto
qed

lemma ring_step:
  assumes inv: "broadcast_inv s" and "ringing s t" and st: "monitor_step test act t s (Inr s')"
  shows "waiting_on k s' = {}"
proof -
  obtain i c where i: "mo_code s t = i # c" "signal i" "\<And>g. i = Notify_all_if g k \<Longrightarrow> test g (mo_data s)"
    using assms(2) by (auto simp: ringing_def)
  have W: "waiting_on k s \<subseteq> W" using inv by (auto simp: broadcast_inv_def vocabulary_def alone_def waiting_on_def)
  from signals [OF i(2)] show ?thesis
  proof (elim disjE exE conjE)
    fix g assume g: "i = Notify_all_if g k"
    from st show ?thesis using g i(1,3) by cases (auto simp: waiting_on_def)
  next
    fix w assume w: "i = Notify k" "W \<subseteq> {w}"
    from st show ?thesis using w i(1) W by cases (auto simp: waiting_on_def split: if_splits)
  qed
qed

lemma alone_wait: "alone k W t (While_wait g j) \<Longrightarrow> \<forall>i \<in> set (Condition_wait j). alone k W t i"
  by (auto simp: alone_def Condition_wait_code)

lemma broadcast_inv_step:
  assumes inv: "broadcast_inv s" and st: "monitor_step test act t s (Inr s')"
  shows "broadcast_inv s'"
proof -
  have ok: "waits_inv s" "vocabulary (alone k W) s" and an: "announces opens signal (mo_code s u)" for u
    using inv by (simp_all add: broadcast_inv_def)
  have lock: "lock_ok s" and w: "wait_ok s t" using ok(1) by (simp_all add: waits_inv_def)
  have "announces opens signal (mo_code s' t)"
    using st an [of t] by cases (auto simp: Condition_wait_code)
  then have an': "announces opens signal (mo_code s' u)" for u
    using an [of u] step_code_others [OF st, of u] by (cases "u = t") simp_all
  have "\<exists>u. ringing s' u" if h: "waiting_on k s' \<noteq> {}" "\<not> test guard (mo_data s')"
  proof (cases "waiting_on k s \<noteq> {} \<and> \<not> test guard (mo_data s)")
    case True
    then obtain u where u: "ringing s u" using inv by (auto simp: broadcast_inv_def)
    then have "t = u" using only_owner_moves [OF lock ringing_owner [OF lock u] st] by simp
    then show ?thesis using ring_step [OF inv u] st h(1) by simp
  next
    case False
    show ?thesis
      using st
    proof cases
      case (run a c d r)
      then have "test guard (mo_data s)" using False h(1) by (auto simp: waiting_on_def)
      then have o: "opens a" "\<And>g. signal (Notify_all_if g k) \<Longrightarrow> test g d"
        using opened [OF run(4)] h(2) run(1) by auto
      have "\<exists>i c'. c = i # c' \<and> signal i" using an [of t] run(3) o(1) by simp
      then have "ringing s' t" using run(1) o(2) by (auto simp: ringing_def)
      then show ?thesis ..
    next
      case (sleep j c)
      then show ?thesis using False h w by (cases "j = k") (auto simp: waiting_on_def wait_ok_def split: if_splits)
    qed (use False h in \<open>auto simp: waiting_on_def split: if_splits\<close>)
  qed
  moreover have "vocabulary (alone k W) s'" by (rule vocabulary_step [OF ok(2) _ alone_wait st]) (simp add: alone_def)
  ultimately show ?thesis using waits_inv_step [OF ok(1) st] an' by (auto simp: broadcast_inv_def)
qed

lemma broadcast_inv_wake:
  assumes inv: "broadcast_inv s" and wk: "spurious_wakeup s s'"
  shows "broadcast_inv s'"
proof -
  obtain u where u: "s' = woken {u} s" using wk by (auto elim: spurious_wakeup.cases)
  have "waiting_on k s' \<subseteq> waiting_on k s" by (auto simp: u waiting_on_def split: if_splits)
  moreover have "ringing s' = ringing s" by (simp add: u ringing_def fun_eq_iff)
  moreover have "vocabulary (alone k W) s'" using inv by (auto simp: u broadcast_inv_def vocabulary_def)
  ultimately show ?thesis
    using inv waits_inv_wake [OF _ wk] by (auto simp: broadcast_inv_def u)
qed

lemma broadcast_inv_run: "monitor_run test act s0 s \<Longrightarrow> broadcast_inv s0 \<Longrightarrow> broadcast_inv s"
  by (induction rule: monitor_run.induct) (blast intro: broadcast_inv_step broadcast_inv_wake)+

lemma broadcast_inv_new:
  assumes "\<forall>t. disciplined Free (code t) \<and> awaits k guard (code t) \<and> guarded guard takes False (code t) \<and>
      announces opens signal (code t) \<and> (\<forall>i \<in> set (code t). alone k W t i)"
    and "code 0 = []"
  shows "broadcast_inv (MutexLock_new data code)"
  using assms waits_inv_new [of code data]
  by (simp add: broadcast_inv_def vocabulary_def MutexLock_new_def waiting_on_def)

text \<open>Where nothing happens any more, who sleeps waits for what is not there.\<close>

lemma stuck_waiters:
  assumes inv: "broadcast_inv s" and stuck: "monitor_stuck test act s" and "mo_waits s t = Some k"
  shows "test guard (mo_data s)"
proof (rule ccontr)
  assume "\<not> test guard (mo_data s)"
  then obtain u where u: "ringing s u" using inv assms(3) by (auto simp: broadcast_inv_def waiting_on_def)
  have lock: "lock_ok s" using inv by (simp add: broadcast_inv_def waits_inv_def)
  have "mo_waits s u = None"
    using ringing_owner [OF lock u] lock by (auto simp: lock_ok_def thread_ok_def)
  then show False using stuck_waits [OF lock stuck, of u] u by (auto simp: ringing_def)
qed

end

end
