(* ===== verification/Blocking_Queue.thy ===== *)
theory Blocking_Queue
  imports Conditions
begin

text \<open>
  \<open>src/muduo/base/BlockingQueue.h\<close>: the unbounded queue between threads.

  \<open>std::deque\<close> is a list. The threads are the ones that call the queue; \<open>calls t\<close> is what thread \<open>t\<close> calls,
  in this order, and nothing at all for a number that is no thread.
\<close>

datatype queue_test = Queue_empty | Queue_full

datatype 'x queue_action = Push_back 'x | Pop_front | Read_size | Read_capacity | Read_test queue_test

datatype 'x queue_result = Returns | Took 'x | Number int | Truth bool

section \<open>The class\<close>

definition notEmpty :: nat where "notEmpty = 0"
definition notFull :: nat where "notFull = 1"

type_synonym 'x queue_code = "(queue_test, 'x queue_action) code"

definition BlockingQueue_put :: "'x \<Rightarrow> 'x queue_code" where
  "BlockingQueue_put x = MutexLockGuard ([Run (Push_back x)] @ Condition_notify notEmpty)"

definition BlockingQueue_take :: "'x queue_code" where
  "BlockingQueue_take = MutexLockGuard [While_wait Queue_empty notEmpty, Assert_not Queue_empty, Run Pop_front]"

definition BlockingQueue_size :: "'x queue_code" where
  "BlockingQueue_size = MutexLockGuard [Run Read_size]"

text \<open>The members of \<open>queue_\<close> that the code uses; a deque is never full.\<close>

fun deque_test :: "queue_test \<Rightarrow> 'x list \<Rightarrow> bool" where
  "deque_test Queue_empty q \<longleftrightarrow> q = []"
| "deque_test Queue_full q \<longleftrightarrow> False"

fun deque_act :: "'x queue_action \<Rightarrow> 'x list \<Rightarrow> ('x list \<times> 'x queue_result) result" where
  "deque_act (Push_back x) q = Inr (q @ [x], Returns)"
| "deque_act Pop_front q = (case q of [] \<Rightarrow> Inl Undefined_behaviour | x # q' \<Rightarrow> Inr (q', Took x))"
| "deque_act Read_size q = Inr (q, Number (int (length q)))"
| "deque_act Read_capacity q = Inl Undefined_behaviour"
| "deque_act (Read_test g) q = Inr (q, Truth (deque_test g q))"

datatype 'x queue_call = Put 'x | Take | Size

fun BlockingQueue_call :: "'x queue_call \<Rightarrow> 'x queue_code" where
  "BlockingQueue_call (Put x) = BlockingQueue_put x"
| "BlockingQueue_call Take = BlockingQueue_take"
| "BlockingQueue_call Size = BlockingQueue_size"

type_synonym 'x queue_monitor = "(queue_test, 'x queue_action, 'x list, 'x queue_result) monitor"

definition BlockingQueue_threads :: "(int \<Rightarrow> 'x queue_call list) \<Rightarrow> 'x queue_monitor" where
  "BlockingQueue_threads calls = MutexLock_new [] (\<lambda>t. concat (map BlockingQueue_call (calls t)))"

abbreviation "queue_step \<equiv> monitor_step deque_test deque_act"
abbreviation "queue_run \<equiv> monitor_run deque_test deque_act"
abbreviation "queue_stuck \<equiv> monitor_stuck deque_test deque_act"

section \<open>First in, first out\<close>

text \<open>The elements put and the elements taken, in the order in which it happened.\<close>

fun elements_put :: "(int \<times> 'x queue_action \<times> 'x queue_result) list \<Rightarrow> 'x list" where
  "elements_put [] = []"
| "elements_put ((t, Push_back x, r) # l) = x # elements_put l"
| "elements_put (_ # l) = elements_put l"

fun elements_taken :: "(int \<times> 'x queue_action \<times> 'x queue_result) list \<Rightarrow> 'x list" where
  "elements_taken [] = []"
| "elements_taken ((t, Pop_front, Took x) # l) = x # elements_taken l"
| "elements_taken (_ # l) = elements_taken l"

lemma deque_fifo: "replays deque_act q l q' \<Longrightarrow> q @ elements_put l = elements_taken l @ q'"
proof (induction l arbitrary: q)
  case (Cons e l)
  obtain t a r where e: "e = (t, a, r)" by (cases e)
  then show ?case using Cons.prems by (cases a) (auto split: list.splits dest: Cons.IH)
qed simp

section \<open>The condition \<open>notEmpty_\<close>\<close>

definition pops :: "'x queue_action \<Rightarrow> bool" where "pops a \<longleftrightarrow> a = Pop_front"
definition pushes :: "'x queue_action \<Rightarrow> bool" where "pushes a \<longleftrightarrow> (\<exists>x. a = Push_back x)"

lemma pops_simps [simp]:
  "pops Pop_front" "\<not> pops (Push_back x)" "\<not> pops Read_size" "\<not> pops Read_capacity" "\<not> pops (Read_test g)"
  "pushes (Push_back x)" "\<not> pushes Pop_front" "\<not> pushes Read_size" "\<not> pushes Read_capacity" "\<not> pushes (Read_test g)"
  by (simp_all add: pops_def pushes_def)

interpretation not_empty: condition deque_test deque_act notEmpty Queue_empty pops pushes length
proof
  fix a :: "'a queue_action" and d d' :: "'a list" and r
  show "\<not> pops a \<Longrightarrow> deque_act a d = Inr (d', r) \<Longrightarrow> length d' \<le> length d + (if pushes a then 1 else 0)"
    by (cases a) auto
qed (auto simp: pops_def split: list.splits)

lemmas monitor_code = MutexLockGuard_def MutexLock_lock_def MutexLock_unlock_def Condition_notify_def Condition_wait_code

lemmas BlockingQueue_code = BlockingQueue_put_def BlockingQueue_take_def BlockingQueue_size_def monitor_code

fun queue_word :: "(queue_test, 'x queue_action) instr \<Rightarrow> bool" where
  "queue_word (While_wait g j) \<longleftrightarrow> g = Queue_empty \<and> j = notEmpty"
| "queue_word (Cond_wait j) \<longleftrightarrow> j = notEmpty"
| "queue_word (Assert_not g) \<longleftrightarrow> g = Queue_empty"
| "queue_word (Run a) \<longleftrightarrow> a \<noteq> Read_capacity"
| "queue_word (Notify_all_if g j) \<longleftrightarrow> False"
| "queue_word _ \<longleftrightarrow> True"

text \<open>The checks of the code, one call after the other.\<close>

lemma BlockingQueue_checks:
  "disciplined Free (concat (map BlockingQueue_call cs))"
  "serves notEmpty Queue_empty pops pushes (concat (map BlockingQueue_call cs))"
  "guarded Queue_empty pops b (concat (map BlockingQueue_call cs))"
  "\<forall>i \<in> set (concat (map BlockingQueue_call cs)). queue_word i"
  "actions (concat (map BlockingQueue_call cs)) =
     map (\<lambda>c. case c of Put x \<Rightarrow> Push_back x | Take \<Rightarrow> Pop_front | Size \<Rightarrow> Read_size) cs"
proof (induction cs arbitrary: b)
  case (Cons c cs)
  { case 1 then show ?case using Cons.IH(1) by (cases c) (simp_all add: BlockingQueue_code) }
  { case 2 then show ?case using Cons.IH(2) by (cases c) (simp_all add: BlockingQueue_code) }
  { case 3 then show ?case using Cons.IH(3) by (cases c) (simp_all add: BlockingQueue_code) }
  { case 4 then show ?case using Cons.IH(4) by (cases c) (simp_all add: BlockingQueue_code) }
  { case 5 then show ?case using Cons.IH(5) by (cases c) (simp_all add: BlockingQueue_code) }
qed simp_all


lemma BlockingQueue_threads_start:
  assumes "\<forall>t. t \<notin> T \<longrightarrow> calls t = []" and "0 \<notin> T"
  shows "lock_ok (BlockingQueue_threads calls)" and "idle_outside T (BlockingQueue_threads calls)"
proof -
  show "lock_ok (BlockingQueue_threads calls)"
    unfolding BlockingQueue_threads_def by (rule lock_ok_new) (use assms BlockingQueue_checks in auto)
  show "idle_outside T (BlockingQueue_threads calls)"
    using assms by (simp add: BlockingQueue_threads_def MutexLock_new_def idle_outside_def)
qed

section \<open>The queue between threads\<close>

text \<open>
  C22: the queue between threads. Whatever any number of threads call in whatever interleaving, with
  wake-ups without a reason too, no assertion fails and the mutex is used as it must be; the elements taken
  are the first ones put, in this order, and the rest is in the queue; every thread does what it calls in its
  order; where nothing happens any more every thread has finished or waits in \<open>take\<close>, on an empty queue, so
  no wake-up is lost; and no schedule goes on for ever by steps of the threads alone (without further wake-ups
  for no reason).
\<close>

theorem BlockingQueue_threads_safe:
  assumes "finite T" and "0 \<notin> T" and "\<forall>t. t \<notin> T \<longrightarrow> calls t = []" and run: "queue_run (BlockingQueue_threads calls) s"
  shows "(\<forall>t e. \<not> queue_step t s (Inl e)) \<and>
    elements_put (mo_log s) = elements_taken (mo_log s) @ mo_data s \<and>
    (\<forall>t. done_by t (mo_log s) @ actions (mo_code s t) =
       map (\<lambda>c. case c of Put x \<Rightarrow> Push_back x | Take \<Rightarrow> Pop_front | Size \<Rightarrow> Read_size) (calls t)) \<and>
    (queue_stuck s \<longrightarrow> (\<forall>t. mo_code s t = [] \<or> mo_waits s t = Some notEmpty \<and> mo_data s = [])) \<and>
    wf {(s', s). queue_run (BlockingQueue_threads calls) s \<and> (\<exists>t. queue_step t s (Inr s'))}"
proof (intro conjI)
  let ?s0 = "BlockingQueue_threads calls"
  have log: "mo_log ?s0 = []" "mo_data ?s0 = []" and code: "mo_code ?s0 = (\<lambda>t. concat (map BlockingQueue_call (calls t)))"
    by (simp_all add: BlockingQueue_threads_def MutexLock_new_def)
  have inv0: "not_empty.condition_inv T ?s0"
    unfolding BlockingQueue_threads_def
    by (rule not_empty.condition_inv_new) (use assms(2,3) BlockingQueue_checks in \<open>auto\<close>)
  have inv: "not_empty.condition_inv T s" by (rule not_empty.condition_inv_run [OF run assms(1) inv0])
  have lock: "lock_ok s" by (rule not_empty.condition_inv_lock [OF inv])
  have guards: "not_empty.guards_ok s" by (rule not_empty.condition_inv_guards [OF inv])
  have words: "vocabulary (\<lambda>_. queue_word) s"
    by (rule vocabulary_run [OF run])
      (use BlockingQueue_checks(4) in \<open>auto simp: vocabulary_def BlockingQueue_threads_def MutexLock_new_def Condition_wait_code\<close>)
  show "\<forall>t. done_by t (mo_log s) @ actions (mo_code s t) =
       map (\<lambda>c. case c of Put x \<Rightarrow> Push_back x | Take \<Rightarrow> Pop_front | Size \<Rightarrow> Read_size) (calls t)"
    using program_order [OF run log(1)] by (simp add: code BlockingQueue_checks)
  show "elements_put (mo_log s) = elements_taken (mo_log s) @ mo_data s"
    using deque_fifo [OF replays_run [OF run log(1)]] by (simp add: log)
  show "wf {(s', s). queue_run ?s0 s \<and> (\<exists>t. queue_step t s (Inr s'))}"
    by (rule monitor_ends [OF assms(1)]) (use assms(3) in \<open>simp add: idle_outside_def code\<close>)
  show "\<forall>t e. \<not> queue_step t s (Inl e)"
  proof (intro allI notI)
    fix t e
    assume "queue_step t s (Inl e)"
    moreover have "\<forall>i \<in> set (mo_code s t). queue_word i" using words by (simp add: vocabulary_def)
    ultimately show False
      using lock_failures [OF lock, of deque_test deque_act t e]
        not_empty.guarded_step [OF guards, of t] by (auto elim!: deque_act.elims split: list.splits)
  qed
  show "queue_stuck s \<longrightarrow> (\<forall>t. mo_code s t = [] \<or> mo_waits s t = Some notEmpty \<and> mo_data s = [])"
  proof (intro impI allI)
    fix t
    assume "queue_stuck s"
    then show "mo_code s t = [] \<or> mo_waits s t = Some notEmpty \<and> mo_data s = []"
      using stuck_waits [OF lock, of deque_test deque_act t] not_empty.stuck_sleepers [OF inv, of t] words
      by (auto simp: vocabulary_def)
  qed
qed


text \<open>A thread that takes three times and one that puts twice: the first sleeps at once, is woken, takes both and
  sleeps for good.\<close>

theorem BlockingQueue_threads_safe_witness:
  "\<exists>s. queue_run (BlockingQueue_threads ((\<lambda>_. [])(1 := [Put CHR ''a'', Put CHR ''b''], 2 := [Take, Take, Take]))) s \<and>
     mo_log s = [(1, Push_back CHR ''a'', Returns), (2, Pop_front, Took CHR ''a''),
                 (1, Push_back CHR ''b'', Returns), (2, Pop_front, Took CHR ''b'')] \<and>
     mo_waits s 2 = Some notEmpty \<and> mo_code s 1 = [] \<and> (\<forall>t e. \<not> queue_step t s (Inl e))"
proof -
  define calls :: "int \<Rightarrow> char queue_call list" where "calls = (\<lambda>_. [])(1 := [Put CHR ''a'', Put CHR ''b''], 2 := [Take, Take, Take])"
  define turns :: "int list" where
    "turns = replicate 5 2 @ replicate 6 1 @ replicate 7 2 @ replicate 6 1 @ replicate 7 2 @ replicate 5 2"
  obtain s where s: "exec_schedule deque_test deque_act [1, 2] turns (BlockingQueue_threads calls) = Some s"
    "mo_log s = [(1, Push_back CHR ''a'', Returns), (2, Pop_front, Took CHR ''a''),
                 (1, Push_back CHR ''b'', Returns), (2, Pop_front, Took CHR ''b'')]"
    "mo_waits s 2 = Some notEmpty" "mo_code s 1 = []"
    by (simp add: calls_def turns_def BlockingQueue_threads_def MutexLock_new_def BlockingQueue_code eval_nat_numeral)
  have calls: "\<forall>t. t \<notin> {1, 2} \<longrightarrow> calls t = []" by (simp add: calls_def)
  have "queue_run (BlockingQueue_threads calls) s"
    using exec_schedule_from [OF s(1)] BlockingQueue_threads_start [of "{1, 2}" calls] calls by simp
  with BlockingQueue_threads_safe [of "{1, 2}" calls s] calls s show ?thesis unfolding calls_def by auto
qed

end
