(* ===== verification/Bounded_Queue.thy ===== *)
theory Bounded_Queue
  imports Blocking_Queue
begin

text \<open>
  \<open>src/muduo/base/BoundedBlockingQueue.h\<close>: the queue of a fixed capacity.

  \<open>boost::circular_buffer\<close> is a parameter, a record of the members the code uses; what Boost documents of
  them is the locale \<open>circular_buffer\<close>.
\<close>

section \<open>The ring\<close>

record ('b, 'x) circular =
  cb_make :: "nat \<Rightarrow> 'b"
  cb_empty :: "'b \<Rightarrow> bool"
  cb_full :: "'b \<Rightarrow> bool"
  cb_size :: "'b \<Rightarrow> nat"
  cb_capacity :: "'b \<Rightarrow> nat"
  cb_push_back :: "'x \<Rightarrow> 'b \<Rightarrow> 'b"
  cb_front :: "'b \<Rightarrow> 'x"
  cb_pop_front :: "'b \<Rightarrow> 'b"

text \<open>A full buffer that is pushed to loses its first element, and one without capacity stays empty.\<close>

locale circular_buffer =
  fixes cb :: "('b, 'x) circular" and contents :: "'b \<Rightarrow> 'x list"
  assumes make: "contents (cb_make cb n) = []" "cb_capacity cb (cb_make cb n) = n"
    and size: "cb_size cb b = length (contents b)" "length (contents b) \<le> cb_capacity cb b"
    and empty: "cb_empty cb b \<longleftrightarrow> contents b = []"
    and full: "cb_full cb b \<longleftrightarrow> length (contents b) = cb_capacity cb b"
    and push_back: "contents (cb_push_back cb x b) =
        (if length (contents b) < cb_capacity cb b then contents b @ [x] else tl (contents b @ [x]))"
      "cb_capacity cb (cb_push_back cb x b) = cb_capacity cb b"
    and front: "contents b \<noteq> [] \<Longrightarrow> cb_front cb b = hd (contents b)"
    and pop_front: "contents b \<noteq> [] \<Longrightarrow> contents (cb_pop_front cb b) = tl (contents b)"
      "contents b \<noteq> [] \<Longrightarrow> cb_capacity cb (cb_pop_front cb b) = cb_capacity cb b"
begin

end

section \<open>The class\<close>

definition BoundedBlockingQueue_put :: "'x \<Rightarrow> 'x queue_code" where
  "BoundedBlockingQueue_put x =
     MutexLockGuard ([While_wait Queue_full notFull, Assert_not Queue_full, Run (Push_back x)] @ Condition_notify notEmpty)"

definition BoundedBlockingQueue_take :: "'x queue_code" where
  "BoundedBlockingQueue_take =
     MutexLockGuard ([While_wait Queue_empty notEmpty, Assert_not Queue_empty, Run Pop_front] @ Condition_notify notFull)"

definition BoundedBlockingQueue_empty :: "'x queue_code" where
  "BoundedBlockingQueue_empty = MutexLockGuard [Run (Read_test Queue_empty)]"

definition BoundedBlockingQueue_full :: "'x queue_code" where
  "BoundedBlockingQueue_full = MutexLockGuard [Run (Read_test Queue_full)]"

definition BoundedBlockingQueue_size :: "'x queue_code" where
  "BoundedBlockingQueue_size = MutexLockGuard [Run Read_size]"

definition BoundedBlockingQueue_capacity :: "'x queue_code" where
  "BoundedBlockingQueue_capacity = MutexLockGuard [Run Read_capacity]"

fun ring_test :: "('b, 'x) circular \<Rightarrow> queue_test \<Rightarrow> 'b \<Rightarrow> bool" where
  "ring_test cb Queue_empty b \<longleftrightarrow> cb_empty cb b"
| "ring_test cb Queue_full b \<longleftrightarrow> cb_full cb b"

fun ring_act :: "('b, 'x) circular \<Rightarrow> 'x queue_action \<Rightarrow> 'b \<Rightarrow> ('b \<times> 'x queue_result) result" where
  "ring_act cb (Push_back x) b = Inr (cb_push_back cb x b, Returns)"
| "ring_act cb Pop_front b =
     (if cb_empty cb b then Inl Undefined_behaviour else Inr (cb_pop_front cb b, Took (cb_front cb b)))"
| "ring_act cb Read_size b = Inr (b, Number (int (cb_size cb b)))"
| "ring_act cb Read_capacity b = Inr (b, Number (int (cb_capacity cb b)))"
| "ring_act cb (Read_test g) b = Inr (b, Truth (ring_test cb g b))"

datatype 'x bounded_call = Bounded_put 'x | Bounded_take | Bounded_empty | Bounded_full | Bounded_size | Bounded_capacity

fun BoundedBlockingQueue_call :: "'x bounded_call \<Rightarrow> 'x queue_code" where
  "BoundedBlockingQueue_call (Bounded_put x) = BoundedBlockingQueue_put x"
| "BoundedBlockingQueue_call Bounded_take = BoundedBlockingQueue_take"
| "BoundedBlockingQueue_call Bounded_empty = BoundedBlockingQueue_empty"
| "BoundedBlockingQueue_call Bounded_full = BoundedBlockingQueue_full"
| "BoundedBlockingQueue_call Bounded_size = BoundedBlockingQueue_size"
| "BoundedBlockingQueue_call Bounded_capacity = BoundedBlockingQueue_capacity"

fun bounded_action :: "'x bounded_call \<Rightarrow> 'x queue_action" where
  "bounded_action (Bounded_put x) = Push_back x"
| "bounded_action Bounded_take = Pop_front"
| "bounded_action Bounded_empty = Read_test Queue_empty"
| "bounded_action Bounded_full = Read_test Queue_full"
| "bounded_action Bounded_size = Read_size"
| "bounded_action Bounded_capacity = Read_capacity"

text \<open>\<open>maxSize\<close> is the capacity as \<open>circular_buffer\<close> takes it, a \<open>size_t\<close>; the constructor converts its \<open>int\<close>, so
  that a negative one would ask for a capacity near \<open>2 ^ 64\<close>.\<close>

definition BoundedBlockingQueue_threads ::
  "('b, 'x) circular \<Rightarrow> nat \<Rightarrow> (int \<Rightarrow> 'x bounded_call list) \<Rightarrow>
   (queue_test, 'x queue_action, 'b, 'x queue_result) monitor" where
  "BoundedBlockingQueue_threads cb maxSize calls =
     MutexLock_new (cb_make cb maxSize) (\<lambda>t. concat (map BoundedBlockingQueue_call (calls t)))"

lemmas BoundedBlockingQueue_code =
  BoundedBlockingQueue_put_def BoundedBlockingQueue_take_def BoundedBlockingQueue_empty_def
  BoundedBlockingQueue_full_def BoundedBlockingQueue_size_def BoundedBlockingQueue_capacity_def monitor_code

fun bounded_word :: "(queue_test, 'x queue_action) instr \<Rightarrow> bool" where
  "bounded_word (While_wait g j) \<longleftrightarrow> g = Queue_empty \<and> j = notEmpty \<or> g = Queue_full \<and> j = notFull"
| "bounded_word (Cond_wait j) \<longleftrightarrow> j = notEmpty \<or> j = notFull"
| "bounded_word (Notify_all_if g j) \<longleftrightarrow> False"
| "bounded_word _ \<longleftrightarrow> True"

lemma conditions_differ [simp]: "notEmpty \<noteq> notFull" "notFull \<noteq> notEmpty"
  by (simp_all add: notEmpty_def notFull_def)

lemma Bounded_checks:
  "disciplined Free (concat (map BoundedBlockingQueue_call cs))"
  "serves notEmpty Queue_empty pops pushes (concat (map BoundedBlockingQueue_call cs))"
  "serves notFull Queue_full pushes pops (concat (map BoundedBlockingQueue_call cs))"
  "guarded Queue_empty pops False (concat (map BoundedBlockingQueue_call cs))"
  "guarded Queue_full pushes False (concat (map BoundedBlockingQueue_call cs))"
  "\<forall>i \<in> set (concat (map BoundedBlockingQueue_call cs)). bounded_word i"
  "actions (concat (map BoundedBlockingQueue_call cs)) = map bounded_action cs"
proof (induction cs)
  case (Cons c cs)
  { case 1 then show ?case using Cons.IH(1) by (cases c) (simp_all add: BoundedBlockingQueue_code) }
  { case 2 then show ?case using Cons.IH(2) by (cases c) (simp_all add: BoundedBlockingQueue_code) }
  { case 3 then show ?case using Cons.IH(3) by (cases c) (simp_all add: BoundedBlockingQueue_code) }
  { case 4 then show ?case using Cons.IH(4) by (cases c) (simp_all add: BoundedBlockingQueue_code) }
  { case 5 then show ?case using Cons.IH(5) by (cases c) (simp_all add: BoundedBlockingQueue_code) }
  { case 6 then show ?case using Cons.IH(6) by (cases c) (simp_all add: BoundedBlockingQueue_code) }
  { case 7 then show ?case using Cons.IH(7) by (cases c) (simp_all add: BoundedBlockingQueue_code) }
qed simp_all

section \<open>Both conditions\<close>

sublocale circular_buffer \<subseteq>
  elements: condition "ring_test cb" "ring_act cb" notEmpty Queue_empty pops pushes "\<lambda>b. length (contents b)"
proof
  fix a :: "'x queue_action" and d d' r
  show "pops a \<Longrightarrow> 0 < length (contents d) \<Longrightarrow> ring_act cb a d = Inr (d', r) \<Longrightarrow> length (contents d') < length (contents d)"
    by (cases a) (auto simp: pop_front split: if_splits)
  show "\<not> pops a \<Longrightarrow> ring_act cb a d = Inr (d', r) \<Longrightarrow>
      length (contents d') \<le> length (contents d) + (if pushes a then 1 else 0)"
    by (cases a) (auto simp: push_back)
qed (simp add: empty)

sublocale circular_buffer \<subseteq>
  slots: condition "ring_test cb" "ring_act cb" notFull Queue_full pushes pops "\<lambda>b. cb_capacity cb b - length (contents b)"
proof
  fix a :: "'x queue_action" and d d' r
  show "ring_test cb Queue_full d \<longleftrightarrow> cb_capacity cb d - length (contents d) = 0" using size(2) [of d] by (auto simp: full)
  show "pushes a \<Longrightarrow> 0 < cb_capacity cb d - length (contents d) \<Longrightarrow> ring_act cb a d = Inr (d', r) \<Longrightarrow>
      cb_capacity cb d' - length (contents d') < cb_capacity cb d - length (contents d)"
    by (cases a) (auto simp: push_back)
  show "\<not> pushes a \<Longrightarrow> ring_act cb a d = Inr (d', r) \<Longrightarrow>
      cb_capacity cb d' - length (contents d') \<le> cb_capacity cb d - length (contents d) + (if pops a then 1 else 0)"
    using size(2) [of d] by (cases a) (auto simp: pop_front empty split: if_splits)
qed


lemma elements_append [simp]:
  "elements_put (l @ l') = elements_put l @ elements_put l'"
  "elements_taken (l @ l') = elements_taken l @ elements_taken l'"
  by (induction l rule: elements_put.induct; simp) (induction l rule: elements_taken.induct; simp)

lemma waits_on_word:
  assumes "vocabulary (\<lambda>_. bounded_word) s"
  shows "mo_waits s t = None \<or> mo_waits s t = Some notEmpty \<or> mo_waits s t = Some notFull"
  using assms by (cases "mo_waits s t") (auto simp: vocabulary_def)

context circular_buffer
begin

abbreviation "threads \<equiv> BoundedBlockingQueue_threads cb"
abbreviation "run_of \<equiv> monitor_run (ring_test cb) (ring_act cb)"
abbreviation "step_of \<equiv> monitor_step (ring_test cb) (ring_act cb)"

lemma threads_fields [simp]:
  "mo_log (threads n calls) = []" "mo_data (threads n calls) = cb_make cb n"
  "mo_code (threads n calls) = (\<lambda>t. concat (map BoundedBlockingQueue_call (calls t)))" "mo_waits (threads n calls) = (\<lambda>_. None)"
  by (simp_all add: BoundedBlockingQueue_threads_def MutexLock_new_def)

lemma bounded_invariants:
  assumes "run_of (threads n calls) s" and T: "finite T" "0 \<notin> T" "\<forall>t. t \<notin> T \<longrightarrow> calls t = []"
  shows "elements.condition_inv T s" and "slots.condition_inv T s" and "vocabulary (\<lambda>_. bounded_word) s"
proof -
  have "elements.condition_inv T (threads n calls)" unfolding BoundedBlockingQueue_threads_def
    by (rule elements.condition_inv_new) (use T(2,3) Bounded_checks in auto)
  then show "elements.condition_inv T s" by (rule elements.condition_inv_run [OF assms(1) T(1)])
  have "slots.condition_inv T (threads n calls)" unfolding BoundedBlockingQueue_threads_def
    by (rule slots.condition_inv_new) (use T(2,3) Bounded_checks in auto)
  then show "slots.condition_inv T s" by (rule slots.condition_inv_run [OF assms(1) T(1)])
  show "vocabulary (\<lambda>_. bounded_word) s"
    by (rule vocabulary_run [OF assms(1)]) (use Bounded_checks(6) in \<open>auto simp: vocabulary_def Condition_wait_code\<close>)
qed

lemma bounded_fifo:
  assumes "run_of (threads n calls) s" and T: "finite T" "0 \<notin> T" "\<forall>t. t \<notin> T \<longrightarrow> calls t = []"
  shows "elements_put (mo_log s) = elements_taken (mo_log s) @ contents (mo_data s) \<and> cb_capacity cb (mo_data s) = n"
  using assms(1)
proof induction
  case start
  then show ?case by (simp add: make)
next
  case (wake s s')
  then show ?case by (auto elim!: spurious_wakeup.cases)
next
  case (step s t s')
  have g: "slots.guards_ok s" by (rule slots.condition_inv_guards [OF bounded_invariants(2) [OF step.hyps(1) T]])
  from step.hyps(2) show ?case
  proof cases
    case (run a c d r)
    then show ?thesis
      using step.IH slots.guarded_step(2) [OF g, of t a c] size(2) [of "mo_data s"]
      by (cases a) (auto simp: push_back pop_front front empty full split: if_splits)
  qed (use step.IH in auto)
qed

lemma bounded_never_fails:
  assumes "run_of (threads n calls) s" and T: "finite T" "0 \<notin> T" "\<forall>t. t \<notin> T \<longrightarrow> calls t = []"
  shows "\<not> step_of t s (Inl e)"
proof
  assume "step_of t s (Inl e)"
  note inv = bounded_invariants [OF assms]
  have lock: "lock_ok s" and g: "elements.guards_ok s" "slots.guards_ok s"
    using elements.condition_inv_lock [OF inv(1)] elements.condition_inv_guards [OF inv(1)] slots.condition_inv_guards [OF inv(2)]
    by simp_all
  from lock_failures [OF lock \<open>step_of t s (Inl e)\<close>] show False
  proof (elim disjE exE conjE)
    fix a c
    assume "mo_code s t = Run a # c" "ring_act cb a (mo_data s) = Inl e"
    then show False using elements.guarded_step(2) [OF g(1), of t a c] by (cases a) (simp_all add: empty split: if_splits)
  next
    fix q c
    assume "mo_code s t = Assert_not q # c" "ring_test cb q (mo_data s)"
    then show False
      using elements.guarded_step(1) [OF g(1), of t c] slots.guarded_step(1) [OF g(2), of t c] by (cases q) simp_all
  qed
qed

lemma bounded_stuck:
  assumes "run_of (threads n calls) s" and T: "finite T" "0 \<notin> T" "\<forall>t. t \<notin> T \<longrightarrow> calls t = []"
    and stuck: "monitor_stuck (ring_test cb) (ring_act cb) s"
  shows "mo_code s t = [] \<or> mo_waits s t = Some notEmpty \<and> contents (mo_data s) = [] \<or>
    mo_waits s t = Some notFull \<and> length (contents (mo_data s)) = n"
proof -
  note inv = bounded_invariants [OF assms(1) T]
  have lock: "lock_ok s" by (rule elements.condition_inv_lock [OF inv(1)])
  have "cb_capacity cb (mo_data s) = n" using bounded_fifo [OF assms(1) T] by simp
  then show ?thesis
    using stuck_waits [OF lock stuck, of t] elements.stuck_sleepers [OF inv(1) stuck, of t]
      slots.stuck_sleepers [OF inv(2) stuck, of t] waits_on_word [OF inv(3), of t] size(2) [of "mo_data s"] by auto
qed

end

section \<open>The bounded queue between threads\<close>

text \<open>
  C23: the bounded queue between threads, on any circular buffer that does what Boost documents. Whatever
  any number of threads call in whatever interleaving, no assertion fails and nothing is overwritten: the
  elements taken are the first ones put, in this order, and the rest, never more than the capacity, is in
  the queue; every thread does what it calls in its order; where nothing happens any more who has not finished
  waits in \<open>take\<close> on an empty queue or in \<open>put\<close> on a full one, so no wake-up is lost on either
  condition and not all wait for each other; and no schedule goes on for ever by steps of the threads alone.
\<close>

theorem BoundedBlockingQueue_threads_safe:
  assumes "circular_buffer cb contents" and "finite T" and "0 \<notin> T" and "\<forall>t. t \<notin> T \<longrightarrow> calls t = []"
    and "monitor_run (ring_test cb) (ring_act cb) (BoundedBlockingQueue_threads cb maxSize calls) s"
  shows "(\<forall>t e. \<not> monitor_step (ring_test cb) (ring_act cb) t s (Inl e)) \<and>
    elements_put (mo_log s) = elements_taken (mo_log s) @ contents (mo_data s) \<and>
    length (contents (mo_data s)) \<le> maxSize \<and>
    (\<forall>t. done_by t (mo_log s) @ actions (mo_code s t) = map bounded_action (calls t)) \<and>
    (monitor_stuck (ring_test cb) (ring_act cb) s \<longrightarrow>
      (\<forall>t. mo_code s t = [] \<or> mo_waits s t = Some notEmpty \<and> contents (mo_data s) = [] \<or>
           mo_waits s t = Some notFull \<and> length (contents (mo_data s)) = maxSize)) \<and>
    wf {(s', s). monitor_run (ring_test cb) (ring_act cb) (BoundedBlockingQueue_threads cb maxSize calls) s \<and>
                 (\<exists>t. monitor_step (ring_test cb) (ring_act cb) t s (Inr s'))}"
proof (intro conjI)
  let ?s0 = "BoundedBlockingQueue_threads cb maxSize calls"
  note run = assms(5) and T = assms(2-4)
  show "\<forall>t e. \<not> monitor_step (ring_test cb) (ring_act cb) t s (Inl e)"
    using circular_buffer.bounded_never_fails [OF assms(1) run T] by blast
  have fifo: "elements_put (mo_log s) = elements_taken (mo_log s) @ contents (mo_data s)" "cb_capacity cb (mo_data s) = maxSize"
    using circular_buffer.bounded_fifo [OF assms(1) run T] by simp_all
  show "elements_put (mo_log s) = elements_taken (mo_log s) @ contents (mo_data s)" by (rule fifo)
  show "length (contents (mo_data s)) \<le> maxSize" using circular_buffer.size(2) [OF assms(1), of "mo_data s"] fifo(2) by simp
  have "mo_log ?s0 = []" and code: "mo_code ?s0 = (\<lambda>t. concat (map BoundedBlockingQueue_call (calls t)))"
    by (simp_all add: BoundedBlockingQueue_threads_def MutexLock_new_def)
  then show "\<forall>t. done_by t (mo_log s) @ actions (mo_code s t) = map bounded_action (calls t)"
    using program_order [OF run] by (simp add: Bounded_checks)
  show "monitor_stuck (ring_test cb) (ring_act cb) s \<longrightarrow>
      (\<forall>t. mo_code s t = [] \<or> mo_waits s t = Some notEmpty \<and> contents (mo_data s) = [] \<or>
           mo_waits s t = Some notFull \<and> length (contents (mo_data s)) = maxSize)"
    using circular_buffer.bounded_stuck [OF assms(1) run T] by blast
  show "wf {(s', s). monitor_run (ring_test cb) (ring_act cb) ?s0 s \<and> (\<exists>t. monitor_step (ring_test cb) (ring_act cb) t s (Inr s'))}"
    by (rule monitor_ends [OF assms(2)]) (use assms(4) in \<open>simp add: idle_outside_def code\<close>)
qed

text \<open>A circular buffer: its capacity, and a list of which the first so many are its elements.\<close>

definition ring_contents :: "nat \<times> 'x list \<Rightarrow> 'x list" where
  "ring_contents b = take (fst b) (snd b)"

definition list_ring :: "(nat \<times> 'x list, 'x) circular" where
  "list_ring =
     \<lparr>cb_make = (\<lambda>n. (n, [])), cb_empty = (\<lambda>b. ring_contents b = []), cb_full = (\<lambda>b. length (ring_contents b) = fst b),
      cb_size = (\<lambda>b. length (ring_contents b)), cb_capacity = fst,
      cb_push_back = (\<lambda>x b. (fst b, (if length (ring_contents b) < fst b then ring_contents b @ [x]
                                    else tl (ring_contents b @ [x])))),
      cb_front = (\<lambda>b. hd (ring_contents b)), cb_pop_front = (\<lambda>b. (fst b, tl (ring_contents b)))\<rparr>"

interpretation ring: circular_buffer list_ring ring_contents
  by unfold_locales (auto simp: list_ring_def ring_contents_def)

text \<open>Capacity 1: the second \<open>put\<close> sleeps until the other thread has taken.\<close>

theorem BoundedBlockingQueue_threads_safe_witness:
  "\<exists>s. monitor_run (ring_test list_ring) (ring_act list_ring) (BoundedBlockingQueue_threads list_ring 1
       ((\<lambda>_. [])(1 := [Bounded_put CHR ''a'', Bounded_put CHR ''b''], 2 := [Bounded_take]))) s \<and>
     elements_taken (mo_log s) = ''a'' \<and> ring_contents (mo_data s) = ''b'' \<and> mo_code s 1 = [] \<and> mo_code s 2 = [] \<and>
     elements_put (mo_log s) = elements_taken (mo_log s) @ ring_contents (mo_data s)"
proof -
  define calls :: "int \<Rightarrow> char bounded_call list" where
    "calls = (\<lambda>_. [])(1 := [Bounded_put CHR ''a'', Bounded_put CHR ''b''], 2 := [Bounded_take])"
  define turns :: "int list" where "turns = replicate 8 1 @ replicate 5 1 @ replicate 8 2 @ replicate 8 1"
  obtain s where s: "exec_schedule (ring_test list_ring) (ring_act list_ring) [1, 2] turns (BoundedBlockingQueue_threads list_ring 1 calls) = Some s"
    "elements_taken (mo_log s) = ''a''" "ring_contents (mo_data s) = ''b''" "mo_code s 1 = []" "mo_code s 2 = []"
    by (simp add: calls_def turns_def BoundedBlockingQueue_threads_def MutexLock_new_def BoundedBlockingQueue_code
        eval_nat_numeral list_ring_def ring_contents_def notEmpty_def notFull_def)
  have calls: "\<forall>t. t \<notin> {1, 2} \<longrightarrow> calls t = []" by (simp add: calls_def)
  have "lock_ok (BoundedBlockingQueue_threads list_ring 1 calls)" unfolding BoundedBlockingQueue_threads_def
    by (rule lock_ok_new) (use calls Bounded_checks in auto)
  moreover have "idle_outside {1, 2} (BoundedBlockingQueue_threads list_ring 1 calls)"
    using calls by (simp add: BoundedBlockingQueue_threads_def MutexLock_new_def idle_outside_def)
  ultimately have run: "monitor_run (ring_test list_ring) (ring_act list_ring) (BoundedBlockingQueue_threads list_ring 1 calls) s"
    using exec_schedule_from [OF s(1)] by simp
  have "elements_put (mo_log s) = elements_taken (mo_log s) @ ring_contents (mo_data s)"
    using BoundedBlockingQueue_threads_safe [OF ring.circular_buffer_axioms _ _ calls run] by simp
  then show ?thesis using s(2-) run unfolding calls_def by blast
qed

end
