(* ===== verification/Latch.thy ===== *)
theory Latch
  imports Conditions
begin

text \<open>
  \<open>src/muduo/base/CountDownLatch.h\<close>, \<open>CountDownLatch.cpp\<close> and the handshake of
  \<open>src/muduo/net/EventLoopThread.h\<close>, \<open>EventLoopThread.cpp\<close>.
\<close>

section \<open>\<open>CountDownLatch\<close>\<close>

datatype latch_guard = Count_positive | Count_zero

datatype latch_action = Count_down | Read_count

definition latch_condition :: nat where "latch_condition = 0"

type_synonym latch_code = "(latch_guard, latch_action) code"

definition CountDownLatch_wait :: latch_code where
  "CountDownLatch_wait = MutexLockGuard [While_wait Count_positive latch_condition]"

definition CountDownLatch_countDown :: latch_code where
  "CountDownLatch_countDown = MutexLockGuard ([Run Count_down] @ Condition_notifyAll_if Count_zero latch_condition)"

definition CountDownLatch_getCount :: latch_code where
  "CountDownLatch_getCount = MutexLockGuard [Run Read_count]"

fun latch_tests :: "latch_guard \<Rightarrow> int \<Rightarrow> bool" where
  "latch_tests Count_positive count \<longleftrightarrow> 0 < count"
| "latch_tests Count_zero count \<longleftrightarrow> count = 0"

text \<open>Counting down from the least \<open>int\<close> is undefined.\<close>

fun latch_act :: "latch_action \<Rightarrow> int \<Rightarrow> (int \<times> int) result" where
  "latch_act Count_down count = (if count = - (2 ^ 31) then Inl Undefined_behaviour else Inr (count - 1, 0))"
| "latch_act Read_count count = Inr (count, count)"

datatype latch_call = Latch_wait | Latch_countDown | Latch_getCount

fun CountDownLatch_call :: "latch_call \<Rightarrow> latch_code" where
  "CountDownLatch_call Latch_wait = CountDownLatch_wait"
| "CountDownLatch_call Latch_countDown = CountDownLatch_countDown"
| "CountDownLatch_call Latch_getCount = CountDownLatch_getCount"

definition CountDownLatch_threads :: "int \<Rightarrow> (int \<Rightarrow> latch_call list) \<Rightarrow> (latch_guard, latch_action, int, int) monitor" where
  "CountDownLatch_threads count calls = MutexLock_new count (\<lambda>t. concat (map CountDownLatch_call (calls t)))"

lemmas latch_code = CountDownLatch_wait_def CountDownLatch_countDown_def CountDownLatch_getCount_def
  Condition_notifyAll_if_def MutexLockGuard_def MutexLock_lock_def MutexLock_unlock_def Condition_wait_code

definition latch_signal :: "(latch_guard, latch_action) instr \<Rightarrow> bool" where
  "latch_signal i \<longleftrightarrow> i = Notify_all_if Count_zero latch_condition"

interpretation latch: broadcast latch_tests latch_act latch_condition Count_positive "\<lambda>_. False" "\<lambda>a. a = Count_down"
    latch_signal UNIV
proof
  fix a d d' r
  show "latch_act a d = Inr (d', r) \<Longrightarrow> latch_tests Count_positive d \<Longrightarrow> \<not> latch_tests Count_positive d' \<Longrightarrow>
      a = Count_down \<and> (\<forall>g. latch_signal (Notify_all_if g latch_condition) \<longrightarrow> latch_tests g d')"
    by (cases a) (auto simp: latch_signal_def split: if_splits)
qed (simp add: latch_signal_def)

fun latch_word :: "(latch_guard, latch_action) instr \<Rightarrow> bool" where
  "latch_word (While_wait g j) \<longleftrightarrow> g = Count_positive \<and> j = latch_condition"
| "latch_word (Cond_wait j) \<longleftrightarrow> j = latch_condition"
| "latch_word (Assert_not g) \<longleftrightarrow> False"
| "latch_word _ \<longleftrightarrow> True"

lemma latch_checks:
  "disciplined Free (concat (map CountDownLatch_call cs))"
  "awaits latch_condition Count_positive (concat (map CountDownLatch_call cs))"
  "guarded Count_positive (\<lambda>_. False) False (concat (map CountDownLatch_call cs))"
  "announces (\<lambda>a. a = Count_down) latch_signal (concat (map CountDownLatch_call cs))"
  "\<forall>i \<in> set (concat (map CountDownLatch_call cs)). latch_word i"
proof (induction cs)
  case (Cons c cs)
  { case 1 then show ?case using Cons.IH(1) by (cases c) (simp_all add: latch_code) }
  { case 2 then show ?case using Cons.IH(2) by (cases c) (simp_all add: latch_code) }
  { case 3 then show ?case using Cons.IH(3) by (cases c) (simp_all add: latch_code) }
  { case 4 then show ?case using Cons.IH(4) by (cases c) (simp_all add: latch_code latch_signal_def) }
  { case 5 then show ?case using Cons.IH(5) by (cases c) (simp_all add: latch_code) }
qed simp_all

text \<open>How often it was counted down, and how many calls of \<open>wait\<close> a thread has not returned from.\<close>

fun downs :: "(int \<times> latch_action \<times> int) list \<Rightarrow> nat" where
  "downs [] = 0"
| "downs ((t, Count_down, r) # l) = Suc (downs l)"
| "downs ((t, Read_count, r) # l) = downs l"

lemma downs_length: "downs l \<le> length l"
  by (induction l rule: downs.induct) simp_all

lemma latch_count: "replays latch_act n l count \<Longrightarrow> count = n - int (downs l)"
proof (induction l arbitrary: n)
  case (Cons e l)
  obtain t a r where e: "e = (t, a, r)" by (cases e)
  then show ?case using Cons.prems by (cases a) (auto dest!: Cons.IH split: if_splits)
qed simp

fun waits_left :: "latch_code \<Rightarrow> nat" where
  "waits_left [] = 0"
| "waits_left (While_wait g k # c) = Suc (waits_left c)"
| "waits_left (_ # c) = waits_left c"

lemma latch_returned:
  assumes "monitor_run latch_tests latch_act s0 s" and "vocabulary (\<lambda>_. latch_word) s0"
    and "waits_left (mo_code s t) < waits_left (mo_code s0 t)"
  shows "mo_data s \<le> 0"
  using assms(1,3)
proof induction
  case (wake s s')
  then show ?case by (auto elim!: spurious_wakeup.cases)
next
  case (step s u s')
  have v: "vocabulary (\<lambda>_. latch_word) s"
    by (rule vocabulary_run [OF step.hyps(1) assms(2)]) (auto simp: Condition_wait_code)
  then have w: "\<forall>i \<in> set (mo_code s u). latch_word i" by (simp add: vocabulary_def)
  have down: "mo_data s' \<le> mo_data s"
    using step.hyps(2)
  proof cases
    case (run a c d r)
    then show ?thesis by (cases a) (auto split: if_splits)
  qed (auto split: if_splits)
  show ?case
  proof (cases "waits_left (mo_code s t) < waits_left (mo_code s0 t)")
    case True
    then show ?thesis using step.IH down by simp
  next
    case False
    then have l: "waits_left (mo_code s' t) < waits_left (mo_code s t)" using step.prems by simp
    then have "t = u" using step_code_others [OF step.hyps(2), of t] by fastforce
    from step.hyps(2) show ?thesis using l w unfolding \<open>t = u\<close> by cases (auto simp: Condition_wait_code split: if_splits)
  qed
qed simp

section \<open>What every run keeps\<close>

lemma latch_threads [simp]:
  "mo_log (CountDownLatch_threads count calls) = []" "mo_data (CountDownLatch_threads count calls) = count"
  "mo_code (CountDownLatch_threads count calls) = (\<lambda>t. concat (map CountDownLatch_call (calls t)))"
  "mo_waits (CountDownLatch_threads count calls) = (\<lambda>_. None)"
  by (simp_all add: CountDownLatch_threads_def MutexLock_new_def)

lemma latch_start:
  assumes "calls 0 = []"
  shows "latch.broadcast_inv (CountDownLatch_threads count calls)"
    and "vocabulary (\<lambda>_. latch_word) (CountDownLatch_threads count calls)"
proof -
  show "latch.broadcast_inv (CountDownLatch_threads count calls)" unfolding CountDownLatch_threads_def
    by (rule latch.broadcast_inv_new) (use assms latch_checks in \<open>auto simp: alone_def\<close>)
  show "vocabulary (\<lambda>_. latch_word) (CountDownLatch_threads count calls)"
    using latch_checks(5) by (simp add: vocabulary_def)
qed

lemma latch_reached:
  assumes run: "monitor_run latch_tests latch_act (CountDownLatch_threads count calls) s" and "calls 0 = []"
  shows "latch.broadcast_inv s" and "lock_ok s" and "vocabulary (\<lambda>_. latch_word) s"
proof -
  note start = latch_start [where calls = calls and count = count, OF assms(2)]
  show inv: "latch.broadcast_inv s" by (rule latch.broadcast_inv_run [OF run start(1)])
  then show "lock_ok s" by (simp add: latch.broadcast_inv_def latch.waits_inv_def)
  show "vocabulary (\<lambda>_. latch_word) s" by (rule vocabulary_run [OF run start(2)]) (auto simp: Condition_wait_code)
qed

lemma latch_stuck:
  assumes "monitor_run latch_tests latch_act (CountDownLatch_threads count calls) s" and "calls 0 = []"
    and stuck: "monitor_stuck latch_tests latch_act s"
  shows "mo_code s t = [] \<or> mo_waits s t = Some latch_condition \<and> 0 < mo_data s"
  using stuck_waits [OF _ stuck, of t] latch.stuck_waiters [OF _ stuck, of t] latch_reached [OF assms(1,2)]
  by (auto simp: vocabulary_def)

lemma latch_safe:
  assumes "monitor_run latch_tests latch_act (CountDownLatch_threads count calls) s" and "calls 0 = []"
    and "- (2 ^ 31) < mo_data s"
  shows "\<not> monitor_step latch_tests latch_act t s (Inl e)"
proof
  assume "monitor_step latch_tests latch_act t s (Inl e)"
  moreover have "\<forall>i \<in> set (mo_code s t). latch_word i"
    using latch_reached(3) [OF assms(1,2)] by (simp add: vocabulary_def)
  ultimately show False
    using lock_failures [OF latch_reached(2) [OF assms(1,2)], of latch_tests latch_act t e] assms(3)
    by (auto elim!: latch_act.elims split: if_splits)
qed

text \<open>
  C24: the latch. Whatever any number of threads call in whatever interleaving, the count is what it was less
  the calls of \<open>countDown\<close>; who has returned from \<open>wait\<close> has done so at a count of zero or less;
  where nothing happens any more every thread has finished, or waits while the count is positive, so everybody
  is released when it comes down to zero; no schedule goes on for ever by steps of the threads alone. Nothing fails as long as the count is
  an \<open>int\<close>.
\<close>

theorem CountDownLatch_releases:
  assumes "finite T" and "0 \<notin> T" and "\<forall>t. t \<notin> T \<longrightarrow> calls t = []"
    and run: "monitor_run latch_tests latch_act (CountDownLatch_threads count calls) s"
  shows "mo_data s = count - int (downs (mo_log s)) \<and>
    (\<forall>t. waits_left (mo_code s t) < length (filter (\<lambda>c. c = Latch_wait) (calls t)) \<longrightarrow> mo_data s \<le> 0) \<and>
    (monitor_stuck latch_tests latch_act s \<longrightarrow>
      (\<forall>t. mo_code s t = [] \<or> mo_waits s t = Some latch_condition \<and> 0 < mo_data s)) \<and>
    (- (2 ^ 31) < mo_data s \<longrightarrow> (\<forall>t e. \<not> monitor_step latch_tests latch_act t s (Inl e))) \<and>
    wf {(s', s). monitor_run latch_tests latch_act (CountDownLatch_threads count calls) s \<and>
                 (\<exists>t. monitor_step latch_tests latch_act t s (Inr s'))}"
proof (intro conjI)
  let ?s0 = "CountDownLatch_threads count calls"
  have free: "calls 0 = []" using assms(2,3) by blast
  show "mo_data s = count - int (downs (mo_log s))"
    using latch_count [OF replays_run [OF run]] by simp
  have "waits_left (concat (map CountDownLatch_call cs)) = length (filter (\<lambda>c. c = Latch_wait) cs)" for cs
  proof (induction cs)
    case (Cons c cs)
    then show ?case by (cases c) (simp_all add: latch_code)
  qed simp
  then show "\<forall>t. waits_left (mo_code s t) < length (filter (\<lambda>c. c = Latch_wait) (calls t)) \<longrightarrow> mo_data s \<le> 0"
    using latch_returned [OF run latch_start(2) [where calls = calls, OF free]] by simp
  show "monitor_stuck latch_tests latch_act s \<longrightarrow>
      (\<forall>t. mo_code s t = [] \<or> mo_waits s t = Some latch_condition \<and> 0 < mo_data s)"
    using latch_stuck [OF run free] by blast
  show "- (2 ^ 31) < mo_data s \<longrightarrow> (\<forall>t e. \<not> monitor_step latch_tests latch_act t s (Inl e))"
    using latch_safe [OF run free] by blast
  show "wf {(s', s). monitor_run latch_tests latch_act ?s0 s \<and> (\<exists>t. monitor_step latch_tests latch_act t s (Inr s'))}"
    by (rule monitor_ends [OF assms(1)]) (use assms(3) in \<open>simp add: idle_outside_def\<close>)
qed

text \<open>Two threads wait for one to count down twice.\<close>

theorem CountDownLatch_releases_witness:
  "\<exists>s. monitor_run latch_tests latch_act
      (CountDownLatch_threads 2 ((\<lambda>_. [])(1 := [Latch_wait], 2 := [Latch_wait], 3 := [Latch_countDown, Latch_countDown]))) s \<and>
     (\<forall>t. mo_code s t = []) \<and> mo_data s = 0 \<and> downs (mo_log s) = 2"
proof -
  define calls :: "int \<Rightarrow> latch_call list" where
    "calls = (\<lambda>_. [])(1 := [Latch_wait], 2 := [Latch_wait], 3 := [Latch_countDown, Latch_countDown])"
  define turns :: "int list" where
    "turns = replicate 5 1 @ replicate 6 3 @ replicate 5 2 @ replicate 6 3 @ replicate 5 1 @ replicate 5 2"
  obtain s where s: "exec_schedule latch_tests latch_act [1, 2, 3] turns (CountDownLatch_threads 2 calls) = Some s"
    "mo_data s = 0" "\<forall>t. mo_code s t = []"
    by (simp add: calls_def turns_def CountDownLatch_threads_def MutexLock_new_def latch_code eval_nat_numeral)
  have calls: "\<forall>t. t \<notin> {1, 2, 3} \<longrightarrow> calls t = []" by (simp add: calls_def)
  have "lock_ok (CountDownLatch_threads 2 calls)" unfolding CountDownLatch_threads_def
    by (rule lock_ok_new) (use calls latch_checks in auto)
  moreover have "idle_outside {1, 2, 3} (CountDownLatch_threads 2 calls)"
    using calls by (simp add: CountDownLatch_threads_def MutexLock_new_def idle_outside_def)
  ultimately have run: "monitor_run latch_tests latch_act (CountDownLatch_threads 2 calls) s"
    using exec_schedule_from [OF s(1)] by simp
  have "mo_data s = 2 - int (downs (mo_log s))"
    using CountDownLatch_releases [OF _ _ calls run] by simp
  then show ?thesis using s run unfolding calls_def by (intro exI [of _ s]) simp
qed

end
