(* ===== verification/Loop_Thread.thy ===== *)
theory Loop_Thread
  imports Conditions
begin

text \<open>
  \<open>src/muduo/net/EventLoopThread.h\<close>, \<open>EventLoopThread.cpp\<close>: how \<open>startLoop\<close> gets the loop of the new thread.

  The thread that calls \<open>startLoop\<close> and the new thread share \<open>loop_\<close>. The new thread publishes the
  address of its loop, runs the loop, and, if \<open>loop()\<close> ever returns, takes the address back.
\<close>

datatype loop_test = Loop_null

datatype loop_action = Set_loop nat | Read_loop | Reset_loop

definition loop_condition :: nat where "loop_condition = 0"

type_synonym loop_code = "(loop_test, loop_action) code"

text \<open>The part of \<open>startLoop\<close> after \<open>thread_.start()\<close>.\<close>

definition EventLoopThread_startLoop :: loop_code where
  "EventLoopThread_startLoop = MutexLockGuard [While_wait Loop_null loop_condition, Run Read_loop]"

definition EventLoopThread_threadFunc :: "nat \<Rightarrow> bool \<Rightarrow> loop_code" where
  "EventLoopThread_threadFunc loop loop_returns =
     MutexLockGuard ([Run (Set_loop loop)] @ Condition_notify loop_condition) @
     (if loop_returns then MutexLockGuard [Run Reset_loop] else [])"

fun loop_tests :: "loop_test \<Rightarrow> nat option \<Rightarrow> bool" where
  "loop_tests Loop_null loop \<longleftrightarrow> loop = None"

fun loop_act :: "loop_action \<Rightarrow> nat option \<Rightarrow> (nat option \<times> nat option) result" where
  "loop_act (Set_loop p) loop = Inr (Some p, None)"
| "loop_act Read_loop loop = Inr (loop, loop)"
| "loop_act Reset_loop loop = Inr (None, None)"

definition EventLoopThread_threads :: "int \<Rightarrow> int \<Rightarrow> nat \<Rightarrow> bool \<Rightarrow> (loop_test, loop_action, nat option, nat option) monitor" where
  "EventLoopThread_threads caller new loop loop_returns =
     MutexLock_new None ((\<lambda>_. [])(caller := EventLoopThread_startLoop, new := EventLoopThread_threadFunc loop loop_returns))"

lemmas loop_code = EventLoopThread_startLoop_def EventLoopThread_threadFunc_def Condition_notify_def
  MutexLockGuard_def MutexLock_lock_def MutexLock_unlock_def Condition_wait_code

definition loop_signal :: "(loop_test, loop_action) instr \<Rightarrow> bool" where
  "loop_signal i \<longleftrightarrow> i = Notify loop_condition"

interpretation handshake: broadcast loop_tests loop_act loop_condition Loop_null "\<lambda>a. a = Read_loop"
    "\<lambda>a. \<exists>p. a = Set_loop p" loop_signal "{caller}" for caller :: int
proof
  fix a d d' r
  show "loop_act a d = Inr (d', r) \<Longrightarrow> loop_tests Loop_null d \<Longrightarrow> \<not> loop_tests Loop_null d' \<Longrightarrow>
      (\<exists>p. a = Set_loop p) \<and> (\<forall>g. loop_signal (Notify_all_if g loop_condition) \<longrightarrow> loop_tests g d')"
    by (cases a) (auto simp: loop_signal_def)
qed (auto simp: loop_signal_def)

fun loop_word :: "nat \<Rightarrow> (loop_test, loop_action) instr \<Rightarrow> bool" where
  "loop_word p (Run a) \<longleftrightarrow> a \<in> {Set_loop p, Read_loop, Reset_loop}"
| "loop_word p (Cond_wait j) \<longleftrightarrow> j = loop_condition"
| "loop_word p (While_wait g j) \<longleftrightarrow> j = loop_condition"
| "loop_word p (Assert_not g) \<longleftrightarrow> False"
| "loop_word p _ \<longleftrightarrow> True"

text \<open>The address is the one published, or none.\<close>

lemma loop_published:
  assumes "monitor_run loop_tests loop_act s0 s" and "vocabulary (\<lambda>_. loop_word p) s0" and "handshake.broadcast_inv caller s0"
    and "mo_data s0 = None" and "mo_log s0 = []"
  shows "mo_data s \<in> {None, Some p} \<and> (\<forall>t r. (t, Read_loop, r) \<in> set (mo_log s) \<longrightarrow> r = Some p)"
  using assms(1)
proof induction
  case start
  then show ?case using assms(4,5) by simp
next
  case (wake s s')
  then show ?case by (auto elim!: spurious_wakeup.cases)
next
  case (step s t s')
  have inv: "handshake.broadcast_inv caller s" by (rule handshake.broadcast_inv_run [OF step.hyps(1) assms(3)])
  have "vocabulary (\<lambda>_. loop_word p) s"
    by (rule vocabulary_run [OF step.hyps(1) assms(2)]) (auto simp: Condition_wait_code)
  then have w: "\<forall>i \<in> set (mo_code s t). loop_word p i" by (simp add: vocabulary_def)
  from step.hyps(2) show ?case
  proof cases
    case (run a c d r)
    have "a = Read_loop \<Longrightarrow> mo_data s \<noteq> None"
      using handshake.guarded_step(2) [of s t a c] inv run by (auto simp: handshake.broadcast_inv_def handshake.waits_inv_def)
    then show ?thesis using run w step.IH by (cases a) auto
  qed (use step.IH in auto)
qed

lemma loop_kept:
  "replays loop_act d l d' \<Longrightarrow> \<forall>e \<in> set l. fst (snd e) \<noteq> Reset_loop \<Longrightarrow>
   d \<noteq> None \<or> (\<exists>e \<in> set l. \<exists>p. fst (snd e) = Set_loop p) \<Longrightarrow> d' \<noteq> None"
proof (induction l arbitrary: d)
  case (Cons e l)
  obtain t a r where e: "e = (t, a, r)" by (cases e)
  obtain d1 where d1: "loop_act a d = Inr (d1, r)" "replays loop_act d1 l d'" using Cons.prems(1) by (auto simp: e)
  then show ?case using Cons.IH [OF d1(2)] Cons.prems(2,3) by (cases a) (auto simp: e)
qed simp

lemma in_done_by: "e \<in> set l \<Longrightarrow> fst (snd e) \<in> set (done_by (fst e) l)"
  by (cases e) (force simp: done_by_def)

lemma handshake_checks:
  "disciplined Free EventLoopThread_startLoop" "disciplined Free (EventLoopThread_threadFunc p b)"
  "awaits loop_condition Loop_null EventLoopThread_startLoop" "awaits loop_condition Loop_null (EventLoopThread_threadFunc p b)"
  "guarded Loop_null (\<lambda>a. a = Read_loop) False EventLoopThread_startLoop"
  "guarded Loop_null (\<lambda>a. a = Read_loop) False (EventLoopThread_threadFunc p b)"
  "announces (\<lambda>a. \<exists>p. a = Set_loop p) loop_signal EventLoopThread_startLoop"
  "announces (\<lambda>a. \<exists>p. a = Set_loop p) loop_signal (EventLoopThread_threadFunc p b)"
  "\<forall>i \<in> set (EventLoopThread_threadFunc p b). i \<noteq> Cond_wait loop_condition \<and> (\<forall>g. i \<noteq> While_wait g loop_condition)"
  "\<forall>i \<in> set EventLoopThread_startLoop. loop_word p i" "\<forall>i \<in> set (EventLoopThread_threadFunc p b). loop_word p i"
  "actions EventLoopThread_startLoop = [Read_loop]"
  "actions (EventLoopThread_threadFunc p b) = Set_loop p # (if b then [Reset_loop] else [])"
  by (auto simp: loop_code loop_signal_def)

lemma handshake_start:
  assumes "caller \<noteq> new" and "caller \<noteq> 0" and "new \<noteq> 0"
  shows "handshake.broadcast_inv caller (EventLoopThread_threads caller new loop b)"
    and "vocabulary (\<lambda>_. loop_word loop) (EventLoopThread_threads caller new loop b)"
proof -
  show "handshake.broadcast_inv caller (EventLoopThread_threads caller new loop b)"
    unfolding EventLoopThread_threads_def
    by (rule handshake.broadcast_inv_new)
      (use assms handshake_checks(1-8) handshake_checks(9) [of loop b] in \<open>simp_all add: alone_def\<close>)
  show "vocabulary (\<lambda>_. loop_word loop) (EventLoopThread_threads caller new loop b)"
    using handshake_checks(10,11) by (simp add: vocabulary_def EventLoopThread_threads_def MutexLock_new_def)
qed

text \<open>The run in which \<open>startLoop\<close> waits for ever: it sleeps, is woken, and finds the address gone again.\<close>

lemma handshake_missed:
  assumes "caller \<noteq> new" and "caller \<noteq> 0" and "new \<noteq> 0"
  shows "\<exists>s. monitor_run loop_tests loop_act (EventLoopThread_threads caller new loop True) s \<and>
    monitor_stuck loop_tests loop_act s \<and> mo_waits s caller = Some loop_condition \<and> mo_code s new = []"
proof -
  let ?s0 = "EventLoopThread_threads caller new loop True"
  define turns where "turns = replicate 5 caller @ replicate 6 new @ replicate 5 new @ replicate 5 caller"
  obtain s where s: "exec_schedule loop_tests loop_act [caller, new] turns ?s0 = Some s"
    "mo_waits s caller = Some loop_condition" "mo_code s new = []" "\<forall>t. t \<noteq> caller \<longrightarrow> mo_code s t = []"
    using assms(1) by (simp add: turns_def EventLoopThread_threads_def MutexLock_new_def loop_code eval_nat_numeral)
  have "lock_ok ?s0" using handshake_start(1) [OF assms, of loop True] by (simp add: handshake.broadcast_inv_def handshake.waits_inv_def)
  moreover have "idle_outside (set [caller, new]) ?s0" by (simp add: idle_outside_def EventLoopThread_threads_def MutexLock_new_def)
  ultimately have "monitor_run loop_tests loop_act ?s0 s" by (rule exec_schedule_from [OF s(1)])
  moreover have "\<not> monitor_step loop_tests loop_act t s r" for t r
    using s(2,4) step_code_self [of loop_tests loop_act t s r] by (cases "t = caller") (auto elim: monitor_step.cases)
  ultimately show ?thesis using s(2,3) by (auto simp: monitor_stuck_def)
qed

text \<open>
  C40: the handshake. Nothing fails; \<open>startLoop\<close> returns the address of the loop of the new thread or does
  not return at all; where nothing happens any more, the new thread has done its part, and \<open>startLoop\<close>
  has returned unless \<open>loop()\<close> returned before. In that case it may have missed the address, and then it
  waits for ever: such a run exists.
\<close>

theorem EventLoopThread_handshake:
  assumes "caller \<noteq> new" and "caller \<noteq> 0" and "new \<noteq> 0"
    and run: "monitor_run loop_tests loop_act (EventLoopThread_threads caller new loop loop_returns) s"
  shows "(\<forall>t e. \<not> monitor_step loop_tests loop_act t s (Inl e)) \<and>
    (\<forall>t r. (t, Read_loop, r) \<in> set (mo_log s) \<longrightarrow> r = Some loop) \<and>
    (monitor_stuck loop_tests loop_act s \<longrightarrow>
      mo_code s new = [] \<and>
      (mo_code s caller = [] \<or> loop_returns \<and> mo_waits s caller = Some loop_condition \<and> mo_data s = None)) \<and>
    (\<exists>s'. monitor_run loop_tests loop_act (EventLoopThread_threads caller new loop True) s' \<and>
       monitor_stuck loop_tests loop_act s' \<and> mo_waits s' caller = Some loop_condition \<and> mo_code s' new = [])"
proof (intro conjI)
  let ?s0 = "EventLoopThread_threads caller new loop loop_returns"
  note start = handshake_start [OF assms(1-3), of loop loop_returns]
  have s0: "mo_log ?s0 = []" "mo_data ?s0 = None" "mo_code ?s0 = (\<lambda>_. [])(caller := EventLoopThread_startLoop, new := EventLoopThread_threadFunc loop loop_returns)"
    by (simp_all add: EventLoopThread_threads_def MutexLock_new_def)
  have inv: "handshake.broadcast_inv caller s" by (rule handshake.broadcast_inv_run [OF run start(1)])
  then have lock: "lock_ok s" by (simp add: handshake.broadcast_inv_def handshake.waits_inv_def)
  have words: "vocabulary (\<lambda>_. loop_word loop) s" by (rule vocabulary_run [OF run start(2)]) (auto simp: Condition_wait_code)
  note pub = loop_published [OF run start(2,1) s0(2,1)]
  show "\<forall>t e. \<not> monitor_step loop_tests loop_act t s (Inl e)"
  proof (intro allI notI)
    fix t e
    assume "monitor_step loop_tests loop_act t s (Inl e)"
    moreover have "\<forall>i \<in> set (mo_code s t). loop_word loop i" using words by (simp add: vocabulary_def)
    ultimately show False using lock_failures [OF lock, of loop_tests loop_act t e] by (auto elim!: loop_act.elims)
  qed
  show "\<forall>t r. (t, Read_loop, r) \<in> set (mo_log s) \<longrightarrow> r = Some loop" using pub by blast
  show "monitor_stuck loop_tests loop_act s \<longrightarrow> mo_code s new = [] \<and>
      (mo_code s caller = [] \<or> loop_returns \<and> mo_waits s caller = Some loop_condition \<and> mo_data s = None)"
  proof
    assume stuck: "monitor_stuck loop_tests loop_act s"
    have waits: "mo_waits s t = Some j \<Longrightarrow> j = loop_condition \<and> t = caller" for t j
      using inv words by (fastforce simp: handshake.broadcast_inv_def vocabulary_def alone_def)
    have new: "mo_code s new = []" using stuck_waits [OF lock stuck, of new] waits [of new] assms(1) by auto
    note order = program_order [OF run s0(1)]
    have done_new: "done_by new (mo_log s) = Set_loop loop # (if loop_returns then [Reset_loop] else [])"
      using order [of new] new by (simp add: s0 handshake_checks)
    have "loop_returns" if asleep: "mo_waits s caller = Some loop_condition"
    proof (rule ccontr)
      assume ends: "\<not> loop_returns"
      have "fst (snd e) \<noteq> Reset_loop" if "e \<in> set (mo_log s)" for e
      proof -
        have "fst (snd e) \<in> set (actions (mo_code ?s0 (fst e)))"
          using in_done_by [OF that] order [of "fst e"] by (metis Un_iff set_append)
        then show ?thesis using ends unfolding s0 by (auto simp: handshake_checks split: if_splits)
      qed
      moreover have "\<exists>e \<in> set (mo_log s). \<exists>p. fst (snd e) = Set_loop p"
      proof -
        have "Set_loop loop \<in> set (done_by new (mo_log s))" using done_new by simp
        then show ?thesis by (force simp: done_by_def)
      qed
      ultimately have "mo_data s \<noteq> None" using loop_kept [OF replays_run [OF run s0(1)]] by blast
      then show False using handshake.stuck_waiters [OF inv stuck asleep] by simp
    qed
    then show "mo_code s new = [] \<and>
        (mo_code s caller = [] \<or> loop_returns \<and> mo_waits s caller = Some loop_condition \<and> mo_data s = None)"
      using new stuck_waits [OF lock stuck, of caller] waits handshake.stuck_waiters [OF inv stuck, of caller] by auto
  qed
  show "\<exists>s'. monitor_run loop_tests loop_act (EventLoopThread_threads caller new loop True) s' \<and>
       monitor_stuck loop_tests loop_act s' \<and> mo_waits s' caller = Some loop_condition \<and> mo_code s' new = []"
    by (rule handshake_missed [OF assms(1-3)])
qed

text \<open>The new thread is faster, and its loop runs on: \<open>startLoop\<close> does not sleep.\<close>

lemma handshake_example:
  "\<exists>s. exec_schedule loop_tests loop_act [1, 2] (replicate 6 2 @ replicate 6 1) (EventLoopThread_threads 1 2 p False) = Some s \<and>
     mo_log s = [(2, Set_loop p, None), (1, Read_loop, Some p)] \<and> (\<forall>t. mo_code s t = [])"
  by (simp add: EventLoopThread_threads_def MutexLock_new_def loop_code eval_nat_numeral)

theorem EventLoopThread_handshake_witness:
  "\<exists>s. monitor_run loop_tests loop_act (EventLoopThread_threads 1 2 4096 False) s \<and>
     mo_log s = [(2, Set_loop 4096, None), (1, Read_loop, Some 4096)] \<and> (\<forall>t. mo_code s t = []) \<and>
     (\<forall>t e. \<not> monitor_step loop_tests loop_act t s (Inl e))"
proof -
  let ?s0 = "EventLoopThread_threads 1 2 4096 False"
  obtain s where s: "exec_schedule loop_tests loop_act [1, 2] (replicate 6 2 @ replicate 6 1) ?s0 = Some s"
    "mo_log s = [(2, Set_loop 4096, None), (1, Read_loop, Some 4096)]" "\<forall>t. mo_code s t = []"
    using handshake_example by blast
  have "lock_ok ?s0"
    using handshake_start(1) [of 1 2 4096 False] by (simp add: handshake.broadcast_inv_def handshake.waits_inv_def)
  moreover have "idle_outside (set [1, 2]) ?s0" by (simp add: idle_outside_def EventLoopThread_threads_def MutexLock_new_def)
  ultimately have run: "monitor_run loop_tests loop_act ?s0 s" by (rule exec_schedule_from [OF s(1)])
  have "\<forall>t e. \<not> monitor_step loop_tests loop_act t s (Inl e)"
    using EventLoopThread_handshake [OF _ _ _ run] by simp
  then show ?thesis using run s by blast
qed

end
