(* ===== verification/Thread.thy ===== *)
theory Thread
  imports Latch Decimal Timestamp
begin

text \<open>
  \<open>src/muduo/base/Thread.h\<close>, \<open>Thread.cpp\<close>, with \<open>Atomic.h\<close>, \<open>WeakCallback.h\<close> and the rest of
  \<open>CurrentThread.h\<close>, \<open>CurrentThread.cpp\<close>: threads, from their names to how \<open>start\<close> waits for the new one.
  What pthreads and the kernel return is a parameter.
\<close>

section \<open>\<open>AtomicIntegerT\<close>\<close>

text \<open>The GCC builtins act on the value in one step and wrap. The results are the new value of \<open>value_\<close> and
  what the call returns.\<close>

definition Atomic_get :: "'a::len word \<Rightarrow> 'a word \<times> 'a word" where
  "Atomic_get value = (if value = 0 then 0 else value, value)"

definition Atomic_getAndAdd :: "'a::len word \<Rightarrow> 'a word \<Rightarrow> 'a word \<times> 'a word" where
  "Atomic_getAndAdd x value = (value + x, value)"

definition Atomic_getAndSet :: "'a::len word \<Rightarrow> 'a word \<Rightarrow> 'a word \<times> 'a word" where
  "Atomic_getAndSet newValue value = (newValue, value)"

definition Atomic_addAndGet :: "'a::len word \<Rightarrow> 'a word \<Rightarrow> 'a word \<times> 'a word" where
  "Atomic_addAndGet x value = (case Atomic_getAndAdd x value of (value', r) \<Rightarrow> (value', r + x))"

definition Atomic_incrementAndGet :: "'a::len word \<Rightarrow> 'a word \<times> 'a word" where
  "Atomic_incrementAndGet value = Atomic_addAndGet 1 value"

definition Atomic_decrementAndGet :: "'a::len word \<Rightarrow> 'a word \<times> 'a word" where
  "Atomic_decrementAndGet value = Atomic_addAndGet (- 1) value"

definition Atomic_add :: "'a::len word \<Rightarrow> 'a word \<Rightarrow> 'a word" where
  "Atomic_add x value = fst (Atomic_getAndAdd x value)"

definition Atomic_increment :: "'a::len word \<Rightarrow> 'a word" where
  "Atomic_increment value = fst (Atomic_incrementAndGet value)"

definition Atomic_decrement :: "'a::len word \<Rightarrow> 'a word" where
  "Atomic_decrement value = fst (Atomic_decrementAndGet value)"

section \<open>\<open>WeakCallback\<close>\<close>

text \<open>\<open>object\<close> is what locking the weak pointer gives.\<close>

definition WeakCallback_call :: "'o option \<Rightarrow> ('o \<Rightarrow> 'args \<Rightarrow> 's \<Rightarrow> 's) \<Rightarrow> 'args \<Rightarrow> 's \<Rightarrow> 's" where
  "WeakCallback_call object function args s =
     (case object of None \<Rightarrow> s | Some ptr \<Rightarrow> function ptr args s)"

section \<open>The current thread\<close>

text \<open>A stack trace: \<open>strings\<close> is what \<open>backtrace_symbols\<close> returns, \<open>cxa\<close> demangles a name.\<close>

fun last_mark :: "char \<Rightarrow> nat \<Rightarrow> char list \<Rightarrow> nat option \<Rightarrow> nat option" where
  "last_mark c i [] best = best"
| "last_mark c i (x # xs) best = last_mark c (Suc i) xs (if x = c then Some i else best)"

definition stackTrace_frame :: "bool \<Rightarrow> (char list \<Rightarrow> char list option) \<Rightarrow> char list \<Rightarrow> char list" where
  "stackTrace_frame demangle cxa s =
     (let left_par = last_mark (CHR ''('') 0 s None;
          plus = last_mark (CHR ''+'') 0 s None;
          mangled = s @ ''\<newline>''
      in if demangle then
           case (left_par, plus) of
             (Some l, Some p) \<Rightarrow>
               let name = (if Suc l \<le> p then take (p - Suc l) (drop (Suc l) s) else drop (Suc l) s)
               in (case cxa name of
                     Some demangled \<Rightarrow> take (Suc l) s @ demangled @ drop p s @ ''\<newline>''
                   | None \<Rightarrow> mangled)
           | _ \<Rightarrow> mangled
         else mangled)"

definition CurrentThread_stackTrace ::
  "bool \<Rightarrow> (char list \<Rightarrow> char list option) \<Rightarrow> char list list option \<Rightarrow> char list" where
  "CurrentThread_stackTrace demangle cxa strings =
     (case strings of None \<Rightarrow> [] | Some frames \<Rightarrow> concat (map (stackTrace_frame demangle cxa) (drop 1 frames)))"

record thread_locals =
  tl_cachedTid :: int
  tl_threadName :: string

definition thread_locals_new :: thread_locals where
  "thread_locals_new = \<lparr>tl_cachedTid = 0, tl_threadName = ''unknow''\<rparr>"

text \<open>The main thread at the start of the program, and the child after a \<open>fork\<close>.\<close>

definition ThreadNameInitializer_new :: "int \<Rightarrow> thread_locals \<Rightarrow> thread_locals" where
  "ThreadNameInitializer_new gettid loc =
     (let loc1 = loc\<lparr>tl_threadName := ''main''\<rparr>
      in loc1\<lparr>tl_cachedTid := if tl_cachedTid loc1 = 0 then gettid else tl_cachedTid loc1\<rparr>)"

definition detail_afterFork :: "int \<Rightarrow> thread_locals \<Rightarrow> thread_locals" where
  "detail_afterFork gettid loc =
     (let loc1 = loc\<lparr>tl_cachedTid := 0, tl_threadName := ''main''\<rparr>
      in loc1\<lparr>tl_cachedTid := if tl_cachedTid loc1 = 0 then gettid else tl_cachedTid loc1\<rparr>)"

definition CurrentThread_isMainThread :: "int \<Rightarrow> int \<Rightarrow> thread_locals \<Rightarrow> bool" where
  "CurrentThread_isMainThread gettid getpid loc \<longleftrightarrow>
     (if tl_cachedTid loc = 0 then gettid else tl_cachedTid loc) = getpid"

text \<open>The \<open>timespec\<close> that \<open>nanosleep\<close> gets.\<close>

definition CurrentThread_sleepUsec :: "int \<Rightarrow> int \<times> int" where
  "CurrentThread_sleepUsec usec = (usec sdiv kMicroSecondsPerSecond, usec smod kMicroSecondsPerSecond * 1000)"

section \<open>The function of a thread\<close>

datatype func_outcome =
    Func_returns
  | Throws_Exception string string   \<comment> \<open>\<open>muduo::Exception\<close>: \<open>what()\<close> and \<open>stackTrace()\<close>\<close>
  | Throws_std string
  | Throws_other

datatype thread_end = Thread_ends | Thread_aborts | Thread_rethrows

definition stderr_reason :: "string \<Rightarrow> string \<Rightarrow> string" where
  "stderr_reason name what = ''exception caught in Thread '' @ name @ ''\<newline>reason: '' @ what @ ''\<newline>''"

text \<open>What \<open>runInThread\<close> does after it has released the starter: the thread's name, the text on \<open>stderr\<close> and
  how it ends.\<close>

definition ThreadData_runInThread :: "string \<Rightarrow> func_outcome \<Rightarrow> thread_locals \<Rightarrow> thread_locals \<times> string \<times> thread_end" where
  "ThreadData_runInThread name func loc =
     (let loc1 = loc\<lparr>tl_threadName := if name = [] then ''muduoThread'' else name\<rparr>
      in case func of
           Func_returns \<Rightarrow> (loc1\<lparr>tl_threadName := ''finished''\<rparr>, [], Thread_ends)
         | Throws_Exception what trace \<Rightarrow>
             (loc1\<lparr>tl_threadName := ''crashed''\<rparr>, stderr_reason name what @ ''stack trace: '' @ trace @ ''\<newline>'', Thread_aborts)
         | Throws_std what \<Rightarrow> (loc1\<lparr>tl_threadName := ''crashed''\<rparr>, stderr_reason name what, Thread_ends)
         | Throws_other \<Rightarrow>
             (loc1\<lparr>tl_threadName := ''crashed''\<rparr>, ''unknow exception caught in Thread '' @ name @ ''\<newline>'', Thread_rethrows))"

section \<open>The object\<close>

record thread =
  th_started :: bool
  th_joined :: bool
  th_tid :: int
  th_name :: string

text \<open>\<open>numCreated_\<close> is shared by all threads: its new value comes with the object.\<close>

definition Thread_setDefaultName :: "32 word \<Rightarrow> thread \<Rightarrow> 32 word \<times> thread" where
  "Thread_setDefaultName numCreated th =
     (case Atomic_incrementAndGet numCreated of (numCreated', num) \<Rightarrow>
        (numCreated', if th_name th = [] then th\<lparr>th_name := snprintf 32 (''Thread'' @ decimal (sint num))\<rparr> else th))"

definition Thread_new :: "string \<Rightarrow> 32 word \<Rightarrow> 32 word \<times> thread" where
  "Thread_new n numCreated =
     Thread_setDefaultName numCreated \<lparr>th_started = False, th_joined = False, th_tid = 0, th_name = n\<rparr>"

text \<open>Whether \<open>pthread_detach\<close> is called.\<close>

definition Thread_delete :: "thread \<Rightarrow> bool" where
  "Thread_delete th \<longleftrightarrow> th_started th \<and> \<not> th_joined th"

text \<open>\<open>ret\<close> is the result of \<open>pthread_create\<close>, \<open>tid\<close> what \<open>tid_\<close> holds when \<open>latch_.wait()\<close> has returned.\<close>

definition Thread_start :: "int \<Rightarrow> int \<Rightarrow> thread \<Rightarrow> thread result" where
  "Thread_start ret tid th =
     cassert (\<not> th_started th) (
     let th1 = th\<lparr>th_started := True\<rparr>
     in if ret \<noteq> 0 then Inl Log_fatal
        else let th2 = th1\<lparr>th_tid := tid\<rparr> in cassert (0 < th_tid th2) (Inr th2))"

definition Thread_join :: "int \<Rightarrow> thread \<Rightarrow> (int \<times> thread) result" where
  "Thread_join ret th =
     cassert (th_started th) (
     cassert (\<not> th_joined th) (Inr (ret, th\<lparr>th_joined := True\<rparr>)))"

text \<open>Threads without a name of their own get different ones.\<close>

fun default_names :: "nat \<Rightarrow> 32 word \<Rightarrow> string list" where
  "default_names 0 numCreated = []"
| "default_names (Suc n) numCreated =
     (case Thread_new [] numCreated of (numCreated', th) \<Rightarrow> th_name th # default_names n numCreated')"

lemma signed_small: "n < 2 ^ 31 \<Longrightarrow> sint (word_of_nat n :: 32 word) = int n"
  by (simp add: sint_uint uint_nat unat_of_nat take_bit_nat_eq_self signed_take_bit_int_eq_self)

lemma default_names:
  assumes "k + n < 2 ^ 31"
  shows "default_names n (word_of_nat k) = map (\<lambda>i. ''Thread'' @ dec_digits (k + i + 1)) [0..<n]"
  using assms
proof (induction n arbitrary: k)
  case (Suc n)
  have k: "Suc k < 2 ^ 31" using Suc.prems by simp
  have s: "sint (word_of_nat (Suc k) :: 32 word) = int (Suc k)"
    using signed_small [OF k] .
  have "length (dec_digits (Suc k)) \<le> 10" by (rule length_dec_digits) (use k in simp_all)
  then have "snprintf 32 (''Thread'' @ decimal (int (Suc k))) = ''Thread'' @ dec_digits (Suc k)"
    by (simp add: snprintf_def decimal_def nat_add_distrib)
  moreover have "(word_of_nat k :: 32 word) + 1 = word_of_nat (Suc k)" by simp
  ultimately have "default_names (Suc n) (word_of_nat k) = (''Thread'' @ dec_digits (Suc k)) # default_names n (word_of_nat (Suc k))"
    using s by (simp add: add.commute Thread_new_def Thread_setDefaultName_def Atomic_incrementAndGet_def Atomic_addAndGet_def
        Atomic_getAndAdd_def)
  moreover have "default_names n (word_of_nat (Suc k)) = map (\<lambda>i. ''Thread'' @ dec_digits (Suc k + i + 1)) [0..<n]"
    by (rule Suc.IH) (use Suc.prems in simp)
  ultimately show ?case
    by (simp add: map_upt_Suc del: default_names.simps upt_Suc)
qed simp

section \<open>The new thread and the one that starts it\<close>

text \<open>\<open>pthread_create\<close> has succeeded: \<open>caller\<close> is in \<open>latch_.wait()\<close>, and the new thread, whose id is \<open>new\<close>, begins
  \<open>runInThread\<close>. It writes \<open>*tid_\<close>, without a lock, and then counts the latch down; \<open>caller\<close> then reads \<open>tid_\<close>
  in its \<open>assert\<close>, without a lock, and returns.\<close>

record thread_start =
  ts_latch :: "(latch_guard, latch_action, int, int) monitor"
  ts_tid :: int
  ts_stored :: bool
  ts_returned :: bool

definition Thread_starting :: "int \<Rightarrow> int \<Rightarrow> thread_start" where
  "Thread_starting caller new =
     \<lparr>ts_latch = CountDownLatch_threads 1 ((\<lambda>_. [])(caller := [Latch_wait], new := [Latch_countDown])),
      ts_tid = 0, ts_stored = False, ts_returned = False\<rparr>"

inductive thread_start_step :: "int \<Rightarrow> int \<Rightarrow> thread_start \<Rightarrow> thread_start result \<Rightarrow> bool"
  for caller new s where
  store: "\<not> ts_stored s \<Longrightarrow> thread_start_step caller new s (Inr (s\<lparr>ts_tid := new, ts_stored := True\<rparr>))"
| latch: "t = new \<longrightarrow> ts_stored s \<Longrightarrow> monitor_step latch_tests latch_act t (ts_latch s) (Inr m) \<Longrightarrow>
    thread_start_step caller new s (Inr (s\<lparr>ts_latch := m\<rparr>))"
| latch_fails: "t = new \<longrightarrow> ts_stored s \<Longrightarrow> monitor_step latch_tests latch_act t (ts_latch s) (Inl e) \<Longrightarrow>
    thread_start_step caller new s (Inl e)"
| return: "mo_code (ts_latch s) caller = [] \<Longrightarrow> \<not> ts_returned s \<Longrightarrow>
    thread_start_step caller new s (cassert (0 < ts_tid s) (Inr (s\<lparr>ts_returned := True\<rparr>)))"

inductive thread_start_run :: "int \<Rightarrow> int \<Rightarrow> thread_start \<Rightarrow> bool" for caller new where
  start: "thread_start_run caller new (Thread_starting caller new)"
| step: "thread_start_run caller new s \<Longrightarrow> thread_start_step caller new s (Inr s') \<Longrightarrow> thread_start_run caller new s'"
| wake: "thread_start_run caller new s \<Longrightarrow> spurious_wakeup (ts_latch s) m \<Longrightarrow>
    thread_start_run caller new (s\<lparr>ts_latch := m\<rparr>)"

text \<open>The new thread does one call of \<open>countDown\<close>: what is left of it tells the count. Once the caller has seen the
  latch open, nothing is left.\<close>

lemma countDown_code: "CountDownLatch_countDown =
    [Acquire, Assign_holder, Run Count_down, Notify_all_if Count_zero latch_condition, Unassign_holder, Release]"
  by (simp add: latch_code)

lemma countDown_rest:
  "CountDownLatch_countDown = p @ c \<Longrightarrow> disciplined Free c \<Longrightarrow> c = CountDownLatch_countDown \<or> c = []"
  by (auto simp: countDown_code Cons_eq_append_conv)

lemma countDown_next:
  "CountDownLatch_countDown = p @ i # c \<Longrightarrow>
     i \<in> set CountDownLatch_countDown \<and> CountDownLatch_countDown = (p @ [i]) @ c \<and> i \<notin> set c"
proof -
  assume c: "CountDownLatch_countDown = p @ i # c"
  have "distinct (CountDownLatch_countDown :: latch_code)" by (simp add: countDown_code latch_condition_def)
  then have "distinct (p @ i # c)" unfolding c .
  then show ?thesis by (simp add: c)
qed

definition counting :: "int \<Rightarrow> int \<Rightarrow> (latch_guard, latch_action, int, int) monitor \<Rightarrow> bool" where
  "counting caller new m \<longleftrightarrow>
     (\<exists>p. CountDownLatch_countDown = p @ mo_code m new) \<and> mo_waits m new = None \<and>
     mo_data m = (if Run Count_down \<in> set (mo_code m new) then 1 else 0) \<and>
     (waits_left (mo_code m caller) = 0 \<longrightarrow> mo_code m new = [])"

abbreviation start_word :: "int \<Rightarrow> int \<Rightarrow> (latch_guard, latch_action) instr \<Rightarrow> bool" where
  "start_word new t i \<equiv> latch_word i \<and> (t = new \<or> (\<forall>a. i \<noteq> Run a))"

lemma counting_step:
  assumes "counting caller new m" and "lock_ok m" and "vocabulary (start_word new) m" and "caller \<noteq> new"
    and st: "monitor_step latch_tests latch_act t m (Inr m')"
  shows "counting caller new m'"
proof (cases "t = new")
  case True
  obtain p where p: "CountDownLatch_countDown = p @ mo_code m new" using assms(1) by (auto simp: counting_def)
  have others: "mo_code m' caller = mo_code m caller" using step_code_others [OF st] assms(4) True by simp
  have left: "waits_left (mo_code m' caller) \<noteq> 0"
    using assms(1) step_code_self [OF st] True by (auto simp: counting_def others)
  obtain i c where ic: "mo_code m new = i # c" using step_code_self [OF st] True by (cases "mo_code m new") auto
  note n = countDown_next [OF p [unfolded ic]]
  show ?thesis
    using st assms(1) n left ic True
    by cases (auto simp: counting_def countDown_code split: if_splits)
next
  case False
  have new: "mo_code m' new = mo_code m new" using step_code_others [OF st] False by simp
  have wn: "mo_waits m' new = None"
    using step_other(3) [OF assms(2) st, of new] False assms(1) by (auto simp: counting_def)
  have acts: "Run a \<notin> set (mo_code m t)" for a using assms(3) False by (auto simp: vocabulary_def)
  have data: "mo_data m' = mo_data m" using st acts by cases auto
  have "mo_code m new = []" if z: "waits_left (mo_code m' caller) = 0"
  proof (cases "waits_left (mo_code m caller) = 0")
    case True
    then show ?thesis using assms(1) by (simp add: counting_def)
  next
    case left: False
    then have tc: "t = caller" using step_code_others [OF st, of caller] z by fastforce
    have w: "\<forall>i \<in> set (mo_code m caller). latch_word i" using assms(3) by (simp add: vocabulary_def)
    have "level m caller = Owned \<and> mo_data m \<le> 0"
      using st left z w lock_okD [OF assms(2), of caller] unfolding tc
      by cases (auto simp: Condition_wait_code split: if_splits)
    then have "level m new = Free" and "mo_data m \<le> 0" using assms(4) by (auto simp: level_def split: if_splits)
    then have d: "disciplined Free (mo_code m new)" using lock_okD [OF assms(2), of new] by simp
    obtain p where "CountDownLatch_countDown = p @ mo_code m new" using assms(1) by (auto simp: counting_def)
    then have "mo_code m new = CountDownLatch_countDown \<or> mo_code m new = []" by (rule countDown_rest [OF _ d])
    moreover have "Run Count_down \<in> set CountDownLatch_countDown" by (simp add: countDown_code)
    ultimately show ?thesis using assms(1) \<open>mo_data m \<le> 0\<close> by (auto simp: counting_def)
  qed
  then show ?thesis using assms(1) by (simp add: counting_def new wn data)
qed

text \<open>The latch of the whole run, and the two members outside its lock.\<close>

definition start_inv :: "int \<Rightarrow> int \<Rightarrow> thread_start \<Rightarrow> bool" where
  "start_inv caller new s \<longleftrightarrow>
     monitor_run latch_tests latch_act (ts_latch (Thread_starting caller new)) (ts_latch s) \<and>
     counting caller new (ts_latch s) \<and>
     (mo_code (ts_latch s) new \<noteq> CountDownLatch_countDown \<longrightarrow> ts_stored s) \<and> (ts_stored s \<longrightarrow> ts_tid s = new) \<and>
     (ts_returned s \<longrightarrow> mo_code (ts_latch s) caller = [])"

lemma starting_latch:
  "ts_latch (Thread_starting caller new) = CountDownLatch_threads 1 ((\<lambda>_. [])(caller := [Latch_wait], new := [Latch_countDown]))"
  by (simp add: Thread_starting_def)

lemma start_inv:
  assumes "thread_start_run caller new s" and ids: "caller \<noteq> new" "caller \<noteq> 0" "new \<noteq> 0"
  shows "start_inv caller new s"
  using assms(1)
proof induction
  case start
  then show ?case using ids
    by (auto simp: start_inv_def starting_latch counting_def Thread_starting_def countDown_code latch_code intro: monitor_run.start)
next
  case (step s s')
  let ?L0 = "ts_latch (Thread_starting caller new)"
  have run: "monitor_run latch_tests latch_act ?L0 (ts_latch s)" using step.IH by (simp add: start_inv_def)
  have words0: "vocabulary (start_word new) ?L0"
    using ids latch_checks(5) by (auto simp: vocabulary_def starting_latch latch_code)
  have words: "vocabulary (start_word new) (ts_latch s)"
    by (rule vocabulary_run [OF run words0]) (auto simp: Condition_wait_code)
  have lock: "lock_ok (ts_latch s)" by (rule latch_reached(2) [OF run [unfolded starting_latch]]) (use ids in simp)
  from step.hyps(2) show ?case
  proof cases
    case (latch t m)
    have "counting caller new m"
      by (rule counting_step [OF _ lock words ids(1) latch(3)]) (use step.IH in \<open>simp add: start_inv_def\<close>)
    moreover have "mo_code m caller = []" if "mo_code (ts_latch s) caller = []"
      using that step_code_self [OF latch(3)] step_code_others [OF latch(3), of caller] by (cases "t = caller") auto
    moreover have "mo_code m new \<noteq> CountDownLatch_countDown \<longrightarrow> ts_stored s"
      using latch(2) step_code_others [OF latch(3), of new] step.IH by (cases "t = new") (auto simp: start_inv_def)
    ultimately show ?thesis using latch step.IH monitor_run.step [OF run latch(3)] by (simp add: start_inv_def)
  qed (use step.IH in \<open>auto simp: start_inv_def cassert_def split: if_splits\<close>)
next
  case (wake s m)
  have run: "monitor_run latch_tests latch_act (ts_latch (Thread_starting caller new)) m"
    using wake.IH wake.hyps(2) by (auto simp: start_inv_def intro: monitor_run.wake)
  then show ?case using wake.IH wake.hyps(2)
    by (auto simp: start_inv_def counting_def elim!: spurious_wakeup.cases)
qed

lemma level_free: "level m t = Free \<Longrightarrow> mo_mutex m \<noteq> Some t"
  by (auto simp: level_def split: if_splits)

lemma start_step_wf:
  assumes "caller \<noteq> new" and "caller \<noteq> 0" and "new \<noteq> 0"
  shows "wf {(s', s). thread_start_run caller new s \<and> thread_start_step caller new s (Inr s')}"
proof -
  let ?calls = "(\<lambda>_. [])(caller := [Latch_wait], new := [Latch_countDown])"
  let ?R = "{(m', m). monitor_run latch_tests latch_act (CountDownLatch_threads 1 ?calls) m \<and>
                      (\<exists>t. monitor_step latch_tests latch_act t m (Inr m'))}"
  let ?left = "\<lambda>s. ((if ts_stored s then 0 else 1) + (if ts_returned s then 0 else 1), ts_latch s) :: nat \<times> _"
  have "wf ?R" by (rule monitor_ends [where T = "{caller, new}"]) (auto simp: idle_outside_def)
  then have "wf (inv_image (less_than <*lex*> ?R) ?left)" by (intro wf_inv_image wf_lex_prod wf_less_than)
  then show ?thesis
  proof (rule wf_subset, clarify)
    fix s' s
    assume run: "thread_start_run caller new s" and st: "thread_start_step caller new s (Inr s')"
    have m: "monitor_run latch_tests latch_act (CountDownLatch_threads 1 ?calls) (ts_latch s)"
      using start_inv [OF run assms] by (simp add: start_inv_def starting_latch)
    show "(s', s) \<in> inv_image (less_than <*lex*> ?R) ?left"
      using st m by cases (auto simp: cassert_def split: if_splits)
  qed
qed

text \<open>
  C25: starting a thread. Whatever the interleaving, nothing fails: the assertion on \<open>tid_\<close>, which is read without
  the lock, holds. When \<open>start\<close> has returned, \<open>tid_\<close> is the id of the new thread, and the new thread is done with
  the latch, its mutex and its condition, so that the \<open>Thread\<close> may be destroyed at once. No schedule goes on for
  ever, and where nothing is left to happen \<open>start\<close> has returned.
\<close>

theorem Thread_start_publishes:
  assumes "caller \<noteq> new" and "caller \<noteq> 0" and "0 < new"
    and run: "thread_start_run caller new s"
  shows "(\<forall>e. \<not> thread_start_step caller new s (Inl e)) \<and>
    (ts_returned s \<longrightarrow> ts_tid s = new \<and> mo_code (ts_latch s) new = [] \<and> mo_mutex (ts_latch s) = None \<and>
       (\<forall>m. \<not> spurious_wakeup (ts_latch s) m)) \<and>
    ((\<nexists>r. thread_start_step caller new s r) \<longrightarrow> ts_returned s) \<and>
    wf {(s', s). thread_start_run caller new s \<and> thread_start_step caller new s (Inr s')}"
proof (intro conjI)
  let ?calls = "(\<lambda>_. [])(caller := [Latch_wait], new := [Latch_countDown])"
  have ids: "caller \<noteq> new" "caller \<noteq> 0" "new \<noteq> 0" using assms(1-3) by auto
  have inv: "start_inv caller new s" by (rule start_inv [OF run ids])
  have m: "monitor_run latch_tests latch_act (CountDownLatch_threads 1 ?calls) (ts_latch s)" and free: "?calls 0 = []"
    using inv ids by (auto simp: start_inv_def starting_latch)
  have count: "counting caller new (ts_latch s)" using inv by (simp add: start_inv_def)
  have done_new: "mo_code (ts_latch s) caller = [] \<Longrightarrow> mo_code (ts_latch s) new = []"
    using count by (simp add: counting_def)
  have done_tid: "mo_code (ts_latch s) new = [] \<Longrightarrow> ts_stored s \<and> ts_tid s = new"
    using inv by (auto simp: start_inv_def countDown_code)
  show "\<forall>e. \<not> thread_start_step caller new s (Inl e)"
  proof (intro allI notI)
    fix e
    assume "thread_start_step caller new s (Inl e)"
    then show False
      using latch_safe [OF m free] count done_new done_tid assms(3)
      by cases (auto simp: counting_def result_simps cassert_def split: if_splits)
  qed
  have idle: "mo_code (ts_latch s) t = []" if "t \<noteq> caller" "t \<noteq> new" for t
  proof -
    have "idle_outside {caller, new} (ts_latch s)"
      by (rule idle_outside_run [OF m]) (simp add: idle_outside_def)
    then show ?thesis using that by (simp add: idle_outside_def)
  qed
  show "ts_returned s \<longrightarrow> ts_tid s = new \<and> mo_code (ts_latch s) new = [] \<and> mo_mutex (ts_latch s) = None \<and>
       (\<forall>m. \<not> spurious_wakeup (ts_latch s) m)"
  proof
    assume "ts_returned s"
    then have c: "mo_code (ts_latch s) caller = []" using inv by (simp add: start_inv_def)
    then have all: "mo_code (ts_latch s) t = []" for t using idle [of t] done_new by (cases "t = caller"; cases "t = new") auto
    note lock = latch_reached(2) [OF m free]
    have "level (ts_latch s) t = Free" for t using lock_okD [OF lock, of t] all [of t] by simp
    moreover have "mo_waits (ts_latch s) t = None" for t
    proof -
      have "thread_ok (ts_latch s) t" using lock by (simp add: lock_ok_def)
      then show ?thesis using all [of t] by (auto simp: thread_ok_def)
    qed
    ultimately have "mo_waits (ts_latch s) t = None" "mo_mutex (ts_latch s) \<noteq> Some t" for t
      using level_free by blast+
    then show "ts_tid s = new \<and> mo_code (ts_latch s) new = [] \<and> mo_mutex (ts_latch s) = None \<and>
       (\<forall>m. \<not> spurious_wakeup (ts_latch s) m)"
      using all done_tid by (auto simp: not_Some_eq [symmetric] elim!: spurious_wakeup.cases simp del: not_Some_eq)
  qed
  show "(\<nexists>r. thread_start_step caller new s r) \<longrightarrow> ts_returned s"
  proof
    assume stuck: "\<nexists>r. thread_start_step caller new s r"
    then have "ts_stored s" by (blast intro: thread_start_step.store)
    have "\<not> monitor_step latch_tests latch_act t (ts_latch s) r" for t r
      using stuck \<open>ts_stored s\<close> by (cases r) (blast intro: thread_start_step.latch thread_start_step.latch_fails)+
    then have m_stuck: "monitor_stuck latch_tests latch_act (ts_latch s)" by (simp add: monitor_stuck_def)
    have "mo_code (ts_latch s) new = []" using latch_stuck [OF m free m_stuck, of new] count by (auto simp: counting_def)
    then have "mo_code (ts_latch s) caller = []"
      using latch_stuck [OF m free m_stuck, of caller] count by (auto simp: counting_def)
    then show "ts_returned s" using stuck by (blast intro: thread_start_step.return)
  qed
  show "wf {(s', s). thread_start_run caller new s \<and> thread_start_step caller new s (Inr s')}"
    by (rule start_step_wf [OF ids])
qed

lemma stored_run:
  assumes "monitor_run latch_tests latch_act (ts_latch s) m" and "thread_start_run caller new s" and "ts_stored s"
  shows "thread_start_run caller new (s\<lparr>ts_latch := m\<rparr>)"
  using assms(1)
proof induction
  case start
  then show ?case using assms(2) by simp
next
  case (step m t m')
  have "thread_start_step caller new (s\<lparr>ts_latch := m\<rparr>) (Inr (s\<lparr>ts_latch := m, ts_latch := m'\<rparr>))"
    by (rule thread_start_step.latch) (use step.hyps(2) assms(3) in simp_all)
  then show ?case using thread_start_run.step [OF step.IH] by simp
next
  case (wake m m')
  then show ?case using thread_start_run.wake [OF wake.IH] by simp
qed

text \<open>Thread 7 starts thread 8, and sleeps before it.\<close>

theorem Thread_start_publishes_witness:
  "\<exists>s. thread_start_run 7 8 s \<and> ts_returned s \<and> ts_tid s = 8 \<and> mo_code (ts_latch s) 8 = []"
proof -
  let ?s0 = "Thread_starting 7 8"
  let ?s1 = "?s0\<lparr>ts_tid := 8, ts_stored := True\<rparr>"
  define turns :: "int list" where "turns = replicate 5 7 @ replicate 6 8 @ replicate 5 7"
  obtain m where m: "exec_schedule latch_tests latch_act [7, 8] turns (ts_latch ?s0) = Some m" "mo_code m 7 = []" "mo_code m 8 = []"
    by (simp add: turns_def Thread_starting_def CountDownLatch_threads_def MutexLock_new_def latch_code eval_nat_numeral)
  have lock: "lock_ok (ts_latch ?s0)"
    unfolding starting_latch by (rule latch_reached(2) [OF monitor_run.start]) simp
  have "monitor_run latch_tests latch_act (ts_latch ?s0) m"
    using exec_schedule_from [OF m(1) lock] by (simp add: idle_outside_def starting_latch)
  moreover have "thread_start_run 7 8 ?s1"
    by (rule thread_start_run.step [OF thread_start_run.start]) (rule thread_start_step.store, simp add: Thread_starting_def)
  ultimately have "thread_start_run 7 8 (?s1\<lparr>ts_latch := m\<rparr>)" by (intro stored_run) simp_all
  moreover have "thread_start_step 7 8 (?s1\<lparr>ts_latch := m\<rparr>) (Inr (?s1\<lparr>ts_latch := m, ts_returned := True\<rparr>))"
    using thread_start_step.return [of "?s1\<lparr>ts_latch := m\<rparr>" 7 8] m(2) by (simp add: Thread_starting_def)
  ultimately have run: "thread_start_run 7 8 (?s1\<lparr>ts_latch := m, ts_returned := True\<rparr>)"
    using thread_start_run.step by fastforce
  then show ?thesis using Thread_start_publishes [OF _ _ _ run] by (intro exI) auto
qed

end
