(* ===== verification/Inet_Address.thy ===== *)
theory Inet_Address
  imports Endian Decimal
begin

text \<open>
  \<open>src/muduo/net/InetAddress.h\<close>, \<open>InetAddress.cpp\<close> and the address functions of
  \<open>src/muduo/net/SocketsOps.cpp\<close>: an IPv4 or IPv6 address with its port.

  The object is a union of \<open>sockaddr_in\<close> (16 bytes) and \<open>sockaddr_in6\<close> (28 bytes), so it is modelled as its
  28 bytes: the family at 0 (host order), the port at 2 (network order), an IPv4 address at 4, an IPv6
  address at 8, the scope id at 24. \<open>h\<close> is the byte order of the host, \<open>obj\<close> the memory an object is
  constructed in. \<open>inet_ntop\<close> and \<open>inet_pton\<close> are parameters, one pair for each family; \<open>inet_text\<close> says what
  they promise.
\<close>

section \<open>The object\<close>

type_synonym inet_address = "char list"

definition AF_INET :: "16 word" where "AF_INET = 2"
definition AF_INET6 :: "16 word" where "AF_INET6 = 10"
definition INADDR_ANY :: "32 word" where "INADDR_ANY = 0"
definition INADDR_LOOPBACK :: "32 word" where "INADDR_LOOPBACK = 0x7f000001"
definition INET_ADDRSTRLEN :: nat where "INET_ADDRSTRLEN = 16"
definition INET6_ADDRSTRLEN :: nat where "INET6_ADDRSTRLEN = 46"

definition bytes_at :: "nat \<Rightarrow> nat \<Rightarrow> char list \<Rightarrow> char list" where
  "bytes_at off n obj = take n (drop off obj)"

definition put_at :: "nat \<Rightarrow> char list \<Rightarrow> char list \<Rightarrow> char list" where
  "put_at off bs obj = take off obj @ bs @ drop (off + length bs) obj"

definition memZero :: "nat \<Rightarrow> char list \<Rightarrow> char list" where
  "memZero n obj = put_at 0 (replicate n (CHR 0x00)) obj"

definition InetAddress_family :: "endianness \<Rightarrow> inet_address \<Rightarrow> 16 word" where
  "InetAddress_family h a = object_value h (bytes_at 0 2 a)"

definition InetAddress_portNetEndian :: "endianness \<Rightarrow> inet_address \<Rightarrow> 16 word" where
  "InetAddress_portNetEndian h a = object_value h (bytes_at 2 2 a)"

definition InetAddress_toPort :: "endianness \<Rightarrow> inet_address \<Rightarrow> 16 word" where
  "InetAddress_toPort h a = networkToHost16 h (InetAddress_portNetEndian h a)"

definition InetAddress_ipNetEndian :: "endianness \<Rightarrow> inet_address \<Rightarrow> 32 word result" where
  "InetAddress_ipNetEndian h a =
     cassert (InetAddress_family h a = AF_INET) (Inr (object_value h (bytes_at 4 4 a)))"

definition in6addr_any :: "char list" where "in6addr_any = replicate 16 (CHR 0x00)"
definition in6addr_loopback :: "char list" where "in6addr_loopback = replicate 15 (CHR 0x00) @ [CHR 0x01]"

definition InetAddress_of_port :: "endianness \<Rightarrow> 16 word \<Rightarrow> bool \<Rightarrow> bool \<Rightarrow> char list \<Rightarrow> inet_address" where
  "InetAddress_of_port h port loopbackOnly ipv6 obj =
     (if ipv6 then
        let a1 = put_at 0 (object_bytes h 2 AF_INET6) (memZero 28 obj);
            a2 = put_at 8 (if loopbackOnly then in6addr_loopback else in6addr_any) a1
        in put_at 2 (object_bytes h 2 (hostToNetwork16 h port)) a2
      else
        let a1 = put_at 0 (object_bytes h 2 AF_INET) (memZero 16 obj);
            ip = (if loopbackOnly then INADDR_LOOPBACK else INADDR_ANY);
            a2 = put_at 4 (object_bytes h 4 (hostToNetwork32 h ip)) a1
        in put_at 2 (object_bytes h 2 (hostToNetwork16 h port)) a2)"

definition InetAddress_of_sockaddr :: "char list \<Rightarrow> char list \<Rightarrow> inet_address" where
  "InetAddress_of_sockaddr addr obj = put_at 0 addr obj"

definition InetAddress_setSockAddrInet6 :: "char list \<Rightarrow> inet_address \<Rightarrow> inet_address" where
  "InetAddress_setSockAddrInet6 addr6 a = put_at 0 addr6 a"

definition InetAddress_setScopeId :: "endianness \<Rightarrow> 32 word \<Rightarrow> inet_address \<Rightarrow> inet_address" where
  "InetAddress_setScopeId h scope_id a =
     (if InetAddress_family h a = AF_INET6 then put_at 24 (object_bytes h 4 scope_id) a else a)"

text \<open>\<open>gethostbyname_r\<close> returns \<open>ret\<close> and an entry: its type, its length and the address.\<close>

definition InetAddress_resolve ::
  "int \<Rightarrow> (16 word \<times> int \<times> char list) option \<Rightarrow> inet_address \<Rightarrow> (bool \<times> inet_address) result" where
  "InetAddress_resolve ret he out =
     (if ret = 0 \<and> he \<noteq> None then
        case the he of (h_addrtype, h_length, h_addr) \<Rightarrow>
          cassert (h_addrtype = AF_INET \<and> h_length = 4) (Inr (True, put_at 4 (take 4 h_addr) out))
      else Inr (False, out))"

section \<open>Text\<close>

definition sockets_fromIpPort4 ::
  "endianness \<Rightarrow> (char list \<Rightarrow> char list option) \<Rightarrow> char list \<Rightarrow> 16 word \<Rightarrow> inet_address \<Rightarrow> inet_address" where
  "sockets_fromIpPort4 h pton4 ip port addr =
     (let a1 = put_at 0 (object_bytes h 2 AF_INET) addr;
          a2 = put_at 2 (object_bytes h 2 (hostToNetwork16 h port)) a1
      in case pton4 ip of None \<Rightarrow> a2 | Some b \<Rightarrow> put_at 4 b a2)"

definition sockets_fromIpPort6 ::
  "endianness \<Rightarrow> (char list \<Rightarrow> char list option) \<Rightarrow> char list \<Rightarrow> 16 word \<Rightarrow> inet_address \<Rightarrow> inet_address" where
  "sockets_fromIpPort6 h pton6 ip port addr =
     (let a1 = put_at 0 (object_bytes h 2 AF_INET6) addr;
          a2 = put_at 2 (object_bytes h 2 (hostToNetwork16 h port)) a1
      in case pton6 ip of None \<Rightarrow> a2 | Some b \<Rightarrow> put_at 8 b a2)"

definition InetAddress_of_ip ::
  "endianness \<Rightarrow> (char list \<Rightarrow> char list option) \<Rightarrow> (char list \<Rightarrow> char list option) \<Rightarrow> char list \<Rightarrow> 16 word \<Rightarrow>
   bool \<Rightarrow> char list \<Rightarrow> inet_address" where
  "InetAddress_of_ip h pton4 pton6 ip port ipv6 obj =
     (if ipv6 then sockets_fromIpPort6 h pton6 ip port (memZero 28 obj)
      else sockets_fromIpPort4 h pton4 ip port (memZero 16 obj))"

text \<open>The text left in \<open>buf\<close>, an array of \<open>sz\<close> characters that holds \<open>''''\<close> before.\<close>

definition sockets_toIp ::
  "endianness \<Rightarrow> (char list \<Rightarrow> char list) \<Rightarrow> (char list \<Rightarrow> char list) \<Rightarrow> nat \<Rightarrow> inet_address \<Rightarrow> char list result" where
  "sockets_toIp h ntop4 ntop6 sz addr =
     (if InetAddress_family h addr = AF_INET then
        cassert (INET_ADDRSTRLEN \<le> sz) (Inr (ntop4 (bytes_at 4 4 addr)))
      else if InetAddress_family h addr = AF_INET6 then
        cassert (INET6_ADDRSTRLEN \<le> sz) (Inr (ntop6 (bytes_at 8 16 addr)))
      else Inr [])"

definition sockets_toIpPort ::
  "endianness \<Rightarrow> (char list \<Rightarrow> char list) \<Rightarrow> (char list \<Rightarrow> char list) \<Rightarrow> nat \<Rightarrow> inet_address \<Rightarrow> char list result" where
  "sockets_toIpPort h ntop4 ntop6 sz addr =
     andThen (sockets_toIp h ntop4 ntop6 sz addr) (\<lambda>buf.
     let e = length buf;
         port = networkToHost16 h (InetAddress_portNetEndian h addr)
     in cassert (e < sz) (Inr (buf @ snprintf (sz - e) ('':'' @ decimal (uint port)))))"

definition InetAddress_toIp ::
  "endianness \<Rightarrow> (char list \<Rightarrow> char list) \<Rightarrow> (char list \<Rightarrow> char list) \<Rightarrow> inet_address \<Rightarrow> char list result" where
  "InetAddress_toIp h ntop4 ntop6 a = sockets_toIp h ntop4 ntop6 64 a"

definition InetAddress_toIpPort ::
  "endianness \<Rightarrow> (char list \<Rightarrow> char list) \<Rightarrow> (char list \<Rightarrow> char list) \<Rightarrow> inet_address \<Rightarrow> char list result" where
  "InetAddress_toIpPort h ntop4 ntop6 a = sockets_toIpPort h ntop4 ntop6 64 a"

section \<open>The two ends of a connection\<close>

text \<open>What \<open>getsockname\<close> or \<open>getpeername\<close> stores, or an error.\<close>

definition sockets_getLocalAddr :: "char list option \<Rightarrow> char list \<Rightarrow> inet_address" where
  "sockets_getLocalAddr stored obj =
     (let localaddr = memZero 28 obj
      in case stored of None \<Rightarrow> localaddr | Some b \<Rightarrow> put_at 0 b localaddr)"

definition sockets_getPeerAddr :: "char list option \<Rightarrow> char list \<Rightarrow> inet_address" where
  "sockets_getPeerAddr stored obj =
     (let peeraddr = memZero 28 obj
      in case stored of None \<Rightarrow> peeraddr | Some b \<Rightarrow> put_at 0 b peeraddr)"

definition sockets_isSelfConnect :: "endianness \<Rightarrow> inet_address \<Rightarrow> inet_address \<Rightarrow> bool" where
  "sockets_isSelfConnect h localaddr peeraddr =
     (if InetAddress_family h localaddr = AF_INET then
        InetAddress_portNetEndian h localaddr = InetAddress_portNetEndian h peeraddr \<and>
        (object_value h (bytes_at 4 4 localaddr) :: 32 word) = object_value h (bytes_at 4 4 peeraddr)
      else if InetAddress_family h localaddr = AF_INET6 then
        InetAddress_portNetEndian h localaddr = InetAddress_portNetEndian h peeraddr \<and>
        bytes_at 8 16 localaddr = bytes_at 8 16 peeraddr
      else False)"

section \<open>What the library promises\<close>

text \<open>\<open>inet_ntop\<close> and \<open>inet_pton\<close> for addresses of \<open>width\<close> bytes, whose text fits \<open>bound\<close> characters with its
  terminator.\<close>

locale inet_text =
  fixes ntop :: "char list \<Rightarrow> char list"
    and pton :: "char list \<Rightarrow> char list option"
    and width :: nat
    and bound :: nat
  assumes pton_ntop: "length b = width \<Longrightarrow> pton (ntop b) = Some b"
    and ntop_bound: "length b = width \<Longrightarrow> length (ntop b) < bound"
    and pton_width: "pton s = Some b \<Longrightarrow> length b = width"
begin

lemma ntop_inject: "length b = width \<Longrightarrow> length c = width \<Longrightarrow> ntop b = ntop c \<longleftrightarrow> b = c"
  by (metis pton_ntop option.inject)

lemma ntop_pton: "pton s = Some b \<Longrightarrow> pton (ntop b) = Some b"
  by (rule pton_ntop [OF pton_width])

end


text \<open>IPv4 in dotted decimal, as POSIX describes it.\<close>

fun dotted :: "char list \<Rightarrow> char list" where
  "dotted [] = []"
| "dotted [b] = dec_digits (of_char b)"
| "dotted (b # c # bs) = dec_digits (of_char b) @ ''.'' @ dotted (c # bs)"

definition octet :: "char list \<Rightarrow> char option" where
  "octet s = (if s \<noteq> [] \<and> length s \<le> 3 \<and> list_all is_digit s \<and> dec_value 0 s < 256
              then Some (char_of (dec_value 0 s)) else None)"

fun undot :: "nat \<Rightarrow> char list \<Rightarrow> char list option" where
  "undot 0 s = None"
| "undot (Suc 0) s = map_option (\<lambda>b. [b]) (octet s)"
| "undot (Suc n) s =
     (case octet (takeWhile (\<lambda>c. c \<noteq> CHR ''.'') s) of None \<Rightarrow> None
      | Some b \<Rightarrow> if length (takeWhile (\<lambda>c. c \<noteq> CHR ''.'') s) < length s
                  then map_option (\<lambda>bs. b # bs) (undot n (drop 1 (dropWhile (\<lambda>c. c \<noteq> CHR ''.'') s))) else None)"

definition inet_pton4 :: "char list \<Rightarrow> char list option" where
  "inet_pton4 s = undot 4 s"

text \<open>IPv6 as eight groups of four hexadecimal digits, the longest of the texts that POSIX allows.\<close>

definition hex_char :: "nat \<Rightarrow> char" where
  "hex_char d = (''0123456789abcdef'' ! d)"

definition hex_byte :: "char \<Rightarrow> char list" where
  "hex_byte b = [hex_char (of_char b div 16), hex_char (of_char b mod 16)]"

fun groups :: "char list \<Rightarrow> char list" where
  "groups [b, c] = hex_byte b @ hex_byte c"
| "groups (b # c # bs) = hex_byte b @ hex_byte c @ '':'' @ groups bs"
| "groups _ = []"

definition hex_digit :: "char \<Rightarrow> nat option" where
  "hex_digit c = (if is_digit c then Some (of_char c - 48)
     else if c \<in> set ''abcdef'' then Some (of_char c - 87) else None)"

fun ungroup :: "char list \<Rightarrow> char list option" where
  "ungroup [a, b, c, d] =
     (case (hex_digit a, hex_digit b, hex_digit c, hex_digit d) of
        (Some w, Some x, Some y, Some z) \<Rightarrow> Some [char_of (16 * w + x), char_of (16 * y + z)]
      | _ \<Rightarrow> None)"
| "ungroup (a # b # c # d # e # s) =
     (if e = CHR '':'' then
        case (hex_digit a, hex_digit b, hex_digit c, hex_digit d, ungroup s) of
          (Some w, Some x, Some y, Some z, Some r) \<Rightarrow> Some (char_of (16 * w + x) # char_of (16 * y + z) # r)
        | _ \<Rightarrow> None
      else None)"
| "ungroup _ = None"

definition inet_pton6 :: "char list \<Rightarrow> char list option" where
  "inet_pton6 s = (case ungroup s of Some b \<Rightarrow> if length b = 16 then Some b else None | None \<Rightarrow> None)"


section \<open>Bytes of an object\<close>

lemma length_put_at [simp]: "off + length bs \<le> length obj \<Longrightarrow> length (put_at off bs obj) = length obj"
  by (simp add: put_at_def)

lemma length_memZero [simp]: "n \<le> length obj \<Longrightarrow> length (memZero n obj) = length obj"
  by (simp add: memZero_def)

lemma bytes_put_same [simp]: "off \<le> length obj \<Longrightarrow> n = length bs \<Longrightarrow> bytes_at off n (put_at off bs obj) = bs"
  by (simp add: bytes_at_def put_at_def)

lemma bytes_put_before [simp]:
  "off + n \<le> off' \<Longrightarrow> off' \<le> length obj \<Longrightarrow> bytes_at off n (put_at off' bs obj) = bytes_at off n obj"
  by (auto simp: bytes_at_def put_at_def drop_take min_def)

lemma bytes_put_after [simp]:
  "off' + length bs \<le> off \<Longrightarrow> off' \<le> length obj \<Longrightarrow> bytes_at off n (put_at off' bs obj) = bytes_at off n obj"
  by (simp add: bytes_at_def put_at_def min_def)

lemma bytes_le_zero: "bytes_le n 0 = replicate n (CHR 0x00)"
  by (induction n) (simp_all add: char_of_def)

lemma put_at_idem: "bytes_at off (length bs) obj = bs \<Longrightarrow> off + length bs \<le> length obj \<Longrightarrow> put_at off bs obj = obj"
  unfolding bytes_at_def put_at_def by (metis append_take_drop_id drop_drop add.commute)

lemma bytes_at_zero: "off + n \<le> m \<Longrightarrow> bytes_at off n (memZero m obj) = replicate n (CHR 0x00)"
  by (simp add: bytes_at_def memZero_def put_at_def min_def)

lemma object_value_bytes:
  "256 ^ n = (2::nat) ^ LENGTH('a) \<Longrightarrow> object_value h (object_bytes h n x) = (x :: 'a::len word)"
  using unat_mod_id [of n x] by (cases h) (simp_all add: object_value_def object_bytes_def le_value_bytes_le)

lemma object_value_16 [simp]: "object_value h (object_bytes h 2 x) = (x :: 16 word)"
  by (rule object_value_bytes) simp

lemma object_value_32 [simp]: "object_value h (object_bytes h 4 x) = (x :: 32 word)"
  by (rule object_value_bytes) simp

lemma object_value_inject:
  assumes "length bs = n" and "length cs = n" and "256 ^ n = (2::nat) ^ LENGTH('a)"
  shows "(object_value h bs :: 'a::len word) = object_value h cs \<longleftrightarrow> bs = cs"
proof
  assume eq: "(object_value h bs :: 'a word) = object_value h cs"
  have "unat (word_of_nat (le_value xs) :: 'a word) = le_value xs" if "length xs = n" for xs
    using unat_word_le_value [of xs, where 'a = 'a] that assms(3) by simp
  then show "bs = cs"
    using eq assms(1,2) bytes_le_le_value [of bs] bytes_le_le_value [of cs]
      bytes_le_le_value [of "rev bs"] bytes_le_le_value [of "rev cs"]
    by (cases h) (simp_all add: object_value_def, metis length_rev rev_rev_ident, metis length_rev rev_rev_ident)
qed simp

lemma port_wire [simp]: "networkToHost16 h (hostToNetwork16 h port) = port"
  using w16.dec_enc [of h port] by (simp add: wire16_def unwire16_def)

lemma port_wire_inject: "networkToHost16 h p = networkToHost16 h q \<longleftrightarrow> p = q"
proof
  assume eq: "networkToHost16 h p = networkToHost16 h q"
  have "unwire16 h (object_bytes h 2 p) = unwire16 h (object_bytes h 2 q)" using eq by (simp add: unwire16_def)
  then have "object_bytes h 2 p = object_bytes h 2 q" using w16.enc_dec by (metis length_object_bytes)
  then show "p = q" by (metis object_value_16)
qed simp

lemmas family_simps = InetAddress_family_def InetAddress_toPort_def InetAddress_portNetEndian_def AF_INET_def AF_INET6_def

section \<open>Reading back what was printed\<close>

lemma decimal_port: "decimal (uint (port :: 16 word)) = dec_digits (unat port)" "length (dec_digits (unat (port :: 16 word))) \<le> 5"
proof -
  show "decimal (uint port) = dec_digits (unat port)" by (simp add: decimal_def)
  have "unat port < 10 ^ 5" by (rule less_trans [OF unsigned_less]) simp
  then show "length (dec_digits (unat port)) \<le> 5" by (rule length_dec_digits) simp
qed

text \<open>The last colon separates the port.\<close>

lemma last_colon:
  assumes "u @ CHR '':'' # v = x @ CHR '':'' # y" and "CHR '':'' \<notin> set v" and "CHR '':'' \<notin> set y"
  shows "u = x \<and> v = y"
proof -
  have r: "takeWhile (\<lambda>c. c \<noteq> CHR '':'') (rev (u @ CHR '':'' # v)) = rev v" if "CHR '':'' \<notin> set v" for u v :: string
  proof -
    have "takeWhile (\<lambda>c. c \<noteq> CHR '':'') (rev v @ CHR '':'' # rev u) = rev v @ takeWhile (\<lambda>c. c \<noteq> CHR '':'') (CHR '':'' # rev u)"
      by (rule takeWhile_append2) (use that in auto)
    then show ?thesis by simp
  qed
  have "rev v = rev y" using r [OF assms(2), of u] r [OF assms(3), of x] assms(1) by simp
  then show ?thesis using assms(1) by simp
qed

lemma octet_digits: "octet (dec_digits (of_char b)) = Some b"
proof -
  have "length (dec_digits (of_char b)) \<le> 3" by (rule length_dec_digits [OF less_trans [OF of_char_less_256]]) simp_all
  then show ?thesis using dec_digits_digits by (auto simp: octet_def list_all_iff)
qed

lemma undot_dotted: "length bs = n \<Longrightarrow> 0 < n \<Longrightarrow> undot n (dotted bs) = Some bs"
proof (induction n arbitrary: bs)
  case (Suc n)
  have no_dot: "\<forall>c \<in> set (dec_digits m). c \<noteq> CHR ''.''" for m
    using dec_digits_digits [of m] by (auto simp: is_digit_def)
  show ?case
  proof (cases n)
    case 0
    then obtain b where "bs = [b]" using Suc.prems by (cases bs) auto
    then show ?thesis using 0 by (simp add: octet_digits)
  next
    case (Suc k)
    then obtain b c cs where bs: "bs = b # c # cs" using Suc.prems by (cases bs; cases "tl bs") auto
    have t: "takeWhile (\<lambda>c. c \<noteq> CHR ''.'') (dec_digits (of_char b) @ ''.'' @ s) = dec_digits (of_char b)"
      "dropWhile (\<lambda>c. c \<noteq> CHR ''.'') (dec_digits (of_char b) @ ''.'' @ s) = ''.'' @ s" for s
      using no_dot [of "of_char b"] by (simp_all add: takeWhile_append dropWhile_append)
    have "undot n (dotted (c # cs)) = Some (c # cs)" using Suc.IH Suc.prems bs \<open>n = Suc k\<close> by simp
    then show ?thesis using t by (simp add: bs \<open>n = Suc k\<close> octet_digits)
  qed
qed simp


lemma length_undot: "undot n s = Some bs \<Longrightarrow> length bs = n"
proof (induction n arbitrary: s bs)
  case (Suc n)
  show ?case
  proof (cases n)
    case 0
    then show ?thesis using Suc.prems by (auto simp: map_option_case split: option.splits)
  next
    case (Suc k)
    then obtain b r rest where "undot n rest = Some r" "bs = b # r"
      using Suc.prems by (auto simp: map_option_case split: option.splits if_splits)
    then show ?thesis using Suc.IH by simp
  qed
qed simp

lemma octet_text: "length (dec_digits (of_char b)) \<le> 3"
  by (rule length_dec_digits [OF less_trans [OF of_char_less_256]]) simp_all

lemma length_dotted: "length bs = n \<Longrightarrow> length (dotted bs) < 4 * n + (if n = 0 then 1 else 0)"
proof (induction bs arbitrary: n rule: dotted.induct)
  case (3 b c bs)
  then show ?case using octet_text [of b] by (cases n) fastforce+
qed (use octet_text le_imp_less_Suc in fastforce)+

interpretation dotted: inet_text dotted inet_pton4 4 INET_ADDRSTRLEN
proof
  show "inet_pton4 (dotted b) = Some b" if "length b = 4" for b
    using that by (simp add: inet_pton4_def undot_dotted)
  show "length (dotted b) < INET_ADDRSTRLEN" if "length b = 4" for b
    using length_dotted [OF that] by (simp add: INET_ADDRSTRLEN_def)
  show "length b = 4" if "inet_pton4 s = Some b" for s b
    using that length_undot by (simp add: inet_pton4_def)
qed

lemma hex_round: "d < 16 \<Longrightarrow> hex_digit (hex_char d) = Some d"
proof -
  have "\<forall>d \<in> set [0..<16]. hex_digit (hex_char d) = Some d" by code_simp
  then show "d < 16 \<Longrightarrow> hex_digit (hex_char d) = Some d" by simp
qed

lemma hex_nibbles: "(of_char b :: nat) div 16 < 16" "char_of (16 * (of_char b div 16) + of_char b mod (16::nat)) = b"
proof -
  have "(of_char b :: nat) < 16 * 16" by (rule less_le_trans [OF of_char_less_256]) simp
  then show "(of_char b :: nat) div 16 < 16" by (rule less_mult_imp_div_less)
  show "char_of (16 * (of_char b div 16) + of_char b mod (16::nat)) = b" by simp
qed

lemma ungroup_groups: "length bs = 2 * Suc n \<Longrightarrow> ungroup (groups bs) = Some bs \<and> length (groups bs) = 5 * Suc n - 1"
proof (induction n arbitrary: bs)
  case 0
  then obtain b c where "bs = [b, c]" by (auto simp: length_Suc_conv numeral_2_eq_2)
  then show ?case by (simp add: hex_byte_def hex_round hex_nibbles)
next
  case (Suc n)
  then obtain b c cs where bs: "bs = b # c # cs" "length cs = 2 * Suc n" by (auto simp: length_Suc_conv)
  then obtain d e ds where cs: "cs = d # e # ds" by (auto simp: length_Suc_conv)
  show ?case using Suc.IH [OF bs(2)] by (simp add: bs(1) cs hex_byte_def hex_round hex_nibbles)
qed

interpretation grouped: inet_text groups inet_pton6 16 INET6_ADDRSTRLEN
proof
  show "inet_pton6 (groups b) = Some b" if "length b = 16" for b
    using that ungroup_groups [of b 7] by (simp add: inet_pton6_def)
  show "length (groups b) < INET6_ADDRSTRLEN" if "length b = 16" for b
    using that ungroup_groups [of b 7] by (simp add: INET6_ADDRSTRLEN_def)
  show "length b = 16" if "inet_pton6 s = Some b" for s b
    using that by (auto simp: inet_pton6_def split: option.splits if_splits)
qed


section \<open>Addresses and their text\<close>

text \<open>What the fields of a constructed address hold.\<close>

lemma of_ip_fields:
  fixes h :: endianness and ip :: string and port :: "16 word" and six :: bool
  assumes obj: "length obj = 28" and lib: "inet_text ntop4 pton4 4 s4" "inet_text ntop6 pton6 16 s6"
  defines "a \<equiv> InetAddress_of_ip h pton4 pton6 ip port six obj"
  shows "length a = 28" and "InetAddress_family h a = (if six then AF_INET6 else AF_INET)"
    and "InetAddress_toPort h a = port"
    and "\<not> six \<Longrightarrow> pton4 ip = Some b \<Longrightarrow> bytes_at 4 4 a = b"
    and "six \<Longrightarrow> pton6 ip = Some b \<Longrightarrow> bytes_at 8 16 a = b"
proof -
  have w: "pton4 ip = Some b \<Longrightarrow> length b = 4" "pton6 ip = Some b \<Longrightarrow> length b = 16" for b
    using inet_text.pton_width [OF lib(1)] inet_text.pton_width [OF lib(2)] by blast+
  note defs = a_def InetAddress_of_ip_def sockets_fromIpPort4_def sockets_fromIpPort6_def Let_def
  show "length a = 28" using w obj by (auto simp: defs split: option.split)
  show "InetAddress_family h a = (if six then AF_INET6 else AF_INET)"
    using w obj by (auto simp: defs InetAddress_family_def split: option.split)
  show "InetAddress_toPort h a = port"
    using w obj by (auto simp: defs InetAddress_toPort_def InetAddress_portNetEndian_def split: option.split)
  show "\<not> six \<Longrightarrow> pton4 ip = Some b \<Longrightarrow> bytes_at 4 4 a = b" using w obj by (simp add: defs)
  show "six \<Longrightarrow> pton6 ip = Some b \<Longrightarrow> bytes_at 8 16 a = b" using w obj by (simp add: defs)
qed

text \<open>The text of an address of a known family, with its port.\<close>

definition inet_text_of :: "endianness \<Rightarrow> (char list \<Rightarrow> char list) \<Rightarrow> (char list \<Rightarrow> char list) \<Rightarrow> inet_address \<Rightarrow> char list" where
  "inet_text_of h ntop4 ntop6 a =
     (if InetAddress_family h a = AF_INET then ntop4 (bytes_at 4 4 a) else ntop6 (bytes_at 8 16 a))"

lemma toIpPort_text:
  assumes lib: "inet_text ntop4 pton4 4 INET_ADDRSTRLEN" "inet_text ntop6 pton6 16 INET6_ADDRSTRLEN"
    and a: "length a = 28" "InetAddress_family h a = AF_INET \<or> InetAddress_family h a = AF_INET6"
  shows "InetAddress_toIp h ntop4 ntop6 a = Inr (inet_text_of h ntop4 ntop6 a)"
    and "InetAddress_toIpPort h ntop4 ntop6 a =
      Inr (inet_text_of h ntop4 ntop6 a @ '':'' @ dec_digits (unat (InetAddress_toPort h a)))"
    and "length (inet_text_of h ntop4 ntop6 a @ '':'' @ dec_digits (unat (InetAddress_toPort h a))) \<le>
      (if InetAddress_family h a = AF_INET then 21 else 51)"
proof -
  have len: "length (bytes_at 4 4 a) = 4" "length (bytes_at 8 16 a) = 16" using a by (simp_all add: bytes_at_def)
  have short: "length (ntop4 (bytes_at 4 4 a)) < INET_ADDRSTRLEN" "length (ntop6 (bytes_at 8 16 a)) < INET6_ADDRSTRLEN"
    using inet_text.ntop_bound [OF lib(1) len(1)] inet_text.ntop_bound [OF lib(2) len(2)] by blast+
  show ip: "InetAddress_toIp h ntop4 ntop6 a = Inr (inet_text_of h ntop4 ntop6 a)"
    using a(2) by (auto simp: InetAddress_toIp_def sockets_toIp_def inet_text_of_def INET_ADDRSTRLEN_def
        INET6_ADDRSTRLEN_def AF_INET_def AF_INET6_def)
  define port where "port = InetAddress_toPort h a"
  have p: "length (dec_digits (unat port)) \<le> 5" by (rule decimal_port(2))
  have t: "length (inet_text_of h ntop4 ntop6 a) \<le> (if InetAddress_family h a = AF_INET then 15 else 45)"
    using short by (simp add: inet_text_of_def INET_ADDRSTRLEN_def INET6_ADDRSTRLEN_def)
  have le: "length (inet_text_of h ntop4 ntop6 a) \<le> 45" using t by (simp split: if_splits)
  have fits: "snprintf (64 - length (inet_text_of h ntop4 ntop6 a)) ('':'' @ dec_digits (unat port)) = '':'' @ dec_digits (unat port)"
    unfolding snprintf_def by (rule take_all) (use le p in simp)
  show "InetAddress_toIpPort h ntop4 ntop6 a =
      Inr (inet_text_of h ntop4 ntop6 a @ '':'' @ dec_digits (unat (InetAddress_toPort h a)))"
    using ip fits le unfolding InetAddress_toIpPort_def sockets_toIpPort_def InetAddress_toIp_def port_def InetAddress_toPort_def
    by (simp add: Let_def decimal_port(1))
  show "length (inet_text_of h ntop4 ntop6 a @ '':'' @ dec_digits (unat (InetAddress_toPort h a))) \<le>
      (if InetAddress_family h a = AF_INET then 21 else 51)"
    using t p by (simp add: port_def [symmetric] split: if_splits)
qed

text \<open>
  C30: addresses and their text. On any host and for both families, an address built from a text that
  \<open>inet_pton\<close> accepts prints as the canonical text of the same address, and with its port; building it again
  from what it prints gives the same object. A text that \<open>inet_pton\<close> refuses is not reported: the result is
  the wildcard address (\<open>0.0.0.0\<close> or \<open>::\<close>) with the port.
\<close>

theorem InetAddress_text_roundtrip:
  fixes h :: endianness and ip :: string and port :: "16 word" and six :: bool
  assumes lib: "inet_text ntop4 pton4 4 INET_ADDRSTRLEN" "inet_text ntop6 pton6 16 INET6_ADDRSTRLEN"
    and obj: "length obj = 28"
  defines "ntop \<equiv> if six then ntop6 else ntop4" and "pton \<equiv> if six then pton6 else pton4"
    and "a \<equiv> InetAddress_of_ip h pton4 pton6 ip port six obj"
  shows "InetAddress_family h a = (if six then AF_INET6 else AF_INET) \<and> InetAddress_toPort h a = port \<and>
    (case pton ip of
       None \<Rightarrow> a = InetAddress_of_port h port False six obj
     | Some b \<Rightarrow>
         InetAddress_toIp h ntop4 ntop6 a = Inr (ntop b) \<and>
         InetAddress_toIpPort h ntop4 ntop6 a = Inr (ntop b @ '':'' @ dec_digits (unat port)) \<and>
         InetAddress_of_ip h pton4 pton6 (ntop b) (InetAddress_toPort h a) six obj = a)"
proof (intro conjI)
  have len: "length a = 28" and family: "InetAddress_family h a = (if six then AF_INET6 else AF_INET)"
    and port: "InetAddress_toPort h a = port"
    and addr: "\<And>b. \<not> six \<Longrightarrow> pton4 ip = Some b \<Longrightarrow> bytes_at 4 4 a = b"
      "\<And>b. six \<Longrightarrow> pton6 ip = Some b \<Longrightarrow> bytes_at 8 16 a = b"
    unfolding a_def by (rule of_ip_fields [OF obj lib]; assumption)+
  show "InetAddress_family h a = (if six then AF_INET6 else AF_INET)" "InetAddress_toPort h a = port"
    by (rule family, rule port)
  have known: "InetAddress_family h a = AF_INET \<or> InetAddress_family h a = AF_INET6" using family by simp
  have differ: "AF_INET \<noteq> AF_INET6" by (simp add: AF_INET_def AF_INET6_def)
  show "case pton ip of
       None \<Rightarrow> a = InetAddress_of_port h port False six obj
     | Some b \<Rightarrow>
         InetAddress_toIp h ntop4 ntop6 a = Inr (ntop b) \<and>
         InetAddress_toIpPort h ntop4 ntop6 a = Inr (ntop b @ '':'' @ dec_digits (unat port)) \<and>
         InetAddress_of_ip h pton4 pton6 (ntop b) (InetAddress_toPort h a) six obj = a"
  proof (cases "pton ip")
    case None
    have zero: "put_at 4 (object_bytes h 4 (hostToNetwork32 h INADDR_ANY)) x = x" if "bytes_at 4 4 x = replicate 4 (CHR 0x00)" "length x = 28" for x
    proof (rule put_at_idem)
      have "object_bytes h 4 (hostToNetwork32 h INADDR_ANY) = replicate 4 (CHR 0x00)"
        using wire_big_endian(2) [of h 0] by (simp add: wire32_def INADDR_ANY_def bytes_le_zero)
      then show "bytes_at 4 (length (object_bytes h 4 (hostToNetwork32 h INADDR_ANY))) x = object_bytes h 4 (hostToNetwork32 h INADDR_ANY)"
        using that by simp
    qed (use that in simp)
    have zero6: "put_at 8 in6addr_any x = x" if "bytes_at 8 16 x = replicate 16 (CHR 0x00)" "length x = 28" for x
      by (rule put_at_idem) (use that in \<open>simp_all add: in6addr_any_def\<close>)
    show ?thesis
      using None obj by (auto simp: pton_def a_def InetAddress_of_ip_def InetAddress_of_port_def Let_def
          sockets_fromIpPort4_def sockets_fromIpPort6_def zero zero6 bytes_at_zero)
  next
    case (Some b)
    have "inet_text_of h ntop4 ntop6 a = ntop b"
      using Some addr family differ by (simp add: inet_text_of_def ntop_def pton_def split: if_splits)
    moreover have "InetAddress_of_ip h pton4 pton6 (ntop b) port six obj = a"
    proof -
      have "pton (ntop b) = Some b"
        using Some inet_text.ntop_pton [OF lib(1)] inet_text.ntop_pton [OF lib(2)]
        by (simp add: ntop_def pton_def split: if_splits)
      then show ?thesis
        using Some by (simp add: a_def InetAddress_of_ip_def sockets_fromIpPort4_def sockets_fromIpPort6_def pton_def
            split: if_splits)
    qed
    ultimately show ?thesis using Some toIpPort_text [OF lib len known] port by simp
  qed
qed

theorem InetAddress_text_roundtrip_witness:
  "InetAddress_toIpPort Little dotted groups
     (InetAddress_of_ip Little inet_pton4 inet_pton6 ''127.0.0.1'' 8000 False (replicate 28 (CHR ''x''))) =
   Inr ''127.0.0.1:8000''"
proof -
  have obj: "length (replicate 28 (CHR ''x'')) = 28" by simp
  define bs where "bs = map char_of [127, 0, 0, 1 :: nat]"
  have d: "dec_digits 127 = ''127''" "dec_digits 0 = ''0''" "dec_digits (Suc 0) = ''1''" "dec_digits 8000 = ''8000''"
    by (simp_all add: dec_digits.simps digit_char_def char_of_def bit_Suc_0_iff)
  have t: "dotted bs = ''127.0.0.1''" by (simp add: bs_def d)
  have b: "inet_pton4 ''127.0.0.1'' = Some bs" using dotted.pton_ntop [of bs] by (simp add: t) (simp add: bs_def)
  show ?thesis
    using InetAddress_text_roundtrip [OF dotted.inet_text_axioms grouped.inet_text_axioms obj, where six = False and h = Little and ip = "''127.0.0.1''" and port = 8000]
    unfolding if_False b option.case t by (simp add: d del: replicate.simps)
qed

text \<open>A connection is to itself exactly when its two ends print alike.\<close>

theorem sockets_isSelfConnect_text:
  assumes lib: "inet_text ntop4 pton4 4 INET_ADDRSTRLEN" "inet_text ntop6 pton6 16 INET6_ADDRSTRLEN"
    and l: "length localaddr = 28" "InetAddress_family h localaddr = AF_INET \<or> InetAddress_family h localaddr = AF_INET6"
    and p: "length peeraddr = 28" "InetAddress_family h peeraddr = InetAddress_family h localaddr"
  shows "sockets_isSelfConnect h localaddr peeraddr \<longleftrightarrow>
    InetAddress_toIpPort h ntop4 ntop6 localaddr = InetAddress_toIpPort h ntop4 ntop6 peeraddr"
proof -
  have len: "length (bytes_at 4 4 localaddr) = 4" "length (bytes_at 4 4 peeraddr) = 4"
    "length (bytes_at 8 16 localaddr) = 16" "length (bytes_at 8 16 peeraddr) = 16"
    using l p by (simp_all add: bytes_at_def)
  note inj = inet_text.ntop_inject [OF lib(1) len(1,2)] inet_text.ntop_inject [OF lib(2) len(3,4)]
    object_value_inject [OF len(1,2), where 'a = 32 and h = h]
  have digits: "CHR '':'' \<notin> set (dec_digits n)" for n using dec_digits_digits [of n] by (auto simp: is_digit_def)
  have split: "A @ '':'' @ dec_digits m = B @ '':'' @ dec_digits n \<longleftrightarrow> A = B \<and> m = n" for A B m n
    using last_colon [of A "dec_digits m" B "dec_digits n"] digits by auto
  have u: "unat v = unat w \<longleftrightarrow> v = w" for v w :: "16 word" by (auto intro: unsigned_word_eqI)
  have texts: "InetAddress_toIpPort h ntop4 ntop6 localaddr = InetAddress_toIpPort h ntop4 ntop6 peeraddr \<longleftrightarrow>
    inet_text_of h ntop4 ntop6 localaddr = inet_text_of h ntop4 ntop6 peeraddr \<and>
    InetAddress_toPort h localaddr = InetAddress_toPort h peeraddr"
    using toIpPort_text(2) [OF lib l] toIpPort_text(2) [OF lib p(1), of h] l(2) p(2) split u by simp
  have differ: "AF_INET \<noteq> AF_INET6" by (simp add: AF_INET_def AF_INET6_def)
  show ?thesis
  proof (cases "InetAddress_family h localaddr = AF_INET")
    case True
    then show ?thesis
      unfolding texts using p(2) inj(1,3)
      by (auto simp: sockets_isSelfConnect_def inet_text_of_def InetAddress_toPort_def port_wire_inject)
  next
    case False
    then show ?thesis
      unfolding texts using l(2) p(2) inj(2)
      by (auto simp: sockets_isSelfConnect_def inet_text_of_def InetAddress_toPort_def port_wire_inject)
  qed
qed


text \<open>What \<open>TcpServer\<close> and \<open>TcpClient\<close> put into the names of their connections.\<close>

lemma InetAddress_toIpPort_length:
  assumes lib: "inet_text ntop4 pton4 4 INET_ADDRSTRLEN" "inet_text ntop6 pton6 16 INET6_ADDRSTRLEN"
    and a: "length a = 28" "InetAddress_family h a = AF_INET \<or> InetAddress_family h a = AF_INET6"
    and s: "InetAddress_toIpPort h ntop4 ntop6 a = Inr s"
  shows "length s \<le> 51" and "InetAddress_family h a = AF_INET \<Longrightarrow> length s \<le> 21"
  using toIpPort_text(2,3) [OF lib a] s by (auto split: if_splits)

end
