(* ===== verification/Socket.thy ===== *)
theory Socket
  imports Inet_Address Acceptor
begin

text \<open>
  \<open>src/muduo/net/Socket.h\<close>, \<open>Socket.cpp\<close>, and what \<open>SocketsOps.cpp\<close> makes of \<open>SO_ERROR\<close>: a socket, its options
  and its statistics. The record holds the descriptor and the options as the kernel has them; what a
  system call returns is a parameter. The functions that call \<open>bind\<close>, \<open>listen\<close> and \<open>accept4\<close> are in \<open>Acceptor\<close>.
\<close>

section \<open>Options\<close>

record socket =
  so_fd :: int
  so_noDelay :: bool
  so_reuseAddr :: bool
  so_reusePort :: bool
  so_keepAlive :: bool
  so_open :: bool
  so_shut :: bool          \<comment> \<open>the sending side is shut down\<close>

definition Socket_new :: "int \<Rightarrow> socket" where
  "Socket_new sockfd = \<lparr>so_fd = sockfd, so_noDelay = False, so_reuseAddr = False, so_reusePort = False,
     so_keepAlive = False, so_open = True, so_shut = False\<rparr>"

definition Socket_delete :: "socket \<Rightarrow> socket" where
  "Socket_delete s = s\<lparr>so_open := False\<rparr>"

text \<open>\<open>ret\<close> is the result of \<open>setsockopt\<close>, which is only looked at to log a line.\<close>

definition Socket_setTcpNoDelay :: "int \<Rightarrow> bool \<Rightarrow> socket \<Rightarrow> socket" where
  "Socket_setTcpNoDelay ret on s = (if ret = 0 then s\<lparr>so_noDelay := on\<rparr> else s)"

definition Socket_setReuseAddr :: "int \<Rightarrow> bool \<Rightarrow> socket \<Rightarrow> socket" where
  "Socket_setReuseAddr ret on s = (if ret = 0 then s\<lparr>so_reuseAddr := on\<rparr> else s)"

definition Socket_setReusePort :: "int \<Rightarrow> bool \<Rightarrow> socket \<Rightarrow> socket" where
  "Socket_setReusePort ret on s = (if ret = 0 then s\<lparr>so_reusePort := on\<rparr> else s)"

definition Socket_setKeepAlive :: "int \<Rightarrow> bool \<Rightarrow> socket \<Rightarrow> socket" where
  "Socket_setKeepAlive ret on s = (if ret = 0 then s\<lparr>so_keepAlive := on\<rparr> else s)"

definition sockets_shutdownWrite :: "int \<Rightarrow> socket \<Rightarrow> socket" where
  "sockets_shutdownWrite ret s = (if ret < 0 then s else s\<lparr>so_shut := True\<rparr>)"

definition sockets_getSocketError :: "int \<Rightarrow> int \<Rightarrow> int \<Rightarrow> int" where
  "sockets_getSocketError ret errno optval = (if ret < 0 then errno else optval)"

text \<open>\<open>ret\<close> is the result of \<open>bind\<close>, \<open>listen\<close> or \<open>shutdown\<close>.\<close>

definition Socket_bindAddress :: "int \<Rightarrow> unit result" where
  "Socket_bindAddress ret = sockets_bindOrDie ret"

definition Socket_listen :: "int \<Rightarrow> unit result" where
  "Socket_listen ret = sockets_listenOrDie ret"

definition Socket_shutdownWrite :: "int \<Rightarrow> socket \<Rightarrow> socket" where
  "Socket_shutdownWrite ret s = sockets_shutdownWrite ret s"

text \<open>The descriptor and \<open>errno\<close>, and the address that \<open>accept4\<close> stored.\<close>

definition Socket_accept ::
  "accept_result \<Rightarrow> char list \<Rightarrow> char list \<Rightarrow> inet_address \<Rightarrow> (int \<times> int \<times> inet_address) result" where
  "Socket_accept r stored obj peeraddr =
     (let addr = put_at 0 stored (memZero 28 obj)
      in andThen (sockets_accept r) (\<lambda>(connfd, errno).
         if 0 \<le> connfd then Inr (connfd, errno, InetAddress_setSockAddrInet6 addr peeraddr)
         else Inr (connfd, errno, peeraddr)))"

section \<open>Statistics\<close>

record tcp_info =
  tcpi_retransmits :: "8 word"
  tcpi_rto :: "32 word"
  tcpi_ato :: "32 word"
  tcpi_snd_mss :: "32 word"
  tcpi_rcv_mss :: "32 word"
  tcpi_lost :: "32 word"
  tcpi_retrans :: "32 word"
  tcpi_rtt :: "32 word"
  tcpi_rttvar :: "32 word"
  tcpi_snd_ssthresh :: "32 word"
  tcpi_snd_cwnd :: "32 word"
  tcpi_total_retrans :: "32 word"

definition memZero_tcp_info :: tcp_info where
  "memZero_tcp_info = \<lparr>tcpi_retransmits = 0, tcpi_rto = 0, tcpi_ato = 0, tcpi_snd_mss = 0, tcpi_rcv_mss = 0, tcpi_lost = 0,
     tcpi_retrans = 0, tcpi_rtt = 0, tcpi_rttvar = 0, tcpi_snd_ssthresh = 0, tcpi_snd_cwnd = 0, tcpi_total_retrans = 0\<rparr>"

text \<open>\<open>getsockopt\<close> stores the statistics, or fails.\<close>

definition Socket_getTcpInfo :: "tcp_info option \<Rightarrow> bool \<times> tcp_info" where
  "Socket_getTcpInfo info = (case info of None \<Rightarrow> (False, memZero_tcp_info) | Some i \<Rightarrow> (True, i))"

definition tcp_info_fields :: "tcp_info \<Rightarrow> (char list \<times> int) list" where
  "tcp_info_fields i =
     [(''unrecovered='', uint (tcpi_retransmits i)), (''rto='', uint (tcpi_rto i)), (''ato='', uint (tcpi_ato i)),
      (''snd_mss='', uint (tcpi_snd_mss i)), (''rcv_mss='', uint (tcpi_rcv_mss i)), (''lost='', uint (tcpi_lost i)),
      (''retrans='', uint (tcpi_retrans i)), (''rtt='', uint (tcpi_rtt i)), (''rttvar='', uint (tcpi_rttvar i)),
      (''sshthresh='', uint (tcpi_snd_ssthresh i)), (''cwnd='', uint (tcpi_snd_cwnd i)),
      (''total_retrans='', uint (tcpi_total_retrans i))]"

definition tcp_info_text :: "tcp_info \<Rightarrow> char list" where
  "tcp_info_text i = concat (map (\<lambda>(name, v). name @ decimal v @ '' '') (tcp_info_fields i))"

text \<open>What \<open>buf\<close> holds then.\<close>

definition Socket_getTcpInfoString :: "tcp_info option \<Rightarrow> char list \<Rightarrow> nat \<Rightarrow> bool \<times> char list" where
  "Socket_getTcpInfoString info buf len =
     (case Socket_getTcpInfo info of (ok, tcpi) \<Rightarrow> (ok, if ok then snprintf len (tcp_info_text tcpi) else buf))"

definition TcpConnection_getTcpInfoString :: "tcp_info option \<Rightarrow> char list" where
  "TcpConnection_getTcpInfoString info = snd (Socket_getTcpInfoString info [] 1024)"

section \<open>Facts\<close>

lemma length_decimal_word:
  assumes "LENGTH('a::len) \<le> 32"
  shows "length (decimal (uint (v :: 'a word))) \<le> 10"
proof -
  have "unat v < 2 ^ LENGTH('a)" by (rule unsigned_less)
  also have "(2::nat) ^ LENGTH('a) \<le> 2 ^ 32" by (rule power_increasing [OF assms]) simp
  also have "(2::nat) ^ 32 < 10 ^ 10" by simp
  finally have "unat v < 10 ^ 10" .
  then have "length (dec_digits (unat v)) \<le> 10" by (rule length_dec_digits) simp
  then show ?thesis by (simp add: decimal_def)
qed

text \<open>The text is never cut off.\<close>

lemma TcpConnection_getTcpInfoString_fits: "TcpConnection_getTcpInfoString (Some i) = tcp_info_text i"
proof -
  have d: "length (decimal (uint v)) \<le> 10" "length (decimal (uint w)) \<le> 10" for v :: "32 word" and w :: "8 word"
    by (simp_all add: length_decimal_word)
  have "length (tcp_info_text i) \<le> 1023"
    using d(1) [of "tcpi_rto i"] d(1) [of "tcpi_ato i"] d(1) [of "tcpi_snd_mss i"] d(1) [of "tcpi_rcv_mss i"]
      d(1) [of "tcpi_lost i"] d(1) [of "tcpi_retrans i"] d(1) [of "tcpi_rtt i"] d(1) [of "tcpi_rttvar i"]
      d(1) [of "tcpi_snd_ssthresh i"] d(1) [of "tcpi_snd_cwnd i"] d(1) [of "tcpi_total_retrans i"]
      d(2) [of "tcpi_retransmits i"]
    by (simp add: tcp_info_text_def tcp_info_fields_def)
  then show ?thesis
    by (simp add: TcpConnection_getTcpInfoString_def Socket_getTcpInfoString_def Socket_getTcpInfo_def snprintf_def)
qed

text \<open>The peer of an accepted connection is what \<open>accept4\<close> stored; without a connection the address stays.\<close>

lemma Socket_accept_peer:
  assumes "Socket_accept r stored obj peeraddr = Inr (connfd, errno, peeraddr')"
    and "length stored \<le> 28" and "length obj = 28" and "length peeraddr = 28"
  shows "connfd < 0 \<Longrightarrow> peeraddr' = peeraddr" and "0 \<le> connfd \<Longrightarrow> bytes_at 0 (length stored) peeraddr' = stored"
  using assms by (auto simp: Socket_accept_def InetAddress_setSockAddrInet6_def result_simps Let_def bytes_at_def put_at_def
      split: if_splits)

end
