(* ===== verification/Time_Text.thy ===== *)
theory Time_Text
  imports Log_Line Date Std_Map "HOL-Library.Product_Lexorder"
begin

text \<open>
  \<open>Timestamp::toFormattedString\<close> of \<open>src/muduo/base/Timestamp.cpp\<close> and \<open>Date::getLocalDate\<close> of
  \<open>src/muduo/base/Date.cpp\<close>, with what \<open>gmtime_r\<close> has to do with the
  calendar of \<open>Date\<close>. \<open>gmtime_r\<close> is a parameter; \<open>utc\<close> is what POSIX says of it.
\<close>

section \<open>The text\<close>

definition Timestamp_toFormattedString :: "(int \<Rightarrow> tm) \<Rightarrow> bool \<Rightarrow> timestamp \<Rightarrow> string" where
  "Timestamp_toFormattedString gmtime showMicroseconds t =
     (let seconds = t sdiv kMicroSecondsPerSecond;
          tm_time = gmtime seconds;
          day = space_padded 4 (tm_year tm_time + 1900) @ zero_padded 2 (tm_mon tm_time + 1) @ zero_padded 2 (tm_mday tm_time);
          clock = zero_padded 2 (tm_hour tm_time) @ '':'' @ zero_padded 2 (tm_min tm_time) @ '':'' @ zero_padded 2 (tm_sec tm_time)
      in if showMicroseconds then
           let microseconds = t smod kMicroSecondsPerSecond
           in snprintf 64 (day @ '' '' @ clock @ ''.'' @ zero_padded 6 microseconds)
         else snprintf 64 (day @ '' '' @ clock))"

definition Timestamp_swap :: "timestamp \<Rightarrow> timestamp \<Rightarrow> timestamp \<times> timestamp" where
  "Timestamp_swap this that = (that, this)"

definition Timestamp_less :: "timestamp \<Rightarrow> timestamp \<Rightarrow> bool" where
  "Timestamp_less lhs rhs \<longleftrightarrow> lhs < rhs"

definition Timestamp_equal :: "timestamp \<Rightarrow> timestamp \<Rightarrow> bool" where
  "Timestamp_equal lhs rhs \<longleftrightarrow> lhs = rhs"

text \<open>\<open>tv_sec\<close> is what \<open>gettimeofday\<close> gives.\<close>

definition Date_getLocalDate :: "(int \<Rightarrow> tm) \<Rightarrow> int \<Rightarrow> date" where
  "Date_getLocalDate gmtime tv_sec =
     (let t = gmtime tv_sec in Date_of_tm (tm_year t) (tm_mon t) (tm_mday t))"

definition Date_swap :: "date \<Rightarrow> date \<Rightarrow> date \<times> date" where
  "Date_swap this that = (that, this)"

text \<open>\<open>Condition::waitForSeconds\<close>: the deadline for \<open>pthread_cond_timedwait\<close> from what \<open>clock_gettime\<close> gives, and the
  result from what it returns. The sleep itself is the one of \<open>Condition_wait\<close>, whose step back to the mutex
  without a signal stands for the timeout as well.\<close>

definition ETIMEDOUT :: int where "ETIMEDOUT = 110"

definition Condition_waitForSeconds :: "(rat \<Rightarrow> double) \<Rightarrow> int \<times> int \<Rightarrow> double \<Rightarrow> int \<Rightarrow> (int \<times> int) \<times> bool" where
  "Condition_waitForSeconds rnd now seconds ret =
     (case now of (tv_sec, tv_nsec) \<Rightarrow>
        let kNanoSecondsPerSecond = 1000000000;
            nanoseconds = Timestamp.truncate (rnd (seconds * of_int kNanoSecondsPerSecond));
            abstime = (tv_sec + (tv_nsec + nanoseconds) sdiv kNanoSecondsPerSecond, (tv_nsec + nanoseconds) smod kNanoSecondsPerSecond)
        in (abstime, ETIMEDOUT = ret))"

lemma waitForSeconds_deadline:
  assumes "rounding rnd" and "0 \<le> seconds" and "0 \<le> tv_nsec"
    and "Condition_waitForSeconds rnd (tv_sec, tv_nsec) seconds ret = ((sec, nsec), timeout)"
  shows "0 \<le> nsec \<and> nsec < 10 ^ 9 \<and>
    10 ^ 9 * sec + nsec = 10 ^ 9 * tv_sec + tv_nsec + Timestamp.truncate (rnd (seconds * 10 ^ 9))"
proof -
  define n where "n = Timestamp.truncate (rnd (seconds * 10 ^ 9))"
  have n: "0 \<le> tv_nsec + n"
    using rounding_nonneg [OF assms(1), of "seconds * 10 ^ 9"] assms(2,3) by (simp add: n_def Timestamp.truncate_def)
  have "sec = tv_sec + (tv_nsec + n) div 10 ^ 9" "nsec = (tv_nsec + n) mod 10 ^ 9"
    using assms(4) n by (auto simp: Condition_waitForSeconds_def Let_def n_def sdiv_nonneg smod_nonneg)
  then show ?thesis using mult_div_mod_eq [of "10 ^ 9" "tv_nsec + n"] by (simp add: n_def)
qed

section \<open>Digits are sorted like numbers\<close>

lemma dec_value_bounds:
  "\<forall>c \<in> set zs. is_digit c \<Longrightarrow> m * 10 ^ length zs \<le> dec_value m zs \<and> dec_value m zs < (m + 1) * 10 ^ length zs"
proof (induction zs arbitrary: m)
  case (Cons z zs)
  define d where "d = (of_char z :: nat) - 48"
  have d: "d \<le> 9" using Cons.prems by (auto simp: is_digit_def d_def)
  have IH: "(10 * m + d) * 10 ^ length zs \<le> dec_value (10 * m + d) zs"
    "dec_value (10 * m + d) zs < (10 * m + d + 1) * 10 ^ length zs"
    using Cons.IH [of "10 * m + d"] Cons.prems by simp_all
  have "(10 * m) * 10 ^ length zs \<le> (10 * m + d) * 10 ^ length zs" by (rule mult_right_mono) simp_all
  moreover have "(10 * m + d + 1) * 10 ^ length zs \<le> (10 * m + 10) * 10 ^ length zs"
    by (rule mult_right_mono) (use d in simp_all)
  ultimately show ?case using IH by (simp add: d_def algebra_simps)
qed simp

lemma digits_less:
  "length xs = length ys \<Longrightarrow> \<forall>c \<in> set xs. is_digit c \<Longrightarrow> \<forall>c \<in> set ys. is_digit c \<Longrightarrow>
   xs < ys \<longleftrightarrow> dec_value a xs < dec_value a ys"
proof (induction xs ys arbitrary: a rule: list_induct2)
  case (Cons x xs y ys)
  define d e where "d = 10 * a + ((of_char x :: nat) - 48)" and "e = 10 * a + ((of_char y :: nat) - 48)"
  have x: "(48::nat) \<le> of_char x" "(48::nat) \<le> of_char y" using Cons.prems by (auto simp: is_digit_def)
  have "(of_char x :: nat) < of_char y \<longleftrightarrow> d < e" "(of_char x :: nat) = of_char y \<longleftrightarrow> d = e"
    using x unfolding d_def e_def by linarith+
  then have xy: "x < y \<longleftrightarrow> d < e" "x = y \<longleftrightarrow> d = e" by (simp_all add: less_char_def)
  have gap: "dec_value u us < dec_value v vs"
    if "u < v" "length us = length vs" "\<forall>c \<in> set us. is_digit c" "\<forall>c \<in> set vs. is_digit c" for u v us vs
  proof -
    have "dec_value u us < (u + 1) * 10 ^ length us" using dec_value_bounds [OF that(3)] by blast
    also have "\<dots> \<le> v * 10 ^ length vs" unfolding that(2) by (rule mult_right_mono) (use that(1) in simp_all)
    also have "\<dots> \<le> dec_value v vs" using dec_value_bounds [OF that(4)] by blast
    finally show ?thesis .
  qed
  have ds: "\<forall>c \<in> set xs. is_digit c" "\<forall>c \<in> set ys. is_digit c" using Cons.prems by auto
  have "x # xs < y # ys \<longleftrightarrow> d < e \<or> d = e \<and> dec_value d xs < dec_value e ys"
    using Cons.IH [OF ds, of d] xy by auto
  also have "\<dots> \<longleftrightarrow> dec_value d xs < dec_value e ys"
  proof -
    have "d < e \<Longrightarrow> dec_value d xs < dec_value e ys" "e < d \<Longrightarrow> dec_value e ys < dec_value d xs"
      using gap ds Cons.hyps by simp_all
    then show ?thesis by (cases d e rule: linorder_cases) auto
  qed
  finally show ?case by (simp add: d_def e_def)
qed simp

lemma less_blocks: "length u = length u' \<Longrightarrow> u @ v < u' @ v' \<longleftrightarrow> u < u' \<or> u = u' \<and> v < v'"
  by (induction u u' rule: list_induct2) auto

lemma padded_digits:
  assumes "0 \<le> i" and "i < 10 ^ w" and "0 < w"
  shows "length (zero_padded w i) = w" and "\<forall>c \<in> set (zero_padded w i). is_digit c" and "dec_value 0 (zero_padded w i) = nat i"
proof -
  have i: "nat i < 10 ^ w" using assms(1,2) by (simp add: nat_less_iff)
  show "length (zero_padded w i) = w" by (rule length_zero_padded [OF assms(1) i assms(3)])
  show "\<forall>c \<in> set (zero_padded w i). is_digit c"
    using assms(1) dec_digits_digits [of "nat i"] by (auto simp: zero_padded_def pad_left_def is_digit_def)
  have "dec_value 0 (replicate n (CHR ''0'') @ ds) = dec_value 0 ds" for n ds by (induction n) simp_all
  then show "dec_value 0 (zero_padded w i) = nat i" using assms(1) by (simp add: zero_padded_def pad_left_def)
qed

lemma padded_less:
  assumes "0 \<le> i" and "i < 10 ^ w" and "0 \<le> j" and "j < 10 ^ w" and "0 < w"
  shows "zero_padded w i @ v < zero_padded w j @ v' \<longleftrightarrow> i < j \<or> i = j \<and> v < v'"
    and "zero_padded w i @ v = zero_padded w j @ v' \<longleftrightarrow> i = j \<and> v = v'"
proof -
  note i = padded_digits [OF assms(1,2,5)] and j = padded_digits [OF assms(3,4,5)]
  have less: "zero_padded w i < zero_padded w j \<longleftrightarrow> i < j"
    using digits_less [OF _ i(2) j(2), of 0] i j assms(1,3) by auto
  have eq: "zero_padded w i = zero_padded w j \<longleftrightarrow> i = j"
    using i(3) j(3) assms(1,3) by (metis nat_eq_iff2 nat_0_le)
  show "zero_padded w i @ v < zero_padded w j @ v' \<longleftrightarrow> i < j \<or> i = j \<and> v < v'"
    using less_blocks [of "zero_padded w i" "zero_padded w j"] i(1) j(1) less eq by simp
  show "zero_padded w i @ v = zero_padded w j @ v' \<longleftrightarrow> i = j \<and> v = v'" using i(1) j(1) eq by simp
qed

lemma year_padded: "1000 \<le> y \<Longrightarrow> space_padded 4 y = zero_padded 4 y"
proof -
  assume y: "1000 \<le> y"
  have "dec_value 0 (dec_digits (nat y)) < (0 + 1) * 10 ^ length (dec_digits (nat y))"
    using dec_value_bounds dec_digits_digits by blast
  then have "nat y < 10 ^ length (dec_digits (nat y))" by simp
  then have "(10::nat) ^ 3 < 10 ^ length (dec_digits (nat y))" by (rule le_less_trans [rotated]) (use y in simp)
  then have "3 < length (dec_digits (nat y))" by (rule power_less_imp_less_exp [rotated]) simp
  then show ?thesis using y by (simp add: space_padded_def zero_padded_def decimal_def pad_left_def)
qed

section \<open>The calendar in order\<close>

lemma julian_after:
  fixes j' :: int
  assumes "- 4800 < y" and "date_ok y m d" and "getJulianDayNumber y m d \<le> j'"
  shows "\<exists>y' m' d'. - 4800 < y' \<and> date_ok y' m' d' \<and> getJulianDayNumber y' m' d' = j' \<and> (y, m, d) \<le> (y', m', d')"
  using assms(3)
proof (induction j' rule: int_ge_induct)
  case base
  then show ?case using assms(1,2) by blast
next
  case (step j')
  then obtain y' m' d' where a: "- 4800 < y'" "date_ok y' m' d'" "getJulianDayNumber y' m' d' = j'" "(y, m, d) \<le> (y', m', d')"
    by blast
  obtain y2 m2 d2 where n: "next_day (y', m', d') = (y2, m2, d2)" by (cases "next_day (y', m', d')")
  have "(y', m', d') \<le> (y2, m2, d2)" using n by (auto simp: next_day_def split: if_splits)
  moreover have "date_ok y2 m2 d2" "y' \<le> y2" "getJulianDayNumber y2 m2 d2 = j' + 1"
    using next_day_ok [OF a(2) n] julian_next_day [OF a(1,2) n] a(3) by simp_all
  ultimately show ?case using a(1,4) by (metis less_le_trans order_trans)
qed

lemma order_agrees:
  fixes a a' :: "'a::linorder" and b b' :: "'b::order"
  assumes "a \<le> a' \<Longrightarrow> b \<le> b'" and "a' \<le> a \<Longrightarrow> b' \<le> b" and "a = a' \<longleftrightarrow> b = b'"
  shows "a < a' \<longleftrightarrow> b < b'"
  using assms by (cases a a' rule: linorder_cases) (auto simp: less_le)

lemma julian_order:
  assumes "- 4800 < y" "date_ok y m d" "- 4800 < y'" "date_ok y' m' d'"
  shows "getJulianDayNumber y m d < getJulianDayNumber y' m' d' \<longleftrightarrow> (y, m, d) < (y', m', d')"
    and "getJulianDayNumber y m d = getJulianDayNumber y' m' d' \<longleftrightarrow> (y, m, d) = (y', m', d')"
proof -
  have inj: "(a, b, c) = (a', b', c')"
    if "- 4800 < a" "date_ok a b c" "- 4800 < a'" "date_ok a' b' c'" "getJulianDayNumber a b c = getJulianDayNumber a' b' c'"
    for a b c a' b' c'
  proof -
    have "\<lparr>ymd_year = a, ymd_month = b, ymd_day = c\<rparr> = \<lparr>ymd_year = a', ymd_month = b', ymd_day = c'\<rparr>"
      using march_year [OF that(1,2)] march_year [OF that(3,4)] unfolding that(5) by (rule trans [OF sym])
    then show ?thesis by simp
  qed
  have le: "(a, b, c) \<le> (a', b', c')"
    if "- 4800 < a" "date_ok a b c" "- 4800 < a'" "date_ok a' b' c'" "getJulianDayNumber a b c \<le> getJulianDayNumber a' b' c'"
    for a b c a' b' c'
    using julian_after [OF that(1,2,5)] inj that(3,4) by blast
  show eq: "getJulianDayNumber y m d = getJulianDayNumber y' m' d' \<longleftrightarrow> (y, m, d) = (y', m', d')"
    using inj [OF assms] by auto
  show "getJulianDayNumber y m d < getJulianDayNumber y' m' d' \<longleftrightarrow> (y, m, d) < (y', m', d')"
    by (rule order_agrees [OF le [OF assms] le [OF assms(3,4,1,2)] eq])
qed

section \<open>The order of the texts\<close>

text \<open>POSIX: the seconds since the epoch of a date and a time of day, up to the end of the year 9999.\<close>

definition utc :: "(int \<Rightarrow> tm) \<Rightarrow> bool" where
  "utc gmtime \<longleftrightarrow> (\<forall>s. 0 \<le> s \<and> s < 253402300800 \<longrightarrow>
     (let t = gmtime s
      in - 4800 < tm_year t + 1900 \<and> date_ok (tm_year t + 1900) (tm_mon t + 1) (tm_mday t) \<and>
         0 \<le> tm_hour t \<and> tm_hour t < 24 \<and> 0 \<le> tm_min t \<and> tm_min t < 60 \<and> 0 \<le> tm_sec t \<and> tm_sec t < 60 \<and>
         s = 86400 * (Date_of_tm (tm_year t) (tm_mon t) (tm_mday t) - kJulianDayOf1970_01_01) +
             3600 * tm_hour t + 60 * tm_min t + tm_sec t))"

definition stamp_text :: "tm \<Rightarrow> string \<Rightarrow> string" where
  "stamp_text t rest = zero_padded 4 (tm_year t + 1900) @ zero_padded 2 (tm_mon t + 1) @ zero_padded 2 (tm_mday t) @ CHR '' '' #
     zero_padded 2 (tm_hour t) @ CHR '':'' # zero_padded 2 (tm_min t) @ CHR '':'' # zero_padded 2 (tm_sec t) @ rest"

lemma lex_pair: "(a, b) < (c, d) \<longleftrightarrow> a < c \<or> a = c \<and> b < (d :: 'b::ord)" for a c :: "'a::order"
  by (auto simp: le_less)

lemma stamp_less:
  assumes "tm_ok t" and "tm_ok u"
  shows "stamp_text t r < stamp_text u r' \<longleftrightarrow>
      (tm_year t, tm_mon t, tm_mday t) < (tm_year u, tm_mon u, tm_mday u) \<or>
      (tm_year t, tm_mon t, tm_mday t) = (tm_year u, tm_mon u, tm_mday u) \<and>
        ((tm_hour t, tm_min t, tm_sec t) < (tm_hour u, tm_min u, tm_sec u) \<or>
         (tm_hour t, tm_min t, tm_sec t) = (tm_hour u, tm_min u, tm_sec u) \<and> r < r')"
    and "length (stamp_text t r) = 17 + length r"
proof -
  note p2 = padded_less(1) [where w = 2, simplified] and p4 = padded_less(1) [where w = 4, simplified]
  show "stamp_text t r < stamp_text u r' \<longleftrightarrow>
      (tm_year t, tm_mon t, tm_mday t) < (tm_year u, tm_mon u, tm_mday u) \<or>
      (tm_year t, tm_mon t, tm_mday t) = (tm_year u, tm_mon u, tm_mday u) \<and>
        ((tm_hour t, tm_min t, tm_sec t) < (tm_hour u, tm_min u, tm_sec u) \<or>
         (tm_hour t, tm_min t, tm_sec t) = (tm_hour u, tm_min u, tm_sec u) \<and> r < r')"
    using assms unfolding stamp_text_def tm_ok_def by (simp add: p2 p4 add1_zle_eq lex_pair del: less_prod_simp) blast
  show "length (stamp_text t r) = 17 + length r"
    using assms by (simp add: tm_ok_def stamp_text_def length_zero_padded nat_less_iff)
qed

lemma clock_order:
  fixes D D' :: int
  assumes "0 \<le> h" "h < 24" "0 \<le> m" "m < 60" "0 \<le> s" "s < 60" "0 \<le> h'" "h' < 24" "0 \<le> m'" "m' < 60" "0 \<le> s'" "s' < (60 :: int)"
  shows "86400 * D + 3600 * h + 60 * m + s < 86400 * D' + 3600 * h' + 60 * m' + s' \<longleftrightarrow>
      D < D' \<or> D = D' \<and> (h, m, s) < (h', m', s')"
    and "86400 * D + 3600 * h + 60 * m + s = 86400 * D' + 3600 * h' + 60 * m' + s' \<longleftrightarrow> D = D' \<and> (h, m, s) = (h', m', s')"
proof -
  show "86400 * D + 3600 * h + 60 * m + s < 86400 * D' + 3600 * h' + 60 * m' + s' \<longleftrightarrow>
      D < D' \<or> D = D' \<and> (h, m, s) < (h', m', s')"
    using assms by (cases D D' rule: linorder_cases; cases h h' rule: linorder_cases; cases m m' rule: linorder_cases; simp)
  show "86400 * D + 3600 * h + 60 * m + s = 86400 * D' + 3600 * h' + 60 * m' + s' \<longleftrightarrow> D = D' \<and> (h, m, s) = (h', m', s')"
    using assms by (cases D D' rule: linorder_cases; cases h h' rule: linorder_cases; cases m m' rule: linorder_cases; simp)
qed

text \<open>What \<open>utc\<close> says of one second; the year has four digits.\<close>

lemma julian_1970: "kJulianDayOf1970_01_01 = 2440588" "getJulianDayNumber 10000 1 1 = 2440588 + 2932897"
  by (simp_all add: kJulianDayOf1970_01_01_def getJulianDayNumber_def sdiv_nonneg)

lemma utc_second:
  assumes "utc gmtime" and "0 \<le> s" and "s < 253402300800"
  defines "t \<equiv> gmtime s"
  defines "J \<equiv> getJulianDayNumber (tm_year t + 1900) (tm_mon t + 1) (tm_mday t)"
  shows "- 4800 < tm_year t + 1900" and "date_ok (tm_year t + 1900) (tm_mon t + 1) (tm_mday t)"
    and "0 \<le> tm_hour t" "tm_hour t < 24" "0 \<le> tm_min t" "tm_min t < 60" "0 \<le> tm_sec t" "tm_sec t < 60"
    and "s = 86400 * (J - 2440588) + 3600 * tm_hour t + 60 * tm_min t + tm_sec t"
    and "1000 \<le> tm_year t + 1900" and "tm_ok t" and "J = 2440588 + s div 86400"
proof -
  note u = assms(1) [unfolded utc_def, rule_format, OF conjI, OF assms(2,3), unfolded Let_def, folded t_def]
  show y: "- 4800 < tm_year t + 1900" and d: "date_ok (tm_year t + 1900) (tm_mon t + 1) (tm_mday t)"
    and c: "0 \<le> tm_hour t" "tm_hour t < 24" "0 \<le> tm_min t" "tm_min t < 60" "0 \<le> tm_sec t" "tm_sec t < 60"
    using u by simp_all
  show s: "s = 86400 * (J - 2440588) + 3600 * tm_hour t + 60 * tm_min t + tm_sec t"
    using u by (simp add: J_def Date_of_tm_def julian_1970)
  have "s = 86400 * (J - 2440588) + (3600 * tm_hour t + 60 * tm_min t + tm_sec t)" using s by simp
  moreover have "0 \<le> 3600 * tm_hour t + 60 * tm_min t + tm_sec t" "3600 * tm_hour t + 60 * tm_min t + tm_sec t < 86400"
    using c by linarith+
  ultimately have "s div 86400 = J - 2440588" by (simp add: div_pos_pos_trivial)
  then show Jd: "J = 2440588 + s div 86400" by simp
  have "0 \<le> s div 86400" "s div 86400 < 2932897" using assms(2,3) by (simp_all add: div_less_iff_less_mult)
  then have J: "2440588 \<le> J" "J < 2440588 + 2932897" unfolding Jd by simp_all
  have epoch: "date_ok 1970 1 1" "date_ok 10000 1 1" by (simp_all add: date_ok_def month_days_def)
  have "\<not> (tm_year t + 1900, tm_mon t + 1, tm_mday t) < (1970, 1, 1)"
    using julian_order(1) [OF y d _ epoch(1)] J(1) julian_1970(1) by (simp add: J_def kJulianDayOf1970_01_01_def)
  then show low: "1000 \<le> tm_year t + 1900" by auto
  have "(tm_year t + 1900, tm_mon t + 1, tm_mday t) < (10000, 1, 1)"
    using julian_order(1) [OF y d _ epoch(2)] J(2) julian_1970(2) by (simp add: J_def)
  then have "tm_year t + 1900 < 10000" using d by (auto simp: date_ok_def)
  moreover have "tm_mday t \<le> 31" using d by (auto simp: date_ok_def month_days_def split: if_splits)
  ultimately show "tm_ok t" using low d c by (simp add: tm_ok_def date_ok_def)
qed

lemma Date_getLocalDate_utc:
  "utc gmtime \<Longrightarrow> 0 \<le> s \<Longrightarrow> s < 253402300800 \<Longrightarrow> Date_getLocalDate gmtime s = kJulianDayOf1970_01_01 + s div 86400"
  using utc_second(12) [of gmtime s] by (simp add: Date_getLocalDate_def Date_of_tm_def julian_1970(1))

lemma formatted_text:
  assumes "utc gmtime" and "0 \<le> t" and "t < 253402300800 * 10 ^ 6"
  shows "Timestamp_toFormattedString gmtime b t =
    stamp_text (gmtime (t div 10 ^ 6)) (if b then CHR ''.'' # zero_padded 6 (t mod 10 ^ 6) else [])"
proof -
  have q: "t sdiv kMicroSecondsPerSecond = t div 10 ^ 6" "t smod kMicroSecondsPerSecond = t mod 10 ^ 6"
    using assms(2) by (simp_all add: sdiv_nonneg smod_nonneg kMicroSecondsPerSecond_def)
  have s: "0 \<le> t div 10 ^ 6" "t div 10 ^ 6 < 253402300800" using assms(2,3) by (simp_all add: div_less_iff_less_mult)
  note u = utc_second [OF assms(1) s]
  have us: "length (zero_padded 6 (t mod 10 ^ 6)) = 6" by (rule padded_digits) simp_all
  have len: "length (stamp_text (gmtime (t div 10 ^ 6)) (if b then CHR ''.'' # zero_padded 6 (t mod 10 ^ 6) else [])) \<le> 24"
    using stamp_less(2) [OF u(11) u(11)] us by simp
  have "snprintf 64 (stamp_text (gmtime (t div 10 ^ 6)) (if b then CHR ''.'' # zero_padded 6 (t mod 10 ^ 6) else [])) =
      stamp_text (gmtime (t div 10 ^ 6)) (if b then CHR ''.'' # zero_padded 6 (t mod 10 ^ 6) else [])"
    unfolding snprintf_def by (rule take_all) (use len in simp)
  then show ?thesis
    unfolding Timestamp_toFormattedString_def q Let_def year_padded [OF u(10)]
    by (cases b) (simp_all add: stamp_text_def)
qed

text \<open>The order of the seconds is the order of the texts without microseconds.\<close>

lemma seconds_order:
  assumes "utc gmtime" and "0 \<le> s" "s < 253402300800" and "0 \<le> s'" "s' < 253402300800"
  shows "stamp_text (gmtime s) r < stamp_text (gmtime s') r' \<longleftrightarrow> s < s' \<or> s = s' \<and> r < r'"
proof -
  note u = utc_second [OF assms(1,2,3)] and v = utc_second [OF assms(1,4,5)]
  define J where "J = getJulianDayNumber (tm_year (gmtime s) + 1900) (tm_mon (gmtime s) + 1) (tm_mday (gmtime s))"
  define J' where "J' = getJulianDayNumber (tm_year (gmtime s') + 1900) (tm_mon (gmtime s') + 1) (tm_mday (gmtime s'))"
  note c = clock_order [OF u(3-8) v(3-8), of "J - 2440588" "J' - 2440588", unfolded J_def J'_def,
      folded u(9) v(9), folded J_def J'_def]
  have day: "(tm_year (gmtime s), tm_mon (gmtime s), tm_mday (gmtime s)) < (tm_year (gmtime s'), tm_mon (gmtime s'), tm_mday (gmtime s')) \<longleftrightarrow> J < J'"
    "(tm_year (gmtime s), tm_mon (gmtime s), tm_mday (gmtime s)) = (tm_year (gmtime s'), tm_mon (gmtime s'), tm_mday (gmtime s')) \<longleftrightarrow> J = J'"
    using julian_order [OF u(1,2) v(1,2)] by (simp_all add: J_def J'_def add1_zle_eq)
  have shift: "J - 2440588 < J' - 2440588 \<longleftrightarrow> J < J'" "J - 2440588 = J' - 2440588 \<longleftrightarrow> J = J'" by simp_all
  show ?thesis unfolding stamp_less(1) [OF u(11) v(11)] day c shift by blast
qed

lemma micro_order: "t div 10 ^ 6 < u div 10 ^ 6 \<or> t div 10 ^ 6 = u div 10 ^ 6 \<and> t mod 10 ^ 6 < u mod 10 ^ 6 \<longleftrightarrow> t < (u :: int)"
proof -
  have "t = 1000000 * (t div 1000000) + t mod 1000000" "u = 1000000 * (u div 1000000) + u mod 1000000"
    "0 \<le> t mod 1000000" "t mod 1000000 < 1000000" "0 \<le> u mod 1000000" "u mod 1000000 < 1000000"
    by simp_all
  then have "t div 1000000 < u div 1000000 \<or> t div 1000000 = u div 1000000 \<and> t mod 1000000 < u mod 1000000 \<longleftrightarrow> t < u"
    by (cases "t div 1000000" "u div 1000000" rule: linorder_cases) linarith+
  then show ?thesis by simp
qed

lemma formatted_less:
  assumes "utc gmtime"
    and t: "0 \<le> t" "t < 253402300800 * 10 ^ 6" and u: "0 \<le> u" "u < 253402300800 * 10 ^ 6"
  shows "Timestamp_toFormattedString gmtime True t < Timestamp_toFormattedString gmtime True u \<longleftrightarrow> t < u"
    and "Timestamp_toFormattedString gmtime False t < Timestamp_toFormattedString gmtime False u \<longleftrightarrow> t div 10 ^ 6 < u div 10 ^ 6"
proof -
  have s: "0 \<le> t div 10 ^ 6" "t div 10 ^ 6 < 253402300800" "0 \<le> u div 10 ^ 6" "u div 10 ^ 6 < 253402300800"
    using t u by (simp_all add: div_less_iff_less_mult)
  note texts = formatted_text [OF assms(1) t] formatted_text [OF assms(1) u]
  have us: "zero_padded 6 (t mod 10 ^ 6) < zero_padded 6 (u mod 10 ^ 6) \<longleftrightarrow> t mod 10 ^ 6 < u mod 10 ^ 6"
    using padded_less(1) [of "t mod 10 ^ 6" 6 "u mod 10 ^ 6" "[]" "[]"] by simp
  show "Timestamp_toFormattedString gmtime True t < Timestamp_toFormattedString gmtime True u \<longleftrightarrow> t < u"
    unfolding texts micro_order [of t u, symmetric] using us seconds_order [OF assms(1) s] by simp
  show "Timestamp_toFormattedString gmtime False t < Timestamp_toFormattedString gmtime False u \<longleftrightarrow> t div 10 ^ 6 < u div 10 ^ 6"
    unfolding texts using seconds_order [OF assms(1) s] by simp
qed

text \<open>
  C31: dates as text. Where \<open>gmtime_r\<close> does what POSIX says, and up to the end of the year 9999, the text of a
  \<open>Timestamp\<close> has 24 characters (17 without microseconds), begins with the date that \<open>Date\<close> has for the day, and
  sorts like the time: the order of the strings is the order of the timestamps, and equal strings are equal times.
\<close>

theorem Timestamp_text_sorts:
  assumes "utc gmtime"
    and t: "0 \<le> t" "t < 253402300800 * 10 ^ 6" and u: "0 \<le> u" "u < 253402300800 * 10 ^ 6"
  shows "(Timestamp_toFormattedString gmtime True t < Timestamp_toFormattedString gmtime True u \<longleftrightarrow> Timestamp_less t u) \<and>
    (Timestamp_toFormattedString gmtime True t = Timestamp_toFormattedString gmtime True u \<longleftrightarrow> Timestamp_equal t u) \<and>
    (Timestamp_toFormattedString gmtime False t < Timestamp_toFormattedString gmtime False u \<longleftrightarrow>
       Timestamp_secondsSinceEpoch t < Timestamp_secondsSinceEpoch u) \<and>
    length (Timestamp_toFormattedString gmtime True t) = 24 \<and> length (Timestamp_toFormattedString gmtime False t) = 17 \<and>
    (let date = Date_of_julian (kJulianDayOf1970_01_01 + Timestamp_secondsSinceEpoch t div 86400)
     in take 8 (Timestamp_toFormattedString gmtime True t) =
          zero_padded 4 (Date_year date) @ zero_padded 2 (Date_month date) @ zero_padded 2 (Date_day date))"
proof -
  let ?T = "\<lambda>b. Timestamp_toFormattedString gmtime b t" and ?U = "\<lambda>b. Timestamp_toFormattedString gmtime b u"
  have s: "0 \<le> t div 10 ^ 6" "t div 10 ^ 6 < 253402300800" using t by (simp_all add: div_less_iff_less_mult)
  note texts = formatted_text [OF assms(1) t]
  have secs: "Timestamp_secondsSinceEpoch t = t div 10 ^ 6" "Timestamp_secondsSinceEpoch u = u div 10 ^ 6"
    using t u by (simp_all add: Timestamp_secondsSinceEpoch_def sdiv_nonneg kMicroSecondsPerSecond_def)
  note less = formatted_less [OF assms] and greater = formatted_less [OF assms(1) u t]
  have same: "?T True = ?U True \<longleftrightarrow> t = u" using less(1) greater(1) by (metis linorder_neqE less_irrefl)
  note v = utc_second [OF assms(1) s(1,2)]
  have len: "length (zero_padded 6 (t mod 10 ^ 6)) = 6" by (rule padded_digits) simp_all
  have "length (?T True) = 24" "length (?T False) = 17" unfolding texts using stamp_less(2) [OF v(11,11)] len by simp_all
  moreover have "take 8 (?T True) = zero_padded 4 (Date_year d) @ zero_padded 2 (Date_month d) @ zero_padded 2 (Date_day d)"
    if "d = Date_of_julian (kJulianDayOf1970_01_01 + Timestamp_secondsSinceEpoch t div 86400)" for d
  proof -
    let ?m = "gmtime (t div 10 ^ 6)"
    have "Date_yearMonthDay d = \<lparr>ymd_year = tm_year ?m + 1900, ymd_month = tm_mon ?m + 1, ymd_day = tm_mday ?m\<rparr>"
      using march_year [OF v(1,2)] v(12) by (simp add: that Date_yearMonthDay_def Date_of_julian_def secs julian_1970(1))
    moreover have "length (zero_padded 4 (tm_year ?m + 1900)) = 4" "length (zero_padded 2 (tm_mon ?m + 1)) = 2"
      "length (zero_padded 2 (tm_mday ?m)) = 2"
      using v(11) by (simp_all add: tm_ok_def length_zero_padded nat_less_iff)
    ultimately show ?thesis unfolding texts by (simp add: stamp_text_def Date_year_def Date_month_def Date_day_def)
  qed
  ultimately show ?thesis
    using less same by (simp add: Timestamp_less_def Timestamp_equal_def secs Let_def)
qed

text \<open>A \<open>gmtime_r\<close> that does so, by the calendar of \<open>Date\<close>.\<close>

definition civil_time :: "int \<Rightarrow> tm" where
  "civil_time s =
     (let ymd = Date_yearMonthDay (kJulianDayOf1970_01_01 + s div 86400); r = s mod 86400
      in \<lparr>tm_year = ymd_year ymd - 1900, tm_mon = ymd_month ymd - 1, tm_mday = ymd_day ymd,
          tm_hour = r div 3600, tm_min = r mod 3600 div 60, tm_sec = r mod 60\<rparr>)"

lemma day_clock:
  fixes s :: int
  defines "r \<equiv> s mod 86400"
  shows "0 \<le> r div 3600 \<and> r div 3600 < 24 \<and> 0 \<le> r mod 3600 div 60 \<and> r mod 3600 div 60 < 60 \<and> 0 \<le> r mod 60 \<and> r mod 60 < 60 \<and>
    s = 86400 * (s div 86400) + 3600 * (r div 3600) + 60 * (r mod 3600 div 60) + r mod 60"
proof -
  define q m k x where "q = r div 3600" and "m = r mod 3600" and "k = m div 60" and "x = m mod 60"
  have r: "0 \<le> r" "r < 86400" "s = 86400 * (s div 86400) + r"
    unfolding r_def by (rule pos_mod_sign, simp, rule pos_mod_bound, simp, rule mult_div_mod_eq [symmetric])
  have m: "0 \<le> m" "m < 3600" unfolding m_def by (rule pos_mod_sign, simp, rule pos_mod_bound, simp)
  have x: "0 \<le> x" "x < 60" unfolding x_def by (rule pos_mod_sign, simp, rule pos_mod_bound, simp)
  have eqs: "r = 3600 * q + m" "m = 60 * k + x"
    unfolding q_def m_def k_def x_def by (rule mult_div_mod_eq [symmetric])+
  have pos: "0 \<le> q" "0 \<le> k" unfolding q_def k_def using r(1) m(1) by (simp_all only: pos_imp_zdiv_nonneg_iff zero_less_numeral)
  have xr: "x = r mod 60" unfolding x_def m_def by (rule mod_mod_cancel) simp
  have "q < 24" "k < 60" using r(2) m eqs x by linarith+
  moreover have "s = 86400 * (s div 86400) + 3600 * q + 60 * k + x" using r(3) eqs by linarith
  ultimately show ?thesis using pos x unfolding xr unfolding k_def m_def q_def by (intro conjI)
qed

lemma utc_civil: "utc civil_time"
  unfolding utc_def
proof (intro allI impI)
  fix s :: int
  assume "0 \<le> s \<and> s < 253402300800"
  then have "- 31738 \<le> kJulianDayOf1970_01_01 + s div 86400" by (simp add: julian_1970 pos_imp_zdiv_nonneg_iff add_increasing)
  from julian_onto [OF this] obtain y m d where ymd: "- 4800 < y" "date_ok y m d" "getJulianDayNumber y m d = kJulianDayOf1970_01_01 + s div 86400"
    by blast
  have "Date_yearMonthDay (kJulianDayOf1970_01_01 + s div 86400) = \<lparr>ymd_year = y, ymd_month = m, ymd_day = d\<rparr>"
    using march_year [OF ymd(1,2)] by (simp add: ymd(3) Date_yearMonthDay_def)
  then have c: "civil_time s = \<lparr>tm_year = y - 1900, tm_mon = m - 1, tm_mday = d, tm_hour = s mod 86400 div 3600,
      tm_min = s mod 86400 mod 3600 div 60, tm_sec = s mod 86400 mod 60\<rparr>"
    by (simp add: civil_time_def Let_def)
  show "let t = civil_time s
      in - 4800 < tm_year t + 1900 \<and> date_ok (tm_year t + 1900) (tm_mon t + 1) (tm_mday t) \<and>
         0 \<le> tm_hour t \<and> tm_hour t < 24 \<and> 0 \<le> tm_min t \<and> tm_min t < 60 \<and> 0 \<le> tm_sec t \<and> tm_sec t < 60 \<and>
         s = 86400 * (Date_of_tm (tm_year t) (tm_mon t) (tm_mday t) - kJulianDayOf1970_01_01) +
             3600 * tm_hour t + 60 * tm_min t + tm_sec t"
    unfolding c Let_def tm.simps Date_of_tm_def diff_add_cancel ymd(3) using ymd(1,2) day_clock [of s] by simp
qed

text \<open>The last microsecond of a 29 February, and the first of the day after.\<close>

theorem Timestamp_text_sorts_witness:
  "Timestamp_toFormattedString civil_time True 951868799999999 < Timestamp_toFormattedString civil_time True 951868800000000 \<and>
   take 8 (Timestamp_toFormattedString civil_time True 951868799999999) = ''20000229''"
proof -
  have d: "Date_yearMonthDay (kJulianDayOf1970_01_01 + 11016) = \<lparr>ymd_year = 2000, ymd_month = 2, ymd_day = 29\<rparr>"
  proof -
    have "date_ok 2000 2 29" "getJulianDayNumber 2000 2 29 = kJulianDayOf1970_01_01 + 11016"
      by (simp_all add: date_ok_def month_days_def leap_year_def julian_1970 getJulianDayNumber_def sdiv_nonneg)
    then show ?thesis using march_year [of 2000 2 29] by (simp add: Date_yearMonthDay_def)
  qed
  have q: "Timestamp_secondsSinceEpoch 951868799999999 div 86400 = 11016"
    by (simp add: Timestamp_secondsSinceEpoch_def sdiv_nonneg kMicroSecondsPerSecond_def)
  have "dec_digits 2000 = ''2000''" "dec_digits 2 = ''2''" "dec_digits 29 = ''29''"
    by (simp_all add: dec_digits.simps digit_char_def char_of_def bit_Suc_0_iff)
  then have z: "zero_padded 4 2000 = ''2000''" "zero_padded 2 2 = ''02''" "zero_padded 2 29 = ''29''"
    by (simp_all add: zero_padded_def pad_left_def)
  show ?thesis
    using Timestamp_text_sorts [OF utc_civil, of 951868799999999 951868800000000]
    unfolding q by (simp add: Timestamp_less_def Date_year_def Date_month_def Date_day_def Date_of_julian_def d z Let_def)
qed

end
