(* ===== verification/Spec2Isabelle.thy ===== *)
theory Spec2Isabelle
  imports Prelude Endian Buffer Decimal Std_Map Http_Request Http_Context Http_Response Http_Server
    Channel Poller EPoll_Poller Poll_Poller Timestamp Timer_Queue Timer_Expiry Timer_Properties Event_Loop
    Loop_Protocol String_Piece Tcp_Connection Conn_Invariant Conn_Properties Conn_Errors Connector Thread_Pool
    Acceptor Tcp_Server Server_Invariant Server_Properties Tcp_Client Client_Invariant Client_Steps
    Client_Properties Client_Retry
    Double Log_Format Log_SI Log_Stream Log_Line Date
    Monitor Conditions Blocking_Queue Bounded_Queue Latch Loop_Thread Thread Inet_Address Socket Time_Text
begin

text \<open>
  A verification development for \<open>learn_muduo\<close>, a network library in C++: one event loop per thread,
  non-blocking sockets, an HTTP server on top, and the base classes they need (a log, dates and times,
  queues between threads). All paths below are under \<open>src/muduo\<close>.

  \<^bold>\<open>The program.\<close> An \<open>EventLoop\<close> owns a \<open>Poller\<close> (epoll or poll), a \<open>TimerQueue\<close> and the functors that other
  threads queued. It waits in the poller, has each active \<open>Channel\<close> call its handlers, and runs the functors.
  A \<open>Channel\<close> is one descriptor with the events it asks for and its callbacks. A \<open>TcpConnection\<close> is a channel
  with an input and an output \<open>Buffer\<close> and a state; an \<open>Acceptor\<close> (server) or a \<open>Connector\<close> (client, with
  retries) makes its socket; \<open>TcpServer\<close> keeps the connections in a map and spreads them over the loops of an
  \<open>EventLoopThreadPool\<close>. The \<open>HttpServer\<close> parses requests from the input buffer with \<open>HttpContext\<close> and prints
  an \<open>HttpResponse\<close>. Whatever touches a loop from another thread goes through \<open>queueInLoop\<close>.

  \<^bold>\<open>How it is modelled.\<close> Each class is a record with the members of the class; each operation is a function
  from the record to the record, with the class name in its own (\<open>TcpConnection_handleClose\<close> is
  \<open>TcpConnection::handleClose\<close>). A call that can stop the process returns a \<open>result\<close> (\<open>Prelude\<close>): a failed
  \<open>assert\<close> (the build never sets \<open>NDEBUG\<close>), a \<open>LOG_FATAL\<close> or \<open>LOG_SYSFATAL\<close> (which abort), \<open>length_error\<close> of a
  vector, and undefined behaviour are values of \<open>error\<close>. Objects behind pointers are in a store, a map from
  addresses or numbers. \<open>size_t\<close> arithmetic wraps at \<open>2 ^ 64\<close> (\<open>size64\<close>, \<open>sub64\<close>); words are used where the code
  works on bits or on bytes; the other \<open>int\<close>s are unbounded, with the overflow written out or excluded by a
  stated bound. System calls, Boost, the allocator and the user's callbacks are parameters, with what the code
  relies on as named hypotheses (\<open>kernel_lawful\<close>, \<open>user_ok\<close>, \<open>poll_law\<close>, \<open>epoll_instance\<close>, \<open>circular_buffer\<close>,
  ...), each instantiated by the witnesses. What many threads do is a sequence of steps, in any order the contract allows.

  \<^bold>\<open>The theories.\<close>

  \<^item> Shared: \<open>Prelude\<close> (results, \<open>size_t\<close>, algorithms of the standard library), \<open>Decimal\<close> (what \<open>printf\<close> writes),
    \<open>Std_Map\<close> (\<open>std::map\<close>, \<open>std::set\<close>), \<open>Errno\<close>, \<open>Double\<close> (rounding to 53 bits).
  \<^item> Bytes: \<open>Endian\<close> (\<open>net/Endian.h\<close>) and \<open>Buffer\<close> (\<open>net/Buffer.h\<close>, \<open>.cpp\<close>): every operation refines an
    operation on the string of readable bytes (\<open>Buffer_content\<close>), through \<open>makeSpace\<close> and \<open>readFd\<close>; integers
    come back as they were appended, on any host byte order. \<open>String_Piece\<close> (\<open>base/StringPiece.h\<close>).
  \<^item> HTTP (\<open>net/http\<close>): \<open>Http_Request\<close>, \<open>Http_Context\<close>, \<open>Http_Response\<close>, \<open>Http_Server\<close>. The parser gives the same
    request however the bytes are cut into messages, and the states from which it would not end are told
    apart; responses can be framed by their reader (a response that closes the connection, by its end); the server never hangs and answers what it parsed.
  \<^item> The reactor: \<open>Channel\<close>, \<open>Poller\<close>, \<open>EPoll_Poller\<close>, \<open>Poll_Poller\<close> (\<open>net/Channel\<close>, \<open>net/Poller\<close>,
    \<open>net/EPollPoller\<close>, \<open>net/PollPoller\<close>): the locale \<open>poller\<close> is the contract of the virtual functions, and both
    pollers watch exactly the registered channels with the events they ask for. \<open>Event_Loop\<close> has the operations
    of \<open>net/EventLoop\<close> over any poller; \<open>Loop_Protocol\<close> splits \<open>queueInLoop\<close>, \<open>quit\<close> and \<open>loop\<close> into the steps that
    threads interleave: no wake-up is lost, functors run in order and in the turn they must, and \<open>quit\<close> ends the loop.
  \<^item> Timers: \<open>Timestamp\<close>, \<open>Timer_Queue\<close> (\<open>net/Timer\<close>, \<open>net/TimerId.h\<close>, \<open>net/TimerQueue\<close>), its invariant through
    \<open>handleRead\<close> in \<open>Timer_Expiry\<close>, and its promises over any run in \<open>Timer_Properties\<close>: no assertion fails, what
    is due runs, what was cancelled does not, and the alarm is set for the earliest timer. An \<open>addTimer\<close> of another
    thread is two steps, as in the code: it queues the functor (\<open>Begin_add\<close>), and it reads the timer's number
    for the \<open>TimerId\<close> (\<open>Return_add\<close>), by when the loop may have run and deleted the timer. \<open>addTime_fits\<close> says
    when \<open>addTime\<close> does not overflow; where it does, the behaviour is undefined in the model too.
  \<^item> Connections: \<open>Tcp_Connection\<close> (\<open>net/TcpConnection\<close>), its invariant in \<open>Conn_Invariant\<close>, its promises within the
    contract in \<open>Conn_Properties\<close> (the stream is intact, callbacks come in order, output drains before the end of
    the stream, the channel is used as the pollers require). \<open>write(2)\<close> may answer anything that it is documented to
    answer (\<open>kernel_lawful\<close>: it takes no more than it was given). The connection records the writes that failed,
    and \<open>conn_refused\<close> says that one of them was a failure that the code mishandles: \<open>EWOULDBLOCK\<close> for a direct write, or
    any failure in \<open>handleWrite\<close>. Until then the properties hold in full; after it, what they still promise is said in
    each. \<open>Conn_Errors\<close> has what goes wrong then.
    \<open>Acceptor\<close> (\<open>net/Acceptor\<close>, with what it uses of \<open>net/Socket\<close> and \<open>net/SocketsOps\<close>), \<open>Connector\<close>
    (\<open>net/Connector\<close>), \<open>Thread_Pool\<close> (\<open>net/EventLoopThreadPool\<close>), \<open>Tcp_Server\<close> (\<open>net/TcpServer\<close>) with
    \<open>Server_Invariant\<close> and \<open>Server_Properties\<close>: the map holds exactly the connections that are up, and the others
    are destroyed once, in their own loop.
  \<^item> The client: \<open>Tcp_Client\<close> (\<open>net/TcpClient\<close>) is the connector and the connections put together, with every
    callback between them and a client that may be deleted at any time; \<open>Client_Invariant\<close> and \<open>Client_Steps\<close> have
    its invariant. \<open>Client_Properties\<close>: at most one connection is up, and every other was reported down and
    destroyed. \<open>Client_Retry\<close>: with \<open>enableRetry\<close> the client keeps trying; and what goes wrong when the client
    is deleted in another thread.
  \<^item> Addresses: \<open>Inet_Address\<close> (\<open>net/InetAddress\<close> and the address functions of \<open>net/SocketsOps\<close>) on the bytes of
    the object, over the locale \<open>inet_text\<close> of what \<open>inet_ntop\<close> and \<open>inet_pton\<close> promise; \<open>Socket\<close> (\<open>net/Socket\<close>).
  \<^item> The log: \<open>Log_Format\<close> (number conversions of \<open>base/LogStream.cpp\<close>), \<open>Log_SI\<close> (\<open>formatSI\<close>, \<open>formatIEC\<close>),
    \<open>Log_Stream\<close> (\<open>base/LogStream.h\<close>), \<open>Log_Line\<close> (\<open>base/Logging\<close>, the thread id of \<open>base/CurrentThread\<close>), \<open>Date\<close>
    (\<open>base/Date\<close>, by the calendar it implements, with the overflow of \<open>int\<close> as undefined behaviour). \<open>Time_Text\<close> puts the calendar and \<open>Timestamp\<close> together: the text of a
    time sorts like the time.
  \<^item> Threads: \<open>Monitor\<close> (\<open>base/Mutex.h\<close>, \<open>base/Condition.h\<close>) has threads as lists of instructions and their steps
    as a relation, with spurious wake-ups; the checking of a method's use of the lock (\<open>disciplined\<close>) gives that
    \<open>MutexLock\<close>'s assertions hold, that threads are never stuck on the lock and that the operations take effect
    one after the other. \<open>Conditions\<close> has what conditions give: every run is finite but for waiting, and the
    locales \<open>wait_guard\<close>, \<open>condition\<close> (a notification for each thing to wait for) and \<open>broadcast\<close>
    (\<open>notifyAll\<close>) exclude lost wake-ups. They are interpreted by \<open>Blocking_Queue\<close>, \<open>Bounded_Queue\<close>, \<open>Latch\<close> and
    \<open>Loop_Thread\<close> (\<open>base/BlockingQueue.h\<close>, \<open>base/BoundedBlockingQueue.h\<close>, \<open>base/CountDownLatch\<close>,
    \<open>net/EventLoopThread\<close>). \<open>Thread\<close> (\<open>base/Thread\<close>, with \<open>base/Atomic.h\<close>, \<open>base/WeakCallback.h\<close> and the rest of
    \<open>base/CurrentThread\<close>) has threads from their names to how \<open>start\<close> waits for the new one: the id it reads
    without a lock is there, and the latch may be destroyed when it returns.

  \<^bold>\<open>Recursion and bounds.\<close> No definition runs on fuel. \<open>HttpContext_parse_loop\<close> is a partial function, because the
  source loops for ever in two of its states, and when it returns is a theorem; the other loops end by a
  measure. \<open>conn_drain\<close> takes the number of calls of \<open>handleWrite\<close> to make: one for each byte is enough. Buffers
  grow up to \<open>max_size\<close> of a vector; a property says \<open>done_with P\<close> when it holds short of this \<open>length_error\<close>,
  and \<open>done_unless b P\<close> when it may also stop at an assertion or at undefined behaviour where \<open>b\<close> holds.

  \<^bold>\<open>Not modelled.\<close> Memory: the lifetime of objects that a functor bound to a raw \<open>this\<close> outlives, and
  \<open>boost::any\<close> contexts. Text that only goes to the log, apart from the log itself. In
  \<open>EventLoopThread\<close> the destructor. The wrappers that only pass their arguments to one system call
  (\<open>connect\<close>, \<open>read\<close>, \<open>readv\<close>, \<open>write\<close> of \<open>net/SocketsOps.cpp\<close>), \<open>base/Exception\<close> (two strings), the headers without
  behaviour (the casts of \<open>base/Types.h\<close>, \<open>base/copyable.h\<close>, \<open>base/noncopyable.h\<close>, \<open>net/Callbacks.h\<close>), and the programs
  under \<open>src/example\<close> and \<open>src/test\<close>, which set up the classes and their callbacks. Floating point is rational
  arithmetic rounded to 53 bits (\<open>Double\<close>), or a parameter where only its error matters (\<open>Timestamp\<close>).
\<close>

end
